(* ===== verification/Sim_Prelude.thy ===== *)
theory Sim_Prelude
  imports Main "HOL-Library.Word" "HOL-Library.Signed_Division" "HOL-Library.Monad_Syntax"
begin

text \<open>
  Shared vocabulary of the development.  C++ integers are words of their width; a signed 64-bit
  value is a \<^typ>\<open>64 word\<close> read with \<^const>\<open>sint\<close>, its arithmetic is modular, and
  the lemmas of \<open>s64_simps\<close> say when the modular result is the mathematical one.  An
  operation that can trap (integer division) or leave an array returns an \<^typ>\<open>'a option\<close>,
  \<^const>\<open>None\<close> being the fault.
\<close>

unbundle bit_operations_syntax

named_theorems s64_simps \<open>exact readings of 64-bit arithmetic inside the signed range\<close>
named_theorems list_loop \<open>facts about loops that are recursion over lists\<close>

type_synonym i64 = "64 word"
type_synonym u64 = "64 word"
type_synonym i32 = "32 word"
type_synonym u32 = "32 word"

section \<open>Signed 64-bit readings\<close>

definition fits64 :: "int \<Rightarrow> bool" where
  "fits64 n \<longleftrightarrow> - (2 ^ 63) \<le> n \<and> n < 2 ^ 63"

lemma fits64_sint [simp, intro]: "fits64 (sint (w :: i64))"
  using sint_greater_eq [of w] sint_less [of w] by (simp add: fits64_def)

lemma fits64_0 [simp]: "fits64 0" and fits64_1 [simp]: "fits64 1"
  by (simp_all add: fits64_def)

lemma fits64_iff: "fits64 n \<longleftrightarrow> - 9223372036854775808 \<le> n \<and> n \<le> 9223372036854775807"
  by (auto simp: fits64_def)

lemma fits64_between: "fits64 a \<Longrightarrow> fits64 b \<Longrightarrow> a \<le> n \<Longrightarrow> n \<le> b \<Longrightarrow> fits64 n"
  by (simp add: fits64_def)

lemma fits64_div [intro]:
  assumes "fits64 n" and "0 < k"
  shows "fits64 (n div k)"
proof (cases "0 \<le> n")
  case True
  have "n div k \<le> n div 1" using True assms(2) by (intro zdiv_mono2) simp_all
  moreover have "0 \<le> n div k" using True assms(2) by (simp add: pos_imp_zdiv_nonneg_iff)
  ultimately show ?thesis using assms(1) by (simp add: fits64_iff)
next
  case False
  have "n div 1 \<le> n div k" using False assms(2) by (intro zdiv_mono2_neg) simp_all
  moreover have "n div k < 0" using False assms(2) by (simp add: pos_imp_zdiv_neg_iff)
  ultimately show ?thesis using assms(1) by (simp add: fits64_iff)
qed

lemma floor16: "n div 65536 * 65536 \<le> n" "n < n div 65536 * 65536 + 65536" for n :: int
  using pos_mod_bound [of 65536 n] pos_mod_sign [of 65536 n] div_mult_mod_eq [of n 65536]
  by linarith+

lemma stake64_id: "fits64 n \<Longrightarrow> signed_take_bit 63 n = n"
  by (rule signed_take_bit_int_eq_self) (simp_all add: fits64_def)

lemma sint64_of_int [s64_simps]: "fits64 n \<Longrightarrow> sint (word_of_int n :: i64) = n"
  by (simp add: sint_sbintrunc' stake64_id)

lemma sint64_add [s64_simps]: "fits64 (sint a + sint b) \<Longrightarrow> sint (a + b :: i64) = sint a + sint b"
  by (simp add: sint_word_add stake64_id)

lemma sint64_diff [s64_simps]: "fits64 (sint a - sint b) \<Longrightarrow> sint (a - b :: i64) = sint a - sint b"
  by (simp add: sint_word_diff stake64_id)

lemma sint64_mult [s64_simps]: "fits64 (sint a * sint b) \<Longrightarrow> sint (a * b :: i64) = sint a * sint b"
  by (simp add: sint_word_mult stake64_id)

lemma sint64_minus [s64_simps]: "fits64 (- sint a) \<Longrightarrow> sint (- a :: i64) = - sint a"
  by (simp add: sint_word_minus stake64_id)

lemma sint64_push [s64_simps]:
  "fits64 (sint a * 2 ^ n) \<Longrightarrow> n < 63 \<Longrightarrow> sint (push_bit n a :: i64) = sint a * 2 ^ n"
proof -
  assume fit: "fits64 (sint a * 2 ^ n)" and n: "n < 63"
  have p: "sint (2 ^ n :: i64) = 2 ^ n"
  proof -
    have "(2 :: int) ^ n < 2 ^ 63" using n by (rule power_strict_increasing) simp
    moreover have "(0 :: int) \<le> 2 ^ n" by simp
    ultimately have "fits64 (2 ^ n)" unfolding fits64_def by linarith
    moreover have "(2 ^ n :: i64) = word_of_int (2 ^ n)" by simp
    ultimately show ?thesis by (metis sint64_of_int)
  qed
  have "push_bit n a = a * 2 ^ n" by (simp add: push_bit_eq_mult)
  with fit p show ?thesis by (simp add: sint64_mult)
qed

lemma sint64_shr [s64_simps]: "sint (signed_drop_bit n a :: i64) = sint a div 2 ^ n"
  by (simp add: sint_signed_drop_bit_eq drop_bit_eq_div)

lemma sint64_eq_iff: "(a :: i64) = b \<longleftrightarrow> sint a = sint b"
  by (rule word_eq_iff_signed)

section \<open>Truncating division and its faults\<close>

text \<open>
  C++ integer division truncates towards zero.  Dividing by zero and dividing the least value by
  minus one are faults (both trap on the platforms the simulation is built for).
\<close>

definition s64_div :: "i64 \<Rightarrow> i64 \<Rightarrow> i64 option" where
  "s64_div a b =
     (if sint b = 0 \<or> (sint a = - (2 ^ 63) \<and> sint b = -1) then None
      else Some (word_of_int (sint a sdiv sint b)))"

definition s64_rem :: "i64 \<Rightarrow> i64 \<Rightarrow> i64 option" where
  "s64_rem a b =
     (if sint b = 0 \<or> (sint a = - (2 ^ 63) \<and> sint b = -1) then None
      else Some (word_of_int (sint a smod sint b)))"

lemma sdiv_abs_le: "\<bar>(a::int) sdiv b\<bar> \<le> \<bar>a\<bar>"
proof (cases "b = 0")
  case True then show ?thesis by simp
next
  case False
  have "\<bar>a\<bar> div \<bar>b\<bar> \<le> \<bar>a\<bar>" using False by (metis abs_ge_zero div_by_1 zdiv_mono2 zero_less_one int_one_le_iff_zero_less zero_less_abs_iff)
  moreover have "0 \<le> \<bar>a\<bar> div \<bar>b\<bar>" using False by (simp add: pos_imp_zdiv_nonneg_iff)
  ultimately show ?thesis
    by (auto simp: signed_divide_int_def abs_mult abs_sgn_eq sgn_if)
qed

section \<open>Arrays\<close>

text \<open>Indexing a C++ array or vector: outside the bounds there is no defined result.\<close>

definition arr_get :: "'a list \<Rightarrow> int \<Rightarrow> 'a option" where
  "arr_get xs i = (if 0 \<le> i \<and> i < int (length xs) then Some (xs ! nat i) else None)"

lemma arr_get_some [simp]: "i < length xs \<Longrightarrow> arr_get xs (int i) = Some (xs ! i)"
  by (simp add: arr_get_def)

lemma arr_get_in: "0 \<le> i \<Longrightarrow> i < int (length xs) \<Longrightarrow> arr_get xs i = Some (xs ! nat i)"
  by (simp add: arr_get_def)

section \<open>Unsigned words and natural numbers\<close>

lemma unat64_of_nat: "m < 2 ^ 64 \<Longrightarrow> unat (of_nat m :: u64) = m"
  by (simp add: unat_of_nat take_bit_nat_eq_self)

lemma drop_of_nat64:
  assumes "m < 2 ^ 64"
  shows "drop_bit j (of_nat m :: u64) = of_nat (m div 2 ^ j)"
proof (rule unsigned_word_eqI [where 'a = nat])
  have "m div 2 ^ j < 2 ^ 64" using assms by (rule le_less_trans [OF div_le_dividend])
  then have "unat (of_nat (m div 2 ^ j) :: u64) = m div 2 ^ j" by (rule unat64_of_nat)
  moreover have "unat (drop_bit j (of_nat m :: u64)) = drop_bit j m"
    by (simp only: unat_drop_bit_eq unat64_of_nat [OF assms])
  ultimately show "unat (drop_bit j (of_nat m :: u64)) = unat (of_nat (m div 2 ^ j) :: u64)"
    by (simp only: drop_bit_eq_div)
qed

end
