(* ===== verification/Fixed_Point.thy ===== *)
theory Fixed_Point
  imports Sim_Prelude
begin

text \<open>
  \<open>src/openvic-simulation/types/fixed_point/FixedPoint.hpp\<close> and \<open>FixedPoint.cpp\<close>: the
  48.16 fixed-point number every simulation quantity is made of.  \<open>FP w\<close> is
  \<open>fixed_point_t { raw_value, w }\<close>; \<open>rv x\<close> reads the raw value as the signed integer it is,
  so \<open>x\<close> stands for the number \<open>rv x / 65536\<close>.  The type is an instance of the library's
  group and (signed) linear order classes, so that the later components use \<open>+\<close>, \<open>-\<close>,
  \<open>min\<close>, \<open>max\<close> and \<open>\<le>\<close> the way the source does.
\<close>

section \<open>The type and its constants\<close>

datatype fixed_point_t = FP (raw_value: i64)

definition PRECISION :: nat where "PRECISION = 16"
definition ONE :: i64 where "ONE = push_bit PRECISION 1"
definition FRAC_MASK :: i64 where "FRAC_MASK = ONE - 1"

definition parse_raw :: "i64 \<Rightarrow> fixed_point_t" where
  "parse_raw v = FP v"

definition rv :: "fixed_point_t \<Rightarrow> int" where
  "rv x = sint (raw_value x)"

text \<open>The converting constructor for integral types of at most four bytes.\<close>

definition fp_of_int :: "int \<Rightarrow> fixed_point_t" where
  "fp_of_int n = FP (push_bit PRECISION (word_of_int n))"

definition fp_neg :: "fixed_point_t \<Rightarrow> fixed_point_t" where
  "fp_neg x = FP (- raw_value x)"

definition fp_add :: "fixed_point_t \<Rightarrow> fixed_point_t \<Rightarrow> fixed_point_t" where
  "fp_add x y = FP (raw_value x + raw_value y)"

definition fp_sub :: "fixed_point_t \<Rightarrow> fixed_point_t \<Rightarrow> fixed_point_t" where
  "fp_sub x y = FP (raw_value x - raw_value y)"

definition fp_mul :: "fixed_point_t \<Rightarrow> fixed_point_t \<Rightarrow> fixed_point_t" where
  "fp_mul x y = FP (signed_drop_bit PRECISION (raw_value x * raw_value y))"

definition fp_less_eq :: "fixed_point_t \<Rightarrow> fixed_point_t \<Rightarrow> bool" where
  "fp_less_eq x y \<longleftrightarrow> sint (raw_value x) \<le> sint (raw_value y)"

lemma rv_eq_iff: "x = y \<longleftrightarrow> rv x = rv y"
  by (cases x; cases y) (simp add: rv_def sint64_eq_iff)

lemma rv_fits [simp, intro]: "fits64 (rv x)"
  by (simp add: rv_def)

instantiation fixed_point_t :: "{ab_group_add, one, times, linorder}"
begin

definition "zero_fixed_point_t = FP 0"
definition "one_fixed_point_t = fp_of_int 1"
definition "plus_fixed_point_t = fp_add"
definition "minus_fixed_point_t = fp_sub"
definition "uminus_fixed_point_t = fp_neg"
definition "times_fixed_point_t = fp_mul"
definition "less_eq_fixed_point_t = fp_less_eq"
definition "less_fixed_point_t x y \<longleftrightarrow> fp_less_eq x y \<and> \<not> fp_less_eq y x"

instance
  by standard
    (auto simp: zero_fixed_point_t_def plus_fixed_point_t_def minus_fixed_point_t_def
      uminus_fixed_point_t_def less_eq_fixed_point_t_def less_fixed_point_t_def fp_add_def
      fp_sub_def fp_neg_def fp_less_eq_def ac_simps word_eq_iff_signed [symmetric]
      intro: fixed_point_t.expand)

end

lemmas fp_ops_defs = zero_fixed_point_t_def one_fixed_point_t_def plus_fixed_point_t_def
  minus_fixed_point_t_def uminus_fixed_point_t_def times_fixed_point_t_def
  less_eq_fixed_point_t_def less_fixed_point_t_def fp_add_def fp_sub_def fp_neg_def fp_mul_def
  fp_less_eq_def

lemma rv_FP [simp]: "rv (FP w) = sint w"
  by (simp add: rv_def)

lemma rv_0 [simp]: "rv 0 = 0"
  by (simp add: fp_ops_defs)

lemma rv_of_int: "fits64 (n * 65536) \<Longrightarrow> rv (fp_of_int n) = n * 65536"
proof -
  assume fit: "fits64 (n * 65536)"
  then have "fits64 n" by (simp add: fits64_def)
  with fit show ?thesis
    by (simp add: fp_of_int_def PRECISION_def s64_simps)
qed

lemma rv_1 [simp]: "rv 1 = 65536"
  by (simp add: one_fixed_point_t_def rv_of_int fits64_def)

lemma fp_le_iff: "x \<le> y \<longleftrightarrow> rv x \<le> rv y"
  by (simp add: fp_ops_defs rv_def)

lemma fp_less_iff: "x < y \<longleftrightarrow> rv x < rv y"
  by (auto simp: fp_ops_defs rv_def)

lemma rv_add: "fits64 (rv x + rv y) \<Longrightarrow> rv (x + y) = rv x + rv y"
  by (simp add: fp_ops_defs rv_def s64_simps)

lemma rv_sub: "fits64 (rv x - rv y) \<Longrightarrow> rv (x - y) = rv x - rv y"
  by (simp add: fp_ops_defs rv_def s64_simps)

lemma rv_minus: "fits64 (- rv x) \<Longrightarrow> rv (- x) = - rv x"
  by (simp add: fp_ops_defs rv_def s64_simps)

lemma rv_mul: "fits64 (rv x * rv y) \<Longrightarrow> rv (x * y) = (rv x * rv y) div 65536"
  by (simp add: fp_ops_defs rv_def PRECISION_def s64_simps)

section \<open>The remaining operators\<close>

definition fp_div :: "fixed_point_t \<Rightarrow> fixed_point_t \<Rightarrow> fixed_point_t option" where
  "fp_div x y = map_option parse_raw (s64_div (push_bit PRECISION (raw_value x)) (raw_value y))"

definition fp_mod :: "fixed_point_t \<Rightarrow> fixed_point_t \<Rightarrow> fixed_point_t option" where
  "fp_mod x y = map_option parse_raw (s64_rem (raw_value x) (raw_value y))"

text \<open>Mixed operators: \<open>n\<close> is the value of the integral operand of at most four bytes.\<close>

definition fp_add_int :: "fixed_point_t \<Rightarrow> int \<Rightarrow> fixed_point_t" where
  "fp_add_int x n = parse_raw (raw_value x + push_bit PRECISION (word_of_int n))"

definition fp_sub_int :: "fixed_point_t \<Rightarrow> int \<Rightarrow> fixed_point_t" where
  "fp_sub_int x n = parse_raw (raw_value x - push_bit PRECISION (word_of_int n))"

definition int_sub_fp :: "int \<Rightarrow> fixed_point_t \<Rightarrow> fixed_point_t" where
  "int_sub_fp n x = parse_raw (push_bit PRECISION (word_of_int n) - raw_value x)"

definition fp_mul_int :: "fixed_point_t \<Rightarrow> int \<Rightarrow> fixed_point_t" where
  "fp_mul_int x n = parse_raw (raw_value x * word_of_int n)"

definition fp_div_int :: "fixed_point_t \<Rightarrow> int \<Rightarrow> fixed_point_t option" where
  "fp_div_int x n = map_option parse_raw (s64_div (raw_value x) (word_of_int n))"

definition int_div_fp :: "int \<Rightarrow> fixed_point_t \<Rightarrow> fixed_point_t option" where
  "int_div_fp n x =
     map_option parse_raw (s64_div (push_bit (2 * PRECISION) (word_of_int n)) (raw_value x))"

definition fp_shl :: "fixed_point_t \<Rightarrow> nat \<Rightarrow> fixed_point_t" where
  "fp_shl x n = parse_raw (push_bit n (raw_value x))"

definition fp_shr :: "fixed_point_t \<Rightarrow> nat \<Rightarrow> fixed_point_t" where
  "fp_shr x n = parse_raw (signed_drop_bit n (raw_value x))"

definition fp_less_int :: "fixed_point_t \<Rightarrow> int \<Rightarrow> bool" where
  "fp_less_int x n \<longleftrightarrow> sint (raw_value x) < sint (push_bit PRECISION (word_of_int n) :: i64)"

definition fp_eq_int :: "fixed_point_t \<Rightarrow> int \<Rightarrow> bool" where
  "fp_eq_int x n \<longleftrightarrow> raw_value x = push_bit PRECISION (word_of_int n)"

text \<open>Pre- and post-increment: the pair of the value returned and the operand afterwards.\<close>

definition fp_pre_inc :: "fixed_point_t \<Rightarrow> fixed_point_t \<times> fixed_point_t" where
  "fp_pre_inc x = (let new = parse_raw (raw_value x + ONE) in (new, new))"

definition fp_post_inc :: "fixed_point_t \<Rightarrow> fixed_point_t \<times> fixed_point_t" where
  "fp_post_inc x = (x, parse_raw (raw_value x + ONE))"

definition fp_pre_dec :: "fixed_point_t \<Rightarrow> fixed_point_t \<times> fixed_point_t" where
  "fp_pre_dec x = (let new = parse_raw (raw_value x - ONE) in (new, new))"

definition fp_post_dec :: "fixed_point_t \<Rightarrow> fixed_point_t \<times> fixed_point_t" where
  "fp_post_dec x = (x, parse_raw (raw_value x - ONE))"

section \<open>Signs, fractions and rounding\<close>

definition get_frac :: "fixed_point_t \<Rightarrow> fixed_point_t" where
  "get_frac x = parse_raw (raw_value x AND FRAC_MASK)"

definition is_negative :: "fixed_point_t \<Rightarrow> bool" where
  "is_negative x \<longleftrightarrow> sint (raw_value x) < 0"

definition fp_abs :: "fixed_point_t \<Rightarrow> fixed_point_t" where
  "fp_abs x = (if \<not> is_negative x then parse_raw (raw_value x) else parse_raw (- raw_value x))"

definition is_integer :: "fixed_point_t \<Rightarrow> bool" where
  "is_integer x \<longleftrightarrow> fp_eq_int (get_frac x) 0"

text \<open>\<open>unsafe_truncate<T>\<close>: the arithmetic shift, narrowed to the width of \<open>T\<close>.\<close>

definition unsafe_truncate :: "fixed_point_t \<Rightarrow> 'w::len word" where
  "unsafe_truncate x = word_of_int (sint (signed_drop_bit PRECISION (raw_value x)))"

definition fp_truncate :: "fixed_point_t \<Rightarrow> fixed_point_t" where
  "fp_truncate x = parse_raw (raw_value x AND NOT FRAC_MASK)"

definition floor_to :: "fixed_point_t \<Rightarrow> 'w::len word" where
  "floor_to x =
     (if \<not> is_negative x then unsafe_truncate x
      else unsafe_truncate (parse_raw (raw_value x + FRAC_MASK)) - of_bool (\<not> is_integer x))"

definition fp_floor :: "fixed_point_t \<Rightarrow> fixed_point_t" where
  "fp_floor x =
     (if \<not> is_negative x then fp_truncate x else fp_of_int (sint (floor_to x :: i32)))"

definition ceil_to :: "fixed_point_t \<Rightarrow> 'w::len word" where
  "ceil_to x =
     (if is_negative x then unsafe_truncate x
      else unsafe_truncate x + of_bool (\<not> is_integer x))"

definition fp_ceil :: "fixed_point_t \<Rightarrow> fixed_point_t" where
  "fp_ceil x = (if is_negative x then fp_truncate x else fp_of_int (sint (ceil_to x :: i32)))"

definition fp_0_50 :: fixed_point_t where "fp_0_50 = parse_raw 32768"

definition fp_round :: "fixed_point_t \<Rightarrow> fixed_point_t" where
  "fp_round x =
     (if is_negative x then fp_truncate (x - fp_0_50) else fp_truncate (x + fp_0_50))"

definition round_to :: "fixed_point_t \<Rightarrow> 'w::len word" where
  "round_to x =
     (if is_negative x then unsafe_truncate (x - fp_0_50) else unsafe_truncate (x + fp_0_50))"

datatype midpoint_rounding = AWAY_ZERO | TO_ZERO

definition round_multiple ::
    "midpoint_rounding \<Rightarrow> fixed_point_t \<Rightarrow> fixed_point_t \<Rightarrow> fixed_point_t option" where
  "round_multiple preference x factor =
     (case preference of
        AWAY_ZERO \<Rightarrow> do {
          remainder \<leftarrow> fp_mod x factor;
          Some (x - remainder - (if fp_less_int remainder 0 then factor else 0)) }
      | TO_ZERO \<Rightarrow> do {
          remainder \<leftarrow> fp_mod x factor;
          Some (x - remainder + (if remainder > 0 then factor else 0)) })"

section \<open>Capped conversion and exponentials\<close>

definition fp_max :: fixed_point_t where "fp_max = parse_raw 9223372036854775807"
definition fp_min :: fixed_point_t where "fp_min = parse_raw (- 9223372036854775808)"
definition usable_max :: fixed_point_t where "usable_max = parse_raw 2147483648"
definition usable_min :: fixed_point_t where "usable_min = - usable_max"
definition epsilon :: fixed_point_t where "epsilon = parse_raw 1"

definition parse_capped_i64 :: "i64 \<Rightarrow> fixed_point_t" where
  "parse_capped_i64 v =
     (if sint v > 2147483647 then
        (if sint v \<ge> sint (unsafe_truncate fp_max :: i64) then fp_max
         else parse_raw (push_bit PRECISION v))
      else fp_of_int (sint (word_of_int (sint v) :: i32)))"

definition parse_capped_u64 :: "u64 \<Rightarrow> fixed_point_t" where
  "parse_capped_u64 v =
     (if uint v > 2147483647 then
        (if uint v \<ge> uint (unsafe_truncate fp_max :: u64) then fp_max
         else parse_raw (push_bit PRECISION v))
      else fp_of_int (sint (word_of_int (uint v) :: i32)))"

definition EXP_e :: "i64 list" where
  "EXP_e = [65537, 65538, 65540, 65544, 65552, 65568, 65600, 65664, 65793, 66050, 66568, 67616,
     69763, 74262, 84150, 108051, 178145, 484249, 3578144, 195360063, 582360139072,
     5174916558532153344]"

definition EXP_2001 :: "i64 list" where
  "EXP_2001 = [65544, 65551, 65566, 65597, 65658, 65780, 66024, 66516, 67511, 69546, 73801, 83108,
     105392, 169487, 438320, 2931592, 131137536, 262406209536, 1050674725388353536]"

fun exp_loop :: "i64 list \<Rightarrow> i64 \<Rightarrow> fixed_point_t \<Rightarrow> fixed_point_t \<times> i64" where
  "exp_loop [] bits result = (result, bits)"
| "exp_loop (l # lut) bits result =
     (if bits = 0 then (result, bits)
      else exp_loop lut (signed_drop_bit 1 bits)
             (if bits AND 1 \<noteq> 0 then result * parse_raw l else result))"

text \<open>The result, and whether the overflow of the table was reported to the log.\<close>

definition exp_internal :: "i64 list \<Rightarrow> fixed_point_t \<Rightarrow> fixed_point_t option \<times> bool" where
  "exp_internal lut x =
     (let negative = is_negative x;
          bits = (if negative then - raw_value x else raw_value x);
          (result, rest) = exp_loop lut bits 1
      in (if negative then fp_div 1 result else Some result, rest \<noteq> 0))"

definition fp_exp :: "fixed_point_t \<Rightarrow> fixed_point_t option \<times> bool" where
  "fp_exp x = exp_internal EXP_e x"

definition fp_exp_2001 :: "fixed_point_t \<Rightarrow> fixed_point_t option \<times> bool" where
  "fp_exp_2001 x = exp_internal EXP_2001 x"

section \<open>Readings of the operations\<close>

lemma raw_parse [simp]: "raw_value (parse_raw v) = v" and rv_parse [simp]: "rv (parse_raw v) = sint v"
  by (simp_all add: parse_raw_def)

lemma is_negative_iff: "is_negative x \<longleftrightarrow> rv x < 0"
  by (simp add: is_negative_def rv_def)

lemma FRAC_MASK_mask: "FRAC_MASK = mask 16"
  by (simp add: FRAC_MASK_def ONE_def PRECISION_def mask_eq_exp_minus_1 push_bit_eq_mult)

lemma sint_mod_eq: "sint (take_bit 16 w :: i64) = sint w mod 65536"
proof -
  have b: "0 \<le> sint w mod 65536" "sint w mod 65536 < 65536" by simp_all
  then have fit: "fits64 (sint w mod 65536)" unfolding fits64_iff by linarith
  have "take_bit 16 w = (word_of_int (sint w mod 65536) :: i64)"
    by (rule bit_word_eqI) (simp add: bit_simps flip: take_bit_eq_mod [of 16, simplified])
  with fit show ?thesis by (metis sint64_of_int)
qed

lemma rv_frac: "rv (get_frac x) = rv x mod 65536"
  by (simp add: get_frac_def FRAC_MASK_mask rv_def sint_mod_eq flip: take_bit_eq_mask)

lemma is_integer_iff: "is_integer x \<longleftrightarrow> 65536 dvd rv x"
proof -
  have "is_integer x \<longleftrightarrow> rv (get_frac x) = 0"
    by (simp add: is_integer_def fp_eq_int_def rv_def sint64_eq_iff)
  then show ?thesis by (simp add: rv_frac dvd_eq_mod_eq_0)
qed

lemma fits64_floor: "fits64 n \<Longrightarrow> fits64 (n div 65536 * 65536)"
proof -
  assume fit: "fits64 n"
  have "n div 65536 * 65536 = n - n mod 65536" by (simp add: minus_mod_eq_div_mult)
  moreover have "0 \<le> n mod 65536" by simp
  moreover have "- 140737488355328 \<le> n div 65536"
    using fit zdiv_mono1 [of "- 9223372036854775808" n 65536] by (simp add: fits64_iff)
  ultimately show ?thesis using fit unfolding fits64_iff by linarith
qed

lemma rv_truncate: "rv (fp_truncate x) = rv x div 65536 * 65536"
proof -
  have "raw_value x AND NOT FRAC_MASK = push_bit 16 (signed_drop_bit 16 (raw_value x))"
    by (rule bit_word_eqI) (auto simp: FRAC_MASK_mask bit_simps)
  moreover have "fits64 (rv x div 65536 * 65536)" by (rule fits64_floor) simp
  ultimately show ?thesis by (simp add: fp_truncate_def rv_def s64_simps)
qed

lemma rv_bounds: "- 9223372036854775808 \<le> rv x" "rv x \<le> 9223372036854775807"
  using rv_fits [of x] by (simp_all add: fits64_def)

lemma sint_unsafe_truncate_i64: "sint (unsafe_truncate x :: i64) = rv x div 65536"
proof -
  have "fits64 (rv x div 65536)" by (rule fits64_div) simp_all
  then show ?thesis by (simp add: unsafe_truncate_def PRECISION_def sint64_shr sint64_of_int rv_def)
qed

lemma unsafe_truncate_of_int: "unsafe_truncate x = word_of_int (rv x div 65536)"
  by (simp add: unsafe_truncate_def PRECISION_def sint64_shr rv_def)

lemma sint32_of_int: "- (2 ^ 31) \<le> n \<Longrightarrow> n < 2 ^ 31 \<Longrightarrow> sint (word_of_int n :: i32) = n"
  by (simp add: sint_sbintrunc' signed_take_bit_int_eq_self)

lemma rv_abs: "rv x \<noteq> - (2 ^ 63) \<Longrightarrow> rv (fp_abs x) = \<bar>rv x\<bar>"
  using rv_bounds [of x]
  by (auto simp: fp_abs_def is_negative_iff s64_simps fits64_def simp flip: rv_def)

lemma of_bool_word_int: "(of_bool b :: 'w::len word) = word_of_int (of_bool b)"
  by simp

lemma floor_arith:
  fixes r :: int
  shows "(r + 65535) div 65536 - of_bool (\<not> 65536 dvd r) = r div 65536"
proof (cases "65536 dvd r")
  case True
  then obtain k where "r = 65536 * k" by (auto elim: dvdE)
  then show ?thesis by simp
next
  case False
  then have "r mod 65536 \<noteq> 0" by (simp add: dvd_eq_mod_eq_0)
  then have "0 \<le> r mod 65536 - 1" "r mod 65536 - 1 < 65536"
    using pos_mod_bound [of 65536 r] pos_mod_sign [of 65536 r] by linarith+
  moreover have "r + 65535 = 65536 * (r div 65536 + 1) + (r mod 65536 - 1)"
    using mult_div_mod_eq [of 65536 r] by (simp add: algebra_simps)
  ultimately have "(r + 65535) div 65536 = r div 65536 + 1"
    by (intro int_div_pos_eq)
  then show ?thesis using False by simp
qed

lemma floor_to_eq: "floor_to x = word_of_int (rv x div 65536)"
proof (cases "is_negative x")
  case False
  then show ?thesis by (simp add: floor_to_def unsafe_truncate_of_int)
next
  case True
  then have neg: "rv x < 0" by (simp add: is_negative_iff)
  then have fit: "fits64 (rv x + 65535)" using rv_bounds [of x] by (simp add: fits64_def)
  have "sint (raw_value x + FRAC_MASK) = rv x + 65535"
  proof -
    have "sint FRAC_MASK = 65535" by (simp add: FRAC_MASK_mask mask_eq_exp_minus_1)
    with fit show ?thesis by (simp add: sint64_add rv_def)
  qed
  then have "rv (parse_raw (raw_value x + FRAC_MASK)) = rv x + 65535" by simp
  then have "floor_to x = (word_of_int ((rv x + 65535) div 65536)
      - word_of_int (of_bool (\<not> 65536 dvd rv x)) :: 'a word)"
    using True by (simp add: floor_to_def unsafe_truncate_of_int is_integer_iff)
  also have "\<dots> = word_of_int (rv x div 65536)"
    unfolding wi_hom_sub floor_arith ..
  finally show ?thesis .
qed

lemma rv_floor:
  assumes "- (2 ^ 47) \<le> rv x"
  shows "rv (fp_floor x) = rv x div 65536 * 65536"
proof (cases "is_negative x")
  case False
  then show ?thesis by (simp add: fp_floor_def rv_truncate)
next
  case True
  then have neg: "rv x < 0" by (simp add: is_negative_iff)
  have lo: "- (2 ^ 31) \<le> rv x div 65536" using assms by simp
  moreover have "rv x div 65536 < 0" using neg by (simp add: pos_imp_zdiv_neg_iff)
  ultimately have "sint (floor_to x :: i32) = rv x div 65536"
    by (simp add: floor_to_eq sint32_of_int)
  moreover have "fits64 (rv x div 65536 * 65536)"
    using lo \<open>rv x div 65536 < 0\<close> by (simp add: fits64_def)
  ultimately show ?thesis using True by (simp add: fp_floor_def rv_of_int)
qed

lemma sdiv_range:
  assumes "fits64 a" and "b \<noteq> 0" and "\<not> (a = - (2 ^ 63) \<and> b = -1)"
  shows "fits64 (a sdiv b)"
proof -
  have le: "\<bar>a sdiv b\<bar> \<le> \<bar>a\<bar>" by (rule sdiv_abs_le)
  have ne: "a sdiv b \<noteq> 9223372036854775808" if a: "a = - (2 ^ 63)"
  proof (cases "\<bar>b\<bar> \<ge> 2")
    case True
    have "\<bar>a\<bar> div \<bar>b\<bar> \<le> \<bar>a\<bar> div 2" using True by (intro zdiv_mono2) simp_all
    moreover have "\<bar>a sdiv b\<bar> = \<bar>a\<bar> div \<bar>b\<bar>"
      using a assms(2) by (auto simp: signed_divide_int_def sgn_if pos_imp_zdiv_nonneg_iff)
    ultimately show ?thesis using a by auto
  next
    case False
    then have "b = 1" using a assms(2,3) by auto
    then show ?thesis using a by simp
  qed
  show ?thesis
  proof (cases "a = - (2 ^ 63)")
    case True
    then have "\<bar>a\<bar> = 9223372036854775808" by simp
    with le ne [OF True] show ?thesis unfolding fits64_iff by arith
  next
    case False
    with assms(1) have "\<bar>a\<bar> \<le> 9223372036854775807" by (auto simp: fits64_iff)
    with le show ?thesis unfolding fits64_iff by arith
  qed
qed

lemma fp_0_50_raw [simp]: "rv fp_0_50 = 32768"
  by (simp add: fp_0_50_def)

lemma snd_exp_loop: "snd (exp_loop lut bits r) = signed_drop_bit (length lut) bits"
  by (induction lut bits r rule: exp_loop.induct) simp_all

lemma raw_bits: "rv x \<noteq> - (2 ^ 63) \<Longrightarrow>
    sint (if is_negative x then - raw_value x else raw_value x) = \<bar>rv x\<bar>"
  using rv_abs [of x] by (auto simp: fp_abs_def)

section \<open>Properties\<close>

text \<open>C37: while the 128-bit-free product of the raw values stays inside 64 bits, multiplication is
  exact rounding towards minus infinity: the raw result is the floor of the exact product.\<close>

theorem fp_mul_floor:
  assumes "fits64 (rv x * rv y)"
  shows "rv (x * y) * 65536 \<le> rv x * rv y \<and> rv x * rv y < (rv (x * y) + 1) * 65536"
  using floor16 [of "rv x * rv y"] by (simp add: rv_mul [OF assms] distrib_right)

theorem fp_mul_floor_witness:
  "rv (parse_raw (- 98304) * parse_raw 3) * 65536 \<le> - 294912
    \<and> - 294912 < (rv (parse_raw (- 98304) * parse_raw 3) + 1) * 65536"
  using fp_mul_floor [of "parse_raw (- 98304)" "parse_raw 3"] by (simp add: fits64_iff)

text \<open>Division traps exactly for a zero divisor and for the single overflowing pair, and
  otherwise returns the exact quotient truncated towards zero, as long as the shifted dividend
  stays inside 64 bits.\<close>

theorem fp_div_spec:
  assumes "fits64 (rv x * 65536)"
  shows "map_option rv (fp_div x y) =
    (if y = 0 \<or> (rv x = - (2 ^ 47) \<and> rv y = -1) then None else Some ((rv x * 65536) sdiv rv y))"
proof -
  have p: "sint (push_bit PRECISION (raw_value x)) = rv x * 65536"
    using assms by (simp add: PRECISION_def rv_def s64_simps)
  have y: "y = 0 \<longleftrightarrow> sint (raw_value y) = 0"
    using rv_eq_iff [of y 0] by (simp only: rv_0 flip: rv_def)
  show ?thesis using sdiv_range [OF assms]
    by (auto simp: fp_div_def s64_div_def p y s64_simps simp flip: rv_def)
qed

theorem fp_div_spec_witness:
  "map_option rv (fp_div (fp_of_int (-7)) (fp_of_int 2)) = Some (- 229376)"
  using fp_div_spec [of "fp_of_int (-7)" "fp_of_int 2"] by (simp add: rv_of_int fits64_iff rv_eq_iff [of _ 0])

text \<open>\<open>floor\<close> is the greatest integral fixed point below its argument, for every argument
  whose integer part fits the 32-bit intermediate of the negative branch.\<close>

theorem fp_floor_greatest:
  assumes "- (2 ^ 47) \<le> rv x"
  shows "65536 dvd rv (fp_floor x) \<and> rv (fp_floor x) \<le> rv x \<and> rv x < rv (fp_floor x) + 65536"
  using floor16 [of "rv x"] by (simp add: rv_floor [OF assms])

theorem fp_floor_greatest_witness:
  "65536 dvd rv (fp_floor (parse_raw (- 98304))) \<and> rv (fp_floor (parse_raw (- 98304))) \<le> - 98304
    \<and> - 98304 < rv (fp_floor (parse_raw (- 98304))) + 65536"
  using fp_floor_greatest [of "parse_raw (- 98304)"] by simp

text \<open>On negative arguments \<open>ceil\<close> computes the floor: every negative non-integer is
  rounded away from zero, to a value strictly below it.\<close>

theorem fp_ceil_negative_is_floor:
  assumes "rv x < 0" and "\<not> 65536 dvd rv x"
  shows "rv (fp_ceil x) < rv x \<and> rv (fp_ceil x) = rv x div 65536 * 65536"
proof -
  have "rv x mod 65536 \<noteq> 0" using assms(2) by (simp add: dvd_eq_mod_eq_0)
  then show ?thesis
    using assms(1) pos_mod_sign [of 65536 "rv x"] minus_mod_eq_div_mult [of "rv x" 65536]
    by (simp add: fp_ceil_def is_negative_iff rv_truncate)
qed

theorem fp_ceil_negative_is_floor_witness:
  "rv (fp_ceil (parse_raw (- 98304))) < - 98304 \<and> rv (fp_ceil (parse_raw (- 98304))) = - 131072"
  using fp_ceil_negative_is_floor [of "parse_raw (- 98304)"] by simp

text \<open>\<open>round\<close> of a non-negative number is a nearest integer, never more than one half away.\<close>

theorem fp_round_nearest:
  assumes "0 \<le> rv x" and "rv x < 2 ^ 63 - 32768"
  shows "65536 dvd rv (fp_round x) \<and> \<bar>rv (fp_round x) - rv x\<bar> \<le> 32768"
proof -
  have "rv (x + fp_0_50) = rv x + 32768" using assms by (subst rv_add) (simp_all add: fits64_iff)
  then have r: "rv (fp_round x) = (rv x + 32768) div 65536 * 65536"
    using assms by (simp add: fp_round_def is_negative_iff rv_truncate)
  then show ?thesis using minus_mod_eq_div_mult [of "rv x + 32768" 65536]
      pos_mod_bound [of 65536 "rv x + 32768"] pos_mod_sign [of 65536 "rv x + 32768"]
    by simp
qed

theorem fp_round_nearest_witness:
  "65536 dvd rv (fp_round (parse_raw 167117)) \<and> \<bar>rv (fp_round (parse_raw 167117)) - 167117\<bar> \<le> 32768"
  using fp_round_nearest [of "parse_raw 167117"] by simp

text \<open>\<open>round\<close> of a negative number is the floor of it minus one half, so every negative
  integer is rounded to the integer below it.\<close>

theorem fp_round_negative:
  assumes "rv x < 0" and "- (2 ^ 63) + 32768 \<le> rv x"
  shows "rv (fp_round x) = (rv x - 32768) div 65536 * 65536
    \<and> (65536 dvd rv x \<longrightarrow> rv (fp_round x) = rv x - 65536)"
proof -
  have "rv (x - fp_0_50) = rv x - 32768" using assms by (subst rv_sub) (simp_all add: fits64_iff)
  then have r: "rv (fp_round x) = (rv x - 32768) div 65536 * 65536"
    using assms by (simp add: fp_round_def is_negative_iff rv_truncate)
  moreover have "(65536 * k - 32768) div 65536 = k - 1" for k :: int
    by (rule int_div_pos_eq [where r = 32768]) simp_all
  ultimately show ?thesis by (auto elim!: dvdE)
qed

theorem fp_round_negative_witness:
  "rv (fp_round (parse_raw (- 65536))) = - 131072"
  using fp_round_negative [of "parse_raw (- 65536)"] by simp

text \<open>\<open>parse_capped\<close> of a 64-bit value is exact up to the largest representable integer
  part, saturates above it, but wraps a value below the 32-bit range.\<close>

theorem parse_capped_cases:
  "(- (2 ^ 31) \<le> sint v \<and> sint v < 2 ^ 47 - 1 \<longrightarrow> rv (parse_capped_i64 v) = sint v * 65536)
    \<and> (2 ^ 47 - 1 \<le> sint v \<longrightarrow> parse_capped_i64 v = fp_max)
    \<and> rv (parse_capped_i64 (- 2147483649)) = 2147483647 * 65536"
proof (intro conjI impI)
  have m: "sint (unsafe_truncate fp_max :: i64) = 140737488355327"
    by (simp add: sint_unsafe_truncate_i64 fp_max_def)
  show "rv (parse_capped_i64 v) = sint v * 65536"
    if "- (2 ^ 31) \<le> sint v \<and> sint v < 2 ^ 47 - 1"
  proof (cases "sint v > 2147483647")
    case True
    with that show ?thesis
      by (simp add: parse_capped_i64_def m PRECISION_def sint64_push fits64_iff)
  next
    case False
    then have "parse_capped_i64 v = fp_of_int (sint (word_of_int (sint v) :: i32))"
      by (simp only: parse_capped_i64_def if_False)
    also have "sint (word_of_int (sint v) :: i32) = sint v"
      using that False by (intro sint32_of_int) simp_all
    finally show ?thesis using that False by (simp add: rv_of_int fits64_iff)
  qed
  show "parse_capped_i64 v = fp_max" if "2 ^ 47 - 1 \<le> sint v"
    using that by (simp add: parse_capped_i64_def m)
  show "rv (parse_capped_i64 (- 2147483649)) = 2147483647 * 65536"
    by (simp add: parse_capped_i64_def fp_of_int_def PRECISION_def)
qed

theorem parse_capped_cases_witness:
  "rv (parse_capped_i64 5) = 327680 \<and> parse_capped_i64 140737488355327 = fp_max"
  using parse_capped_cases [of 5] parse_capped_cases [of 140737488355327] by simp

text \<open>The exponential reports an overflow of its table exactly for arguments of magnitude 64 and
  above, and is silent about the products that already left 64 bits: \<open>exp(32)\<close> is a negative
  number and nothing is logged.\<close>

theorem fp_exp_overflow_reported:
  assumes "rv x \<noteq> - (2 ^ 63)"
  shows "(snd (fp_exp x) \<longleftrightarrow> 64 * 65536 \<le> \<bar>rv x\<bar>)
    \<and> fp_exp (fp_of_int 32) = (Some (parse_raw (- 888293257216)), False)"
proof -
  have "length EXP_e = 22" by (simp add: EXP_e_def)
  then have "snd (fp_exp x) \<longleftrightarrow> \<bar>rv x\<bar> div 4194304 \<noteq> 0"
    using raw_bits [OF assms]
    by (simp add: fp_exp_def exp_internal_def Let_def case_prod_unfold snd_exp_loop
        sint64_eq_iff sint64_shr)
  moreover have "fp_exp (fp_of_int 32) = (Some (parse_raw (- 888293257216)), False)"
    by code_simp
  ultimately show ?thesis by (auto simp: div_eq_0_iff)
qed

theorem fp_exp_overflow_reported_witness:
  "snd (fp_exp (fp_of_int 63)) \<longleftrightarrow> 64 * 65536 \<le> \<bar>rv (fp_of_int 63)\<bar>"
  using fp_exp_overflow_reported [of "fp_of_int 63"] by (simp add: rv_of_int fits64_iff)

end
