(* ===== verification/Fixed_Math.thy ===== *)
theory Fixed_Math
  imports Fixed_Point
begin

text \<open>
  The arithmetic built on the fixed-point type: \<open>core/MathSqrt.hpp\<close> (integer square root),
  \<open>core/Math.hpp\<close> (powers), \<open>types/fixed_point/Math.hpp\<close> (sine, square root, fused
  multiply-divide), \<open>types/fixed_point/Fraction.hpp\<close> and \<open>core/random/WeightedSampling.hpp\<close>.
  Reading an array outside its bounds and dividing by zero are \<^const>\<open>None\<close>.
\<close>

section \<open>Integer square root and powers\<close>

lemma unat_drop_less [simp]:
  "0 < unat d \<Longrightarrow> unat (drop_bit 2 d :: u64) < unat d"
  "0 < unat d \<Longrightarrow> unat (drop_bit (Suc 0) d :: u64) < unat d"
  by (simp_all add: drop_bit_eq_div unat_div)

function sqrt_shrink :: "u64 \<Rightarrow> u64 \<Rightarrow> u64" where
  "sqrt_shrink n d = (if d > n then sqrt_shrink n (drop_bit 2 d) else d)"
  by pat_completeness auto
termination
proof (relation "measure (\<lambda>(n, d). unat d)", goal_cases)
  case (2 n d)
  then have "0 < unat d" by (simp add: word_less_nat_alt)
  then show ?case by simp
qed simp

function sqrt_loop :: "u64 \<Rightarrow> u64 \<Rightarrow> u64 \<Rightarrow> u64 \<times> u64" where
  "sqrt_loop x c d =
     (if d \<noteq> 0 then
        (if x \<ge> c + d then sqrt_loop (x - (c + d)) (drop_bit 1 c + d) (drop_bit 2 d)
         else sqrt_loop x (drop_bit 1 c) (drop_bit 2 d))
      else (x, c))"
  by pat_completeness auto
termination
proof (relation "measure (\<lambda>(x, c, d). unat d)", goal_cases)
  case (2 x c d)
  then have "0 < unat d" by (simp add: unat_gt_0)
  then show ?case by simp
next
  case (3 x c d)
  then have "0 < unat d" by (simp add: unat_gt_0)
  then show ?case by simp
qed simp

declare sqrt_shrink.simps [simp del] sqrt_loop.simps [simp del]

definition isqrt :: "u64 \<Rightarrow> u64" where
  "isqrt n =
     (let d = sqrt_shrink n (push_bit 62 1);
          (x, c) = sqrt_loop n 0 d
      in if x > 0 then c + 1 else c)"

function pow_loop :: "u64 \<Rightarrow> u64 \<Rightarrow> u64 \<Rightarrow> u64" where
  "pow_loop ret base exponent =
     (let ret = (if exponent AND 1 \<noteq> 0 then ret * base else ret);
          exponent = drop_bit 1 exponent
      in if exponent = 0 then ret else pow_loop ret (base * base) exponent)"
  by pat_completeness auto
termination
proof (relation "measure (\<lambda>(r, b, e). unat e)", goal_cases)
  case (2 r b e _ e')
  then have "e \<noteq> 0" by auto
  then have "0 < unat e" by (simp add: unat_gt_0)
  with 2 show ?case by simp
qed simp

declare pow_loop.simps [simp del]

definition u64_pow :: "u64 \<Rightarrow> u64 \<Rightarrow> u64" where
  "u64_pow base exponent = pow_loop 1 base exponent"

definition is_power_of_two :: "u64 \<Rightarrow> bool" where
  "is_power_of_two n \<longleftrightarrow> n > 0 \<and> n AND (n - 1) = 0"

section \<open>Fixed-point functions\<close>

definition fp_pi :: fixed_point_t where "fp_pi = parse_raw 205887"
definition pi2 :: fixed_point_t where "pi2 = fp_mul_int fp_pi 2"
definition pi_half :: fixed_point_t where "pi_half = parse_raw 102943"
definition one_div_pi2 :: fixed_point_t where "one_div_pi2 = parse_raw 10430"

definition SIN_PRECISION :: nat where "SIN_PRECISION = 16"
definition SIN_COUNT_LOG2 :: nat where "SIN_COUNT_LOG2 = 9"
definition SIN_SHIFT :: nat where "SIN_SHIFT = SIN_PRECISION - SIN_COUNT_LOG2"

definition SIN :: "int list" where
  "SIN = [0, 804, 1608, 2412, 3216, 4019, 4821, 5623, 6424, 7224, 8022, 8820, 9616, 10411, 11204, 11996,
     12785, 13573, 14359, 15143, 15924, 16703, 17479, 18253, 19024, 19792, 20557, 21320, 22078, 22834, 23586, 24335,
     25080, 25821, 26558, 27291, 28020, 28745, 29466, 30182, 30893, 31600, 32303, 33000, 33692, 34380, 35062, 35738,
     36410, 37076, 37736, 38391, 39040, 39683, 40320, 40951, 41576, 42194, 42806, 43412, 44011, 44604, 45190, 45769,
     46341, 46906, 47464, 48015, 48559, 49095, 49624, 50146, 50660, 51166, 51665, 52156, 52639, 53114, 53581, 54040,
     54491, 54934, 55368, 55794, 56212, 56621, 57022, 57414, 57798, 58172, 58538, 58896, 59244, 59583, 59914, 60235,
     60547, 60851, 61145, 61429, 61705, 61971, 62228, 62476, 62714, 62943, 63162, 63372, 63572, 63763, 63944, 64115,
     64277, 64429, 64571, 64704, 64827, 64940, 65043, 65137, 65220, 65294, 65358, 65413, 65457, 65492, 65516, 65531,
     65536, 65531, 65516, 65492, 65457, 65413, 65358, 65294, 65220, 65137, 65043, 64940, 64827, 64704, 64571, 64429,
     64277, 64115, 63944, 63763, 63572, 63372, 63162, 62943, 62714, 62476, 62228, 61971, 61705, 61429, 61145, 60851,
     60547, 60235, 59914, 59583, 59244, 58896, 58538, 58172, 57798, 57414, 57022, 56621, 56212, 55794, 55368, 54934,
     54491, 54040, 53581, 53114, 52639, 52156, 51665, 51166, 50660, 50146, 49624, 49095, 48559, 48015, 47464, 46906,
     46341, 45769, 45190, 44604, 44011, 43412, 42806, 42194, 41576, 40951, 40320, 39683, 39040, 38391, 37736, 37076,
     36410, 35738, 35062, 34380, 33692, 33000, 32303, 31600, 30893, 30182, 29466, 28745, 28020, 27291, 26558, 25821,
     25080, 24335, 23586, 22834, 22078, 21320, 20557, 19792, 19024, 18253, 17479, 16703, 15924, 15143, 14359, 13573,
     12785, 11996, 11204, 10411, 9616, 8820, 8022, 7224, 6424, 5623, 4821, 4019, 3216, 2412, 1608, 804,
     0, -804, -1608, -2412, -3216, -4019, -4821, -5623, -6424, -7224, -8022, -8820, -9616, -10411, -11204, -11996,
     -12785, -13573, -14359, -15143, -15924, -16703, -17479, -18253, -19024, -19792, -20557, -21320, -22078, -22834, -23586, -24335,
     -25080, -25821, -26558, -27291, -28020, -28745, -29466, -30182, -30893, -31600, -32303, -33000, -33692, -34380, -35062, -35738,
     -36410, -37076, -37736, -38391, -39040, -39683, -40320, -40951, -41576, -42194, -42806, -43412, -44011, -44604, -45190, -45769,
     -46341, -46906, -47464, -48015, -48559, -49095, -49624, -50146, -50660, -51166, -51665, -52156, -52639, -53114, -53581, -54040,
     -54491, -54934, -55368, -55794, -56212, -56621, -57022, -57414, -57798, -58172, -58538, -58896, -59244, -59583, -59914, -60235,
     -60547, -60851, -61145, -61429, -61705, -61971, -62228, -62476, -62714, -62943, -63162, -63372, -63572, -63763, -63944, -64115,
     -64277, -64429, -64571, -64704, -64827, -64940, -65043, -65137, -65220, -65294, -65358, -65413, -65457, -65492, -65516, -65531,
     -65536, -65531, -65516, -65492, -65457, -65413, -65358, -65294, -65220, -65137, -65043, -64940, -64827, -64704, -64571, -64429,
     -64277, -64115, -63944, -63763, -63572, -63372, -63162, -62943, -62714, -62476, -62228, -61971, -61705, -61429, -61145, -60851,
     -60547, -60235, -59914, -59583, -59244, -58896, -58538, -58172, -57798, -57414, -57022, -56621, -56212, -55794, -55368, -54934,
     -54491, -54040, -53581, -53114, -52639, -52156, -51665, -51166, -50660, -50146, -49624, -49095, -48559, -48015, -47464, -46906,
     -46341, -45769, -45190, -44604, -44011, -43412, -42806, -42194, -41576, -40951, -40320, -39683, -39040, -38391, -37736, -37076,
     -36410, -35738, -35062, -34380, -33692, -33000, -32303, -31600, -30893, -30182, -29466, -28745, -28020, -27291, -26558, -25821,
     -25080, -24335, -23586, -22834, -22078, -21320, -20557, -19792, -19024, -18253, -17479, -16703, -15924, -15143, -14359, -13573,
     -12785, -11996, -11204, -10411, -9616, -8820, -8022, -7224, -6424, -5623, -4821, -4019, -3216, -2412, -1608, -804,
     0]"

definition fp_sin :: "fixed_point_t \<Rightarrow> fixed_point_t option" where
  "fp_sin v = do {
     m \<leftarrow> fp_mod v pi2;
     let num = raw_value (m * one_div_pi2);
     let negative = sint num < 0;
     let num = (if negative then - num else num);
     let index = signed_drop_bit SIN_SHIFT num;
     a \<leftarrow> arr_get SIN (sint index);
     b \<leftarrow> arr_get SIN (sint (index + 1));
     let fraction = push_bit SIN_COUNT_LOG2 (num - push_bit SIN_SHIFT index);
     let result = word_of_int a
       + signed_drop_bit SIN_PRECISION ((word_of_int b - word_of_int a) * fraction);
     Some (parse_raw (if \<not> negative then result else - result)) }"

definition fp_cos :: "fixed_point_t \<Rightarrow> fixed_point_t option" where
  "fp_cos v = fp_sin (v + pi_half)"

definition fp_sqrt :: "fixed_point_t \<Rightarrow> fixed_point_t" where
  "fp_sqrt v =
     (if \<not> is_negative v then parse_raw (isqrt (push_bit PRECISION (raw_value v))) else 0)"

definition mul_div_int :: "fixed_point_t \<Rightarrow> i64 \<Rightarrow> i64 \<Rightarrow> fixed_point_t option" where
  "mul_div_int multiplier numerator denominator =
     map_option parse_raw (s64_div (raw_value multiplier * numerator) denominator)"

definition mul_div :: "fixed_point_t \<Rightarrow> fixed_point_t \<Rightarrow> fixed_point_t \<Rightarrow> fixed_point_t option" where
  "mul_div multiplier numerator denominator =
     mul_div_int multiplier (raw_value numerator) (raw_value denominator)"

definition multiply_truncate :: "int \<Rightarrow> fixed_point_t \<Rightarrow> 'w::len word" where
  "multiply_truncate integer v =
     word_of_int (sint (signed_drop_bit PRECISION (word_of_int integer * raw_value v)))"

definition from_fraction :: "i64 \<Rightarrow> i64 \<Rightarrow> fixed_point_t option" where
  "from_fraction numerator denominator =
     map_option parse_raw (s64_div (push_bit PRECISION numerator) denominator)"

definition from_fraction_u64 :: "u64 \<Rightarrow> u64 \<Rightarrow> fixed_point_t option" where
  "from_fraction_u64 numerator denominator =
     (if denominator = 0 then None
      else Some (parse_raw (push_bit PRECISION numerator div denominator)))"

record Fraction =
  numerator :: fixed_point_t
  denominator :: fixed_point_t

definition fraction_times :: "Fraction \<Rightarrow> fixed_point_t \<Rightarrow> fixed_point_t option" where
  "fraction_times lhs rhs = mul_div rhs (numerator lhs) (denominator lhs)"

section \<open>Weighted sampling\<close>

text \<open>\<open>random_value\<close> is the value of the 32-bit draw.  \<^const>\<open>None\<close> is the \<open>-1\<close> returned
  for an empty or weightless choice.\<close>

fun sample_loop :: "fixed_point_t list \<Rightarrow> fixed_point_t \<Rightarrow> fixed_point_t \<Rightarrow> nat \<Rightarrow> nat option" where
  "sample_loop [] scaled_random cumulative i = None"
| "sample_loop (w # ws) scaled_random cumulative i =
     (let cumulative = cumulative + w
      in if fp_mul_int cumulative 4294967295 \<ge> scaled_random then Some i
         else sample_loop ws scaled_random cumulative (Suc i))"

definition sample_weighted_index ::
    "u32 \<Rightarrow> fixed_point_t list \<Rightarrow> fixed_point_t \<Rightarrow> nat option" where
  "sample_weighted_index random_value positive_weights weights_sum =
     (if positive_weights = [] \<or> weights_sum \<le> 0 then None
      else let scaled_random = fp_mul_int weights_sum (uint random_value)
           in case sample_loop positive_weights scaled_random 0 0 of
                Some i \<Rightarrow> Some i
              | None \<Rightarrow> Some (length positive_weights - 1))"

section \<open>The square root loop\<close>

text \<open>
  Before a step with \<open>d = 4 ^ k\<close> the root found so far is \<open>s\<close>, the remainder is
  \<open>n - s * s\<close> and \<open>c\<close> is \<open>s * 2 ^ (k + 1)\<close>.
\<close>

lemma sqrt_shrink_pow:
  assumes "0 < n" "n < 4 ^ Suc j" "j \<le> 31"
  shows "\<exists>k \<le> j. sqrt_shrink (of_nat n) (of_nat (4 ^ j)) = of_nat (4 ^ k) \<and> n < 4 ^ Suc k"
  using assms
proof (induction j)
  case 0
  have "n < 2 ^ 64" using 0 by simp
  then have "\<not> (of_nat (4 ^ 0) :: u64) > of_nat n" using 0 by (simp add: word_less_nat_alt unat64_of_nat)
  then show ?case using 0 by (subst sqrt_shrink.simps) simp
next
  case (Suc j)
  have "(4::nat) ^ Suc j \<le> 4 ^ 31" using Suc.prems by (intro power_increasing) simp_all
  then have p: "(4::nat) ^ Suc j < 2 ^ 64" "n < 2 ^ 64"
    using Suc.prems power_increasing [of "Suc (Suc j)" 32 "4::nat"] by simp_all
  have d: "drop_bit 2 (of_nat (4 ^ Suc j) :: u64) = of_nat (4 ^ j)"
    using drop_of_nat64 [OF p(1), of 2] by simp
  show ?case
  proof (cases "4 ^ Suc j > n")
    case True
    then have "sqrt_shrink (of_nat n) (of_nat (4 ^ Suc j)) = sqrt_shrink (of_nat n) (of_nat (4 ^ j))"
      using p d by (subst sqrt_shrink.simps) (simp only: word_less_nat_alt unat64_of_nat if_True)
    with Suc.IH Suc.prems True show ?thesis by (metis Suc_leD le_SucI)
  next
    case False
    then have "sqrt_shrink (of_nat n) (of_nat (4 ^ Suc j)) = of_nat (4 ^ Suc j)"
      using p by (subst sqrt_shrink.simps) (simp only: word_less_nat_alt unat64_of_nat if_False)
    with Suc.prems show ?thesis by blast
  qed
qed

lemma sqrt_step:
  assumes "s * s \<le> n" "n < 2 ^ 64" "k \<le> 31" "s + 2 * 2 ^ k \<le> 2 ^ 32"
  shows "sqrt_loop (of_nat (n - s * s)) (of_nat (s * 2 * 2 ^ k)) (of_nat (4 ^ k)) =
    (let t = (if (s + 2 ^ k) * (s + 2 ^ k) \<le> n then s + 2 ^ k else s)
     in sqrt_loop (of_nat (n - t * t)) (of_nat (t * 2 ^ k)) (of_nat (4 ^ k div 4)))"
proof -
  have q: "(4::nat) ^ k = 2 ^ k * 2 ^ k" by (simp add: power_mult_distrib flip: power_mult_distrib)
  have sq: "(s + 2 ^ k) * (s + 2 ^ k) = s * s + (s * 2 * 2 ^ k + 4 ^ k)"
    by (simp add: q algebra_simps)
  have "s + 2 ^ k < 2 ^ 32" using assms(4) zero_less_power [of "2::nat" k] by linarith
  then have "(s + 2 ^ k) * (s + 2 ^ k) < 2 ^ 32 * 2 ^ 32" by (intro mult_strict_mono) simp_all
  then have b: "s * 2 * 2 ^ k + 4 ^ k < 2 ^ 64" "s * 2 * 2 ^ k < 2 ^ 64" "(4::nat) ^ k < 2 ^ 64"
    "n - s * s < 2 ^ 64" using assms(2) unfolding sq by simp_all
  have d: "drop_bit 2 (of_nat (4 ^ k) :: u64) = of_nat (4 ^ k div 4)"
    using drop_of_nat64 [OF b(3), of 2] by simp
  have c: "drop_bit 1 (of_nat (s * 2 * 2 ^ k) :: u64) = of_nat (s * 2 ^ k)"
  proof -
    have "s * 2 * 2 ^ k div 2 ^ 1 = s * 2 ^ k" by simp
    with drop_of_nat64 [OF b(2), of 1] show ?thesis by (simp only:)
  qed
  have nz: "(of_nat (4 ^ k) :: u64) \<noteq> 0"
    using unat64_of_nat [OF b(3)] by (metis power_not_zero unat_0 zero_neq_numeral)
  have cd: "of_nat (s * 2 * 2 ^ k) + of_nat (4 ^ k) = (of_nat (s * 2 * 2 ^ k + 4 ^ k) :: u64)"
    by simp
  have cmp: "(of_nat (s * 2 * 2 ^ k) + of_nat (4 ^ k) :: u64) \<le> of_nat (n - s * s)
      \<longleftrightarrow> (s + 2 ^ k) * (s + 2 ^ k) \<le> n"
    unfolding cd word_le_nat_alt using b assms(1) unfolding sq by (simp only: unat64_of_nat) linarith
  show ?thesis
  proof (cases "(s + 2 ^ k) * (s + 2 ^ k) \<le> n")
    case True
    have le: "s * 2 * 2 ^ k + 4 ^ k \<le> n - s * s" using True sq by linarith
    have "(of_nat (n - s * s) - (of_nat (s * 2 * 2 ^ k) + of_nat (4 ^ k)) :: u64)
        = of_nat (n - (s + 2 ^ k) * (s + 2 ^ k))"
      unfolding cd sq using of_nat_diff [OF le, where 'a = u64] by (simp only: diff_diff_left)
    moreover have "(of_nat (s * 2 ^ k) + of_nat (4 ^ k) :: u64) = of_nat ((s + 2 ^ k) * 2 ^ k)"
      by (simp add: q algebra_simps)
    ultimately show ?thesis
      using True nz by (subst sqrt_loop.simps) (simp only: cmp d c Let_def if_True not_False_eq_True)
  next
    case False
    then show ?thesis
      using nz by (subst sqrt_loop.simps) (simp only: cmp d c Let_def if_True if_False not_False_eq_True)
  qed
qed

lemma sqrt_loop_spec:
  assumes "s * s \<le> n" "n < (s + 2 * 2 ^ k) * (s + 2 * 2 ^ k)" "n < 2 ^ 64" "k \<le> 31" "s + 2 * 2 ^ k \<le> 2 ^ 32"
  shows "\<exists>t. sqrt_loop (of_nat (n - s * s)) (of_nat (s * 2 * 2 ^ k)) (of_nat (4 ^ k)) = (of_nat (n - t * t), of_nat t)
    \<and> t * t \<le> n \<and> n < (t + 1) * (t + 1) \<and> t < 2 ^ 32"
  using assms
proof (induction k arbitrary: s)
  case 0
  define t where "t = (if (s + 2 ^ 0) * (s + 2 ^ 0) \<le> n then s + 2 ^ 0 else s)"
  have e: "sqrt_loop x c (of_nat (4 ^ 0 div 4)) = (x, c)" for x c
    by (subst sqrt_loop.simps) simp
  have "sqrt_loop (of_nat (n - s * s)) (of_nat (s * 2 * 2 ^ 0)) (of_nat (4 ^ 0))
      = sqrt_loop (of_nat (n - t * t)) (of_nat (t * 2 ^ 0)) (of_nat (4 ^ 0 div 4))"
    unfolding t_def using 0 by (intro sqrt_step [of s n 0, unfolded Let_def]) simp_all
  then have "sqrt_loop (of_nat (n - s * s)) (of_nat (s * 2 * 2 ^ 0)) (of_nat (4 ^ 0))
      = (of_nat (n - t * t), of_nat t)"
    unfolding e by (simp only: power_0 mult_1_right)
  moreover have "t * t \<le> n \<and> n < (t + 1) * (t + 1) \<and> t < 2 ^ 32"
    using 0 by (auto simp: t_def not_le)
  ultimately show ?case by blast
next
  case (Suc k)
  define t where "t = (if (s + 2 ^ Suc k) * (s + 2 ^ Suc k) \<le> n then s + 2 ^ Suc k else s)"
  have "sqrt_loop (of_nat (n - s * s)) (of_nat (s * 2 * 2 ^ Suc k)) (of_nat (4 ^ Suc k)) =
     sqrt_loop (of_nat (n - t * t)) (of_nat (t * 2 * 2 ^ k)) (of_nat (4 ^ k))"
    using sqrt_step [of s n "Suc k"] Suc.prems by (simp add: t_def Let_def ac_simps)
  moreover have "t * t \<le> n" "n < (t + 2 * 2 ^ k) * (t + 2 * 2 ^ k)" "t + 2 * 2 ^ k \<le> 2 ^ 32"
    using Suc.prems by (auto simp: t_def not_le ac_simps)
  ultimately show ?case using Suc.IH [of t] Suc.prems by simp
qed

section \<open>Powers, sine and sampling\<close>


lemma and_one_word: "(e AND 1 \<noteq> (0 :: u64)) \<longleftrightarrow> odd (unat e)"
proof -
  have "unat (e AND 1) = unat e mod 2"
    by (simp add: and_one_eq unat_mod)
  moreover have "e AND 1 \<noteq> 0 \<longleftrightarrow> unat (e AND 1) \<noteq> 0" by (simp only: unat_eq_0 not_False_eq_True)
  ultimately show ?thesis by (simp add: odd_iff_mod_2_eq_one)
qed

lemma pow_loop_spec: "pow_loop ret base e = ret * base ^ unat e"
proof (induction ret base e rule: pow_loop.induct)
  case (1 ret base e)
  have h: "unat (drop_bit 1 e) = unat e div 2"
    by (simp add: drop_bit_eq_div unat_div)
  then have u: "unat e = 2 * unat (drop_bit 1 e) + of_bool (odd (unat e))"
    by (simp only:) simp
  show ?case
  proof (cases "drop_bit 1 e = 0")
    case True
    then have "unat e < 2" using h by simp
    then have "base ^ unat e = (if odd (unat e) then base else 1)" by (auto simp: less_2_cases_iff)
    with True show ?thesis by (subst pow_loop.simps) (simp add: and_one_word Let_def)
  next
    case False
    have "base ^ unat e = (base * base) ^ unat (drop_bit 1 e) * (if odd (unat e) then base else 1)"
    proof -
      have "base ^ unat e = base ^ (2 * unat (drop_bit 1 e) + of_bool (odd (unat e)))"
        using u by (rule arg_cong)
      then show ?thesis by (simp add: power_add power_mult power2_eq_square)
    qed
    with False "1.IH" show ?thesis
      by (subst pow_loop.simps) (simp add: and_one_word Let_def mult.assoc mult.left_commute mult.commute)
  qed
qed



lemma nat_and_pred:
  "0 < (n::nat) \<Longrightarrow> (and n (n - 1) = 0) \<longleftrightarrow> (\<exists>k. n = 2 ^ k)"
proof (induction n rule: less_induct)
  case (less n)
  show ?case
  proof (cases "even n")
    case True
    then obtain m where m: "n = 2 * m" by blast
    with less.prems have "0 < m" by simp
    have "(2 * m - Suc 0) div 2 = m - Suc 0" using \<open>0 < m\<close> by presburger
    then have "and n (n - 1) = 2 * and m (m - 1)"
      using \<open>0 < m\<close> m by (subst and_nat_rec) auto
    moreover have "(\<exists>k. m = 2 ^ k) \<longleftrightarrow> (\<exists>k. n = 2 ^ k)"
    proof
      assume "\<exists>k. m = 2 ^ k" then show "\<exists>k. n = 2 ^ k" using m by (metis power_Suc)
    next
      assume "\<exists>k. n = 2 ^ k"
      then obtain k where k: "n = 2 ^ k" by blast
      with True obtain j where "k = Suc j" by (cases k) auto
      with k m show "\<exists>k. m = 2 ^ k" by auto
    qed
    ultimately show ?thesis using less.IH [of m] m \<open>0 < m\<close> by auto
  next
    case False
    then have "and n (n - 1) = n - 1" by (subst and_nat_rec) (auto elim!: oddE)
    moreover have "(\<exists>k. n = 2 ^ k) \<longleftrightarrow> n = 1"
      using False by (metis even_power neq0_conv dvd_refl power_0)
    ultimately show ?thesis using less.prems by auto
  qed
qed



lemma one_div_pi2_const: "int_div_fp 1 pi2 = Some one_div_pi2"
  by code_simp

lemma SIN_length: "length SIN = 513" by code_simp
lemma SIN_bounds: "list_all (\<lambda>n. \<bar>n\<bar> \<le> 65536) SIN" by code_simp

lemma mod_abs_less: "0 < b \<Longrightarrow> \<bar>(a::int) smod b\<bar> < b"
  by (auto simp: signed_modulo_int_def abs_mult sgn_if)



lemma pi2_raw: "rv pi2 = 411774" "rv one_div_pi2 = 10430" by code_simp+

lemma interp_bounds:
  fixes a b f :: int
  assumes "0 \<le> f" "f \<le> 65536" "\<bar>a\<bar> \<le> 65536" "\<bar>b\<bar> \<le> 65536"
  shows "\<bar>a + ((b - a) * f) div 65536\<bar> \<le> 65536"
proof (cases "a \<le> b")
  case True
  then have "0 \<le> (b - a) * f" "(b - a) * f \<le> (b - a) * 65536"
    using assms mult_left_mono [of f 65536 "b - a"] by simp_all
  then have "0 \<le> (b - a) * f div 65536" "(b - a) * f div 65536 \<le> (b - a) * 65536 div 65536"
    by (simp_all add: pos_imp_zdiv_nonneg_iff zdiv_mono1)
  then show ?thesis using assms by simp
next
  case False
  then have "(b - a) * f \<le> 0" "(b - a) * 65536 \<le> (b - a) * f"
    using assms mult_left_mono_neg [of f 65536 "b - a"] by (simp_all add: mult_nonpos_nonneg)
  then have "(b - a) * f div 65536 \<le> 0 div 65536" "(b - a) * 65536 div 65536 \<le> (b - a) * f div 65536"
    by (simp_all only: zdiv_mono1 zero_less_numeral)
  then show ?thesis using assms by simp
qed

lemma sin_interp:
  assumes "0 \<le> sint num" "sint num < 65536"
  shows "\<exists>a b. arr_get SIN (sint (signed_drop_bit SIN_SHIFT num)) = Some a
    \<and> arr_get SIN (sint (signed_drop_bit SIN_SHIFT num + 1)) = Some b
    \<and> \<bar>sint (word_of_int a + signed_drop_bit SIN_PRECISION ((word_of_int b - word_of_int a)
         * push_bit SIN_COUNT_LOG2 (num - push_bit SIN_SHIFT (signed_drop_bit SIN_SHIFT num))) :: i64)\<bar> \<le> 65536"
proof -
  define i where "i = sint num div 128"
  have i: "0 \<le> i" "i < 512" using assms by (auto simp: i_def pos_imp_zdiv_nonneg_iff)
  have shift: "SIN_SHIFT = 7" "SIN_PRECISION = 16" "SIN_COUNT_LOG2 = 9"
    by (simp_all add: SIN_SHIFT_def SIN_PRECISION_def SIN_COUNT_LOG2_def)
  have idx: "sint (signed_drop_bit 7 num) = i" by (simp add: s64_simps i_def)
  have idx1: "sint (signed_drop_bit 7 num + 1) = i + 1" using i by (subst sint64_add) (simp_all add: idx fits64_iff)
  define a where "a = SIN ! nat i"
  define b where "b = SIN ! nat (i + 1)"
  have a: "arr_get SIN i = Some a" "\<bar>a\<bar> \<le> 65536" using i SIN_bounds 
    by (simp_all add: arr_get_in SIN_length a_def list_all_length)
  have b: "arr_get SIN (i + 1) = Some b" "\<bar>b\<bar> \<le> 65536" using i SIN_bounds
    by (simp_all add: arr_get_in SIN_length b_def list_all_length)
  define f where "f = (sint num - i * 128) * 512"
  have "sint num - i * 128 = sint num mod 128" by (simp add: i_def minus_div_mult_eq_mod)
  then have f: "0 \<le> f" "f \<le> 65536"
    using pos_mod_bound [of 128 "sint num"] pos_mod_sign [of 128 "sint num"] by (simp_all add: f_def)
  have p: "sint (push_bit 7 (signed_drop_bit 7 num)) = i * 128"
    using i by (subst sint64_push) (simp_all add: idx fits64_iff)
  have d: "sint (num - push_bit 7 (signed_drop_bit 7 num)) = sint num - i * 128"
    using f by (subst sint64_diff) (simp_all add: p f_def fits64_iff)
  have fr: "sint (push_bit 9 (num - push_bit 7 (signed_drop_bit 7 num))) = f"
    using f by (subst sint64_push) (simp_all add: d f_def fits64_iff)
  have ba: "sint (word_of_int b - word_of_int a :: i64) = b - a"
  proof -
    have "fits64 a" "fits64 b" "fits64 (b - a)" using a b unfolding fits64_iff by linarith+
    then show ?thesis by (simp add: sint64_diff sint64_of_int)
  qed
  have ia: "sint (word_of_int a :: i64) = a" 
  proof -
    have "fits64 a" using a unfolding fits64_iff by linarith
    then show ?thesis by (rule sint64_of_int)
  qed
  have bnd: "\<bar>(b - a) * f\<bar> \<le> 131072 * 65536" unfolding abs_mult using a b f by (intro mult_mono) auto
  have m: "sint ((word_of_int b - word_of_int a :: i64) * push_bit 9 (num - push_bit 7 (signed_drop_bit 7 num))) = (b - a) * f"
  proof -
    have "fits64 ((b - a) * f)" using bnd unfolding fits64_iff by linarith
    then show ?thesis by (simp only: sint64_mult ba fr)
  qed
  have r: "\<bar>a + ((b - a) * f) div 65536\<bar> \<le> 65536" using interp_bounds f a b by blast
  have power2_16: "(2::int) ^ 16 = 65536" by simp
  have "sint (word_of_int a + signed_drop_bit 16 ((word_of_int b - word_of_int a :: i64) * push_bit 9 (num - push_bit 7 (signed_drop_bit 7 num)))) = a + ((b - a) * f) div 65536"
  proof -
    have "fits64 (a + ((b - a) * f) div 65536)" using r unfolding fits64_iff by linarith
    then show ?thesis by (simp only: sint64_add sint64_shr m ia power2_16)
  qed
  then show ?thesis using a b r by (simp only: shift idx idx1) auto
qed



definition prefix_sum :: "fixed_point_t list \<Rightarrow> nat \<Rightarrow> int" where
  "prefix_sum ws k = sum_list (take k (map rv ws))"

lemma prefix_sum_simps [simp]:
  "prefix_sum ws 0 = 0" "prefix_sum (w # ws) (Suc k) = rv w + prefix_sum ws k"
  by (simp_all add: prefix_sum_def)

lemma rv_mul_int: "fits64 n \<Longrightarrow> fits64 (rv x * n) \<Longrightarrow> rv (fp_mul_int x n) = rv x * n"
  by (simp add: fp_mul_int_def sint64_mult sint64_of_int rv_def)

lemma sample_loop_spec:
  assumes "\<forall>w \<in> set ws. 0 \<le> rv w" "0 \<le> rv c" "(rv c + sum_list (map rv ws)) * 4294967295 < 2 ^ 63"
  shows "case sample_loop ws s c i of
      None \<Rightarrow> \<forall>j < length ws. (rv c + prefix_sum ws (Suc j)) * 4294967295 < rv s
    | Some k \<Rightarrow> \<exists>j < length ws. k = i + j \<and> rv s \<le> (rv c + prefix_sum ws (Suc j)) * 4294967295
        \<and> (\<forall>j' < j. (rv c + prefix_sum ws (Suc j')) * 4294967295 < rv s)"
  using assms
proof (induction ws arbitrary: c i)
  case Nil
  then show ?case by simp
next
  case (Cons w ws)
  have nn: "0 \<le> sum_list (map rv ws)" using Cons.prems(1) by (intro sum_list_nonneg) auto
  have le: "(rv c + rv w) * 4294967295 < 2 ^ 63" using Cons.prems(3) nn by simp
  have c: "rv (c + w) = rv c + rv w"
    using Cons.prems le by (intro rv_add) (simp add: fits64_iff)
  have m: "rv (fp_mul_int (c + w) 4294967295) = (rv c + rv w) * 4294967295"
    using Cons.prems le by (subst rv_mul_int) (simp_all add: c fits64_iff)
  show ?case
  proof (cases "rv s \<le> (rv c + rv w) * 4294967295")
    case True
    then show ?thesis by (auto simp: fp_le_iff m)
  next
    case False
    have IH: "case sample_loop ws s (c + w) (Suc i) of
        None \<Rightarrow> \<forall>j < length ws. (rv (c + w) + prefix_sum ws (Suc j)) * 4294967295 < rv s
      | Some k \<Rightarrow> \<exists>j < length ws. k = Suc i + j \<and> rv s \<le> (rv (c + w) + prefix_sum ws (Suc j)) * 4294967295
          \<and> (\<forall>j' < j. (rv (c + w) + prefix_sum ws (Suc j')) * 4294967295 < rv s)"
      using Cons.prems by (intro Cons.IH) (simp_all add: c add.assoc)
    have step: "sample_loop (w # ws) s c i = sample_loop ws s (c + w) (Suc i)"
      using False by (simp add: fp_le_iff m)
    show ?thesis
    proof (cases "sample_loop ws s (c + w) (Suc i)")
      case None
      with IH False show ?thesis
        by (auto simp: step c add.assoc less_Suc_eq_0_disj simp del: sample_loop.simps)
    next
      case (Some k)
      with IH obtain j where j: "j < length ws" "k = Suc i + j"
        "rv s \<le> (rv (c + w) + prefix_sum ws (Suc j)) * 4294967295"
        "\<forall>j' < j. (rv (c + w) + prefix_sum ws (Suc j')) * 4294967295 < rv s" by auto
      show ?thesis unfolding step Some option.case
        by (rule exI [of _ "Suc j"]) (use j False in \<open>auto simp: c add.assoc less_Suc_eq_0_disj\<close>)
    qed
  qed
qed

section \<open>Properties\<close>

lemma isqrt_bounds:
  "unat n \<le> unat (isqrt n) * unat (isqrt n) \<and> (\<forall>m. unat n \<le> m * m \<longrightarrow> unat (isqrt n) \<le> m)"
proof (cases "unat n = 0")
  case True
  then have "n = 0" by (simp add: unat_eq_0)
  moreover have "isqrt 0 = 0" by code_simp
  ultimately show ?thesis by simp
next
  case False
  have n64: "unat n < 2 ^ 64" using unsigned_less [of n, where 'a = nat] by simp
  have e: "push_bit 62 (1 :: u64) = of_nat (4 ^ 31)" by simp
  obtain k where k: "k \<le> 31" "sqrt_shrink n (push_bit 62 1) = of_nat (4 ^ k)" "unat n < 4 ^ Suc k"
    using sqrt_shrink_pow [of "unat n" 31] False n64 e by auto
  have "(4::nat) ^ Suc k = (0 + 2 * 2 ^ k) * (0 + 2 * 2 ^ k)" by (simp flip: power_mult_distrib)
  moreover have "2 * 2 ^ k \<le> (2 :: nat) ^ 32" using k(1) power_increasing [of "Suc k" 32 "2::nat"] by simp
  moreover have n0: "of_nat (unat n - 0 * 0) = n" and z: "of_nat (0 * 2 * 2 ^ k) = (0 :: u64)"
    by simp_all
  ultimately obtain t where t: "sqrt_loop n 0 (of_nat (4 ^ k)) = (of_nat (unat n - t * t), of_nat t)"
    "t * t \<le> unat n" "unat n < (t + 1) * (t + 1)" "t < 2 ^ 32"
    using sqrt_loop_spec [of 0 "unat n" k, unfolded n0 z] k(1,3) n64 by fastforce
  have i: "isqrt n = (if (of_nat (unat n - t * t) :: u64) > 0 then of_nat t + 1 else of_nat t)"
    by (simp only: isqrt_def k(2) t(1) Let_def prod.case)
  have u: "unat (of_nat (unat n - t * t) :: u64) = unat n - t * t" using n64 by (intro unat64_of_nat) simp
  have s: "unat (of_nat t + 1 :: u64) = t + 1" "unat (of_nat t :: u64) = t"
    using t(4) unat64_of_nat [of "t + 1"] unat64_of_nat [of t] by (simp_all add: ac_simps)
  have ir: "unat (isqrt n) = (if unat n - t * t > 0 then t + 1 else t)"
    using s by (simp add: i word_less_nat_alt u)
  have mono: "m < t + 1 \<Longrightarrow> m * m \<le> t * t" "m < t \<Longrightarrow> m * m < t * t" for m
    by (simp_all add: mult_le_mono mult_strict_mono)
  show ?thesis
  proof (cases "unat n - t * t > 0")
    case True
    then show ?thesis using t(2,3) mono(1) by (auto simp: ir not_less intro: leI) (meson leD le_less_trans not_le)
  next
    case F: False
    then show ?thesis using t(2) mono(2) by (auto simp: ir intro: leI) (meson leD leI le_less_trans)
  qed
qed

text \<open>C38: the bitwise square root is the rounded-up square root of its argument, for every unsigned
  64-bit argument.\<close>

theorem isqrt_ceil: "unat (isqrt n) = (LEAST m. unat n \<le> m * m)"
  using isqrt_bounds [of n] by (intro Least_equality [symmetric]) auto

text \<open>Fast exponentiation computes the power modulo the word size, for every base and exponent.\<close>

theorem u64_pow_spec: "u64_pow base exponent = base ^ unat exponent"
  by (simp add: u64_pow_def pow_loop_spec)

text \<open>\<open>is_power_of_two\<close> recognises exactly the powers of two.\<close>

theorem is_power_of_two_spec: "is_power_of_two n \<longleftrightarrow> (\<exists>k. unat n = 2 ^ k)"
proof (cases "n = 0")
  case True
  then show ?thesis by (simp add: is_power_of_two_def)
next
  case False
  then have "0 < unat n" by (simp add: unat_gt_0)
  moreover have "unat (n - 1) = unat n - 1" using False by (simp add: unat_minus_one)
  moreover have "n AND (n - 1) = 0 \<longleftrightarrow> and (unat n) (unat (n - 1)) = 0"
    by (simp add: unat_eq_0 flip: unsigned_and_eq)
  ultimately show ?thesis using False nat_and_pred [of "unat n"]
    by (simp add: is_power_of_two_def word_gt_0)
qed

text \<open>The fused multiply-divide rounds the exact product of three numbers once, truncating, and
  traps only for a zero divisor or the single overflowing quotient.\<close>

theorem mul_div_spec:
  assumes "fits64 (rv m * rv n)"
  shows "map_option rv (mul_div m n d) =
    (if d = 0 \<or> (rv m * rv n = - (2 ^ 63) \<and> rv d = -1) then None else Some ((rv m * rv n) sdiv rv d))"
proof -
  have p: "sint (raw_value m * raw_value n) = rv m * rv n"
    using assms by (simp add: rv_def s64_simps)
  have d: "d = 0 \<longleftrightarrow> sint (raw_value d) = 0"
    using rv_eq_iff [of d 0] by (simp only: rv_0 flip: rv_def)
  show ?thesis using sdiv_range [OF assms]
    by (auto simp: mul_div_def mul_div_int_def s64_div_def p d s64_simps simp flip: rv_def)
qed

theorem mul_div_spec_witness:
  "map_option rv (mul_div (fp_of_int 3) (fp_of_int 5) (fp_of_int (- 7))) = Some (- 140434)"
  using mul_div_spec [of "fp_of_int 3" "fp_of_int 5" "fp_of_int (- 7)"]
  by (simp add: rv_of_int fits64_iff rv_eq_iff [of _ 0])

text \<open>The table-driven sine is total: for every one of the 2^64 arguments both table reads are in
  bounds, no intermediate leaves 64 bits, and the result lies in [-1, 1].\<close>

theorem fp_sin_total: "\<exists>r. fp_sin v = Some r \<and> - 65536 \<le> rv r \<and> rv r \<le> 65536"
proof -
  define m where "m = rv v smod 411774"
  have mb: "\<bar>m\<bar> \<le> 411773" using mod_abs_less [of 411774 "rv v"] by (simp add: m_def)
  then have mf: "fits64 m" unfolding fits64_iff by arith
  have md: "fp_mod v pi2 = Some (parse_raw (word_of_int m))"
    using pi2_raw by (simp add: fp_mod_def s64_rem_def m_def flip: rv_def)
  define num where "num = raw_value (parse_raw (word_of_int m) * one_div_pi2)"
  have n: "sint num = m * 10430 div 65536"
  proof -
    have r: "rv (parse_raw (word_of_int m)) = m" by (simp add: sint64_of_int mf)
    have "fits64 (m * 10430)" using mb unfolding fits64_iff by linarith
    then have "rv (parse_raw (word_of_int m) * one_div_pi2) = m * 10430 div 65536"
      by (simp only: rv_mul r pi2_raw)
    then show ?thesis by (simp only: num_def flip: rv_def)
  qed
  have nb: "- 65535 \<le> sint num" "sint num \<le> 65535"
  proof -
    have "(- 411773 * 10430) div 65536 \<le> m * 10430 div 65536" "m * 10430 div 65536 \<le> (411773 * 10430) div 65536"
      using mb by (intro zdiv_mono1; simp)+
    then show "- 65535 \<le> sint num" "sint num \<le> 65535" unfolding n by simp_all
  qed
  define w where "w = (if sint num < 0 then - num else num)"
  have w: "0 \<le> sint w" "sint w < 65536"
    using nb by (auto simp: w_def sint64_minus fits64_iff)
  from sin_interp [OF w] obtain a b where
    a: "arr_get SIN (sint (signed_drop_bit SIN_SHIFT w)) = Some a" and
    b: "arr_get SIN (sint (signed_drop_bit SIN_SHIFT w + 1)) = Some b" and
    bound: "\<bar>sint (word_of_int a + signed_drop_bit SIN_PRECISION ((word_of_int b - word_of_int a)
         * push_bit SIN_COUNT_LOG2 (w - push_bit SIN_SHIFT (signed_drop_bit SIN_SHIFT w))) :: i64)\<bar> \<le> 65536"
    by blast
  define R where "R = (word_of_int a + signed_drop_bit SIN_PRECISION ((word_of_int b - word_of_int a)
         * push_bit SIN_COUNT_LOG2 (w - push_bit SIN_SHIFT (signed_drop_bit SIN_SHIFT w))) :: i64)"
  have "fp_sin v = Some (parse_raw (if \<not> sint num < 0 then R else - R))"
    unfolding fp_sin_def md bind.bind_lunit Let_def num_def [symmetric] w_def [symmetric] a b
      R_def [symmetric] ..
  moreover have "sint (- R) = - sint R" and "- 65536 \<le> sint R" "sint R \<le> 65536"
  proof -
    show R: "- 65536 \<le> sint R" "sint R \<le> 65536" using bound by (simp_all only: R_def [symmetric] abs_le_iff) linarith
    then have "fits64 (- sint R)" unfolding fits64_iff by linarith
    then show "sint (- R) = - sint R" by (rule sint64_minus)
  qed
  ultimately show ?thesis by auto
qed

text \<open>Weighted sampling returns a valid index, the least one whose cumulative weight reaches the
  scaled draw, whenever the weights are non-negative, add up to the given positive sum and the
  scaled sum stays inside 64 bits; the fallback to the last index is never needed.\<close>

theorem sample_weighted_index_spec:
  assumes "\<forall>w \<in> set ws. 0 \<le> rv w" "rv weights_sum = sum_list (map rv ws)" "0 < rv weights_sum"
    "rv weights_sum * 4294967295 < 2 ^ 63"
  shows "\<exists>i < length ws. sample_weighted_index r ws weights_sum = Some i
    \<and> rv weights_sum * uint r \<le> prefix_sum ws (Suc i) * 4294967295
    \<and> (\<forall>j < i. prefix_sum ws (Suc j) * 4294967295 < rv weights_sum * uint r)"
proof -
  have ne: "ws \<noteq> []" using assms(2,3) by auto
  have r: "uint r \<le> 4294967295" "0 \<le> uint r" using uint_lt2p [of r] by simp_all
  then have tr: "rv weights_sum * uint r \<le> rv weights_sum * 4294967295" "0 \<le> rv weights_sum * uint r" using assms(3) by (simp_all add: mult_left_mono)
  then have f: "rv (fp_mul_int weights_sum (uint r)) = rv weights_sum * uint r"
  proof -
    have "fits64 (uint r)" using r unfolding fits64_iff by linarith
    moreover have "fits64 (rv weights_sum * uint r)" using tr assms(4) by (simp add: fits64_iff)
    ultimately show ?thesis by (rule rv_mul_int)
  qed
  have last: "prefix_sum ws (Suc (length ws - 1)) = rv weights_sum"
    using ne assms(2) by (simp add: prefix_sum_def)
  have "case sample_loop ws (fp_mul_int weights_sum (uint r)) 0 0 of
      None \<Rightarrow> \<forall>j < length ws. prefix_sum ws (Suc j) * 4294967295 < rv weights_sum * uint r
    | Some k \<Rightarrow> \<exists>j < length ws. k = j \<and> rv weights_sum * uint r \<le> prefix_sum ws (Suc j) * 4294967295
        \<and> (\<forall>j' < j. prefix_sum ws (Suc j') * 4294967295 < rv weights_sum * uint r)"
    by (rule sample_loop_spec [of ws 0 "fp_mul_int weights_sum (uint r)" 0, unfolded f rv_0 add_0_left])
      (use assms in simp_all)
  moreover have "\<not> (\<forall>j < length ws. prefix_sum ws (Suc j) * 4294967295 < rv weights_sum * uint r)"
    using last tr ne by (auto intro!: exI [of _ "length ws - 1"] simp: not_less)
  ultimately show ?thesis
    using ne assms(3) by (auto simp: sample_weighted_index_def fp_le_iff split: option.splits)
qed

theorem sample_weighted_index_spec_witness:
  "\<exists>i. sample_weighted_index 2000000000 [fp_of_int 1, fp_of_int 0, fp_of_int 3] (fp_of_int 4) = Some i
    \<and> rv (fp_of_int 4) * uint (2000000000 :: u32)
        \<le> prefix_sum [fp_of_int 1, fp_of_int 0, fp_of_int 3] (Suc i) * 4294967295"
  using sample_weighted_index_spec [of "[fp_of_int 1, fp_of_int 0, fp_of_int 3]" "fp_of_int 4" 2000000000]
  by (fastforce simp: rv_of_int fits64_iff)

end
