(* ===== verification/Char_Conv.thy ===== *)
theory Char_Conv
  imports Sim_Prelude
begin

text \<open>
  \<open>src/openvic-simulation/core/string/CharConv.hpp\<close>: integers to text and back in any base from 2
  to 36.  A range \<open>[first, last)\<close> is a string, a pointer into it the number of characters before
  it; an integral type \<open>T\<close> is its signedness and its width in bits.  The unsigned value the
  loops work on is a natural number below \<open>2 ^ bits\<close> with the wrap-around written out.
\<close>

section \<open>Parsing\<close>

datatype errc = errc_ok | invalid_argument | result_out_of_range | value_too_large | not_supported

definition digit_from_char :: "char \<Rightarrow> nat" where
  "digit_from_char c =
     (let n = of_char c
      in if 48 \<le> n \<and> n \<le> 57 then n - 48
         else if 65 \<le> n \<and> n \<le> 90 then n - 55
         else if 97 \<le> n \<and> n \<le> 122 then n - 87
         else 255)"

text \<open>The digit loop: the value, the overflow flag and the characters consumed.\<close>

fun fc_loop :: "nat \<Rightarrow> nat \<Rightarrow> nat \<Rightarrow> nat \<Rightarrow> nat \<Rightarrow> bool \<Rightarrow> nat \<Rightarrow> string \<Rightarrow> nat \<times> bool \<times> nat" where
  "fc_loop bits base risky_val max_digit v overflowed n [] = (v, overflowed, n)"
| "fc_loop bits base risky_val max_digit v overflowed n (c # cs) =
     (let digit = digit_from_char c
      in if digit \<ge> base then (v, overflowed, n)
         else if v < risky_val \<or> (v = risky_val \<and> digit \<le> max_digit)
         then fc_loop bits base risky_val max_digit ((v * base + digit) mod 2 ^ bits) overflowed (Suc n) cs
         else fc_loop bits base risky_val max_digit v True (Suc n) cs)"

definition as_signed :: "nat \<Rightarrow> nat \<Rightarrow> int" where
  "as_signed bits u = (if u < 2 ^ (bits - 1) then int u else int u - 2 ^ bits)"

definition from_chars :: "bool \<Rightarrow> nat \<Rightarrow> nat \<Rightarrow> string \<Rightarrow> int \<Rightarrow> nat \<times> errc \<times> int" where
  "from_chars sgnd bits base s raw_value =
     (let minus_sign = (sgnd \<and> s \<noteq> [] \<and> hd s = CHR ''-'');
          next_chars = (if minus_sign then tl s else s);
          uint_max = 2 ^ bits - 1;
          int_max = uint_max div 2;
          abs_int_min = int_max + 1;
          limit = (if sgnd then (if minus_sign then abs_int_min else int_max) else uint_max);
          (v, overflowed, n) =
            fc_loop bits base (limit div base) (limit mod base) 0 False (of_bool minus_sign) next_chars
      in if n = of_bool minus_sign then (0, invalid_argument, raw_value)
         else if overflowed then (n, result_out_of_range, raw_value)
         else let v = (if sgnd \<and> minus_sign then (2 ^ bits - v) mod 2 ^ bits else v)
              in (n, errc_ok, if sgnd then as_signed bits v else int v))"

text \<open>
  The base 0 asks for the base of the prefix, and base 16 skips a hexadecimal prefix.  The result is
  the base and the number of characters skipped.  (The peek at an empty range, which the code makes
  too, sees no digit: the callers pass terminated strings.)
\<close>

definition hex_prefix :: "string \<Rightarrow> bool" where
  "hex_prefix s \<longleftrightarrow> length s > 1 \<and> s ! 0 = CHR ''0'' \<and> (s ! 1 = CHR ''x'' \<or> s ! 1 = CHR ''X'')"

definition detect_base :: "string \<Rightarrow> nat \<Rightarrow> nat \<times> nat" where
  "detect_base s base =
     (if base = 0
      then (if s \<noteq> [] \<and> hd s = CHR ''0'' then (if hex_prefix s then (16, 2) else (8, 0)) else (10, 0))
      else if base = 16 then (base, if hex_prefix s then 2 else 0)
      else (base, 0))"

definition string_to_uint64 :: "string \<Rightarrow> nat \<Rightarrow> int \<Rightarrow> nat \<times> errc \<times> int" where
  "string_to_uint64 s base raw_value =
     (let (base, skip) = detect_base s base; (p, e, v) = from_chars False 64 base (drop skip s) raw_value
      in (skip + p, e, v))"

definition string_to_int64 :: "string \<Rightarrow> nat \<Rightarrow> int \<Rightarrow> nat \<times> errc \<times> int" where
  "string_to_int64 s base raw_value =
     (let (base, skip) = detect_base s base; (p, e, v) = from_chars True 64 base (drop skip s) raw_value
      in (skip + p, e, v))"

section \<open>Printing\<close>

definition digit_char :: "nat \<Rightarrow> char" where
  "digit_char d = char_of (if d < 10 then 48 + d else 87 + d)"

text \<open>
  The digits are written backwards into a buffer of \<open>bits\<close> characters; \<open>room\<close> is what is left
  of it, and writing past its start is \<^const>\<open>None\<close>, as is division by a zero base.
\<close>

fun emit_digits :: "nat \<Rightarrow> nat \<Rightarrow> nat \<Rightarrow> string \<Rightarrow> string option" where
  "emit_digits 0 base v acc = None"
| "emit_digits (Suc room) base v acc =
     (if base = 0 then None
      else let acc = digit_char (v mod base) # acc; v = v div base
           in if v \<noteq> 0 then emit_digits room base v acc else Some acc)"

text \<open>The branches for bases 2, 4, 8, 16 and 32 mask and shift \<open>k\<close> bits at a time.\<close>

fun emit_bits :: "nat \<Rightarrow> nat \<Rightarrow> nat \<Rightarrow> string \<Rightarrow> string option" where
  "emit_bits 0 k v acc = None"
| "emit_bits (Suc room) k v acc =
     (let acc = digit_char (v AND (2 ^ k - 1)) # acc; v = drop_bit k v
      in if v \<noteq> 0 then emit_bits room k v acc else Some acc)"

definition emit :: "nat \<Rightarrow> nat \<Rightarrow> nat \<Rightarrow> string option" where
  "emit bits base v =
     (if base = 10 then emit_digits bits 10 v []
      else if base = 2 then emit_bits bits 1 v []
      else if base = 4 then emit_bits bits 2 v []
      else if base = 8 then emit_bits bits 3 v []
      else if base = 16 then emit_bits bits 4 v []
      else if base = 32 then emit_bits bits 5 v []
      else emit_digits bits base v [])"

text \<open>\<open>room\<close> is \<open>last - first\<close>; the result is the text written from \<open>first\<close> and the error.\<close>

definition to_chars :: "bool \<Rightarrow> nat \<Rightarrow> nat \<Rightarrow> int \<Rightarrow> nat \<Rightarrow> (string \<times> errc) option" where
  "to_chars sgnd bits base raw_value room =
     (let negative = (sgnd \<and> raw_value < 0); u = nat (raw_value mod 2 ^ bits)
      in if negative \<and> room = 0 then Some ([], value_too_large)
         else do {
           let sign = (if negative then ''-'' else []);
           let v = (if negative then (2 ^ bits - u) mod 2 ^ bits else u);
           written \<leftarrow> emit bits base v;
           Some (if room - length sign < length written then (sign, value_too_large)
                 else (sign @ written, errc_ok)) })"

section \<open>The digit loop decides the overflow exactly\<close>

definition is_digit :: "nat \<Rightarrow> char \<Rightarrow> bool" where
  "is_digit base c \<longleftrightarrow> digit_from_char c < base"

definition number_from :: "nat \<Rightarrow> nat \<Rightarrow> string \<Rightarrow> nat" where
  "number_from base v ds = foldl (\<lambda>a c. a * base + digit_from_char c) v ds"

lemma number_from_simps [simp]:
  "number_from base v [] = v"
  "number_from base v (c # cs) = number_from base (v * base + digit_from_char c) cs"
  by (simp_all add: number_from_def)

lemma number_from_ge: "0 < base \<Longrightarrow> v \<le> number_from base v ds"
proof (induction ds arbitrary: v)
  case (Cons c cs)
  have "v \<le> v * base + digit_from_char c" using Cons.prems by (simp add: trans_le_add1)
  also have "\<dots> \<le> number_from base (v * base + digit_from_char c) cs" using Cons by simp
  finally show ?case by simp
qed simp

lemma risky_iff:
  fixes v d base limit :: nat
  assumes "d < base"
  shows "(v < limit div base \<or> (v = limit div base \<and> d \<le> limit mod base)) \<longleftrightarrow> v * base + d \<le> limit"
proof -
  have l: "limit = limit div base * base + limit mod base" by simp
  have "v * base + d \<le> limit" if "v < limit div base"
  proof -
    have "base + v * base = Suc v * base" by simp
    also have "\<dots> \<le> limit div base * base" using that by (intro mult_le_mono1) simp
    also have "\<dots> \<le> limit" by (rule div_times_less_eq_dividend)
    finally have "base + v * base \<le> limit" .
    then show ?thesis using assms by linarith
  qed
  moreover have "limit < v * base + d" if "limit div base < v"
  proof -
    have "Suc (limit div base) * base \<le> v * base" using that by (intro mult_le_mono1) simp
    moreover have "limit mod base < base" using assms by simp
    moreover have "Suc (limit div base) * base = base + limit div base * base" by simp
    ultimately show ?thesis using l by linarith
  qed
  ultimately show ?thesis using l by (metis add_le_cancel_left linorder_neqE_nat not_le)
qed

lemma fc_loop_spec:
  fixes s :: string
  assumes "0 < base" "limit < 2 ^ bits" "v \<le> limit"
  defines "ds \<equiv> takeWhile (is_digit base) s"
  shows "\<exists>v'. fc_loop bits base (limit div base) (limit mod base) v overflowed n s =
      (v', overflowed \<or> limit < number_from base v ds, n + length ds)
    \<and> (number_from base v ds \<le> limit \<longrightarrow> v' = number_from base v ds)"
  using assms(3) unfolding ds_def
proof (induction s arbitrary: v overflowed n)
  case Nil
  then show ?case by simp
next
  case (Cons c cs)
  show ?case
  proof (cases "is_digit base c")
    case False
    with Cons.prems show ?thesis by (simp add: is_digit_def)
  next
    case True
    then have d: "digit_from_char c < base" by (simp add: is_digit_def)
    let ?w = "v * base + digit_from_char c"
    show ?thesis
    proof (cases "?w \<le> limit")
      case w: True
      then have "?w mod 2 ^ bits = ?w" using assms(2) by simp
      with Cons.IH [OF w, of overflowed "Suc n"] True d w show ?thesis
        by (simp add: risky_iff [OF d])
    next
      case w: False
      have "?w \<le> number_from base ?w (takeWhile (is_digit base) cs)" by (rule number_from_ge [OF assms(1)])
      then have big: "limit < number_from base ?w (takeWhile (is_digit base) cs)" using w by simp
      from Cons.IH [OF Cons.prems, of True "Suc n"] obtain v' where
        "fc_loop bits base (limit div base) (limit mod base) v True (Suc n) cs =
          (v', True, Suc n + length (takeWhile (is_digit base) cs))" by auto
      with True d w big show ?thesis by (simp add: risky_iff [OF d])
    qed
  qed
qed

section \<open>What the writer emits\<close>

lemma of_digit_char: "d < 36 \<Longrightarrow> of_char (digit_char d) = (if d < 10 then 48 + d else 87 + d)"
  by (simp add: digit_char_def)

lemma digit_char_digit: "d < 36 \<Longrightarrow> digit_from_char (digit_char d) = d"
  by (simp add: digit_from_char_def of_digit_char Let_def)

lemma digit_char_not_minus: "d < 36 \<Longrightarrow> digit_char d \<noteq> CHR ''-''"
proof
  assume "d < 36" "digit_char d = CHR ''-''"
  then have "of_char (CHR ''-'') = (if d < 10 then 48 + d else 87 + d :: nat)"
    using of_digit_char by metis
  then show False by (simp split: if_splits)
qed

lemma emit_digits_spec:
  assumes "2 \<le> base" "base \<le> 36" "0 < room" "v < base ^ room"
  shows "\<exists>ds. emit_digits room base v acc = Some (ds @ acc) \<and> ds \<noteq> [] \<and> length ds \<le> room
    \<and> list_all (is_digit base) ds \<and> list_all (\<lambda>c. c \<noteq> CHR ''-'') ds \<and> number_from base 0 ds = v
    \<and> (base \<le> v \<longrightarrow> 1 < length ds)"
  using assms(3,4)
proof (induction room arbitrary: v acc)
  case 0
  then show ?case by simp
next
  case (Suc room)
  let ?c = "digit_char (v mod base)"
  have m: "v mod base < base" using assms(1) by simp
  then have m36: "v mod base < 36" using assms(2) by simp
  have c: "digit_from_char ?c = v mod base" "is_digit base ?c" "?c \<noteq> CHR ''-''"
    using m digit_char_digit [OF m36] digit_char_not_minus [OF m36] by (simp_all add: is_digit_def)
  show ?case
  proof (cases "v div base = 0")
    case True
    then have "v < base" using assms(1) by (simp add: div_eq_0_iff)
    then have "digit_from_char ?c = v" using c(1) by simp
    then show ?thesis using True assms(1) c(2,3) \<open>v < base\<close>
      by (intro exI [of _ "[?c]"]) simp
  next
    case False
    have lt: "v div base < base ^ room" using Suc.prems(2) by (simp add: less_mult_imp_div_less ac_simps)
    then have "0 < room" using False by (cases room) simp_all
    from Suc.IH [OF this lt, of "?c # acc"] obtain ds where ds:
      "emit_digits room base (v div base) (?c # acc) = Some (ds @ ?c # acc)" "ds \<noteq> []"
      "length ds \<le> room" "list_all (is_digit base) ds" "list_all (\<lambda>c. c \<noteq> CHR ''-'') ds"
      "number_from base 0 ds = v div base" by blast
    have "number_from base 0 (ds @ [?c]) = v"
      using ds(6) c(1) by (simp add: number_from_def)
    then show ?thesis
      using False assms(1) c ds by (intro exI [of _ "ds @ [?c]"]) (auto simp: Suc_le_eq)
  qed
qed

lemma emit_digits_more_room:
  "emit_digits room base v acc = Some out \<Longrightarrow> emit_digits (room + k) base v acc = Some out"
  by (induction room arbitrary: v acc) (auto simp: Let_def split: if_splits)

lemma emit_bits_eq: "emit_bits room k v acc = emit_digits room (2 ^ k) v acc"
proof (induction room arbitrary: v acc)
  case (Suc room)
  have "v AND (2 ^ k - 1) = v mod 2 ^ k"
    by (simp only: take_bit_eq_mask [symmetric] mask_eq_exp_minus_1 [symmetric] take_bit_eq_mod)
  then show ?case using Suc by (simp add: drop_bit_eq_div Let_def)
qed simp

lemma emit_eq: "emit bits base v = emit_digits bits base v []"
  by (simp add: emit_def emit_bits_eq)

lemma decimal_emit:
  assumes "v < 10 ^ k" "0 < k" "k \<le> bits"
  shows "\<exists>ds. emit bits 10 v = Some ds \<and> ds \<noteq> [] \<and> length ds \<le> k \<and> list_all (is_digit 10) ds
    \<and> list_all (\<lambda>c. c \<noteq> CHR ''-'') ds \<and> number_from 10 0 ds = v"
  using emit_digits_spec [of 10 k v "[]"] emit_digits_more_room [of k 10 v "[]" _ "bits - k"] assms
  by (force simp: emit_eq)

lemma takeWhile_digits:
  assumes "list_all P ds" "rest = [] \<or> \<not> P (hd rest)"
  shows "takeWhile P (ds @ rest) = ds"
  using assms by (cases rest) (auto simp: takeWhile_append list_all_iff)

lemma as_signed_pos: "u < 2 ^ (bits - 1) \<Longrightarrow> as_signed bits u = int u"
  by (simp add: as_signed_def)

lemma as_signed_neg:
  assumes "0 < bits" "v \<le> 2 ^ (bits - 1)"
  shows "as_signed bits ((2 ^ bits - v) mod 2 ^ bits) = - int v"
proof (cases "v = 0")
  case True
  then show ?thesis by (simp add: as_signed_def)
next
  case False
  have p: "(2 ^ bits :: nat) = 2 * 2 ^ (bits - 1)" using assms(1) by (cases bits) simp_all
  have "(2 ^ bits - v) mod 2 ^ bits = 2 ^ bits - v" using False by simp
  moreover have "\<not> 2 ^ bits - v < 2 ^ (bits - 1)" using assms(2) p by linarith
  moreover have "v \<le> 2 ^ bits" using assms(2) p by linarith
  ultimately show ?thesis by (simp add: as_signed_def of_nat_diff)
qed

section \<open>Properties\<close>

lemma from_chars_cases:
  fixes s :: string and sgnd :: bool
  assumes "2 \<le> base" "0 < bits"
  defines "minus_sign \<equiv> (sgnd \<and> s \<noteq> [] \<and> hd s = CHR ''-'')"
  defines "ds \<equiv> takeWhile (is_digit base) (if minus_sign then tl s else s)"
  defines "limit \<equiv> (if sgnd then (if minus_sign then 2 ^ (bits - 1) else 2 ^ (bits - 1) - 1) else 2 ^ bits - 1)"
  shows "from_chars sgnd bits base s raw_value =
    (if ds = [] then (0, invalid_argument, raw_value)
     else if limit < number_from base 0 ds then (of_bool minus_sign + length ds, result_out_of_range, raw_value)
     else (of_bool minus_sign + length ds, errc_ok,
           if minus_sign then - int (number_from base 0 ds) else int (number_from base 0 ds)))"
proof -
  obtain b where b: "bits = Suc b" using assms(2) by (cases bits) auto
  have half: "(2 ^ bits - 1) div 2 = (2 ^ (bits - 1) - 1 :: nat)" "2 ^ (bits - 1) - 1 + 1 = (2 ^ (bits - 1) :: nat)"
  proof -
    have p: "(2 ^ bits :: nat) = 2 * 2 ^ (bits - 1)" "0 < (2 :: nat) ^ (bits - 1)" using b by simp_all
    show "(2 ^ bits - 1) div 2 = (2 ^ (bits - 1) - 1 :: nat)" unfolding p(1) using p(2) by arith
    show "2 ^ (bits - 1) - 1 + 1 = (2 ^ (bits - 1) :: nat)" using p(2) by simp
  qed
  have "(2 :: nat) ^ (bits - 1) < 2 ^ bits" "0 < (2 :: nat) ^ bits" using b by simp_all
  then have lim: "limit < 2 ^ bits" by (simp only: limit_def less_imp_diff_less split: if_split) simp
  from fc_loop_spec [of base limit bits 0 False "of_bool minus_sign" "if minus_sign then tl s else s"]
  obtain v' where v': "fc_loop bits base (limit div base) (limit mod base) 0 False (of_bool minus_sign)
        (if minus_sign then tl s else s) =
      (v', limit < number_from base 0 ds, of_bool minus_sign + length ds)"
    "number_from base 0 ds \<le> limit \<longrightarrow> v' = number_from base 0 ds"
    using assms(1) lim by (auto simp: ds_def)
  have limit_cases: "sgnd \<Longrightarrow> minus_sign \<Longrightarrow> limit = 2 ^ (bits - 1)"
    "sgnd \<Longrightarrow> \<not> minus_sign \<Longrightarrow> limit < 2 ^ (bits - 1)"
    by (simp_all add: limit_def)
  have less: "minus_sign \<Longrightarrow> sgnd" by (simp add: minus_sign_def)
  show ?thesis
    unfolding from_chars_def Let_def minus_sign_def [symmetric] half limit_def [symmetric] v'(1) prod.case
    using v'(2) less limit_cases assms(2) by (auto simp: not_less as_signed_pos as_signed_neg)
qed

section \<open>Decimal fields\<close>

text \<open>Texts that parse to a value whatever non-digit follows: the form the larger formats use.\<close>

definition decimal_text :: "bool \<Rightarrow> nat \<Rightarrow> string \<Rightarrow> int \<Rightarrow> bool" where
  "decimal_text sgnd bits s n \<longleftrightarrow> s \<noteq> [] \<and>
     (\<forall>rest x. rest = [] \<or> \<not> is_digit 10 (hd rest) \<longrightarrow>
        from_chars sgnd bits 10 (s @ rest) x = (length s, errc_ok, n))"

lemma decimal_textD:
  "decimal_text sgnd bits s n \<Longrightarrow> rest = [] \<or> \<not> is_digit 10 (hd rest) \<Longrightarrow>
     from_chars sgnd bits 10 (s @ rest) x = (length s, errc_ok, n)"
  by (auto simp: decimal_text_def)

lemma minus_no_digit [simp]: "\<not> is_digit 10 CHR ''-''" and dot_no_digit [simp]: "\<not> is_digit 10 CHR ''.''"
  by (simp_all add: is_digit_def digit_from_char_def)

lemma zero_digit [simp]: "is_digit 10 CHR ''0''" "digit_from_char CHR ''0'' = 0"
  by (simp_all add: is_digit_def digit_from_char_def)

lemma decimal_text_nonneg:
  assumes "ds \<noteq> []" "list_all (is_digit 10) ds" "number_from 10 0 ds = v"
    and "v < 2 ^ (if sgnd then bits - 1 else bits)" "0 < bits"
  shows "decimal_text sgnd bits ds (int v)"
proof -
  have hd: "hd (ds @ rest) \<noteq> CHR ''-''" for rest using assms(1,2) by (cases ds) auto
  have "from_chars sgnd bits 10 (ds @ rest) x = (length ds, errc_ok, int v)"
    if "rest = [] \<or> \<not> is_digit 10 (hd rest)" for rest x
    using from_chars_cases [of 10 bits sgnd "ds @ rest" x] takeWhile_digits [OF assms(2) that] hd assms
    by (auto split: if_splits)
  then show ?thesis using assms(1) by (simp add: decimal_text_def)
qed

lemma decimal_text_minus:
  assumes "ds \<noteq> []" "list_all (is_digit 10) ds" "number_from 10 0 ds = v" "v \<le> 2 ^ (bits - 1)" "0 < bits"
  shows "decimal_text True bits (CHR ''-'' # ds) (- int v)"
proof -
  have "from_chars True bits 10 ((CHR ''-'' # ds) @ rest) x = (Suc (length ds), errc_ok, - int v)"
    if "rest = [] \<or> \<not> is_digit 10 (hd rest)" for rest x
    using from_chars_cases [of 10 bits True "(CHR ''-'' # ds) @ rest" x] takeWhile_digits [OF assms(2) that] assms
    by auto
  then show ?thesis by (simp add: decimal_text_def)
qed

lemma to_chars_decimal:
  assumes "0 \<le> n" "n < 10 ^ k" "0 < k" "k \<le> bits" "k \<le> room" "n < 2 ^ bits"
  obtains ds where "to_chars sgnd bits 10 n room = Some (ds, errc_ok)" "ds \<noteq> []" "length ds \<le> k"
    "list_all (is_digit 10) ds" "number_from 10 0 ds = nat n"
proof -
  have "nat n < 10 ^ k" using assms(1,2) by (simp add: nat_less_iff)
  then obtain ds where ds: "emit bits 10 (nat n) = Some ds" "ds \<noteq> []" "length ds \<le> k"
    "list_all (is_digit 10) ds" "number_from 10 0 ds = nat n"
    using decimal_emit assms(3,4) by blast
  have "to_chars sgnd bits 10 n room = Some (ds, errc_ok)"
    using assms ds(1,3) by (simp add: to_chars_def Let_def)
  then show thesis using that ds(2-5) by blast
qed

lemma number_from_zeros: "number_from 10 0 (replicate k CHR ''0'' @ ds) = number_from 10 0 ds"
  by (induction k) simp_all

lemma decimal_text_zeros:
  "list_all (is_digit 10) ds \<Longrightarrow> list_all (is_digit 10) (replicate k CHR ''0'' @ ds)"
  by (induction k) simp_all

text \<open>Parsing consumes an optional sign and the longest run of digits of the base; it fails at the
  first character when there is none, reports out of range exactly when the number does not fit the
  type (leaving the destination alone), and otherwise stores the number.\<close>

theorem from_chars_spec:
  fixes s :: string and sgnd :: bool
  assumes "2 \<le> base" "0 < bits"
  defines "minus_sign \<equiv> (sgnd \<and> s \<noteq> [] \<and> hd s = CHR ''-'')"
  defines "ds \<equiv> takeWhile (is_digit base) (if minus_sign then tl s else s)"
  defines "limit \<equiv> (if sgnd then (if minus_sign then 2 ^ (bits - 1) else 2 ^ (bits - 1) - 1) else 2 ^ bits - 1)"
  shows "from_chars sgnd bits base s raw_value =
    (if ds = [] then (0, invalid_argument, raw_value)
     else if limit < number_from base 0 ds then (of_bool minus_sign + length ds, result_out_of_range, raw_value)
     else (of_bool minus_sign + length ds, errc_ok,
           if minus_sign then - int (number_from base 0 ds) else int (number_from base 0 ds)))"
  unfolding minus_sign_def ds_def limit_def by (rule from_chars_cases [OF assms(1,2)])

theorem from_chars_spec_witness:
  "from_chars True 32 10 ''-2147483648.5'' 7 = (11, errc_ok, - 2147483648)"
proof -
  have "takeWhile (is_digit 10) ''2147483648.5'' = ''2147483648''" by code_simp
  moreover have "number_from 10 0 ''2147483648'' = 2147483648"
    by (simp add: digit_from_char_def)
  ultimately show ?thesis
    using from_chars_spec [of 10 32 True "''-2147483648.5''" 7] by simp
qed

lemma to_chars_parses:
  assumes "2 \<le> base" "base \<le> 36" "0 < bits"
    and range: "if sgnd then - (2 ^ (bits - 1)) \<le> n \<and> n < 2 ^ (bits - 1) else 0 \<le> n \<and> n < 2 ^ bits"
    and rest: "rest = [] \<or> \<not> is_digit base (hd rest)"
  shows "\<exists>s e. to_chars sgnd bits base n room = Some (s, e)
    \<and> (e = errc_ok \<longrightarrow> length s \<le> room \<and> from_chars sgnd bits base (s @ rest) x = (length s, errc_ok, n))"
proof -
  have two: "(2 :: int) ^ bits = 2 * 2 ^ (bits - 1)" using assms(3) by (cases bits) simp_all
  define negative where "negative = (sgnd \<and> n < 0)"
  define v where "v = (if negative then (2 ^ bits - nat (n mod 2 ^ bits)) mod 2 ^ bits else nat (n mod 2 ^ bits))"
  have v: "int v = (if negative then - n else n)"
  proof (cases negative)
    case True
    then have b: "- (2 ^ (bits - 1)) \<le> n" "n < 0" using range by (auto simp: negative_def split: if_splits)
    then have "n mod 2 ^ bits = n + 2 ^ bits"
      using two by (intro mod_pos_pos_trivial [of "n + 2 ^ bits" "2 ^ bits", simplified, THEN trans [rotated]]) simp_all
    then have "int (2 ^ bits - nat (n mod 2 ^ bits)) = - n" using b two by simp
    then have "int (2 ^ bits - nat (n mod 2 ^ bits)) < 2 ^ bits" using b two by simp
    then have "2 ^ bits - nat (n mod 2 ^ bits) < 2 ^ bits" by simp
    then show ?thesis using True \<open>int (2 ^ bits - nat (n mod 2 ^ bits)) = - n\<close> by (simp add: v_def)
  next
    case False
    then have "0 \<le> n" "n < 2 ^ bits" using range two by (auto simp: negative_def split: if_splits)
    then show ?thesis using False by (simp add: v_def)
  qed
  have "v < 2 ^ bits"  by (simp add: v_def nat_less_iff)
  also have "\<dots> \<le> base ^ bits" using assms(1) by (rule power_mono) simp
  finally obtain ds where ds: "emit bits base v = Some ds" "ds \<noteq> []" "list_all (is_digit base) ds"
    "list_all (\<lambda>c. c \<noteq> CHR ''-'') ds" "number_from base 0 ds = v"
    using emit_digits_spec [OF assms(1,2,3), of v "[]"] by (auto simp: emit_eq)
  have tc: "to_chars sgnd bits base n room =
    (if negative \<and> room = 0 then Some ([], value_too_large)
     else Some (if room - of_bool negative < length ds then (if negative then ''-'' else [], value_too_large)
                else ((if negative then ''-'' else []) @ ds, errc_ok)))"
    by (simp add: to_chars_def Let_def negative_def [symmetric] v_def [symmetric] ds(1))
  have tw: "takeWhile (is_digit base) (ds @ rest) = ds" by (rule takeWhile_digits [OF ds(3) rest])
  have hd: "hd (ds @ rest) \<noteq> CHR ''-''" using ds(2,4) by (cases ds) simp_all
  have "from_chars sgnd bits base ((if negative then ''-'' else []) @ ds @ rest) x
      = (of_bool negative + length ds, errc_ok, n)"
  proof (cases negative)
    case True
    then have sg: "sgnd" and le: "int v \<le> int (2 ^ (bits - 1))" using range v by (auto simp: negative_def)
    from le have "v \<le> 2 ^ (bits - 1)" by (simp only: of_nat_le_iff)
    with sg show ?thesis
      using True from_chars_cases [OF assms(1,3), of sgnd "''-'' @ ds @ rest" x] v ds(2) tw ds(5) by simp
  next
    case False
    then have "sgnd \<Longrightarrow> v < 2 ^ (bits - 1)" "v < 2 ^ bits" using range v \<open>v < 2 ^ bits\<close>
      by (auto simp: negative_def simp flip: of_nat_less_iff [where 'a = int])
    then show ?thesis
      using False from_chars_cases [OF assms(1,3), of sgnd "ds @ rest" x] v ds(2) tw hd ds(5) by auto
  qed
  then show ?thesis using tc ds(2) by (auto split: if_splits)
qed

text \<open>C39: writing a value never leaves the digit buffer in any base from 2 to 36, and what was written
  parses back to the value, whatever non-digit follows it.\<close>

theorem to_chars_roundtrip:
  assumes "2 \<le> base" "base \<le> 36" "0 < bits"
    and range: "if sgnd then - (2 ^ (bits - 1)) \<le> n \<and> n < 2 ^ (bits - 1) else 0 \<le> n \<and> n < 2 ^ bits"
    and rest: "rest = [] \<or> \<not> is_digit base (hd rest)"
  shows "\<exists>s e. to_chars sgnd bits base n room = Some (s, e)
    \<and> (e = errc_ok \<longrightarrow> length s \<le> room \<and> from_chars sgnd bits base (s @ rest) x = (length s, errc_ok, n))"
  using assms by (rule to_chars_parses)

theorem to_chars_roundtrip_witness:
  "\<exists>s. to_chars True 16 36 (- 32768) 20 = Some (s, errc_ok)
    \<and> from_chars True 16 36 (s @ ''.'') 0 = (length s, errc_ok, - 32768)"
proof -
  have "\<not> is_digit 36 CHR ''.''" by (simp add: is_digit_def digit_from_char_def)
  then obtain s e where s: "to_chars True 16 36 (- 32768) 20 = Some (s, e)"
    "e = errc_ok \<longrightarrow> from_chars True 16 36 (s @ ''.'') 0 = (length s, errc_ok, - 32768)"
    using to_chars_roundtrip [of 36 16 True "- 32768" "''.''" 20 0] by auto
  obtain ds where "emit 16 36 32768 = Some ds" "length ds \<le> 16"
    using emit_digits_spec [of 36 16 32768 "[]"] by (auto simp: emit_eq)
  then show ?thesis using s by (simp add: to_chars_def)
qed

text \<open>A hexadecimal number written after the prefix \<open>0x\<close> is read back when the base is left to the
  prefix, and so it is when base 16 is asked for.\<close>

theorem prefixed_hex_roundtrip:
  assumes "0 \<le> n" "n < 2 ^ 64" "base = 0 \<or> base = 16"
  shows "\<exists>s. to_chars False 64 16 n 64 = Some (s, errc_ok)
    \<and> string_to_uint64 (''0x'' @ s) base x = (2 + length s, errc_ok, n)"
proof -
  obtain s e where s: "to_chars False 64 16 n 64 = Some (s, e)"
    "e = errc_ok \<longrightarrow> length s \<le> 64 \<and> from_chars False 64 16 (s @ []) x = (length s, errc_ok, n)"
    using to_chars_parses [of 16 64 False n "[]" 64 x] assms(1,2) by auto
  obtain ds where ds: "emit 64 16 (nat n) = Some ds" "length ds \<le> 64"
    using emit_digits_spec [of 16 64 "nat n" "[]"] assms(1,2) by (auto simp: emit_eq nat_less_iff)
  then have "e = errc_ok" using s(1) assms(1,2) by (auto simp: to_chars_def Let_def)
  then show ?thesis
    using s assms(3) by (auto simp: string_to_uint64_def detect_base_def hex_prefix_def)
qed

theorem prefixed_hex_roundtrip_witness:
  "\<exists>s. to_chars False 64 16 48879 64 = Some (s, errc_ok)
    \<and> string_to_uint64 (''0x'' @ s) 0 7 = (2 + length s, errc_ok, 48879)"
  by (rule prefixed_hex_roundtrip) simp_all

end
