(* ===== verification/Game_Date.thy ===== *)
theory Game_Date
  imports Char_Conv
begin

text \<open>
  \<open>src/openvic-simulation/types/Date.hpp\<close> and \<open>Date.cpp\<close>: the in-game calendar, without leap
  years.  A \<open>Timespan\<close> is a signed 64-bit number of days, a \<open>Date\<close> the days since the first of
  January of year 0; the year, month and day are computed from it.  Years, months and days are the
  values of the 16-bit and 8-bit types that hold them.
\<close>

section \<open>Timespans\<close>

datatype Timespan = Timespan (days: i64)

definition ts_add :: "Timespan \<Rightarrow> Timespan \<Rightarrow> Timespan" where
  "ts_add t u = Timespan (days t + days u)"

definition ts_sub :: "Timespan \<Rightarrow> Timespan \<Rightarrow> Timespan" where
  "ts_sub t u = Timespan (days t - days u)"

definition ts_neg :: "Timespan \<Rightarrow> Timespan" where
  "ts_neg t = Timespan (- days t)"

definition ts_mult :: "Timespan \<Rightarrow> i64 \<Rightarrow> Timespan" where
  "ts_mult t factor = Timespan (days t * factor)"

definition ts_div :: "Timespan \<Rightarrow> i64 \<Rightarrow> Timespan option" where
  "ts_div t factor = map_option Timespan (s64_div (days t) factor)"

definition ts_le :: "Timespan \<Rightarrow> Timespan \<Rightarrow> bool" where
  "ts_le t u \<longleftrightarrow> sint (days t) \<le> sint (days u)"

definition ts_inc :: "Timespan \<Rightarrow> Timespan" where "ts_inc t = Timespan (days t + 1)"
definition ts_dec :: "Timespan \<Rightarrow> Timespan" where "ts_dec t = Timespan (days t - 1)"

instantiation Timespan :: "{ab_group_add, linorder}"
begin

definition "zero_Timespan = Timespan 0"
definition "plus_Timespan = ts_add"
definition "minus_Timespan = ts_sub"
definition "uminus_Timespan = ts_neg"
definition "less_eq_Timespan = ts_le"
definition "less_Timespan x y \<longleftrightarrow> ts_le x y \<and> \<not> ts_le y x"

instance
  by standard
    (auto simp: zero_Timespan_def plus_Timespan_def minus_Timespan_def uminus_Timespan_def
      less_eq_Timespan_def less_Timespan_def ts_add_def ts_sub_def ts_neg_def ts_le_def ac_simps
      word_eq_iff_signed [symmetric] intro: Timespan.expand)

end

section \<open>The calendar tables\<close>

definition DAYS_IN_MONTH :: "nat list" where
  "DAYS_IN_MONTH = [31, 28, 31, 30, 31, 30, 31, 31, 30, 31, 30, 31]"

definition MONTHS_IN_YEAR :: nat where "MONTHS_IN_YEAR = length DAYS_IN_MONTH"
definition DAYS_IN_YEAR :: nat where "DAYS_IN_YEAR = sum_list DAYS_IN_MONTH"

fun days_up_to :: "nat \<Rightarrow> nat list \<Rightarrow> nat list" where
  "days_up_to d [] = []"
| "days_up_to d (m # ms) = d # days_up_to (d + m) ms"

definition DAYS_UP_TO_MONTH :: "nat list" where
  "DAYS_UP_TO_MONTH = days_up_to 0 DAYS_IN_MONTH"

text \<open>The table loop: \<open>days_left\<close> of the current \<open>month\<close>, with \<open>n\<close> entries still to fill.\<close>

fun month_table :: "nat \<Rightarrow> nat \<Rightarrow> nat \<Rightarrow> nat list" where
  "month_table 0 days_left month = []"
| "month_table (Suc n) days_left month =
     (if days_left > 0 then month # month_table n (days_left - 1) month
      else Suc month # month_table n (DAYS_IN_MONTH ! month - 1) (Suc month))"

definition MONTH_FROM_DAY_IN_YEAR :: "nat list" where
  "MONTH_FROM_DAY_IN_YEAR = month_table DAYS_IN_YEAR 0 0"

definition MONTH_NAMES :: "string list" where
  "MONTH_NAMES = [''January'', ''February'', ''March'', ''April'', ''May'', ''June'', ''July'',
     ''August'', ''September'', ''October'', ''November'', ''December'']"

definition WEEKDAY_NAMES :: "string list" where
  "WEEKDAY_NAMES = [''Sunday'', ''Monday'', ''Tuesday'', ''Wednesday'', ''Thursday'', ''Friday'',
     ''Saturday'']"

definition INITIAL_WEEKDAY_NAME :: nat where "INITIAL_WEEKDAY_NAME = 2"

section \<open>Dates\<close>

datatype Date = Date (timespan: Timespan)

definition clampi :: "int \<Rightarrow> int \<Rightarrow> int \<Rightarrow> int" where
  "clampi lo hi x = (if x < lo then lo else if hi < x then hi else x)"

definition date_to_timespan :: "int \<Rightarrow> int \<Rightarrow> int \<Rightarrow> Timespan" where
  "date_to_timespan year month day =
     (let month = clampi 1 (int MONTHS_IN_YEAR) month;
          day = clampi 1 (int (DAYS_IN_MONTH ! nat (month - 1))) day
      in Timespan (word_of_int
           (year * int DAYS_IN_YEAR + int (DAYS_UP_TO_MONTH ! nat (month - 1)) + day - 1)))"

definition make_date :: "int \<Rightarrow> int \<Rightarrow> int \<Rightarrow> Date" where
  "make_date year month day = Date (date_to_timespan year month day)"

definition date_days :: "Date \<Rightarrow> int" where
  "date_days d = sint (days (timespan d))"

definition get_day_of_year :: "Date \<Rightarrow> int" where
  "get_day_of_year d =
     (let day_in_year = date_days d smod int DAYS_IN_YEAR
      in if day_in_year < 0 then day_in_year + int DAYS_IN_YEAR else day_in_year)"

definition get_year :: "Date \<Rightarrow> int" where
  "get_year d = sint (word_of_int
     ((if date_days d \<ge> 0 then date_days d
       else sint (days (timespan d) - word_of_int (int DAYS_IN_YEAR) + 1)) sdiv int DAYS_IN_YEAR) :: 16 word)"

definition get_month :: "Date \<Rightarrow> nat" where
  "get_month d = MONTH_FROM_DAY_IN_YEAR ! nat (get_day_of_year d)"

definition get_day :: "Date \<Rightarrow> nat" where
  "get_day d = nat (get_day_of_year d)
     - DAYS_UP_TO_MONTH ! (MONTH_FROM_DAY_IN_YEAR ! nat (get_day_of_year d) - 1) + 1"

text \<open>The remainder is taken in the unsigned 64-bit type of \<open>size()\<close>.\<close>

definition get_day_of_week :: "Date \<Rightarrow> nat" where
  "get_day_of_week d =
     unat ((days (timespan d) + of_nat INITIAL_WEEKDAY_NAME) mod of_nat (length WEEKDAY_NAMES))"

definition get_week_of_year :: "Date \<Rightarrow> nat" where
  "get_week_of_year d =
     (nat (get_day_of_year d) + length WEEKDAY_NAMES - get_day_of_week d) div length WEEKDAY_NAMES"

definition is_month_start :: "Date \<Rightarrow> bool" where
  "is_month_start d \<longleftrightarrow> get_day d = 1"

definition date_plus :: "Date \<Rightarrow> Timespan \<Rightarrow> Date" where
  "date_plus d t = Date (timespan d + t)"

definition date_minus :: "Date \<Rightarrow> Timespan \<Rightarrow> Date" where
  "date_minus d t = Date (timespan d - t)"

definition date_diff :: "Date \<Rightarrow> Date \<Rightarrow> Timespan" where
  "date_diff d e = timespan d - timespan e"

definition date_le :: "Date \<Rightarrow> Date \<Rightarrow> bool" where
  "date_le d e \<longleftrightarrow> timespan d \<le> timespan e"

definition in_range :: "Date \<Rightarrow> Date \<Rightarrow> Date \<Rightarrow> bool" where
  "in_range d start last_date \<longleftrightarrow> date_le start d \<and> date_le d last_date"

definition get_month_name :: "Date \<Rightarrow> string" where
  "get_month_name d =
     (let month = get_month d
      in if 1 \<le> month \<and> month \<le> MONTHS_IN_YEAR then MONTH_NAMES ! (month - 1)
         else ''Invalid Month'')"

definition get_weekday_name :: "Date \<Rightarrow> string" where
  "get_weekday_name d = WEEKDAY_NAMES ! get_day_of_week d"

definition from_years :: "i64 \<Rightarrow> Timespan" where
  "from_years num = Timespan (num * of_nat DAYS_IN_YEAR)"

definition from_months :: "i64 \<Rightarrow> Timespan option" where
  "from_months num = do {
     up_to \<leftarrow> arr_get DAYS_UP_TO_MONTH (sint num smod int MONTHS_IN_YEAR);
     Some (Timespan (word_of_int (sint num sdiv int MONTHS_IN_YEAR) * of_nat DAYS_IN_YEAR + of_nat up_to)) }"

section \<open>Dates as text\<close>

text \<open>
  \<open>room\<close> is \<open>last - first\<close>.  The result is the text written, the length up to the returned
  pointer, and the error; \<^const>\<open>None\<close> would be a write outside the digit buffer.
\<close>

definition wrap16 :: "int \<Rightarrow> int" where
  "wrap16 n = sint (word_of_int n :: 16 word)"

definition year_padding :: "int \<Rightarrow> string" where
  "year_padding year =
     (if year < 1000 then ''0'' else []) @ (if year < 100 then ''0'' else []) @ (if year < 10 then ''0'' else [])"

definition date_to_chars ::
  "Date \<Rightarrow> nat \<Rightarrow> bool \<Rightarrow> bool \<Rightarrow> bool \<Rightarrow> (string \<times> nat \<times> errc) option" where
  "date_to_chars d room pad_year pad_month pad_day =
     (let year = get_year d in
      if year < 0 \<and> room = 0 then Some ([], 0, value_too_large)
      else let out = (if year < 0 then ''-'' else []);
               year = (if year < 0 then wrap16 (- year) else year) in
      if pad_year \<and> room - length out < 4 then Some (out, length out, value_too_large)
      else let out = out @ (if pad_year then year_padding year else []) in
      do {
        (digits, ec) \<leftarrow> to_chars True 16 10 year (room - length out);
        let out = out @ digits;
        if ec \<noteq> errc_ok then Some (out, room, ec)
        else if room - length out < 4 + of_bool pad_month + of_bool pad_day
        then Some (out, room, value_too_large)
        else do {
          let out = out @ ''.'' @ (if pad_month \<and> get_month d < 10 then ''0'' else []);
          (digits, ec) \<leftarrow> to_chars False 8 10 (int (get_month d)) (room - length out);
          let out = out @ digits;
          if ec \<noteq> errc_ok then Some (out, room, ec)
          else if room - length out < 2 + of_bool pad_day then Some (out, room, value_too_large)
          else do {
            let out = out @ ''.'' @ (if pad_day \<and> get_day d < 10 then ''0'' else []);
            (digits, ec) \<leftarrow> to_chars False 8 10 (int (get_day d)) (room - length out);
            let out = out @ digits;
            Some (out, if ec = errc_ok then length out else room, ec) } } })"

text \<open>The stack string holds the digits of the largest year, month and day and four characters more.\<close>

definition stack_string_size :: nat where
  "stack_string_size = 5 + 2 + 2 + 4"

definition date_to_array :: "Date \<Rightarrow> bool \<Rightarrow> bool \<Rightarrow> bool \<Rightarrow> (string \<times> nat \<times> errc) option" where
  "date_to_array d pad_year pad_month pad_day =
     date_to_chars d stack_string_size pad_year pad_month pad_day"

datatype errc_type = errc_day | errc_month | errc_year

record from_chars_result =
  ptr :: nat
  ec :: errc
  type_first :: nat
  err_type :: errc_type

text \<open>
  The destinations \<open>year\<close>, \<open>month\<close> and \<open>day\<close> are passed in and returned, since a failure leaves the
  later ones unchanged.
\<close>

definition parse_from_chars ::
  "string \<Rightarrow> int \<Rightarrow> int \<Rightarrow> int \<Rightarrow> from_chars_result \<times> int \<times> int \<times> int" where
  "parse_from_chars s year month day =
     (let (p, e, year_check) = from_chars True 32 10 s year;
          res = (\<lambda>p e. \<lparr>ptr = p, ec = e, type_first = 0, err_type = errc_year\<rparr>)
      in if e \<noteq> errc_ok then (res p e, year, month, day)
         else if year_check > 32767 \<or> year_check < - 32768
         then (res 0 value_too_large, year, month, day)
         else if p \<ge> length s then (res 0 result_out_of_range, year_check, month, day)
         else if s ! p \<noteq> CHR ''.'' then (res p invalid_argument, year_check, month, day)
         else
     let year = year_check; first = Suc p;
          (p, e, month_check) = from_chars False 8 10 (drop first s) month;
          res = (\<lambda>p e. \<lparr>ptr = p, ec = e, type_first = first, err_type = errc_month\<rparr>)
      in if e \<noteq> errc_ok then (res (first + p) e, year, month, day)
         else if month_check = 0 then (res first not_supported, year, month, day)
         else if month_check > int MONTHS_IN_YEAR then (res first value_too_large, year, month, day)
         else if first + p \<ge> length s then (res first result_out_of_range, year, month_check, day)
         else if s ! (first + p) \<noteq> CHR ''.'' then (res (first + p) invalid_argument, year, month_check, day)
         else
     let month = month_check; first = Suc (first + p);
          (p, e, day_check) = from_chars False 8 10 (drop first s) day;
          res = (\<lambda>p e. \<lparr>ptr = p, ec = e, type_first = first, err_type = errc_day\<rparr>)
      in if e \<noteq> errc_ok then (res (first + p) e, year, month, day)
         else if day_check = 0 then (res first not_supported, year, month, day)
         else if day_check > int (DAYS_IN_MONTH ! nat (month - 1))
         then (res first value_too_large, year, month, day)
         else (res (first + p) errc_ok, year, month, day_check))"

definition date_from_chars :: "string \<Rightarrow> Date \<times> from_chars_result" where
  "date_from_chars s =
     (let (result, year, month, day) = parse_from_chars s 0 0 0 in (make_date year month day, result))"

definition date_from_string :: "string \<Rightarrow> Date \<times> from_chars_result" where
  "date_from_string s = date_from_chars s"

section \<open>Calendar facts\<close>

lemma table_sizes: "MONTHS_IN_YEAR = 12" "DAYS_IN_YEAR = 365" "length WEEKDAY_NAMES = 7"
  "length DAYS_IN_MONTH = 12" "length DAYS_UP_TO_MONTH = 12"
  by (simp_all add: MONTHS_IN_YEAR_def DAYS_IN_YEAR_def DAYS_IN_MONTH_def WEEKDAY_NAMES_def
      DAYS_UP_TO_MONTH_def)

lemma month_table_run: "month_table (d + n) d m = replicate d m @ month_table n 0 m"
  by (induction d) simp_all

lemma month_table_month:
  assumes "0 < DAYS_IN_MONTH ! m" "DAYS_IN_MONTH ! m \<le> n"
  shows "month_table n 0 m =
    replicate (DAYS_IN_MONTH ! m) (Suc m) @ month_table (n - DAYS_IN_MONTH ! m) 0 (Suc m)"
proof -
  obtain d where d: "DAYS_IN_MONTH ! m = Suc d" using assms(1) gr0_implies_Suc by blast
  then have "n = Suc (d + (n - Suc d))" using assms(2) by simp
  then have "month_table n 0 m = month_table (Suc (d + (n - Suc d))) 0 m" by simp
  then show ?thesis by (simp add: d month_table_run)
qed

lemma month_table_end: "month_table 0 0 m = []"
  by simp

lemma month_table_eq:
  "MONTH_FROM_DAY_IN_YEAR =
     replicate 31 1 @ replicate 28 2 @ replicate 31 3 @ replicate 30 4 @ replicate 31 5 @ replicate 30 6 @ replicate 31 7 @ replicate 31 8 @ replicate 30 9 @ replicate 31 10 @ replicate 30 11 @ replicate 31 12"
  unfolding MONTH_FROM_DAY_IN_YEAR_def table_sizes
  by (simp add: month_table_month DAYS_IN_MONTH_def month_table_end)

lemma days_up_to_eq: "DAYS_UP_TO_MONTH = [0, 31, 59, 90, 120, 151, 181, 212, 243, 273, 304, 334]"
  by (simp add: DAYS_UP_TO_MONTH_def DAYS_IN_MONTH_def)

lemma nth_replicate_append:
  "(replicate k x @ xs) ! i = (if i < k then x else xs ! (i - k))"
  by (simp add: nth_append)

lemma less_shift_nat: "0 < n \<Longrightarrow> (i - k < n) = (i < n + (k::nat))"
  by arith

lemma month_at:
  "i < 365 \<Longrightarrow> MONTH_FROM_DAY_IN_YEAR ! i =
     (if i < 31 then 1 else if i < 59 then 2 else if i < 90 then 3 else if i < 120 then 4 else if i < 151 then 5 else if i < 181 then 6 else if i < 212 then 7 else if i < 243 then 8 else if i < 273 then 9 else if i < 304 then 10 else if i < 334 then 11 else 12)"
  by (simp add: month_table_eq nth_replicate_append less_shift_nat cong: if_cong split del: if_split)

lemma month_table_ok:
  assumes "i < 365"
  shows "MONTH_FROM_DAY_IN_YEAR ! i - 1 < 12" "0 < MONTH_FROM_DAY_IN_YEAR ! i"
    "DAYS_UP_TO_MONTH ! (MONTH_FROM_DAY_IN_YEAR ! i - 1) \<le> i"
    "i < DAYS_UP_TO_MONTH ! (MONTH_FROM_DAY_IN_YEAR ! i - 1)
       + DAYS_IN_MONTH ! (MONTH_FROM_DAY_IN_YEAR ! i - 1)"
  using assms by (simp_all add: month_at days_up_to_eq DAYS_IN_MONTH_def)

lemma lt_12_cases:
  "(m::nat) < 12 \<Longrightarrow> m \<in> {0, 1, 2, 3, 4, 5, 6, 7, 8, 9, 10, 11}"
  by (simp, presburger)

lemma month_table_inv:
  assumes "m < 12" "d < DAYS_IN_MONTH ! m"
  shows "MONTH_FROM_DAY_IN_YEAR ! (DAYS_UP_TO_MONTH ! m + d) = Suc m"
    "DAYS_UP_TO_MONTH ! m + d < 365"
proof -
  show "DAYS_UP_TO_MONTH ! m + d < 365"
    using lt_12_cases [OF assms(1)] assms(2) by (auto simp: days_up_to_eq DAYS_IN_MONTH_def)
  then show "MONTH_FROM_DAY_IN_YEAR ! (DAYS_UP_TO_MONTH ! m + d) = Suc m"
    using lt_12_cases [OF assms(1)] assms(2)
    by (auto simp: days_up_to_eq DAYS_IN_MONTH_def month_at)
qed

lemma sdiv_365: "x sdiv 365 = (if 0 \<le> x then x div 365 else - ((- x) div 365))" for x :: int
  by (cases "x = 0") (auto simp: signed_divide_int_def sgn_if)

lemma smod_365: "x smod 365 = (if 0 \<le> x then x mod 365 else - ((- x) mod 365))" for x :: int
  by (cases "x = 0") (auto simp: smod_int_alt_def sgn_if)

lemma get_day_of_year_mod: "get_day_of_year d = date_days d mod 365"
proof -
  have "(if x smod 365 < 0 then x smod 365 + 365 else x smod 365) = x mod 365" for x :: int
    using zmod_zminus1_eq_if [of "- x" 365] pos_mod_bound [of 365 "- x"] pos_mod_sign [of 365 "- x"]
      pos_mod_sign [of 365 x]
    unfolding smod_365 by auto
  from this [of "date_days d"] show ?thesis
    by (simp only: get_day_of_year_def table_sizes Let_def of_nat_numeral)
qed

lemma get_day_of_year_range: "nat (get_day_of_year d) < 365" "0 \<le> get_day_of_year d"
  by (simp_all add: get_day_of_year_mod nat_less_iff)

definition year_fits :: "Date \<Rightarrow> bool" where
  "year_fits d \<longleftrightarrow> - 32768 * 365 \<le> date_days d \<and> date_days d < 32768 * 365"

lemma sint16_of_int: "- 32768 \<le> n \<Longrightarrow> n \<le> 32767 \<Longrightarrow> sint (word_of_int n :: 16 word) = n"
  by (simp add: sint_sbintrunc' signed_take_bit_int_eq_self)

lemma get_year_div: "year_fits d \<Longrightarrow> get_year d = date_days d div 365"
proof -
  assume fit: "year_fits d"
  define x where "x = date_days d"
  have x: "- 11960320 \<le> x" "x < 11960320" using fit by (simp_all add: year_fits_def x_def)
  have e: "sint (days (timespan d) - word_of_int 365 + 1) = x - 364"
  proof -
    have "days (timespan d) = word_of_int x" by (simp add: x_def date_days_def)
    then have "days (timespan d) - word_of_int 365 + 1 = word_of_int (x - 364)"
      by simp
    moreover have "fits64 (x - 364)" using x by (simp add: fits64_iff)
    ultimately show ?thesis by (simp only: sint64_of_int)
  qed
  have split: "x = 365 * (x div 365) + x mod 365" "0 \<le> x mod 365" "x mod 365 < 365" by simp_all
  have "(364 - x) div 365 = - (x div 365)"
    using split by (intro int_div_pos_eq [where r = "364 - x mod 365"]) linarith+
  then have q: "(if x \<ge> 0 then x else x - 364) sdiv 365 = x div 365"
    by (simp add: sdiv_365)
  have "- 32768 \<le> x div 365" "x div 365 \<le> 32767" using split x by linarith+
  then show ?thesis
    by (simp only: get_year_def x_def [symmetric] table_sizes of_nat_numeral e q sint16_of_int)
qed

definition valid_fields :: "int \<Rightarrow> int \<Rightarrow> int \<Rightarrow> bool" where
  "valid_fields year month day \<longleftrightarrow> - 32768 \<le> year \<and> year \<le> 32767 \<and> 1 \<le> month \<and> month \<le> 12
     \<and> 1 \<le> day \<and> day \<le> int (DAYS_IN_MONTH ! nat (month - 1))"

lemma date_days_make:
  assumes "valid_fields year month day"
  defines "i \<equiv> DAYS_UP_TO_MONTH ! nat (month - 1) + nat (day - 1)"
  shows "date_days (make_date year month day) = year * 365 + int i" "i < 365"
    "MONTH_FROM_DAY_IN_YEAR ! i = nat month" "i + 1 - DAYS_UP_TO_MONTH ! nat (month - 1) = nat day"
proof -
  define m where "m = nat (month - 1)"
  define d where "d = nat (day - 1)"
  have v: "month = int m + 1" "day = int d + 1" "m < 12" "d < DAYS_IN_MONTH ! m"
    using assms(1) by (auto simp: valid_fields_def m_def d_def)
  have i: "i = DAYS_UP_TO_MONTH ! m + d" by (simp add: i_def m_def d_def)
  show lt: "i < 365" and mo: "MONTH_FROM_DAY_IN_YEAR ! i = nat month"
    and "i + 1 - DAYS_UP_TO_MONTH ! nat (month - 1) = nat day"
    using month_table_inv [OF v(3,4)] v(1,2) by (simp_all add: i)
  have "- 32768 \<le> year" "year \<le> 32767" using assms(1) by (simp_all add: valid_fields_def)
  then have "fits64 (year * 365 + int i)" using lt unfolding fits64_iff by linarith
  moreover have "date_to_timespan year month day = Timespan (word_of_int (year * 365 + int i))"
    using v by (simp add: date_to_timespan_def table_sizes clampi_def i)
  ultimately show "date_days (make_date year month day) = year * 365 + int i"
    by (simp only: make_date_def date_days_def Date.sel Timespan.sel sint64_of_int)
qed

lemma make_date_field_values:
  assumes "valid_fields year month day"
  shows "get_year (make_date year month day) = year \<and> int (get_month (make_date year month day)) = month
    \<and> int (get_day (make_date year month day)) = day"
proof -
  define i where "i = DAYS_UP_TO_MONTH ! nat (month - 1) + nat (day - 1)"
  note f = date_days_make [OF assms, folded i_def]
  have b: "- 32768 \<le> year" "year \<le> 32767" "1 \<le> month" "1 \<le> day"
    using assms by (simp_all add: valid_fields_def)
  have q: "(year * 365 + int i) div 365 = year" "(year * 365 + int i) mod 365 = int i"
    using f(2) by simp_all
  have "year_fits (make_date year month day)" using b f(1,2) by (simp add: year_fits_def)
  then have "get_year (make_date year month day) = year" by (simp add: get_year_div f(1) q)
  moreover have doy: "get_day_of_year (make_date year month day) = int i"
    by (simp only: get_day_of_year_mod f(1) q)
  moreover have "nat month - 1 = nat (month - 1)" by simp
  then have "get_day (make_date year month day) = i - DAYS_UP_TO_MONTH ! nat (month - 1) + 1"
    by (simp only: get_day_def doy nat_int f(3))
  then have "get_day (make_date year month day) = nat day"
    using f(4) by (simp add: i_def)
  ultimately show ?thesis using b f(3) by (simp add: get_month_def)
qed

text \<open>A date built from a valid year, month and day returns exactly these fields.\<close>

theorem make_date_fields:
  assumes "valid_fields year month day"
  shows "get_year (make_date year month day) = year \<and> int (get_month (make_date year month day)) = month
    \<and> int (get_day (make_date year month day)) = day"
  using assms by (rule make_date_field_values)

theorem make_date_fields_witness:
  "get_year (make_date (- 1) 2 28) = - 1 \<and> int (get_month (make_date (- 1) 2 28)) = 2
    \<and> int (get_day (make_date (- 1) 2 28)) = 28"
  by (rule make_date_fields) (simp add: valid_fields_def DAYS_IN_MONTH_def)

lemma date_fields_valid:
  assumes "year_fits d"
  shows "valid_fields (get_year d) (int (get_month d)) (int (get_day d))"
proof -
  define i where "i = nat (get_day_of_year d)"
  have i: "i < 365" using get_day_of_year_range by (simp add: i_def)
  have y: "- 32768 \<le> get_year d" "get_year d \<le> 32767"
    using assms by (auto simp: get_year_div) (auto simp: year_fits_def)
  have "nat (int (MONTH_FROM_DAY_IN_YEAR ! i) - 1) = MONTH_FROM_DAY_IN_YEAR ! i - 1" by simp
  then show ?thesis
    using y month_table_ok [OF i] by (simp add: valid_fields_def get_month_def get_day_def i_def [symmetric])
qed

lemma date_fields_rebuild:
  assumes "year_fits d"
  shows "make_date (get_year d) (int (get_month d)) (int (get_day d)) = d"
proof -
  note v = date_fields_valid [OF assms]
  define i where "i = nat (get_day_of_year d)"
  have i: "i < 365" "int i = date_days d mod 365"
    using get_day_of_year_range by (simp_all add: i_def get_day_of_year_mod)
  have j: "DAYS_UP_TO_MONTH ! nat (int (get_month d) - 1) + nat (int (get_day d) - 1) = i"
  proof -
    have "nat (int (get_month d) - 1) = MONTH_FROM_DAY_IN_YEAR ! i - 1" by (simp add: get_month_def i_def)
    moreover have "nat (int (get_day d) - 1) = i - DAYS_UP_TO_MONTH ! (MONTH_FROM_DAY_IN_YEAR ! i - 1)"
      by (simp add: get_day_def i_def)
    ultimately show ?thesis using month_table_ok [OF i(1)] by simp
  qed
  have "date_days (make_date (get_year d) (int (get_month d)) (int (get_day d))) = date_days d"
    using date_days_make(1) [OF v] i(2) unfolding j get_year_div [OF assms] by simp
  then show ?thesis
    using v by (auto simp: date_days_def simp flip: sint64_eq_iff intro!: Date.expand Timespan.expand)
qed

text \<open>Every date whose year fits the 16-bit year has a valid month and day, and is rebuilt
  from its own fields.\<close>

theorem date_rebuilt:
  assumes "year_fits d"
  shows "valid_fields (get_year d) (int (get_month d)) (int (get_day d))
    \<and> make_date (get_year d) (int (get_month d)) (int (get_day d)) = d"
  using date_fields_valid [OF assms] date_fields_rebuild [OF assms] by simp

theorem date_rebuilt_witness:
  "valid_fields (get_year (Date (Timespan 670000))) (int (get_month (Date (Timespan 670000)))) (int (get_day (Date (Timespan 670000))))
    \<and> make_date (get_year (Date (Timespan 670000))) (int (get_month (Date (Timespan 670000)))) (int (get_day (Date (Timespan 670000))))
      = Date (Timespan 670000)"
  by (rule date_rebuilt) (simp add: year_fits_def date_days_def)

section \<open>Order, weekdays and months\<close>

lemma month_starts_later:
  "m < m' \<Longrightarrow> m' < 12 \<Longrightarrow> DAYS_UP_TO_MONTH ! m + DAYS_IN_MONTH ! m \<le> DAYS_UP_TO_MONTH ! m'"
  using lt_12_cases [of m] lt_12_cases [of m'] by (auto simp: days_up_to_eq DAYS_IN_MONTH_def)

lemma lex_scale:
  fixes a b :: int and i j :: nat
  assumes "i < 365" "j < 365"
  shows "a * 365 + int i \<le> b * 365 + int j \<longleftrightarrow> a < b \<or> (a = b \<and> i \<le> j)"
  using assms by arith

text \<open>Dates compare as their (year, month, day) triples do lexicographically.\<close>

theorem date_order_lexicographic:
  assumes "valid_fields y m d" "valid_fields y' m' d'"
  shows "date_le (make_date y m d) (make_date y' m' d')
    \<longleftrightarrow> y < y' \<or> (y = y' \<and> (m < m' \<or> (m = m' \<and> d \<le> d')))"
proof -
  define i where "i = DAYS_UP_TO_MONTH ! nat (m - 1) + nat (d - 1)"
  define j where "j = DAYS_UP_TO_MONTH ! nat (m' - 1) + nat (d' - 1)"
  note f = date_days_make [OF assms(1), folded i_def] and g = date_days_make [OF assms(2), folded j_def]
  have b: "1 \<le> m" "m \<le> 12" "1 \<le> d" "d \<le> int (DAYS_IN_MONTH ! nat (m - 1))"
    "1 \<le> m'" "m' \<le> 12" "1 \<le> d'" "d' \<le> int (DAYS_IN_MONTH ! nat (m' - 1))"
    using assms by (simp_all add: valid_fields_def)
  have "i \<le> j \<longleftrightarrow> m < m' \<or> (m = m' \<and> d \<le> d')"
  proof (cases m m' rule: linorder_cases)
    case less
    then have "DAYS_UP_TO_MONTH ! nat (m - 1) + DAYS_IN_MONTH ! nat (m - 1) \<le> DAYS_UP_TO_MONTH ! nat (m' - 1)"
      using b by (intro month_starts_later) simp_all
    then have "i \<le> j" using b unfolding i_def j_def by linarith
    then show ?thesis using less by simp
  next
    case equal
    then show ?thesis using b by (auto simp: i_def j_def)
  next
    case greater
    then have "DAYS_UP_TO_MONTH ! nat (m' - 1) + DAYS_IN_MONTH ! nat (m' - 1) \<le> DAYS_UP_TO_MONTH ! nat (m - 1)"
      using b by (intro month_starts_later) simp_all
    then have "j < i" using b unfolding i_def j_def by linarith
    then show ?thesis using greater by simp
  qed
  moreover have "date_le a c \<longleftrightarrow> date_days a \<le> date_days c" for a c
    by (simp add: date_le_def date_days_def less_eq_Timespan_def ts_le_def)
  ultimately show ?thesis by (simp only: f(1) g(1) lex_scale [OF f(2) g(2)])
qed

theorem date_order_lexicographic_witness:
  "date_le (make_date 1836 1 31) (make_date 1836 2 1)"
  using date_order_lexicographic [of 1836 1 31 1836 2 1] by (simp add: valid_fields_def DAYS_IN_MONTH_def)

lemma get_day_of_week_nonneg:
  assumes "0 \<le> date_days d" "date_days d + 2 < 2 ^ 63"
  shows "get_day_of_week d = (nat (date_days d) + 2) mod 7"
proof -
  define n where "n = nat (date_days d)"
  have "days (timespan d) = of_nat n"
    using assms(1) by (simp add: n_def date_days_def)
  then have "days (timespan d) + of_nat INITIAL_WEEKDAY_NAME = of_nat (n + 2)"
    by (simp add: INITIAL_WEEKDAY_NAME_def)
  moreover have "unat (of_nat (n + 2) :: u64) = n + 2"
    using assms by (intro unat64_of_nat) (simp add: n_def nat_less_iff)
  ultimately show ?thesis
    by (simp add: get_day_of_week_def table_sizes unat_mod n_def)
qed

text \<open>From the first day of year 0 on the weekday advances by one each day, modulo seven.\<close>

theorem weekday_advances:
  assumes "0 \<le> date_days d" "date_days d + 3 < 2 ^ 63"
  shows "get_day_of_week (date_plus d (Timespan 1)) = (get_day_of_week d + 1) mod 7"
proof -
  have "sint (days (timespan d) + 1) = date_days d + 1"
    using assms sint64_add [of "days (timespan d)" 1] by (simp add: date_days_def fits64_def)
  then have "date_days (date_plus d (Timespan 1)) = date_days d + 1"
    by (simp add: date_plus_def date_days_def plus_Timespan_def ts_add_def)
  moreover have "nat (date_days d + 1) = Suc (nat (date_days d))" using assms(1) by simp
  ultimately show ?thesis
    using assms by (simp add: get_day_of_week_nonneg mod_simps)
qed

theorem weekday_advances_witness:
  "get_day_of_week (date_plus (Date (Timespan 670140)) (Timespan 1))
     = (get_day_of_week (Date (Timespan 670140)) + 1) mod 7"
  by (rule weekday_advances) (simp_all add: date_days_def)

text \<open>Before year 0 it does not: the remainder is taken in an unsigned type, so the day before
  the wrap to zero is Monday where Saturday is due.\<close>

theorem weekday_negative_jump:
  "get_day_of_week (Date (Timespan (- 3))) = 1 \<and> get_day_of_week (Date (Timespan (- 2))) = 0"
  by code_simp

text \<open>A span of months is the days of the whole years and of the months left, and for a negative
  number of months that is not a multiple of twelve the day table is read outside its bounds.\<close>

theorem from_months_cases:
  "from_months num =
    (if 0 \<le> sint num \<or> 12 dvd sint num
     then Some (Timespan (word_of_int ((sint num div 12) * 365 + int (DAYS_UP_TO_MONTH ! nat (sint num mod 12)))))
     else None)"
proof (cases "0 \<le> sint num")
  case True
  have "sint num smod 12 = sint num mod 12" "sint num sdiv 12 = sint num div 12"
    using True by (auto simp: signed_divide_int_def signed_modulo_int_def smod_int_alt_def sgn_if)
  moreover have "arr_get DAYS_UP_TO_MONTH (sint num mod 12) = Some (DAYS_UP_TO_MONTH ! nat (sint num mod 12))"
    by (simp add: arr_get_def table_sizes)
  ultimately show ?thesis using True by (simp add: from_months_def table_sizes)
next
  case False
  define k where "k = - sint num"
  have k: "0 < k" "sint num = - k" using False by (simp_all add: k_def)
  have d: "sint num smod 12 = - (k mod 12)" "sint num sdiv 12 = - (k div 12)"
    using k by (auto simp: smod_int_alt_def signed_divide_int_def sgn_if)
  show ?thesis
  proof (cases "12 dvd k")
    case True
    then obtain q where "k = 12 * q" ..
    moreover have "- (12 * q) div 12 = - q" by (simp flip: mult_minus_right)
    moreover have "arr_get DAYS_UP_TO_MONTH 0 = Some (DAYS_UP_TO_MONTH ! 0)"
      by (simp add: arr_get_def table_sizes)
    ultimately show ?thesis using d k by (simp add: from_months_def table_sizes)
  next
    case no: False
    then have "0 < k mod 12" by (metis dvd_eq_mod_eq_0 pos_mod_sign le_less zero_less_numeral)
    then have "arr_get DAYS_UP_TO_MONTH (- (k mod 12)) = None" by (simp add: arr_get_def)
    then show ?thesis using d k no by (simp add: from_months_def table_sizes)
  qed
qed

section \<open>Parsing what was printed\<close>

text \<open>A text of three decimal fields around two separators goes through every check of the parser.\<close>

lemma parse_fields:
  assumes y: "decimal_text True 32 ys year" "- 32768 \<le> year" "year \<le> 32767"
    and m: "decimal_text False 8 ms month" "1 \<le> month" "month \<le> 12"
    and d: "decimal_text False 8 ds day" "1 \<le> day" "day \<le> int (DAYS_IN_MONTH ! nat (month - 1))"
  shows "parse_from_chars (ys @ ''.'' @ ms @ ''.'' @ ds) y0 m0 d0 =
    (\<lparr>ptr = length ys + length ms + length ds + 2, ec = errc_ok,
       type_first = length ys + length ms + 2, err_type = errc_day\<rparr>, year, month, day)"
proof -
  have py: "from_chars True 32 10 (ys @ CHR ''.'' # ms @ CHR ''.'' # ds) y0 = (length ys, errc_ok, year)"
    using decimal_textD [OF y(1), of "CHR ''.'' # ms @ CHR ''.'' # ds"] by simp
  have pm: "from_chars False 8 10 (ms @ CHR ''.'' # ds) m0 = (length ms, errc_ok, month)"
    using decimal_textD [OF m(1), of "CHR ''.'' # ds"] by simp
  have pd: "from_chars False 8 10 ds d0 = (length ds, errc_ok, day)"
    using decimal_textD [OF d(1), of "[]"] by simp
  have drop1: "drop (Suc (length ys)) (ys @ CHR ''.'' # ms @ CHR ''.'' # ds) = ms @ CHR ''.'' # ds" by simp
  have at2: "(ys @ CHR ''.'' # ms @ CHR ''.'' # ds) ! (Suc (length ys) + length ms) = CHR ''.''"
    by (simp add: nth_append)
  have drop2: "drop (Suc (Suc (length ys) + length ms)) (ys @ CHR ''.'' # ms @ CHR ''.'' # ds) = ds" by simp
  show ?thesis
    using y(2,3) m(2,3) d(2,3)
    by (simp add: parse_from_chars_def py pm pd drop1 at2 drop2 table_sizes nth_append Let_def)
qed

text \<open>A successful parse has passed the range checks of the three fields.\<close>

lemma from_chars_unsigned: "from_chars False bits base s x = (p, errc_ok, v) \<Longrightarrow> 0 \<le> v"
  by (auto simp: from_chars_def Let_def split: prod.splits if_splits)

lemma parse_ok_valid:
  assumes "parse_from_chars s y0 m0 d0 = (res, year, month, day)" "ec res = errc_ok"
  shows "valid_fields year month day \<and> err_type res = errc_day"
  using assms
  by (auto simp: parse_from_chars_def Let_def valid_fields_def table_sizes
      split: prod.splits if_splits dest!: from_chars_unsigned)

lemma year_padding_zeros: "\<exists>k \<le> 3. year_padding year = replicate k CHR ''0'' \<and> (k > 0 \<longrightarrow> year < 10 ^ (4 - k))"
proof -
  consider "year < 10" | "10 \<le> year" "year < 100" | "100 \<le> year" "year < 1000" | "1000 \<le> year"
    by linarith
  then show ?thesis
  proof cases
    case 1 then show ?thesis by (intro exI [of _ 3]) (simp add: year_padding_def numeral_eq_Suc)
  next
    case 2 then show ?thesis by (intro exI [of _ 2]) (simp add: year_padding_def numeral_eq_Suc)
  next
    case 3 then show ?thesis by (intro exI [of _ 1]) (simp add: year_padding_def numeral_eq_Suc)
  next
    case 4 then show ?thesis by (intro exI [of _ 0]) (simp add: year_padding_def)
  qed
qed

text \<open>A field printed with at most one zero of padding.\<close>

lemma small_field:
  assumes "0 \<le> n" "n < 100" "2 \<le> room"
  obtains ds where "to_chars False 8 10 n room = Some (ds, errc_ok)" "ds \<noteq> []" "length ds \<le> 2"
    "decimal_text False 8 ds n" "decimal_text False 8 (CHR ''0'' # ds) n"
proof -
  obtain ds where ds: "to_chars False 8 10 n room = Some (ds, errc_ok)" "ds \<noteq> []" "length ds \<le> 2"
    "list_all (is_digit 10) ds" "number_from 10 0 ds = nat n"
    using to_chars_decimal [of n 2 8 room False] assms by auto
  have "decimal_text False 8 ds n" "decimal_text False 8 (CHR ''0'' # ds) n"
    using decimal_text_nonneg [of ds "nat n" False 8] decimal_text_nonneg [of "CHR ''0'' # ds" "nat n" False 8]
      ds assms by (simp_all add: nat_less_iff)
  with ds(1-3) show thesis by (rule that)
qed

lemma year_field:
  assumes "0 \<le> y" "y \<le> 32767" "5 \<le> room" "zeros = (if pad then year_padding y else [])"
  obtains ds where "to_chars True 16 10 y (room - length zeros) = Some (ds, errc_ok)"
    "ds \<noteq> []" "length (zeros @ ds) \<le> 5" "decimal_text True 32 (zeros @ ds) y"
    "decimal_text True 32 (CHR ''-'' # zeros @ ds) (- y)"
proof -
  obtain k where k: "k \<le> 3" "zeros = replicate k CHR ''0''" "k > 0 \<longrightarrow> y < 10 ^ (4 - k)"
    using year_padding_zeros [of y] assms(4) by (cases pad) auto
  obtain ds where ds: "to_chars True 16 10 y (room - k) = Some (ds, errc_ok)" "ds \<noteq> []"
    "length ds + k \<le> 5" "list_all (is_digit 10) ds" "number_from 10 0 ds = nat y"
  proof (cases "k = 0")
    case True
    obtain ds where "to_chars True 16 10 y room = Some (ds, errc_ok)" "ds \<noteq> []"
      "length ds \<le> 5" "list_all (is_digit 10) ds" "number_from 10 0 ds = nat y"
      using to_chars_decimal [of y 5 16 room True] assms by auto
    then show thesis using that True by simp
  next
    case False
    obtain ds where "to_chars True 16 10 y (room - k) = Some (ds, errc_ok)" "ds \<noteq> []"
      "length ds \<le> 4 - k" "list_all (is_digit 10) ds" "number_from 10 0 ds = nat y"
    proof (rule to_chars_decimal [of y "4 - k" 16 "room - k" True])
      show "y < 10 ^ (4 - k)" "4 - k \<le> room - k" "0 < 4 - k" using k(1,3) False assms(3) by simp_all
    qed (use assms in simp_all)
    then show thesis using that k(1) by simp
  qed
  have "nat y < 2 ^ 31" "nat y \<le> 2 ^ 31" using assms(1,2) by simp_all
  then have "decimal_text True 32 (zeros @ ds) y" "decimal_text True 32 (CHR ''-'' # zeros @ ds) (- y)"
    using decimal_text_nonneg [of "zeros @ ds" "nat y" True 32] decimal_text_minus [of "zeros @ ds" "nat y" 32]
      decimal_text_zeros [OF ds(4), of k] number_from_zeros [of k ds] ds(2,5) assms(1) k(2) by simp_all
  moreover have "length zeros = k" by (simp add: k(2))
  ultimately show thesis using that ds(1-3) by simp
qed

lemma to_chars_one_digit:
  assumes "to_chars False 8 10 (int n) room = Some (ds, errc_ok)" "n < 10"
  shows "length ds \<le> 1"
proof -
  obtain es where "emit 8 10 n = Some es" "length es \<le> 1"
    using decimal_emit [of n 1 8] assms(2) by auto
  then show ?thesis using assms by (auto simp: to_chars_def Let_def split: if_splits)
qed

lemma date_printed:
  assumes fit: "year_fits d" and least: "get_year d \<noteq> - 32768" and room: "13 \<le> room"
  obtains ys ms ds where
    "date_to_chars d room pad_year pad_month pad_day =
       Some (ys @ ''.'' @ ms @ ''.'' @ ds, length (ys @ ''.'' @ ms @ ''.'' @ ds), errc_ok)"
    "decimal_text True 32 ys (get_year d)" "decimal_text False 8 ms (int (get_month d))"
    "decimal_text False 8 ds (int (get_day d))" "length (ys @ ''.'' @ ms @ ''.'' @ ds) \<le> 12"
proof -
  note v = date_fields_valid [OF fit]
  have "DAYS_IN_MONTH ! m \<le> 31" if "m < 12" for m
    using lt_12_cases [OF that] by (auto simp: DAYS_IN_MONTH_def)
  moreover have "nat (int (get_month d) - 1) < 12" using v by (auto simp: valid_fields_def)
  ultimately have dim: "DAYS_IN_MONTH ! nat (int (get_month d) - 1) \<le> 31" .
  have md: "get_month d < 100" "get_day d < 100" "get_year d \<le> 32767" "- 32767 \<le> get_year d"
    using v least dim by (auto simp: valid_fields_def)
  define neg where "neg = (get_year d < 0)"
  define sign where "sign = (if neg then ''-'' else [])"
  define y where "y = (if neg then - get_year d else get_year d)"
  have y: "0 \<le> y" "y \<le> 32767" using md by (auto simp: y_def neg_def)
  have wrap: "(if neg then wrap16 (- get_year d) else get_year d) = y"
  proof (cases neg)
    case True
    have "sint (word_of_int (- get_year d) :: 16 word) = - get_year d"
      using md True by (intro sint16_of_int) (simp_all add: neg_def)
    then show ?thesis using True by (simp only: y_def wrap16_def if_True)
  qed (simp add: y_def)
  define zeros where "zeros = (if pad_year then year_padding y else [])"
  have len_sign: "length sign \<le> 1" by (simp add: sign_def)
  have "5 \<le> room - length sign" using room len_sign by linarith
  from y this zeros_def obtain yd where yd: "to_chars True 16 10 y (room - length sign - length zeros) = Some (yd, errc_ok)"
    "yd \<noteq> []" "length (zeros @ yd) \<le> 5" "decimal_text True 32 (zeros @ yd) y"
    "decimal_text True 32 (CHR ''-'' # zeros @ yd) (- y)"
    by (rule year_field)
  define ys where "ys = sign @ zeros @ yd"
  have ys: "decimal_text True 32 ys (get_year d)" "length ys \<le> 6"
    using yd(3-5) by (auto simp: ys_def sign_def y_def)
  define mp where "mp = (if pad_month \<and> get_month d < 10 then ''0'' else [])"
  define m_room where "m_room = room - length (ys @ ''.'' @ mp)"
  have "length mp \<le> 1" by (simp add: mp_def)
  then have "2 \<le> m_room" using room ys(2) by (simp add: m_room_def)
  then obtain md' where mdt: "to_chars False 8 10 (int (get_month d)) m_room = Some (md', errc_ok)" "md' \<noteq> []"
    "length md' \<le> 2" "decimal_text False 8 md' (int (get_month d))"
    "decimal_text False 8 (CHR ''0'' # md') (int (get_month d))"
    using md(1) small_field [of "int (get_month d)" m_room] by auto
  define ms where "ms = mp @ md'"
  have ms: "decimal_text False 8 ms (int (get_month d))" "length ms \<le> 2"
  proof -
    show "decimal_text False 8 ms (int (get_month d))" using mdt(4,5) by (simp add: ms_def mp_def)
    show "length ms \<le> 2"
      using mdt(1,3) to_chars_one_digit [of "get_month d" m_room] by (auto simp: ms_def mp_def)
  qed
  define dp where "dp = (if pad_day \<and> get_day d < 10 then ''0'' else [])"
  define d_room where "d_room = room - length (ys @ ''.'' @ ms @ ''.'' @ dp)"
  have "length dp \<le> 1" by (simp add: dp_def)
  then have "2 \<le> d_room" using room ys(2) ms(2) by (simp add: d_room_def)
  then obtain dd where ddt: "to_chars False 8 10 (int (get_day d)) d_room = Some (dd, errc_ok)" "dd \<noteq> []"
    "length dd \<le> 2" "decimal_text False 8 dd (int (get_day d))"
    "decimal_text False 8 (CHR ''0'' # dd) (int (get_day d))"
    using md(2) small_field [of "int (get_day d)" d_room] by auto
  define ds where "ds = dp @ dd"
  have ds: "decimal_text False 8 ds (int (get_day d))" "length ds \<le> 2"
  proof -
    show "decimal_text False 8 ds (int (get_day d))" using ddt(4,5) by (simp add: ds_def dp_def)
    show "length ds \<le> 2"
      using ddt(1,3) to_chars_one_digit [of "get_day d" d_room] by (auto simp: ds_def dp_def)
  qed
  have room_year: "\<not> (neg \<and> room = 0)" "\<not> (pad_year \<and> room - length sign < 4)"
    "\<not> room - length ys < 4 + of_bool pad_month + of_bool pad_day"
    "\<not> room - length (ys @ ''.'' @ ms) < 2 + of_bool pad_day"
    using room len_sign ys(2) ms(2) by (auto simp: of_bool_def)
  have folds: "sign @ zeros @ yd = ys" "sign @ zeros @ yd @ r = ys @ r" "mp @ md' = ms" "mp @ md' @ r = ms @ r"
    "dp @ dd = ds" for r by (simp_all add: ys_def ms_def ds_def)
  have year_room: "room - length (sign @ zeros) = room - length sign - length zeros" by simp
  have "date_to_chars d room pad_year pad_month pad_day =
       Some (ys @ ''.'' @ ms @ ''.'' @ ds, length (ys @ ''.'' @ ms @ ''.'' @ ds), errc_ok)"
  proof -
    have "date_to_chars d room pad_year pad_month pad_day =
      (do { (digits, e) \<leftarrow> to_chars True 16 10 y (room - length (sign @ zeros));
            let out = (sign @ zeros) @ digits;
            if e \<noteq> errc_ok then Some (out, room, e)
            else if room - length out < 4 + of_bool pad_month + of_bool pad_day
            then Some (out, room, value_too_large)
            else do {
              let out = out @ ''.'' @ mp;
              (digits, e) \<leftarrow> to_chars False 8 10 (int (get_month d)) (room - length out);
              let out = out @ digits;
              if e \<noteq> errc_ok then Some (out, room, e)
              else if room - length out < 2 + of_bool pad_day then Some (out, room, value_too_large)
              else do {
                let out = out @ ''.'' @ dp;
                (digits, e) \<leftarrow> to_chars False 8 10 (int (get_day d)) (room - length out);
                let out = out @ digits;
                Some (out, if e = errc_ok then length out else room, e) } } })"
      unfolding date_to_chars_def Let_def neg_def [symmetric] sign_def [symmetric] wrap
        zeros_def [symmetric] mp_def [symmetric] dp_def [symmetric]
      using room_year(1,2) by (simp only: if_False)
    also have "\<dots> = Some (ys @ ''.'' @ ms @ ''.'' @ ds, length (ys @ ''.'' @ ms @ ''.'' @ ds), errc_ok)"
      using room_year(3,4)
      by (simp only: year_room yd(1) folds append_assoc Let_def Option.bind.simps prod.case
          m_room_def [symmetric] mdt(1) d_room_def [symmetric] ddt(1)
          if_False if_True simp_thms)
    finally show ?thesis .
  qed
  then show thesis
    using that ys ms ds by simp
qed

text \<open>C40: with thirteen characters of room, what the stack string has, a date whose year is above
  -32768 is printed completely under every choice of padding, and parsing the text gives the date
  back without an error.\<close>

theorem date_text_roundtrip:
  assumes "year_fits d" "get_year d \<noteq> - 32768" "stack_string_size \<le> room"
  shows "\<exists>s. date_to_chars d room pad_year pad_month pad_day = Some (s, length s, errc_ok)
    \<and> length s \<le> 12 \<and> fst (date_from_string s) = d
    \<and> ec (snd (date_from_string s)) = errc_ok \<and> ptr (snd (date_from_string s)) = length s"
proof -
  have "13 \<le> room" using assms(3) by (simp add: stack_string_size_def)
  then obtain ys ms ds where p: "date_to_chars d room pad_year pad_month pad_day =
       Some (ys @ ''.'' @ ms @ ''.'' @ ds, length (ys @ ''.'' @ ms @ ''.'' @ ds), errc_ok)"
    "decimal_text True 32 ys (get_year d)" "decimal_text False 8 ms (int (get_month d))"
    "decimal_text False 8 ds (int (get_day d))" "length (ys @ ''.'' @ ms @ ''.'' @ ds) \<le> 12"
    by (rule date_printed [OF assms(1,2)])
  have v: "- 32768 \<le> get_year d" "get_year d \<le> 32767" "1 \<le> int (get_month d)" "int (get_month d) \<le> 12"
    "1 \<le> int (get_day d)" "int (get_day d) \<le> int (DAYS_IN_MONTH ! nat (int (get_month d) - 1))"
    using date_fields_valid [OF assms(1)] by (simp_all only: valid_fields_def)
  note parsed = parse_fields [OF p(2) v(1,2) p(3) v(3,4) p(4) v(5,6)]
  show ?thesis
    using p(1,5) date_fields_rebuild [OF assms(1)]
    by (simp add: date_from_string_def date_from_chars_def parsed del: append_Cons)
qed

theorem date_text_roundtrip_witness:
  "\<exists>s. date_to_chars (Date (Timespan (- 400))) 13 True False True = Some (s, length s, errc_ok)
    \<and> length s \<le> 12 \<and> fst (date_from_string s) = Date (Timespan (- 400))
    \<and> ec (snd (date_from_string s)) = errc_ok \<and> ptr (snd (date_from_string s)) = length s"
proof (rule date_text_roundtrip)
  show fit: "year_fits (Date (Timespan (- 400)))" by (simp add: year_fits_def date_days_def)
  show "get_year (Date (Timespan (- 400))) \<noteq> - 32768"
    by (simp add: get_year_div [OF fit]) (simp add: date_days_def)
qed (simp add: stack_string_size_def)

lemma emit_digits_numeral:
  "emit_digits (numeral room) base v acc =
     (if base = 0 then None
      else let acc = digit_char (v mod base) # acc; v = v div base
           in if v \<noteq> 0 then emit_digits (pred_numeral room) base v acc else Some acc)"
  by (simp add: numeral_eq_Suc)

text \<open>The least year does not survive: its negation wraps to itself, and a second minus sign is
  printed, which the parser rejects.\<close>

theorem least_year_not_parsed:
  "date_to_array (make_date (- 32768) 1 1) False False False = Some (''--32768.1.1'', 11, errc_ok)
    \<and> ec (snd (date_from_string ''--32768.1.1'')) = invalid_argument"
proof
  show "date_to_array (make_date (- 32768) 1 1) False False False = Some (''--32768.1.1'', 11, errc_ok)"
  proof -
    have "valid_fields (- 32768) 1 1" by (simp add: valid_fields_def DAYS_IN_MONTH_def)
    note f = make_date_field_values [OF this]
    then have "get_month (make_date (- 32768) 1 1) = 1" "get_day (make_date (- 32768) 1 1) = 1" by auto
    then show ?thesis
      by (simp add: f date_to_array_def date_to_chars_def stack_string_size_def wrap16_def to_chars_def
          emit_def emit_digits_numeral digit_char_def char_of_eq_iff take_bit_eq_mod)
  qed
  show "ec (snd (date_from_string ''--32768.1.1'')) = invalid_argument"
    by (simp add: date_from_string_def date_from_chars_def parse_from_chars_def from_chars_cases)
qed

text \<open>When parsing succeeds the date has the year, month and day that were read, all in range;
  in particular the clamping of the constructor never changes a parsed date.\<close>

theorem parse_ok_fields:
  assumes "parse_from_chars s 0 0 0 = (res, year, month, day)" "ec res = errc_ok"
  shows "valid_fields year month day \<and> err_type res = errc_day
    \<and> date_from_string s = (make_date year month day, res)
    \<and> get_year (make_date year month day) = year \<and> int (get_month (make_date year month day)) = month
    \<and> int (get_day (make_date year month day)) = day"
proof -
  have "valid_fields year month day \<and> err_type res = errc_day"
    using assms parse_ok_valid by blast
  then show ?thesis using assms make_date_field_values by (simp add: date_from_string_def date_from_chars_def)
qed

theorem parse_ok_fields_witness:
  "valid_fields 1836 1 1 \<and> date_from_string ''1836.1.1'' =
     (make_date 1836 1 1, \<lparr>ptr = 8, ec = errc_ok, type_first = 7, err_type = errc_day\<rparr>)"
proof -
  have "parse_from_chars ''1836.1.1'' 0 0 0 =
    (\<lparr>ptr = 8, ec = errc_ok, type_first = 7, err_type = errc_day\<rparr>, 1836, 1, 1)"
    by (simp add: parse_from_chars_def from_chars_cases is_digit_def digit_from_char_def table_sizes
        DAYS_IN_MONTH_def)
  from parse_ok_fields [OF this] show ?thesis by simp
qed

end
