(* ===== verification/Slot_Allocator.thy ===== *)
theory Slot_Allocator
  imports Sim_Prelude
begin

text \<open>
  \<open>src/openvic-simulation/ecs/DenseSlotAllocator.hpp\<close> and \<open>.cpp\<close>: the deterministic free-list
  allocator of dense rows, and the interface \<open>id_source\<close> it shares with the entity slot table and
  the chunk pool: identifiers are handed out, owned by the client, and given back; \<open>aging_source\<close>
  adds the maintenance the pool does between the calls.
\<close>

section \<open>Sources of identifiers\<close>

datatype 'i id_event = Gave 'i | Back 'i

text \<open>A run of a source: what it handed out and what it was given back, in order.\<close>

inductive id_trace :: "('s \<Rightarrow> ('i \<times> 's) option) \<Rightarrow> ('i \<Rightarrow> 's \<Rightarrow> 's) \<Rightarrow> 's \<Rightarrow> 'i id_event list \<Rightarrow> 's \<Rightarrow> bool"
  for alloc release where
  stop: "id_trace alloc release s [] s"
| gave: "alloc s = Some (i, t) \<Longrightarrow> id_trace alloc release t es u \<Longrightarrow> id_trace alloc release s (Gave i # es) u"
| took: "id_trace alloc release (release i s) es u \<Longrightarrow> id_trace alloc release s (Back i # es) u"

inductive_cases id_trace_NilE: "id_trace alloc release s [] u"
inductive_cases id_trace_GaveE: "id_trace alloc release s (Gave i # es) u"
inductive_cases id_trace_BackE: "id_trace alloc release s (Back i # es) u"

text \<open>The client's side: it gives back only what it owns, and it is never given what it owns.\<close>

fun releases_owned :: "'i set \<Rightarrow> 'i id_event list \<Rightarrow> bool" where
  "releases_owned S [] = True"
| "releases_owned S (Gave i # es) = releases_owned (insert i S) es"
| "releases_owned S (Back i # es) = (i \<in> S \<and> releases_owned (S - {i}) es)"

fun owned_after :: "'i set \<Rightarrow> 'i id_event list \<Rightarrow> 'i set option" where
  "owned_after S [] = Some S"
| "owned_after S (Gave i # es) = (if i \<in> S then None else owned_after (insert i S) es)"
| "owned_after S (Back i # es) = (if i \<in> S then owned_after (S - {i}) es else None)"

locale id_source =
  fixes alloc :: "'s \<Rightarrow> ('i \<times> 's) option"
    and release :: "'i \<Rightarrow> 's \<Rightarrow> 's"
    and live :: "'s \<Rightarrow> 'i set"
    and inv :: "'s \<Rightarrow> bool"
  assumes alloc_inv: "inv s \<Longrightarrow> alloc s = Some (i, t) \<Longrightarrow> inv t"
    and alloc_fresh: "inv s \<Longrightarrow> alloc s = Some (i, t) \<Longrightarrow> i \<notin> live s"
    and alloc_live: "inv s \<Longrightarrow> alloc s = Some (i, t) \<Longrightarrow> live t = insert i (live s)"
    and release_inv: "inv s \<Longrightarrow> i \<in> live s \<Longrightarrow> inv (release i s)"
    and release_live: "inv s \<Longrightarrow> i \<in> live s \<Longrightarrow> live (release i s) = live s - {i}"
begin

lemma no_alias:
  assumes "id_trace alloc release s es u" "inv s" "S \<subseteq> live s" "releases_owned S es"
  shows "\<exists>S'. owned_after S es = Some S' \<and> S' \<subseteq> live u \<and> inv u"
  using assms
proof (induction arbitrary: S rule: id_trace.induct)
  case (stop s)
  then show ?case by simp
next
  case (gave s i t es u)
  note a = gave.hyps(1) gave.prems(1)
  have "i \<notin> S" using alloc_fresh [OF a(2,1)] gave.prems(2) by blast
  moreover have "insert i S \<subseteq> live t" using alloc_live [OF a(2,1)] gave.prems(2) by auto
  ultimately show ?case
    using gave.IH [OF alloc_inv [OF a(2,1)], of "insert i S"] gave.prems(3) by simp
next
  case (took i s es u)
  then have i: "i \<in> S" "i \<in> live s" by auto
  have "S - {i} \<subseteq> live (release i s)" using release_live [OF took.prems(1) i(2)] took.prems(2) by auto
  with took.IH [OF release_inv [OF took.prems(1) i(2)], of "S - {i}"] show ?case
    using took.prems(3) i(1) by simp
qed

end

text \<open>A source that is also maintained between the calls of its client.\<close>

datatype 'i source_event = Called "'i id_event" | Aged

inductive aging_trace :: "('s \<Rightarrow> ('i \<times> 's) option) \<Rightarrow> ('i \<Rightarrow> 's \<Rightarrow> 's) \<Rightarrow> ('s \<Rightarrow> 's) \<Rightarrow> 's \<Rightarrow> 'i source_event list \<Rightarrow> 's \<Rightarrow> bool"
  for alloc release age where
  aging_stop: "aging_trace alloc release age s [] s"
| aging_gave: "alloc s = Some (i, t) \<Longrightarrow> aging_trace alloc release age t es u \<Longrightarrow> aging_trace alloc release age s (Called (Gave i) # es) u"
| aging_took: "aging_trace alloc release age (release i s) es u \<Longrightarrow> aging_trace alloc release age s (Called (Back i) # es) u"
| aging_aged: "aging_trace alloc release age (age s) es u \<Longrightarrow> aging_trace alloc release age s (Aged # es) u"

fun calls :: "'i source_event list \<Rightarrow> 'i id_event list" where
  "calls [] = []"
| "calls (Called e # es) = e # calls es"
| "calls (Aged # es) = calls es"

locale aging_source = id_source alloc release live inv
  for alloc :: "'s \<Rightarrow> ('i \<times> 's) option" and release :: "'i \<Rightarrow> 's \<Rightarrow> 's" and live :: "'s \<Rightarrow> 'i set" and inv :: "'s \<Rightarrow> bool" +
  fixes age :: "'s \<Rightarrow> 's"
  assumes age_inv: "inv s \<Longrightarrow> inv (age s)"
    and age_live: "inv s \<Longrightarrow> live (age s) = live s"
begin

lemma no_alias_aging:
  assumes "aging_trace alloc release age s es u" "inv s" "S \<subseteq> live s" "releases_owned S (calls es)"
  shows "\<exists>S'. owned_after S (calls es) = Some S' \<and> S' \<subseteq> live u \<and> inv u"
  using assms
proof (induction arbitrary: S rule: aging_trace.induct)
  case (aging_stop s)
  then show ?case by simp
next
  case (aging_gave s i t es u)
  note a = aging_gave.prems(1) aging_gave.hyps(1)
  have "i \<notin> S" "insert i S \<subseteq> live t" using alloc_fresh [OF a] alloc_live [OF a] aging_gave.prems(2) by auto
  then show ?case using aging_gave.IH [OF alloc_inv [OF a], of "insert i S"] aging_gave.prems(3) by simp
next
  case (aging_took i s es u)
  then have i: "i \<in> S" "i \<in> live s" by auto
  have "S - {i} \<subseteq> live (release i s)" using release_live [OF aging_took.prems(1) i(2)] aging_took.prems(2) by auto
  with aging_took.IH [OF release_inv [OF aging_took.prems(1) i(2)], of "S - {i}"] show ?case
    using aging_took.prems(3) i(1) by simp
next
  case (aging_aged s es u)
  then show ?case using age_inv age_live by simp
qed

end

section \<open>The dense slot allocator\<close>

definition INVALID_DENSE_SLOT :: u32 where "INVALID_DENSE_SLOT = - 1"

text \<open>\<open>free_slots\<close> is the vector of the code: its last element is the top of the stack.\<close>

record DenseSlotAllocator =
  free_slots :: "u32 list"
  next_unallocated :: u32

definition empty_allocator :: DenseSlotAllocator where
  "empty_allocator = \<lparr>free_slots = [], next_unallocated = 0\<rparr>"

definition dense_allocate :: "DenseSlotAllocator \<Rightarrow> u32 \<times> DenseSlotAllocator" where
  "dense_allocate a =
     (if free_slots a \<noteq> []
      then (last (free_slots a), a\<lparr>free_slots := butlast (free_slots a)\<rparr>)
      else if next_unallocated a = INVALID_DENSE_SLOT then (INVALID_DENSE_SLOT, a)
      else (next_unallocated a, a\<lparr>next_unallocated := next_unallocated a + 1\<rparr>))"

definition dense_release :: "u32 \<Rightarrow> DenseSlotAllocator \<Rightarrow> DenseSlotAllocator" where
  "dense_release slot a =
     (if slot \<ge> next_unallocated a then a else a\<lparr>free_slots := free_slots a @ [slot]\<rparr>)"

definition high_water :: "DenseSlotAllocator \<Rightarrow> u32" where
  "high_water a = next_unallocated a"

definition free_count :: "DenseSlotAllocator \<Rightarrow> u32" where
  "free_count a = of_nat (length (free_slots a))"

definition dense_reset :: "DenseSlotAllocator \<Rightarrow> DenseSlotAllocator" where
  "dense_reset a = a\<lparr>free_slots := [], next_unallocated := 0\<rparr>"

record Dense_Snapshot =
  snap_next_unallocated :: u32
  snap_free_slots :: "u32 list"

definition dense_snapshot :: "DenseSlotAllocator \<Rightarrow> Dense_Snapshot" where
  "dense_snapshot a =
     \<lparr>snap_next_unallocated = next_unallocated a, snap_free_slots = free_slots a\<rparr>"

text \<open>The scan over the sorted copy; \<open>prev\<close> is the element before, when there is one.\<close>

fun scan_sorted :: "u32 \<Rightarrow> u32 option \<Rightarrow> u32 list \<Rightarrow> bool" where
  "scan_sorted limit prev [] = True"
| "scan_sorted limit prev (x # xs) =
     (if x \<ge> limit then False
      else if prev = Some x then False
      else scan_sorted limit (Some x) xs)"

definition dense_restore :: "Dense_Snapshot \<Rightarrow> DenseSlotAllocator \<Rightarrow> bool \<times> DenseSlotAllocator" where
  "dense_restore snap a =
     (if scan_sorted (snap_next_unallocated snap) None (sort (snap_free_slots snap))
      then (True, a\<lparr>next_unallocated := snap_next_unallocated snap, free_slots := snap_free_slots snap\<rparr>)
      else (False, a))"

definition dense_debug_validate :: "DenseSlotAllocator \<Rightarrow> bool" where
  "dense_debug_validate a = scan_sorted (next_unallocated a) None (sort (free_slots a))"

section \<open>The allocator is a source of identifiers\<close>

definition dense_inv :: "DenseSlotAllocator \<Rightarrow> bool" where
  "dense_inv a \<longleftrightarrow> distinct (free_slots a) \<and> (\<forall>s \<in> set (free_slots a). s < next_unallocated a)"

definition dense_live :: "DenseSlotAllocator \<Rightarrow> u32 set" where
  "dense_live a = {s. s < next_unallocated a \<and> s \<notin> set (free_slots a)}"

text \<open>Exhaustion, the one failure, as an option.\<close>

definition dense_alloc :: "DenseSlotAllocator \<Rightarrow> (u32 \<times> DenseSlotAllocator) option" where
  "dense_alloc a =
     (let (slot, a') = dense_allocate a in if slot = INVALID_DENSE_SLOT then None else Some (slot, a'))"

lemma scan_sorted_iff:
  "sorted xs \<Longrightarrow> (\<forall>p. prev = Some p \<longrightarrow> (\<forall>x \<in> set xs. p \<le> x)) \<Longrightarrow>
     scan_sorted limit prev xs \<longleftrightarrow>
       distinct xs \<and> (\<forall>x \<in> set xs. x < limit) \<and> (\<forall>p. prev = Some p \<longrightarrow> p \<notin> set xs)"
proof (induction xs arbitrary: prev)
  case (Cons x xs)
  have "scan_sorted limit (Some x) xs \<longleftrightarrow>
      distinct xs \<and> (\<forall>y \<in> set xs. y < limit) \<and> x \<notin> set xs"
    using Cons.IH [of "Some x"] Cons.prems(1) by simp
  moreover have "p \<notin> set xs" if "prev = Some p" "p \<noteq> x" for p
    using that Cons.prems by (metis antisym list.set_intros(1) sorted_simps(2))
  ultimately show ?case by (cases prev) auto
qed simp

lemma scan_sort_iff:
  "scan_sorted limit None (sort xs) \<longleftrightarrow> distinct xs \<and> (\<forall>x \<in> set xs. x < limit)"
  by (subst scan_sorted_iff) simp_all

lemma below_invalid: "(s :: u32) < t \<Longrightarrow> s \<noteq> INVALID_DENSE_SLOT"
  by (auto simp: INVALID_DENSE_SLOT_def)

lemma u32_less_Suc: "n \<noteq> INVALID_DENSE_SLOT \<Longrightarrow> (s < n + 1) = (s < n \<or> s = (n :: u32))"
proof -
  assume "n \<noteq> INVALID_DENSE_SLOT"
  then have "1 + n \<noteq> 0" by (simp add: INVALID_DENSE_SLOT_def add_eq_0_iff)
  then have "unat (n + 1) = Suc (unat n)" by (simp add: unatSuc add.commute)
  then show ?thesis by (auto simp: word_less_nat_alt less_Suc_eq intro: unsigned_word_eqI)
qed

lemma dense_alloc_cases:
  assumes "dense_inv a" "dense_alloc a = Some (i, b)"
  shows "(\<exists>fs. free_slots a = fs @ [i] \<and> b = a\<lparr>free_slots := fs\<rparr>)
    \<or> (free_slots a = [] \<and> i = next_unallocated a \<and> i \<noteq> INVALID_DENSE_SLOT
        \<and> b = a\<lparr>next_unallocated := next_unallocated a + 1\<rparr>)"
  using assms
  by (cases "free_slots a" rule: rev_cases)
    (auto simp: dense_alloc_def dense_allocate_def split: if_splits)

interpretation dense: id_source dense_alloc dense_release dense_live dense_inv
proof
  fix a b i
  assume inv: "dense_inv a" and al: "dense_alloc a = Some (i, b)"
  show "dense_inv b"
    using dense_alloc_cases [OF inv al] inv by (auto simp: dense_inv_def u32_less_Suc)
  show "i \<notin> dense_live a"
    using dense_alloc_cases [OF inv al] by (auto simp: dense_live_def)
  show "dense_live b = insert i (dense_live a)"
    using dense_alloc_cases [OF inv al] inv
    by (auto simp: dense_live_def dense_inv_def u32_less_Suc)
next
  fix a i
  assume "dense_inv a" "i \<in> dense_live a"
  then show "dense_inv (dense_release i a)" "dense_live (dense_release i a) = dense_live a - {i}"
    by (auto simp: dense_inv_def dense_live_def dense_release_def)
qed

section \<open>Properties\<close>

text \<open>A client that gives back only rows it owns is never handed a row it still owns, whatever
  the sequence of allocations and releases since the empty allocator.\<close>

theorem dense_no_alias:
  assumes "id_trace dense_alloc dense_release empty_allocator es a" "releases_owned {} es"
  shows "\<exists>S. owned_after {} es = Some S \<and> S \<subseteq> dense_live a \<and> dense_inv a"
  using assms(1) _ _ assms(2)
  by (rule dense.no_alias) (simp_all add: dense_inv_def empty_allocator_def)

theorem dense_no_alias_witness:
  "\<exists>S. owned_after {} [Gave 0, Gave 1, Back 0, Gave (0 :: u32)] = Some S
    \<and> S \<subseteq> dense_live \<lparr>free_slots = [], next_unallocated = 2\<rparr>
    \<and> dense_inv \<lparr>free_slots = [], next_unallocated = 2\<rparr>"
proof (rule dense_no_alias)
  show "id_trace dense_alloc dense_release empty_allocator [Gave 0, Gave 1, Back 0, Gave 0]
    \<lparr>free_slots = [], next_unallocated = 2\<rparr>"
    by (rule id_trace.intros | simp add: dense_alloc_def dense_allocate_def dense_release_def
        empty_allocator_def INVALID_DENSE_SLOT_def)+
qed simp

text \<open>\<open>debug_validate\<close> accepts exactly the allocators whose free rows are distinct and below the
  high-water mark.\<close>

theorem dense_debug_validate_iff: "dense_debug_validate a = dense_inv a"
  by (simp add: dense_debug_validate_def dense_inv_def scan_sort_iff)

text \<open>Restoring a snapshot succeeds exactly when the snapshot was taken from a valid allocator,
  and then gives the allocator back, free-stack order included; a refused restore changes nothing.\<close>

theorem dense_restore_snapshot:
  "dense_restore (dense_snapshot a) b = (if dense_inv a then (True, a) else (False, b))"
  by (simp add: dense_restore_def dense_snapshot_def dense_inv_def scan_sort_iff)

text \<open>Rows are reused in last-in first-out order: allocating right after a release returns the
  released row and the allocator before the release.\<close>

theorem dense_release_allocate:
  assumes "i \<in> dense_live a"
  shows "dense_allocate (dense_release i a) = (i, a)"
  using assms by (auto simp: dense_live_def dense_release_def dense_allocate_def)

theorem dense_release_allocate_witness:
  "dense_allocate (dense_release 3 \<lparr>free_slots = [1], next_unallocated = 5\<rparr>)
     = (3, \<lparr>free_slots = [1], next_unallocated = 5\<rparr>)"
  by (rule dense_release_allocate) (simp add: dense_live_def)

text \<open>A double release is not refused; it makes \<open>debug_validate\<close> fail and the next two
  allocations return the same row to two owners.\<close>

theorem dense_double_release:
  assumes "i \<in> dense_live a"
  shows "\<not> dense_debug_validate (dense_release i (dense_release i a))
    \<and> dense_allocate (dense_release i (dense_release i a)) = (i, dense_release i a)
    \<and> dense_allocate (dense_release i a) = (i, a)"
  using assms
  by (auto simp: dense_debug_validate_def scan_sort_iff dense_live_def dense_release_def dense_allocate_def
      butlast_append)

theorem dense_double_release_witness:
  "dense_allocate (dense_release 0 (dense_release 0 \<lparr>free_slots = [], next_unallocated = 1\<rparr>))
     = (0, dense_release 0 \<lparr>free_slots = [], next_unallocated = 1\<rparr>)"
  using dense_double_release [of 0 "\<lparr>free_slots = [], next_unallocated = 1\<rparr>"] by (simp add: dense_live_def)

end
