(* ===== verification/Chunk_Pool.thy ===== *)
theory Chunk_Pool
  imports Slot_Allocator "HOL-Library.Multiset"
begin

text \<open>
  \<open>src/openvic-simulation/ecs/ChunkPool.hpp\<close> and \<open>.cpp\<close>: the cache of 16 KB blocks the
  archetypes take their chunks from.  Addresses are natural numbers; \<open>::operator new\<close> and
  \<open>::operator delete\<close> work on a heap of live blocks, where a new block gets an address never
  used before (the null pointer is \<^const>\<open>None\<close>).
\<close>

section \<open>The heap and the pool\<close>

record block_heap =
  next_address :: nat
  live_blocks :: "nat set"

definition heap_new :: "block_heap \<Rightarrow> nat \<times> block_heap" where
  "heap_new h =
     (next_address h, h\<lparr>next_address := Suc (next_address h), live_blocks := insert (next_address h) (live_blocks h)\<rparr>)"

definition heap_delete :: "nat \<Rightarrow> block_heap \<Rightarrow> block_heap" where
  "heap_delete a h = h\<lparr>live_blocks := live_blocks h - {a}\<rparr>"

record PooledBlock =
  block_data :: nat
  released_at_tick :: u64

record ChunkPool =
  free_blocks :: "PooledBlock list"
  current_tick :: u64
  total_allocations :: u64
  total_deallocations :: u64
  heap :: block_heap

definition MAX_POOL_SIZE :: nat where "MAX_POOL_SIZE = 64"
definition AGE_THRESHOLD_TICKS :: u64 where "AGE_THRESHOLD_TICKS = 256"

definition empty_pool :: ChunkPool where
  "empty_pool = \<lparr>free_blocks = [], current_tick = 0, total_allocations = 0, total_deallocations = 0,
     heap = \<lparr>next_address = 0, live_blocks = {}\<rparr>\<rparr>"

definition pool_acquire :: "ChunkPool \<Rightarrow> nat \<times> ChunkPool" where
  "pool_acquire p =
     (if free_blocks p \<noteq> []
      then (block_data (last (free_blocks p)), p\<lparr>free_blocks := butlast (free_blocks p)\<rparr>)
      else let (a, h) = heap_new (heap p)
           in (a, p\<lparr>total_allocations := total_allocations p + 1, heap := h\<rparr>))"

definition pool_delete :: "nat \<Rightarrow> ChunkPool \<Rightarrow> ChunkPool" where
  "pool_delete a p =
     p\<lparr>total_deallocations := total_deallocations p + 1, heap := heap_delete a (heap p)\<rparr>"

definition pool_release :: "nat option \<Rightarrow> ChunkPool \<Rightarrow> ChunkPool" where
  "pool_release data p =
     (case data of
        None \<Rightarrow> p
      | Some a \<Rightarrow>
          if length (free_blocks p) \<ge> MAX_POOL_SIZE then pool_delete a p
          else p\<lparr>free_blocks := free_blocks p @ [\<lparr>block_data = a, released_at_tick = current_tick p\<rparr>]\<rparr>)"

text \<open>The aging scan: an old block is overwritten by the last one and the vector shrinks.\<close>

definition too_old :: "ChunkPool \<Rightarrow> PooledBlock \<Rightarrow> bool" where
  "too_old p b \<longleftrightarrow> current_tick p - released_at_tick b > AGE_THRESHOLD_TICKS"

function age_loop :: "nat \<Rightarrow> ChunkPool \<Rightarrow> ChunkPool" where
  "age_loop i p =
     (if i < length (free_blocks p) then
        (let b = free_blocks p ! i
         in if too_old p b
            then age_loop i ((pool_delete (block_data b) p)
                   \<lparr>free_blocks := butlast ((free_blocks p)[i := last (free_blocks p)])\<rparr>)
            else age_loop (Suc i) p)
      else p)"
  by auto
termination
  by (relation "measure (\<lambda>(i, p). length (free_blocks p) - i)") (auto simp: pool_delete_def)

declare age_loop.simps [simp del]

definition pool_advance_tick :: "ChunkPool \<Rightarrow> ChunkPool" where
  "pool_advance_tick p = age_loop 0 (p\<lparr>current_tick := current_tick p + 1\<rparr>)"

text \<open>The destructor frees what is cached.\<close>

fun delete_all :: "PooledBlock list \<Rightarrow> ChunkPool \<Rightarrow> ChunkPool" where
  "delete_all [] p = p"
| "delete_all (b # bs) p = delete_all bs (pool_delete (block_data b) p)"

definition pool_destroy :: "ChunkPool \<Rightarrow> ChunkPool" where
  "pool_destroy p = (delete_all (free_blocks p) p)\<lparr>free_blocks := []\<rparr>"

section \<open>The pool hands out every block to one owner\<close>

definition cached :: "ChunkPool \<Rightarrow> nat list" where
  "cached p = map block_data (free_blocks p)"

definition pool_owned :: "ChunkPool \<Rightarrow> nat set" where
  "pool_owned p = live_blocks (heap p) - set (cached p)"

definition pool_inv :: "ChunkPool \<Rightarrow> bool" where
  "pool_inv p \<longleftrightarrow> distinct (cached p) \<and> set (cached p) \<subseteq> live_blocks (heap p)
     \<and> length (free_blocks p) \<le> MAX_POOL_SIZE
     \<and> live_blocks (heap p) \<subseteq> {..< next_address (heap p)}
     \<and> total_allocations p - total_deallocations p = of_nat (card (live_blocks (heap p)))"

definition pool_alloc :: "ChunkPool \<Rightarrow> (nat \<times> ChunkPool) option" where
  "pool_alloc p = Some (pool_acquire p)"

definition pool_give_back :: "nat \<Rightarrow> ChunkPool \<Rightarrow> ChunkPool" where
  "pool_give_back a = pool_release (Some a)"

lemma live_finite: "pool_inv p \<Longrightarrow> finite (live_blocks (heap p))"
  by (auto simp: pool_inv_def intro: finite_subset)

lemma acquire_cases:
  "(\<exists>bs b. free_blocks p = bs @ [b] \<and> pool_acquire p = (block_data b, p\<lparr>free_blocks := bs\<rparr>))
    \<or> (free_blocks p = [] \<and> pool_acquire p = (next_address (heap p),
         p\<lparr>total_allocations := total_allocations p + 1, heap := snd (heap_new (heap p))\<rparr>))"
  by (cases "free_blocks p" rule: rev_cases) (auto simp: pool_acquire_def heap_new_def)

lemma pool_delete_inv:
  assumes "pool_inv p" "a \<in> live_blocks (heap p)" "a \<notin> set (map block_data bs)"
    "distinct (map block_data bs)" "set (map block_data bs) \<subseteq> set (cached p)"
    "length bs \<le> length (free_blocks p)"
  shows "pool_inv ((pool_delete a p)\<lparr>free_blocks := bs\<rparr>)"
proof -
  have fin: "finite (live_blocks (heap p))" by (rule live_finite [OF assms(1)])
  have "card (live_blocks (heap p)) = Suc (card (live_blocks (heap p) - {a}))"
    by (rule card.remove [OF fin assms(2)])
  then have count: "total_allocations p - (total_deallocations p + 1) = of_nat (card (live_blocks (heap p) - {a}))"
    using assms(1) unfolding pool_inv_def diff_diff_eq [symmetric] by simp
  have old: "set (cached p) \<subseteq> live_blocks (heap p)" "length (free_blocks p) \<le> MAX_POOL_SIZE"
    "live_blocks (heap p) \<subseteq> {..<next_address (heap p)}"
    using assms(1) by (simp_all add: pool_inv_def)
  let ?q = "(pool_delete a p)\<lparr>free_blocks := bs\<rparr>"
  have q: "cached ?q = map block_data bs" "live_blocks (heap ?q) = live_blocks (heap p) - {a}"
    "next_address (heap ?q) = next_address (heap p)" "free_blocks ?q = bs"
    "total_allocations ?q - total_deallocations ?q = total_allocations p - (total_deallocations p + 1)"
    by (simp_all add: pool_delete_def heap_delete_def cached_def)
  have "set (map block_data bs) \<subseteq> live_blocks (heap p) - {a}" using assms(3,5) old(1) by blast
  then show ?thesis
    unfolding pool_inv_def q count using assms(4,6) old by auto
qed

interpretation pool: id_source pool_alloc pool_give_back pool_owned pool_inv
proof
  fix p q a
  assume inv: "pool_inv p" and al: "pool_alloc p = Some (a, q)"
  then have acq: "pool_acquire p = (a, q)" by (simp add: pool_alloc_def)
  have fin: "finite (live_blocks (heap p))" by (rule live_finite [OF inv])
  have fresh: "next_address (heap p) \<notin> live_blocks (heap p)" using inv by (auto simp: pool_inv_def)
  show "pool_inv q"
    using acquire_cases [of p] acq inv fin fresh
    by (auto simp: pool_inv_def cached_def heap_new_def lessThan_Suc algebra_simps image_subset_iff)
  show "a \<notin> pool_owned p"
    using acquire_cases [of p] acq inv fresh by (auto simp: pool_owned_def cached_def)
  show "pool_owned q = insert a (pool_owned p)"
    using acquire_cases [of p] acq inv fresh
    by (fastforce simp: pool_owned_def cached_def heap_new_def pool_inv_def image_iff)
next
  fix p a
  assume inv: "pool_inv p" and a: "a \<in> pool_owned p"
  have full: "pool_inv (pool_delete a p)"
    using pool_delete_inv [OF inv, of a "free_blocks p"] a inv
    by (simp add: pool_owned_def cached_def pool_delete_def pool_inv_def)
  show "pool_inv (pool_give_back a p)"
    using full a inv by (auto simp: pool_give_back_def pool_release_def pool_inv_def pool_owned_def cached_def)
  show "pool_owned (pool_give_back a p) = pool_owned p - {a}"
    using a by (auto simp: pool_give_back_def pool_release_def pool_owned_def cached_def pool_delete_def heap_delete_def)
qed

section \<open>Aging\<close>

lemma mset_swap_pop:
  assumes "i < length xs"
  shows "mset ((xs ! i) # butlast (xs[i := last xs])) = mset xs"
proof -
  obtain ys y where xs: "xs = ys @ [y]" using assms by (cases xs rule: rev_cases) auto
  show ?thesis
  proof (cases "i = length ys")
    case True
    then show ?thesis by (simp add: xs)
  next
    case False
    then have "i < length ys" using assms xs by simp
    then show ?thesis
      by (simp add: xs nth_append list_update_append mset_update add_mset_commute)
  qed
qed

lemma too_old_delete [simp]:
  "too_old ((pool_delete a p)\<lparr>free_blocks := bs\<rparr>) = too_old p"
  by (rule ext) (simp add: too_old_def pool_delete_def)

lemma pool_inv_age_step:
  assumes "pool_inv p" "i < length (free_blocks p)"
  shows "pool_inv ((pool_delete (block_data (free_blocks p ! i)) p)
           \<lparr>free_blocks := butlast ((free_blocks p)[i := last (free_blocks p)])\<rparr>)"
proof -
  let ?bs = "butlast ((free_blocks p)[i := last (free_blocks p)])"
  have m: "mset (free_blocks p ! i # ?bs) = mset (free_blocks p)" by (rule mset_swap_pop [OF assms(2)])
  then have mm: "mset (map block_data (free_blocks p ! i # ?bs)) = mset (cached p)"
    unfolding cached_def mset_map by simp
  have "distinct (map block_data (free_blocks p ! i # ?bs))"
    using mset_eq_imp_distinct_iff [OF mm] assms(1) by (simp add: pool_inv_def)
  moreover have "set (map block_data (free_blocks p ! i # ?bs)) = set (cached p)"
    by (rule mset_eq_setD [OF mm])
  ultimately show ?thesis
    using assms by (intro pool_delete_inv) (auto simp: pool_inv_def)
qed

lemma age_loop_spec:
  assumes "i \<le> length (free_blocks p)" "\<forall>b \<in> set (take i (free_blocks p)). \<not> too_old p b"
  shows "mset (free_blocks (age_loop i p)) = filter_mset (\<lambda>b. \<not> too_old p b) (mset (free_blocks p))
    \<and> (pool_inv p \<longrightarrow> pool_inv (age_loop i p)) \<and> current_tick (age_loop i p) = current_tick p"
  using assms
proof (induction i p rule: age_loop.induct)
  case (1 i p)
  show ?case
  proof (cases "i < length (free_blocks p)")
    case False
    then have "filter_mset (\<lambda>b. \<not> too_old p b) (mset (free_blocks p)) = mset (free_blocks p)"
      using 1(4) by (intro filter_mset_eq_conv [THEN iffD2]) auto
    then show ?thesis using False by (simp add: age_loop.simps [of i p])
  next
    case lt: True
    let ?b = "free_blocks p ! i"
    show ?thesis
    proof (cases "too_old p ?b")
      case False
      then have "\<forall>b \<in> set (take (Suc i) (free_blocks p)). \<not> too_old p b"
        using 1(4) lt by (auto simp: take_Suc_conv_app_nth)
      then show ?thesis using 1(2) [OF lt refl False] lt False by (simp add: age_loop.simps [of i p] Let_def)
    next
      case True
      let ?bs = "butlast ((free_blocks p)[i := last (free_blocks p)])"
      let ?q = "(pool_delete (block_data ?b) p)\<lparr>free_blocks := ?bs\<rparr>"
      have step: "age_loop i p = age_loop i ?q"
        using lt True by (subst age_loop.simps) (simp add: Let_def)
      have take: "take i ?bs = take i (free_blocks p)"
        using lt by (simp add: take_butlast)
      have "mset (free_blocks (age_loop i ?q)) = filter_mset (\<lambda>b. \<not> too_old p b) (mset ?bs)
        \<and> (pool_inv ?q \<longrightarrow> pool_inv (age_loop i ?q)) \<and> current_tick (age_loop i ?q) = current_tick ?q"
        using 1(1) [OF lt refl True] 1(4) take lt by simp
      moreover have "filter_mset (\<lambda>b. \<not> too_old p b) (mset ?bs)
          = filter_mset (\<lambda>b. \<not> too_old p b) (mset (free_blocks p))"
        using True by (simp flip: mset_swap_pop [OF lt])
      moreover have "current_tick ?q = current_tick p" by (simp add: pool_delete_def)
      ultimately show ?thesis using step pool_inv_age_step [OF _ lt] by simp
    qed
  qed
qed

text \<open>Advancing the tick keeps exactly the cached blocks released at most the threshold of ticks
  ago, in some order, and keeps the pool well formed: cached blocks distinct, live and within the
  bound, and the two counters differing by the blocks that are live.\<close>

lemma pool_inv_tick: "pool_inv p \<Longrightarrow> pool_inv (p\<lparr>current_tick := t\<rparr>)"
  by (simp add: pool_inv_def cached_def)

lemma pool_advance_inv: "pool_inv p \<Longrightarrow> pool_inv (pool_advance_tick p)"
  using age_loop_spec [of 0 "p\<lparr>current_tick := current_tick p + 1\<rparr>"] pool_inv_tick [of p] by (simp add: pool_advance_tick_def)

theorem pool_advance_tick_spec:
  assumes "pool_inv p"
  defines "q \<equiv> pool_advance_tick p"
  shows "pool_inv q \<and> current_tick q = current_tick p + 1
    \<and> mset (free_blocks q) =
       filter_mset (\<lambda>b. current_tick p + 1 - released_at_tick b \<le> AGE_THRESHOLD_TICKS) (mset (free_blocks p))"
proof -
  have "pool_inv (p\<lparr>current_tick := current_tick p + 1\<rparr>)"
    using assms(1) by (simp add: pool_inv_def cached_def)
  then show ?thesis
    using age_loop_spec [of 0 "p\<lparr>current_tick := current_tick p + 1\<rparr>"]
    by (simp add: q_def pool_advance_tick_def too_old_def not_less)
qed

theorem pool_advance_tick_spec_witness:
  "current_tick (pool_advance_tick empty_pool) = 1"
  using pool_advance_tick_spec [of empty_pool]
  by (simp add: pool_inv_def cached_def empty_pool_def)

text \<open>Aging moves nothing into or out of the hands of the archetypes: a block that leaves the cache is freed.\<close>

lemma age_step_owned:
  assumes "pool_inv p" "i < length (free_blocks p)"
  shows "pool_owned ((pool_delete (block_data (free_blocks p ! i)) p)
           \<lparr>free_blocks := butlast ((free_blocks p)[i := last (free_blocks p)])\<rparr>) = pool_owned p"
proof -
  let ?bs = "butlast ((free_blocks p)[i := last (free_blocks p)])"
  have "mset (map block_data (free_blocks p ! i # ?bs)) = mset (cached p)"
    unfolding cached_def mset_map using mset_swap_pop [OF assms(2)] by simp
  from mset_eq_setD [OF this] show ?thesis
    by (auto simp: pool_owned_def pool_delete_def heap_delete_def cached_def)
qed

lemma age_loop_owned: "pool_inv p \<Longrightarrow> pool_owned (age_loop i p) = pool_owned p"
proof (induction i p rule: age_loop.induct)
  case (1 i p)
  show ?case
  proof (cases "i < length (free_blocks p) \<and> too_old p (free_blocks p ! i)")
    case True
    then show ?thesis using 1(1) [OF _ refl] age_step_owned [OF 1(3)] pool_inv_age_step [OF 1(3)]
      by (subst age_loop.simps) (simp add: Let_def)
  next
    case False
    then show ?thesis using 1(2) [OF _ refl] 1(3) by (subst age_loop.simps) (auto simp: Let_def)
  qed
qed

interpretation aging_pool: aging_source pool_alloc pool_give_back pool_owned pool_inv pool_advance_tick
proof
  show "pool_inv (pool_advance_tick p)" if "pool_inv p" for p using pool_advance_inv [OF that] by simp
  show "pool_owned (pool_advance_tick p) = pool_owned p" if "pool_inv p" for p
    using age_loop_owned [of "p\<lparr>current_tick := current_tick p + 1\<rparr>" 0] pool_inv_tick [OF that]
    by (simp add: pool_advance_tick_def pool_owned_def cached_def)
qed

text \<open>C36: Archetypes that give back only blocks they own are never handed a block twice, from the empty
  pool on and whatever ticks pass between their calls, and every block they hold is live and not
  cached.\<close>

theorem pool_no_alias:
  assumes "aging_trace pool_alloc pool_give_back pool_advance_tick empty_pool es p" "releases_owned {} (calls es)"
  shows "\<exists>S. owned_after {} (calls es) = Some S \<and> S \<subseteq> live_blocks (heap p) - set (cached p) \<and> pool_inv p"
proof -
  have "pool_inv empty_pool" "{} \<subseteq> pool_owned empty_pool"
    by (simp_all add: pool_inv_def cached_def empty_pool_def)
  from aging_pool.no_alias_aging [OF assms(1) this assms(2)] show ?thesis by (simp add: pool_owned_def)
qed

text \<open>Two blocks come back, one of them 257 ticks before the other: aging frees the older one, and the next
  two requests get the younger one and a new one.\<close>

definition aged_pool :: "nat \<Rightarrow> ChunkPool" where
  "aged_pool n = \<lparr>free_blocks = [\<lparr>block_data = 0, released_at_tick = 0\<rparr>], current_tick = of_nat n, total_allocations = 2,
     total_deallocations = 0, heap = \<lparr>next_address = 2, live_blocks = {0, 1}\<rparr>\<rparr>"

lemma age_loop_young: "free_blocks p = [b] \<Longrightarrow> \<not> too_old p b \<Longrightarrow> age_loop 0 p = p"
  by (simp add: age_loop.simps [of 0] age_loop.simps [of "Suc 0"] Let_def)

lemma aged_pool_tick:
  assumes "n < 256"
  shows "pool_advance_tick (aged_pool n) = aged_pool (Suc n)"
proof -
  have "unat (of_nat (Suc n) :: u64) = Suc n" using assms by (simp only: unat_of_nat) simp
  then have "(of_nat (Suc n) :: u64) \<le> 256" using assms by (simp add: word_le_nat_alt del: of_nat_Suc)
  then show ?thesis
    by (simp add: pool_advance_tick_def aged_pool_def age_loop_young too_old_def AGE_THRESHOLD_TICKS_def not_less add.commute)
qed

lemma aging_run:
  "aging_trace pool_alloc pool_give_back pool_advance_tick (aged_pool (m + n)) es p \<Longrightarrow> m + n \<le> 256 \<Longrightarrow>
   aging_trace pool_alloc pool_give_back pool_advance_tick (aged_pool m) (replicate n Aged @ es) p"
proof (induction n arbitrary: m)
  case (Suc n)
  then show ?case using Suc.IH [of "Suc m"] by (auto intro!: aging_aged simp: aged_pool_tick)
qed simp

lemma calls_aged [simp]: "calls (replicate n Aged @ es) = calls es"
  by (induction n) simp_all

lemma delete_all_live: "live_blocks (heap (delete_all bs p)) = live_blocks (heap p) - set (map block_data bs)"
  by (induction bs arbitrary: p) (auto simp: pool_delete_def heap_delete_def)

text \<open>Destroying the pool returns every cached block to the heap.\<close>

theorem pool_destroy_frees: "live_blocks (heap (pool_destroy p)) = pool_owned p"
  by (simp add: pool_destroy_def delete_all_live pool_owned_def cached_def)

theorem pool_no_alias_witness:
  "\<exists>p. owned_after {} [Gave (0 :: nat), Gave 1, Back 0, Back 1, Gave 1, Gave 2] = Some {1, 2}
    \<and> {1, 2} \<subseteq> live_blocks (heap p) - set (cached p) \<and> pool_inv p \<and> current_tick p = 257"
proof -
  let ?tr = "aging_trace pool_alloc pool_give_back pool_advance_tick"
  let ?es = "[Called (Gave (0 :: nat)), Called (Gave 1), Called (Back 0)] @ replicate 256 Aged
     @ [Called (Back 1), Aged, Called (Gave 1), Called (Gave 2)]"
  have code: "pool_alloc p = Some (pool_acquire p)" "pool_give_back a = pool_release (Some a)" for p a
    by (simp_all add: pool_alloc_def pool_give_back_def)
  have "\<exists>p. ?tr (aged_pool 256) [Called (Back 1), Aged, Called (Gave 1), Called (Gave 2)] p \<and> current_tick p = 257"
    by (rule exI) (rule conjI, (rule aging_trace.intros | simp add: code pool_acquire_def pool_release_def aged_pool_def
        MAX_POOL_SIZE_def pool_advance_tick_def age_loop.simps too_old_def AGE_THRESHOLD_TICKS_def pool_delete_def
        heap_delete_def heap_new_def Let_def)+)
  then obtain p where p: "?tr (aged_pool 256) [Called (Back 1), Aged, Called (Gave 1), Called (Gave 2)] p" "current_tick p = 257"
    by blast
  have start: "?tr empty_pool (Called (Gave 0) # Called (Gave 1) # Called (Back 0) # es) p" if "?tr (aged_pool 0) es p" for es
    using that by (auto intro!: aging_trace.intros simp: code pool_acquire_def pool_release_def empty_pool_def heap_new_def
        MAX_POOL_SIZE_def aged_pool_def insert_commute numeral_2_eq_2)
  have "?tr (aged_pool 0) (replicate 256 Aged @ [Called (Back 1), Aged, Called (Gave 1), Called (Gave 2)]) p"
    by (rule aging_run) (simp_all only: add_0 p(1) order_refl)
  from start [OF this] have tr: "?tr empty_pool ?es p" by (simp only: append.simps)
  have c: "calls ?es = [Gave (0 :: nat), Gave 1, Back 0, Back 1, Gave 1, Gave 2]"
    by (simp only: append.simps calls.simps calls_aged)
  have own: "releases_owned {} (calls ?es)" unfolding c by simp
  obtain S where S: "owned_after {} (calls ?es) = Some S" "S \<subseteq> live_blocks (heap p) - set (cached p)" "pool_inv p"
    using pool_no_alias [OF tr own] by blast
  have "S = {1, 2}" using S(1) unfolding c by auto
  then show ?thesis using S(2,3) p(2) by (intro exI [of _ p]) auto
qed

end
