(* ===== verification/Entity_Slots.thy ===== *)
theory Entity_Slots
  imports Slot_Allocator
begin

text \<open>
  \<open>src/openvic-simulation/ecs/EntityID.hpp\<close> and the identity layer of \<open>ecs/World.hpp\<close> and
  \<open>World.cpp\<close>: generational entity identifiers, the slot table with its free chain threaded through
  the dead slots, and its save and load.  An access outside the slot table is \<^const>\<open>None\<close>.
\<close>

section \<open>Entity identifiers\<close>

record EntityID =
  index :: u32
  generation :: u32

definition DEFERRED_GENERATION_BIT :: u32 where "DEFERRED_GENERATION_BIT = 0x80000000"
definition INVALID_ENTITY_ID :: EntityID where "INVALID_ENTITY_ID = \<lparr>index = 0, generation = 0\<rparr>"

definition eid_is_valid :: "EntityID \<Rightarrow> bool" where
  "eid_is_valid e \<longleftrightarrow> generation e \<noteq> 0"

definition eid_is_deferred :: "EntityID \<Rightarrow> bool" where
  "eid_is_deferred e \<longleftrightarrow> generation e AND DEFERRED_GENERATION_BIT \<noteq> 0"

definition eid_to_uint64 :: "EntityID \<Rightarrow> u64" where
  "eid_to_uint64 e = push_bit 32 (ucast (generation e)) OR ucast (index e)"

definition eid_from_uint64 :: "u64 \<Rightarrow> EntityID" where
  "eid_from_uint64 v = \<lparr>index = ucast (v AND 0xFFFFFFFF), generation = ucast (drop_bit 32 v)\<rparr>"

section \<open>The slot table\<close>

definition INVALID_ARCHETYPE :: u32 where "INVALID_ARCHETYPE = - 1"

record EntitySlot =
  archetype_index :: u32
  chunk_index :: u32
  row :: u32
  slot_generation :: u32
  next_free :: u32
  alive :: bool
  immutable :: bool

record slot_table =
  entity_slots :: "EntitySlot list"
  first_free :: u32
  has_free :: bool
  in_tick :: bool
  in_apply_phase :: bool

definition default_slot :: EntitySlot where
  "default_slot = \<lparr>archetype_index = 0, chunk_index = 0, row = 0, slot_generation = 0, next_free = 0,
     alive = False, immutable = False\<rparr>"

text \<open>The generation of a reused slot skips 0 and the values with the deferred bit.\<close>

definition next_generation :: "u32 \<Rightarrow> u32" where
  "next_generation g =
     (if g + 1 = 0 \<or> (g + 1) AND DEFERRED_GENERATION_BIT \<noteq> 0 then 1 else g + 1)"

definition slot_at :: "'a slot_table_scheme \<Rightarrow> u32 \<Rightarrow> EntitySlot option" where
  "slot_at w i = arr_get (entity_slots w) (uint i)"

definition set_slot :: "u32 \<Rightarrow> EntitySlot \<Rightarrow> 'a slot_table_scheme \<Rightarrow> 'a slot_table_scheme" where
  "set_slot i slot w = w\<lparr>entity_slots := (entity_slots w)[unat i := slot]\<rparr>"

definition allocate_entity_slot ::
    "'a slot_table_scheme \<Rightarrow> (EntityID \<times> 'a slot_table_scheme) option" where
  "allocate_entity_slot w =
     (if has_free w then do {
        let i = first_free w;
        slot \<leftarrow> slot_at w i;
        let slot' = slot\<lparr>alive := True, archetype_index := 0, chunk_index := 0, row := 0,
              immutable := False, slot_generation := next_generation (slot_generation slot)\<rparr>;
        Some (\<lparr>index = i, generation = slot_generation slot'\<rparr>,
              set_slot i slot' (w\<lparr>has_free := next_free slot \<noteq> i, first_free := next_free slot\<rparr>)) }
      else do {
        let i = (of_nat (length (entity_slots w)) :: u32);
        let w' = w\<lparr>entity_slots := entity_slots w @ [default_slot\<lparr>slot_generation := 1, alive := True\<rparr>]\<rparr>;
        slot \<leftarrow> slot_at w' i;
        Some (\<lparr>index = i, generation = slot_generation slot\<rparr>, w') })"

definition reserve_entity_slot ::
    "'a slot_table_scheme \<Rightarrow> (EntityID \<times> 'a slot_table_scheme) option" where
  "reserve_entity_slot w = do {
     (eid, w) \<leftarrow> allocate_entity_slot w;
     slot \<leftarrow> slot_at w (index eid);
     Some (eid, set_slot (index eid)
             (slot\<lparr>archetype_index := INVALID_ARCHETYPE, chunk_index := 0, row := 0\<rparr>) w) }"

definition eid_is_alive :: "'a slot_table_scheme \<Rightarrow> EntityID \<Rightarrow> bool" where
  "eid_is_alive w e \<longleftrightarrow>
     (if eid_is_deferred e then False
      else case slot_at w (index e) of
             None \<Rightarrow> False
           | Some slot \<Rightarrow> alive slot \<and> slot_generation slot = generation e
               \<and> archetype_index slot \<noteq> INVALID_ARCHETYPE)"

definition is_immutable :: "'a slot_table_scheme \<Rightarrow> EntityID \<Rightarrow> bool" where
  "is_immutable w e \<longleftrightarrow>
     (if \<not> eid_is_alive w e then False
      else case slot_at w (index e) of None \<Rightarrow> False | Some slot \<Rightarrow> immutable slot)"

definition in_tick_or_log :: "'a slot_table_scheme \<Rightarrow> bool" where
  "in_tick_or_log w \<longleftrightarrow> in_tick w \<and> \<not> in_apply_phase w"

text \<open>The tail of \<open>destroy_entity\<close> and of \<open>drop_reserved_slot\<close>: the slot becomes the head of the chain.\<close>

definition push_free :: "u32 \<Rightarrow> 'a slot_table_scheme \<Rightarrow> 'a slot_table_scheme" where
  "push_free i w =
     (case slot_at w i of
        None \<Rightarrow> w
      | Some slot \<Rightarrow>
          (set_slot i (slot\<lparr>alive := False, next_free := (if has_free w then first_free w else i)\<rparr>) w)
            \<lparr>first_free := i, has_free := True\<rparr>)"

definition drop_reserved_slot :: "EntityID \<Rightarrow> 'a slot_table_scheme \<Rightarrow> 'a slot_table_scheme" where
  "drop_reserved_slot e w =
     (case slot_at w (index e) of
        None \<Rightarrow> w
      | Some slot \<Rightarrow>
          if \<not> alive slot \<or> slot_generation slot \<noteq> generation e then w
          else if archetype_index slot \<noteq> INVALID_ARCHETYPE then w
          else push_free (index e) w)"

section \<open>Saving and loading identities\<close>

record SlotRecord =
  rec_generation :: u32
  rec_immutable :: bool

record WorldIdentitySnapshot =
  snap_slots :: "SlotRecord list"
  snap_free_list :: "u32 list"

definition empty_snapshot :: WorldIdentitySnapshot where
  "empty_snapshot = \<lparr>snap_slots = [], snap_free_list = []\<rparr>"

text \<open>The first pass: \<^const>\<open>None\<close> at a reserved slot, otherwise the records and the dead count.\<close>

fun record_slots :: "EntitySlot list \<Rightarrow> SlotRecord list \<Rightarrow> nat \<Rightarrow> (SlotRecord list \<times> nat) option" where
  "record_slots [] recs dead = Some (recs, dead)"
| "record_slots (slot # slots) recs dead =
     (if alive slot \<and> archetype_index slot = INVALID_ARCHETYPE then None
      else record_slots slots
             (recs @ [\<lparr>rec_generation = slot_generation slot,
                       rec_immutable = (if alive slot then immutable slot else False)\<rparr>])
             (if alive slot then dead else Suc dead))"

text \<open>The walk along the free chain; \<^const>\<open>None\<close> is a corrupt chain.\<close>

function walk_chain :: "EntitySlot list \<Rightarrow> u32 \<Rightarrow> nat \<Rightarrow> u32 list \<Rightarrow> u32 list option" where
  "walk_chain slots cur steps acc =
     (if unat cur \<ge> length slots \<or> alive (slots ! unat cur) \<or> steps \<ge> length slots then None
      else let next = next_free (slots ! unat cur)
           in if next = cur then Some (acc @ [cur]) else walk_chain slots next (Suc steps) (acc @ [cur]))"
  by auto
termination
  by (relation "measure (\<lambda>(slots, cur, steps, acc). length slots - steps)") auto

declare walk_chain.simps [simp del]

definition snapshot_identity :: "'a slot_table_scheme \<Rightarrow> bool \<times> WorldIdentitySnapshot" where
  "snapshot_identity w =
     (if in_tick w then (False, empty_snapshot)
      else case record_slots (entity_slots w) [] 0 of
             None \<Rightarrow> (False, empty_snapshot)
           | Some (recs, dead) \<Rightarrow>
               (case (if has_free w then walk_chain (entity_slots w) (first_free w) 0 [] else Some []) of
                  None \<Rightarrow> (False, empty_snapshot)
                | Some fs \<Rightarrow>
                    if length fs \<noteq> dead then (False, empty_snapshot)
                    else (True, \<lparr>snap_slots = recs, snap_free_list = fs\<rparr>)))"

fun free_list_ok :: "nat \<Rightarrow> bool list \<Rightarrow> u32 list \<Rightarrow> bool" where
  "free_list_ok n seen [] = True"
| "free_list_ok n seen (i # is) =
     (if unat i \<ge> n then False
      else if seen ! unat i then False
      else free_list_ok n (seen[unat i := True]) is)"

definition restored_slot :: "SlotRecord \<Rightarrow> EntitySlot" where
  "restored_slot r = \<lparr>archetype_index = INVALID_ARCHETYPE, chunk_index = 0, row = 0,
     slot_generation = rec_generation r, next_free = 0, alive = True, immutable = rec_immutable r\<rparr>"

text \<open>The free list overwrites its members; the last one points at itself.\<close>

fun thread_chain :: "u32 list \<Rightarrow> EntitySlot list \<Rightarrow> EntitySlot list" where
  "thread_chain [] slots = slots"
| "thread_chain (i # is) slots =
     thread_chain is (slots[unat i := (slots ! unat i)
       \<lparr>alive := False, immutable := False, archetype_index := 0,
        next_free := (if is \<noteq> [] then hd is else i)\<rparr>])"

definition restore_identity ::
    "WorldIdentitySnapshot \<Rightarrow> 'a slot_table_scheme \<Rightarrow> bool \<times> 'a slot_table_scheme" where
  "restore_identity snap w =
     (if in_tick w then (False, w)
      else if entity_slots w \<noteq> [] then (False, w)
      else if list_ex (\<lambda>r. rec_generation r = 0 \<or> rec_generation r AND DEFERRED_GENERATION_BIT \<noteq> 0)
                (snap_slots snap) then (False, w)
      else if \<not> free_list_ok (length (snap_slots snap)) (replicate (length (snap_slots snap)) False)
                (snap_free_list snap) then (False, w)
      else (True, w\<lparr>entity_slots := thread_chain (snap_free_list snap) (map restored_slot (snap_slots snap)),
                     has_free := snap_free_list snap \<noteq> [],
                     first_free := (if snap_free_list snap \<noteq> [] then hd (snap_free_list snap) else 0)\<rparr>))"

definition restore_entity_precheck :: "'a slot_table_scheme \<Rightarrow> EntityID \<Rightarrow> bool" where
  "restore_entity_precheck w e \<longleftrightarrow>
     (if eid_is_deferred e then False
      else case slot_at w (index e) of
             None \<Rightarrow> False
           | Some slot \<Rightarrow>
               if \<not> alive slot then False
               else if slot_generation slot \<noteq> generation e then False
               else archetype_index slot = INVALID_ARCHETYPE)"

section \<open>The free chain\<close>

fun linked :: "EntitySlot list \<Rightarrow> u32 list \<Rightarrow> bool" where
  "linked slots [] = True"
| "linked slots [i] = (next_free (slots ! unat i) = i)"
| "linked slots (i # j # is) = (next_free (slots ! unat i) = j \<and> linked slots (j # is))"

definition dead_slots :: "EntitySlot list \<Rightarrow> nat set" where
  "dead_slots slots = {k. k < length slots \<and> \<not> alive (slots ! k)}"

definition chain_ok :: "'a slot_table_scheme \<Rightarrow> u32 list \<Rightarrow> bool" where
  "chain_ok w fs \<longleftrightarrow> distinct fs \<and> unat ` set fs = dead_slots (entity_slots w)
     \<and> linked (entity_slots w) fs \<and> (has_free w \<longleftrightarrow> fs \<noteq> []) \<and> (fs \<noteq> [] \<longrightarrow> first_free w = hd fs)"

definition generation_ok :: "u32 \<Rightarrow> bool" where
  "generation_ok g \<longleftrightarrow> 1 \<le> unat g \<and> unat g < 2 ^ 31"

definition table_inv :: "'a slot_table_scheme \<Rightarrow> bool" where
  "table_inv w \<longleftrightarrow> (\<exists>fs. chain_ok w fs) \<and> length (entity_slots w) \<le> 2 ^ 32
     \<and> (\<forall>slot \<in> set (entity_slots w). generation_ok (slot_generation slot))"

lemma unat_inj_iff [simp]: "unat (a :: 'w::len word) = unat b \<longleftrightarrow> a = b"
  by (auto intro: unsigned_word_eqI)

lemma deferred_iff: "g AND DEFERRED_GENERATION_BIT \<noteq> 0 \<longleftrightarrow> 2 ^ 31 \<le> unat (g :: u32)"
proof -
  have "g AND DEFERRED_GENERATION_BIT \<noteq> 0 \<longleftrightarrow> bit g 31"
  proof -
    have d: "DEFERRED_GENERATION_BIT = (2 :: u32) ^ 31" by (simp add: DEFERRED_GENERATION_BIT_def)
    show ?thesis unfolding d and_exp_eq_0_iff_not_bit by simp
  qed
  also have "\<dots> \<longleftrightarrow> bit (unat g) 31" by (simp only: bit_unsigned_iff) simp
  also have "\<dots> \<longleftrightarrow> odd (unat g div 2 ^ 31)" by (rule bit_iff_odd)
  also have "\<dots> \<longleftrightarrow> 2 ^ 31 \<le> unat g"
  proof -
    have "unat g div 2 ^ 31 < 2" using unsigned_less [of g, where ?'a = nat] by (simp add: div_less_iff_less_mult)
    then have "odd (unat g div 2 ^ 31) \<longleftrightarrow> unat g div 2 ^ 31 \<noteq> 0" by (cases "unat g div 2 ^ 31") auto
    then show ?thesis by (simp add: div_eq_0_iff not_less)
  qed
  finally show ?thesis .
qed

lemma generation_ok_next [simp]: "generation_ok (next_generation g)"
proof -
  define h where "h = g + 1"
  have "next_generation g = (if h = 0 \<or> 2 ^ 31 \<le> unat h then 1 else h)"
    unfolding next_generation_def deferred_iff h_def ..
  moreover have "h \<noteq> 0 \<Longrightarrow> 1 \<le> unat h" by (simp add: Suc_leI unat_gt_0)
  ultimately show ?thesis by (auto simp: generation_ok_def)
qed

lemma arr_get_uint:
  "arr_get xs (uint i) = (if unat i < length xs then Some (xs ! unat i) else None)"
  by (simp add: arr_get_def nat_less_iff flip: nat_uint_eq)

lemma slot_at_iff: "slot_at w i = Some slot \<longleftrightarrow> unat i < length (entity_slots w) \<and> slot = entity_slots w ! unat i"
  by (auto simp: slot_at_def arr_get_uint)

lemma slot_at_set [simp]:
  "slot_at (set_slot i slot w) j =
     (if i = j \<and> unat i < length (entity_slots w) then Some slot else slot_at w j)"
  by (auto simp: slot_at_def arr_get_uint set_slot_def nth_list_update)

lemma linked_update: "i \<notin> set fs \<Longrightarrow> linked (slots[unat i := slot]) fs = linked slots fs"
  by (induction slots fs rule: linked.induct) auto

lemma linked_append: "unat ` set fs \<subseteq> {..< length slots} \<Longrightarrow> linked (slots @ rest) fs = linked slots fs"
  by (induction slots fs rule: linked.induct) (auto simp: nth_append)

lemma linked_tail: "linked slots (i # fs) \<Longrightarrow> linked slots fs"
  by (cases fs) auto

lemma dead_update:
  "unat i < length slots \<Longrightarrow> dead_slots (slots[unat i := slot]) =
     (if alive slot then dead_slots slots - {unat i} else insert (unat i) (dead_slots slots))"
  by (auto simp: dead_slots_def nth_list_update)

lemma dead_append: "alive slot \<Longrightarrow> dead_slots (slots @ [slot]) = dead_slots slots"
  by (auto simp: dead_slots_def nth_append less_Suc_eq)

lemma chain_push:
  assumes "chain_ok w fs" "unat i < length (entity_slots w)" "alive (entity_slots w ! unat i)"
  shows "chain_ok (push_free i w) (i # fs)"
proof -
  have i: "i \<notin> set fs" using assms by (auto simp: chain_ok_def dead_slots_def)
  have at: "slot_at w i = Some (entity_slots w ! unat i)" using assms(2) by (simp add: slot_at_iff)
  show ?thesis
    using assms(1,2) i
    by (cases fs) (auto simp: chain_ok_def push_free_def at set_slot_def dead_update linked_update)
qed

lemma allocate_reused:
  assumes "chain_ok w (i # fs)"
  defines "slot \<equiv> entity_slots w ! unat i"
  shows "\<exists>w'. allocate_entity_slot w = Some (\<lparr>index = i, generation = next_generation (slot_generation slot)\<rparr>, w')
    \<and> chain_ok w' fs \<and> entity_slots w' = (entity_slots w)[unat i := slot\<lparr>alive := True, archetype_index := 0,
         chunk_index := 0, row := 0, immutable := False, slot_generation := next_generation (slot_generation slot)\<rparr>]"
proof -
  have at: "slot_at w i = Some slot" and i: "unat i < length (entity_slots w)"
    using assms by (auto simp: chain_ok_def dead_slots_def slot_at_iff)
  have nf: "next_free slot = (if fs = [] then i else hd fs)"
    using assms(1) by (cases fs) (auto simp: chain_ok_def slot_def)
  have "hd fs \<noteq> i" if "fs \<noteq> []" using assms(1) that by (cases fs) (auto simp: chain_ok_def)
  then show ?thesis
    using assms(1) at i nf
    by (auto simp: allocate_entity_slot_def chain_ok_def set_slot_def dead_update linked_update Let_def
        dest: linked_tail)
qed

lemma allocate_fresh:
  assumes "chain_ok w []" "length (entity_slots w) < 2 ^ 32"
  shows "\<exists>w'. allocate_entity_slot w = Some (\<lparr>index = of_nat (length (entity_slots w)), generation = 1\<rparr>, w')
    \<and> chain_ok w' [] \<and> entity_slots w' = entity_slots w @ [default_slot\<lparr>slot_generation := 1, alive := True\<rparr>]"
proof -
  have u: "unat (of_nat (length (entity_slots w)) :: u32) = length (entity_slots w)"
    using assms(2) by (simp add: unat_of_nat take_bit_nat_eq_self)
  show ?thesis
    using assms u
    by (auto simp: allocate_entity_slot_def chain_ok_def slot_at_iff dead_append Let_def
        slot_at_iff [THEN iffD2] split: option.splits)
qed

section \<open>The slot table is a source of identifiers\<close>

text \<open>The memory bound: an index is 32 bits wide, so a table of \<open>2 ^ 32\<close> slots cannot grow.\<close>

definition slot_alloc :: "'a slot_table_scheme \<Rightarrow> (u32 \<times> 'a slot_table_scheme) option" where
  "slot_alloc w =
     (if \<not> has_free w \<and> length (entity_slots w) \<ge> 2 ^ 32 then None
      else map_option (\<lambda>(e, w). (index e, w)) (allocate_entity_slot w))"

definition live_slots :: "'a slot_table_scheme \<Rightarrow> u32 set" where
  "live_slots w = {i. unat i < length (entity_slots w) \<and> alive (entity_slots w ! unat i)}"

lemma table_invE:
  assumes "table_inv w"
  obtains fs where "chain_ok w fs" "length (entity_slots w) \<le> 2 ^ 32"
    "\<forall>slot \<in> set (entity_slots w). generation_ok (slot_generation slot)"
  using assms by (auto simp: table_inv_def)

lemma slot_alloc_cases:
  assumes "table_inv w" "slot_alloc w = Some (i, w')"
  shows "(\<exists>slot. slot_at w i = Some slot \<and> \<not> alive slot \<and> entity_slots w' = (entity_slots w)[unat i :=
            slot\<lparr>alive := True, archetype_index := 0, chunk_index := 0, row := 0, immutable := False,
              slot_generation := next_generation (slot_generation slot)\<rparr>])
       \<or> (unat i = length (entity_slots w) \<and> length (entity_slots w) < 2 ^ 32 \<and>
            entity_slots w' = entity_slots w @ [default_slot\<lparr>slot_generation := 1, alive := True\<rparr>])"
      (is ?shape)
    and "\<exists>fs. chain_ok w' fs" (is ?chain)
proof -
  obtain fs where fs: "chain_ok w fs" "length (entity_slots w) \<le> 2 ^ 32"
    using assms(1) by (rule table_invE)
  have "?shape \<and> ?chain"
  proof (cases fs)
    case Nil
    then have lt: "length (entity_slots w) < 2 ^ 32"
      using assms(2) fs by (auto simp: slot_alloc_def chain_ok_def split: if_splits)
    then have "unat (of_nat (length (entity_slots w)) :: u32) = length (entity_slots w)"
      by (simp add: unat_of_nat take_bit_nat_eq_self)
    with allocate_fresh [of w] fs(1) Nil lt assms(2) show ?thesis
      by (auto simp: slot_alloc_def chain_ok_def split: if_splits)
  next
    case (Cons j js)
    then have "slot_at w j = Some (entity_slots w ! unat j)" "\<not> alive (entity_slots w ! unat j)"
      using fs(1) by (auto simp: slot_at_iff chain_ok_def dead_slots_def)
    with allocate_reused [of w j js] fs(1) Cons assms(2) show ?thesis
      by (auto simp: slot_alloc_def chain_ok_def split: if_splits)
  qed
  then show ?shape ?chain by simp_all
qed

lemma in_set_update: "x \<in> set (xs[i := y]) \<Longrightarrow> x = y \<or> x \<in> set xs"
  using set_update_subset_insert [of xs i y] by auto

lemma table_inv_alloc:
  assumes "table_inv w" "slot_alloc w = Some (i, w')"
  shows "table_inv w'"
  using slot_alloc_cases [OF assms] assms(1)
  by (auto simp: table_inv_def slot_at_iff generation_ok_def [of 1] dest!: in_set_update)

lemma push_free_slots:
  "unat i < length (entity_slots w) \<Longrightarrow> entity_slots (push_free i w) = (entity_slots w)[unat i :=
     (entity_slots w ! unat i)\<lparr>alive := False, next_free := (if has_free w then first_free w else i)\<rparr>]"
  by (simp add: push_free_def set_slot_def slot_at_iff [THEN iffD2])

lemma table_inv_push:
  assumes "table_inv w" "i \<in> live_slots w"
  shows "table_inv (push_free i w)"
proof -
  obtain fs where fs: "chain_ok w fs" using assms(1) by (rule table_invE)
  have i: "unat i < length (entity_slots w)" "alive (entity_slots w ! unat i)"
    using assms(2) by (simp_all add: live_slots_def)
  then have "generation_ok (slot_generation (entity_slots w ! unat i))"
    using assms(1) by (auto simp: table_inv_def)
  then have "\<forall>slot \<in> set (entity_slots (push_free i w)). generation_ok (slot_generation slot)"
    using assms(1) i by (auto simp: table_inv_def push_free_slots dest!: in_set_update)
  moreover have "\<exists>fs. chain_ok (push_free i w) fs" using chain_push [OF fs i] ..
  ultimately show ?thesis using assms(1) i by (simp add: table_inv_def push_free_slots)
qed

interpretation slots: id_source slot_alloc push_free live_slots table_inv
proof
  fix w w' :: "'a slot_table_scheme" and i
  assume inv: "table_inv w" and al: "slot_alloc w = Some (i, w')"
  show "table_inv w'" by (rule table_inv_alloc [OF inv al])
  show "i \<notin> live_slots w"
    using slot_alloc_cases(1) [OF inv al] by (auto simp: live_slots_def slot_at_iff)
  show "live_slots w' = insert i (live_slots w)"
    using slot_alloc_cases(1) [OF inv al]
  proof (elim disjE exE conjE)
    assume "unat i = length (entity_slots w)"
      "entity_slots w' = entity_slots w @ [default_slot\<lparr>slot_generation := 1, alive := True\<rparr>]"
    moreover from this(1) have "unat x = length (entity_slots w) \<longleftrightarrow> x = i" for x :: u32
      by (metis unat_inj_iff)
    moreover have "\<not> unat i < length (entity_slots w)" using \<open>unat i = length (entity_slots w)\<close> by simp
    ultimately show ?thesis by (auto simp: live_slots_def nth_append less_Suc_eq)
  qed (auto simp: live_slots_def slot_at_iff nth_list_update split: if_splits)
next
  fix w :: "'a slot_table_scheme" and i
  assume inv: "table_inv w" and i: "i \<in> live_slots w"
  show "table_inv (push_free i w)" by (rule table_inv_push [OF inv i])
  show "live_slots (push_free i w) = live_slots w - {i}"
    using i by (auto simp: live_slots_def push_free_slots nth_list_update split: if_splits)
qed

section \<open>Steps of the slot table\<close>

text \<open>
  Everything the World does to its slots: creating and reserving entities, dropping reservations,
  the tail of destroying a live entity, and placing an entity in a row of an archetype (which also
  covers moving it and stamping its immutability).
\<close>

inductive slot_step :: "'a slot_table_scheme \<Rightarrow> 'a slot_table_scheme \<Rightarrow> bool" where
  allocate: "has_free w \<or> length (entity_slots w) < 2 ^ 32 \<Longrightarrow> allocate_entity_slot w = Some (e, w') \<Longrightarrow>
    slot_step w w'"
| drop_reserved: "slot_step w (drop_reserved_slot e w)"
| destroy: "eid_is_alive w e \<Longrightarrow> slot_step w (push_free (index e) w)"
| place: "slot_at w i = Some slot \<Longrightarrow> alive slot \<Longrightarrow>
    slot_step w (set_slot i (slot\<lparr>archetype_index := a, chunk_index := c, row := r, immutable := b\<rparr>) w)"

inductive_cases slot_stepE: "slot_step w w'"

lemma alive_live: "eid_is_alive w e \<Longrightarrow> index e \<in> live_slots w"
  by (auto simp: eid_is_alive_def live_slots_def slot_at_iff split: if_splits option.splits)

lemma drop_reserved_cases:
  "drop_reserved_slot e w = w \<or> (index e \<in> live_slots w \<and> drop_reserved_slot e w = push_free (index e) w)"
  by (auto simp: drop_reserved_slot_def live_slots_def slot_at_iff split: option.splits)

lemma allocate_slot_alloc:
  "has_free w \<or> length (entity_slots w) < 2 ^ 32 \<Longrightarrow> allocate_entity_slot w = Some (e, w') \<Longrightarrow>
     slot_alloc w = Some (index e, w')"
  by (auto simp: slot_alloc_def)

lemma table_inv_place:
  assumes "table_inv w" "slot_at w i = Some slot" "alive slot"
    "alive slot'" "slot_generation slot' = slot_generation slot"
  shows "table_inv (set_slot i slot' w)"
proof -
  obtain fs where fs: "chain_ok w fs" using assms(1) by (rule table_invE)
  have i: "unat i < length (entity_slots w)" "slot = entity_slots w ! unat i"
    using assms(2) by (simp_all add: slot_at_iff)
  then have "i \<notin> set fs" "unat i \<notin> dead_slots (entity_slots w)"
    using fs assms(3) by (auto simp: chain_ok_def dead_slots_def)
  then have "chain_ok (set_slot i slot' w) fs"
    using fs i assms(4) by (simp add: chain_ok_def set_slot_def dead_update linked_update)
  moreover have "generation_ok (slot_generation slot')"
    using assms(1,5) i by (auto simp: table_inv_def)
  ultimately show ?thesis
    using assms(1) by (auto simp: table_inv_def set_slot_def dest!: in_set_update)
qed

lemma table_inv_step: "slot_step w w' \<Longrightarrow> table_inv w \<Longrightarrow> table_inv w'"
proof (induction rule: slot_step.induct)
  case (allocate w e w')
  then show ?case using table_inv_alloc [OF _ allocate_slot_alloc] by blast
next
  case (drop_reserved w e)
  then show ?case using drop_reserved_cases [of e w] table_inv_push by metis
next
  case (destroy w e)
  then show ?case using alive_live table_inv_push by blast
next
  case (place w i slot a c r b)
  then show ?case using table_inv_place [OF _ place(1,2)] by simp
qed

definition empty_table :: slot_table where
  "empty_table = \<lparr>entity_slots = [], first_free = 0, has_free = False, in_tick = False, in_apply_phase = False\<rparr>"

lemma table_inv_empty: "table_inv empty_table"
proof -
  have "chain_ok empty_table []" by (simp add: chain_ok_def empty_table_def dead_slots_def)
  then have "\<exists>fs. chain_ok empty_table fs" ..
  then show ?thesis by (simp add: table_inv_def empty_table_def)
qed

lemma table_inv_reachable: "slot_step\<^sup>*\<^sup>* empty_table w \<Longrightarrow> table_inv w"
  by (induction rule: rtranclp_induct) (auto intro: table_inv_step table_inv_empty)

text \<open>C30: In every reachable slot table the free chain visits exactly the dead slots, each once, and ends
  at a slot pointing to itself; every stored generation is neither zero nor a deferred one; and the
  next allocation does not fault while the table can still grow.\<close>

theorem slot_table_invariant:
  assumes "slot_step\<^sup>*\<^sup>* empty_table w"
  shows "(\<exists>fs. distinct fs \<and> unat ` set fs = dead_slots (entity_slots w) \<and> linked (entity_slots w) fs
        \<and> has_free w = (fs \<noteq> []) \<and> (fs \<noteq> [] \<longrightarrow> first_free w = hd fs))
    \<and> list_all (\<lambda>slot. 1 \<le> unat (slot_generation slot) \<and> unat (slot_generation slot) < 2 ^ 31) (entity_slots w)
    \<and> (length (entity_slots w) < 2 ^ 32 \<longrightarrow> allocate_entity_slot w \<noteq> None)"
proof -
  have inv: "table_inv w" by (rule table_inv_reachable [OF assms])
  obtain fs where fs: "chain_ok w fs"
    "\<forall>slot \<in> set (entity_slots w). generation_ok (slot_generation slot)" using inv by (rule table_invE)
  have "length (entity_slots w) < 2 ^ 32 \<Longrightarrow> allocate_entity_slot w \<noteq> None"
    using allocate_fresh [of w] allocate_reused [of w "hd fs" "tl fs"] fs(1) by (cases fs) auto
  then show ?thesis using fs by (auto simp: chain_ok_def list_all_iff generation_ok_def)
qed

theorem slot_table_invariant_witness:
  "\<exists>w. slot_step\<^sup>*\<^sup>* empty_table w \<and> length (entity_slots w) = 1 \<and> allocate_entity_slot w \<noteq> None"
proof -
  obtain w where w: "allocate_entity_slot empty_table = Some (\<lparr>index = 0, generation = 1\<rparr>, w)"
    "length (entity_slots w) = 1"
    by (auto simp: allocate_entity_slot_def empty_table_def slot_at_def arr_get_def default_slot_def)
  then have "slot_step empty_table w" using slot_step.allocate [of empty_table] by (simp add: empty_table_def)
  then have "slot_step\<^sup>*\<^sup>* empty_table w" by simp
  with slot_table_invariant [OF this] w(2) show ?thesis by auto
qed

section \<open>Handles\<close>

lemma mask_and: "(v AND 0xFFFFFFFF :: u64) = take_bit 32 v"
proof -
  have "(0xFFFFFFFF :: u64) = mask 32" by (simp add: mask_eq_exp_minus_1)
  then show ?thesis by (simp only: take_bit_eq_mask)
qed

text \<open>Packing an entity identifier into 64 bits loses nothing, in either direction.\<close>

theorem eid_uint64_roundtrip:
  "eid_from_uint64 (eid_to_uint64 e) = e \<and> eid_to_uint64 (eid_from_uint64 v) = v"
proof
  show "eid_from_uint64 (eid_to_uint64 e) = e"
    unfolding eid_from_uint64_def eid_to_uint64_def mask_and
    by (cases e) (auto simp: bit_eq_iff [where 'a = "32 word"] bit_simps dest: bit_imp_le_length)
  show "eid_to_uint64 (eid_from_uint64 v) = v"
    unfolding eid_from_uint64_def eid_to_uint64_def mask_and
    by (rule bit_word_eqI) (auto simp: bit_simps)
qed

text \<open>A run of the table that counts how often one slot is brought back to life.\<close>

definition is_dead :: "'a slot_table_scheme \<Rightarrow> u32 \<Rightarrow> bool" where
  "is_dead w i \<longleftrightarrow> (\<exists>slot. slot_at w i = Some slot \<and> \<not> alive slot)"

inductive reuse_run :: "u32 \<Rightarrow> nat \<Rightarrow> 'a slot_table_scheme \<Rightarrow> 'a slot_table_scheme \<Rightarrow> bool" for i where
  stop: "reuse_run i 0 w w"
| step: "reuse_run i n w v \<Longrightarrow> slot_step v u \<Longrightarrow>
    reuse_run i (if is_dead v i \<and> \<not> is_dead u i then Suc n else n) w u"

lemma next_generation_ok:
  "generation_ok g \<Longrightarrow> unat (next_generation g) = unat g mod (2 ^ 31 - 1) + 1"
proof -
  assume g: "generation_ok g"
  then have u: "unat (g + 1) = Suc (unat g)"
    by (simp add: unat_word_ariths generation_ok_def)
  have n: "next_generation g = (if g + 1 = 0 \<or> 2 ^ 31 \<le> unat (g + 1) then 1 else g + 1)"
    unfolding next_generation_def deferred_iff ..
  have nz: "g + 1 \<noteq> 0" using u by auto
  show ?thesis
  proof (cases "unat g = 2 ^ 31 - 1")
    case True
    then show ?thesis using n nz u by simp
  next
    case False
    then have "unat g < 2 ^ 31 - 1" using g by (simp add: generation_ok_def)
    then show ?thesis using n nz u by simp
  qed
qed

lemma next_generation_pow:
  assumes "generation_ok g"
  shows "generation_ok ((next_generation ^^ n) g)
    \<and> unat ((next_generation ^^ n) g) = (unat g - 1 + n) mod (2 ^ 31 - 1) + 1"
proof (induction n)
  case 0
  have "unat g - 1 < 2 ^ 31 - 1" "unat g - 1 + 1 = unat g"
    using assms unfolding generation_ok_def by linarith+
  then show ?case using assms by simp
next
  case (Suc n)
  let ?g = "(next_generation ^^ n) g"
  have "unat (next_generation ?g) = unat ?g mod (2 ^ 31 - 1) + 1"
    using Suc by (intro next_generation_ok) simp
  also have "unat ?g mod (2 ^ 31 - 1) = (unat g - 1 + Suc n) mod (2 ^ 31 - 1)"
    using Suc by (simp add: mod_Suc_eq)
  finally show ?case by simp
qed

lemma next_generation_cycle:
  assumes "generation_ok g" "(next_generation ^^ n) g = g"
  shows "(2 ^ 31 - 1) dvd n"
proof -
  let ?m = "2 ^ 31 - 1 :: nat"
  have g: "unat g - 1 < ?m" "unat g = unat g - 1 + 1"
    using assms(1) unfolding generation_ok_def by linarith+
  have "(unat g - 1 + n) mod ?m + 1 = unat g"
    using next_generation_pow [OF assms(1), of n, THEN conjunct2] unfolding assms(2) by (rule sym)
  then have "(unat g - 1 + n) mod ?m = unat g - 1" using g(2) by linarith
  then have "(unat g - 1 + n) mod ?m = (unat g - 1) mod ?m" using g(1) by simp
  then have "?m dvd unat g - 1 + n - (unat g - 1)" by (subst (asm) mod_eq_dvd_iff_nat) simp_all
  then show ?thesis by simp
qed

lemma slot_step_slot:
  assumes "slot_step v u" "table_inv v" "slot_at v i = Some s"
  shows "\<exists>s'. slot_at u i = Some s' \<and> slot_generation s' =
    (if \<not> alive s \<and> alive s' then next_generation (slot_generation s) else slot_generation s)"
  using assms
proof (induction rule: slot_step.induct)
  case (allocate w e w')
  have al: "slot_alloc w = Some (index e, w')" by (rule allocate_slot_alloc [OF allocate.hyps])
  from slot_alloc_cases(1) [OF allocate.prems(1) al] show ?case
    using allocate.prems(2)
    by (auto simp: slot_at_iff nth_list_update nth_append)
next
  case (drop_reserved w e)
  then show ?case using drop_reserved_cases [of e w]
    by (auto simp: slot_at_iff push_free_slots nth_list_update live_slots_def split: if_splits)
next
  case (destroy w e)
  then show ?case using alive_live [OF destroy(1)]
    by (auto simp: slot_at_iff push_free_slots nth_list_update live_slots_def)
next
  case (place w j slot a c r b)
  then show ?case by (auto simp: slot_at_iff)
qed

lemma reuse_run_slot:
  assumes "reuse_run i n w v" "table_inv w" "slot_at w i = Some s" "\<not> alive s"
  shows "\<exists>s'. slot_at v i = Some s' \<and> slot_generation s' = (next_generation ^^ n) (slot_generation s)
    \<and> (n = 0 \<longrightarrow> \<not> alive s') \<and> table_inv v"
  using assms
proof (induction rule: reuse_run.induct)
  case (stop w)
  then show ?case by simp
next
  case (step n w v u)
  then obtain s' where s': "slot_at v i = Some s'"
    "slot_generation s' = (next_generation ^^ n) (slot_generation s)" "n = 0 \<longrightarrow> \<not> alive s'" "table_inv v"
    by blast
  obtain t where t: "slot_at u i = Some t" "slot_generation t =
      (if \<not> alive s' \<and> alive t then next_generation (slot_generation s') else slot_generation s')"
    using slot_step_slot [OF step(2) s'(4,1)] by blast
  have "is_dead v i \<and> \<not> is_dead u i \<longleftrightarrow> \<not> alive s' \<and> alive t"
    using s'(1) t(1) by (simp add: is_dead_def)
  then show ?case using s' t table_inv_step [OF step(2) s'(4)] by auto
qed

text \<open>C31: Once an entity is destroyed its identifier is never alive again, whatever happens to the
  table, until its slot has been reused \<open>2 ^ 31 - 1\<close> times.\<close>

theorem stale_handle_dead:
  assumes "slot_step\<^sup>*\<^sup>* empty_table w" "eid_is_alive w e"
    and "reuse_run (index e) n (push_free (index e) w) v" "n < 2 ^ 31 - 1"
  shows "\<not> eid_is_alive v e"
proof
  assume al: "eid_is_alive v e"
  have inv: "table_inv w" by (rule table_inv_reachable [OF assms(1)])
  obtain s where s: "slot_at w (index e) = Some s" "alive s" "slot_generation s = generation e"
    using assms(2) by (auto simp: eid_is_alive_def split: if_splits option.splits)
  then have lt: "unat (index e) < length (entity_slots w)" by (simp add: slot_at_iff)
  then obtain d where d: "slot_at (push_free (index e) w) (index e) = Some d" "\<not> alive d"
    "slot_generation d = generation e"
    using s by (auto simp: slot_at_iff push_free_slots)
  have "s \<in> set (entity_slots w)" using s(1) by (simp add: slot_at_iff)
  then have g: "generation_ok (generation e)"
    using s(3) inv by (auto simp: table_inv_def)
  obtain t where t: "slot_at v (index e) = Some t" "slot_generation t = (next_generation ^^ n) (generation e)"
    "n = 0 \<longrightarrow> \<not> alive t"
    using reuse_run_slot [OF assms(3) table_inv_push [OF inv alive_live [OF assms(2)]] d(1,2)] d(3) by auto
  then have "alive t" "(next_generation ^^ n) (generation e) = generation e"
    using al by (auto simp: eid_is_alive_def split: if_splits)
  then have "n \<noteq> 0" "(2 ^ 31 - 1) dvd n" using t(3) next_generation_cycle [OF g] by auto
  then show False using assms(4) by (auto dest: dvd_imp_le)
qed

theorem stale_handle_dead_witness:
  "\<exists>(w :: slot_table) e. eid_is_alive w e \<and> \<not> eid_is_alive (push_free (index e) w) e"
proof -
  obtain w where w: "allocate_entity_slot empty_table = Some (\<lparr>index = 0, generation = 1\<rparr>, w)"
    "entity_slots w = [default_slot\<lparr>slot_generation := 1, alive := True\<rparr>]"
    by (auto simp: allocate_entity_slot_def empty_table_def slot_at_def arr_get_def default_slot_def)
  then have "slot_step empty_table w" using slot_step.allocate [of empty_table] by (simp add: empty_table_def)
  then have r: "slot_step\<^sup>*\<^sup>* empty_table w" by simp
  have a: "eid_is_alive w \<lparr>index = 0, generation = 1\<rparr>"
    by (simp add: eid_is_alive_def slot_at_iff [THEN iffD2] w(2) default_slot_def eid_is_deferred_def
        DEFERRED_GENERATION_BIT_def INVALID_ARCHETYPE_def)
  have "\<not> eid_is_alive (push_free 0 w) \<lparr>index = 0, generation = 1\<rparr>"
    using stale_handle_dead [OF r a reuse_run.stop] by simp
  then show ?thesis using a by (intro exI [of _ w] exI [of _ "\<lparr>index = 0, generation = 1\<rparr>"]) simp
qed

section \<open>Saving\<close>

definition is_reserved :: "EntitySlot \<Rightarrow> bool" where
  "is_reserved slot \<longleftrightarrow> alive slot \<and> archetype_index slot = INVALID_ARCHETYPE"

definition record_of :: "EntitySlot \<Rightarrow> SlotRecord" where
  "record_of slot = \<lparr>rec_generation = slot_generation slot,
     rec_immutable = (if alive slot then immutable slot else False)\<rparr>"

lemma record_slots_eq:
  "record_slots slots recs dead =
     (if list_ex is_reserved slots then None
      else Some (recs @ map record_of slots, dead + length (filter (\<lambda>s. \<not> alive s) slots)))"
  by (induction slots arbitrary: recs dead) (auto simp: is_reserved_def record_of_def)

lemma dead_count: "card (dead_slots slots) = length (filter (\<lambda>s. \<not> alive s) slots)"
  by (simp add: dead_slots_def length_filter_conv_card)

text \<open>The path the walk takes is determined by its first slot.\<close>

fun strict_path :: "EntitySlot list \<Rightarrow> u32 list \<Rightarrow> bool" where
  "strict_path slots [] = False"
| "strict_path slots [i] = (next_free (slots ! unat i) = i)"
| "strict_path slots (i # j # is) = (next_free (slots ! unat i) = j \<and> j \<noteq> i \<and> strict_path slots (j # is))"

lemma strict_path_unique:
  "strict_path slots fs \<Longrightarrow> strict_path slots gs \<Longrightarrow> hd fs = hd gs \<Longrightarrow> fs = gs"
proof (induction slots fs arbitrary: gs rule: strict_path.induct)
  case (2 slots i)
  then show ?case by (cases "(slots, gs)" rule: strict_path.cases) auto
next
  case (3 slots i j "is")
  then obtain ks where gs: "gs = i # j # ks" "strict_path slots (j # ks)"
    by (cases "(slots, gs)" rule: strict_path.cases) auto
  then show ?case using "3.IH" [of "j # ks"] "3.prems"(1) by simp
qed simp

lemma strict_path_suffix: "strict_path slots (xs @ y # ys) \<Longrightarrow> strict_path slots (y # ys)"
proof (induction xs)
  case (Cons x xs)
  then show ?case by (cases xs) auto
qed simp

lemma strict_path_distinct: "strict_path slots fs \<Longrightarrow> distinct fs"
proof (induction fs)
  case (Cons i "is")
  have "i \<notin> set is"
  proof
    assume "i \<in> set is"
    then obtain xs ys where "is": "is = xs @ i # ys" by (auto simp: in_set_conv_decomp)
    then have "strict_path slots (i # ys)" using strict_path_suffix [of slots "i # xs" i ys] Cons.prems by simp
    then have "i # is = i # ys" using Cons.prems by (intro strict_path_unique) simp_all
    then show False using "is" by simp
  qed
  moreover have "distinct is" using Cons strict_path_suffix [of slots "[i]" "hd is" "tl is"] by (cases "is") auto
  ultimately show ?case by simp
qed simp

lemma strict_path_iff: "strict_path slots fs \<longleftrightarrow> fs \<noteq> [] \<and> distinct fs \<and> linked slots fs"
proof
  assume p: "strict_path slots fs"
  moreover have "linked slots fs" using p by (induction slots fs rule: strict_path.induct) auto
  ultimately show "fs \<noteq> [] \<and> distinct fs \<and> linked slots fs" using strict_path_distinct by auto
next
  assume "fs \<noteq> [] \<and> distinct fs \<and> linked slots fs"
  then show "strict_path slots fs" by (induction slots fs rule: strict_path.induct) auto
qed

lemma walk_chain_follows:
  "strict_path slots fs \<Longrightarrow> unat ` set fs \<subseteq> dead_slots slots \<Longrightarrow> steps + length fs \<le> length slots \<Longrightarrow>
     walk_chain slots (hd fs) steps acc = Some (acc @ fs)"
proof (induction slots fs arbitrary: steps acc rule: strict_path.induct)
  case (2 slots i)
  then show ?case by (subst walk_chain.simps) (auto simp: dead_slots_def)
next
  case (3 slots i j "is")
  then show ?case by (subst walk_chain.simps) (auto simp: dead_slots_def)
qed simp

lemma walk_chain_sound:
  "walk_chain slots cur steps acc = Some r \<Longrightarrow>
     \<exists>fs. r = acc @ fs \<and> strict_path slots fs \<and> hd fs = cur \<and> unat ` set fs \<subseteq> dead_slots slots"
proof (induction slots cur steps acc arbitrary: r rule: walk_chain.induct)
  case (1 slots cur steps acc)
  define next' where "next' = next_free (slots ! unat cur)"
  have c: "\<not> (unat cur \<ge> length slots \<or> alive (slots ! unat cur) \<or> steps \<ge> length slots)"
    using "1.prems" by (subst (asm) walk_chain.simps) (auto split: if_splits)
  then have dead: "unat cur \<in> dead_slots slots" by (simp add: dead_slots_def)
  show ?case
  proof (cases "next' = cur")
    case True
    then have "r = acc @ [cur]" using "1.prems" c
      by (subst (asm) walk_chain.simps) (simp add: next'_def Let_def)
    then show ?thesis using True dead by (intro exI [of _ "[cur]"]) (simp add: next'_def)
  next
    case False
    then have "walk_chain slots next' (Suc steps) (acc @ [cur]) = Some r" using "1.prems" c
      by (subst (asm) walk_chain.simps) (simp add: next'_def Let_def)
    then obtain fs where fs: "r = (acc @ [cur]) @ fs" "strict_path slots fs" "hd fs = next'"
      "unat ` set fs \<subseteq> dead_slots slots" using "1.IH" [OF c next'_def False] by blast
    then obtain js where "fs = next' # js" by (cases fs) auto
    then show ?thesis using fs dead False by (intro exI [of _ "cur # fs"]) (simp add: next'_def)
  qed
qed

lemma finite_dead [simp]: "finite (dead_slots slots)"
  by (simp add: dead_slots_def)

lemma card_dead_le: "card (dead_slots slots) \<le> length slots"
  unfolding dead_count by (rule length_filter_le)

lemma walk_table_iff:
  "(if has_free w then walk_chain (entity_slots w) (first_free w) 0 [] else Some []) = Some fs
     \<and> length fs = length (filter (\<lambda>s. \<not> alive s) (entity_slots w)) \<longleftrightarrow> chain_ok w fs"
proof -
  have card: "distinct fs \<Longrightarrow> card (unat ` set fs) = length fs"
    by (simp add: card_image inj_on_def distinct_card)
  show ?thesis
  proof
    assume l: "(if has_free w then walk_chain (entity_slots w) (first_free w) 0 [] else Some []) = Some fs
     \<and> length fs = length (filter (\<lambda>s. \<not> alive s) (entity_slots w))"
    have p: "(has_free w \<longleftrightarrow> fs \<noteq> []) \<and> (fs \<noteq> [] \<longrightarrow> strict_path (entity_slots w) fs \<and> hd fs = first_free w)
      \<and> unat ` set fs \<subseteq> dead_slots (entity_slots w)"
      using l by (cases "has_free w") (auto dest!: walk_chain_sound)
    then have d: "distinct fs" "linked (entity_slots w) fs" using strict_path_iff by (cases "fs = []", auto)+
    have "unat ` set fs = dead_slots (entity_slots w)"
      using p l card [OF d(1)] dead_count [of "entity_slots w"] by (intro card_subset_eq) auto
    then show "chain_ok w fs" using p d by (auto simp: chain_ok_def)
  next
    assume c: "chain_ok w fs"
    then have "length fs = length (filter (\<lambda>s. \<not> alive s) (entity_slots w))"
      using card dead_count [of "entity_slots w"] by (auto simp: chain_ok_def)
    moreover from this have "length fs \<le> length (entity_slots w)" by simp
    then have "fs \<noteq> [] \<Longrightarrow> walk_chain (entity_slots w) (hd fs) 0 [] = Some ([] @ fs)"
      using c by (intro walk_chain_follows) (auto simp: strict_path_iff chain_ok_def)
    ultimately show "(if has_free w then walk_chain (entity_slots w) (first_free w) 0 [] else Some []) = Some fs
     \<and> length fs = length (filter (\<lambda>s. \<not> alive s) (entity_slots w))"
      using c by (auto simp: chain_ok_def)
  qed
qed

lemma snapshot_cases:
  "snapshot_identity w = (True, snap) \<longleftrightarrow>
     \<not> in_tick w \<and> \<not> list_ex is_reserved (entity_slots w) \<and> chain_ok w (snap_free_list snap)
     \<and> snap_slots snap = map record_of (entity_slots w)"
proof (cases "in_tick w \<or> list_ex is_reserved (entity_slots w)")
  case True
  then show ?thesis by (auto simp: snapshot_identity_def record_slots_eq)
next
  case False
  then show ?thesis
    by (cases snap)
      (auto simp: snapshot_identity_def record_slots_eq empty_snapshot_def simp flip: walk_table_iff
        split: option.splits if_splits)
qed

text \<open>C32: A snapshot is taken exactly when no tick is running, no slot is reserved and the free chain is
  intact: it visits every dead slot once and nothing else.  Every other chain is refused.\<close>

theorem snapshot_detects_corruption:
  "fst (snapshot_identity w) \<longleftrightarrow>
     \<not> in_tick w \<and> \<not> list_ex is_reserved (entity_slots w) \<and> (\<exists>fs. chain_ok w fs)"
proof
  assume "fst (snapshot_identity w)"
  then have "snapshot_identity w = (True, snd (snapshot_identity w))" by (metis prod.collapse)
  then show "\<not> in_tick w \<and> \<not> list_ex is_reserved (entity_slots w) \<and> (\<exists>fs. chain_ok w fs)"
    using snapshot_cases [of w] by blast
next
  assume "\<not> in_tick w \<and> \<not> list_ex is_reserved (entity_slots w) \<and> (\<exists>fs. chain_ok w fs)"
  then obtain fs where "\<not> in_tick w" "\<not> list_ex is_reserved (entity_slots w)" "chain_ok w fs" by blast
  then have "snapshot_identity w = (True, \<lparr>snap_slots = map record_of (entity_slots w), snap_free_list = fs\<rparr>)"
    unfolding snapshot_cases by simp
  then show "fst (snapshot_identity w)" by simp
qed

section \<open>Loading\<close>

lemma free_list_ok_iff:
  "length seen = n \<Longrightarrow> free_list_ok n seen fs \<longleftrightarrow>
     distinct fs \<and> (\<forall>i \<in> set fs. unat i < n \<and> \<not> seen ! unat i)"
proof (induction fs arbitrary: seen)
  case (Cons i fs)
  show ?case
  proof (cases "unat i < n")
    case True
    then have "free_list_ok n (seen[unat i := True]) fs \<longleftrightarrow>
        distinct fs \<and> (\<forall>j \<in> set fs. unat j < n \<and> \<not> (seen[unat i := True]) ! unat j)"
      using Cons by simp
    then show ?thesis using True Cons.prems by (auto simp: nth_list_update split: if_splits)
  qed simp
qed simp

lemma thread_chain_length [simp]: "length (thread_chain fs slots) = length slots"
  by (induction fs slots rule: thread_chain.induct) simp_all

lemma thread_chain_other: "k \<notin> unat ` set fs \<Longrightarrow> thread_chain fs slots ! k = slots ! k"
  by (induction fs slots rule: thread_chain.induct) auto

lemma thread_chain_generations:
  "map slot_generation (thread_chain fs slots) = map slot_generation slots"
proof (induction fs slots rule: thread_chain.induct)
  case (2 i "is" slots)
  have "map slot_generation (slots[n := (slots ! n)\<lparr>alive := False, immutable := False,
      archetype_index := 0, next_free := x\<rparr>]) = map slot_generation slots" for n x
    by (cases "n < length slots") (simp_all add: map_update list_update_same_conv list_update_beyond)
  then show ?case using 2 by simp
qed simp

lemma thread_chain_dead:
  "distinct fs \<Longrightarrow> \<forall>i \<in> set fs. unat i < length slots \<Longrightarrow>
     dead_slots (thread_chain fs slots) = unat ` set fs \<union> dead_slots slots"
  by (induction fs slots rule: thread_chain.induct) (auto simp: dead_update)

lemma thread_chain_linked:
  "distinct fs \<Longrightarrow> \<forall>i \<in> set fs. unat i < length slots \<Longrightarrow> linked (thread_chain fs slots) fs"
proof (induction fs slots rule: thread_chain.induct)
  case (2 i "is" slots)
  define slots' where "slots' = slots[unat i := (slots ! unat i)\<lparr>alive := False, immutable := False,
    archetype_index := 0, next_free := (if is \<noteq> [] then hd is else i)\<rparr>]"
  define X where "X = thread_chain is slots'"
  have "unat i \<notin> unat ` set is" using "2.prems"(1) by auto
  then have "X ! unat i = slots' ! unat i" unfolding X_def by (rule thread_chain_other)
  then have "next_free (X ! unat i) = (if is \<noteq> [] then hd is else i)"
    using "2.prems"(2) by (simp add: slots'_def)
  moreover have "linked X is" using 2 by (simp add: slots'_def X_def)
  ultimately have "linked X (i # is)" by (cases "is") simp_all
  then show ?case by (simp add: X_def slots'_def)
qed simp

lemma dead_restored [simp]: "dead_slots (map restored_slot recs) = {}"
  by (auto simp: dead_slots_def restored_slot_def)

lemma restore_identity_ok:
  assumes "\<not> in_tick w" "entity_slots w = []" "list_all (\<lambda>r. generation_ok (rec_generation r)) (snap_slots snap)"
    "distinct (snap_free_list snap)" "\<forall>i \<in> set (snap_free_list snap). unat i < length (snap_slots snap)"
  shows "\<exists>w'. restore_identity snap w = (True, w') \<and> chain_ok w' (snap_free_list snap)
    \<and> map slot_generation (entity_slots w') = map rec_generation (snap_slots snap)
    \<and> (\<forall>i. unat i < length (entity_slots w') \<longrightarrow> i \<notin> set (snap_free_list snap) \<longrightarrow>
          entity_slots w' ! unat i = restored_slot (snap_slots snap ! unat i))"
proof -
  let ?n = "length (snap_slots snap)"
  have gen: "\<not> list_ex (\<lambda>r. rec_generation r = 0 \<or> rec_generation r AND DEFERRED_GENERATION_BIT \<noteq> 0) (snap_slots snap)"
    using assms(3) unfolding deferred_iff by (auto simp: list_ex_iff list_all_iff generation_ok_def)
  have fl: "free_list_ok ?n (replicate ?n False) (snap_free_list snap)"
    using assms(4,5) by (simp add: free_list_ok_iff)
  have "map slot_generation (map restored_slot (snap_slots snap)) = map rec_generation (snap_slots snap)"
    by (simp add: restored_slot_def)
  then show ?thesis
    using assms gen fl thread_chain_dead [OF assms(4), of "map restored_slot (snap_slots snap)"]
      thread_chain_linked [OF assms(4), of "map restored_slot (snap_slots snap)"]
    by (auto simp: restore_identity_def chain_ok_def thread_chain_generations thread_chain_other image_iff)
qed

text \<open>Two tables with the same identities: the same free chain and the same generations.\<close>

definition same_identity :: "'a slot_table_scheme \<Rightarrow> 'b slot_table_scheme \<Rightarrow> bool" where
  "same_identity w v \<longleftrightarrow> (\<exists>fs. chain_ok w fs \<and> chain_ok v fs)
     \<and> map slot_generation (entity_slots w) = map slot_generation (entity_slots v)"

lemma same_identity_slots:
  assumes "same_identity w v"
  shows "length (entity_slots w) = length (entity_slots v)"
    "k < length (entity_slots w) \<Longrightarrow> slot_generation (entity_slots w ! k) = slot_generation (entity_slots v ! k)"
    "dead_slots (entity_slots w) = dead_slots (entity_slots v)"
proof -
  have gens: "map slot_generation (entity_slots w) = map slot_generation (entity_slots v)"
    using assms by (simp add: same_identity_def)
  then show len: "length (entity_slots w) = length (entity_slots v)" by (rule map_eq_imp_length_eq)
  show "slot_generation (entity_slots w ! k) = slot_generation (entity_slots v ! k)"
    if "k < length (entity_slots w)"
    using arg_cong [OF gens, of "\<lambda>xs. xs ! k"] that len by simp
  show "dead_slots (entity_slots w) = dead_slots (entity_slots v)"
    using assms by (auto simp: same_identity_def chain_ok_def)
qed

lemma same_identity_push:
  assumes "same_identity w v" "i \<in> live_slots w"
  shows "i \<in> live_slots v \<and> same_identity (push_free i w) (push_free i v)"
proof -
  obtain fs where fs: "chain_ok w fs" "chain_ok v fs" using assms(1) by (auto simp: same_identity_def)
  note same = same_identity_slots [OF assms(1)]
  have i: "unat i < length (entity_slots w)" "alive (entity_slots w ! unat i)"
    using assms(2) by (simp_all add: live_slots_def)
  then have j: "unat i < length (entity_slots v)" "alive (entity_slots v ! unat i)"
    using same(1,3) by (auto simp: dead_slots_def set_eq_iff)
  show ?thesis
    using chain_push [OF fs(1) i] chain_push [OF fs(2) j] j assms(1) i same(2) [OF i(1)]
    by (auto simp: live_slots_def same_identity_def push_free_slots map_update list_update_same_conv)
qed

lemma same_identity_alloc:
  assumes "same_identity w v" "has_free w \<or> length (entity_slots w) < 2 ^ 32"
  shows "\<exists>e w' v'. allocate_entity_slot w = Some (e, w') \<and> allocate_entity_slot v = Some (e, v')
    \<and> same_identity w' v'"
proof -
  obtain fs where fs: "chain_ok w fs" "chain_ok v fs" using assms(1) by (auto simp: same_identity_def)
  note same = same_identity_slots [OF assms(1)]
  have gens: "map slot_generation (entity_slots w) = map slot_generation (entity_slots v)"
    using assms(1) by (simp add: same_identity_def)
  show ?thesis
  proof (cases fs)
    case Nil
    then have "length (entity_slots w) < 2 ^ 32" using assms(2) fs by (simp add: chain_ok_def)
    then show ?thesis
      using allocate_fresh [of w] allocate_fresh [of v] fs Nil same(1) gens
      by (auto simp: same_identity_def)
  next
    case (Cons i js)
    then have i: "unat i < length (entity_slots w)"
      using fs(1) by (auto simp: chain_ok_def dead_slots_def)
    then show ?thesis
      using allocate_reused [of w i js] allocate_reused [of v i js] fs Cons same(2) [OF i] gens
      by (auto simp: same_identity_def map_update)
  qed
qed

text \<open>
  What a simulation asks of the slots: \<^const>\<open>None\<close> allocates, \<^term>\<open>Some i\<close> frees a live slot.  The
  result is the identifiers handed out; freeing a slot that is not live, or growing past the index
  width, stops the run.
\<close>

fun slot_requests :: "u32 option list \<Rightarrow> 'a slot_table_scheme \<Rightarrow> EntityID list option" where
  "slot_requests [] w = Some []"
| "slot_requests (None # rs) w =
     (if has_free w \<or> length (entity_slots w) < 2 ^ 32 then do {
        (e, w) \<leftarrow> allocate_entity_slot w; es \<leftarrow> slot_requests rs w; Some (e # es) }
      else None)"
| "slot_requests (Some i # rs) w =
     (if i \<in> live_slots w then slot_requests rs (push_free i w) else None)"

lemma has_free_same: "same_identity w v \<Longrightarrow> has_free w = has_free v"
  by (auto simp: same_identity_def chain_ok_def)

lemma live_same: "same_identity w v \<Longrightarrow> live_slots w = live_slots v"
  using same_identity_slots [of w v] by (auto simp: live_slots_def dead_slots_def set_eq_iff)

lemma same_identity_requests:
  "same_identity w v \<Longrightarrow> slot_requests rs w = slot_requests rs v"
proof (induction rs arbitrary: w v)
  case (Cons r rs)
  show ?case
  proof (cases r)
    case None
    have side: "has_free w \<or> length (entity_slots w) < 2 ^ 32 \<longleftrightarrow> has_free v \<or> length (entity_slots v) < 2 ^ 32"
      using has_free_same [OF Cons.prems] same_identity_slots(1) [OF Cons.prems] by simp
    show ?thesis
    proof (cases "has_free w \<or> length (entity_slots w) < 2 ^ 32")
      case True
      obtain e w' v' where a: "allocate_entity_slot w = Some (e, w')" "allocate_entity_slot v = Some (e, v')"
        "same_identity w' v'" using same_identity_alloc [OF Cons.prems True] by blast
      show ?thesis unfolding None slot_requests.simps
        using side True a(1,2) Cons.IH [OF a(3)] by simp
    qed (use None side in simp)
  next
    case (Some i)
    show ?thesis unfolding Some slot_requests.simps live_same [OF Cons.prems, symmetric]
      using Cons.IH same_identity_push [OF Cons.prems] by simp
  qed
qed simp

text \<open>C33: Loading a saved table into a fresh world succeeds, leaves every live slot reserved under its old
  generation and immutability, and from then on the world hands out the same identifiers as the
  world that was never saved, for every sequence of allocations and frees.\<close>

theorem load_continues_identically:
  assumes "slot_step\<^sup>*\<^sup>* empty_table w" "snapshot_identity w = (True, snap)"
    and "\<not> in_tick fresh" "entity_slots fresh = []"
  shows "\<exists>v. restore_identity snap fresh = (True, v)
    \<and> live_slots v = live_slots w
    \<and> (\<forall>e. eid_is_alive w e \<longrightarrow> restore_entity_precheck v e \<and> \<not> eid_is_alive v e)
    \<and> (\<forall>rs. slot_requests rs v = slot_requests rs w)"
proof -
  have inv: "table_inv w" by (rule table_inv_reachable [OF assms(1)])
  have snap: "chain_ok w (snap_free_list snap)" "snap_slots snap = map record_of (entity_slots w)"
    using assms(2) by (simp_all add: snapshot_cases)
  have gens: "list_all (\<lambda>r. generation_ok (rec_generation r)) (snap_slots snap)"
    using inv snap(2) by (auto simp: table_inv_def list_all_iff record_of_def)
  have fl: "distinct (snap_free_list snap)" "\<forall>i \<in> set (snap_free_list snap). unat i < length (snap_slots snap)"
    using snap by (auto simp: chain_ok_def dead_slots_def)
  obtain v where v: "restore_identity snap fresh = (True, v)" "chain_ok v (snap_free_list snap)"
    "map slot_generation (entity_slots v) = map rec_generation (snap_slots snap)"
    "\<forall>i. unat i < length (entity_slots v) \<longrightarrow> i \<notin> set (snap_free_list snap) \<longrightarrow>
       entity_slots v ! unat i = restored_slot (snap_slots snap ! unat i)"
    using restore_identity_ok [OF assms(3,4) gens fl] by blast
  have same: "same_identity v w"
    using v(2,3) snap by (auto simp: same_identity_def record_of_def comp_def)
  have "restore_entity_precheck v e \<and> \<not> eid_is_alive v e" if "eid_is_alive w e" for e
  proof -
    have l: "index e \<in> live_slots w" by (rule alive_live [OF that])
    then have i: "unat (index e) < length (entity_slots w)" "index e \<notin> set (snap_free_list snap)"
      using snap(1) by (auto simp: live_slots_def chain_ok_def dead_slots_def)
    moreover have "unat (index e) < length (entity_slots v)" using i(1) same_identity_slots(1) [OF same] by simp
    ultimately have "slot_at v (index e) = Some (restored_slot (record_of (entity_slots w ! unat (index e))))"
      using v(4) snap(2) by (simp add: slot_at_iff)
    moreover have "slot_at w (index e) = Some (entity_slots w ! unat (index e))"
      using i(1) by (simp add: slot_at_iff)
    ultimately show ?thesis using that
      by (auto simp: restore_entity_precheck_def eid_is_alive_def restored_slot_def record_of_def
          split: if_splits)
  qed
  then show ?thesis using v(1) live_same [OF same] same_identity_requests [OF same] by blast
qed

theorem load_continues_identically_witness:
  "\<exists>v. restore_identity \<lparr>snap_slots = [\<lparr>rec_generation = 1, rec_immutable = False\<rparr>], snap_free_list = []\<rparr>
        empty_table = (True, v)
    \<and> slot_requests [None, Some 0, None] v
      = slot_requests [None, Some 0, None]
          (empty_table\<lparr>entity_slots := [default_slot\<lparr>slot_generation := 1, alive := True\<rparr>]\<rparr>)"
proof -
  define w where "w = empty_table\<lparr>entity_slots := [default_slot\<lparr>slot_generation := 1, alive := True\<rparr>]\<rparr>"
  have a: "allocate_entity_slot empty_table = Some (\<lparr>index = 0, generation = 1\<rparr>, w)"
    by (simp add: allocate_entity_slot_def empty_table_def slot_at_def arr_get_def default_slot_def w_def)
  have "slot_step empty_table w" using slot_step.allocate [OF _ a] by (simp add: empty_table_def)
  then have r: "slot_step\<^sup>*\<^sup>* empty_table w" by simp
  have snap: "snapshot_identity w =
    (True, \<lparr>snap_slots = [\<lparr>rec_generation = 1, rec_immutable = False\<rparr>], snap_free_list = []\<rparr>)"
    by (simp add: snapshot_identity_def w_def empty_table_def default_slot_def INVALID_ARCHETYPE_def)
  have "\<not> in_tick empty_table" "entity_slots empty_table = []" by (simp_all add: empty_table_def)
  from load_continues_identically [OF r snap this] show ?thesis unfolding w_def by blast
qed

end
