(* ===== verification/Archetype_Store.thy ===== *)
theory Archetype_Store
  imports Chunk_Pool Entity_Slots
begin

text \<open>
  \<open>src/openvic-simulation/ecs/Archetype.hpp\<close>, \<open>ecs/Chunk.hpp\<close> and the layout part of
  \<open>ecs/World.cpp\<close>: the storage of the entities that share one sorted component signature.

  A chunk is its block and the rows that are in use (\<open>count\<close> is their number); a row is the entity
  identifier and one cell per column, each raw memory (\<^const>\<open>None\<close>) or a constructed value of the
  abstract type \<open>'v\<close>.  The operations of the vtables are moves and destructions of cells; moving out
  of or destroying raw memory, constructing over a live value and dropping a row with live values
  are lifetime errors, the result \<^const>\<open>None\<close>.  Sizes are natural numbers.
\<close>

section \<open>Layout\<close>

type_synonym component_type_id_t = u64

record ColumnVTable =
  vt_size :: nat
  vt_align :: nat

definition CHUNK_BLOCK_BYTES :: nat where "CHUNK_BLOCK_BYTES = 16 * 1024"
definition SIZEOF_ENTITY_ID :: nat where "SIZEOF_ENTITY_ID = 8"
definition NO_COLUMN_OFFSET :: nat where "NO_COLUMN_OFFSET = 2 ^ 64 - 1"

text \<open>The alignment of the code, \<open>(offset + align - 1) & ~(align - 1)\<close> on 64 bits.\<close>

definition align_up :: "nat \<Rightarrow> nat \<Rightarrow> nat" where
  "align_up offset a = unat ((of_nat (offset + a - 1) :: u64) AND NOT (of_nat (a - 1)))"

fun layout_columns :: "nat \<Rightarrow> ColumnVTable list \<Rightarrow> nat \<Rightarrow> nat list \<times> nat" where
  "layout_columns cap [] offset = ([], offset)"
| "layout_columns cap (vt # vts) offset =
     (if vt_size vt = 0 then
        (let (offs, total_bytes) = layout_columns cap vts offset in (NO_COLUMN_OFFSET # offs, total_bytes))
      else
        (let start = (if vt_align vt > 1 then align_up offset (vt_align vt) else offset);
             (offs, total_bytes) = layout_columns cap vts (start + cap * vt_size vt)
         in (start # offs, total_bytes)))"

definition layout_at_capacity :: "ColumnVTable list \<Rightarrow> nat \<Rightarrow> nat list \<times> nat" where
  "layout_at_capacity vts cap = layout_columns cap vts (cap * SIZEOF_ENTITY_ID)"

fun bytes_per_row :: "ColumnVTable list \<Rightarrow> nat" where
  "bytes_per_row [] = SIZEOF_ENTITY_ID"
| "bytes_per_row (vt # vts) = bytes_per_row vts + (if vt_size vt = 0 then 0 else vt_size vt)"

fun align_overhead :: "ColumnVTable list \<Rightarrow> nat" where
  "align_overhead [] = 0"
| "align_overhead (vt # vts) =
     align_overhead vts + (if vt_size vt = 0 then 0 else if vt_align vt > 0 then vt_align vt - 1 else 0)"

function back_off :: "ColumnVTable list \<Rightarrow> nat \<Rightarrow> nat" where
  "back_off vts cap =
     (if snd (layout_at_capacity vts cap) > CHUNK_BLOCK_BYTES \<and> cap > 1 then back_off vts (cap - 1) else cap)"
  by auto
termination by (relation "measure snd") auto

declare back_off.simps [simp del]

text \<open>The capacity and the column offsets.\<close>

definition compute_chunk_layout :: "ColumnVTable list \<Rightarrow> nat \<times> nat list" where
  "compute_chunk_layout vts =
     (let usable = (if CHUNK_BLOCK_BYTES > align_overhead vts then CHUNK_BLOCK_BYTES - align_overhead vts
                    else CHUNK_BLOCK_BYTES);
          capacity = back_off vts (max 1 (usable div bytes_per_row vts))
      in (capacity, fst (layout_at_capacity vts capacity)))"

section \<open>Archetypes\<close>

record 'v Row =
  row_entity :: "EntityID option"
  row_cells :: "'v option list"

record 'v DataChunk =
  chunk_block :: nat
  chunk_rows :: "'v Row list"

record 'v Archetype =
  signature :: "component_type_id_t list"
  vtables :: "ColumnVTable list"
  column_offsets :: "nat list"
  column_versions :: "u64 list"
  chunk_capacity :: nat
  total_entity_count :: nat
  chunks :: "'v DataChunk list"
  matcher_hash :: u64

definition chunk_count :: "'v DataChunk \<Rightarrow> nat" where
  "chunk_count c = length (chunk_rows c)"

text \<open>\<^const>\<open>None\<close> is \<open>NO_COLUMN_INDEX\<close>.\<close>

fun column_index_loop :: "component_type_id_t list \<Rightarrow> component_type_id_t \<Rightarrow> nat \<Rightarrow> nat option" where
  "column_index_loop [] cid i = None"
| "column_index_loop (s # ss) cid i = (if s = cid then Some i else column_index_loop ss cid (Suc i))"

definition column_index_for :: "'v Archetype \<Rightarrow> component_type_id_t \<Rightarrow> nat option" where
  "column_index_for a cid = column_index_loop (signature a) cid 0"

definition arch_has_component :: "'v Archetype \<Rightarrow> component_type_id_t \<Rightarrow> bool" where
  "arch_has_component a cid \<longleftrightarrow> column_index_for a cid \<noteq> None"

text \<open>The two merges over sorted lists: required ids first, signature second.\<close>

fun matches_all :: "component_type_id_t list \<Rightarrow> component_type_id_t list \<Rightarrow> bool" where
  "matches_all [] sig = True"
| "matches_all (r # rs) [] = False"
| "matches_all (r # rs) (s # ss) =
     (if r = s then matches_all rs ss else if s < r then matches_all (r # rs) ss else False)"

fun matches_none :: "component_type_id_t list \<Rightarrow> component_type_id_t list \<Rightarrow> bool" where
  "matches_none [] sig = True"
| "matches_none (e # es) [] = True"
| "matches_none (e # es) (s # ss) =
     (if e = s then False else if s < e then matches_none (e # es) ss else matches_none es (s # ss))"

definition compute_matcher_hash :: "component_type_id_t list \<Rightarrow> u64" where
  "compute_matcher_hash sig = foldl (\<lambda>mask cid. mask OR push_bit (unat (cid mod 63)) 1) 0 sig"

definition raw_row :: "'v Archetype \<Rightarrow> 'v Row" where
  "raw_row a = \<lparr>row_entity = None, row_cells = replicate (length (signature a)) None\<rparr>"

record RowLocation =
  loc_chunk :: nat
  loc_row :: nat

definition allocate_chunk :: "'v Archetype \<Rightarrow> ChunkPool \<Rightarrow> 'v Archetype \<times> ChunkPool" where
  "allocate_chunk a p =
     (let (block, p) = pool_acquire p
      in (a\<lparr>chunks := chunks a @ [\<lparr>chunk_block = block, chunk_rows = []\<rparr>]\<rparr>, p))"

definition drop_empty_trailing_chunk :: "'v Archetype \<Rightarrow> ChunkPool \<Rightarrow> 'v Archetype \<times> ChunkPool" where
  "drop_empty_trailing_chunk a p =
     (if chunks a = [] \<or> chunk_count (last (chunks a)) \<noteq> 0 then (a, p)
      else (a\<lparr>chunks := butlast (chunks a)\<rparr>, pool_release (Some (chunk_block (last (chunks a)))) p))"

definition needs_chunk :: "'v Archetype \<Rightarrow> bool" where
  "needs_chunk a \<longleftrightarrow> chunks a = [] \<or> chunk_count (last (chunks a)) \<ge> chunk_capacity a"

text \<open>Growing the last chunk by raw rows.\<close>

definition add_raw_rows :: "nat \<Rightarrow> 'v Archetype \<Rightarrow> 'v Archetype" where
  "add_raw_rows n a =
     a\<lparr>chunks := butlast (chunks a)
         @ [(last (chunks a))\<lparr>chunk_rows := chunk_rows (last (chunks a)) @ replicate n (raw_row a)\<rparr>]\<rparr>"

definition bump_versions :: "u64 \<Rightarrow> 'v Archetype \<Rightarrow> 'v Archetype" where
  "bump_versions n a = a\<lparr>column_versions := map (\<lambda>v. v + n) (column_versions a)\<rparr>"

definition reserve_row :: "'v Archetype \<Rightarrow> ChunkPool \<Rightarrow> RowLocation \<times> 'v Archetype \<times> ChunkPool" where
  "reserve_row a p =
     (let (a, p) = (if needs_chunk a then allocate_chunk a p else (a, p));
          c = length (chunks a) - 1;
          r = chunk_count (chunks a ! c);
          a = add_raw_rows 1 a;
          a = a\<lparr>total_entity_count := total_entity_count a + 1\<rparr>
      in (\<lparr>loc_chunk = c, loc_row = r\<rparr>, bump_versions 1 a, p))"

record RowRange =
  range_chunk :: nat
  range_begin :: nat
  range_count :: nat

text \<open>The bulk loop; \<^const>\<open>None\<close> is the loop that never ends, when the capacity is zero.\<close>

function reserve_rows_loop ::
    "nat \<Rightarrow> 'v Archetype \<Rightarrow> ChunkPool \<Rightarrow> RowRange list \<Rightarrow> (RowRange list \<times> 'v Archetype \<times> ChunkPool) option" where
  "reserve_rows_loop remaining a p out =
     (if remaining = 0 then Some (out, a, p)
      else
        let (a, p) = (if needs_chunk a then allocate_chunk a p else (a, p));
            c = length (chunks a) - 1;
            row_begin = chunk_count (chunks a ! c);
            taken = min remaining (chunk_capacity a - row_begin)
        in if taken = 0 then None
           else reserve_rows_loop (remaining - taken) (add_raw_rows taken a) p
                  (out @ [\<lparr>range_chunk = c, range_begin = row_begin, range_count = taken\<rparr>]))"
  by auto
termination by (relation "measure fst") auto

declare reserve_rows_loop.simps [simp del]

definition reserve_rows ::
    "nat \<Rightarrow> 'v Archetype \<Rightarrow> ChunkPool \<Rightarrow> (RowRange list \<times> 'v Archetype \<times> ChunkPool) option" where
  "reserve_rows n a p =
     (if n = 0 then Some ([], a, p)
      else do {
        (out, a, p) \<leftarrow> reserve_rows_loop n a p [];
        Some (out, bump_versions (of_nat (length out)) (a\<lparr>total_entity_count := total_entity_count a + n\<rparr>), p) })"

section \<open>Rows and cells\<close>

definition get_row :: "'v Archetype \<Rightarrow> RowLocation \<Rightarrow> 'v Row option" where
  "get_row a l =
     (if loc_chunk l < length (chunks a) \<and> loc_row l < chunk_count (chunks a ! loc_chunk l)
      then Some (chunk_rows (chunks a ! loc_chunk l) ! loc_row l) else None)"

definition set_row :: "RowLocation \<Rightarrow> 'v Row \<Rightarrow> 'v Archetype \<Rightarrow> 'v Archetype" where
  "set_row l r a =
     a\<lparr>chunks := (chunks a)[loc_chunk l := (chunks a ! loc_chunk l)
         \<lparr>chunk_rows := (chunk_rows (chunks a ! loc_chunk l))[loc_row l := r]\<rparr>]\<rparr>"

text \<open>One \<open>move_construct\<close> per column that has a slab: from the source cells into raw cells.\<close>

fun move_cells :: "nat list \<Rightarrow> 'v option list \<Rightarrow> 'v option list \<Rightarrow> ('v option list \<times> 'v option list) option" where
  "move_cells (offset # offs) (d # ds) (s # ss) =
     (if offset = NO_COLUMN_OFFSET
      then map_option (\<lambda>(ds, ss). (d # ds, s # ss)) (move_cells offs ds ss)
      else case (d, s) of
             (None, Some v) \<Rightarrow> map_option (\<lambda>(ds, ss). (Some v # ds, None # ss)) (move_cells offs ds ss)
           | _ \<Rightarrow> None)"
| "move_cells [] [] [] = Some ([], [])"
| "move_cells _ _ _ = None"

text \<open>One \<open>destroy\<close> per column that has a slab.\<close>

fun destroy_cells :: "nat list \<Rightarrow> 'v option list \<Rightarrow> 'v option list option" where
  "destroy_cells (offset # offs) (c # cs) =
     (if offset = NO_COLUMN_OFFSET then map_option ((#) c) (destroy_cells offs cs)
      else case c of None \<Rightarrow> None | Some v \<Rightarrow> map_option ((#) None) (destroy_cells offs cs))"
| "destroy_cells [] [] = Some []"
| "destroy_cells _ _ = None"

definition last_row_location :: "'v Archetype \<Rightarrow> RowLocation" where
  "last_row_location a =
     \<lparr>loc_chunk = length (chunks a) - 1, loc_row = chunk_count (last (chunks a)) - 1\<rparr>"

text \<open>Dropping the last row and, when it was the only one of its chunk, the chunk.\<close>

definition pop_row :: "'v Archetype \<Rightarrow> ChunkPool \<Rightarrow> 'v Archetype \<times> ChunkPool" where
  "pop_row a p = drop_empty_trailing_chunk
     (a\<lparr>chunks := butlast (chunks a) @ [(last (chunks a))\<lparr>chunk_rows := butlast (chunk_rows (last (chunks a)))\<rparr>],
        total_entity_count := total_entity_count a - 1\<rparr>) p"

text \<open>
  The archetype's half of the compaction after the row at \<open>l\<close> was moved out or destroyed: the last
  row fills the hole, its entity is returned for the World to update, and an emptied trailing chunk
  goes back to the pool.
\<close>

definition compact_rows ::
    "RowLocation \<Rightarrow> 'v Archetype \<Rightarrow> ChunkPool \<Rightarrow> (EntityID option \<times> 'v Archetype \<times> ChunkPool) option" where
  "compact_rows l a p = do {
     let a = bump_versions 1 a;
     let ll = last_row_location a;
     hole \<leftarrow> get_row a l;
     final \<leftarrow> get_row a ll;
     (moved, a) \<leftarrow>
       (if l = ll then Some (None, a)
        else do {
          (ds, ss) \<leftarrow> move_cells (column_offsets a) (row_cells hole) (row_cells final);
          Some (row_entity final,
                set_row l (hole\<lparr>row_entity := row_entity final, row_cells := ds\<rparr>)
                  (set_row ll (final\<lparr>row_cells := ss\<rparr>) a)) });
     final \<leftarrow> get_row a ll;
     if list_ex (\<lambda>c. c \<noteq> None) (row_cells final) then None
     else (let (a, p) = pop_row a p in Some (moved, a, p)) }"

text \<open>\<open>drain_to_pool\<close>: every live cell is destroyed and every block released.\<close>

fun destroy_rows :: "nat list \<Rightarrow> 'v Row list \<Rightarrow> bool" where
  "destroy_rows offs [] = True"
| "destroy_rows offs (r # rs) = (destroy_cells offs (row_cells r) \<noteq> None \<and> destroy_rows offs rs)"

fun drain_chunks :: "nat list \<Rightarrow> 'v DataChunk list \<Rightarrow> ChunkPool \<Rightarrow> ChunkPool option" where
  "drain_chunks offs [] p = Some p"
| "drain_chunks offs (c # cs) p =
     (if destroy_rows offs (chunk_rows c) then drain_chunks offs cs (pool_release (Some (chunk_block c)) p) else None)"

definition drain_to_pool :: "'v Archetype \<Rightarrow> ChunkPool \<Rightarrow> ('v Archetype \<times> ChunkPool) option" where
  "drain_to_pool a p = do {
     p \<leftarrow> drain_chunks (column_offsets a) (chunks a) p;
     Some (a\<lparr>chunks := [], total_entity_count := 0\<rparr>, p) }"

section \<open>Signature matching\<close>

lemma matches_merge:
  assumes "sorted_wrt (<) ids" "sorted_wrt (<) sig"
  shows "matches_all ids sig = (set ids \<subseteq> set sig) \<and> matches_none ids sig = (set ids \<inter> set sig = {})"
proof
  show "matches_all ids sig = (set ids \<subseteq> set sig)"
    using assms
  proof (induction ids sig rule: matches_all.induct)
    case (3 r rs s ss)
    then have lt: "\<forall>x \<in> set rs. r < x" "\<forall>x \<in> set ss. s < x" by auto
    consider "r = s" | "s < r" | "r < s" by fastforce
    then show ?case
    proof cases
      case 1
      then have "set rs \<subseteq> set (s # ss) \<longleftrightarrow> set rs \<subseteq> set ss" using lt(1) by auto
      then show ?thesis using 3 1 by simp
    next
      case 2
      then have "s \<notin> set (r # rs)" using lt(1) by auto
      then have "set (r # rs) \<subseteq> set (s # ss) \<longleftrightarrow> set (r # rs) \<subseteq> set ss" by auto
      moreover have "r \<noteq> s" using 2 by simp
      ultimately show ?thesis using 3 2 by simp
    next
      case 3
      then have "r \<notin> set (s # ss)" using lt(2) by auto
      then show ?thesis using 3 by auto
    qed
  qed simp_all
  show "matches_none ids sig = (set ids \<inter> set sig = {})"
    using assms
  proof (induction ids sig rule: matches_none.induct)
    case (3 e es s ss)
    then have lt: "\<forall>x \<in> set es. e < x" "\<forall>x \<in> set ss. s < x" by auto
    consider "e = s" | "s < e" | "e < s" by fastforce
    then show ?case
    proof cases
      case 2
      then have "s \<notin> set (e # es)" using lt(1) by auto
      then show ?thesis using 3 2 by auto
    next
      case 3
      then have "e \<notin> set (s # ss)" using lt(2) by auto
      then show ?thesis using 3 "3.IH"(2) "3.prems" by auto
    qed simp
  qed simp_all
qed

text \<open>On strictly ascending lists the one-pass merges decide inclusion and disjointness.\<close>

theorem matches_spec:
  assumes "sorted_wrt (<) ids" "sorted_wrt (<) sig"
  shows "matches_all ids sig = (set ids \<subseteq> set sig) \<and> matches_none ids sig = (set ids \<inter> set sig = {})"
  using assms by (rule matches_merge)

theorem matches_spec_witness:
  "matches_all [2, 5] [1, 2, 5, (9 :: u64)] \<and> \<not> matches_none [2, 5] [1, 2, 5, (9 :: u64)]"
  using matches_spec [of "[2, 5]" "[1, 2, 5, 9]"] by simp

section \<open>The layout stays in its block\<close>

lemma and_not_mask_word: "(x :: u64) AND NOT (mask k) = push_bit k (drop_bit k x)"
  by (rule bit_word_eqI) (auto simp: bit_simps)

lemma align_up_eq:
  assumes "a = 2 ^ k" "0 < offset" "offset + a \<le> 2 ^ 64"
  shows "align_up offset a = (offset + a - 1) div a * a"
proof -
  define x where "x = offset + a - 1"
  have x: "x < 2 ^ 64" using assms(2,3) by (simp add: x_def)
  have "0 < a" using assms(1) by simp
  then have "a < 2 ^ 64" using assms(2,3) by linarith
  then have k: "k < 64" using assms(1) by (metis power_strict_increasing_iff one_less_numeral_iff semiring_norm(76))
  have m: "(of_nat (a - 1) :: u64) = mask k"
    using \<open>0 < a\<close> by (simp add: assms(1) mask_eq_exp_minus_1 of_nat_diff)
  have "x div a * a \<le> x" by (rule div_times_less_eq_dividend)
  then have "x div a * a < 2 ^ 64" using x by linarith
  then have "unat (of_nat (x div a * a) :: u64) = x div a * a" by (rule unat64_of_nat)
  moreover have "push_bit k (drop_bit k (of_nat x :: u64)) = of_nat (x div a * a)"
    by (simp add: drop_of_nat64 [OF x] push_bit_eq_mult assms(1))
  ultimately show ?thesis
    unfolding align_up_def x_def [symmetric] m and_not_mask_word by (simp only:)
qed

lemma align_up_bounds:
  assumes "a = 2 ^ k" "0 < offset" "offset + a \<le> 2 ^ 64"
  shows "offset \<le> align_up offset a" "align_up offset a \<le> offset + (a - 1)" "a dvd align_up offset a"
proof -
  have a: "0 < a" using assms(1) by simp
  define x where "x = offset + a - 1"
  have "x = x div a * a + x mod a" "x mod a < a" using a by simp_all
  moreover have "align_up offset a = x div a * a" unfolding x_def by (rule align_up_eq [OF assms])
  ultimately show "offset \<le> align_up offset a" "align_up offset a \<le> offset + (a - 1)" "a dvd align_up offset a"
    using a assms(2) unfolding x_def by (linarith, linarith, simp)
qed

text \<open>Slabs in order, aligned, disjoint and inside \<open>lo\<close> to \<open>hi\<close>.\<close>

fun slabs :: "nat \<Rightarrow> ColumnVTable list \<Rightarrow> nat list \<Rightarrow> nat \<Rightarrow> nat \<Rightarrow> bool" where
  "slabs cap [] [] lo hi = (lo \<le> hi)"
| "slabs cap (vt # vts) (offset # offs) lo hi =
     (if vt_size vt = 0 then offset = NO_COLUMN_OFFSET \<and> slabs cap vts offs lo hi
      else lo \<le> offset \<and> vt_align vt dvd offset \<and> slabs cap vts offs (offset + cap * vt_size vt) hi)"
| "slabs cap _ _ lo hi = False"

definition alignments_ok :: "ColumnVTable list \<Rightarrow> bool" where
  "alignments_ok vts \<longleftrightarrow> list_all (\<lambda>vt. \<exists>k. vt_align vt = 2 ^ k) vts"

lemma slabs_mono: "slabs cap vts offs lo hi \<Longrightarrow> hi \<le> hi' \<Longrightarrow> slabs cap vts offs lo hi'"
  by (induction cap vts offs lo hi rule: slabs.induct) (auto split: if_splits)

lemma bytes_ge: "SIZEOF_ENTITY_ID \<le> bytes_per_row vts"
  by (induction vts) auto

lemma layout_columns_ok:
  assumes "alignments_ok vts" "0 < offset"
    "offset + cap * (bytes_per_row vts - SIZEOF_ENTITY_ID) + align_overhead vts < 2 ^ 64"
  shows "slabs cap vts (fst (layout_columns cap vts offset)) offset (snd (layout_columns cap vts offset))
    \<and> offset \<le> snd (layout_columns cap vts offset)
    \<and> snd (layout_columns cap vts offset) \<le>
        offset + cap * (bytes_per_row vts - SIZEOF_ENTITY_ID) + align_overhead vts"
  using assms
proof (induction vts arbitrary: offset)
  case (Cons vt vts)
  show ?case
  proof (cases "vt_size vt = 0")
    case True
    then show ?thesis using Cons by (simp add: alignments_ok_def case_prod_unfold Let_def)
  next
    case False
    obtain k where k: "vt_align vt = 2 ^ k" using Cons.prems(1) by (auto simp: alignments_ok_def)
    define start where "start = (if vt_align vt > 1 then align_up offset (vt_align vt) else offset)"
    have b: "bytes_per_row (vt # vts) - SIZEOF_ENTITY_ID = (bytes_per_row vts - SIZEOF_ENTITY_ID) + vt_size vt"
      using False bytes_ge [of vts] by simp
    have ov: "align_overhead (vt # vts) = align_overhead vts + (vt_align vt - 1)"
      using False k by simp
    have small: "offset + vt_align vt \<le> 2 ^ 64" using Cons.prems(3) unfolding ov by linarith
    have st: "offset \<le> start" "start \<le> offset + (vt_align vt - 1)" "vt_align vt dvd start"
    proof -
      have "1 \<le> vt_align vt" using k by simp
      then have "vt_align vt > 1 \<or> vt_align vt = 1" by linarith
      then show "offset \<le> start" "start \<le> offset + (vt_align vt - 1)" "vt_align vt dvd start"
        using align_up_bounds [OF k Cons.prems(2) small] unfolding start_def by auto
    qed
    have dist: "cap * (bytes_per_row (vt # vts) - SIZEOF_ENTITY_ID)
        = cap * (bytes_per_row vts - SIZEOF_ENTITY_ID) + cap * vt_size vt"
      unfolding b by (simp add: add_mult_distrib2)
    have "start + cap * vt_size vt + cap * (bytes_per_row vts - SIZEOF_ENTITY_ID) + align_overhead vts < 2 ^ 64"
      using Cons.prems(3) st(2) unfolding dist ov by linarith
    then have ih: "slabs cap vts (fst (layout_columns cap vts (start + cap * vt_size vt)))
          (start + cap * vt_size vt) (snd (layout_columns cap vts (start + cap * vt_size vt)))
      \<and> start + cap * vt_size vt \<le> snd (layout_columns cap vts (start + cap * vt_size vt))
      \<and> snd (layout_columns cap vts (start + cap * vt_size vt)) \<le>
          start + cap * vt_size vt + cap * (bytes_per_row vts - SIZEOF_ENTITY_ID) + align_overhead vts"
      using Cons.prems(1,2) st(1) by (intro Cons.IH) (simp_all add: alignments_ok_def)
    have lay: "layout_columns cap (vt # vts) offset =
      (start # fst (layout_columns cap vts (start + cap * vt_size vt)),
       snd (layout_columns cap vts (start + cap * vt_size vt)))"
      using False by (simp add: start_def case_prod_unfold Let_def)
    show ?thesis using ih st False unfolding lay dist ov by simp
  qed
qed simp

lemma layout_fits_lemma:
  assumes "alignments_ok vts" "bytes_per_row vts + align_overhead vts \<le> CHUNK_BLOCK_BYTES"
  shows "fst (compute_chunk_layout vts) = (CHUNK_BLOCK_BYTES - align_overhead vts) div bytes_per_row vts
    \<and> 1 \<le> fst (compute_chunk_layout vts)
    \<and> slabs (fst (compute_chunk_layout vts)) vts (snd (compute_chunk_layout vts))
        (fst (compute_chunk_layout vts) * SIZEOF_ENTITY_ID) CHUNK_BLOCK_BYTES"
proof -
  define usable where "usable = CHUNK_BLOCK_BYTES - align_overhead vts"
  define cap where "cap = usable div bytes_per_row vts"
  have pos: "0 < bytes_per_row vts" using bytes_ge [of vts] by (simp add: SIZEOF_ENTITY_ID_def)
  have "bytes_per_row vts \<le> usable" using assms(2) by (simp add: usable_def)
  then have cap: "1 \<le> cap" using pos by (simp add: cap_def div_greater_zero_iff Suc_leI)
  have use: "cap * bytes_per_row vts \<le> usable" by (simp add: cap_def)
  have split: "cap * bytes_per_row vts = cap * SIZEOF_ENTITY_ID + cap * (bytes_per_row vts - SIZEOF_ENTITY_ID)"
    using bytes_ge [of vts] by (simp flip: add_mult_distrib2)
  have total_bytes: "cap * SIZEOF_ENTITY_ID + cap * (bytes_per_row vts - SIZEOF_ENTITY_ID) + align_overhead vts
      \<le> CHUNK_BLOCK_BYTES"
    using use split assms(2) pos by (simp add: usable_def)
  then have small: "cap * SIZEOF_ENTITY_ID + cap * (bytes_per_row vts - SIZEOF_ENTITY_ID) + align_overhead vts < 2 ^ 64"
    by (simp add: CHUNK_BLOCK_BYTES_def)
  have ok: "slabs cap vts (fst (layout_at_capacity vts cap)) (cap * SIZEOF_ENTITY_ID) (snd (layout_at_capacity vts cap))"
    "snd (layout_at_capacity vts cap) \<le> CHUNK_BLOCK_BYTES"
    using layout_columns_ok [OF assms(1) _ small] cap total_bytes
    by (simp_all add: layout_at_capacity_def SIZEOF_ENTITY_ID_def)
  then have "back_off vts cap = cap" by (subst back_off.simps) simp
  moreover have "align_overhead vts < CHUNK_BLOCK_BYTES" using assms(2) pos by simp
  ultimately have "compute_chunk_layout vts = (cap, fst (layout_at_capacity vts cap))"
    using cap by (simp add: compute_chunk_layout_def usable_def [symmetric] cap_def [symmetric] max_def Let_def)
  then show ?thesis using ok slabs_mono cap by (auto simp: cap_def usable_def)
qed

text \<open>C34: When one row with its alignment slack fits the block, the layout gives every chunk at least one
  row and places the identifiers and then every column's slab, aligned and disjoint, inside the block.\<close>

theorem layout_fits:
  assumes "alignments_ok vts" "bytes_per_row vts + align_overhead vts \<le> CHUNK_BLOCK_BYTES"
  shows "fst (compute_chunk_layout vts) = (CHUNK_BLOCK_BYTES - align_overhead vts) div bytes_per_row vts
    \<and> 1 \<le> fst (compute_chunk_layout vts)
    \<and> slabs (fst (compute_chunk_layout vts)) vts (snd (compute_chunk_layout vts))
        (fst (compute_chunk_layout vts) * SIZEOF_ENTITY_ID) CHUNK_BLOCK_BYTES"
  using assms by (rule layout_fits_lemma)

theorem layout_fits_witness:
  "fst (compute_chunk_layout [\<lparr>vt_size = 12, vt_align = 4\<rparr>, \<lparr>vt_size = 0, vt_align = 1\<rparr>, \<lparr>vt_size = 8, vt_align = 8\<rparr>])
     = 584"
proof -
  have "alignments_ok [\<lparr>vt_size = 12, vt_align = 4\<rparr>, \<lparr>vt_size = 0, vt_align = 1\<rparr>, \<lparr>vt_size = 8, vt_align = 8\<rparr>]"
    by (auto simp: alignments_ok_def intro: exI [of _ 2] exI [of _ 0] exI [of _ 3])
  from layout_fits [OF this] show ?thesis by (simp add: CHUNK_BLOCK_BYTES_def SIZEOF_ENTITY_ID_def)
qed

text \<open>Nothing checks that a row fits: a component larger than the block gets a chunk of capacity one
  whose layout ends outside the 16 KB that are allocated.\<close>

theorem layout_overflows_block:
  "compute_chunk_layout [\<lparr>vt_size = 20000, vt_align = 1\<rparr>] = (1, [8])
    \<and> 8 + 1 * 20000 > CHUNK_BLOCK_BYTES"
  by (simp add: compute_chunk_layout_def layout_at_capacity_def SIZEOF_ENTITY_ID_def CHUNK_BLOCK_BYTES_def
      back_off.simps [of _ "Suc 0"])

section \<open>Chunks as one sequence of rows\<close>

text \<open>Every chunk is full but the last, which holds at least one row.\<close>

fun packed :: "nat \<Rightarrow> 'x list list \<Rightarrow> bool" where
  "packed cap [] = True"
| "packed cap [xs] = (0 < length xs \<and> length xs \<le> cap)"
| "packed cap (xs # ys # zss) = (length xs = cap \<and> packed cap (ys # zss))"

lemma packed_nth:
  "packed cap css \<Longrightarrow> c < length css \<Longrightarrow> r < length (css ! c) \<Longrightarrow>
     c * cap + r < length (concat css) \<and> concat css ! (c * cap + r) = css ! c ! r"
proof (induction cap css arbitrary: c rule: packed.induct)
  case (3 cap xs ys zss)
  show ?case
  proof (cases c)
    case (Suc d)
    then have "d * cap + r < length (concat (ys # zss)) \<and>
        concat (ys # zss) ! (d * cap + r) = (ys # zss) ! d ! r"
      using 3 by (intro "3.IH") auto
    then show ?thesis using Suc "3.prems"(1) by (simp add: nth_append ac_simps)
  qed (use 3 in \<open>auto simp: nth_append\<close>)
qed auto

lemma packed_update:
  "packed cap css \<Longrightarrow> c < length css \<Longrightarrow> r < length (css ! c) \<Longrightarrow>
     concat (css[c := (css ! c)[r := x]]) = (concat css)[c * cap + r := x]
     \<and> packed cap (css[c := (css ! c)[r := x]])"
proof (induction cap css arbitrary: c rule: packed.induct)
  case (3 cap xs ys zss)
  show ?case
  proof (cases c)
    case (Suc d)
    then have "concat ((ys # zss)[d := ((ys # zss) ! d)[r := x]]) = (concat (ys # zss))[d * cap + r := x]
        \<and> packed cap ((ys # zss)[d := ((ys # zss) ! d)[r := x]])"
      using 3 by (intro "3.IH") auto
    then show ?thesis using Suc "3.prems"(1)
      by (cases d) (simp_all add: list_update_append ac_simps)
  qed (use 3 in \<open>auto simp: list_update_append\<close>)
qed (auto simp: less_Suc_eq)

lemma packed_append: "packed cap (css @ [xs]) \<longleftrightarrow>
    (\<forall>c \<in> set css. length c = cap) \<and> 0 < length xs \<and> length xs \<le> cap"
  by (induction cap css rule: packed.induct) auto

lemma packed_front: "packed cap (css @ [xs]) \<Longrightarrow> 0 < cap \<Longrightarrow> packed cap css"
proof (cases css rule: rev_cases)
  case (snoc ys y)
  assume "packed cap (css @ [xs])" "0 < cap"
  then have "\<forall>c \<in> set (ys @ [y]). length c = cap" unfolding snoc packed_append by blast
  then show ?thesis using snoc \<open>0 < cap\<close> by (auto simp: packed_append)
qed simp

lemma packed_length: "packed cap (css @ [xs]) \<Longrightarrow> length (concat (css @ [xs])) = length css * cap + length xs"
proof -
  assume "packed cap (css @ [xs])"
  then have "\<forall>c \<in> set css. length c = cap" unfolding packed_append by blast
  then have "length (concat css) = length css * cap" by (induction css) simp_all
  then show ?thesis by simp
qed

section \<open>The archetype as a list of rows\<close>

definition arch_rows :: "'v Archetype \<Rightarrow> 'v Row list" where
  "arch_rows a = concat (map chunk_rows (chunks a))"

definition flat_pos :: "'v Archetype \<Rightarrow> RowLocation \<Rightarrow> nat" where
  "flat_pos a l = loc_chunk l * chunk_capacity a + loc_row l"

definition arch_ok :: "'v Archetype \<Rightarrow> bool" where
  "arch_ok a \<longleftrightarrow> 1 \<le> chunk_capacity a \<and> packed (chunk_capacity a) (map chunk_rows (chunks a))
     \<and> total_entity_count a = length (arch_rows a) \<and> length (column_offsets a) = length (signature a)
     \<and> (\<forall>r \<in> set (arch_rows a). length (row_cells r) = length (signature a))"

text \<open>What the row operations never touch.\<close>

definition same_shape :: "'v Archetype \<Rightarrow> 'v Archetype \<Rightarrow> bool" where
  "same_shape a b \<longleftrightarrow> signature a = signature b \<and> vtables a = vtables b \<and> column_offsets a = column_offsets b
     \<and> chunk_capacity a = chunk_capacity b \<and> matcher_hash a = matcher_hash b"

lemma same_shape_flat: "same_shape a b \<Longrightarrow> flat_pos a = flat_pos b \<and> raw_row a = raw_row b"
  by (auto simp: same_shape_def flat_pos_def raw_row_def)

lemma get_row_flat:
  assumes "arch_ok a" "get_row a l = Some r"
  shows "flat_pos a l < length (arch_rows a)" "arch_rows a ! flat_pos a l = r"
  using packed_nth [of "chunk_capacity a" "map chunk_rows (chunks a)" "loc_chunk l" "loc_row l"] assms
  by (auto simp: get_row_def arch_ok_def arch_rows_def flat_pos_def chunk_count_def split: if_splits)

lemma set_row_rows:
  assumes "arch_ok a" "get_row a l = Some r"
  shows "arch_rows (set_row l x a) = (arch_rows a)[flat_pos a l := x]"
    "packed (chunk_capacity a) (map chunk_rows (chunks (set_row l x a)))" "same_shape (set_row l x a) a"
    "total_entity_count (set_row l x a) = total_entity_count a"
proof -
  have "map chunk_rows (chunks (set_row l x a)) =
      (map chunk_rows (chunks a))[loc_chunk l := (map chunk_rows (chunks a) ! loc_chunk l)[loc_row l := x]]"
    using assms(2) by (simp add: set_row_def map_update get_row_def split: if_splits)
  then show "arch_rows (set_row l x a) = (arch_rows a)[flat_pos a l := x]"
    "packed (chunk_capacity a) (map chunk_rows (chunks (set_row l x a)))"
    using packed_update [of "chunk_capacity a" "map chunk_rows (chunks a)" "loc_chunk l" "loc_row l" x] assms
    by (auto simp: get_row_def arch_ok_def arch_rows_def flat_pos_def chunk_count_def split: if_splits)
  show "same_shape (set_row l x a) a" "total_entity_count (set_row l x a) = total_entity_count a"
    by (simp_all add: set_row_def same_shape_def)
qed

lemma set_row_ok:
  assumes "arch_ok a" "get_row a l = Some r" "length (row_cells x) = length (signature a)"
  shows "arch_ok (set_row l x a)"
  using set_row_rows [OF assms(1,2), of x] assms(1,3) get_row_flat [OF assms(1,2)]
  by (auto simp: arch_ok_def same_shape_def dest!: in_set_update)

lemma get_set_row:
  "get_row a l = Some r \<Longrightarrow> get_row (set_row l x a) m = (if l = m then Some x else get_row a m)"
  by (cases l; cases m) (auto simp: get_row_def set_row_def nth_list_update chunk_count_def split: if_splits)

text \<open>The last chunk with room for \<open>n\<close> more rows, after a chunk was allocated if it was full.\<close>

lemma add_raw_rows_ok:
  fixes a :: "'v Archetype" and p :: ChunkPool
  assumes "arch_ok a"
  defines "b \<equiv> fst (if needs_chunk a then allocate_chunk a p else (a, p))"
  assumes n: "0 < n" "chunk_count (chunks b ! (length (chunks b) - 1)) + n \<le> chunk_capacity a"
  shows "arch_rows (add_raw_rows n b) = arch_rows a @ replicate n (raw_row a)"
    and "packed (chunk_capacity a) (map chunk_rows (chunks (add_raw_rows n b)))"
    and "(length (chunks b) - 1) * chunk_capacity a + chunk_count (chunks b ! (length (chunks b) - 1))
           = length (arch_rows a)"
    and "same_shape (add_raw_rows n b) a" "total_entity_count (add_raw_rows n b) = total_entity_count a"
    and "column_versions (add_raw_rows n b) = column_versions a"
    and "chunk_count (chunks b ! (length (chunks b) - 1)) < chunk_capacity a" "chunks b \<noteq> []"
proof -
  have cap: "1 \<le> chunk_capacity a" and pk: "packed (chunk_capacity a) (map chunk_rows (chunks a))"
    using assms(1) by (simp_all add: arch_ok_def)
  have b_fields: "signature b = signature a" "vtables b = vtables a" "column_offsets b = column_offsets a"
    "chunk_capacity b = chunk_capacity a" "matcher_hash b = matcher_hash a" "total_entity_count b = total_entity_count a"
    "column_versions b = column_versions a"
    by (simp_all add: b_def allocate_chunk_def case_prod_unfold Let_def)
  then have raw: "raw_row b = raw_row a" by (simp add: raw_row_def)
  obtain cs c where b: "chunks b = cs @ [c]" "chunk_count c < chunk_capacity a"
    "concat (map chunk_rows cs) @ chunk_rows c = arch_rows a"
    "\<forall>d \<in> set cs. length (chunk_rows d) = chunk_capacity a"
  proof (cases "needs_chunk a")
    case True
    then have "\<forall>d \<in> set (chunks a). length (chunk_rows d) = chunk_capacity a"
      using pk by (cases "chunks a" rule: rev_cases) (auto simp: needs_chunk_def chunk_count_def packed_append)
    then show thesis
      using True cap that by (simp add: b_def allocate_chunk_def case_prod_unfold chunk_count_def arch_rows_def Let_def)
  next
    case False
    then obtain cs c where "chunks a = cs @ [c]" "chunk_count c < chunk_capacity a"
      by (cases "chunks a" rule: rev_cases) (auto simp: needs_chunk_def)
    then show thesis using False pk that by (simp add: b_def arch_rows_def packed_append)
  qed
  then have lastb: "chunks b ! (length (chunks b) - 1) = c" by (simp add: nth_append)
  have "length (arch_rows a) = length cs * chunk_capacity a + chunk_count c"
  proof -
    have "length (concat (map chunk_rows cs)) = length cs * chunk_capacity a"
      using b(4) by (induction cs) simp_all
    then show ?thesis using arg_cong [OF b(3), of length] by (simp add: chunk_count_def)
  qed
  then show "(length (chunks b) - 1) * chunk_capacity a + chunk_count (chunks b ! (length (chunks b) - 1))
           = length (arch_rows a)"
    by (simp add: lastb) (simp add: b(1))
  show "arch_rows (add_raw_rows n b) = arch_rows a @ replicate n (raw_row a)"
    using b(3) by (simp add: add_raw_rows_def b(1) arch_rows_def raw)
  show "packed (chunk_capacity a) (map chunk_rows (chunks (add_raw_rows n b)))"
    using b(4) n by (simp add: add_raw_rows_def b(1) packed_append chunk_count_def nth_append)
  show "chunk_count (chunks b ! (length (chunks b) - 1)) < chunk_capacity a" "chunks b \<noteq> []"
    using b(1,2) lastb by simp_all
  show "same_shape (add_raw_rows n b) a" "total_entity_count (add_raw_rows n b) = total_entity_count a"
    "column_versions (add_raw_rows n b) = column_versions a"
    using b_fields by (simp_all add: add_raw_rows_def same_shape_def)
qed

lemma reserve_row_unfold:
  "reserve_row a p =
     (let bp = (if needs_chunk a then allocate_chunk a p else (a, p)); b = fst bp; c = length (chunks b) - 1
      in (\<lparr>loc_chunk = c, loc_row = chunk_count (chunks b ! c)\<rparr>,
          bump_versions 1 ((add_raw_rows 1 b)\<lparr>total_entity_count := total_entity_count a + 1\<rparr>), snd bp))"
  by (simp add: reserve_row_def case_prod_unfold Let_def add_raw_rows_def allocate_chunk_def)

lemma reserve_row_spec:
  assumes "arch_ok a" "reserve_row a p = (l, b, q)"
  shows "arch_ok b" "arch_rows b = arch_rows a @ [raw_row a]" "same_shape b a"
    "flat_pos b l = length (arch_rows a)" "get_row b l = Some (raw_row a)"
    "q = snd (if needs_chunk a then allocate_chunk a p else (a, p))"
proof -
  define w where "w = fst (if needs_chunk a then allocate_chunk a p else (a, p))"
  define c where "c = length (chunks w) - 1"
  have l: "l = \<lparr>loc_chunk = c, loc_row = chunk_count (chunks w ! c)\<rparr>"
    and b: "b = bump_versions 1 ((add_raw_rows 1 w)\<lparr>total_entity_count := total_entity_count a + 1\<rparr>)"
    and "q = snd (if needs_chunk a then allocate_chunk a p else (a, p))"
    using assms(2) by (auto simp: reserve_row_unfold Let_def w_def c_def)
  then show "q = snd (if needs_chunk a then allocate_chunk a p else (a, p))" by simp
  have room: "chunk_count (chunks w ! c) + 1 \<le> chunk_capacity a"
  proof (cases "needs_chunk a")
    case True
    then show ?thesis using assms(1)
      by (simp add: w_def c_def allocate_chunk_def case_prod_unfold Let_def chunk_count_def arch_ok_def)
  next
    case False
    then have "chunks a \<noteq> []" "chunk_count (last (chunks a)) < chunk_capacity a"
      by (simp_all add: needs_chunk_def)
    then show ?thesis using False by (simp add: w_def c_def last_conv_nth Suc_le_eq)
  qed
  note g = add_raw_rows_ok [OF assms(1) zero_less_one, of p, folded w_def, OF room [unfolded c_def]]
  have rows: "arch_rows b = arch_rows (add_raw_rows 1 w)" "chunks b = chunks (add_raw_rows 1 w)"
    by (simp_all add: b bump_versions_def arch_rows_def)
  show rb: "arch_rows b = arch_rows a @ [raw_row a]" using g(1) by (simp add: rows)
  show sh: "same_shape b a" using g(4) by (simp add: b bump_versions_def same_shape_def)
  show "flat_pos b l = length (arch_rows a)"
    using g(3) sh by (simp add: l flat_pos_def c_def same_shape_def)
  show "arch_ok b"
    using assms(1) sh g(2) rb by (auto simp: arch_ok_def same_shape_def raw_row_def rows) (simp add: b bump_versions_def)
  have "chunks (add_raw_rows 1 w) = butlast (chunks w)
      @ [(last (chunks w))\<lparr>chunk_rows := chunk_rows (last (chunks w)) @ [raw_row w]\<rparr>]"
    by (simp add: add_raw_rows_def)
  moreover have "raw_row w = raw_row a"
    by (simp add: w_def raw_row_def allocate_chunk_def case_prod_unfold Let_def)
  ultimately show "get_row b l = Some (raw_row a)"
    using g(8) by (simp add: get_row_def rows(2) l c_def chunk_count_def nth_append last_conv_nth)
qed

text \<open>\<open>n\<close> single reservations in a row.\<close>

fun reserve_many :: "nat \<Rightarrow> 'v Archetype \<Rightarrow> ChunkPool \<Rightarrow> RowLocation list \<times> 'v Archetype \<times> ChunkPool" where
  "reserve_many 0 a p = ([], a, p)"
| "reserve_many (Suc n) a p =
     (let (l, a, p) = reserve_row a p; (ls, a, p) = reserve_many n a p in (l # ls, a, p))"

definition range_locations :: "RowRange \<Rightarrow> RowLocation list" where
  "range_locations rg =
     map (\<lambda>k. \<lparr>loc_chunk = range_chunk rg, loc_row = range_begin rg + k\<rparr>) [0..<range_count rg]"

lemma reserve_many_add:
  "reserve_many (m + n) a p =
     (let (ls, a, p) = reserve_many m a p; (ks, a, p) = reserve_many n a p in (ls @ ks, a, p))"
  by (induction m arbitrary: a p) (simp_all add: case_prod_unfold Let_def)

lemma add_raw_rows_add:
  "chunks a \<noteq> [] \<Longrightarrow> add_raw_rows k (add_raw_rows m a) = add_raw_rows (m + k) a"
  by (simp add: add_raw_rows_def raw_row_def replicate_add)

lemma add_raw_rows_0: "chunks a \<noteq> [] \<Longrightarrow> add_raw_rows 0 a = a"
  by (simp add: add_raw_rows_def)

lemma reserve_many_room:
  assumes "chunks a \<noteq> []" "chunk_count (last (chunks a)) + k \<le> chunk_capacity a"
  shows "reserve_many k a p =
    (range_locations \<lparr>range_chunk = length (chunks a) - 1, range_begin = chunk_count (last (chunks a)), range_count = k\<rparr>,
     bump_versions (of_nat k) ((add_raw_rows k a)\<lparr>total_entity_count := total_entity_count a + k\<rparr>), p)"
  using assms
proof (induction k arbitrary: a)
  case 0
  then show ?case by (simp add: range_locations_def add_raw_rows_0 bump_versions_def)
next
  case (Suc k)
  have nc: "\<not> needs_chunk a" using Suc.prems by (simp add: needs_chunk_def)
  define a1 where "a1 = bump_versions 1 ((add_raw_rows 1 a)\<lparr>total_entity_count := total_entity_count a + 1\<rparr>)"
  have r: "reserve_row a p = (\<lparr>loc_chunk = length (chunks a) - 1, loc_row = chunk_count (last (chunks a))\<rparr>, a1, p)"
    using nc Suc.prems(1) by (simp add: reserve_row_unfold a1_def last_conv_nth Let_def)
  have a1: "chunks a1 \<noteq> []" "length (chunks a1) = length (chunks a)"
    "chunk_count (last (chunks a1)) = chunk_count (last (chunks a)) + 1" "chunk_capacity a1 = chunk_capacity a"
    using Suc.prems(1) by (simp_all add: a1_def bump_versions_def add_raw_rows_def chunk_count_def)
  have "add_raw_rows k a1 = bump_versions 1 ((add_raw_rows (Suc k) a)\<lparr>total_entity_count := total_entity_count a + 1\<rparr>)"
    using add_raw_rows_add [OF Suc.prems(1), of k 1]
    by (simp add: a1_def add_raw_rows_def bump_versions_def raw_row_def)
  then have fin: "bump_versions (of_nat k) ((add_raw_rows k a1)\<lparr>total_entity_count := total_entity_count a1 + k\<rparr>)
      = bump_versions (of_nat (Suc k)) ((add_raw_rows (Suc k) a)\<lparr>total_entity_count := total_entity_count a + Suc k\<rparr>)"
    by (simp add: a1_def bump_versions_def ac_simps)
  have "reserve_many k a1 p = (range_locations \<lparr>range_chunk = length (chunks a) - 1,
      range_begin = chunk_count (last (chunks a)) + 1, range_count = k\<rparr>,
     bump_versions (of_nat (Suc k)) ((add_raw_rows (Suc k) a)\<lparr>total_entity_count := total_entity_count a + Suc k\<rparr>), p)"
    using Suc.IH [of a1] a1 Suc.prems(2) fin by simp
  then show ?case
    by (simp add: r range_locations_def map_Suc_upt [symmetric] del: upt_Suc) (simp add: upt_conv_Cons map_Suc_upt comp_def del: upt_Suc flip: map_Suc_upt)
qed

lemma reserve_many_first:
  fixes a :: "'v Archetype" and p :: ChunkPool
  assumes "arch_ok a" "0 < k"
  defines "bp \<equiv> (if needs_chunk a then allocate_chunk a p else (a, p))"
  assumes "chunk_count (chunks (fst bp) ! (length (chunks (fst bp)) - 1)) + k \<le> chunk_capacity a"
  shows "reserve_many k a p =
    (range_locations \<lparr>range_chunk = length (chunks (fst bp)) - 1,
       range_begin = chunk_count (chunks (fst bp) ! (length (chunks (fst bp)) - 1)), range_count = k\<rparr>,
     bump_versions (of_nat k) ((add_raw_rows k (fst bp))\<lparr>total_entity_count := total_entity_count a + k\<rparr>), snd bp)"
proof (cases "needs_chunk a")
  case False
  then have "chunks a \<noteq> []" by (simp add: needs_chunk_def)
  then show ?thesis using reserve_many_room [of a k p] assms False by (simp add: last_conv_nth)
next
  case True
  define b where "b = fst (allocate_chunk a p)"
  have b: "chunks b \<noteq> []" "chunk_capacity b = chunk_capacity a" "total_entity_count b = total_entity_count a"
    by (simp_all add: b_def allocate_chunk_def case_prod_unfold Let_def)
  have "1 \<le> chunk_capacity a" using assms(1) by (simp add: arch_ok_def)
  then have nb: "\<not> needs_chunk b"
    by (simp add: b_def needs_chunk_def allocate_chunk_def case_prod_unfold Let_def chunk_count_def)
  obtain m where m: "k = Suc m" using assms(2) gr0_implies_Suc by blast
  have "reserve_row a p = (fst (reserve_row b (snd (allocate_chunk a p))), fst (snd (reserve_row b (snd (allocate_chunk a p)))),
      snd (allocate_chunk a p))"
    using True nb by (simp add: reserve_row_unfold b_def [symmetric] b Let_def)
  moreover have "snd (snd (reserve_row b (snd (allocate_chunk a p)))) = snd (allocate_chunk a p)"
    using nb by (simp add: reserve_row_unfold Let_def)
  ultimately have "reserve_row a p = reserve_row b (snd (allocate_chunk a p))" by (metis prod.collapse)
  then have "reserve_many k a p = reserve_many k b (snd (allocate_chunk a p))" by (simp add: m)
  then show ?thesis
    using reserve_many_room [OF b(1), of k "snd (allocate_chunk a p)"] assms(4) True b
    by (simp add: bp_def b_def [symmetric] last_conv_nth)
qed

text \<open>An archetype with other version and entity counters.\<close>

abbreviation with_counters :: "u64 list \<Rightarrow> nat \<Rightarrow> 'v Archetype \<Rightarrow> 'v Archetype" where
  "with_counters vs t a \<equiv> a\<lparr>column_versions := vs, total_entity_count := t\<rparr>"

lemma needs_chunk_counters [simp]: "needs_chunk (with_counters vs t a) = needs_chunk a"
  by (simp add: needs_chunk_def)

lemma allocate_counters [simp]:
  "allocate_chunk (with_counters vs t a) p =
     (with_counters vs t (fst (allocate_chunk a p)), snd (allocate_chunk a p))"
  by (simp add: allocate_chunk_def case_prod_unfold Let_def)

lemma add_raw_counters [simp]:
  "add_raw_rows n (with_counters vs t a) = with_counters vs t (add_raw_rows n a)"
  by (simp add: add_raw_rows_def raw_row_def)

lemma reserve_rows_loop_eq:
  assumes "arch_ok (with_counters vs t a)"
  shows "\<exists>rs b q. reserve_rows_loop n a p out = Some (out @ rs, b, q)
    \<and> reserve_many n (with_counters vs t a) p =
        (concat (map range_locations rs), with_counters (map (\<lambda>v. v + of_nat n) vs) (t + n) b, q)"
  using assms
proof (induction n arbitrary: a p out vs t rule: less_induct)
  case (less n)
  show ?case
  proof (cases "n = 0")
    case True
    then show ?thesis by (subst reserve_rows_loop.simps) simp
  next
    case False
    define bp where "bp = (if needs_chunk a then allocate_chunk a p else (a, p))"
    define b where "b = fst bp"
    define c where "c = length (chunks b) - 1"
    define r where "r = chunk_count (chunks b ! c)"
    define k where "k = min n (chunk_capacity b - r)"
    let ?w = "with_counters vs t a"
    have bw: "(if needs_chunk ?w then allocate_chunk ?w p else (?w, p)) = (with_counters vs t b, snd bp)"
      by (simp add: b_def bp_def)
    have cap: "chunk_capacity b = chunk_capacity a"
      by (simp add: b_def bp_def allocate_chunk_def case_prod_unfold Let_def)
    have "1 \<le> chunk_capacity a" using less.prems by (simp add: arch_ok_def)
    then have room: "r < chunk_capacity b"
      unfolding r_def c_def b_def bp_def
      by (auto simp: allocate_chunk_def case_prod_unfold Let_def chunk_count_def needs_chunk_def last_conv_nth)
    then have k: "0 < k" "k \<le> n" "r + k \<le> chunk_capacity a" using False cap by (auto simp: k_def)
    have many: "reserve_many k ?w p = (range_locations \<lparr>range_chunk = c, range_begin = r, range_count = k\<rparr>,
      bump_versions (of_nat k) ((add_raw_rows k (with_counters vs t b))\<lparr>total_entity_count := t + k\<rparr>), snd bp)"
      using reserve_many_first [OF less.prems k(1), of p] k(3) unfolding bw by (simp add: c_def r_def)
    define b' where "b' = add_raw_rows k b"
    have many': "reserve_many k ?w p = (range_locations \<lparr>range_chunk = c, range_begin = r, range_count = k\<rparr>,
      with_counters (map (\<lambda>v. v + of_nat k) vs) (t + k) b', snd bp)"
      unfolding many b'_def by (simp add: bump_versions_def)
    have ok: "arch_ok (with_counters (map (\<lambda>v. v + of_nat k) vs) (t + k) b')"
    proof -
      have room': "chunk_count (chunks (with_counters vs t b) ! (length (chunks (with_counters vs t b)) - 1)) + k
          \<le> chunk_capacity ?w" using k(3) by (simp add: r_def c_def)
      have fst_bw: "fst (if needs_chunk ?w then allocate_chunk ?w p else (?w, p)) = with_counters vs t b"
        unfolding bw by simp
      note g = add_raw_rows_ok [OF less.prems k(1), of p, unfolded fst_bw, OF room']
      have rows: "arch_rows b' = arch_rows a @ replicate k (raw_row a)"
        using g(1) by (simp add: b'_def arch_rows_def raw_row_def)
      have cells: "\<forall>x \<in> set (arch_rows a). length (row_cells x) = length (signature a)"
        "t = length (arch_rows a)" "length (column_offsets a) = length (signature a)"
        using less.prems by (simp_all add: arch_ok_def arch_rows_def)
      have sh: "signature b' = signature a" "column_offsets b' = column_offsets a" "chunk_capacity b' = chunk_capacity a"
        using g(4) by (simp_all add: same_shape_def b'_def)
      show ?thesis
        using g(2) rows cells sh \<open>1 \<le> chunk_capacity a\<close>
        by (auto simp: arch_ok_def b'_def [symmetric] arch_rows_def raw_row_def)
    qed
    have "bp = (b, snd bp)" by (simp add: b_def)
    then have loop: "reserve_rows_loop n a p out =
      reserve_rows_loop (n - k) b' (snd bp) (out @ [\<lparr>range_chunk = c, range_begin = r, range_count = k\<rparr>])"
      unfolding reserve_rows_loop.simps [of n a p out] Let_def case_prod_unfold bp_def [symmetric] b_def [symmetric]
        c_def [symmetric] r_def [symmetric] k_def [symmetric] b'_def [symmetric]
      using False k(1) by simp
    have "\<exists>rs e q. reserve_rows_loop (n - k) b' (snd bp) (out @ [\<lparr>range_chunk = c, range_begin = r, range_count = k\<rparr>])
        = Some ((out @ [\<lparr>range_chunk = c, range_begin = r, range_count = k\<rparr>]) @ rs, e, q)
      \<and> reserve_many (n - k) (with_counters (map (\<lambda>v. v + of_nat k) vs) (t + k) b') (snd bp) =
        (concat (map range_locations rs),
         with_counters (map (\<lambda>v. v + of_nat (n - k)) (map (\<lambda>v. v + of_nat k) vs)) (t + k + (n - k)) e, q)"
      using False k(1) ok by (intro less.IH) simp_all
    then obtain rs e q where ih: "reserve_rows_loop (n - k) b' (snd bp) (out @ [\<lparr>range_chunk = c, range_begin = r, range_count = k\<rparr>])
        = Some ((out @ [\<lparr>range_chunk = c, range_begin = r, range_count = k\<rparr>]) @ rs, e, q)"
      "reserve_many (n - k) (with_counters (map (\<lambda>v. v + of_nat k) vs) (t + k) b') (snd bp) =
        (concat (map range_locations rs),
         with_counters (map (\<lambda>v. v + of_nat (n - k)) (map (\<lambda>v. v + of_nat k) vs)) (t + k + (n - k)) e, q)"
      by blast
    have nk: "n = k + (n - k)" using k(2) by simp
    have sum: "(of_nat k :: u64) + of_nat (n - k) = of_nat n" using k(2) by (simp flip: of_nat_add)
    have "reserve_many n ?w p = (range_locations \<lparr>range_chunk = c, range_begin = r, range_count = k\<rparr> @ concat (map range_locations rs),
       with_counters (map (\<lambda>v. v + of_nat n) vs) (t + n) e, q)"
      by (subst nk, subst reserve_many_add) (use k(2) sum in \<open>simp add: many' ih(2) comp_def add.assoc\<close>)
    then show ?thesis
      using loop ih(1) by (intro exI [of _ "\<lparr>range_chunk = c, range_begin = r, range_count = k\<rparr> # rs"] exI [of _ e] exI [of _ q]) simp
  qed
qed

lemma reserve_rows_loop_counters:
  "reserve_rows_loop n a p out = Some (rs, b, q) \<Longrightarrow>
     column_versions b = column_versions a \<and> total_entity_count b = total_entity_count a"
proof (induction n arbitrary: a p out rule: less_induct)
  case (less n)
  show ?case
  proof (cases "n = 0")
    case False
    define w where "w = (if needs_chunk a then allocate_chunk a p else (a, p))"
    define k where "k = min n (chunk_capacity (fst w) - chunk_count (chunks (fst w) ! (length (chunks (fst w)) - 1)))"
    have "k \<noteq> 0" using less.prems False
      unfolding reserve_rows_loop.simps [of n a p out] Let_def case_prod_unfold w_def [symmetric] k_def [symmetric]
      by (auto split: if_splits)
    moreover from this have "\<exists>o'. reserve_rows_loop (n - k) (add_raw_rows k (fst w)) (snd w) o' = Some (rs, b, q)"
      using less.prems False
      unfolding reserve_rows_loop.simps [of n a p out] Let_def case_prod_unfold w_def [symmetric] k_def [symmetric]
      by auto
    ultimately have "column_versions b = column_versions (add_raw_rows k (fst w))
        \<and> total_entity_count b = total_entity_count (add_raw_rows k (fst w))"
      using less.IH [of "n - k"] False by auto
    then show ?thesis by (simp add: add_raw_rows_def w_def allocate_chunk_def case_prod_unfold Let_def)
  qed (use less.prems in \<open>simp add: reserve_rows_loop.simps\<close>)
qed

lemma reserve_rows_many:
  assumes "arch_ok a"
  shows "\<exists>rs b q. reserve_rows n a p = Some (rs, b, q)
    \<and> reserve_many n a p =
        (concat (map range_locations rs), b\<lparr>column_versions := map (\<lambda>v. v + of_nat n) (column_versions a)\<rparr>, q)
    \<and> column_versions b = map (\<lambda>v. v + of_nat (length rs)) (column_versions a)"
proof (cases "n = 0")
  case False
  have "with_counters (column_versions a) (total_entity_count a) a = a" by simp
  then obtain rs b q where "reserve_rows_loop n a p [] = Some (rs, b, q)"
    "reserve_many n a p = (concat (map range_locations rs),
        with_counters (map (\<lambda>v. v + of_nat n) (column_versions a)) (total_entity_count a + n) b, q)"
    using reserve_rows_loop_eq [where vs = "column_versions a" and t = "total_entity_count a" and a = a and n = n and p = p and out = "[]"] assms by auto
  moreover have "column_versions b = column_versions a \<and> total_entity_count b = total_entity_count a"
    using calculation(1) by (rule reserve_rows_loop_counters)
  ultimately show ?thesis using False by (simp add: reserve_rows_def bump_versions_def)
qed (simp add: reserve_rows_def)

text \<open>C35: Bulk reservation hands out the rows of \<open>n\<close> single reservations and leaves the same chunks and the
  same pool; only the version counters differ, one step per chunk touched instead of one per row.\<close>

theorem reserve_rows_equiv:
  assumes "arch_ok a"
  shows "\<exists>rs b q. reserve_rows n a p = Some (rs, b, q)
    \<and> reserve_many n a p =
        (concat (map range_locations rs), b\<lparr>column_versions := map (\<lambda>v. v + of_nat n) (column_versions a)\<rparr>, q)
    \<and> column_versions b = map (\<lambda>v. v + of_nat (length rs)) (column_versions a)"
  using assms by (rule reserve_rows_many)

definition demo_archetype :: "nat Archetype" where
  "demo_archetype = \<lparr>signature = [4], vtables = [\<lparr>vt_size = 4, vt_align = 4\<rparr>], column_offsets = [16],
     column_versions = [7], chunk_capacity = 2, total_entity_count = 0, chunks = [], matcher_hash = 16\<rparr>"

theorem reserve_rows_equiv_witness:
  "fst (reserve_many 3 demo_archetype empty_pool) =
     [\<lparr>loc_chunk = 0, loc_row = 0\<rparr>, \<lparr>loc_chunk = 0, loc_row = 1\<rparr>, \<lparr>loc_chunk = 1, loc_row = 0\<rparr>]
   \<and> (\<exists>rs b q. reserve_rows 3 demo_archetype empty_pool = Some (rs, b, q) \<and> column_versions b = [7 + of_nat (length rs)])"
proof -
  have "arch_ok demo_archetype" by (simp add: arch_ok_def demo_archetype_def arch_rows_def)
  from reserve_rows_equiv [OF this, of 3 empty_pool]
  have "\<exists>rs b q. reserve_rows 3 demo_archetype empty_pool = Some (rs, b, q) \<and> column_versions b = [7 + of_nat (length rs)]"
    by (auto simp: demo_archetype_def)
  moreover have "fst (reserve_many 3 demo_archetype empty_pool) =
     [\<lparr>loc_chunk = 0, loc_row = 0\<rparr>, \<lparr>loc_chunk = 0, loc_row = 1\<rparr>, \<lparr>loc_chunk = 1, loc_row = 0\<rparr>]"
    by (simp add: numeral_3_eq_3 reserve_row_unfold demo_archetype_def needs_chunk_def allocate_chunk_def
        case_prod_unfold Let_def add_raw_rows_def bump_versions_def chunk_count_def)
  ultimately show ?thesis by blast
qed

section \<open>Swap-remove\<close>

text \<open>A row is live when exactly the columns with a slab hold a value, and raw when no column does.\<close>

definition row_live :: "nat list \<Rightarrow> 'v Row \<Rightarrow> bool" where
  "row_live offs r \<longleftrightarrow> list_all2 (\<lambda>offset c. (offset = NO_COLUMN_OFFSET) = (c = None)) offs (row_cells r)"

definition row_raw :: "nat list \<Rightarrow> 'v Row \<Rightarrow> bool" where
  "row_raw offs r \<longleftrightarrow> row_cells r = replicate (length offs) None"

lemma move_cells_live:
  "list_all2 (\<lambda>offset c. (offset = NO_COLUMN_OFFSET) = (c = None)) offs ss \<Longrightarrow>
     move_cells offs (replicate (length offs) None) ss = Some (ss, replicate (length offs) None)"
  by (induction offs ss rule: list_all2_induct) auto

lemma destroy_cells_live:
  "list_all2 (\<lambda>offset c. (offset = NO_COLUMN_OFFSET) = (c = None)) offs cs \<Longrightarrow>
     destroy_cells offs cs = Some (replicate (length offs) None)"
  by (induction offs cs rule: list_all2_induct) auto

lemma get_row_last:
  assumes "arch_ok a" "arch_rows a \<noteq> []"
  shows "get_row a (last_row_location a) = Some (last (arch_rows a))"
    "flat_pos a (last_row_location a) = length (arch_rows a) - 1"
proof -
  have pk: "packed (chunk_capacity a) (map chunk_rows (chunks a))" using assms(1) by (simp add: arch_ok_def)
  obtain cs c where cs: "chunks a = cs @ [c]"
    using assms(2) by (cases "chunks a" rule: rev_cases) (auto simp: arch_rows_def)
  then have ne: "chunk_rows c \<noteq> []" and full: "\<forall>d \<in> set cs. length (chunk_rows d) = chunk_capacity a"
    using pk by (auto simp: packed_append)
  show "get_row a (last_row_location a) = Some (last (arch_rows a))"
    using ne by (simp add: get_row_def last_row_location_def cs chunk_count_def arch_rows_def
        last_conv_nth [of "chunk_rows c"] nth_append)
  have "length (arch_rows a) = length cs * chunk_capacity a + length (chunk_rows c)"
    using packed_length [of "chunk_capacity a" "map chunk_rows cs" "chunk_rows c"] pk by (simp add: cs arch_rows_def)
  then show "flat_pos a (last_row_location a) = length (arch_rows a) - 1"
    using ne by (cases "chunk_rows c") (simp_all add: flat_pos_def last_row_location_def cs chunk_count_def)
qed

lemma digits_unique:
  fixes b c m r s :: nat
  assumes "b * m + r = c * m + s" "r < m" "s < m"
  shows "b = c" "r = s"
proof -
  have "b = (b * m + r) div m" "c = (c * m + s) div m" "r = (b * m + r) mod m" "s = (c * m + s) mod m"
    using assms(2,3) by simp_all
  then show "b = c" using assms(1) by presburger
  then show "r = s" using assms(1) by simp
qed

lemma flat_pos_inj:
  assumes "arch_ok a" "get_row a l = Some r" "get_row a m = Some s" "flat_pos a l = flat_pos a m"
  shows "l = m"
proof -
  have small: "loc_row k < chunk_capacity a" if "get_row a k = Some t" for k t
  proof -
    have "loc_chunk k < length (chunks a)" "loc_row k < length (chunk_rows (chunks a ! loc_chunk k))"
      using that by (auto simp: get_row_def chunk_count_def split: if_splits)
    moreover have "\<forall>xs \<in> set (map chunk_rows (chunks a)). length xs \<le> chunk_capacity a"
      using assms(1) by (cases "chunks a" rule: rev_cases) (auto simp: arch_ok_def packed_append)
    ultimately show ?thesis using nth_mem by fastforce
  qed
  have "loc_chunk l = loc_chunk m" "loc_row l = loc_row m"
    using assms(4) small [OF assms(2)] small [OF assms(3)]
    unfolding flat_pos_def by (rule digits_unique)+
  then show ?thesis by simp
qed

lemma set_row_blocks:
  "get_row a l = Some r \<Longrightarrow> map chunk_block (chunks (set_row l x a)) = map chunk_block (chunks a)
    \<and> map chunk_count (chunks (set_row l x a)) = map chunk_count (chunks a)"
  by (auto simp: set_row_def get_row_def chunk_count_def map_update intro!: nth_equalityI
      simp: nth_list_update split: if_splits)

lemma pop_row_spec:
  assumes "arch_ok a" "arch_rows a \<noteq> []" "pop_row a p = (b, q)"
  shows "arch_rows b = butlast (arch_rows a)" "arch_ok b" "same_shape b a" "column_versions b = column_versions a"
    "q = (if chunk_count (last (chunks a)) = 1 then pool_release (Some (chunk_block (last (chunks a)))) p else p)"
proof -
  have pk: "packed (chunk_capacity a) (map chunk_rows (chunks a))" using assms(1) by (simp add: arch_ok_def)
  obtain cs c where cs: "chunks a = cs @ [c]"
    using assms(2) by (cases "chunks a" rule: rev_cases) (auto simp: arch_rows_def)
  then have ne: "chunk_rows c \<noteq> []" and le: "length (chunk_rows c) \<le> chunk_capacity a"
    and full: "\<forall>d \<in> set cs. length (chunk_rows d) = chunk_capacity a" using pk by (auto simp: packed_append)
  have one: "butlast (chunk_rows c) = [] \<longleftrightarrow> length (chunk_rows c) = 1"
    using ne by (cases "chunk_rows c" rule: rev_cases) auto
  have pr: "pop_row a p = (if length (chunk_rows c) = 1
      then (a\<lparr>chunks := cs, total_entity_count := total_entity_count a - 1\<rparr>, pool_release (Some (chunk_block c)) p)
      else (a\<lparr>chunks := cs @ [c\<lparr>chunk_rows := butlast (chunk_rows c)\<rparr>],
              total_entity_count := total_entity_count a - 1\<rparr>, p))"
    using one ne by (simp add: pop_row_def drop_empty_trailing_chunk_def cs chunk_count_def le_Suc_eq)
  then have b: "b = (if length (chunk_rows c) = 1 then a\<lparr>chunks := cs, total_entity_count := total_entity_count a - 1\<rparr>
      else a\<lparr>chunks := cs @ [c\<lparr>chunk_rows := butlast (chunk_rows c)\<rparr>], total_entity_count := total_entity_count a - 1\<rparr>)"
    using assms(3) by (simp split: if_splits)
  have "q = (if length (chunk_rows c) = 1 then pool_release (Some (chunk_block c)) p else p)"
    using assms(3) pr by (simp split: if_splits)
  then show "q = (if chunk_count (last (chunks a)) = 1 then pool_release (Some (chunk_block (last (chunks a)))) p else p)"
    by (simp add: cs chunk_count_def)
  show rows: "arch_rows b = butlast (arch_rows a)"
    using one ne by (auto simp: b arch_rows_def cs butlast_append)
  show "same_shape b a" "column_versions b = column_versions a" by (simp_all add: b same_shape_def)
  have "packed (chunk_capacity a) (map chunk_rows (chunks b))"
  proof (cases "length (chunk_rows c) = 1")
    case True
    then show ?thesis using pk packed_front [of _ "map chunk_rows cs" "chunk_rows c"] assms(1)
      by (simp add: b cs arch_ok_def)
  next
    case False
    then have "1 < length (chunk_rows c)" using ne by (cases "chunk_rows c") auto
    then show ?thesis using False full le by (simp add: b packed_append)
  qed
  moreover have "\<forall>r \<in> set (arch_rows b). length (row_cells r) = length (signature a)"
    using assms(1) unfolding rows by (auto simp: arch_ok_def dest: in_set_butlastD)
  moreover have "chunk_capacity b = chunk_capacity a" "signature b = signature a" "column_offsets b = column_offsets a"
    "total_entity_count b = total_entity_count a - 1"
    by (simp_all add: b)
  ultimately show "arch_ok b"
    using assms(1) by (simp add: arch_ok_def rows)
qed


text \<open>The state the removed row is in when the archetype compacts: raw, while every other row is live.\<close>

definition hole_ready :: "'v Archetype \<Rightarrow> RowLocation \<Rightarrow> bool" where
  "hole_ready a l \<longleftrightarrow> arch_ok a \<and> get_row a l \<noteq> None
     \<and> (\<forall>i < length (arch_rows a). if i = flat_pos a l then row_raw (column_offsets a) (arch_rows a ! i)
           else row_live (column_offsets a) (arch_rows a ! i))"

lemma bump_version_facts [simp]:
  "arch_rows (bump_versions n a) = arch_rows a" "arch_ok (bump_versions n a) = arch_ok a"
  "get_row (bump_versions n a) = get_row a" "flat_pos (bump_versions n a) = flat_pos a"
  "last_row_location (bump_versions n a) = last_row_location a" "chunks (bump_versions n a) = chunks a"
  "column_offsets (bump_versions n a) = column_offsets a" "same_shape (bump_versions n a) a"
  by (auto simp: bump_versions_def arch_rows_def arch_ok_def get_row_def flat_pos_def last_row_location_def same_shape_def)

lemma compact_rows_result:
  assumes h: "hole_ready a l" and pop: "pop_row x p = (b, q)"
    and x: "x = (if l = last_row_location a then bump_versions 1 a
       else set_row l (last (arch_rows a)) (set_row (last_row_location a)
              ((last (arch_rows a))\<lparr>row_cells := replicate (length (column_offsets a)) None\<rparr>) (bump_versions 1 a)))"
  shows "compact_rows l a p =
     Some (if l = last_row_location a then None else row_entity (last (arch_rows a)), b, q)"
proof -
  obtain hole where hole: "get_row a l = Some hole" using h by (auto simp: hole_ready_def)
  have ok: "arch_ok a" using h by (simp add: hole_ready_def)
  note pos = get_row_flat [OF ok hole]
  then have ne: "arch_rows a \<noteq> []" by auto
  note final = get_row_last [OF ok ne]
  have raw: "row_cells hole = replicate (length (column_offsets a)) None"
    using h pos by (auto simp: hole_ready_def row_raw_def)
  show ?thesis
  proof (cases "l = last_row_location a")
    case True
    then have "hole = last (arch_rows a)" using final(1) hole by simp
    then show ?thesis using True hole raw pop
      by (simp add: compact_rows_def x list_ex_iff)
  next
    case False
    let ?f = "last (arch_rows a)" and ?m = "last_row_location a"
    have "flat_pos a l \<noteq> length (arch_rows a) - 1"
      using flat_pos_inj [OF ok hole final(1)] final(2) False by auto
    then have "row_live (column_offsets a) ?f"
      using h ne by (auto simp: hole_ready_def last_conv_nth)
    then have mv: "move_cells (column_offsets a) (row_cells hole) (row_cells ?f)
        = Some (row_cells ?f, replicate (length (column_offsets a)) None)"
      unfolding raw row_live_def by (rule move_cells_live)
    have same: "hole\<lparr>row_entity := row_entity ?f, row_cells := row_cells ?f\<rparr> = ?f" by (cases hole; cases ?f) simp
    have "get_row x ?m = Some (?f\<lparr>row_cells := replicate (length (column_offsets a)) None\<rparr>)"
      using False hole final(1) by (simp add: x get_set_row [of _ l hole] get_set_row [of _ ?m ?f])
    then show ?thesis using False hole final(1) pop
      by (simp add: compact_rows_def mv same x list_ex_iff)
  qed
qed

lemma compact_rows_rows:
  fixes a :: "'v Archetype"
  assumes h: "hole_ready a l"
  defines "x \<equiv> (if l = last_row_location a then bump_versions 1 a
       else set_row l (last (arch_rows a)) (set_row (last_row_location a)
              ((last (arch_rows a))\<lparr>row_cells := replicate (length (column_offsets a)) None\<rparr>) (bump_versions 1 a)))"
  shows "arch_ok x" "same_shape x a" "butlast (arch_rows x) = butlast ((arch_rows a)[flat_pos a l := last (arch_rows a)])"
    "arch_rows x \<noteq> []" "map chunk_block (chunks x) = map chunk_block (chunks a)"
    "map chunk_count (chunks x) = map chunk_count (chunks a)"
    "column_versions x = map (\<lambda>v. v + 1) (column_versions a)"
proof -
  obtain hole where hole: "get_row a l = Some hole" using h by (auto simp: hole_ready_def)
  have ok: "arch_ok a" using h by (simp add: hole_ready_def)
  note pos = get_row_flat [OF ok hole]
  then have ne: "arch_rows a \<noteq> []" by auto
  note final = get_row_last [OF ok ne]
  let ?f = "last (arch_rows a)" and ?m = "last_row_location a"
  let ?y = "set_row ?m (?f\<lparr>row_cells := replicate (length (column_offsets a)) None\<rparr>) (bump_versions 1 a)"
  have okb: "arch_ok (bump_versions 1 a)" and fb: "get_row (bump_versions 1 a) ?m = Some ?f" using ok final by simp_all
  have fcells: "length (row_cells ?f) = length (signature a)" "length (column_offsets a) = length (signature a)"
    using ok ne by (auto simp: arch_ok_def)
  have sb: "signature (bump_versions 1 a) = signature a" by (simp add: bump_versions_def)
  have oky: "arch_ok ?y" by (rule set_row_ok [OF okb fb]) (simp add: fcells sb)
  note ry = set_row_rows [OF okb fb, of "?f\<lparr>row_cells := replicate (length (column_offsets a)) None\<rparr>"]
  have yl: "get_row ?y l = Some (if l = ?m then ?f\<lparr>row_cells := replicate (length (column_offsets a)) None\<rparr> else hole)"
    using get_set_row [OF fb] hole by simp
  have shy: "same_shape ?y a" using ry(3) by (auto simp: same_shape_def bump_versions_def)
  have okx: "arch_ok (set_row l ?f ?y)"
    by (rule set_row_ok [OF oky yl]) (use fcells shy in \<open>simp add: same_shape_def\<close>)
  note rx = set_row_rows [OF oky yl, of ?f]
  have rows: "arch_rows (set_row l ?f ?y) =
      (arch_rows a)[length (arch_rows a) - 1 := ?f\<lparr>row_cells := replicate (length (column_offsets a)) None\<rparr>, flat_pos a l := ?f]"
    using rx(1) ry(1) final(2) same_shape_flat [OF shy] by simp
  show "arch_ok x" "same_shape x a" using okx rx(3) shy okb by (auto simp: x_def same_shape_def bump_versions_def)
  show "arch_rows x \<noteq> []" using rows ne by (simp add: x_def)
  show "map chunk_block (chunks x) = map chunk_block (chunks a)" "map chunk_count (chunks x) = map chunk_count (chunks a)"
    using set_row_blocks [OF yl, of ?f] set_row_blocks [OF fb] by (simp_all add: x_def)
  show "column_versions x = map (\<lambda>v. v + 1) (column_versions a)"
    by (simp add: x_def set_row_def bump_versions_def)
  show "butlast (arch_rows x) = butlast ((arch_rows a)[flat_pos a l := ?f])"
  proof (cases "l = ?m")
    case True
    then show ?thesis using ne final(2) by (simp add: x_def last_conv_nth)
  next
    case False
    then have "flat_pos a l \<noteq> length (arch_rows a) - 1"
      using flat_pos_inj [OF ok hole final(1)] final(2) by auto
    then show ?thesis using False rows by (auto simp: x_def list_update_swap [of _ "flat_pos a l"] butlast_list_update)
  qed
qed

lemma compact_rows_spec:
  assumes "hole_ready a l"
  shows "\<exists>b. compact_rows l a p =
      Some (if flat_pos a l = length (arch_rows a) - 1 then None else row_entity (last (arch_rows a)), b,
        if chunk_count (last (chunks a)) = 1 then pool_release (Some (chunk_block (last (chunks a)))) p else p)
    \<and> arch_ok b \<and> same_shape b a \<and> column_versions b = map (\<lambda>v. v + 1) (column_versions a)
    \<and> arch_rows b = butlast ((arch_rows a)[flat_pos a l := last (arch_rows a)])
    \<and> (\<forall>r \<in> set (arch_rows b). row_live (column_offsets a) r)"
proof -
  define x where "x = (if l = last_row_location a then bump_versions 1 a
       else set_row l (last (arch_rows a)) (set_row (last_row_location a)
              ((last (arch_rows a))\<lparr>row_cells := replicate (length (column_offsets a)) None\<rparr>) (bump_versions 1 a)))"
  obtain b q where bq: "pop_row x p = (b, q)" by fastforce
  note rx = compact_rows_rows [OF assms, folded x_def]
  note pr = pop_row_spec [OF rx(1,4) bq]
  obtain hole where hole: "get_row a l = Some hole" using assms by (auto simp: hole_ready_def)
  have ok: "arch_ok a" using assms by (simp add: hole_ready_def)
  note pos = get_row_flat [OF ok hole]
  then have ne: "arch_rows a \<noteq> []" by auto
  note final = get_row_last [OF ok ne]
  have at_end: "l = last_row_location a \<longleftrightarrow> flat_pos a l = length (arch_rows a) - 1"
    using flat_pos_inj [OF ok hole final(1)] final(2) by auto
  have "chunks a \<noteq> []" "chunks x \<noteq> []" using ne rx(4) by (auto simp: arch_rows_def)
  then have lasts: "chunk_count (last (chunks x)) = chunk_count (last (chunks a))"
    "chunk_block (last (chunks x)) = chunk_block (last (chunks a))"
    using rx(5,6) by (metis last_map)+
  have rows: "arch_rows b = butlast ((arch_rows a)[flat_pos a l := last (arch_rows a)])" using pr(1) rx(3) by simp
  have off: "column_offsets a = column_offsets b" "same_shape b a"
    using pr(3) rx(2) by (auto simp: same_shape_def)
  have "row_live (column_offsets a) r" if "r \<in> set (arch_rows b)" for r
  proof -
    obtain i where i: "i < length (arch_rows a) - 1" "r = ((arch_rows a)[flat_pos a l := last (arch_rows a)]) ! i"
      using \<open>r \<in> set (arch_rows b)\<close> unfolding rows in_set_conv_nth by (auto simp: nth_butlast)
    show ?thesis
    proof (cases "i = flat_pos a l")
      case True
      then show ?thesis using i assms pos ne by (auto simp: hole_ready_def last_conv_nth)
    next
      case False
      then show ?thesis using i assms by (auto simp: hole_ready_def)
    qed
  qed
  then show ?thesis
    using compact_rows_result [OF assms bq x_def] pr(2,4,5) rx(7) rows off lasts at_end
    by (intro exI [of _ b]) simp
qed

text \<open>Removing a row whose cells were moved out or destroyed never touches a dead cell, fills the hole
  with the last row, reports the entity that moved, and gives the last chunk back exactly when it
  held only that row.\<close>

theorem compact_rows_swap_remove:
  assumes "hole_ready a l"
  shows "\<exists>b. compact_rows l a p =
      Some (if flat_pos a l = length (arch_rows a) - 1 then None else row_entity (last (arch_rows a)), b,
        if chunk_count (last (chunks a)) = 1 then pool_release (Some (chunk_block (last (chunks a)))) p else p)
    \<and> arch_ok b \<and> same_shape b a \<and> column_versions b = map (\<lambda>v. v + 1) (column_versions a)
    \<and> arch_rows b = butlast ((arch_rows a)[flat_pos a l := last (arch_rows a)])
    \<and> (\<forall>r \<in> set (arch_rows b). row_live (column_offsets a) r)"
  using assms by (rule compact_rows_spec)

theorem compact_rows_swap_remove_witness:
  "\<exists>b. compact_rows \<lparr>loc_chunk = 0, loc_row = 0\<rparr>
        (demo_archetype\<lparr>chunks := [\<lparr>chunk_block = 5, chunk_rows =
            [\<lparr>row_entity = None, row_cells = [None]\<rparr>, \<lparr>row_entity = Some INVALID_ENTITY_ID, row_cells = [Some 3]\<rparr>]\<rparr>],
          total_entity_count := 2\<rparr>) empty_pool = Some (Some INVALID_ENTITY_ID, b, empty_pool)
     \<and> arch_rows b = [\<lparr>row_entity = Some INVALID_ENTITY_ID, row_cells = [Some 3]\<rparr>]"
proof -
  let ?a = "demo_archetype\<lparr>chunks := [\<lparr>chunk_block = 5, chunk_rows =
            [\<lparr>row_entity = None, row_cells = [None]\<rparr>, \<lparr>row_entity = Some INVALID_ENTITY_ID, row_cells = [Some 3]\<rparr>]\<rparr>],
          total_entity_count := 2\<rparr>"
  have "hole_ready ?a \<lparr>loc_chunk = 0, loc_row = 0\<rparr>"
    by (auto simp: hole_ready_def arch_ok_def arch_rows_def demo_archetype_def get_row_def flat_pos_def chunk_count_def
        row_raw_def row_live_def NO_COLUMN_OFFSET_def less_Suc_eq)
  from compact_rows_swap_remove [OF this, of empty_pool] show ?thesis
    by (auto simp: arch_rows_def demo_archetype_def flat_pos_def chunk_count_def)
qed

end
