(* ===== verification/Entity_World.thy ===== *)
theory Entity_World
  imports Archetype_Store
begin

text \<open>
  \<open>src/openvic-simulation/ecs/World.hpp\<close> and \<open>ecs/World.cpp\<close>: the operations of the World that
  create, change and destroy entities, over the slot table and the archetypes.

  A component type is its identifier; \<open>vt\<close> is \<open>column_vtable_for\<close>, size zero marking an empty type,
  a tag without data.  A result \<^const>\<open>None\<close> is a fault: an index outside its vector or a
  lifetime error.  A pointer to a component is the place it addresses.
\<close>

record QueryCacheKey =
  require_ids :: "component_type_id_t list"
  exclude_ids :: "component_type_id_t list"

record CachedQuery =
  epoch :: u32
  require_matcher :: u64
  exclude_matcher :: u64
  archetype_indices :: "u32 list"

record 'v World = slot_table +
  archetypes :: "'v Archetype list"
  archetype_by_signature :: "component_type_id_t list \<Rightarrow> u32 option"
  archetype_epoch :: u32
  query_cache :: "QueryCacheKey \<Rightarrow> CachedQuery option"
  chunk_pool :: ChunkPool
  singletons :: "component_type_id_t \<Rightarrow> 'v option"

type_synonym vtables_of = "component_type_id_t \<Rightarrow> ColumnVTable"

definition empty_world :: "'v World" where
  "empty_world = \<lparr>entity_slots = [], first_free = 0, has_free = False, in_tick = False, in_apply_phase = False,
     archetypes = [], archetype_by_signature = (\<lambda>_. None), archetype_epoch = 0, query_cache = (\<lambda>_. None),
     chunk_pool = empty_pool, singletons = (\<lambda>_. None)\<rparr>"

section \<open>Archetypes of the world\<close>

definition arch_at :: "'v World \<Rightarrow> u32 \<Rightarrow> 'v Archetype option" where
  "arch_at w i = arr_get (archetypes w) (uint i)"

definition set_arch :: "u32 \<Rightarrow> 'v Archetype \<Rightarrow> 'v World \<Rightarrow> 'v World" where
  "set_arch i a w = w\<lparr>archetypes := (archetypes w)[unat i := a]\<rparr>"

definition new_archetype :: "component_type_id_t list \<Rightarrow> ColumnVTable list \<Rightarrow> 'v Archetype" where
  "new_archetype sig vts =
     \<lparr>signature = sig, vtables = vts, column_offsets = snd (compute_chunk_layout vts),
      column_versions = replicate (length sig) 0, chunk_capacity = fst (compute_chunk_layout vts),
      total_entity_count = 0, chunks = [], matcher_hash = compute_matcher_hash sig\<rparr>"

definition find_or_create_archetype ::
    "component_type_id_t list \<Rightarrow> ColumnVTable list \<Rightarrow> 'v World \<Rightarrow> u32 \<times> 'v World" where
  "find_or_create_archetype sig vts w =
     (case archetype_by_signature w sig of
        Some i \<Rightarrow> (i, w)
      | None \<Rightarrow>
          let i = (of_nat (length (archetypes w)) :: u32);
              w = w\<lparr>archetypes := archetypes w @ [new_archetype sig vts],
                    archetype_by_signature := (archetype_by_signature w)(sig := Some i),
                    archetype_epoch := archetype_epoch w + 1\<rparr>
          in (i, if archetype_epoch w = 0 then w\<lparr>query_cache := (\<lambda>_. None), archetype_epoch := 1\<rparr> else w))"

text \<open>The exchange sort of the signature: the inner pass leaves the least remaining id in front.\<close>

fun exchange_pass :: "(component_type_id_t \<times> 'x) \<Rightarrow> (component_type_id_t \<times> 'x) list \<Rightarrow>
    (component_type_id_t \<times> 'x) \<times> (component_type_id_t \<times> 'x) list" where
  "exchange_pass x [] = (x, [])"
| "exchange_pass x (y # ys) =
     (if fst y < fst x then let (m, zs) = exchange_pass y ys in (m, x # zs)
      else let (m, zs) = exchange_pass x ys in (m, y # zs))"

lemma exchange_pass_length [simp]: "length (snd (exchange_pass x ys)) = length ys"
  by (induction ys arbitrary: x) (simp_all add: case_prod_unfold Let_def)

function exchange_sort :: "(component_type_id_t \<times> 'x) list \<Rightarrow> (component_type_id_t \<times> 'x) list" where
  "exchange_sort [] = []"
| "exchange_sort (x # xs) = (let p = exchange_pass x xs in fst p # exchange_sort (snd p))"
  by pat_completeness auto
termination by (relation "measure length") auto

section \<open>Rows of an archetype\<close>

definition write_entity :: "RowLocation \<Rightarrow> EntityID \<Rightarrow> 'v Archetype \<Rightarrow> 'v Archetype option" where
  "write_entity l e a = do { r \<leftarrow> get_row a l; Some (set_row l (r\<lparr>row_entity := Some e\<rparr>) a) }"

text \<open>Placement new into a raw cell.\<close>

definition construct_cell :: "nat \<Rightarrow> 'v \<Rightarrow> 'v option list \<Rightarrow> 'v option list option" where
  "construct_cell i v cs = (if i < length cs \<and> cs ! i = None then Some (cs[i := Some v]) else None)"

text \<open>The fold of \<open>place\<close> over the given components, each finding its column by id.\<close>

fun place_cells ::
    "vtables_of \<Rightarrow> 'v Archetype \<Rightarrow> (component_type_id_t \<times> 'v) list \<Rightarrow> 'v option list \<Rightarrow> 'v option list option" where
  "place_cells vt a [] cs = Some cs"
| "place_cells vt a ((c, v) # comps) cs =
     (if vt_size (vt c) = 0 then place_cells vt a comps cs
      else do {
        i \<leftarrow> column_index_for a c;
        cs \<leftarrow> construct_cell i v cs;
        place_cells vt a comps cs })"

definition with_cells ::
    "RowLocation \<Rightarrow> ('v option list \<Rightarrow> 'v option list option) \<Rightarrow> 'v Archetype \<Rightarrow> 'v Archetype option" where
  "with_cells l f a = do { r \<leftarrow> get_row a l; cs \<leftarrow> f (row_cells r); Some (set_row l (r\<lparr>row_cells := cs\<rparr>) a) }"

section \<open>Creating entities\<close>

text \<open>A new row of an archetype: reserved, its entity written, its cells constructed.\<close>

definition insert_into :: "EntityID \<Rightarrow> u32 \<Rightarrow> ('v Archetype \<Rightarrow> 'v option list \<Rightarrow> 'v option list option) \<Rightarrow> 'v World \<Rightarrow>
    (RowLocation \<times> 'v World) option" where
  "insert_into e ai f w = do {
     a \<leftarrow> arch_at w ai;
     let (l, a, p) = reserve_row a (chunk_pool w);
     a \<leftarrow> write_entity l e a;
     a \<leftarrow> with_cells l (f a) a;
     Some (l, (set_arch ai a w)\<lparr>chunk_pool := p\<rparr>) }"

definition place_slot ::
    "EntityID \<Rightarrow> u32 \<Rightarrow> RowLocation \<Rightarrow> 'a slot_table_scheme \<Rightarrow> 'a slot_table_scheme option" where
  "place_slot e ai l w = do {
     slot \<leftarrow> slot_at w (index e);
     Some (set_slot (index e) (slot\<lparr>archetype_index := ai, chunk_index := of_nat (loc_chunk l),
       row := of_nat (loc_row l)\<rparr>) w) }"

definition stamp_immutable :: "EntityID \<Rightarrow> bool \<Rightarrow> 'a slot_table_scheme \<Rightarrow> 'a slot_table_scheme option" where
  "stamp_immutable e b w = do { slot \<leftarrow> slot_at w (index e); Some (set_slot (index e) (slot\<lparr>immutable := b\<rparr>) w) }"

definition create_entity_impl ::
    "vtables_of \<Rightarrow> bool \<Rightarrow> (component_type_id_t \<times> 'v) list \<Rightarrow> 'v World \<Rightarrow> (EntityID \<times> 'v World) option" where
  "create_entity_impl vt immut comps w =
     (if in_tick_or_log w then Some (INVALID_ENTITY_ID, w)
      else do {
        let sorted = exchange_sort (map (\<lambda>(c, v). (c, vt c)) comps);
        let (ai, w) = find_or_create_archetype (map fst sorted) (map snd sorted) w;
        (eid, w) \<leftarrow> allocate_entity_slot w;
        (l, w) \<leftarrow> insert_into eid ai (\<lambda>a. place_cells vt a comps) w;
        w \<leftarrow> place_slot eid ai l w;
        w \<leftarrow> stamp_immutable eid immut w;
        Some (eid, w) })"

text \<open>
  Finalising a reserved slot: the values arrive in signature order, \<^const>\<open>None\<close> for a tag or an
  exhausted source; moving from an exhausted source is a fault.
\<close>

fun fill_cells :: "ColumnVTable list \<Rightarrow> 'v option list \<Rightarrow> 'v option list \<Rightarrow> 'v option list option" where
  "fill_cells [] [] [] = Some []"
| "fill_cells (vt # vts) (v # vs) (c # cs) =
     (if vt_size vt = 0 then map_option ((#) c) (fill_cells vts vs cs)
      else case (c, v) of
             (None, Some x) \<Rightarrow> map_option ((#) (Some x)) (fill_cells vts vs cs)
           | _ \<Rightarrow> None)"
| "fill_cells _ _ _ = None"

definition finalize_reserved_entity ::
    "EntityID \<Rightarrow> component_type_id_t list \<Rightarrow> ColumnVTable list \<Rightarrow> 'v option list \<Rightarrow> 'v World \<Rightarrow> 'v World option" where
  "finalize_reserved_entity eid sig vts vals w =
     (case slot_at w (index eid) of
        None \<Rightarrow> Some w
      | Some slot \<Rightarrow>
          if \<not> alive slot \<or> slot_generation slot \<noteq> generation eid then Some w
          else if archetype_index slot \<noteq> INVALID_ARCHETYPE then Some w
          else do {
            let (ai, w) = find_or_create_archetype sig vts w;
            (l, w) \<leftarrow> insert_into eid ai (\<lambda>_. fill_cells vts vals) w;
            place_slot eid ai l w })"

text \<open>The staged value of a column: the one given for its id, nothing for a tag.\<close>

definition staged_values :: "vtables_of \<Rightarrow> (component_type_id_t \<times> 'v) list \<Rightarrow> component_type_id_t list \<Rightarrow> 'v option list" where
  "staged_values vt comps sig = map (\<lambda>c. if vt_size (vt c) = 0 then None else map_of comps c) sig"

definition restore_entity ::
    "vtables_of \<Rightarrow> EntityID \<Rightarrow> (component_type_id_t \<times> 'v) list \<Rightarrow> 'v World \<Rightarrow> (bool \<times> 'v World) option" where
  "restore_entity vt eid comps w =
     (if in_tick_or_log w then Some (False, w)
      else if \<not> restore_entity_precheck w eid then Some (False, w)
      else do {
        let sorted = exchange_sort (map (\<lambda>(c, v). (c, vt c)) comps);
        w \<leftarrow> finalize_reserved_entity eid (map fst sorted) (map snd sorted)
               (staged_values vt comps (map fst sorted)) w;
        Some (True, w) })"

section \<open>Removing rows\<close>

definition compact_archetype_after_external_move ::
    "u32 \<Rightarrow> RowLocation \<Rightarrow> 'v World \<Rightarrow> 'v World option" where
  "compact_archetype_after_external_move ai l w = do {
     a \<leftarrow> arch_at w ai;
     (moved, a, p) \<leftarrow> compact_rows l a (chunk_pool w);
     let w = (set_arch ai a w)\<lparr>chunk_pool := p\<rparr>;
     (case moved of
        None \<Rightarrow> Some w
      | Some e \<Rightarrow> do {
          slot \<leftarrow> slot_at w (index e);
          Some (set_slot (index e) (slot\<lparr>chunk_index := of_nat (loc_chunk l), row := of_nat (loc_row l)\<rparr>) w) }) }"

definition slot_loc :: "EntitySlot \<Rightarrow> RowLocation" where
  "slot_loc slot = \<lparr>loc_chunk = unat (chunk_index slot), loc_row = unat (row slot)\<rparr>"

definition destroy_entity :: "EntityID \<Rightarrow> 'v World \<Rightarrow> 'v World option" where
  "destroy_entity e w =
     (if in_tick_or_log w then Some w
      else if eid_is_deferred e then Some w
      else case slot_at w (index e) of
             None \<Rightarrow> Some w
           | Some slot \<Rightarrow>
               if \<not> alive slot \<or> slot_generation slot \<noteq> generation e then Some w
               else if archetype_index slot = INVALID_ARCHETYPE then Some (drop_reserved_slot e w)
               else do {
                 a \<leftarrow> arch_at w (archetype_index slot);
                 a \<leftarrow> with_cells (slot_loc slot) (destroy_cells (column_offsets a)) a;
                 w \<leftarrow> compact_archetype_after_external_move (archetype_index slot) (slot_loc slot)
                        (set_arch (archetype_index slot) a w);
                 Some (push_free (index e) w) })"

section \<open>Reading components\<close>

text \<open>The place a component pointer addresses: archetype, row, column.\<close>

type_synonym cell_place = "u32 \<times> RowLocation \<times> nat"

text \<open>\<^const>\<open>None\<close> is a fault, \<open>Some None\<close> the null pointer.\<close>

definition get_component ::
    "vtables_of \<Rightarrow> component_type_id_t \<Rightarrow> 'v World \<Rightarrow> EntityID \<Rightarrow> cell_place option option" where
  "get_component vt c w e =
     (if \<not> eid_is_alive w e then Some None
      else do {
        slot \<leftarrow> slot_at w (index e);
        a \<leftarrow> arch_at w (archetype_index slot);
        (case column_index_for a c of
           None \<Rightarrow> Some None
         | Some col \<Rightarrow> if vt_size (vt c) = 0 then Some None
             else Some (Some (archetype_index slot, slot_loc slot, col))) })"

definition load_cell :: "'v World \<Rightarrow> cell_place \<Rightarrow> 'v option" where
  "load_cell w pl = (case pl of (ai, l, col) \<Rightarrow> do {
     a \<leftarrow> arch_at w ai;
     r \<leftarrow> get_row a l;
     if col < length (row_cells r) then row_cells r ! col else None })"

definition has_component :: "component_type_id_t \<Rightarrow> 'v World \<Rightarrow> EntityID \<Rightarrow> bool option" where
  "has_component c w e =
     (if \<not> eid_is_alive w e then Some False
      else do {
        slot \<leftarrow> slot_at w (index e);
        a \<leftarrow> arch_at w (archetype_index slot);
        Some (arch_has_component a c) })"

definition component_version_in :: "component_type_id_t \<Rightarrow> 'v World \<Rightarrow> EntityID \<Rightarrow> u64 option" where
  "component_version_in c w e =
     (if \<not> eid_is_alive w e then Some 0
      else do {
        slot \<leftarrow> slot_at w (index e);
        a \<leftarrow> arch_at w (archetype_index slot);
        (case column_index_for a c of
           None \<Rightarrow> Some 0
         | Some col \<Rightarrow> arr_get (column_versions a) (int col)) })"

text \<open>Assignment through a component pointer: the cell must hold a value.\<close>

definition assign_cell :: "nat \<Rightarrow> 'v \<Rightarrow> 'v option list \<Rightarrow> 'v option list option" where
  "assign_cell i v cs = (if i < length cs \<and> cs ! i \<noteq> None then Some (cs[i := Some v]) else None)"

definition store_cell :: "cell_place \<Rightarrow> 'v \<Rightarrow> 'v World \<Rightarrow> 'v World option" where
  "store_cell pl v w = (case pl of (ai, l, col) \<Rightarrow> do {
     a \<leftarrow> arch_at w ai;
     a \<leftarrow> with_cells l (assign_cell col v) a;
     Some (set_arch ai a w) })"

section \<open>Adding and removing components\<close>

text \<open>The target signature of \<open>add_component\<close>: the new id in front of the first larger one.\<close>

fun insert_id :: "component_type_id_t \<Rightarrow> ColumnVTable \<Rightarrow> component_type_id_t list \<Rightarrow> ColumnVTable list \<Rightarrow>
    (component_type_id_t \<times> ColumnVTable) list" where
  "insert_id c vt (s # ss) (t # ts) =
     (if s > c then (c, vt) # (s, t) # zip ss ts else (s, t) # insert_id c vt ss ts)"
| "insert_id c vt _ _ = [(c, vt)]"

fun drop_id :: "component_type_id_t \<Rightarrow> component_type_id_t list \<Rightarrow> ColumnVTable list \<Rightarrow>
    (component_type_id_t \<times> ColumnVTable) list" where
  "drop_id c (s # ss) (t # ts) = (if s = c then drop_id c ss ts else (s, t) # drop_id c ss ts)"
| "drop_id c _ _ = []"

text \<open>
  The loop over the target's columns: \<open>placed\<close> is the component being added with its value
  (\<^const>\<open>None\<close> for a tag), every other column is moved out of the source row.  The target cells
  left to fill and the whole source row are threaded through.
\<close>

fun migrate_cells :: "(component_type_id_t \<times> 'v option) option \<Rightarrow> component_type_id_t list \<Rightarrow> nat list \<Rightarrow>
    'v Archetype \<Rightarrow> 'v option list \<Rightarrow> 'v option list \<Rightarrow> ('v option list \<times> 'v option list) option" where
  "migrate_cells placed (t # ts) (offset # offs) src (d # ds) ss =
     (if map_option fst placed = Some t
      then (case snd (the placed) of
              None \<Rightarrow> map_option (\<lambda>(ds, ss). (d # ds, ss)) (migrate_cells placed ts offs src ds ss)
            | Some v \<Rightarrow>
                if d \<noteq> None then None
                else map_option (\<lambda>(ds, ss). (Some v # ds, ss)) (migrate_cells placed ts offs src ds ss))
      else if offset = NO_COLUMN_OFFSET
      then map_option (\<lambda>(ds, ss). (d # ds, ss)) (migrate_cells placed ts offs src ds ss)
      else do {
        i \<leftarrow> column_index_for src t;
        s \<leftarrow> arr_get ss (int i);
        v \<leftarrow> s;
        if d \<noteq> None then None
        else map_option (\<lambda>(ds, ss). (Some v # ds, ss)) (migrate_cells placed ts offs src ds (ss[i := None])) })"
| "migrate_cells placed [] [] src [] ss = Some ([], ss)"
| "migrate_cells placed _ _ src _ ss = None"

text \<open>From the lookup of the target archetype to the update of the slot.\<close>

definition migrate_entity :: "EntityID \<Rightarrow> (component_type_id_t \<times> ColumnVTable) list \<Rightarrow>
    (component_type_id_t \<times> 'v option) option \<Rightarrow> nat option \<Rightarrow> 'v World \<Rightarrow>
    ((u32 \<times> RowLocation) \<times> 'v World) option" where
  "migrate_entity e target placed dropped w = do {
     old \<leftarrow> slot_at w (index e);
     let src_idx = archetype_index old;
     let (ti, w) = find_or_create_archetype (map fst target) (map snd target) w;
     t \<leftarrow> arch_at w ti;
     let (l, t, p) = reserve_row t (chunk_pool w);
     t \<leftarrow> write_entity l e t;
     let w = (set_arch ti t w)\<lparr>chunk_pool := p\<rparr>;
     t \<leftarrow> arch_at w ti;
     src \<leftarrow> arch_at w src_idx;
     trow \<leftarrow> get_row t l;
     srow \<leftarrow> get_row src (slot_loc old);
     ss \<leftarrow> (case dropped of
              None \<Rightarrow> Some (row_cells srow)
            | Some i \<Rightarrow>
                if i < length (column_offsets src) \<and> column_offsets src ! i = NO_COLUMN_OFFSET then Some (row_cells srow)
                else if i < length (row_cells srow) \<and> row_cells srow ! i \<noteq> None then Some ((row_cells srow)[i := None])
                else None);
     (ds, ss) \<leftarrow> migrate_cells placed (signature t) (column_offsets t) src (row_cells trow) ss;
     let w = set_arch ti (set_row l (trow\<lparr>row_cells := ds\<rparr>) t) w;
     src \<leftarrow> arch_at w src_idx;
     let w = set_arch src_idx (set_row (slot_loc old) (srow\<lparr>row_cells := ss\<rparr>) src) w;
     w \<leftarrow> compact_archetype_after_external_move src_idx (slot_loc old) w;
     w \<leftarrow> place_slot e ti l w;
     Some ((ti, l), w) }"

text \<open>\<open>Some None\<close> is the null pointer; for a tag no pointer is returned.\<close>

definition add_component ::
    "vtables_of \<Rightarrow> component_type_id_t \<Rightarrow> 'v \<Rightarrow> EntityID \<Rightarrow> 'v World \<Rightarrow> (cell_place option \<times> 'v World) option" where
  "add_component vt c v e w =
     (if in_tick_or_log w then Some (None, w)
      else if \<not> eid_is_alive w e then Some (None, w)
      else if is_immutable w e then Some (None, w)
      else do {
        slot \<leftarrow> slot_at w (index e);
        src \<leftarrow> arch_at w (archetype_index slot);
        (case column_index_for src c of
           Some col \<Rightarrow>
             if vt_size (vt c) = 0 then Some (None, w)
             else do {
               w \<leftarrow> store_cell (archetype_index slot, slot_loc slot, col) v w;
               Some (Some (archetype_index slot, slot_loc slot, col), w) }
         | None \<Rightarrow> do {
             ((ti, l), w) \<leftarrow> migrate_entity e (insert_id c (vt c) (signature src) (vtables src))
                (Some (c, if vt_size (vt c) = 0 then None else Some v)) None w;
             t \<leftarrow> arch_at w ti;
             col \<leftarrow> column_index_for t c;
             Some (if vt_size (vt c) = 0 then None else Some (ti, l, col), w) }) })"

definition remove_component ::
    "component_type_id_t \<Rightarrow> EntityID \<Rightarrow> 'v World \<Rightarrow> (bool \<times> 'v World) option" where
  "remove_component c e w =
     (if in_tick_or_log w then Some (False, w)
      else if \<not> eid_is_alive w e then Some (False, w)
      else if is_immutable w e then Some (False, w)
      else do {
        slot \<leftarrow> slot_at w (index e);
        src \<leftarrow> arch_at w (archetype_index slot);
        (case column_index_for src c of
           None \<Rightarrow> Some (False, w)
         | Some col \<Rightarrow>
             if length (signature src) = 1 then Some (False, w)
             else do {
               (_, w) \<leftarrow> migrate_entity e (drop_id c (signature src) (vtables src)) None (Some col) w;
               Some (True, w) }) })"

section \<open>Queries\<close>

text \<open>\<open>Query::build\<close> sorts and removes duplicates.\<close>

definition query_build :: "component_type_id_t list \<Rightarrow> component_type_id_t list \<Rightarrow> QueryCacheKey" where
  "query_build req exc = \<lparr>require_ids = remdups_adj (sort req), exclude_ids = remdups_adj (sort exc)\<rparr>"

text \<open>One archetype of the rebuilding loop.\<close>

definition query_takes :: "QueryCacheKey \<Rightarrow> u64 \<Rightarrow> u64 \<Rightarrow> 'v Archetype \<Rightarrow> bool" where
  "query_takes key req exc a \<longleftrightarrow>
     (if (matcher_hash a AND req) \<noteq> req then False
      else if (matcher_hash a AND exc) \<noteq> 0 \<and> \<not> matches_none (exclude_ids key) (signature a) then False
      else matches_all (require_ids key) (signature a))"

fun query_scan :: "QueryCacheKey \<Rightarrow> u64 \<Rightarrow> u64 \<Rightarrow> 'v Archetype list \<Rightarrow> nat \<Rightarrow> u32 list" where
  "query_scan key req exc [] i = []"
| "query_scan key req exc (a # as) i =
     (if query_takes key req exc a then of_nat i # query_scan key req exc as (Suc i)
      else query_scan key req exc as (Suc i))"

definition resolve_query_cache :: "QueryCacheKey \<Rightarrow> 'v World \<Rightarrow> CachedQuery \<times> 'v World" where
  "resolve_query_cache key w =
     (let rebuild = (let req = compute_matcher_hash (require_ids key); exc = compute_matcher_hash (exclude_ids key);
            q = \<lparr>epoch = archetype_epoch w, require_matcher = req, exclude_matcher = exc,
                 archetype_indices = query_scan key req exc (archetypes w) 0\<rparr>
          in (q, w\<lparr>query_cache := (query_cache w)(key := Some q)\<rparr>))
      in case query_cache w key of
           None \<Rightarrow> rebuild
         | Some q \<Rightarrow> if epoch q = archetype_epoch w then (q, w) else rebuild)"

text \<open>\<open>for_each_with_entity\<close>: the rows it visits, in order.\<close>

definition visit_archetype :: "'v Archetype \<Rightarrow> component_type_id_t list \<Rightarrow>
    (EntityID option \<times> 'v option list) list option" where
  "visit_archetype a cs =
     (if list_all (arch_has_component a) cs
      then Some (concat (map (\<lambda>ch. map (\<lambda>r. (row_entity r,
             map (\<lambda>c. row_cells r ! the (column_index_for a c)) cs)) (chunk_rows ch)) (chunks a)))
      else None)"

fun visit_matched :: "'v World \<Rightarrow> component_type_id_t list \<Rightarrow> u32 list \<Rightarrow>
    (EntityID option \<times> 'v option list) list option" where
  "visit_matched w cs [] = Some []"
| "visit_matched w cs (i # is) = do {
     a \<leftarrow> arch_at w i;
     xs \<leftarrow> visit_archetype a cs;
     ys \<leftarrow> visit_matched w cs is;
     Some (xs @ ys) }"

definition for_each_with_entity :: "component_type_id_t list \<Rightarrow> QueryCacheKey \<Rightarrow> 'v World \<Rightarrow>
    ((EntityID option \<times> 'v option list) list \<times> 'v World) option" where
  "for_each_with_entity cs key w =
     (let (q, w) = resolve_query_cache key w in
      map_option (\<lambda>rows. (rows, w)) (visit_matched w cs (archetype_indices q)))"

section \<open>Cached references\<close>

text \<open>A pointer's address: the block of its chunk, the column's slab, the row.\<close>

type_synonym address = "nat \<times> nat \<times> nat"

definition address_of :: "'v World \<Rightarrow> cell_place \<Rightarrow> address option" where
  "address_of w pl = (case pl of (ai, l, col) \<Rightarrow> do {
     a \<leftarrow> arch_at w ai;
     ch \<leftarrow> arr_get (chunks a) (int (loc_chunk l));
     Some (chunk_block ch, col, loc_row l) })"

record CachedRef =
  ref_entity :: EntityID
  cached_version :: u64
  cached_pointer :: "address option"

definition component_address ::
    "vtables_of \<Rightarrow> component_type_id_t \<Rightarrow> 'v World \<Rightarrow> EntityID \<Rightarrow> address option option" where
  "component_address vt c w e = do {
     p \<leftarrow> get_component vt c w e;
     (case p of None \<Rightarrow> Some None | Some pl \<Rightarrow> map_option Some (address_of w pl)) }"

definition ref_from :: "vtables_of \<Rightarrow> component_type_id_t \<Rightarrow> 'v World \<Rightarrow> EntityID \<Rightarrow> CachedRef option" where
  "ref_from vt c w e = do {
     p \<leftarrow> component_address vt c w e;
     v \<leftarrow> (if p \<noteq> None then component_version_in c w e else Some 0);
     Some \<lparr>ref_entity = e, cached_version = v, cached_pointer = p\<rparr> }"

definition ref_get ::
    "vtables_of \<Rightarrow> component_type_id_t \<Rightarrow> 'v World \<Rightarrow> CachedRef \<Rightarrow> (address option \<times> CachedRef) option" where
  "ref_get vt c w ref = do {
     live_version \<leftarrow> component_version_in c w (ref_entity ref);
     if live_version = 0 then Some (None, ref\<lparr>cached_pointer := None, cached_version := 0\<rparr>)
     else if live_version \<noteq> cached_version ref \<or> cached_pointer ref = None then do {
       p \<leftarrow> component_address vt c w (ref_entity ref);
       Some (p, ref\<lparr>cached_pointer := p, cached_version := (if p \<noteq> None then live_version else 0)\<rparr>) }
     else Some (cached_pointer ref, ref) }"

section \<open>Singletons\<close>

definition set_singleton :: "component_type_id_t \<Rightarrow> 'v \<Rightarrow> 'v World \<Rightarrow> 'v World" where
  "set_singleton c v w = w\<lparr>singletons := (singletons w)(c := Some v)\<rparr>"

definition get_singleton :: "component_type_id_t \<Rightarrow> 'v World \<Rightarrow> 'v option" where
  "get_singleton c w = singletons w c"

definition clear_singleton :: "component_type_id_t \<Rightarrow> 'v World \<Rightarrow> bool \<times> 'v World" where
  "clear_singleton c w =
     (case singletons w c of
        None \<Rightarrow> (False, w)
      | Some _ \<Rightarrow> (True, w\<lparr>singletons := (singletons w)(c := None)\<rparr>))"

end
