(* ===== verification/World_Invariant.thy ===== *)
theory World_Invariant
  imports Entity_World
begin

text \<open>
  What the World promises: entities are a finite map from identifiers to components, and the operations
  of \<open>Entity_World\<close> are the updates of that map.  The invariant says that the slot table and the rows
  of the archetypes are inverse to each other, and the operations keep it.
\<close>

section \<open>Rows by location\<close>

lemma packed_nth_conv:
  "packed cap css \<Longrightarrow> r < cap \<Longrightarrow> c * cap + r < length (concat css) \<Longrightarrow> c < length css \<and> r < length (css ! c)"
proof (induction cap css arbitrary: c rule: packed.induct)
  case (2 cap xs)
  then show ?case by (cases c) auto
next
  case (3 cap xs ys zss)
  then show ?case by (cases c) (auto simp: add.assoc)
qed auto

lemma get_row_iff:
  assumes "arch_ok a"
  shows "get_row a l = (if loc_row l < chunk_capacity a \<and> flat_pos a l < length (arch_rows a)
    then Some (arch_rows a ! flat_pos a l) else None)"
proof (cases "get_row a l")
  case None
  have "\<not> (loc_row l < chunk_capacity a \<and> flat_pos a l < length (arch_rows a))"
    using None packed_nth_conv [of "chunk_capacity a" "map chunk_rows (chunks a)" "loc_row l" "loc_chunk l"] assms
    by (auto simp: get_row_def arch_ok_def arch_rows_def flat_pos_def chunk_count_def split: if_splits)
  then show ?thesis using None by simp
next
  case (Some r)
  have "loc_chunk l < length (chunks a)" "loc_row l < length (chunk_rows (chunks a ! loc_chunk l))"
    using Some by (auto simp: get_row_def chunk_count_def split: if_splits)
  moreover have "\<forall>xs \<in> set (map chunk_rows (chunks a)). length xs \<le> chunk_capacity a"
    using assms by (cases "chunks a" rule: rev_cases) (auto simp: arch_ok_def packed_append)
  ultimately have "loc_row l < chunk_capacity a" using nth_mem by fastforce
  then show ?thesis using Some get_row_flat [OF assms Some] by simp
qed

lemma get_row_in: "arch_ok a \<Longrightarrow> get_row a l = Some r \<Longrightarrow> r \<in> set (arch_rows a)"
  using get_row_flat by fastforce

lemma flat_pos_eq_iff:
  assumes "loc_row l < chunk_capacity a" "loc_row k < chunk_capacity a"
  shows "flat_pos a l = flat_pos a k \<longleftrightarrow> l = k"
proof
  assume "flat_pos a l = flat_pos a k"
  then have "loc_chunk l = loc_chunk k" "loc_row l = loc_row k"
    unfolding flat_pos_def using assms by (rule digits_unique)+
  then show "l = k" by simp
qed simp

lemma rows_at_locations:
  assumes "arch_ok a" "i < length (arch_rows a)"
  shows "\<exists>l. get_row a l = Some (arch_rows a ! i) \<and> flat_pos a l = i"
proof -
  let ?l = "\<lparr>loc_chunk = i div chunk_capacity a, loc_row = i mod chunk_capacity a\<rparr>"
  have "0 < chunk_capacity a" using assms(1) by (simp add: arch_ok_def)
  then have "get_row a ?l = Some (arch_rows a ! i) \<and> flat_pos a ?l = i"
    using assms by (simp add: get_row_iff flat_pos_def)
  then show ?thesis ..
qed

lemma reserve_row_get:
  assumes "arch_ok a" "reserve_row a p = (l, b, q)"
  shows "get_row b k = (if k = l then Some (raw_row a) else get_row a k)" "get_row a l = None"
proof -
  note s = reserve_row_spec [OF assms]
  have sh: "chunk_capacity b = chunk_capacity a" "flat_pos b = flat_pos a"
    using s(3) same_shape_flat [OF s(3)] by (auto simp: same_shape_def)
  have l: "loc_row l < chunk_capacity a" "flat_pos a l = length (arch_rows a)"
    using s(4,5) get_row_iff [OF s(1), of l] sh by (auto split: if_splits)
  then show "get_row a l = None" using get_row_iff [OF assms(1), of l] by simp
  show "get_row b k = (if k = l then Some (raw_row a) else get_row a k)"
    using s(5) get_row_iff [OF s(1), of k] get_row_iff [OF assms(1), of k] flat_pos_eq_iff [of k a l] l s(2) sh
    by (auto simp: nth_append split: if_splits)
qed

lemma compact_rows_get:
  assumes h: "hole_ready a l" and c: "compact_rows l a p = Some (moved, b, q)"
  shows "moved = (if l = last_row_location a then None else row_entity (last (arch_rows a)))"
    "get_row b k = (if k = last_row_location a then None else if k = l then Some (last (arch_rows a)) else get_row a k)"
    "get_row a (last_row_location a) = Some (last (arch_rows a))"
    "arch_ok b" "same_shape b a" "\<forall>r \<in> set (arch_rows b). row_live (column_offsets a) r"
    "column_versions b = map (\<lambda>v. v + 1) (column_versions a)"
proof -
  obtain hole where hole: "get_row a l = Some hole" and ok: "arch_ok a" using h by (auto simp: hole_ready_def)
  note pos = get_row_flat [OF ok hole]
  then have ne: "arch_rows a \<noteq> []" by auto
  note final = get_row_last [OF ok ne]
  note s = compact_rows_spec [OF h, of p]
  obtain b' where b': "compact_rows l a p =
      Some (if flat_pos a l = length (arch_rows a) - 1 then None else row_entity (last (arch_rows a)), b',
        if chunk_count (last (chunks a)) = 1 then pool_release (Some (chunk_block (last (chunks a)))) p else p)"
    "arch_ok b'" "same_shape b' a" "column_versions b' = map (\<lambda>v. v + 1) (column_versions a)"
    "arch_rows b' = butlast ((arch_rows a)[flat_pos a l := last (arch_rows a)])"
    "\<forall>r \<in> set (arch_rows b'). row_live (column_offsets a) r"
    using s by blast
  have [simp]: "b' = b" using b'(1) c by simp
  have at_end: "l = last_row_location a \<longleftrightarrow> flat_pos a l = length (arch_rows a) - 1"
    using flat_pos_inj [OF ok hole final(1)] final(2) by auto
  show "moved = (if l = last_row_location a then None else row_entity (last (arch_rows a)))"
    using b'(1) c at_end by simp
  show "get_row a (last_row_location a) = Some (last (arch_rows a))" by (rule final(1))
  show "arch_ok b" "same_shape b a" using b'(2,3) by simp_all
  have sh: "chunk_capacity b = chunk_capacity a" "flat_pos b = flat_pos a" "column_offsets b = column_offsets a"
    using b'(3) same_shape_flat [of b a] by (auto simp: same_shape_def)
  show "\<forall>r \<in> set (arch_rows b). row_live (column_offsets a) r" using b'(6) sh by simp
  show "column_versions b = map (\<lambda>v. v + 1) (column_versions a)" using b'(4) by simp
  have lm: "loc_row (last_row_location a) < chunk_capacity a"
    using final(1) get_row_iff [OF ok, of "last_row_location a"] by (auto split: if_splits)
  have ll: "loc_row l < chunk_capacity a" using hole get_row_iff [OF ok, of l] by (auto split: if_splits)
  have rb: "get_row b k = (if loc_row k < chunk_capacity a \<and> flat_pos a k < length (arch_rows a) - 1
      then Some ((arch_rows a)[flat_pos a l := last (arch_rows a)] ! flat_pos a k) else None)"
    using get_row_iff [of b k] b'(2,5) sh by (auto simp: nth_butlast)
  show "get_row b k = (if k = last_row_location a then None else if k = l then Some (last (arch_rows a)) else get_row a k)"
  proof (cases "loc_row k < chunk_capacity a")
    case True
    have km: "k = last_row_location a \<longleftrightarrow> flat_pos a k = length (arch_rows a) - 1"
      using flat_pos_eq_iff [OF True lm] final(2) by simp
    have kl: "k = l \<longleftrightarrow> flat_pos a k = flat_pos a l" using flat_pos_eq_iff [OF True ll] by simp
    show ?thesis
      using rb True km kl pos get_row_iff [OF ok, of k] by (auto simp: nth_list_update)
  next
    case False
    then have "k \<noteq> l" "k \<noteq> last_row_location a" using ll lm by auto
    then show ?thesis using rb False get_row_iff [OF ok, of k] by simp
  qed
qed


section \<open>The invariant\<close>

text \<open>Where an entity is according to its slot, and what the archetypes hold there.\<close>

definition location :: "'a slot_table_scheme \<Rightarrow> EntityID \<Rightarrow> (nat \<times> RowLocation) option" where
  "location w e =
     (if eid_is_alive w e then map_option (\<lambda>s. (unat (archetype_index s), slot_loc s)) (slot_at w (index e)) else None)"

definition grid :: "'v World \<Rightarrow> nat \<Rightarrow> RowLocation \<Rightarrow> 'v Row option" where
  "grid w ai l = (if ai < length (archetypes w) then get_row (archetypes w ! ai) l else None)"

definition sig_fits :: "vtables_of \<Rightarrow> component_type_id_t list \<Rightarrow> bool" where
  "sig_fits vt sig \<longleftrightarrow> alignments_ok (map vt sig)
     \<and> bytes_per_row (map vt sig) + align_overhead (map vt sig) \<le> CHUNK_BLOCK_BYTES"

definition arch_wf :: "vtables_of \<Rightarrow> 'v Archetype \<Rightarrow> bool" where
  "arch_wf vt a \<longleftrightarrow> arch_ok a \<and> sorted_wrt (<) (signature a) \<and> vtables a = map vt (signature a)
     \<and> map (\<lambda>offset. offset = NO_COLUMN_OFFSET) (column_offsets a) = map (\<lambda>c. vt_size (vt c) = 0) (signature a)
     \<and> matcher_hash a = compute_matcher_hash (signature a) \<and> sig_fits vt (signature a)
     \<and> length (column_versions a) = length (signature a)
     \<and> (\<forall>r \<in> set (arch_rows a). row_live (column_offsets a) r)"

definition index_ok :: "'v World \<Rightarrow> bool" where
  "index_ok w \<longleftrightarrow> length (archetypes w) < 2 ^ 32 \<and> (\<forall>sig i. archetype_by_signature w sig = Some i \<longleftrightarrow>
     unat i < length (archetypes w) \<and> signature (archetypes w ! unat i) = sig)"

definition archs_inv :: "vtables_of \<Rightarrow> 'v World \<Rightarrow> bool" where
  "archs_inv vt w \<longleftrightarrow> index_ok w \<and> (\<forall>a \<in> set (archetypes w). arch_wf vt a)"

definition rows_point_back :: "'v World \<Rightarrow> bool" where
  "rows_point_back w \<longleftrightarrow>
     (\<forall>ai l r. grid w ai l = Some r \<longrightarrow> (\<exists>e. row_entity r = Some e \<and> location w e = Some (ai, l)))"

definition slots_point_to_rows :: "'v World \<Rightarrow> bool" where
  "slots_point_to_rows w \<longleftrightarrow>
     (\<forall>e ai l. location w e = Some (ai, l) \<longrightarrow> (\<exists>r. grid w ai l = Some r \<and> row_entity r = Some e))"

definition world_inv :: "vtables_of \<Rightarrow> 'v World \<Rightarrow> bool" where
  "world_inv vt w \<longleftrightarrow> table_inv w \<and> archs_inv vt w \<and> rows_point_back w \<and> slots_point_to_rows w"

text \<open>The abstract world: the components of every live entity, \<open>Some None\<close> for a tag.\<close>

definition entity_view :: "'v World \<Rightarrow> EntityID \<Rightarrow> (component_type_id_t \<Rightarrow> 'v option option) option" where
  "entity_view w e = (case location w e of None \<Rightarrow> None | Some (ai, l) \<Rightarrow>
     (case grid w ai l of None \<Rightarrow> None | Some r \<Rightarrow>
        Some (map_of (zip (signature (archetypes w ! ai)) (row_cells r)))))"

section \<open>Frames\<close>

lemma arch_at_iff: "arch_at w i = Some a \<longleftrightarrow> unat i < length (archetypes w) \<and> a = archetypes w ! unat i"
  by (auto simp: arch_at_def arr_get_uint)

lemma slot_fields_frame [simp]:
  "table_inv (w\<lparr>archetypes := x\<rparr>) = table_inv w" "table_inv (w\<lparr>chunk_pool := p\<rparr>) = table_inv w"
  "slot_at (w\<lparr>archetypes := x\<rparr>) i = slot_at w i" "slot_at (w\<lparr>chunk_pool := p\<rparr>) i = slot_at w i"
  "location (w\<lparr>archetypes := x\<rparr>) e = location w e" "location (w\<lparr>chunk_pool := p\<rparr>) e = location w e"
  by (simp_all add: table_inv_def chain_ok_def slot_at_def location_def eid_is_alive_def)

lemma set_arch_frame [simp]:
  "table_inv (set_arch i a w) = table_inv w" "slot_at (set_arch i a w) j = slot_at w j"
  "location (set_arch i a w) e = location w e" "chunk_pool (set_arch i a w) = chunk_pool w"
  "length (archetypes (set_arch i a w)) = length (archetypes w)"
  by (simp_all add: set_arch_def)

lemma set_slot_frame [simp]:
  "archetypes (set_slot i s w) = archetypes w" "chunk_pool (set_slot i s w) = chunk_pool w"
  "archetype_by_signature (set_slot i s w) = archetype_by_signature w"
  "archs_inv vt (set_slot i s w) = archs_inv vt w" "grid (set_slot i s w) = grid w"
  by (auto simp: set_slot_def archs_inv_def index_ok_def grid_def fun_eq_iff)

lemma push_free_frame [simp]:
  "archetypes (push_free i w) = archetypes w" "archs_inv vt (push_free i w) = archs_inv vt w"
  "grid (push_free i w) = grid w"
  by (auto simp: push_free_def archs_inv_def index_ok_def grid_def fun_eq_iff set_slot_def split: option.splits)

lemma allocate_frame:
  assumes "allocate_entity_slot w = Some (e, w')"
  shows "archetypes w' = archetypes w" "archetype_by_signature w' = archetype_by_signature w"
    "chunk_pool w' = chunk_pool w" "archs_inv vt w' = archs_inv vt w" "grid w' = grid w"
  using assms
  by (auto simp: allocate_entity_slot_def set_slot_def archs_inv_def index_ok_def grid_def fun_eq_iff Let_def
      bind_eq_Some_conv split: if_splits)

lemma grid_set_arch:
  "unat i < length (archetypes w) \<Longrightarrow>
     grid (set_arch i a w) ai l = (if ai = unat i then get_row a l else grid w ai l)"
  by (auto simp: grid_def set_arch_def)

lemma grid_pool [simp]: "grid (w\<lparr>chunk_pool := p\<rparr>) = grid w"
  by (simp add: grid_def fun_eq_iff)

lemma grid_cong: "archetypes w' = archetypes w \<Longrightarrow> grid w' = grid w"
  by (simp add: grid_def fun_eq_iff)

lemma archs_inv_pool [simp]: "archs_inv vt (w\<lparr>chunk_pool := p\<rparr>) = archs_inv vt w"
  by (simp add: archs_inv_def index_ok_def)

lemma archs_inv_set_arch:
  assumes "archs_inv vt w" "arch_wf vt a" "unat i < length (archetypes w)"
    "signature a = signature (archetypes w ! unat i)"
  shows "archs_inv vt (set_arch i a w)"
proof -
  have "index_ok (set_arch i a w)"
    using assms(1,3,4) by (auto simp: archs_inv_def index_ok_def set_arch_def nth_list_update)
  then show ?thesis using assms(1,2) by (auto simp: archs_inv_def set_arch_def dest!: in_set_update)
qed

section \<open>New archetypes\<close>

lemma back_off_pos: "1 \<le> cap \<Longrightarrow> 1 \<le> back_off vts cap"
  by (induction vts cap rule: back_off.induct) (subst back_off.simps, auto)

lemma layout_columns_length: "length (fst (layout_columns cap vts offset)) = length vts"
  by (induction vts arbitrary: offset) (simp_all add: case_prod_unfold Let_def)

lemma slabs_offsets:
  "slabs cap vts offs lo hi \<Longrightarrow> 0 < cap \<Longrightarrow> hi \<le> CHUNK_BLOCK_BYTES \<Longrightarrow>
     map (\<lambda>offset. offset = NO_COLUMN_OFFSET) offs = map (\<lambda>vt. vt_size vt = 0) vts \<and> lo \<le> hi"
proof (induction cap vts offs lo hi rule: slabs.induct)
  case (2 cap vt vts offset offs lo hi)
  show ?case
  proof (cases "vt_size vt = 0")
    case False
    then have "offset + cap * vt_size vt \<le> hi" using 2 by simp
    moreover have "lo \<le> offset" using 2 False by simp
    ultimately have "offset \<le> CHUNK_BLOCK_BYTES" "lo \<le> hi" using 2(5) by linarith+
    then have "offset \<noteq> NO_COLUMN_OFFSET" by (auto simp: CHUNK_BLOCK_BYTES_def NO_COLUMN_OFFSET_def)
    then show ?thesis using False 2 \<open>lo \<le> hi\<close> by simp
  qed (use 2 in simp)
qed simp_all

lemma new_archetype_wf:
  assumes "sig_fits vt sig" "sorted_wrt (<) sig"
  shows "arch_wf vt (new_archetype sig (map vt sig))"
proof -
  have lf: "1 \<le> fst (compute_chunk_layout (map vt sig))"
    "slabs (fst (compute_chunk_layout (map vt sig))) (map vt sig) (snd (compute_chunk_layout (map vt sig)))
        (fst (compute_chunk_layout (map vt sig)) * SIZEOF_ENTITY_ID) CHUNK_BLOCK_BYTES"
    using layout_fits_lemma [of "map vt sig"] assms(1) unfolding sig_fits_def by blast+
  then have offs: "map (\<lambda>offset. offset = NO_COLUMN_OFFSET) (snd (compute_chunk_layout (map vt sig)))
      = map (\<lambda>vt. vt_size vt = 0) (map vt sig)"
    using slabs_offsets [OF lf(2)] by simp
  then have "length (snd (compute_chunk_layout (map vt sig))) = length sig"
    using map_eq_imp_length_eq by fastforce
  then show ?thesis
    using lf(1) offs assms by (simp add: arch_wf_def new_archetype_def arch_ok_def arch_rows_def comp_def)
qed

lemma find_or_create:
  assumes inv: "archs_inv vt w" and fits: "sig_fits vt sig" "sorted_wrt (<) sig"
    and room: "length (archetypes w) + 1 < 2 ^ 32"
    and f: "find_or_create_archetype sig (map vt sig) w = (i, w')"
  shows "archs_inv vt w'" "unat i < length (archetypes w')" "signature (archetypes w' ! unat i) = sig"
    "grid w' = grid w" "\<And>e. location w' e = location w e" "table_inv w' = table_inv w"
    "entity_slots w' = entity_slots w" "chunk_pool w' = chunk_pool w" "first_free w' = first_free w" "has_free w' = has_free w"
    "\<And>j. j < length (archetypes w) \<Longrightarrow> j < length (archetypes w') \<and> archetypes w' ! j = archetypes w ! j"
    "in_tick w' = in_tick w" "in_apply_phase w' = in_apply_phase w"
proof -
  let ?n = "length (archetypes w)"
  let ?a = "new_archetype sig (map vt sig) :: 'a Archetype"
  show "grid w' = grid w" "\<And>e. location w' e = location w e" "table_inv w' = table_inv w"
    "entity_slots w' = entity_slots w" "chunk_pool w' = chunk_pool w" "first_free w' = first_free w" "has_free w' = has_free w"
    "\<And>j. j < length (archetypes w) \<Longrightarrow> j < length (archetypes w') \<and> archetypes w' ! j = archetypes w ! j"
    "in_tick w' = in_tick w" "in_apply_phase w' = in_apply_phase w"
    using f by (auto simp: find_or_create_archetype_def grid_def fun_eq_iff nth_append new_archetype_def get_row_def
        location_def eid_is_alive_def slot_at_def table_inv_def chain_ok_def less_Suc_eq Let_def
        split: option.splits if_splits)
  have "archs_inv vt w' \<and> unat i < length (archetypes w') \<and> signature (archetypes w' ! unat i) = sig"
  proof (cases "archetype_by_signature w sig")
    case (Some j)
    then show ?thesis using f inv by (auto simp: find_or_create_archetype_def archs_inv_def index_ok_def)
  next
    case None
    have u: "unat (of_nat ?n :: u32) = ?n" using room by (simp add: unat_of_nat take_bit_nat_eq_self)
    have fresh: "signature a \<noteq> sig" if "a \<in> set (archetypes w)" for a
    proof
      assume "signature a = sig"
      obtain k where k: "k < ?n" "a = archetypes w ! k" using \<open>a \<in> set (archetypes w)\<close> unfolding in_set_conv_nth by blast
      have "unat (of_nat k :: u32) = k" using k(1) room by (simp add: unat_of_nat take_bit_nat_eq_self)
      then have "archetype_by_signature w sig = Some (of_nat k)"
        using inv k \<open>signature a = sig\<close> by (auto simp: archs_inv_def index_ok_def)
      then show False using None by simp
    qed
    have i: "i = of_nat ?n" and as: "archetypes w' = archetypes w @ [?a]"
      and by_sig: "archetype_by_signature w' = (archetype_by_signature w)(sig := Some i)"
      using f None by (auto simp: find_or_create_archetype_def Let_def split: if_splits)
    have sg: "signature ?a = sig" by (simp add: new_archetype_def)
    have "archetype_by_signature w' s = Some j \<longleftrightarrow>
        unat j < length (archetypes w') \<and> signature (archetypes w' ! unat j) = s" for s j
    proof (cases "s = sig")
      case True
      have "unat j < ?n \<Longrightarrow> signature (archetypes w ! unat j) \<noteq> sig" using fresh by simp
      moreover have "j = of_nat ?n \<longleftrightarrow> unat j = ?n" using u by (metis unat_inj_iff)
      ultimately show ?thesis using True sg by (auto simp: by_sig as i nth_append less_Suc_eq)
    next
      case False
      then show ?thesis using inv sg
        by (auto simp: by_sig as nth_append less_Suc_eq archs_inv_def index_ok_def)
    qed
    then have "index_ok w'" using room by (simp add: index_ok_def as)
    then have "archs_inv vt w'"
      using inv new_archetype_wf [OF fits, where ?'a = 'a] by (auto simp: archs_inv_def as)
    then show ?thesis using sg u by (simp add: i as nth_append)
  qed
  then show "archs_inv vt w'" "unat i < length (archetypes w')" "signature (archetypes w' ! unat i) = sig"
    by simp_all
qed


section \<open>Cells\<close>

lemma column_index_loop_iff:
  "distinct sig \<Longrightarrow> column_index_loop sig c k = Some i \<longleftrightarrow> (\<exists>j < length sig. sig ! j = c \<and> i = k + j)"
proof (induction sig arbitrary: k)
  case (Cons s sig)
  have "s = c \<Longrightarrow> \<forall>j < length sig. sig ! j \<noteq> c" using Cons.prems by (auto simp: in_set_conv_nth)
  then show ?case using Cons by (auto simp: Ex_less_Suc2)
qed simp

lemma column_index_iff:
  "distinct (signature a) \<Longrightarrow> column_index_for a c = Some i \<longleftrightarrow> i < length (signature a) \<and> signature a ! i = c"
  by (auto simp: column_index_for_def column_index_loop_iff)

lemma column_index_none: "column_index_loop sig c k = None \<longleftrightarrow> c \<notin> set sig"
  by (induction sig arbitrary: k) auto

lemma column_index_none_iff: "column_index_for a c = None \<longleftrightarrow> c \<notin> set (signature a)"
  by (simp add: column_index_for_def column_index_none)

lemma zip_lookup:
  "distinct sig \<Longrightarrow> length cs = length sig \<Longrightarrow> i < length sig \<Longrightarrow> map_of (zip sig cs) (sig ! i) = Some (cs ! i)"
  by (simp add: map_of_zip_nth)

lemma place_cells_spec:
  assumes "distinct (signature a)" "length cs = length (signature a)" "distinct (map fst comps)"
    "fst ` set comps \<subseteq> set (signature a)"
    "\<forall>i < length cs. signature a ! i \<in> fst ` set comps \<longrightarrow> cs ! i = None"
  shows "place_cells vt a comps cs = Some (map (\<lambda>i. if vt_size (vt (signature a ! i)) = 0 then cs ! i
     else case map_of comps (signature a ! i) of None \<Rightarrow> cs ! i | Some v \<Rightarrow> Some v) [0..<length cs])"
  using assms(2-5)
proof (induction comps arbitrary: cs)
  case Nil
  then show ?case by (auto intro!: nth_equalityI)
next
  case (Cons x comps)
  obtain c v where x [simp]: "x = (c, v)" by fastforce
  have notin: "c \<notin> fst ` set comps" using Cons.prems(2) by auto
  then have mc: "map_of comps c = None" by (simp add: map_of_eq_None_iff)
  show ?case
  proof (cases "vt_size (vt c) = 0")
    case True
    have "place_cells vt a comps cs = Some (map (\<lambda>i. if vt_size (vt (signature a ! i)) = 0 then cs ! i
     else case map_of comps (signature a ! i) of None \<Rightarrow> cs ! i | Some v \<Rightarrow> Some v) [0..<length cs])"
      using Cons.prems by (intro Cons.IH) auto
    moreover have "vt_size (vt (signature a ! i)) \<noteq> 0 \<Longrightarrow> signature a ! i \<noteq> c" for i using True by auto
    ultimately show ?thesis using True by (auto intro!: map_cong)
  next
    case False
    have "c \<in> set (signature a)" using Cons.prems(3) by simp
    then obtain i where i: "i < length (signature a)" "signature a ! i = c" by (auto simp: in_set_conv_nth)
    then have ci: "column_index_for a c = Some i" using assms(1) by (simp add: column_index_iff)
    have empty: "cs ! i = None" using Cons.prems(1,4) i by simp
    have other: "signature a ! j = c \<longleftrightarrow> j = i" if "j < length cs" for j
      using that i assms(1) Cons.prems(1) by (auto simp: nth_eq_iff_index_eq)
    have "place_cells vt a comps (cs[i := Some v]) = Some (map (\<lambda>j. if vt_size (vt (signature a ! j)) = 0 then cs[i := Some v] ! j
     else case map_of comps (signature a ! j) of None \<Rightarrow> cs[i := Some v] ! j | Some v \<Rightarrow> Some v) [0..<length (cs[i := Some v])])"
      using Cons.prems notin other by (intro Cons.IH) (auto simp: nth_list_update i)
    moreover have "map (\<lambda>j. if vt_size (vt (signature a ! j)) = 0 then cs[i := Some v] ! j
     else case map_of comps (signature a ! j) of None \<Rightarrow> cs[i := Some v] ! j | Some v \<Rightarrow> Some v) [0..<length (cs[i := Some v])]
     = map (\<lambda>j. if vt_size (vt (signature a ! j)) = 0 then cs ! j
     else case map_of (x # comps) (signature a ! j) of None \<Rightarrow> cs ! j | Some v \<Rightarrow> Some v) [0..<length cs]"
    proof (rule map_cong)
      fix j assume "j \<in> set [0..<length cs]"
      then have j: "j < length cs" by simp
      show "(if vt_size (vt (signature a ! j)) = 0 then cs[i := Some v] ! j
          else case map_of comps (signature a ! j) of None \<Rightarrow> cs[i := Some v] ! j | Some v \<Rightarrow> Some v) =
        (if vt_size (vt (signature a ! j)) = 0 then cs ! j
          else case map_of (x # comps) (signature a ! j) of None \<Rightarrow> cs ! j | Some v \<Rightarrow> Some v)"
      proof (cases "j = i")
        case True
        then show ?thesis using i(2) False mc j by simp
      next
        case False
        then have "signature a ! j \<noteq> c" using other [OF j] by simp
        then show ?thesis using False by (simp split: option.splits)
      qed
    qed simp
    ultimately show ?thesis using False ci i(1) empty Cons.prems(1) by (simp add: construct_cell_def)
  qed
qed

lemma place_cells_fresh:
  assumes "distinct (signature a)" "distinct (map fst comps)" "fst ` set comps = set (signature a)"
  shows "place_cells vt a comps (replicate (length (signature a)) None) = Some (staged_values vt comps (signature a))"
proof -
  have "map (\<lambda>i. if vt_size (vt (signature a ! i)) = 0 then replicate (length (signature a)) None ! i
     else case map_of comps (signature a ! i) of None \<Rightarrow> replicate (length (signature a)) None ! i | Some v \<Rightarrow> Some v)
       [0..<length (replicate (length (signature a)) (None :: 'b option))] = staged_values vt comps (signature a)"
    by (rule nth_equalityI) (auto simp: staged_values_def split: option.splits)
  then show ?thesis using place_cells_spec [of a "replicate (length (signature a)) None" comps vt] assms by simp
qed

text \<open>Cells that are empty exactly in the tag columns.\<close>

definition cells_live :: "vtables_of \<Rightarrow> component_type_id_t list \<Rightarrow> 'v option list \<Rightarrow> bool" where
  "cells_live vt sig cs \<longleftrightarrow> map (\<lambda>c. c = None) cs = map (\<lambda>c. vt_size (vt c) = 0) sig"

lemma cells_live_length: "cells_live vt sig cs \<Longrightarrow> length cs = length sig"
  unfolding cells_live_def by (metis length_map)

lemma list_all2_as_map: "list_all2 (\<lambda>x y. P x = Q y) xs ys \<longleftrightarrow> map P xs = map Q ys"
proof (induction xs arbitrary: ys)
  case (Cons x xs)
  then show ?case by (cases ys) auto
qed auto

lemma row_live_iff:
  "arch_wf vt a \<Longrightarrow> row_live (column_offsets a) r \<longleftrightarrow> cells_live vt (signature a) (row_cells r)"
  by (auto simp: row_live_def cells_live_def list_all2_as_map arch_wf_def)

lemma staged_live:
  "set sig \<subseteq> fst ` set comps \<Longrightarrow> cells_live vt sig (staged_values vt comps sig)"
  by (auto simp: cells_live_def staged_values_def map_of_eq_None_iff)

lemma fill_cells_live:
  "cells_live vt sig vs \<Longrightarrow> fill_cells (map vt sig) vs (replicate (length sig) None) = Some vs"
proof (induction sig arbitrary: vs)
  case (Cons c sig)
  then show ?case by (cases vs) (auto simp: cells_live_def)
qed (simp add: cells_live_def)

section \<open>Sorting the signature\<close>

lemma exchange_pass_spec:
  "mset (fst (exchange_pass x ys) # snd (exchange_pass x ys)) = mset (x # ys)
   \<and> (\<forall>z \<in> set (x # ys). fst (fst (exchange_pass x ys)) \<le> fst z)"
proof (induction ys arbitrary: x)
  case (Cons y ys)
  then show ?case using Cons.IH [of x] Cons.IH [of y]
    by (fastforce simp: case_prod_unfold Let_def)
qed simp

lemma exchange_sort_spec:
  "mset (exchange_sort xs) = mset xs \<and> sorted (map fst (exchange_sort xs))"
proof (induction xs rule: exchange_sort.induct)
  case (2 x xs)
  have ih: "mset (exchange_sort (snd (exchange_pass x xs))) = mset (snd (exchange_pass x xs))"
    "sorted (map fst (exchange_sort (snd (exchange_pass x xs))))" using 2 by auto
  have s: "set (exchange_sort (snd (exchange_pass x xs))) = set (snd (exchange_pass x xs))"
    using ih(1) by (rule mset_eq_setD)
  have m: "set (fst (exchange_pass x xs) # snd (exchange_pass x xs)) = set (x # xs)"
    using exchange_pass_spec [of x xs] by (metis mset_eq_setD)
  have "\<forall>z \<in> set (exchange_sort (snd (exchange_pass x xs))). fst (fst (exchange_pass x xs)) \<le> fst z"
    unfolding s using exchange_pass_spec [of x xs] m by (metis list.set_intros(2))
  then show ?case using ih exchange_pass_spec [of x xs] by (simp add: Let_def)
qed simp

lemma exchange_sort_signature:
  assumes "distinct (map fst comps)"
  shows "sorted_wrt (<) (map fst (exchange_sort (map (\<lambda>(c, v). (c, vt c)) comps)))"
    "map snd (exchange_sort (map (\<lambda>(c, v). (c, vt c)) comps)) = map vt (map fst (exchange_sort (map (\<lambda>(c, v). (c, vt c)) comps)))"
    "set (map fst (exchange_sort (map (\<lambda>(c, v). (c, vt c)) comps))) = fst ` set comps"
proof -
  let ?xs = "map (\<lambda>(c, v). (c, vt c)) comps"
  have ms: "mset (exchange_sort ?xs) = mset ?xs" and so: "sorted (map fst (exchange_sort ?xs))"
    using exchange_sort_spec [of ?xs] by simp_all
  have st: "set (exchange_sort ?xs) = set ?xs" using ms by (rule mset_eq_setD)
  have "map fst ?xs = map fst comps" by (induction comps) auto
  then have "distinct (map fst (exchange_sort ?xs))"
  proof -
    have "mset (map fst (exchange_sort ?xs)) = mset (map fst ?xs)" by (simp only: mset_map ms)
    then have "mset (map fst (exchange_sort ?xs)) = mset (map fst comps)"
      by (simp only: \<open>map fst ?xs = map fst comps\<close>)
    then show ?thesis using assms mset_eq_imp_distinct_iff by blast
  qed
  then show "sorted_wrt (<) (map fst (exchange_sort ?xs))"
    using so by (simp add: strict_sorted_iff)
  show "map snd (exchange_sort ?xs) = map vt (map fst (exchange_sort ?xs))"
  proof -
    have "\<forall>z \<in> set (exchange_sort ?xs). snd z = vt (fst z)" unfolding st by auto
    then show ?thesis by simp
  qed
  show "set (map fst (exchange_sort ?xs)) = fst ` set comps"
    unfolding set_map st by (simp add: image_image case_prod_unfold)
qed


section \<open>Inserting a row\<close>

lemma set_row_twice [simp]: "set_row l x (set_row l y a) = set_row l x a"
  by (cases "loc_chunk l < length (chunks a)") (simp_all add: set_row_def list_update_beyond)

lemma set_row_versions [simp]: "column_versions (set_row l x a) = column_versions a"
  by (simp add: set_row_def)

lemma reserve_row_versions: "length (column_versions (fst (snd (reserve_row a p)))) = length (column_versions a)"
  by (simp add: reserve_row_unfold bump_versions_def add_raw_rows_def allocate_chunk_def case_prod_unfold Let_def)

lemma arch_wf_transfer:
  assumes "arch_wf vt a" "same_shape b a" "arch_ok b" "length (column_versions b) = length (column_versions a)"
    "\<And>k r. get_row b k = Some r \<Longrightarrow> row_live (column_offsets a) r"
  shows "arch_wf vt b"
proof -
  have "row_live (column_offsets a) r" if r: "r \<in> set (arch_rows b)" for r
  proof -
    obtain i where "i < length (arch_rows b)" "arch_rows b ! i = r" using r by (auto simp: in_set_conv_nth)
    then show ?thesis using rows_at_locations [OF assms(3)] assms(5) by blast
  qed
  then show ?thesis using assms(1-4) by (auto simp: arch_wf_def same_shape_def)
qed

lemma same_shape_trans: "same_shape c b \<Longrightarrow> same_shape b a \<Longrightarrow> same_shape c a"
  by (simp add: same_shape_def)

lemma arch_wf_ok: "arch_wf vt a \<Longrightarrow> arch_ok a"
  by (simp add: arch_wf_def)

lemma arch_wf_row_live: "arch_wf vt a \<Longrightarrow> get_row a k = Some r \<Longrightarrow> row_live (column_offsets a) r"
  using get_row_in [OF arch_wf_ok, of vt a k r] by (auto simp: arch_wf_def)

text \<open>Reserving a row, writing its entity and filling its cells.\<close>

lemma insert_row:
  assumes wf: "arch_wf vt a" and res: "reserve_row a p = (l, b, q)"
    and f: "\<And>c. signature c = signature a \<Longrightarrow> f c (replicate (length (signature a)) None) = Some cs"
    and live: "cells_live vt (signature a) cs"
  shows "\<exists>c d. write_entity l e b = Some c \<and> with_cells l (f c) c = Some d \<and> arch_wf vt d \<and> same_shape d a
    \<and> get_row a l = None \<and> flat_pos a l = length (arch_rows a)
    \<and> (\<forall>k. get_row d k = (if k = l then Some \<lparr>row_entity = Some e, row_cells = cs\<rparr> else get_row a k))
    \<and> same_shape c a \<and> get_row c l = Some \<lparr>row_entity = Some e, row_cells = replicate (length (signature a)) None\<rparr>"
proof -
  note s = reserve_row_spec [OF arch_wf_ok [OF wf] res]
  note g = reserve_row_get [OF arch_wf_ok [OF wf] res]
  define c where "c = set_row l ((raw_row a)\<lparr>row_entity := Some e\<rparr>) b"
  define d where "d = set_row l \<lparr>row_entity = Some e, row_cells = cs\<rparr> b"
  have gc: "get_row c l = Some ((raw_row a)\<lparr>row_entity := Some e\<rparr>)" using get_set_row [OF s(5)] by (simp add: c_def)
  have "write_entity l e b = Some c" using s(5) by (simp add: write_entity_def c_def)
  moreover have "signature c = signature a" using s(3) by (simp add: c_def set_row_def same_shape_def)
  then have "with_cells l (f c) c = Some d"
    using gc f [of c] by (simp add: with_cells_def raw_row_def) (simp add: c_def d_def raw_row_def)
  moreover have gd: "get_row d k = (if k = l then Some \<lparr>row_entity = Some e, row_cells = cs\<rparr> else get_row a k)" for k
    using get_set_row [OF s(5)] g by (simp add: d_def)
  moreover have sh: "same_shape d a"
    using set_row_rows(3) [OF s(1,5)] s(3) same_shape_trans by (auto simp: d_def)
  moreover have "signature b = signature a" using s(3) by (simp add: same_shape_def)
  then have "arch_ok d" unfolding d_def by (intro set_row_ok [OF s(1,5)]) (simp add: cells_live_length [OF live])
  moreover have "flat_pos a l = length (arch_rows a)" using s(4) same_shape_flat [OF s(3)] by simp
  moreover have "arch_wf vt d"
  proof (rule arch_wf_transfer [OF wf sh \<open>arch_ok d\<close>])
    show "length (column_versions d) = length (column_versions a)"
      using reserve_row_versions [of a p] res by (simp add: d_def)
    show "row_live (column_offsets a) r" if "get_row d k = Some r" for k r
      using that live arch_wf_row_live [OF wf, of k] row_live_iff [OF wf, of r] by (auto simp: gd split: if_splits)
  qed
  moreover have "same_shape c a" using set_row_rows(3) [OF s(1,5)] s(3) same_shape_trans by (auto simp: c_def)
  moreover have "get_row c l = Some \<lparr>row_entity = Some e, row_cells = replicate (length (signature a)) None\<rparr>"
    using gc by (simp add: raw_row_def)
  ultimately show ?thesis using g(2) by blast
qed

section \<open>Locations\<close>

lemma location_slot: "location w x = Some (ai, l) \<longleftrightarrow> eid_is_alive w x \<and>
    (\<exists>s. slot_at w (index x) = Some s \<and> ai = unat (archetype_index s) \<and> l = slot_loc s)"
  by (auto simp: location_def)

lemma location_cong:
  "slot_at w' (index x) = slot_at w (index x) \<Longrightarrow> location w' x = location w x"
  by (simp add: location_def eid_is_alive_def)

lemma location_at_slot:
  assumes "slot_at w (index x) = Some s" "alive s" "archetype_index s \<noteq> INVALID_ARCHETYPE" "table_inv w"
  shows "location w x = (if generation x = slot_generation s then Some (unat (archetype_index s), slot_loc s) else None)"
proof -
  have "generation_ok (slot_generation s)" using assms(1,4) by (auto simp: table_inv_def slot_at_iff)
  then have "generation x = slot_generation s \<Longrightarrow> \<not> eid_is_deferred x"
    by (simp add: eid_is_deferred_def deferred_iff generation_ok_def)
  then show ?thesis using assms(1-3) by (auto simp: location_def eid_is_alive_def)
qed

lemma location_same_index:
  "location w x = Some a \<Longrightarrow> location w y = Some b \<Longrightarrow> index x = index y \<Longrightarrow> a = b \<and> x = y"
  by (cases x; cases y) (auto simp: location_def eid_is_alive_def split: if_splits option.splits)

lemma slot_loc_of_nat:
  assumes "loc_chunk l < 2 ^ 32" "loc_row l < 2 ^ 32"
    "chunk_index s = of_nat (loc_chunk l)" "row s = of_nat (loc_row l)"
  shows "slot_loc s = l"
  using assms by (simp add: slot_loc_def unat_of_nat take_bit_nat_eq_self)

text \<open>Every row of an archetype belongs to a slot of its own.\<close>

lemma rows_bound:
  assumes "rows_point_back w" and ai: "ai < length (archetypes w)" "archetypes w ! ai = a" and assms3: "arch_ok a"
    and free: "\<And>x l. index x = i \<Longrightarrow> location w x \<noteq> Some (ai, l)"
  shows "length (arch_rows a) < 2 ^ 32"
proof -
  have "\<forall>k < length (arch_rows a). \<exists>l x. flat_pos a l = k \<and> location w x = Some (ai, l)"
  proof (intro allI impI)
    fix k assume "k < length (arch_rows a)"
    then obtain l where l: "get_row a l = Some (arch_rows a ! k)" "flat_pos a l = k"
      using rows_at_locations [OF assms3] by blast
    then have "grid w ai l = Some (arch_rows a ! k)" using ai by (simp add: grid_def)
    then show "\<exists>l x. flat_pos a l = k \<and> location w x = Some (ai, l)"
      using assms(1) l(2) unfolding rows_point_back_def by blast
  qed
  then obtain L X where LX: "\<And>k. k < length (arch_rows a) \<Longrightarrow>
      flat_pos a (L k) = k \<and> location w (X k) = Some (ai, L k)" by metis
  have "inj_on (\<lambda>k. index (X k)) {..<length (arch_rows a)}"
  proof (rule inj_onI)
    fix j k assume jk: "j \<in> {..<length (arch_rows a)}" "k \<in> {..<length (arch_rows a)}" "index (X j) = index (X k)"
    then have "L j = L k" using location_same_index [of w "X j" "(ai, L j)" "X k" "(ai, L k)"] LX by auto
    then show "j = k" using LX jk(1,2) by (metis lessThan_iff)
  qed
  moreover have "(\<lambda>k. index (X k)) ` {..<length (arch_rows a)} \<subseteq> UNIV - {i}"
    using LX free by fastforce
  ultimately have "card {..<length (arch_rows a)} \<le> card (UNIV - {i} :: u32 set)"
    by (intro card_inj_on_le) auto
  also have "\<dots> = 2 ^ 32 - 1" by (simp add: card_Diff_singleton card_word)
  finally show ?thesis by simp
qed


definition row_view :: "component_type_id_t list \<Rightarrow> 'v option list \<Rightarrow> component_type_id_t \<Rightarrow> 'v option option" where
  "row_view sig cs = map_of (zip sig cs)"

text \<open>An entity that had no place gets the new row at \<open>(ai, l)\<close>.\<close>

lemma world_insert:
  assumes inv: "rows_point_back w" "slots_point_to_rows w" and tab: "table_inv w'"
    and old: "\<And>x. index x = index e \<Longrightarrow> location w x = None"
    and slots: "\<And>j. j \<noteq> index e \<Longrightarrow> slot_at w' j = slot_at w j"
    and new: "slot_at w' (index e) = Some s" "alive s" "slot_generation s = generation e"
      "unat (archetype_index s) = ai" "archetype_index s \<noteq> INVALID_ARCHETYPE" "slot_loc s = l"
    and grid: "\<And>j k. grid w' j k = (if j = ai \<and> k = l then Some r else grid w j k)" "row_entity r = Some e"
      "grid w ai l = None"
    and sigs: "\<And>j. j < length (archetypes w) \<Longrightarrow> signature (archetypes w' ! j) = signature (archetypes w ! j)"
  shows "rows_point_back w' \<and> slots_point_to_rows w'
    \<and> entity_view w' = (entity_view w)(e := Some (row_view (signature (archetypes w' ! ai)) (row_cells r)))
    \<and> entity_view w e = None"
proof -
  have loc: "location w' x = (if x = e then Some (ai, l) else location w x)" for x
  proof (cases "index x = index e")
    case True
    then have "location w' x = (if generation x = generation e then Some (ai, l) else None)"
      using location_at_slot [of w' x s] new tab by simp
    then show ?thesis using True old [OF True] by (cases x; cases e) auto
  next
    case False
    then show ?thesis using location_cong [OF slots [OF False]] by auto
  qed
  have "rows_point_back w'"
    using inv(1) grid loc old unfolding rows_point_back_def
    by (metis option.distinct(1) option.inject)
  moreover have "slots_point_to_rows w'"
    using inv(2) grid loc unfolding slots_point_to_rows_def
    by (metis option.distinct(1) option.inject prod.inject)
  moreover have "entity_view w e = None" using old by (simp add: entity_view_def)
  moreover have "entity_view w' x = (if x = e then Some (row_view (signature (archetypes w' ! ai)) (row_cells r)) else entity_view w x)" for x
  proof (cases "x = e")
    case True
    then show ?thesis using loc grid(1) by (simp add: entity_view_def row_view_def)
  next
    case False
    show ?thesis
    proof (cases "location w x")
      case (Some jk)
      obtain j k where jk: "jk = (j, k)" by fastforce
      obtain t where t: "grid w j k = Some t" using inv(2) Some jk unfolding slots_point_to_rows_def by blast
      then have "j < length (archetypes w)" by (simp add: grid_def split: if_splits)
      moreover have "\<not> (j = ai \<and> k = l)" using t grid(3) by auto
      ultimately show ?thesis using Some jk False loc grid(1) sigs t by (auto simp: entity_view_def)
    qed (use False loc in \<open>simp add: entity_view_def\<close>)
  qed
  ultimately show ?thesis by (auto simp: fun_eq_iff)
qed

lemma insert_into_spec:
  assumes inv: "archs_inv vt w" and ai: "unat ai < length (archetypes w)"
    and b: "length (arch_rows (archetypes w ! unat ai)) < 2 ^ 32"
    and f: "\<And>a. signature a = signature (archetypes w ! unat ai) \<Longrightarrow>
      f a (replicate (length (signature (archetypes w ! unat ai))) None) = Some cs"
    and live: "cells_live vt (signature (archetypes w ! unat ai)) cs"
  shows "\<exists>l w'. insert_into e ai f w = Some (l, w') \<and> archs_inv vt w'
    \<and> (\<forall>j k. grid w' j k = (if j = unat ai \<and> k = l then Some \<lparr>row_entity = Some e, row_cells = cs\<rparr> else grid w j k))
    \<and> grid w (unat ai) l = None \<and> loc_chunk l < 2 ^ 32 \<and> loc_row l < 2 ^ 32
    \<and> table_inv w' = table_inv w \<and> (\<forall>j. slot_at w' j = slot_at w j)
    \<and> (\<forall>j. signature (archetypes w' ! j) = signature (archetypes w ! j))
    \<and> length (archetypes w') = length (archetypes w)"
proof -
  let ?a = "archetypes w ! unat ai"
  have wf: "arch_wf vt ?a" using inv ai by (auto simp: archs_inv_def)
  obtain l b q where res: "reserve_row ?a (chunk_pool w) = (l, b, q)" by (metis prod_cases3)
  obtain c d where cd: "write_entity l e b = Some c" "with_cells l (f c) c = Some d" "arch_wf vt d" "same_shape d ?a"
    "get_row ?a l = None" "flat_pos ?a l = length (arch_rows ?a)"
    "\<forall>k. get_row d k = (if k = l then Some \<lparr>row_entity = Some e, row_cells = cs\<rparr> else get_row ?a k)"
    using insert_row [where f = f, OF wf res f live] by blast
  define w' where "w' = (set_arch ai d w)\<lparr>chunk_pool := q\<rparr>"
  have at: "arch_at w ai = Some ?a" using ai by (simp add: arch_at_iff)
  have r: "insert_into e ai f w = Some (l, w')"
    by (simp add: insert_into_def at res cd(1,2) w'_def)
  have sg: "signature d = signature ?a" using cd(4) by (simp add: same_shape_def)
  have a': "archs_inv vt w'" unfolding w'_def using archs_inv_set_arch [OF inv cd(3) ai sg] by simp
  have g: "grid w' j k = (if j = unat ai \<and> k = l then Some \<lparr>row_entity = Some e, row_cells = cs\<rparr> else grid w j k)" for j k
    using cd(7) ai by (simp add: w'_def grid_set_arch) (simp add: grid_def)
  have "0 < chunk_capacity ?a" using arch_wf_ok [OF wf] by (simp add: arch_ok_def)
  then have "loc_chunk l \<le> loc_chunk l * chunk_capacity ?a" by simp
  then have "loc_chunk l < 2 ^ 32" "loc_row l < 2 ^ 32" using cd(6) b unfolding flat_pos_def by linarith+
  moreover have "signature (archetypes w' ! j) = signature (archetypes w ! j)" for j
    using sg ai by (simp add: w'_def set_arch_def nth_list_update)
  ultimately show ?thesis
    using r a' g cd(5) ai by (intro exI [of _ l] exI [of _ w']) (auto simp: w'_def grid_def)
qed


section \<open>Creating\<close>

lemma unlocated_fresh:
  assumes "table_inv w" "has_free w \<or> length (entity_slots w) < 2 ^ 32" "allocate_entity_slot w = Some (e, w1)"
  shows "index x = index e \<Longrightarrow> location w x = None"
    "\<And>j. j \<noteq> index e \<Longrightarrow> slot_at w1 j = slot_at w j"
    "\<exists>s. slot_at w1 (index e) = Some s \<and> alive s \<and> slot_generation s = generation e"
    "table_inv w1" "generation_ok (generation e)"
proof -
  have al: "slot_alloc w = Some (index e, w1)" by (rule allocate_slot_alloc [OF assms(2,3)])
  note c = slot_alloc_cases(1) [OF assms(1) al]
  show "index x = index e \<Longrightarrow> location w x = None"
    using c by (auto simp: location_def eid_is_alive_def slot_at_iff split: option.splits)
  show "slot_at w1 j = slot_at w j" if "j \<noteq> index e" for j
    using c that
  proof (elim disjE exE conjE)
    assume n: "unat (index e) = length (entity_slots w)"
      "entity_slots w1 = entity_slots w @ [default_slot\<lparr>slot_generation := 1, alive := True\<rparr>]"
    then have "unat j \<noteq> length (entity_slots w)" using that by (metis unat_inj_iff)
    then show ?thesis using n by (auto simp: slot_at_def arr_get_uint nth_append)
  qed (auto simp: slot_at_def arr_get_uint nth_list_update)
  show ti: "table_inv w1" by (rule table_inv_alloc [OF assms(1) al])
  show s: "\<exists>s. slot_at w1 (index e) = Some s \<and> alive s \<and> slot_generation s = generation e"
  proof -
    have "\<exists>s. slot_at w1 (index e) = Some s \<and> alive s"
      using c by (auto simp: slot_at_iff)
    moreover have "slot_generation s = generation e" if "slot_at w1 (index e) = Some s" for s
      using assms(3) that by (auto simp: allocate_entity_slot_def slot_at_iff set_slot_def bind_eq_Some_conv Let_def
          split: if_splits)
    ultimately show ?thesis by blast
  qed
  show "generation_ok (generation e)" using s ti by (auto simp: table_inv_def slot_at_iff) (metis nth_mem)
qed

lemma index_below_invalid: "archs_inv vt w \<Longrightarrow> unat i < length (archetypes w) \<Longrightarrow> i \<noteq> INVALID_ARCHETYPE"
proof -
  have "unat INVALID_ARCHETYPE = 2 ^ 32 - 1" by (simp add: INVALID_ARCHETYPE_def unsigned_minus_1_eq_mask mask_eq_exp_minus_1)
  then show "archs_inv vt w \<Longrightarrow> unat i < length (archetypes w) \<Longrightarrow> i \<noteq> INVALID_ARCHETYPE"
    by (auto simp: archs_inv_def index_ok_def)
qed


lemma place_cells_cong: "signature a = signature b \<Longrightarrow> place_cells vt a comps = place_cells vt b comps"
proof (induction comps)
  case (Cons x comps)
  then have "place_cells vt a (x # comps) cs = place_cells vt b (x # comps) cs" for cs
    by (cases x) (simp add: column_index_for_def)
  then show ?case by (rule ext)
qed (simp add: fun_eq_iff)

text \<open>Placing an inserted row in its slot; \<open>im\<close> is the flag the slot ends with.\<close>

lemma insert_and_place:
  fixes w :: "'v World"
  assumes inv: "world_inv vt w"
    and room: "length (archetypes w) + 1 < 2 ^ 32" and fits: "sig_fits vt sig" "sorted_wrt (<) sig"
    and foc: "find_or_create_archetype sig (map vt sig) w = (ai, w1)"
    and slots: "table_inv w2" "archetypes w2 = archetypes w1" "archetype_by_signature w2 = archetype_by_signature w1"
      "\<And>j. j \<noteq> index e \<Longrightarrow> slot_at w2 j = slot_at w j"
    and slot: "slot_at w2 (index e) = Some s" "alive s" "slot_generation s = generation e"
    and free: "\<And>x. index x = index e \<Longrightarrow> location w x = None"
    and f: "\<And>a. signature a = sig \<Longrightarrow> f a (replicate (length sig) None) = Some cs" and live: "cells_live vt sig cs"
  shows "\<exists>l w3 s' w4. insert_into e ai f w2 = Some (l, w3)
    \<and> place_slot e ai l w3 = Some w4 \<and> slot_at w4 (index e) = Some s' \<and> world_inv vt w4
    \<and> alive s' \<and> slot_generation s' = generation e \<and> immutable s' = immutable s
    \<and> entity_view w4 = (entity_view w)(e := Some (row_view sig cs)) \<and> entity_view w e = None"
proof -
  note iv = inv [unfolded world_inv_def]
  note fc = find_or_create [OF _ fits room foc]
  have a1: "archs_inv vt w1" "unat ai < length (archetypes w1)" "signature (archetypes w1 ! unat ai) = sig" "grid w1 = grid w"
    using fc iv by blast+
  have a2: "archs_inv vt w2" using a1(1) slots(2,3) by (simp add: archs_inv_def index_ok_def)
  have g2: "grid w2 = grid w" using a1(4) grid_cong [OF slots(2)] by simp
  have "rows_point_back w1" using iv a1(4) fc(5) by (simp add: rows_point_back_def)
  moreover have "arch_wf vt (archetypes w1 ! unat ai)" using a1(1,2) by (auto simp: archs_inv_def)
  ultimately have "length (arch_rows (archetypes w1 ! unat ai)) < 2 ^ 32"
    using rows_bound [of w1 "unat ai" "archetypes w1 ! unat ai" "index e"] a1(2) free fc(5) iv arch_wf_ok
    by (metis option.distinct(1))
  then have b: "length (arch_rows (archetypes w2 ! unat ai)) < 2 ^ 32" using slots(2) by simp
  have ai2: "unat ai < length (archetypes w2)" "signature (archetypes w2 ! unat ai) = sig" using a1 slots(2) by simp_all
  obtain l w3 where w3: "insert_into e ai f w2 = Some (l, w3)" "archs_inv vt w3"
    "\<forall>j k. grid w3 j k = (if j = unat ai \<and> k = l then Some \<lparr>row_entity = Some e, row_cells = cs\<rparr> else grid w2 j k)"
    "grid w2 (unat ai) l = None" "loc_chunk l < 2 ^ 32" "loc_row l < 2 ^ 32"
    "table_inv w3 = table_inv w2" "\<forall>j. slot_at w3 j = slot_at w2 j"
    "\<forall>j. signature (archetypes w3 ! j) = signature (archetypes w2 ! j)"
    "length (archetypes w3) = length (archetypes w2)"
    using insert_into_spec [where f = f and cs = cs and e = e, OF a2 ai2(1) b] f live ai2(2) by (metis (no_types, lifting))
  define s' where "s' = s\<lparr>archetype_index := ai, chunk_index := of_nat (loc_chunk l), row := of_nat (loc_row l)\<rparr>"
  define w4 where "w4 = set_slot (index e) s' w3"
  have at3: "slot_at w3 (index e) = Some s" using w3(8) slot(1) by simp
  then have "place_slot e ai l w3 = Some w4" by (simp add: place_slot_def s'_def w4_def)
  have at4: "slot_at w4 (index e) = Some s'" using at3 by (simp add: w4_def slot_at_iff)
  have oth: "slot_at w4 j = slot_at w j" if "j \<noteq> index e" for j
    using that w3(8) slots(4) by (simp add: w4_def)
  have t4: "table_inv w4"
    unfolding w4_def by (rule table_inv_place [OF _ at3]) (use w3(7) slots(1) slot(2) in \<open>simp_all add: s'_def\<close>)
  have wi: "rows_point_back w4 \<and> slots_point_to_rows w4
    \<and> entity_view w4 = (entity_view w)(e := Some (row_view (signature (archetypes w4 ! unat ai))
          (row_cells \<lparr>row_entity = Some e, row_cells = cs\<rparr>)))
    \<and> entity_view w e = None"
  proof (rule world_insert [where ai = "unat ai" and l = l, OF _ _ t4 free oth at4])
    show "rows_point_back w" "slots_point_to_rows w" using iv by simp_all
    show "alive s'" "slot_generation s' = generation e" "unat (archetype_index s') = unat ai"
      using slot by (simp_all add: s'_def)
    show "archetype_index s' \<noteq> INVALID_ARCHETYPE" using index_below_invalid [OF a1(1,2)] by (simp add: s'_def)
    show "slot_loc s' = l" by (rule slot_loc_of_nat [OF w3(5,6)]) (simp_all add: s'_def)
    show "grid w4 j k = (if j = unat ai \<and> k = l then Some \<lparr>row_entity = Some e, row_cells = cs\<rparr> else grid w j k)" for j k
      using w3(3) g2 by (simp add: w4_def)
    show "grid w (unat ai) l = None" using w3(4) g2 by simp
    show "signature (archetypes w4 ! j) = signature (archetypes w ! j)" if "j < length (archetypes w)" for j
      using that w3(9) slots(2) fc(11) [of j] iv by (simp add: w4_def)
  qed simp_all
  have "signature (archetypes w4 ! unat ai) = sig" using w3(9) ai2 by (simp add: w4_def)
  then show ?thesis
    using w3(1,2) \<open>place_slot e ai l w3 = Some w4\<close> at4 wi t4 slot
    by (intro exI [of _ l] exI [of _ w3] exI [of _ s'] exI [of _ w4]) (simp add: world_inv_def s'_def w4_def)
qed


lemma allocate_some:
  assumes "table_inv w" "has_free w \<or> length (entity_slots w) < 2 ^ 32"
  obtains e w1 where "allocate_entity_slot w = Some (e, w1)"
proof -
  obtain fs where fs: "chain_ok w fs" using assms(1) by (rule table_invE)
  show thesis
  proof (cases fs)
    case Nil
    then have "length (entity_slots w) < 2 ^ 32" using fs assms(2) by (simp add: chain_ok_def)
    then show thesis using that allocate_fresh [of w] fs Nil by blast
  next
    case (Cons i js)
    then show thesis using that allocate_reused [of w i js] fs by blast
  qed
qed

lemma bytes_per_row_sum: "bytes_per_row vts = SIZEOF_ENTITY_ID + sum_mset (image_mset vt_size (mset vts))"
  by (induction vts) simp_all

lemma align_overhead_sum:
  "align_overhead vts = sum_mset (image_mset (\<lambda>t. if vt_size t = 0 then 0 else if vt_align t > 0 then vt_align t - 1 else 0) (mset vts))"
  by (induction vts) simp_all

lemma sig_fits_perm: "mset xs = mset ys \<Longrightarrow> sig_fits vt xs = sig_fits vt ys"
  by (simp add: sig_fits_def bytes_per_row_sum align_overhead_sum alignments_ok_def list_all_iff)
    (metis mset_eq_setD)

text \<open>The components as the abstract world sees them.\<close>

definition component_map :: "vtables_of \<Rightarrow> (component_type_id_t \<times> 'v) list \<Rightarrow> component_type_id_t \<Rightarrow> 'v option option" where
  "component_map vt comps c =
     (case map_of comps c of None \<Rightarrow> None | Some v \<Rightarrow> Some (if vt_size (vt c) = 0 then None else Some v))"

lemma row_view_in: "length cs = length sig \<Longrightarrow> row_view sig cs c = None \<longleftrightarrow> c \<notin> set sig"
  by (simp add: row_view_def map_of_zip_is_None)

lemma row_view_map: "row_view sig (map f sig) c = (if c \<in> set sig then Some (f c) else None)"
  by (simp add: row_view_def map_of_zip_map)

lemma row_view_staged:
  assumes "set sig = fst ` set comps"
  shows "row_view sig (staged_values vt comps sig) = component_map vt comps"
proof
  fix c
  show "row_view sig (staged_values vt comps sig) c = component_map vt comps c"
  proof (cases "map_of comps c")
    case None
    then have "c \<notin> set sig" unfolding assms by (simp add: map_of_eq_None_iff)
    then show ?thesis by (simp add: staged_values_def row_view_map component_map_def None)
  next
    case (Some v)
    then have "c \<in> set sig" unfolding assms by (metis map_of_SomeD image_eqI fst_conv)
    then show ?thesis by (simp add: staged_values_def row_view_map component_map_def Some)
  qed
qed

lemma is_immutable_iff:
  "slot_at w (index e) = Some s \<Longrightarrow> is_immutable w e = (eid_is_alive w e \<and> immutable s)"
  by (simp add: is_immutable_def)

lemma entity_view_alive: "entity_view w e \<noteq> None \<Longrightarrow> eid_is_alive w e"
  by (auto simp: entity_view_def location_def split: option.splits if_splits)

lemma location_stamp:
  "slot_at w i = Some s \<Longrightarrow> location (set_slot i (s\<lparr>immutable := b\<rparr>) w) x = location w x"
proof -
  assume s: "slot_at w i = Some s"
  then have "unat i < length (entity_slots w)" by (simp add: slot_at_iff)
  then have "slot_at w (index x) = Some s \<and> i = index x \<or> i \<noteq> index x" using s by auto
  then show ?thesis using \<open>unat i < length (entity_slots w)\<close>
    by (auto simp: location_def eid_is_alive_def slot_loc_def)
qed

lemma stamp_world:
  assumes "world_inv vt w" "slot_at w i = Some s" "alive s"
  shows "world_inv vt (set_slot i (s\<lparr>immutable := b\<rparr>) w)"
    "entity_view (set_slot i (s\<lparr>immutable := b\<rparr>) w) = entity_view w"
proof -
  have l: "location (set_slot i (s\<lparr>immutable := b\<rparr>) w) = location w"
    using location_stamp [OF assms(2)] by (simp add: fun_eq_iff)
  then show "entity_view (set_slot i (s\<lparr>immutable := b\<rparr>) w) = entity_view w"
    unfolding entity_view_def set_slot_frame by simp
  have "table_inv (set_slot i (s\<lparr>immutable := b\<rparr>) w)"
    by (rule table_inv_place [OF _ assms(2)]) (use assms in \<open>simp_all add: world_inv_def\<close>)
  then show "world_inv vt (set_slot i (s\<lparr>immutable := b\<rparr>) w)"
    using assms(1) l by (simp add: world_inv_def rows_point_back_def slots_point_to_rows_def)
qed

lemma create_entity_spec:
  assumes inv: "world_inv vt w" and nt: "\<not> in_tick_or_log w"
    and room: "length (archetypes w) + 1 < 2 ^ 32" "has_free w \<or> length (entity_slots w) < 2 ^ 32"
    and comps: "distinct (map fst comps)" "sig_fits vt (map fst comps)"
  shows "\<exists>e w'. create_entity_impl vt im comps w = Some (e, w') \<and> world_inv vt w'
    \<and> entity_view w e = None \<and> entity_view w' = (entity_view w)(e := Some (component_map vt comps))
    \<and> is_immutable w' e = im"
proof -
  note iv = inv [unfolded world_inv_def]
  define srt where "srt = exchange_sort (map (\<lambda>(c, v). (c, vt c)) comps)"
  define sig where "sig = map fst srt"
  note sg = exchange_sort_signature [OF comps(1), of vt, folded srt_def, folded sig_def]
  have "mset sig = mset (map fst comps)"
  proof -
    have "mset srt = mset (map (\<lambda>(c, v). (c, vt c)) comps)" unfolding srt_def by (rule exchange_sort_spec [THEN conjunct1])
    then have "image_mset fst (mset srt) = image_mset fst (mset (map (\<lambda>(c, v). (c, vt c)) comps))" by simp
    then show ?thesis by (simp add: sig_def image_mset.compositionality comp_def case_prod_unfold)
  qed
  then have fits: "sig_fits vt sig" using comps(2) sig_fits_perm by blast
  obtain ai w1 where foc: "find_or_create_archetype sig (map vt sig) w = (ai, w1)" by fastforce
  note fc = find_or_create [OF _ fits sg(1) room(1) foc]
  have w1: "table_inv w1" "has_free w1 \<or> length (entity_slots w1) < 2 ^ 32"
    "\<And>x. location w1 x = location w x" "\<And>j. slot_at w1 j = slot_at w j"
    using fc iv room(2) by (simp_all add: slot_at_def)
  obtain e w2 where al: "allocate_entity_slot w1 = Some (e, w2)" by (rule allocate_some [OF w1(1,2)])
  note u = unlocated_fresh [OF w1(1,2) al]
  note fr = allocate_frame [OF al]
  obtain s where s: "slot_at w2 (index e) = Some s" "alive s" "slot_generation s = generation e" using u(3) by blast
  have live: "cells_live vt sig (staged_values vt comps sig)" using staged_live [of sig comps vt] sg(3) by simp
  have "\<exists>l w3 s' w4. insert_into e ai (\<lambda>a. place_cells vt a comps) w2 = Some (l, w3)
    \<and> place_slot e ai l w3 = Some w4 \<and> slot_at w4 (index e) = Some s' \<and> world_inv vt w4
    \<and> alive s' \<and> slot_generation s' = generation e \<and> immutable s' = immutable s
    \<and> entity_view w4 = (entity_view w)(e := Some (row_view sig (staged_values vt comps sig))) \<and> entity_view w e = None"
  proof (rule insert_and_place [OF inv room(1) fits sg(1) foc u(4) fr(1,2) _ s _ _ live])
    show "slot_at w2 j = slot_at w j" if "j \<noteq> index e" for j using u(2) [OF that] w1(4) by simp
    show "location w x = None" if "index x = index e" for x using u(1) [OF that] w1(3) by simp
    show "place_cells vt a comps (replicate (length sig) None) = Some (staged_values vt comps sig)"
      if "signature a = sig" for a :: "'a Archetype"
      using place_cells_fresh [of a comps vt] comps(1) sg that by (simp add: strict_sorted_iff)
  qed
  then obtain l w3 s' w4 where r: "insert_into e ai (\<lambda>a. place_cells vt a comps) w2 = Some (l, w3)"
    "place_slot e ai l w3 = Some w4" "slot_at w4 (index e) = Some s'" "world_inv vt w4" "alive s'"
    "entity_view w4 = (entity_view w)(e := Some (component_map vt comps))" "entity_view w e = None"
    using row_view_staged [OF sg(3), of vt] by auto
  define w' where "w' = set_slot (index e) (s'\<lparr>immutable := im\<rparr>) w4"
  have "create_entity_impl vt im comps w = Some (e, w')"
    using nt foc sg(2) al r(1,2,3)
    by (simp add: create_entity_impl_def srt_def [symmetric] sig_def [symmetric] Let_def stamp_immutable_def w'_def)
  moreover note st = stamp_world [OF r(4,3,5), of im, folded w'_def]
  moreover have "is_immutable w' e = im"
  proof -
    have "entity_view w' e \<noteq> None" using st(2) r(6) by simp
    moreover have "slot_at w' (index e) = Some (s'\<lparr>immutable := im\<rparr>)"
      using r(3) by (simp add: w'_def slot_at_iff)
    ultimately show ?thesis using entity_view_alive is_immutable_iff by fastforce
  qed
  ultimately show ?thesis using r(6,7) by auto
qed


lemma finalize_spec:
  assumes inv: "world_inv vt w" and room: "length (archetypes w) + 1 < 2 ^ 32"
    and slot: "slot_at w (index e) = Some s" "alive s" "slot_generation s = generation e"
      "archetype_index s = INVALID_ARCHETYPE"
    and fits: "sig_fits vt sig" "sorted_wrt (<) sig" and live: "cells_live vt sig vals"
  shows "\<exists>w'. finalize_reserved_entity e sig (map vt sig) vals w = Some w' \<and> world_inv vt w'
    \<and> entity_view w e = None \<and> entity_view w' = (entity_view w)(e := Some (row_view sig vals))
    \<and> is_immutable w' e = immutable s"
proof -
  note iv = inv [unfolded world_inv_def]
  obtain ai w1 where foc: "find_or_create_archetype sig (map vt sig) w = (ai, w1)" by fastforce
  note fc = find_or_create [OF _ fits room foc]
  have sl: "slot_at w1 j = slot_at w j" for j using fc(7) iv by (simp add: slot_at_def)
  have "\<exists>l w3 s' w4. insert_into e ai (\<lambda>_. fill_cells (map vt sig) vals) w1 = Some (l, w3)
    \<and> place_slot e ai l w3 = Some w4 \<and> slot_at w4 (index e) = Some s' \<and> world_inv vt w4
    \<and> alive s' \<and> slot_generation s' = generation e \<and> immutable s' = immutable s
    \<and> entity_view w4 = (entity_view w)(e := Some (row_view sig vals)) \<and> entity_view w e = None"
  proof (rule insert_and_place [OF inv room fits foc _ refl refl sl _ slot(2,3) _ _ live])
    show "fill_cells (map vt sig) vals (replicate (length sig) None) = Some vals" by (rule fill_cells_live [OF live])
    show "table_inv w1" using fc(6) iv by simp
    show "slot_at w1 (index e) = Some s" using sl slot(1) by simp
    show "location w x = None" if "index x = index e" for x
      using slot that by (simp add: location_def eid_is_alive_def)
  qed
  then obtain l w3 s' w' where r: "insert_into e ai (\<lambda>_. fill_cells (map vt sig) vals) w1 = Some (l, w3)"
    "place_slot e ai l w3 = Some w'" "slot_at w' (index e) = Some s'" "world_inv vt w'" "immutable s' = immutable s"
    "entity_view w' = (entity_view w)(e := Some (row_view sig vals))" "entity_view w e = None" by blast
  have "finalize_reserved_entity e sig (map vt sig) vals w = Some w'"
    using slot foc r(1,2) by (simp add: finalize_reserved_entity_def)
  moreover have "is_immutable w' e = immutable s"
    using r(3,5,6) entity_view_alive [of w' e] is_immutable_iff [OF r(3)] by simp
  ultimately show ?thesis using r(4,6,7) by blast
qed

end
