(* ===== verification/World_Removal.thy ===== *)
theory World_Removal
  imports World_Invariant
begin

text \<open>
  Taking rows out of archetypes: the compaction that fills the hole with the last row, the destruction
  of entities, and the migrations of \<open>add_component\<close> and \<open>remove_component\<close>.
\<close>

section \<open>Removing\<close>

text \<open>Rows and slots that are inverse to each other, as two functions.\<close>

definition inverse_maps :: "(nat \<Rightarrow> RowLocation \<Rightarrow> 'v Row option) \<Rightarrow> (EntityID \<Rightarrow> (nat \<times> RowLocation) option) \<Rightarrow> bool" where
  "inverse_maps g loc \<longleftrightarrow>
     (\<forall>j k r. g j k = Some r \<longrightarrow> (\<exists>e. row_entity r = Some e \<and> loc e = Some (j, k)))
   \<and> (\<forall>e j k. loc e = Some (j, k) \<longrightarrow> (\<exists>r. g j k = Some r \<and> row_entity r = Some e))"

lemma inverse_maps_world: "inverse_maps (grid w) (location w) \<longleftrightarrow> rows_point_back w \<and> slots_point_to_rows w"
  by (simp add: inverse_maps_def rows_point_back_def slots_point_to_rows_def)

lemma inverse_maps_at: "inverse_maps g loc \<Longrightarrow> loc e = Some (j, k) \<Longrightarrow> \<exists>r. g j k = Some r \<and> row_entity r = Some e"
  by (simp add: inverse_maps_def)

lemma inverse_maps_row: "inverse_maps g loc \<Longrightarrow> g j k = Some r \<Longrightarrow> row_entity r = Some e \<Longrightarrow> loc e = Some (j, k)"
  unfolding inverse_maps_def by (metis option.inject)

lemma inverse_maps_inj: "inverse_maps g loc \<Longrightarrow> loc e = Some p \<Longrightarrow> loc d = Some p \<Longrightarrow> e = d"
proof -
  assume inv: "inverse_maps g loc" and e: "loc e = Some p" "loc d = Some p"
  obtain j k where p: "p = (j, k)" by fastforce
  show "e = d" using inverse_maps_at [OF inv, of e j k] inverse_maps_at [OF inv, of d j k] e p by auto
qed

definition swap_grid where
  "swap_grid (g :: nat \<Rightarrow> RowLocation \<Rightarrow> 'v Row option) ai l m =
     g(ai := (g ai)(l := g ai m, m := None))"

definition swap_loc where
  "swap_loc (loc :: EntityID \<Rightarrow> (nat \<times> RowLocation) option) e d = loc(d := loc e, e := None)"

lemma inverse_maps_swap:
  assumes inv: "inverse_maps g loc" and e: "loc e = Some (ai, l)" and m: "g ai m = Some rm" "row_entity rm = Some d"
  shows "inverse_maps (swap_grid g ai l m) (swap_loc loc e d)"
proof -
  have d: "loc d = Some (ai, m)" by (rule inverse_maps_row [OF inv m])
  have ed: "e = d \<longleftrightarrow> l = m" using d e inverse_maps_inj [OF inv] by auto
  show ?thesis
    unfolding inverse_maps_def
  proof (intro conjI allI impI)
    fix j k r assume r: "swap_grid g ai l m j k = Some r"
    then have km: "\<not> (j = ai \<and> k = m)" by (auto simp: swap_grid_def split: if_splits)
    show "\<exists>x. row_entity r = Some x \<and> swap_loc loc e d x = Some (j, k)"
    proof (cases "j = ai \<and> k = l")
      case True
      then show ?thesis using r km m ed e by (auto simp: swap_grid_def swap_loc_def)
    next
      case False
      then have "g j k = Some r" using r by (auto simp: swap_grid_def split: if_splits)
      then obtain x where x: "row_entity r = Some x" "loc x = Some (j, k)" using inv unfolding inverse_maps_def by blast
      then have "x \<noteq> e" "x \<noteq> d" using e d False km by auto
      then show ?thesis using x by (auto simp: swap_loc_def)
    qed
  next
    fix x j k assume x: "swap_loc loc e d x = Some (j, k)"
    show "\<exists>r. swap_grid g ai l m j k = Some r \<and> row_entity r = Some x"
    proof (cases "x = d")
      case True
      then have "l \<noteq> m" "j = ai" "k = l" using x ed e by (auto simp: swap_loc_def split: if_splits)
      then show ?thesis using m True by (simp add: swap_grid_def)
    next
      case False
      then have xe: "x \<noteq> e" "loc x = Some (j, k)" using x by (auto simp: swap_loc_def split: if_splits)
      then have "(j, k) \<noteq> (ai, l)" "(j, k) \<noteq> (ai, m)" using inverse_maps_inj [OF inv] e d False by auto
      then show ?thesis using inverse_maps_at [OF inv xe(2)] by (auto simp: swap_grid_def)
    qed
  qed
qed

lemma inverse_maps_insert:
  assumes inv: "inverse_maps g loc" and "loc e = None" "g j k = None" "row_entity r = Some e"
  shows "inverse_maps (g(j := (g j)(k := Some r))) (loc(e := Some (j, k)))"
  using assms unfolding inverse_maps_def
  by (auto split: if_splits) (metis option.distinct(1))+

definition view_of :: "(nat \<Rightarrow> component_type_id_t list) \<Rightarrow> (nat \<Rightarrow> RowLocation \<Rightarrow> 'v Row option) \<Rightarrow>
    (EntityID \<Rightarrow> (nat \<times> RowLocation) option) \<Rightarrow> EntityID \<Rightarrow> (component_type_id_t \<Rightarrow> 'v option option) option" where
  "view_of sigs g loc e = (case loc e of None \<Rightarrow> None | Some (j, k) \<Rightarrow>
     (case g j k of None \<Rightarrow> None | Some r \<Rightarrow> Some (row_view (sigs j) (row_cells r))))"

lemma entity_view_of: "entity_view w = view_of (\<lambda>j. signature (archetypes w ! j)) (grid w) (location w)"
  unfolding entity_view_def view_of_def row_view_def by (rule refl)

lemma view_of_swap:
  assumes inv: "inverse_maps g loc" and e: "loc e = Some (ai, l)" and m: "g ai m = Some rm" "row_entity rm = Some d"
  shows "view_of sigs (swap_grid g ai l m) (swap_loc loc e d) = (view_of sigs g loc)(e := None)"
proof
  fix x
  have d: "loc d = Some (ai, m)" by (rule inverse_maps_row [OF inv m])
  have ed: "e = d \<longleftrightarrow> l = m" using d e inverse_maps_inj [OF inv] by auto
  consider "x = e" | "x = d" "x \<noteq> e" | "x \<noteq> e" "x \<noteq> d" by blast
  then show "view_of sigs (swap_grid g ai l m) (swap_loc loc e d) x = ((view_of sigs g loc)(e := None)) x"
  proof cases
    case 1
    then show ?thesis by (simp add: view_of_def swap_loc_def)
  next
    case 2
    then have "swap_loc loc e d x = Some (ai, l)" "swap_grid g ai l m ai l = Some rm"
      using e ed m by (auto simp: swap_loc_def swap_grid_def)
    then show ?thesis using 2 d m by (simp add: view_of_def)
  next
    case 3
    show ?thesis
    proof (cases "loc x")
      case (Some p)
      obtain j k where p: "p = (j, k)" by fastforce
      have "(j, k) \<noteq> (ai, l)" "(j, k) \<noteq> (ai, m)" using inverse_maps_inj [OF inv] e d 3 Some p by auto
      then have "swap_grid g ai l m j k = g j k" by (auto simp: swap_grid_def)
      then show ?thesis using 3 Some p by (simp add: view_of_def swap_loc_def)
    qed (use 3 in \<open>simp add: view_of_def swap_loc_def\<close>)
  qed
qed

lemma view_of_insert:
  assumes "inverse_maps g loc" "loc e = None" "g j k = None"
  shows "view_of sigs (g(j := (g j)(k := Some r))) (loc(e := Some (j, k)))
    = (view_of sigs g loc)(e := Some (row_view (sigs j) (row_cells r)))"
proof
  fix x
  show "view_of sigs (g(j := (g j)(k := Some r))) (loc(e := Some (j, k))) x
    = ((view_of sigs g loc)(e := Some (row_view (sigs j) (row_cells r)))) x"
  proof (cases "x = e \<or> loc x = None")
    case False
    then obtain j' k' where l: "loc x = Some (j', k')" by auto
    then have "\<not> (j' = j \<and> k' = k)" using inverse_maps_at [OF assms(1)] assms(3) by fastforce
    then have "(g(j := (g j)(k := Some r))) j' k' = g j' k'" by auto
    then show ?thesis using False l by (simp add: view_of_def)
  qed (auto simp: view_of_def)
qed

text \<open>The row at \<open>l\<close> after its cells were destroyed or moved out.\<close>

definition emptied :: "'v Archetype \<Rightarrow> RowLocation \<Rightarrow> 'v Row \<Rightarrow> 'v Archetype" where
  "emptied a l r = set_row l (r\<lparr>row_cells := replicate (length (signature a)) None\<rparr>) a"

lemma remove_row:
  assumes wf: "arch_wf vt a" and l: "get_row a l = Some r"
  shows "\<exists>m rm b q. compact_rows l (emptied a l r) p = Some (if l = m then None else row_entity rm, b, q)
    \<and> get_row a m = Some rm \<and> arch_wf vt b \<and> same_shape b a
    \<and> (\<forall>k. get_row b k = (if k = m then None else if k = l then Some rm else get_row a k))"
proof -
  note ok = arch_wf_ok [OF wf]
  define h where "h = r\<lparr>row_cells := replicate (length (signature a)) None\<rparr>"
  define a1 where "a1 = emptied a l r"
  have a1: "a1 = set_row l h a" by (simp add: a1_def emptied_def h_def)
  note sr = set_row_rows [OF ok l, of h, folded a1]
  have ok1: "arch_ok a1" unfolding a1 by (rule set_row_ok [OF ok l]) (simp add: h_def)
  have sh: "same_shape a1 a" by (rule sr(3))
  then have fp: "flat_pos a1 = flat_pos a" "column_offsets a1 = column_offsets a"
    using same_shape_flat [OF sh] by (auto simp: same_shape_def)
  have off: "length (column_offsets a) = length (signature a)" using ok by (simp add: arch_ok_def)
  have g1: "get_row a1 k = (if k = l then Some h else get_row a k)" for k
    using get_set_row [OF l] by (simp add: a1)
  note lf = get_row_flat [OF ok l]
  have hr: "hole_ready a1 l"
    unfolding hole_ready_def
  proof (intro conjI allI impI)
    show "arch_ok a1" by (rule ok1)
    show "get_row a1 l \<noteq> None" by (simp add: g1)
    fix i assume i: "i < length (arch_rows a1)"
    then have i': "i < length (arch_rows a)" by (simp add: sr(1))
    have "row_live (column_offsets a) (arch_rows a ! i)" using wf i' by (simp add: arch_wf_def)
    then show "if i = flat_pos a1 l then row_raw (column_offsets a1) (arch_rows a1 ! i)
        else row_live (column_offsets a1) (arch_rows a1 ! i)"
      using i' off by (simp add: sr(1) fp row_raw_def h_def)
  qed
  obtain moved b q where c: "compact_rows l a1 p = Some (moved, b, q)"
    using compact_rows_spec [OF hr, of p] by blast
  note cg = compact_rows_get [OF hr c]
  define m where "m = last_row_location a1"
  define rm where "rm = (if l = m then r else last (arch_rows a1))"
  have gm: "get_row a m = Some rm"
    using cg(3) g1 [of m] l by (auto simp: m_def [symmetric] rm_def split: if_splits)
  have "arch_wf vt b"
  proof (rule arch_wf_transfer [OF wf])
    show "same_shape b a" by (rule same_shape_trans [OF cg(5) sh])
    show "length (column_versions b) = length (column_versions a)" by (simp add: cg(7) a1)
    show "row_live (column_offsets a) t" if "get_row b k = Some t" for k t
      using cg(6) get_row_in [OF cg(4) that] fp(2) by simp
  qed (rule cg(4))
  moreover have "get_row b k = (if k = m then None else if k = l then Some rm else get_row a k)" for k
    using cg(2) g1 by (auto simp: m_def rm_def)
  moreover have "moved = (if l = m then None else row_entity rm)"
    using cg(1) by (auto simp: m_def rm_def)
  ultimately show ?thesis
    using c gm same_shape_trans [OF cg(5) sh] unfolding a1_def by blast
qed

lemma compact_world:
  assumes at: "unat i < length (archetypes w)" "archetypes w ! unat i = emptied a l r"
    and wf: "arch_wf vt a" and l: "get_row a l = Some r" and tab: "table_inv w"
    and rows: "\<forall>k t. get_row a k = Some t \<longrightarrow> (\<exists>e s. row_entity t = Some e \<and> slot_at w (index e) = Some s \<and> alive s)"
  shows "\<exists>w' m rm d b. compact_archetype_after_external_move i l w = Some w'
    \<and> get_row a m = Some rm \<and> row_entity rm = Some d \<and> arch_wf vt b \<and> same_shape b a
    \<and> (\<forall>k. get_row b k = (if k = m then None else if k = l then Some rm else get_row a k))
    \<and> archetypes w' = (archetypes w)[unat i := b] \<and> archetype_by_signature w' = archetype_by_signature w
    \<and> table_inv w' \<and> has_free w' = has_free w \<and> first_free w' = first_free w
    \<and> (\<forall>j. slot_at w' j = (if l \<noteq> m \<and> j = index d then map_option (\<lambda>s. s\<lparr>chunk_index := of_nat (loc_chunk l),
          row := of_nat (loc_row l)\<rparr>) (slot_at w j) else slot_at w j))"
proof -
  obtain m rm b q where c: "compact_rows l (emptied a l r) (chunk_pool w) = Some (if l = m then None else row_entity rm, b, q)"
    "get_row a m = Some rm" "arch_wf vt b" "same_shape b a"
    "\<forall>k. get_row b k = (if k = m then None else if k = l then Some rm else get_row a k)"
    using remove_row [OF wf l] by blast
  obtain d s where d: "row_entity rm = Some d" "slot_at w (index d) = Some s" "alive s" using rows c(2) by blast
  define v where "v = (set_arch i b w)\<lparr>chunk_pool := q\<rparr>"
  define w' where "w' = (if l = m then v else set_slot (index d)
      (s\<lparr>chunk_index := of_nat (loc_chunk l), row := of_nat (loc_row l)\<rparr>) v)"
  have ta: "arch_at w i = Some (emptied a l r)" using at by (simp add: arch_at_iff)
  have sv: "slot_at v j = slot_at w j" for j by (simp add: v_def)
  have "compact_archetype_after_external_move i l w = Some w'"
    using c(1) d sv by (simp add: compact_archetype_after_external_move_def ta v_def [symmetric] w'_def)
  moreover have "table_inv w'"
  proof (cases "l = m")
    case False
    have "table_inv (set_slot (index d) (s\<lparr>chunk_index := of_nat (loc_chunk l), row := of_nat (loc_row l)\<rparr>) v)"
      by (rule table_inv_place [of v "index d" s]) (use tab d sv in \<open>simp_all add: v_def\<close>)
    then show ?thesis using False by (simp add: w'_def)
  qed (use tab in \<open>simp add: w'_def v_def\<close>)
  moreover have "slot_at w' j = (if l \<noteq> m \<and> j = index d then map_option (\<lambda>s. s\<lparr>chunk_index := of_nat (loc_chunk l),
          row := of_nat (loc_row l)\<rparr>) (slot_at w j) else slot_at w j)" for j
  proof -
    have "unat (index d) < length (entity_slots v)" using d(2) by (simp add: v_def set_arch_def slot_at_iff)
    then show ?thesis using d(2) sv by (auto simp: w'_def)
  qed
  moreover have "archetypes w' = (archetypes w)[unat i := b]" "archetype_by_signature w' = archetype_by_signature w"
    "has_free w' = has_free w" "first_free w' = first_free w"
    by (simp_all add: w'_def v_def set_arch_def set_slot_def)
  ultimately show ?thesis using c(2-5) d(1) by blast
qed

text \<open>Where the moved entity is after its slot was updated.\<close>

lemma moved_location:
  assumes tab: "table_inv w'" and loc: "location w d = Some (ai, m)"
    and at: "slot_at w' (index d) = map_option (\<lambda>s. s\<lparr>chunk_index := of_nat (loc_chunk l), row := of_nat (loc_row l)\<rparr>) (slot_at w (index d))"
    and small: "loc_chunk l < 2 ^ 32" "loc_row l < 2 ^ 32"
  shows "location w' d = Some (ai, l)"
proof -
  obtain s where s: "slot_at w (index d) = Some s" "unat (archetype_index s) = ai" "eid_is_alive w d"
    using loc by (auto simp: location_slot)
  have "slot_loc (s\<lparr>chunk_index := of_nat (loc_chunk l), row := of_nat (loc_row l)\<rparr>) = l"
    by (rule slot_loc_of_nat [OF small]) simp_all
  moreover have "eid_is_alive w' d" using s at by (auto simp: eid_is_alive_def)
  ultimately show ?thesis using s at by (simp add: location_slot)
qed

lemma slot_loc_small: "loc_chunk (slot_loc s) < 2 ^ 32" "loc_row (slot_loc s) < 2 ^ 32"
  using unsigned_less [of "chunk_index s", where ?'a = nat] unsigned_less [of "row s", where ?'a = nat]
  by (simp_all add: slot_loc_def)

lemma push_free_slot_at:
  assumes "slot_at w i = Some s"
  shows "slot_at (push_free i w) j = (if j = i then Some (s\<lparr>alive := False, next_free := (if has_free w then first_free w else i)\<rparr>)
    else slot_at w j)"
  using assms by (auto simp: slot_at_def push_free_slots arr_get_uint nth_list_update split: if_splits)

lemma location_alive_slot:
  assumes "location w x = Some p"
  obtains s where "slot_at w (index x) = Some s" "alive s" "slot_generation s = generation x"
    "archetype_index s \<noteq> INVALID_ARCHETYPE" "p = (unat (archetype_index s), slot_loc s)" "\<not> eid_is_deferred x"
  using assms by (auto simp: location_def eid_is_alive_def split: if_splits option.splits)


lemma swapped_locations:
  assumes tab: "table_inv w'" and ld: "location w d = Some (ai, m)"
    and slots: "\<forall>j. slot_at w' j = (if l \<noteq> m \<and> j = index d then map_option (\<lambda>s. s\<lparr>chunk_index := of_nat (loc_chunk l),
          row := of_nat (loc_row l)\<rparr>) (slot_at w j) else slot_at w j)"
    and small: "loc_chunk l < 2 ^ 32" "loc_row l < 2 ^ 32"
  shows "location w' x = (if x = d then Some (ai, l) else location w x)"
proof (cases "l \<noteq> m \<and> index x = index d")
  case True
  obtain sd where sd: "slot_at w (index d) = Some sd" "slot_generation sd = generation d"
    using ld by (rule location_alive_slot)
  show ?thesis
  proof (cases "x = d")
    case xd: True
    have "location w' d = Some (ai, l)"
      by (rule moved_location [OF tab ld _ small]) (use slots True in simp)
    then show ?thesis using xd by simp
  next
    case False
    then have "generation x \<noteq> generation d" using True by (cases x; cases d) simp
    then have "\<not> eid_is_alive w' x" using slots True sd by (simp add: eid_is_alive_def)
    moreover have "location w x = None"
      using location_same_index [of w x _ d] ld True False by (cases "location w x") auto
    ultimately show ?thesis using False by (simp add: location_def)
  qed
next
  case False
  then have "slot_at w' (index x) = slot_at w (index x)" using slots by auto
  then have "location w' x = location w x" by (rule location_cong)
  then show ?thesis using False ld by auto
qed

lemma location_push_free:
  assumes "slot_at w i = Some s"
  shows "location (push_free i w) x = (if index x = i then None else location w x)"
proof (cases "index x = i")
  case True
  then show ?thesis using push_free_slot_at [OF assms, of i] by (simp add: location_def eid_is_alive_def)
next
  case False
  then have "slot_at (push_free i w) (index x) = slot_at w (index x)" using push_free_slot_at [OF assms] by simp
  then show ?thesis using False location_cong by auto
qed

text \<open>What \<open>world_inv\<close> says in terms of the two inverse functions.\<close>

lemma world_inv_iff:
  "world_inv vt w \<longleftrightarrow> table_inv w \<and> archs_inv vt w \<and> inverse_maps (grid w) (location w)"
  by (auto simp: world_inv_def inverse_maps_world)

lemma grid_at: "ai < length (archetypes w) \<Longrightarrow> grid w ai = get_row (archetypes w ! ai)"
  by (simp add: grid_def fun_eq_iff)

lemma destroy_entity_spec:
  assumes inv: "world_inv vt w" and nt: "\<not> in_tick_or_log w" and e: "eid_is_alive w e"
  shows "\<exists>w'. destroy_entity e w = Some w' \<and> world_inv vt w' \<and> entity_view w' = (entity_view w)(e := None)"
proof -
  note iv = inv [unfolded world_inv_iff]
  obtain p where "location w e = Some p" using e by (auto simp: location_def eid_is_alive_def split: option.splits if_splits)
  then obtain s where s: "slot_at w (index e) = Some s" "alive s" "slot_generation s = generation e"
    "archetype_index s \<noteq> INVALID_ARCHETYPE" "\<not> eid_is_deferred e"
    and loc: "location w e = Some (unat (archetype_index s), slot_loc s)"
    by (metis location_alive_slot)
  define i where "i = archetype_index s"
  define l where "l = slot_loc s"
  obtain r where r: "grid w (unat i) l = Some r" using inverse_maps_at [of "grid w" "location w"] iv loc i_def l_def by blast
  then have ai: "unat i < length (archetypes w)" by (simp add: grid_def split: if_splits)
  define a where "a = archetypes w ! unat i"
  have at: "arch_at w i = Some a" using ai by (simp add: arch_at_iff a_def)
  have l: "get_row a l = Some r" using r ai by (simp add: grid_at a_def)
  have wf: "arch_wf vt a" using iv ai by (auto simp: archs_inv_def a_def)
  have "row_live (column_offsets a) r" by (rule arch_wf_row_live [OF wf l])
  moreover have "length (column_offsets a) = length (signature a)" using arch_wf_ok [OF wf] by (simp add: arch_ok_def)
  ultimately have wc: "with_cells l (destroy_cells (column_offsets a)) a = Some (emptied a l r)"
    using l by (simp add: with_cells_def emptied_def destroy_cells_live row_live_def)
  define w1 where "w1 = set_arch i (emptied a l r) w"
  have rows: "\<exists>x s. row_entity t = Some x \<and> slot_at w1 (index x) = Some s \<and> alive s" if "get_row a k = Some t" for k t
  proof -
    have "grid w (unat i) k = Some t" using that ai by (simp add: grid_at a_def)
    then obtain x where "row_entity t = Some x" "location w x = Some (unat i, k)"
      using iv unfolding inverse_maps_def by blast
    then show ?thesis using location_alive_slot [of w x] by (metis set_arch_frame(2) w1_def)
  qed
  have "unat i < length (archetypes w1)" "archetypes w1 ! unat i = emptied a l r" "table_inv w1"
    using ai iv by (simp_all add: w1_def) (simp add: set_arch_def)
  then have "\<exists>w' m rm d b. compact_archetype_after_external_move i l w1 = Some w'
    \<and> get_row a m = Some rm \<and> row_entity rm = Some d \<and> arch_wf vt b \<and> same_shape b a
    \<and> (\<forall>k. get_row b k = (if k = m then None else if k = l then Some rm else get_row a k))
    \<and> archetypes w' = (archetypes w1)[unat i := b] \<and> archetype_by_signature w' = archetype_by_signature w1
    \<and> table_inv w' \<and> has_free w' = has_free w1 \<and> first_free w' = first_free w1
    \<and> (\<forall>j. slot_at w' j = (if l \<noteq> m \<and> j = index d then map_option (\<lambda>s. s\<lparr>chunk_index := of_nat (loc_chunk l),
          row := of_nat (loc_row l)\<rparr>) (slot_at w1 j) else slot_at w1 j))"
    using compact_world [OF _ _ wf l] rows by blast
  then obtain w2 m rm d b where c: "compact_archetype_after_external_move i l w1 = Some w2"
    "get_row a m = Some rm" "row_entity rm = Some d" "arch_wf vt b" "same_shape b a"
    "\<forall>k. get_row b k = (if k = m then None else if k = l then Some rm else get_row a k)"
    "archetypes w2 = (archetypes w1)[unat i := b]" "archetype_by_signature w2 = archetype_by_signature w1"
    "table_inv w2"
    "\<forall>j. slot_at w2 j = (if l \<noteq> m \<and> j = index d then map_option (\<lambda>s. s\<lparr>chunk_index := of_nat (loc_chunk l),
          row := of_nat (loc_row l)\<rparr>) (slot_at w1 j) else slot_at w1 j)"
    by blast
  define w' where "w' = push_free (index e) w2"
  have gm: "grid w (unat i) m = Some rm" using c(2) ai by (simp add: grid_at a_def)
  have ld: "location w d = Some (unat i, m)" using inverse_maps_row [of "grid w" "location w", OF _ gm c(3)] iv by simp
  have ed: "e = d \<longleftrightarrow> l = m" using ld loc inverse_maps_inj [of "grid w" "location w"] iv i_def l_def by fastforce
  have idx: "x = e" if "index x = index e" "location w x \<noteq> None" for x
    using location_same_index [of w x _ e] that loc by auto
  have s2: "slot_at w2 (index e) = Some s"
    using c(10) s(1) ed idx [of d] ld by (auto simp: w1_def)
  then have "index e \<in> live_slots w2" using s(2) by (auto simp: live_slots_def slot_at_iff)
  then have tab: "table_inv w'" unfolding w'_def by (rule table_inv_push [OF c(9)])
  have as: "archetypes w' = (archetypes w)[unat i := b]" by (simp add: w'_def c(7) w1_def set_arch_def)
  have g: "grid w' = swap_grid (grid w) (unat i) l m"
    using c(2,6) ai as by (auto simp: fun_eq_iff swap_grid_def grid_def a_def nth_list_update)
  have lo: "location w' = swap_loc (location w) e d"
  proof
    fix x
    have "location w2 x = (if x = d then Some (unat i, l) else location w x)"
      using c(10) slot_loc_small [of s] by (intro swapped_locations [OF c(9) ld]) (simp_all add: w1_def l_def)
    then have "location w' x = (if index x = index e then None else if x = d then Some (unat i, l) else location w x)"
      using location_push_free [OF s2] by (simp add: w'_def)
    then show "location w' x = swap_loc (location w) e d x"
      using idx [of x] ld loc by (cases "location w x") (auto simp: swap_loc_def i_def l_def)
  qed
  have sg: "signature b = signature a" using c(5) by (simp add: same_shape_def)
  have ar: "archs_inv vt w'"
  proof -
    have "archs_inv vt (set_arch i b w)" using archs_inv_set_arch [of vt w b i] iv c(4) ai sg a_def by simp
    moreover have "archetypes w' = archetypes (set_arch i b w)" by (simp add: as set_arch_def)
    moreover have "archetype_by_signature w' = archetype_by_signature (set_arch i b w)"
      by (simp add: w'_def push_free_def c(8) w1_def set_arch_def set_slot_def split: option.split)
    ultimately show ?thesis by (simp add: archs_inv_def index_ok_def)
  qed
  have sigs: "(\<lambda>j. signature (archetypes w' ! j)) = (\<lambda>j. signature (archetypes w ! j))"
    using sg ai by (auto simp: as nth_list_update a_def fun_eq_iff)
  have "inverse_maps (grid w') (location w')"
    unfolding g lo by (rule inverse_maps_swap [of "grid w", OF _ _ gm c(3)]) (use iv loc i_def l_def in simp_all)
  moreover have "entity_view w' = (entity_view w)(e := None)"
    unfolding entity_view_of sigs g lo
    by (rule view_of_swap [of "grid w", OF _ _ gm c(3)]) (use iv loc i_def l_def in simp_all)
  moreover have "destroy_entity e w = Some w'"
    using nt s at wc c(1) by (simp add: destroy_entity_def i_def l_def w1_def w'_def)
  ultimately show ?thesis using tab ar by (auto simp: world_inv_iff)
qed

section \<open>Migrating cells\<close>

lemma row_view_nth:
  "distinct sig \<Longrightarrow> length cs = length sig \<Longrightarrow> i < length sig \<Longrightarrow> row_view sig cs (sig ! i) = Some (cs ! i)"
  by (simp add: row_view_def zip_lookup)

lemma row_view_update:
  assumes "distinct sig" "length cs = length sig" "i < length sig"
  shows "row_view sig (cs[i := x]) c = (if c = sig ! i then Some x else row_view sig cs c)"
proof (cases "c \<in> set sig")
  case True
  then obtain j where j: "j < length sig" "c = sig ! j" unfolding in_set_conv_nth by blast
  then show ?thesis using assms row_view_nth [of sig "cs[i := x]" j] row_view_nth [of sig cs j]
    by (auto simp: nth_eq_iff_index_eq nth_list_update)
next
  case False
  then have "row_view sig (cs[i := x]) c = None" "row_view sig cs c = None"
    using assms(2) by (simp_all add: row_view_in)
  then show ?thesis using False assms(3) by auto
qed

text \<open>A column whose value is moved, and the cells a migration leaves in the target.\<close>

definition moves :: "vtables_of \<Rightarrow> (component_type_id_t \<times> 'v option) option \<Rightarrow> component_type_id_t \<Rightarrow> bool" where
  "moves vt pl t \<longleftrightarrow> map_option fst pl \<noteq> Some t \<and> vt_size (vt t) \<noteq> 0"

definition migrated :: "vtables_of \<Rightarrow> (component_type_id_t \<times> 'v option) option \<Rightarrow>
    (component_type_id_t \<Rightarrow> 'v option option) \<Rightarrow> component_type_id_t \<Rightarrow> 'v option" where
  "migrated vt pl m t = (if map_option fst pl = Some t then snd (the pl)
     else if vt_size (vt t) = 0 then None else the (m t))"

lemma migrate_cells_spec:
  assumes "distinct (signature src)" "length ss = length (signature src)" "distinct ts"
    "map (\<lambda>offset. offset = NO_COLUMN_OFFSET) offs = map (\<lambda>t. vt_size (vt t) = 0) ts"
    "\<forall>t \<in> set ts. moves vt pl t \<longrightarrow> (\<exists>v. row_view (signature src) ss t = Some (Some v))"
  shows "\<exists>ss'. migrate_cells pl ts offs src (replicate (length ts) None) ss =
      Some (map (migrated vt pl (row_view (signature src) ss)) ts, ss') \<and> length ss' = length ss
    \<and> (\<forall>i < length ss. ss' ! i = (if signature src ! i \<in> set ts \<and> moves vt pl (signature src ! i) then None else ss ! i))"
  using assms(2-5)
proof (induction ts arbitrary: offs ss)
  case (Cons t ts)
  obtain offset offs' where offs: "offs = offset # offs'" "offset = NO_COLUMN_OFFSET \<longleftrightarrow> vt_size (vt t) = 0"
    "map (\<lambda>offset. offset = NO_COLUMN_OFFSET) offs' = map (\<lambda>t. vt_size (vt t) = 0) ts"
    using Cons.prems(3) by (cases offs) auto
  show ?case
  proof (cases "moves vt pl t")
    case False
    obtain ss' where ih: "migrate_cells pl ts offs' src (replicate (length ts) None) ss =
      Some (map (migrated vt pl (row_view (signature src) ss)) ts, ss')" "length ss' = length ss"
      "\<forall>i < length ss. ss' ! i = (if signature src ! i \<in> set ts \<and> moves vt pl (signature src ! i) then None else ss ! i)"
      using Cons.IH [OF Cons.prems(1) _ offs(3)] Cons.prems(2,4) by auto
    have "migrate_cells pl (t # ts) offs src (replicate (length (t # ts)) None) ss =
      Some (map (migrated vt pl (row_view (signature src) ss)) (t # ts), ss')"
      using False ih(1) offs(2) by (auto simp: offs(1) moves_def migrated_def split: option.splits)
    moreover have "\<forall>i < length ss. ss' ! i =
        (if signature src ! i \<in> set (t # ts) \<and> moves vt pl (signature src ! i) then None else ss ! i)"
      using ih(3) False by auto
    ultimately show ?thesis using ih(2) by blast
  next
    case True
    then obtain v where v: "row_view (signature src) ss t = Some (Some v)" using Cons.prems(4) by auto
    then have "t \<in> set (signature src)" using row_view_in [OF Cons.prems(1), of t] by auto
    then obtain i where i: "i < length (signature src)" "signature src ! i = t" unfolding in_set_conv_nth by blast
    have si: "ss ! i = Some v" using v row_view_nth [OF assms(1) Cons.prems(1) i(1)] i(2) by simp
    have ci: "column_index_for src t = Some i" using column_index_iff [OF assms(1)] i by simp
    have rv: "row_view (signature src) (ss[i := None]) u = row_view (signature src) ss u" if "u \<in> set ts" for u
      using row_view_update [OF assms(1) Cons.prems(1) i(1), of None u] i(2) that Cons.prems(2) by auto
    obtain ss' where ih: "migrate_cells pl ts offs' src (replicate (length ts) None) (ss[i := None]) =
      Some (map (migrated vt pl (row_view (signature src) (ss[i := None]))) ts, ss')" "length ss' = length ss"
      "\<forall>j < length ss. ss' ! j = (if signature src ! j \<in> set ts \<and> moves vt pl (signature src ! j) then None else ss[i := None] ! j)"
      using Cons.IH [OF _ _ offs(3), of "ss[i := None]"] Cons.prems rv by auto
    have "map (migrated vt pl (row_view (signature src) (ss[i := None]))) ts = map (migrated vt pl (row_view (signature src) ss)) ts"
      using rv by (simp add: migrated_def)
    then have "migrate_cells pl (t # ts) offs src (replicate (length (t # ts)) None) ss =
      Some (map (migrated vt pl (row_view (signature src) ss)) (t # ts), ss')"
      using True ih(1) offs(2) ci si i(1) Cons.prems(1) v
      by (auto simp: offs(1) moves_def migrated_def)
    moreover have "\<forall>j < length ss. ss' ! j =
        (if signature src ! j \<in> set (t # ts) \<and> moves vt pl (signature src ! j) then None else ss ! j)"
    proof (intro allI impI)
      fix j assume j: "j < length ss"
      have "signature src ! j = t \<longleftrightarrow> j = i" using j i Cons.prems(1) assms(1) by (auto simp: nth_eq_iff_index_eq)
      then show "ss' ! j = (if signature src ! j \<in> set (t # ts) \<and> moves vt pl (signature src ! j) then None else ss ! j)"
        using ih(3) j True by (auto simp: nth_list_update)
    qed
    ultimately show ?thesis using ih(2) by blast
  qed
qed simp

section \<open>Migrating an entity\<close>

lemma migrate_world:
  assumes inv: "world_inv vt w" and loc: "location w e = Some (unat i, l)" and s: "slot_at w (index e) = Some s"
    "archetype_index s = i" "slot_loc s = l"
    and room: "length (archetypes w) + 1 < 2 ^ 32"
    and a: "archetypes w ! unat i = a" and r: "get_row a l = Some r"
    and fits: "sig_fits vt tsig" "sorted_wrt (<) tsig" and other: "tsig \<noteq> signature a"
    and ds: "ds = map (migrated vt pl (row_view (signature a) (row_cells r))) tsig" "cells_live vt tsig ds"
    and have_cols: "\<forall>t \<in> set tsig. map_option fst pl \<noteq> Some t \<longrightarrow> t \<in> set (signature a) \<and> column_index_for a t \<noteq> dropped"
    and leave: "\<forall>j < length (signature a). dropped = Some j \<or>
      (signature a ! j \<in> set tsig \<and> map_option fst pl \<noteq> Some (signature a ! j))"
    and drop: "\<forall>j. dropped = Some j \<longrightarrow> j < length (signature a)"
  shows "\<exists>ti k w'. migrate_entity e (map (\<lambda>t. (t, vt t)) tsig) pl dropped w = Some ((ti, k), w')
    \<and> world_inv vt w' \<and> entity_view w' = (entity_view w)(e := Some (row_view tsig ds))
    \<and> (\<exists>t. arch_at w' ti = Some t \<and> signature t = tsig)
    \<and> location w' e = Some (unat ti, k) \<and> is_immutable w' e = is_immutable w e"
proof -
  note iv = inv [unfolded world_inv_iff]
  note sl = location_alive_slot [OF loc]
  have sf: "alive s" "slot_generation s = generation e" "i \<noteq> INVALID_ARCHETYPE"
    using sl s by (metis option.inject)+
  obtain ti w1 where foc: "find_or_create_archetype tsig (map vt tsig) w = (ti, w1)" by fastforce
  have iva: "archs_inv vt w" using iv by simp
  note fc = find_or_create [OF iva fits room foc]
  have gr: "grid w (unat i) l = Some r"
    using inverse_maps_at [of "grid w" "location w" e "unat i" l] iv loc a r by (auto simp: grid_def split: if_splits)
  then have ai: "unat i < length (archetypes w)" by (simp add: grid_def split: if_splits)
  have ai1: "unat i < length (archetypes w1)" "archetypes w1 ! unat i = a" using fc(11) [OF ai] a by simp_all
  have wfa: "arch_wf vt a" using iva ai a by (auto simp: archs_inv_def)
  have da: "distinct (signature a)" using wfa by (simp add: arch_wf_def strict_sorted_iff)
  define t0 where "t0 = archetypes w1 ! unat ti"
  have t0: "arch_wf vt t0" "signature t0 = tsig" using fc(1,2,3) by (auto simp: archs_inv_def t0_def)
  have ne: "unat ti \<noteq> unat i" using t0(2) other ai1(2) by (auto simp: t0_def)
  obtain k b q where res: "reserve_row t0 (chunk_pool w1) = (k, b, q)" by (metis prod_cases3)
  have live': "cells_live vt (signature t0) ds" using ds(2) t0(2) by simp
  obtain c d where c: "write_entity k e b = Some c" "with_cells k (\<lambda>_. Some ds) c = Some d" "arch_wf vt d" "same_shape d t0"
    "get_row t0 k = None" "flat_pos t0 k = length (arch_rows t0)"
    "\<forall>j. get_row d j = (if j = k then Some \<lparr>row_entity = Some e, row_cells = ds\<rparr> else get_row t0 j)"
    "same_shape c t0" "get_row c k = Some \<lparr>row_entity = Some e, row_cells = replicate (length tsig) None\<rparr>"
    using insert_row [where f = "\<lambda>_ _. Some ds" and e = e, OF t0(1) res _ live'] t0(2) by auto
  have d: "d = set_row k \<lparr>row_entity = Some e, row_cells = ds\<rparr> c" using c(2,9) by (simp add: with_cells_def)
  define w2 where "w2 = (set_arch ti c w1)\<lparr>chunk_pool := q\<rparr>"
  have at1: "arch_at w1 ti = Some t0" using fc(2) by (simp add: arch_at_iff t0_def)
  have at2: "arch_at w2 ti = Some c" "arch_at w2 i = Some a"
    using fc(2) ai1 ne by (auto simp: arch_at_iff w2_def set_arch_def)
  have sc: "signature c = tsig" using c(8) t0(2) by (simp add: same_shape_def)
  have oc: "map (\<lambda>offset. offset = NO_COLUMN_OFFSET) (column_offsets c) = map (\<lambda>t. vt_size (vt t) = 0) tsig"
    using c(8) t0 by (simp add: same_shape_def arch_wf_def)
  have lr: "cells_live vt (signature a) (row_cells r)"
    using arch_wf_row_live [OF wfa r] row_live_iff [OF wfa, of r] by blast
  have lenr: "length (row_cells r) = length (signature a)" by (rule cells_live_length [OF lr])
  have cell: "row_cells r ! j = None \<longleftrightarrow> vt_size (vt (signature a ! j)) = 0" if "j < length (signature a)" for j
    using lr that lenr by (metis (mono_tags, lifting) cells_live_def nth_map)
  have offa: "length (column_offsets a) = length (signature a)" "\<And>j. j < length (signature a) \<Longrightarrow>
      column_offsets a ! j = NO_COLUMN_OFFSET \<longleftrightarrow> vt_size (vt (signature a ! j)) = 0"
  proof -
    show l: "length (column_offsets a) = length (signature a)" using arch_wf_ok [OF wfa] by (simp add: arch_ok_def)
    show "column_offsets a ! j = NO_COLUMN_OFFSET \<longleftrightarrow> vt_size (vt (signature a ! j)) = 0" if "j < length (signature a)" for j
      using wfa that l by (metis (mono_tags, lifting) arch_wf_def nth_map)
  qed
  define ss where "ss = (case dropped of None \<Rightarrow> row_cells r | Some j \<Rightarrow> (row_cells r)[j := None])"
  have lss: "length ss = length (signature a)" using lenr by (simp add: ss_def split: option.split)
  have dropped_ss: "(case dropped of
              None \<Rightarrow> Some (row_cells r)
            | Some j \<Rightarrow>
                if j < length (column_offsets a) \<and> column_offsets a ! j = NO_COLUMN_OFFSET then Some (row_cells r)
                else if j < length (row_cells r) \<and> row_cells r ! j \<noteq> None then Some ((row_cells r)[j := None])
                else None) = Some ss"
    using drop offa cell lenr by (auto simp: ss_def list_update_id split: option.split) (metis list_update_id)
  have rvs: "row_view (signature a) ss t = row_view (signature a) (row_cells r) t"
    if "t \<in> set tsig" "map_option fst pl \<noteq> Some t" for t
  proof (cases dropped)
    case (Some j)
    have "signature a ! j \<noteq> t"
      using have_cols that Some column_index_iff [OF da, of t j] drop by auto
    then show ?thesis using row_view_update [OF da lenr, of j None t] drop Some by (simp add: ss_def)
  qed (simp add: ss_def)
  have mv: "\<forall>t \<in> set tsig. moves vt pl t \<longrightarrow> (\<exists>v. row_view (signature a) ss t = Some (Some v))"
  proof (intro ballI impI)
    fix t assume t: "t \<in> set tsig" "moves vt pl t"
    then have "t \<in> set (signature a)" using have_cols by (auto simp: moves_def)
    then obtain j where j: "j < length (signature a)" "signature a ! j = t" unfolding in_set_conv_nth by blast
    then have "row_cells r ! j \<noteq> None" using cell t(2) by (auto simp: moves_def)
    then show "\<exists>v. row_view (signature a) ss t = Some (Some v)"
      using rvs [OF t(1)] t(2) row_view_nth [OF da lenr j(1)] j(2) by (auto simp: moves_def)
  qed
  obtain ss' where mc: "migrate_cells pl tsig (column_offsets c) a (replicate (length tsig) None) ss =
      Some (map (migrated vt pl (row_view (signature a) ss)) tsig, ss')" "length ss' = length ss"
    "\<forall>j < length ss. ss' ! j = (if signature a ! j \<in> set tsig \<and> moves vt pl (signature a ! j) then None else ss ! j)"
    using migrate_cells_spec [OF da lss _ oc mv] fits(2) by (auto simp: strict_sorted_iff)
  have mds: "map (migrated vt pl (row_view (signature a) ss)) tsig = ds"
    unfolding ds(1) using rvs by (auto simp: migrated_def)
  have empty: "ss' = replicate (length (signature a)) None"
  proof (rule nth_equalityI)
    fix j assume "j < length ss'"
    then have j: "j < length (signature a)" using mc(2) lss by simp
    then show "ss' ! j = replicate (length (signature a)) None ! j"
      using mc(3) lss leave cell [OF j] lenr drop
      by (auto simp: ss_def moves_def nth_list_update split: option.splits)
  qed (use mc(2) lss in simp)
  define w3 where "w3 = set_arch ti d w2"
  define w4 where "w4 = set_arch i (emptied a l r) w3"
  have at3: "arch_at w3 i = Some a" using at2(2) ne by (simp add: w3_def set_arch_def arch_at_iff)
  have em: "set_row l (r\<lparr>row_cells := ss'\<rparr>) a = emptied a l r" by (simp add: emptied_def empty)
  have as4: "archetypes w4 = (archetypes w1)[unat ti := d, unat i := emptied a l r]"
    by (simp add: w4_def w3_def w2_def set_arch_def)
  have sw4: "slot_at w4 j = slot_at w j" for j
    using fc(7) by (simp add: w4_def w3_def w2_def) (simp add: slot_at_def)
  have t4: "table_inv w4" using fc(6) iv by (simp add: w4_def w3_def w2_def)
  have rows: "\<forall>k t. get_row a k = Some t \<longrightarrow> (\<exists>e s. row_entity t = Some e \<and> slot_at w4 (index e) = Some s \<and> alive s)"
  proof (intro allI impI)
    fix k t assume "get_row a k = Some t"
    then have "grid w (unat i) k = Some t" using ai a by (simp add: grid_at)
    then obtain x where "row_entity t = Some x" "location w x = Some (unat i, k)"
      using iv unfolding inverse_maps_def by blast
    then show "\<exists>e s. row_entity t = Some e \<and> slot_at w4 (index e) = Some s \<and> alive s"
      using location_alive_slot [of w x] sw4 by metis
  qed
  have "unat i < length (archetypes w4)" "archetypes w4 ! unat i = emptied a l r" using ai1 by (simp_all add: as4)
  then have "\<exists>w' m rm d b. compact_archetype_after_external_move i l w4 = Some w'
    \<and> get_row a m = Some rm \<and> row_entity rm = Some d \<and> arch_wf vt b \<and> same_shape b a
    \<and> (\<forall>k. get_row b k = (if k = m then None else if k = l then Some rm else get_row a k))
    \<and> archetypes w' = (archetypes w4)[unat i := b] \<and> archetype_by_signature w' = archetype_by_signature w4
    \<and> table_inv w' \<and> has_free w' = has_free w4 \<and> first_free w' = first_free w4
    \<and> (\<forall>j. slot_at w' j = (if l \<noteq> m \<and> j = index d then map_option (\<lambda>s. s\<lparr>chunk_index := of_nat (loc_chunk l),
          row := of_nat (loc_row l)\<rparr>) (slot_at w4 j) else slot_at w4 j))"
    using compact_world [OF _ _ wfa r t4 rows] by blast
  then obtain w5 m rm x b' where cw: "compact_archetype_after_external_move i l w4 = Some w5"
    "get_row a m = Some rm" "row_entity rm = Some x" "arch_wf vt b'" "same_shape b' a"
    "\<forall>k. get_row b' k = (if k = m then None else if k = l then Some rm else get_row a k)"
    "archetypes w5 = (archetypes w4)[unat i := b']" "archetype_by_signature w5 = archetype_by_signature w4"
    "table_inv w5"
    "\<forall>j. slot_at w5 j = (if l \<noteq> m \<and> j = index x then map_option (\<lambda>s. s\<lparr>chunk_index := of_nat (loc_chunk l),
          row := of_nat (loc_row l)\<rparr>) (slot_at w4 j) else slot_at w4 j)"
    by blast
  have gm: "grid w (unat i) m = Some rm" using cw(2) ai a by (simp add: grid_at)
  have lx: "location w x = Some (unat i, m)"
    using inverse_maps_row [of "grid w" "location w", OF _ gm cw(3)] iv by simp
  have ex: "e = x \<longleftrightarrow> l = m" using lx loc inverse_maps_inj [of "grid w" "location w"] iv by fastforce
  have idx: "y = e" if "index y = index e" "location w y \<noteq> None" for y
    using location_same_index [of w y _ e] that loc by auto
  have s5: "slot_at w5 (index e) = Some s" using cw(10) s(1) ex idx [of x] lx by (auto simp: sw4)
  define s6 where "s6 = s\<lparr>archetype_index := ti, chunk_index := of_nat (loc_chunk k), row := of_nat (loc_row k)\<rparr>"
  define w6 where "w6 = set_slot (index e) s6 w5"
  have pl6: "place_slot e ti k w5 = Some w6" using s5 by (simp add: place_slot_def w6_def s6_def)
  have t6: "table_inv w6" unfolding w6_def by (rule table_inv_place [OF cw(9) s5]) (simp_all add: s6_def sf)
  have bnd: "length (arch_rows t0) < 2 ^ 32"
  proof (rule rows_bound)
    show "rows_point_back w1" using iv fc(4,5) by (simp add: inverse_maps_world rows_point_back_def)
    show "unat ti < length (archetypes w1)" "archetypes w1 ! unat ti = t0" using fc(2) by (simp_all add: t0_def)
    show "arch_ok t0" using t0(1) by (rule arch_wf_ok)
    show "location w1 y \<noteq> Some (unat ti, l')" if "index y = index e" for y l'
      using idx [OF that] loc ne fc(5) iva by auto
  qed
  have small: "loc_chunk k < 2 ^ 32" "loc_row k < 2 ^ 32"
  proof -
    have "0 < chunk_capacity t0" using arch_wf_ok [OF t0(1)] by (simp add: arch_ok_def)
    then have "loc_chunk k \<le> loc_chunk k * chunk_capacity t0" by simp
    then show "loc_chunk k < 2 ^ 32" "loc_row k < 2 ^ 32" using c(6) bnd unfolding flat_pos_def by linarith+
  qed
  have as6: "archetypes w6 = (archetypes w1)[unat ti := d, unat i := b']"
    by (simp add: w6_def cw(7) as4)
  have g: "grid w6 = (swap_grid (grid w) (unat i) l m)(unat ti := (swap_grid (grid w) (unat i) l m (unat ti))
      (k := Some \<lparr>row_entity = Some e, row_cells = ds\<rparr>))"
  proof (intro ext)
    fix j n
    have g1: "grid w6 j n = (if j = unat i then get_row b' n else if j = unat ti then get_row d n else grid w1 j n)"
      using ai1 fc(2) by (simp add: grid_def as6 nth_list_update)
    have "grid w (unat ti) n = get_row t0 n" for n
      using fc(2) by (simp add: fc(4) [symmetric] grid_at t0_def)
    moreover have "grid w (unat i) n = get_row a n" for n
      using ai a by (simp add: grid_at)
    ultimately show "grid w6 j n = ((swap_grid (grid w) (unat i) l m)(unat ti := (swap_grid (grid w) (unat i) l m (unat ti))
      (k := Some \<lparr>row_entity = Some e, row_cells = ds\<rparr>))) j n"
      using ne c(7) cw(2,6) fc(4) iva by (auto simp: g1 swap_grid_def)
  qed
  have lo: "location w6 = (swap_loc (location w) e x)(e := Some (unat ti, k))"
  proof
    fix y
    have l5: "location w5 y = (if y = x then Some (unat i, l) else location w y)"
      using cw(10) slot_loc_small [of s] s(3) sw4
      by (intro swapped_locations [OF cw(9) lx]) simp_all
    have s6: "slot_at w6 j = (if index e = j then Some s6 else slot_at w5 j)" for j
      using s5 by (auto simp: w6_def slot_at_iff)
    show "location w6 y = ((swap_loc (location w) e x)(e := Some (unat ti, k))) y"
    proof (cases "index y = index e")
      case True
      have "location w6 y = (if generation y = generation e then Some (unat ti, slot_loc s6) else None)"
        using location_at_slot [of w6 y s6] s6 [of "index y"] True sf t6 index_below_invalid [OF fc(1,2) ]
        by (simp add: s6_def)
      moreover have "slot_loc s6 = k" by (rule slot_loc_of_nat [OF small]) (simp_all add: s6_def)
      moreover have "y \<noteq> e \<Longrightarrow> generation y \<noteq> generation e \<and> location w y = None \<and> y \<noteq> x"
        using True idx [OF True] lx by (cases y; cases e; cases "location w y") auto
      ultimately show ?thesis by (auto simp: swap_loc_def)
    next
      case False
      then have "location w6 y = location w5 y" using s6 by (intro location_cong) simp
      then show ?thesis using False l5 loc lx by (auto simp: swap_loc_def)
    qed
  qed
  have sg: "signature d = tsig" "signature b' = signature a" using c(4) t0(2) cw(5) by (simp_all add: same_shape_def)
  have ar: "archs_inv vt w6"
  proof -
    have "archs_inv vt (set_arch ti d w1)" using archs_inv_set_arch [of vt w1 d ti] fc(1,2) c(3) sg(1) t0 by (simp add: t0_def)
    then have "archs_inv vt (set_arch i b' (set_arch ti d w1))"
      using archs_inv_set_arch [of vt "set_arch ti d w1" b' i] cw(4) ai1 sg(2) ne by (simp add: set_arch_def)
    moreover have "archetypes w6 = archetypes (set_arch i b' (set_arch ti d w1))" by (simp add: as6 set_arch_def)
    moreover have "archetype_by_signature w6 = archetype_by_signature (set_arch i b' (set_arch ti d w1))"
      by (simp add: w6_def cw(8) w4_def w3_def w2_def set_arch_def)
    ultimately show ?thesis by (simp add: archs_inv_def index_ok_def)
  qed
  have sigs: "signature (archetypes w6 ! j) = signature (archetypes w ! j)" if "j < length (archetypes w)" for j
  proof -
    have "signature (archetypes w6 ! j) = signature (archetypes w1 ! j)"
      using sg ai1 fc(2,3) by (simp add: as6 nth_list_update) auto
    then show ?thesis using fc(11) [OF that] by simp
  qed
  have im1: "inverse_maps (swap_grid (grid w) (unat i) l m) (swap_loc (location w) e x)"
    by (rule inverse_maps_swap [of "grid w" "location w", OF _ loc gm cw(3)]) (use iv in simp)
  have le: "swap_loc (location w) e x e = None" by (simp add: swap_loc_def)
  have gk: "swap_grid (grid w) (unat i) l m (unat ti) k = None"
    using ne c(5) fc(2) by (simp add: swap_grid_def fc(4) [symmetric] grid_at t0_def)
  have im: "inverse_maps (grid w6) (location w6)"
    unfolding g lo by (rule inverse_maps_insert [OF im1 le gk]) simp
  have vw: "entity_view w6 = (entity_view w)(e := Some (row_view tsig ds))"
  proof -
    have "entity_view w6 = view_of (\<lambda>j. signature (archetypes w6 ! j)) (grid w6) (location w6)" by (rule entity_view_of)
    also have "\<dots> = (view_of (\<lambda>j. signature (archetypes w6 ! j)) (swap_grid (grid w) (unat i) l m) (swap_loc (location w) e x))
        (e := Some (row_view (signature (archetypes w6 ! unat ti)) ds))"
      unfolding g lo using view_of_insert [OF im1 le gk, of _ "\<lparr>row_entity = Some e, row_cells = ds\<rparr>"] by simp
    also have "signature (archetypes w6 ! unat ti) = tsig" using sg ne fc(2) by (simp add: as6)
    also have "view_of (\<lambda>j. signature (archetypes w6 ! j)) (swap_grid (grid w) (unat i) l m) (swap_loc (location w) e x)
        = (view_of (\<lambda>j. signature (archetypes w6 ! j)) (grid w) (location w))(e := None)"
      by (rule view_of_swap [of "grid w" "location w", OF _ loc gm cw(3)]) (use iv in simp)
    also have "view_of (\<lambda>j. signature (archetypes w6 ! j)) (grid w) (location w) = entity_view w"
      unfolding entity_view_of view_of_def
      using sigs by (auto simp: fun_eq_iff grid_def split: option.splits)
    finally show ?thesis by (auto simp: fun_eq_iff)
  qed
  have "migrate_entity e (map (\<lambda>t. (t, vt t)) tsig) pl dropped w = Some ((ti, k), w6)"
    unfolding migrate_entity_def
    by (simp add: s foc comp_def at1 res c(1) w2_def [symmetric] at2 c(9) r dropped_ss sc mc(1) mds d [symmetric]
        w3_def [symmetric] at3 em w4_def [symmetric] cw(1) pl6 Let_def)
  moreover have "arch_at w6 ti = Some d" using fc(2) ne by (simp add: arch_at_iff as6)
  moreover have "location w6 e = Some (unat ti, k)" by (simp add: lo)
  moreover have "is_immutable w6 e = is_immutable w e"
  proof -
    have "slot_at w6 (index e) = Some s6" using s5 by (auto simp: w6_def slot_at_iff)
    moreover have "location w6 e = Some (unat ti, k)" by (simp add: lo)
    then have "eid_is_alive w6 e" "eid_is_alive w e" using loc unfolding location_slot by simp_all
    ultimately show ?thesis using is_immutable_iff s(1) by (simp add: is_immutable_iff s6_def)
  qed
  ultimately show ?thesis using t6 ar im vw sg(1) by (auto simp: world_inv_iff)
qed


section \<open>Adding and removing components\<close>

text \<open>A live entity, its slot, its row and its components.\<close>

lemma located:
  assumes inv: "world_inv vt w" and m: "entity_view w e = Some m"
  obtains s r where "slot_at w (index e) = Some s" "arch_at w (archetype_index s) = Some (archetypes w ! unat (archetype_index s))"
    "location w e = Some (unat (archetype_index s), slot_loc s)" "unat (archetype_index s) < length (archetypes w)"
    "arch_wf vt (archetypes w ! unat (archetype_index s))"
    "get_row (archetypes w ! unat (archetype_index s)) (slot_loc s) = Some r" "row_entity r = Some e"
    "m = row_view (signature (archetypes w ! unat (archetype_index s))) (row_cells r)"
    "cells_live vt (signature (archetypes w ! unat (archetype_index s))) (row_cells r)" "eid_is_alive w e"
proof -
  have al: "eid_is_alive w e" using m entity_view_alive by force
  obtain ai l where loc: "location w e = Some (ai, l)" using m by (auto simp: entity_view_def split: option.splits)
  then obtain s where s: "slot_at w (index e) = Some s" "ai = unat (archetype_index s)" "l = slot_loc s"
    by (auto simp: location_slot)
  obtain r where r: "grid w ai l = Some r" "row_entity r = Some e"
    using inverse_maps_at [of "grid w" "location w", OF _ loc] inv by (auto simp: world_inv_iff)
  then have ai: "ai < length (archetypes w)" by (simp add: grid_def split: if_splits)
  have wf: "arch_wf vt (archetypes w ! ai)" using inv ai by (auto simp: world_inv_iff archs_inv_def)
  have gr: "get_row (archetypes w ! ai) l = Some r" using r ai by (simp add: grid_at)
  have "cells_live vt (signature (archetypes w ! ai)) (row_cells r)"
    using arch_wf_row_live [OF wf gr] row_live_iff [OF wf, of r] by blast
  moreover have "m = row_view (signature (archetypes w ! ai)) (row_cells r)"
    using m loc r by (simp add: entity_view_def row_view_def)
  ultimately show thesis using that s ai wf gr r(2) loc al by (simp add: arch_at_iff)
qed

lemma alive_has_view: "world_inv vt w \<Longrightarrow> eid_is_alive w e \<Longrightarrow> entity_view w e \<noteq> None"
proof -
  assume inv: "world_inv vt w" and al: "eid_is_alive w e"
  obtain ai l where loc: "location w e = Some (ai, l)"
    using al by (auto simp: location_def eid_is_alive_def split: option.splits if_splits)
  then show ?thesis
    using inverse_maps_at [of "grid w" "location w", OF _ loc] inv by (auto simp: world_inv_iff entity_view_def)
qed

lemma store_cell_spec:
  assumes inv: "world_inv vt w" and loc: "location w e = Some (unat i, l)" and i: "unat i < length (archetypes w)"
    and r: "get_row (archetypes w ! unat i) l = Some r" and col: "col < length (signature (archetypes w ! unat i))"
    and data: "vt_size (vt (signature (archetypes w ! unat i) ! col)) \<noteq> 0"
  shows "\<exists>w'. store_cell (i, l, col) v w = Some w' \<and> world_inv vt w' \<and> load_cell w' (i, l, col) = Some v
    \<and> entity_view w' = (entity_view w)(e := Some ((row_view (signature (archetypes w ! unat i)) (row_cells r))
         (signature (archetypes w ! unat i) ! col := Some (Some v))))
    \<and> (\<forall>x. location w' x = location w x) \<and> (\<forall>j. slot_at w' j = slot_at w j)"
proof -
  define a where "a = archetypes w ! unat i"
  have wf: "arch_wf vt a" using inv i by (auto simp: world_inv_iff archs_inv_def a_def)
  have ra: "get_row a l = Some r" and ca: "col < length (signature a)" using r col by (simp_all add: a_def)
  have live: "cells_live vt (signature a) (row_cells r)"
    using arch_wf_row_live [OF wf ra] row_live_iff [OF wf, of r] by blast
  note len = cells_live_length [OF live]
  have val: "row_cells r ! col \<noteq> None"
    using live data ca len by (metis (mono_tags, lifting) cells_live_def nth_map a_def)
  define t where "t = r\<lparr>row_cells := (row_cells r)[col := Some v]\<rparr>"
  define b where "b = set_row l t a"
  define w' where "w' = set_arch i b w"
  have tl: "cells_live vt (signature a) (row_cells t)"
  proof -
    have "map (\<lambda>c. c = None) (row_cells r) ! col = False" using val ca len by simp
    then have "(map (\<lambda>c. c = None) (row_cells r))[col := False] = map (\<lambda>c. c = None) (row_cells r)"
      by (metis list_update_id)
    then show ?thesis using live by (simp add: cells_live_def t_def map_update)
  qed
  have gb: "get_row b k = (if k = l then Some t else get_row a k)" for k using get_set_row [OF ra] by (simp add: b_def)
  note sr = set_row_rows [OF arch_wf_ok [OF wf] ra, of t, folded b_def]
  have okb: "arch_ok b" unfolding b_def
    by (rule set_row_ok [OF arch_wf_ok [OF wf] ra]) (simp add: cells_live_length [OF tl])
  have wfb: "arch_wf vt b"
  proof (rule arch_wf_transfer [OF wf sr(3) okb])
    show "row_live (column_offsets a) u" if "get_row b k = Some u" for k u
      using that gb tl arch_wf_row_live [OF wf, of k u] row_live_iff [OF wf, of u] by (auto split: if_splits)
  qed (simp add: b_def)
  have sg: "signature b = signature a" using sr(3) by (simp add: same_shape_def)
  have iv: "archs_inv vt w'" unfolding w'_def
    using archs_inv_set_arch [OF _ wfb i] inv sg by (simp add: world_inv_iff a_def)
  have g: "grid w' j k = (if j = unat i \<and> k = l then Some t else grid w j k)" for j k
    using i gb by (simp add: w'_def grid_set_arch) (simp add: grid_def a_def)
  have et: "row_entity t = Some e"
    using inverse_maps_at [of "grid w" "location w", OF _ loc] inv ra i by (auto simp: t_def world_inv_iff grid_at a_def)
  have im: "inverse_maps (grid w') (location w)"
    unfolding inverse_maps_def
  proof (intro conjI allI impI)
    have iv0: "inverse_maps (grid w) (location w)" using inv by (simp add: world_inv_iff)
    show "\<exists>x. row_entity u = Some x \<and> location w x = Some (j, k)" if "grid w' j k = Some u" for j k u
    proof (cases "j = unat i \<and> k = l")
      case True
      then show ?thesis using that g et loc by auto
    next
      case False
      then have "grid w j k = Some u" using that unfolding g by (simp only: if_False)
      then show ?thesis using iv0 unfolding inverse_maps_def by blast
    qed
    show "\<exists>u. grid w' j k = Some u \<and> row_entity u = Some x" if x: "location w x = Some (j, k)" for x j k
    proof (cases "j = unat i \<and> k = l")
      case True
      then have "x = e" using inverse_maps_inj [OF iv0 x] loc by simp
      then show ?thesis using True g et by auto
    next
      case False
      then show ?thesis using inverse_maps_at [OF iv0 x] g by auto
    qed
  qed
  have "store_cell (i, l, col) v w = Some w'"
    using i ra ca len val by (simp add: store_cell_def arch_at_iff [THEN iffD2] a_def [symmetric] with_cells_def assign_cell_def
        t_def [symmetric] b_def [symmetric] w'_def [symmetric])
  moreover have "load_cell w' (i, l, col) = Some v"
    using i gb ca len by (simp add: load_cell_def w'_def set_arch_def arch_at_iff [THEN iffD2] t_def)
  moreover have "entity_view w' = (entity_view w)(e := Some ((row_view (signature a) (row_cells r)) (signature a ! col := Some (Some v))))"
  proof
    fix x
    have sj: "signature (archetypes w' ! j) = signature (archetypes w ! j)" for j
      using sg i by (simp add: w'_def set_arch_def nth_list_update a_def)
    show "entity_view w' x = ((entity_view w)(e := Some ((row_view (signature a) (row_cells r)) (signature a ! col := Some (Some v))))) x"
    proof (cases "x = e")
      case True
      have "row_view (signature a) ((row_cells r)[col := Some v]) = (row_view (signature a) (row_cells r)) (signature a ! col := Some (Some v))"
        using row_view_update [OF _ len ca] wf by (auto simp: fun_eq_iff arch_wf_def strict_sorted_iff)
      then show ?thesis using True loc g sj by (simp add: entity_view_of view_of_def w'_def [symmetric] t_def a_def)
        (simp add: w'_def view_of_def t_def a_def)
    next
      case False
      then have "location w x \<noteq> Some (unat i, l)"
        using inverse_maps_inj [of "grid w" "location w" x _ e] inv loc by (auto simp: world_inv_iff)
      then show ?thesis using False g sj
        by (auto simp: entity_view_of view_of_def w'_def split: option.splits)
    qed
  qed
  moreover have "location w' = location w" by (simp add: fun_eq_iff w'_def)
  then have "world_inv vt w'" using im iv inv by (simp add: world_inv_iff) (simp add: w'_def)
  ultimately show ?thesis by (auto simp: w'_def a_def)
qed


lemma insert_id_map:
  "c \<notin> set sig \<Longrightarrow> insert_id c (vt c) sig (map vt sig) =
     map (\<lambda>t. (t, vt t)) (takeWhile (\<lambda>s. \<not> s > c) sig @ c # dropWhile (\<lambda>s. \<not> s > c) sig)"
  by (induction sig) (simp_all add: zip_map2 zip_same_conv_map)

lemma sorted_insert_id:
  "sorted_wrt (<) sig \<Longrightarrow> (c :: u64) \<notin> set sig \<Longrightarrow>
     sorted_wrt (<) (takeWhile (\<lambda>s. \<not> s > c) sig @ c # dropWhile (\<lambda>s. \<not> s > c) sig)"
proof (induction sig)
  case (Cons s sig)
  show ?case
  proof (cases "s > c")
    case True
    then show ?thesis using Cons.prems by auto
  next
    case False
    then have "s < c" using Cons.prems(2) by auto
    moreover have "set (takeWhile (\<lambda>s. \<not> s > c) sig @ c # dropWhile (\<lambda>s. \<not> s > c) sig) = insert c (set sig)"
      by (metis Un_insert_right list.set(2) set_append takeWhile_dropWhile_id)
    ultimately show ?thesis using Cons False by auto
  qed
qed simp

lemma drop_id_map: "drop_id c sig (map vt sig) = map (\<lambda>t. (t, vt t)) (filter (\<lambda>t. t \<noteq> c) sig)"
  by (induction sig) simp_all

lemma sig_fits_filter: "sig_fits vt sig \<Longrightarrow> sig_fits vt (filter P sig)"
proof -
  have "bytes_per_row (map vt (filter P sig)) \<le> bytes_per_row (map vt sig)" by (induction sig) simp_all
  moreover have "align_overhead (map vt (filter P sig)) \<le> align_overhead (map vt sig)" by (induction sig) auto
  ultimately show "sig_fits vt sig \<Longrightarrow> sig_fits vt (filter P sig)"
    by (auto simp: sig_fits_def alignments_ok_def list_all_iff)
qed

lemma sig_fits_set:
  "distinct xs \<Longrightarrow> distinct ys \<Longrightarrow> set xs = set ys \<Longrightarrow> sig_fits vt xs = sig_fits vt ys"
  by (rule sig_fits_perm) (simp add: set_eq_iff_mset_eq_distinct)

lemma row_view_dom: "length cs = length sig \<Longrightarrow> dom (row_view sig cs) = set sig"
  by (auto simp: row_view_def)

text \<open>Adding a component that is not there moves the entity to another archetype.\<close>

lemma add_component_moves:
  assumes inv: "world_inv vt w" and nt: "\<not> in_tick_or_log w" and m: "entity_view w e = Some m"
    and im: "\<not> is_immutable w e" and room: "length (archetypes w) + 1 < 2 ^ 32"
    and fits: "distinct sig" "set sig = insert c (dom m)" "sig_fits vt sig"
    and new: "c \<notin> dom m"
  shows "\<exists>p w' ti k target pl. add_component vt c v e w = Some (p, w') \<and> world_inv vt w'
    \<and> entity_view w' = (entity_view w)(e := Some (m(c := Some (if vt_size (vt c) = 0 then None else Some v))))
    \<and> (case p of None \<Rightarrow> vt_size (vt c) = 0 | Some pl \<Rightarrow> vt_size (vt c) \<noteq> 0 \<and> load_cell w' pl = Some v)
    \<and> migrate_entity e target pl None w = Some ((ti, k), w') \<and> location w' e = Some (unat ti, k)
    \<and> set (signature (archetypes w' ! unat ti)) = insert c (dom m)"
proof -
  obtain s r where lc: "slot_at w (index e) = Some s" "arch_at w (archetype_index s) = Some (archetypes w ! unat (archetype_index s))"
    "location w e = Some (unat (archetype_index s), slot_loc s)" "unat (archetype_index s) < length (archetypes w)"
    "arch_wf vt (archetypes w ! unat (archetype_index s))"
    "get_row (archetypes w ! unat (archetype_index s)) (slot_loc s) = Some r" "row_entity r = Some e"
    "m = row_view (signature (archetypes w ! unat (archetype_index s))) (row_cells r)"
    "cells_live vt (signature (archetypes w ! unat (archetype_index s))) (row_cells r)" "eid_is_alive w e"
    by (rule located [OF inv m])
  define i where "i = archetype_index s"
  define a where "a = archetypes w ! unat i"
  note lc = lc [folded i_def, folded a_def]
  have da: "distinct (signature a)" "sorted_wrt (<) (signature a)" using lc(5) by (simp_all add: arch_wf_def strict_sorted_iff)
  note len = cells_live_length [OF lc(9)]
  have dom: "dom m = set (signature a)" using lc(8) row_view_dom [OF len] by simp
  have c: "c \<notin> set (signature a)" using new dom by simp
  then have None: "column_index_for a c = None" by (simp add: column_index_none_iff)
  define tsig where "tsig = takeWhile (\<lambda>s. \<not> s > c) (signature a) @ c # dropWhile (\<lambda>s. \<not> s > c) (signature a)"
  define pl where "pl = Some (c, if vt_size (vt c) = 0 then None else Some v)"
  define ds where "ds = map (migrated vt pl (row_view (signature a) (row_cells r))) tsig"
  have ts: "sorted_wrt (<) tsig" unfolding tsig_def by (rule sorted_insert_id [OF da(2) c])
  have st: "set tsig = insert c (set (signature a))"
    unfolding tsig_def by (metis Un_insert_right list.set(2) set_append takeWhile_dropWhile_id)
  have ft: "sig_fits vt tsig" using sig_fits_set [of tsig sig vt] ts fits st dom by (simp add: strict_sorted_iff)
  have rv: "row_view (signature a) (row_cells r) t = Some None \<longleftrightarrow> vt_size (vt t) = 0" if "t \<in> set (signature a)" for t
    using that row_view_nth [OF da(1) len] lc(9) len unfolding in_set_conv_nth
    by (metis (mono_tags, lifting) cells_live_def nth_map option.inject)
  have rs: "\<exists>x. row_view (signature a) (row_cells r) t = Some x" if "t \<in> set (signature a)" for t
    using that row_view_in [OF len, of t] by auto
  have mg: "migrated vt pl (row_view (signature a) (row_cells r)) t =
      (if t = c then (if vt_size (vt c) = 0 then None else Some v) else the (row_view (signature a) (row_cells r) t))"
    if "t \<in> set tsig" for t
    using that st rv [of t] by (auto simp: migrated_def pl_def)
  have live: "cells_live vt tsig ds"
  proof -
    have "migrated vt pl (row_view (signature a) (row_cells r)) t = None \<longleftrightarrow> vt_size (vt t) = 0" if "t \<in> set tsig" for t
      using mg [OF that] that st rv [of t] rs [of t] by (auto split: if_splits)
    then show ?thesis by (simp add: cells_live_def ds_def)
  qed
  have "\<exists>ti k w'. migrate_entity e (map (\<lambda>t. (t, vt t)) tsig) pl None w = Some ((ti, k), w')
    \<and> world_inv vt w' \<and> entity_view w' = (entity_view w)(e := Some (row_view tsig ds))
    \<and> (\<exists>t. arch_at w' ti = Some t \<and> signature t = tsig)
    \<and> location w' e = Some (unat ti, k) \<and> is_immutable w' e = is_immutable w e"
  proof (rule migrate_world [OF inv lc(3,1) _ _ room _ lc(6) ft ts _ ds_def live])
    show "tsig \<noteq> signature a" using st c by auto
    show "\<forall>t\<in>set tsig. map_option fst pl \<noteq> Some t \<longrightarrow> t \<in> set (signature a) \<and> column_index_for a t \<noteq> None"
      using st by (auto simp: pl_def column_index_none_iff)
    show "\<forall>j<length (signature a). None = Some j \<or> signature a ! j \<in> set tsig \<and> map_option fst pl \<noteq> Some (signature a ! j)"
      using st c by (auto simp: pl_def)
  qed (simp_all add: i_def a_def)
  then obtain ti k w' t where w': "migrate_entity e (map (\<lambda>t. (t, vt t)) tsig) pl None w = Some ((ti, k), w')"
    "world_inv vt w'" "entity_view w' = (entity_view w)(e := Some (row_view tsig ds))"
    "arch_at w' ti = Some t" "signature t = tsig" "location w' e = Some (unat ti, k)" by blast
  have rm: "row_view tsig ds = m(c := Some (if vt_size (vt c) = 0 then None else Some v))"
  proof
    fix t
    have "row_view tsig ds t = (if t \<in> set tsig then Some (migrated vt pl (row_view (signature a) (row_cells r)) t) else None)"
      by (simp add: ds_def row_view_map)
    moreover have "t \<notin> set (signature a) \<Longrightarrow> m t = None" using row_view_in [OF len, of t] lc(8) by simp
    moreover have "t \<in> set (signature a) \<Longrightarrow> m t = Some (the (row_view (signature a) (row_cells r) t))"
      using rs [of t] lc(8) by auto
    ultimately show "row_view tsig ds t = (m(c := Some (if vt_size (vt c) = 0 then None else Some v))) t"
      using st mg [of t] mg [of c] by simp
  qed
  have "c \<in> set (signature t)" using w'(5) st by simp
  then obtain col where ci: "column_index_for t c = Some col"
    using column_index_none_iff [of t c] by (cases "column_index_for t c") auto
  then have col: "column_index_for t c = Some col" "col < length tsig" "tsig ! col = c"
    using column_index_iff [of t c col] ts w'(5) by (simp_all add: strict_sorted_iff)
  have "add_component vt c v e w = Some (if vt_size (vt c) = 0 then None else Some (ti, k, col), w')"
    using nt lc(1,2,10) im None w'(1,4) col(1) lc(5) insert_id_map [OF c, of vt]
    by (simp add: add_component_def i_def pl_def tsig_def arch_wf_def)
  moreover have "load_cell w' (ti, k, col) = Some v" if data: "vt_size (vt c) \<noteq> 0"
  proof -
    have "entity_view w' e = Some (row_view tsig ds)" using w'(3) by simp
    then obtain s' r' where lw: "location w' e = Some (unat (archetype_index s'), slot_loc s')"
      "arch_wf vt (archetypes w' ! unat (archetype_index s'))"
      "get_row (archetypes w' ! unat (archetype_index s')) (slot_loc s') = Some r'"
      "row_view tsig ds = row_view (signature (archetypes w' ! unat (archetype_index s'))) (row_cells r')"
      "cells_live vt (signature (archetypes w' ! unat (archetype_index s'))) (row_cells r')"
      by (rule located [OF w'(2)]) blast
    have ti: "unat (archetype_index s') = unat ti" "slot_loc s' = k" using lw(1) w'(6) by simp_all
    have tt: "archetypes w' ! unat ti = t" using w'(4) by (simp add: arch_at_iff)
    have lr: "length (row_cells r') = length tsig"
      using cells_live_length [OF lw(5)] unfolding ti tt by (simp add: w'(5))
    have "row_view tsig (row_cells r') c = Some (row_cells r' ! col)"
      using row_view_nth [OF _ lr col(2)] ts col(3) by (simp add: strict_sorted_iff)
    moreover have "row_view tsig (row_cells r') c = Some (Some v)"
      using lw(4) rm data unfolding ti tt w'(5) by (metis fun_upd_same)
    ultimately show ?thesis
      using lw(3) w'(4) col(2) lr unfolding ti tt by (simp add: load_cell_def)
  qed
  moreover have "migrate_entity e (map (\<lambda>t. (t, vt t)) tsig) pl None w = Some ((ti, k), w')" by (rule w'(1))
  moreover have "set (signature (archetypes w' ! unat ti)) = insert c (dom m)" using w'(4,5) st dom by (simp add: arch_at_iff)
  ultimately show ?thesis using w'(2,3,6) rm lc(1) by (auto intro!: exI [of _ "if vt_size (vt c) = 0 then None else Some (ti, k, col)"])
qed

lemma add_component_spec:
  assumes inv: "world_inv vt w" and nt: "\<not> in_tick_or_log w" and m: "entity_view w e = Some m"
    and im: "\<not> is_immutable w e" and room: "length (archetypes w) + 1 < 2 ^ 32"
    and fits: "distinct sig" "set sig = insert c (dom m)" "sig_fits vt sig"
  shows "\<exists>p w'. add_component vt c v e w = Some (p, w') \<and> world_inv vt w'
    \<and> entity_view w' = (entity_view w)(e := Some (m(c := Some (if vt_size (vt c) = 0 then None else Some v))))
    \<and> (case p of None \<Rightarrow> vt_size (vt c) = 0 | Some pl \<Rightarrow> vt_size (vt c) \<noteq> 0 \<and> load_cell w' pl = Some v)"
proof -
  obtain s r where lc: "slot_at w (index e) = Some s" "arch_at w (archetype_index s) = Some (archetypes w ! unat (archetype_index s))"
    "location w e = Some (unat (archetype_index s), slot_loc s)" "unat (archetype_index s) < length (archetypes w)"
    "arch_wf vt (archetypes w ! unat (archetype_index s))"
    "get_row (archetypes w ! unat (archetype_index s)) (slot_loc s) = Some r" "row_entity r = Some e"
    "m = row_view (signature (archetypes w ! unat (archetype_index s))) (row_cells r)"
    "cells_live vt (signature (archetypes w ! unat (archetype_index s))) (row_cells r)" "eid_is_alive w e"
    by (rule located [OF inv m])
  define i where "i = archetype_index s"
  define a where "a = archetypes w ! unat i"
  note lc = lc [folded i_def, folded a_def]
  have da: "distinct (signature a)" "sorted_wrt (<) (signature a)" using lc(5) by (simp_all add: arch_wf_def strict_sorted_iff)
  note len = cells_live_length [OF lc(9)]
  have dom: "dom m = set (signature a)" using lc(8) row_view_dom [OF len] by simp
  show ?thesis
  proof (cases "column_index_for a c")
    case (Some col)
    then have col: "col < length (signature a)" "signature a ! col = c" using column_index_iff [OF da(1)] by auto
    have mc: "m c = Some (row_cells r ! col)" using row_view_nth [OF da(1) len col(1)] col(2) lc(8) by simp
    show ?thesis
    proof (cases "vt_size (vt c) = 0")
      case True
      have "row_cells r ! col = None"
        using lc(9) True col len by (metis (mono_tags, lifting) cells_live_def nth_map)
      then have "m(c := Some None) = m" using mc by auto
      moreover have "(entity_view w)(e := Some m) = entity_view w" using m by auto
      moreover have "add_component vt c v e w = Some (None, w)"
        using nt lc(1,2,10) im Some True by (simp add: add_component_def i_def)
      ultimately show ?thesis using inv True by auto
    next
      case False
      obtain w' where w': "store_cell (i, slot_loc s, col) v w = Some w'" "world_inv vt w'"
        "load_cell w' (i, slot_loc s, col) = Some v"
        "entity_view w' = (entity_view w)(e := Some ((row_view (signature a) (row_cells r))(signature a ! col := Some (Some v))))"
      proof -
        have "vt_size (vt (signature a ! col)) \<noteq> 0" using False col(2) by simp
        from store_cell_spec [OF inv lc(3,4), folded a_def, OF lc(6) col(1) this, of v] show thesis using that by blast
      qed
      have "add_component vt c v e w = Some (Some (i, slot_loc s, col), w')"
        using nt lc(1,2,10) im Some False w'(1) by (simp add: add_component_def i_def)
      then show ?thesis using w' False col(2) lc(8) by auto
    qed
  next
    case None
    then have "c \<notin> dom m" by (simp add: dom column_index_none_iff)
    from add_component_moves [OF inv nt m im room fits this, of v] show ?thesis by blast
  qed
qed

lemma remove_component_spec:
  assumes inv: "world_inv vt w" and nt: "\<not> in_tick_or_log w" and m: "entity_view w e = Some m"
    and im: "\<not> is_immutable w e" and room: "length (archetypes w) + 1 < 2 ^ 32"
    and c: "c \<in> dom m" and two: "dom m \<noteq> {c}"
  shows "\<exists>w'. remove_component c e w = Some (True, w') \<and> world_inv vt w'
    \<and> entity_view w' = (entity_view w)(e := Some (m(c := None)))"
proof -
  obtain s r where lc: "slot_at w (index e) = Some s" "arch_at w (archetype_index s) = Some (archetypes w ! unat (archetype_index s))"
    "location w e = Some (unat (archetype_index s), slot_loc s)" "unat (archetype_index s) < length (archetypes w)"
    "arch_wf vt (archetypes w ! unat (archetype_index s))"
    "get_row (archetypes w ! unat (archetype_index s)) (slot_loc s) = Some r" "row_entity r = Some e"
    "m = row_view (signature (archetypes w ! unat (archetype_index s))) (row_cells r)"
    "cells_live vt (signature (archetypes w ! unat (archetype_index s))) (row_cells r)" "eid_is_alive w e"
    by (rule located [OF inv m])
  define i where "i = archetype_index s"
  define a where "a = archetypes w ! unat i"
  note lc = lc [folded i_def, folded a_def]
  have da: "distinct (signature a)" "sorted_wrt (<) (signature a)" using lc(5) by (simp_all add: arch_wf_def strict_sorted_iff)
  note len = cells_live_length [OF lc(9)]
  have dom: "dom m = set (signature a)" using lc(8) row_view_dom [OF len] by simp
  then have "c \<in> set (signature a)" using c by simp
  then obtain col where ci: "column_index_for a c = Some col"
    using column_index_none_iff [of a c] by (cases "column_index_for a c") auto
  then have col: "col < length (signature a)" "signature a ! col = c" using column_index_iff [OF da(1)] by auto
  have n1: "length (signature a) \<noteq> 1"
  proof
    assume "length (signature a) = 1"
    then have "set (signature a) = {c}" using col by (cases "signature a") auto
    then show False using two dom by simp
  qed
  define tsig where "tsig = filter (\<lambda>t. t \<noteq> c) (signature a)"
  define ds where "ds = map (migrated vt None (row_view (signature a) (row_cells r))) tsig"
  have ts: "sorted_wrt (<) tsig" unfolding tsig_def by (rule sorted_wrt_filter [OF da(2)])
  have st: "set tsig = set (signature a) - {c}" unfolding tsig_def by auto
  have "sig_fits vt (signature a)" using lc(5) by (simp add: arch_wf_def)
  then have ft: "sig_fits vt tsig" unfolding tsig_def by (rule sig_fits_filter)
  have rv: "row_view (signature a) (row_cells r) t = Some None \<longleftrightarrow> vt_size (vt t) = 0" if "t \<in> set (signature a)" for t
    using that row_view_nth [OF da(1) len] lc(9) len unfolding in_set_conv_nth
    by (metis (mono_tags, lifting) cells_live_def nth_map option.inject)
  have rs: "\<exists>x. row_view (signature a) (row_cells r) t = Some x" if "t \<in> set (signature a)" for t
    using that row_view_in [OF len, of t] by auto
  have mg: "migrated vt None (row_view (signature a) (row_cells r)) t = the (row_view (signature a) (row_cells r) t)"
    if "t \<in> set tsig" for t
  proof (cases "vt_size (vt t) = 0")
    case True
    have "t \<in> set (signature a)" using that st by simp
    then have "row_view (signature a) (row_cells r) t = Some None" using rv True by simp
    then show ?thesis using True by (simp add: migrated_def)
  qed (simp add: migrated_def)
  have live: "cells_live vt tsig ds"
  proof -
    have "migrated vt None (row_view (signature a) (row_cells r)) t = None \<longleftrightarrow> vt_size (vt t) = 0" if "t \<in> set tsig" for t
    proof -
      have t: "t \<in> set (signature a)" using that st by simp
      obtain x where "row_view (signature a) (row_cells r) t = Some x" using rs [OF t] by blast
      then show ?thesis using mg [OF that] rv [OF t] by simp
    qed
    then show ?thesis by (simp add: cells_live_def ds_def)
  qed
  have "\<exists>ti k w'. migrate_entity e (map (\<lambda>t. (t, vt t)) tsig) None (Some col) w = Some ((ti, k), w')
    \<and> world_inv vt w' \<and> entity_view w' = (entity_view w)(e := Some (row_view tsig ds))
    \<and> (\<exists>t. arch_at w' ti = Some t \<and> signature t = tsig)
    \<and> location w' e = Some (unat ti, k) \<and> is_immutable w' e = is_immutable w e"
  proof (rule migrate_world [OF inv lc(3,1) _ _ room _ lc(6) ft ts _ ds_def live])
    show "tsig \<noteq> signature a" using st col(2) nth_mem [OF col(1)] by auto
    show "\<forall>t\<in>set tsig. map_option fst None \<noteq> Some t \<longrightarrow> t \<in> set (signature a) \<and> column_index_for a t \<noteq> Some col"
      using st column_index_iff [OF da(1)] col(2) by auto
    show "\<forall>j<length (signature a). Some col = Some j \<or> signature a ! j \<in> set tsig \<and> map_option fst None \<noteq> Some (signature a ! j)"
    proof (intro allI impI)
      fix j assume j: "j < length (signature a)"
      have "signature a ! j = c \<longleftrightarrow> j = col" using nth_eq_iff_index_eq [OF da(1) j col(1)] col(2) by simp
      then show "Some col = Some j \<or> signature a ! j \<in> set tsig \<and> map_option fst None \<noteq> Some (signature a ! j)"
        unfolding st using nth_mem [OF j] by auto
    qed
    show "\<forall>j. Some col = Some j \<longrightarrow> j < length (signature a)" using col(1) by simp
  qed (simp_all add: i_def a_def)
  then obtain ti k w' where w': "migrate_entity e (map (\<lambda>t. (t, vt t)) tsig) None (Some col) w = Some ((ti, k), w')"
    "world_inv vt w'" "entity_view w' = (entity_view w)(e := Some (row_view tsig ds))" by blast
  have "row_view tsig ds = m(c := None)"
  proof
    fix t
    have "row_view tsig ds t = (if t \<in> set tsig then Some (migrated vt None (row_view (signature a) (row_cells r)) t) else None)"
      by (simp add: ds_def row_view_map)
    moreover have "t \<notin> set (signature a) \<Longrightarrow> m t = None" using row_view_in [OF len, of t] lc(8) by simp
    moreover have "t \<in> set (signature a) \<Longrightarrow> m t = Some (the (row_view (signature a) (row_cells r) t))"
      using rs [of t] lc(8) by auto
    ultimately show "row_view tsig ds t = (m(c := None)) t"
      using st mg [of t] by simp
  qed
  moreover have "remove_component c e w = Some (True, w')"
    using nt lc(1,2,10) im ci n1 w'(1) lc(5) drop_id_map [of c "signature a" vt]
    by (simp add: remove_component_def i_def tsig_def arch_wf_def)
  ultimately show ?thesis using w'(2,3) by auto
qed

section \<open>Reading\<close>

definition read_component :: "vtables_of \<Rightarrow> component_type_id_t \<Rightarrow> 'v World \<Rightarrow> EntityID \<Rightarrow> 'v option option" where
  "read_component vt c w e = do {
     p \<leftarrow> get_component vt c w e;
     (case p of None \<Rightarrow> Some None | Some pl \<Rightarrow> map_option Some (load_cell w pl)) }"

lemma read_component_spec:
  assumes inv: "world_inv vt w"
  shows "read_component vt c w e = Some (case entity_view w e of None \<Rightarrow> None | Some m \<Rightarrow> (case m c of None \<Rightarrow> None | Some x \<Rightarrow> x))"
    "has_component c w e = Some (case entity_view w e of None \<Rightarrow> False | Some m \<Rightarrow> m c \<noteq> None)"
proof -
  have "read_component vt c w e = Some (case entity_view w e of None \<Rightarrow> None | Some m \<Rightarrow> (case m c of None \<Rightarrow> None | Some x \<Rightarrow> x))
    \<and> has_component c w e = Some (case entity_view w e of None \<Rightarrow> False | Some m \<Rightarrow> m c \<noteq> None)"
  proof (cases "entity_view w e")
    case None
    then have "\<not> eid_is_alive w e" using alive_has_view [OF inv] by blast
    then show ?thesis using None by (simp add: read_component_def get_component_def has_component_def)
  next
    case (Some m)
    obtain s r where lc: "slot_at w (index e) = Some s" "arch_at w (archetype_index s) = Some (archetypes w ! unat (archetype_index s))"
      "location w e = Some (unat (archetype_index s), slot_loc s)" "unat (archetype_index s) < length (archetypes w)"
      "arch_wf vt (archetypes w ! unat (archetype_index s))"
      "get_row (archetypes w ! unat (archetype_index s)) (slot_loc s) = Some r" "row_entity r = Some e"
      "m = row_view (signature (archetypes w ! unat (archetype_index s))) (row_cells r)"
      "cells_live vt (signature (archetypes w ! unat (archetype_index s))) (row_cells r)" "eid_is_alive w e"
      by (rule located [OF inv Some])
    define a where "a = archetypes w ! unat (archetype_index s)"
    note lc = lc [folded a_def]
    have da: "distinct (signature a)" using lc(5) by (simp add: arch_wf_def strict_sorted_iff)
    note len = cells_live_length [OF lc(9)]
    show ?thesis
    proof (cases "column_index_for a c")
      case None
      then have "m c = None" using lc(8) row_view_in [OF len, of c] column_index_none_iff [of a c] by simp
      then show ?thesis using None Some lc
        by (simp add: read_component_def get_component_def has_component_def arch_has_component_def)
    next
      case (Some col)
      then have col: "col < length (signature a)" "signature a ! col = c" using column_index_iff [OF da] by auto
      have mc: "m c = Some (row_cells r ! col)" using row_view_nth [OF da len col(1)] col(2) lc(8) by simp
      have t: "row_cells r ! col = None \<longleftrightarrow> vt_size (vt c) = 0"
        using lc(9) col len by (metis (mono_tags, lifting) cells_live_def nth_map)
      show ?thesis using Some \<open>entity_view w e = Some m\<close> mc lc t col len
        by (auto simp: read_component_def get_component_def has_component_def arch_has_component_def load_cell_def)
    qed
  qed
  then show "read_component vt c w e = Some (case entity_view w e of None \<Rightarrow> None | Some m \<Rightarrow> (case m c of None \<Rightarrow> None | Some x \<Rightarrow> x))"
    "has_component c w e = Some (case entity_view w e of None \<Rightarrow> False | Some m \<Rightarrow> m c \<noteq> None)" by simp_all
qed

end
