(* ===== verification/World_Steps.thy ===== *)
theory World_Steps
  imports World_Removal
begin

text \<open>
  Every operation of the World is a sequence of a few updates: of the slot table, of one row, a reserved
  row, a compacted archetype, a new archetype.  What holds along these updates holds along the operations,
  whatever their branch; the locale proves it once for every reflexive and transitive relation.
\<close>

section \<open>Updates\<close>

definition slots_only :: "'v World \<Rightarrow> 'v World \<Rightarrow> bool" where
  "slots_only w w' \<longleftrightarrow> (\<exists>s f h. w' = w\<lparr>entity_slots := s, first_free := f, has_free := h\<rparr>)"

lemma slots_only_iff:
  "slots_only w w' \<longleftrightarrow> w'\<lparr>entity_slots := entity_slots w, first_free := first_free w, has_free := has_free w\<rparr> = w"
proof
  assume "w'\<lparr>entity_slots := entity_slots w, first_free := first_free w, has_free := has_free w\<rparr> = w"
  then have "w' = w\<lparr>entity_slots := entity_slots w', first_free := first_free w', has_free := has_free w'\<rparr>" by (cases w; cases w') simp
  then show "slots_only w w'" unfolding slots_only_def by blast
qed (auto simp: slots_only_def)

lemma slots_only_refl [simp]: "slots_only w w"
  by (simp add: slots_only_iff)

lemma slot_updates:
  fixes w :: "'v World"
  shows "slots_only w (set_slot i s w)" "slots_only w (push_free i w)" "slots_only w (drop_reserved_slot e w)"
    "place_slot e ai l w = Some w' \<Longrightarrow> slots_only w w'" "stamp_immutable e b w = Some w' \<Longrightarrow> slots_only w w'"
    "allocate_entity_slot w = Some (e, w') \<Longrightarrow> slots_only w w'" "reserve_entity_slot w = Some (e, w') \<Longrightarrow> slots_only w w'"
  by (auto simp: slots_only_iff set_slot_def push_free_def drop_reserved_slot_def place_slot_def stamp_immutable_def
      allocate_entity_slot_def reserve_entity_slot_def Let_def bind_eq_Some_conv split: option.splits if_splits)

lemma set_arch_again: "set_arch i b ((set_arch i a w)\<lparr>chunk_pool := p\<rparr>) = (set_arch i b w)\<lparr>chunk_pool := p\<rparr>"
  by (simp add: set_arch_def)

lemma arch_at_set: "arch_at w i = Some a \<Longrightarrow> arch_at ((set_arch i b w)\<lparr>chunk_pool := p\<rparr>) i = Some b"
  by (simp add: arch_at_iff set_arch_def)

lemma write_is_set_row: "write_entity l e a = Some b \<Longrightarrow> \<exists>r. b = set_row l r a"
  by (auto simp: write_entity_def bind_eq_Some_conv)

lemma cells_is_set_row: "with_cells l f a = Some b \<Longrightarrow> \<exists>r. b = set_row l r a"
  by (auto simp: with_cells_def bind_eq_Some_conv)

lemma bind_SomeE:
  assumes "Option.bind x f = Some z"
  obtains y where "x = Some y" "f y = Some z"
  using assms by (cases x) auto

lemma create_steps:
  assumes "create_entity_impl vt im comps w = Some (e, w')" "\<not> in_tick_or_log w"
  obtains sig vts ai w1 eid w2 l w3 w4 where "find_or_create_archetype sig vts w = (ai, w1)"
    "allocate_entity_slot w1 = Some (eid, w2)" "insert_into eid ai (\<lambda>a. place_cells vt a comps) w2 = Some (l, w3)"
    "place_slot eid ai l w3 = Some w4" "stamp_immutable eid im w4 = Some w'"
proof -
  define srt where "srt = exchange_sort (map (\<lambda>(c, v). (c, vt c)) comps)"
  obtain ai w1 where f: "find_or_create_archetype (map fst srt) (map snd srt) w = (ai, w1)" by (metis prod.collapse)
  have d: "(do { (eid, w) \<leftarrow> allocate_entity_slot w1;
        (l, w) \<leftarrow> insert_into eid ai (\<lambda>a. place_cells vt a comps) w;
        w \<leftarrow> place_slot eid ai l w;
        w \<leftarrow> stamp_immutable eid im w;
        Some (eid, w) }) = Some (e, w')"
    using assms by (simp add: create_entity_impl_def Let_def f srt_def [symmetric])
  then obtain eid w2 where o: "allocate_entity_slot w1 = Some (eid, w2)"
    "(do { (l, w) \<leftarrow> insert_into eid ai (\<lambda>a. place_cells vt a comps) w2;
        w \<leftarrow> place_slot eid ai l w;
        w \<leftarrow> stamp_immutable eid im w;
        Some (eid, w) }) = Some (e, w')" by (elim bind_SomeE) auto
  then obtain l w3 w4 where o2: "insert_into eid ai (\<lambda>a. place_cells vt a comps) w2 = Some (l, w3)"
    "place_slot eid ai l w3 = Some w4" "stamp_immutable eid im w4 = Some w'"
    by (elim bind_SomeE) (auto elim!: bind_SomeE)
  show thesis by (rule that [OF f o(1) o2])
qed

lemma migrate_steps:
  assumes m: "migrate_entity e target placed dropped w = Some (pos, w')"
  obtains old ti l w1 t b p c src trow srow ds ss src1 w4 where
    "slot_at w (index e) = Some old" "find_or_create_archetype (map fst target) (map snd target) w = (ti, w1)"
    "arch_at w1 ti = Some t" "reserve_row t (chunk_pool w1) = (l, b, p)" "write_entity l e b = Some c"
    "arch_at ((set_arch ti c w1)\<lparr>chunk_pool := p\<rparr>) (archetype_index old) = Some src"
    "arch_at (set_arch ti (set_row l (trow\<lparr>row_cells := ds\<rparr>) c) ((set_arch ti c w1)\<lparr>chunk_pool := p\<rparr>)) (archetype_index old) = Some src1"
    "compact_archetype_after_external_move (archetype_index old) (slot_loc old)
       (set_arch (archetype_index old) (set_row (slot_loc old) (srow\<lparr>row_cells := ss\<rparr>) src1)
          (set_arch ti (set_row l (trow\<lparr>row_cells := ds\<rparr>) c) ((set_arch ti c w1)\<lparr>chunk_pool := p\<rparr>))) = Some w4"
    "place_slot e ti l w4 = Some w'" "pos = (ti, l)"
proof -
  obtain ti w1 where f: "find_or_create_archetype (map fst target) (map snd target) w = (ti, w1)" by (metis prod.collapse)
  obtain old t where o: "slot_at w (index e) = Some old" "arch_at w1 ti = Some t"
    using m f unfolding migrate_entity_def Let_def by (elim bind_SomeE) (auto simp: case_prod_unfold elim!: bind_SomeE)
  obtain l b p where r: "reserve_row t (chunk_pool w1) = (l, b, p)" by (metis prod.collapse)
  obtain c where c: "write_entity l e b = Some c"
    using m f o r unfolding migrate_entity_def Let_def by (elim bind_SomeE) (auto elim!: bind_SomeE)
  have t2: "arch_at ((set_arch ti c w1)\<lparr>chunk_pool := p\<rparr>) ti = Some c" by (rule arch_at_set [OF o(2)])
  show thesis
    using m f o r c t2 that [OF o(1) f o(2) r c] unfolding migrate_entity_def Let_def by (elim bind_SomeE) (auto elim!: bind_SomeE)
qed

section \<open>Relations along the updates\<close>

locale along_updates =
  fixes R :: "'v World \<Rightarrow> 'v World \<Rightarrow> bool"
  assumes R_refl: "R w w"
    and R_trans: "R u v \<Longrightarrow> R v w \<Longrightarrow> R u w"
    and R_slots: "slots_only w w' \<Longrightarrow> R w w'"
    and R_new: "find_or_create_archetype sig vts w = (i, w') \<Longrightarrow> R w w'"
    and R_row: "arch_at w i = Some a \<Longrightarrow> R w (set_arch i (set_row l r a) w)"
    and R_reserve: "arch_at w i = Some a \<Longrightarrow> reserve_row a (chunk_pool w) = (l, b, q) \<Longrightarrow>
      R w ((set_arch i b w)\<lparr>chunk_pool := q\<rparr>)"
    and R_compact: "arch_at w i = Some a \<Longrightarrow> compact_rows l a (chunk_pool w) = Some (m, b, q) \<Longrightarrow>
      R w ((set_arch i b w)\<lparr>chunk_pool := q\<rparr>)"
begin

lemma R_trans' [trans]: "R u v \<Longrightarrow> R v w \<Longrightarrow> R u w"
  by (rule R_trans)

lemma R_cells: "arch_at w i = Some a \<Longrightarrow> with_cells l f a = Some b \<Longrightarrow> R w (set_arch i b w)"
  using cells_is_set_row R_row by blast

lemma R_reserve_write:
  assumes a: "arch_at w i = Some a" and b: "reserve_row a (chunk_pool w) = (k, b, p)" and c: "write_entity k e b = Some c"
  shows "R w ((set_arch i c w)\<lparr>chunk_pool := p\<rparr>)"
proof -
  obtain r where r: "c = set_row k r b" using write_is_set_row [OF c] by blast
  have "R w ((set_arch i b w)\<lparr>chunk_pool := p\<rparr>)" by (rule R_reserve [OF a b])
  also have "R \<dots> (set_arch i c ((set_arch i b w)\<lparr>chunk_pool := p\<rparr>))" unfolding r by (rule R_row [OF arch_at_set [OF a]])
  finally show ?thesis by (simp only: set_arch_again)
qed

lemma insert_into:
  assumes "insert_into e ai f w = Some (l, w')"
  shows "R w w'"
proof -
  obtain a where a: "arch_at w ai = Some a" using assms by (auto simp: insert_into_def bind_eq_Some_conv)
  obtain k b p where b: "reserve_row a (chunk_pool w) = (k, b, p)" by (metis prod.collapse)
  obtain c d where o: "write_entity k e b = Some c" "with_cells k (f c) c = Some d" "w' = (set_arch ai d w)\<lparr>chunk_pool := p\<rparr>"
    using assms a b by (auto simp: insert_into_def bind_eq_Some_conv)
  note R_reserve_write [OF a b o(1)]
  also note R_cells [OF arch_at_set [OF a] o(2)]
  finally show ?thesis by (simp only: set_arch_again o(3))
qed

lemma compact:
  assumes "compact_archetype_after_external_move ai l w = Some w'"
  shows "R w w'"
proof -
  obtain a moved b p where o: "arch_at w ai = Some a" "compact_rows l a (chunk_pool w) = Some (moved, b, p)"
    using assms by (auto simp: compact_archetype_after_external_move_def bind_eq_Some_conv)
  note R_compact [OF o]
  also have "slots_only ((set_arch ai b w)\<lparr>chunk_pool := p\<rparr>) w'"
    using assms o slot_updates(1) by (auto simp: compact_archetype_after_external_move_def bind_eq_Some_conv Let_def split: option.splits)
  note R_slots [OF this]
  finally show ?thesis .
qed

lemma create:
  assumes "create_entity_impl vt im comps w = Some (e, w')"
  shows "R w w'"
proof (cases "in_tick_or_log w")
  case False
  obtain sig vts ai w1 eid w2 l w3 w4 where o: "find_or_create_archetype sig vts w = (ai, w1)"
    "allocate_entity_slot w1 = Some (eid, w2)" "insert_into eid ai (\<lambda>a. place_cells vt a comps) w2 = Some (l, w3)"
    "place_slot eid ai l w3 = Some w4" "stamp_immutable eid im w4 = Some w'"
    by (rule create_steps [OF assms False])
  note R_new [OF o(1)]
  also note R_slots [OF slot_updates(6) [OF o(2)]]
  also note insert_into [OF o(3)]
  also note R_slots [OF slot_updates(4) [OF o(4)]]
  also note R_slots [OF slot_updates(5) [OF o(5)]]
  finally show ?thesis .
qed (use assms R_refl in \<open>simp add: create_entity_impl_def\<close>)

lemma finalize:
  assumes "finalize_reserved_entity e sig vts vals w = Some w'"
  shows "R w w'"
proof (cases "w' = w")
  case False
  obtain ai w1 where f: "find_or_create_archetype sig vts w = (ai, w1)" by fastforce
  obtain l w2 where o: "insert_into e ai (\<lambda>_. fill_cells vts vals) w1 = Some (l, w2)" "place_slot e ai l w2 = Some w'"
    using assms False f by (auto simp: finalize_reserved_entity_def bind_eq_Some_conv split: option.splits if_splits)
  note R_new [OF f]
  also note insert_into [OF o(1)]
  also note R_slots [OF slot_updates(4) [OF o(2)]]
  finally show ?thesis .
qed (use R_refl in simp)

lemma destroy:
  assumes "destroy_entity e w = Some w'"
  shows "R w w'"
proof (cases "w' = w \<or> w' = drop_reserved_slot e w")
  case False
  then obtain s a b w1 where o: "arch_at w (archetype_index s) = Some a"
    "with_cells (slot_loc s) (destroy_cells (column_offsets a)) a = Some b"
    "compact_archetype_after_external_move (archetype_index s) (slot_loc s) (set_arch (archetype_index s) b w) = Some w1"
    "w' = push_free (index e) w1"
    using assms by (auto simp: destroy_entity_def bind_eq_Some_conv split: option.splits if_splits)
  note R_cells [OF o(1,2)]
  also note compact [OF o(3)]
  also note R_slots [OF slot_updates(2) [of w1 "index e"]]
  finally show ?thesis by (simp add: o(4))
qed (use R_refl R_slots [OF slot_updates(3)] in auto)

lemma store: "store_cell pl v w = Some w' \<Longrightarrow> R w w'"
  by (auto simp: store_cell_def bind_eq_Some_conv intro: R_cells split: prod.splits)

lemma migrate:
  assumes "migrate_entity e target placed dropped w = Some (pos, w')"
  shows "R w w'"
proof -
  obtain old ti l w1 t b p c src trow srow ds ss src1 w4 where o:
    "slot_at w (index e) = Some old" "find_or_create_archetype (map fst target) (map snd target) w = (ti, w1)"
    "arch_at w1 ti = Some t" "reserve_row t (chunk_pool w1) = (l, b, p)" "write_entity l e b = Some c"
    "arch_at ((set_arch ti c w1)\<lparr>chunk_pool := p\<rparr>) (archetype_index old) = Some src"
    "arch_at (set_arch ti (set_row l (trow\<lparr>row_cells := ds\<rparr>) c) ((set_arch ti c w1)\<lparr>chunk_pool := p\<rparr>)) (archetype_index old) = Some src1"
    "compact_archetype_after_external_move (archetype_index old) (slot_loc old)
       (set_arch (archetype_index old) (set_row (slot_loc old) (srow\<lparr>row_cells := ss\<rparr>) src1)
          (set_arch ti (set_row l (trow\<lparr>row_cells := ds\<rparr>) c) ((set_arch ti c w1)\<lparr>chunk_pool := p\<rparr>))) = Some w4"
    "place_slot e ti l w4 = Some w'" "pos = (ti, l)"
    by (rule migrate_steps [OF assms])
  note R_new [OF o(2)]
  also note R_reserve_write [OF o(3-5)]
  also note R_row [OF arch_at_set [OF o(3)]]
  also note R_row [OF o(7)]
  also note compact [OF o(8)]
  also note R_slots [OF slot_updates(4) [OF o(9)]]
  finally show ?thesis .
qed

lemma add:
  assumes "add_component vt c v e w = Some (p, w')"
  shows "R w w'"
  using assms
  by (auto simp: add_component_def bind_eq_Some_conv intro: store migrate R_refl split: if_splits option.splits)

lemma remove:
  assumes "remove_component c e w = Some (b, w')"
  shows "R w w'"
  using assms
  by (auto simp: remove_component_def bind_eq_Some_conv intro: migrate R_refl split: if_splits option.splits)

lemmas along_slots = slot_updates [THEN R_slots]

lemmas along_operations = create finalize destroy add remove along_slots(3,7)

end

end
