(* ===== verification/World_Frames.thy ===== *)
theory World_Frames
  imports World_Steps
begin

text \<open>
  What the operations of the World leave alone, whatever their branch: an archetype keeps its signature
  and its matcher hash for ever, new archetypes are appended and counted by the epoch, and the flags,
  the singletons and the query cache are not touched.
\<close>

definition arch_key :: "'v Archetype \<Rightarrow> component_type_id_t list \<times> u64" where
  "arch_key a = (signature a, matcher_hash a)"

definition arch_keys :: "'v World \<Rightarrow> (component_type_id_t list \<times> u64) list" where
  "arch_keys w = map arch_key (archetypes w)"

definition counted :: "'v World \<Rightarrow> bool" where
  "counted w \<longleftrightarrow> length (archetypes w) < 2 ^ 32 \<and> archetype_epoch w = of_nat (length (archetypes w))"

definition world_frame :: "'v World \<Rightarrow> 'v World \<Rightarrow> bool" where
  "world_frame w w' \<longleftrightarrow> in_tick w' = in_tick w \<and> in_apply_phase w' = in_apply_phase w \<and> singletons w' = singletons w
     \<and> (\<exists>ks. arch_keys w' = arch_keys w @ ks)
     \<and> (counted w \<and> length (archetypes w') < 2 ^ 32 \<longrightarrow> counted w' \<and> query_cache w' = query_cache w)"

lemma arch_keys_length: "arch_keys w' = arch_keys w @ ks \<Longrightarrow> length (archetypes w) \<le> length (archetypes w')"
  by (metis arch_keys_def le_add1 length_append length_map)

lemma world_frame_refl [simp, intro]: "world_frame w w"
  by (simp add: world_frame_def)

lemma world_frame_trans [trans]:
  assumes "world_frame u v" "world_frame v w"
  shows "world_frame u w"
proof -
  obtain ks ls where k: "arch_keys v = arch_keys u @ ks" "arch_keys w = arch_keys v @ ls"
    using assms unfolding world_frame_def by blast
  have "counted u \<and> length (archetypes w) < 2 ^ 32 \<longrightarrow> counted w \<and> query_cache w = query_cache u"
    using assms arch_keys_length [OF k(2)] unfolding world_frame_def by (metis order_le_less_trans)
  moreover have "\<exists>xs. arch_keys w = arch_keys u @ xs" using k by simp
  ultimately show ?thesis using assms unfolding world_frame_def by metis
qed

text \<open>An update that keeps the list of keys.\<close>

lemma world_frame_keys:
  assumes "in_tick w' = in_tick w" "in_apply_phase w' = in_apply_phase w" "singletons w' = singletons w"
    "arch_keys w' = arch_keys w" "archetype_epoch w' = archetype_epoch w" "query_cache w' = query_cache w"
  shows "world_frame w w'"
proof -
  have "length (archetypes w') = length (archetypes w)" using assms(4) unfolding arch_keys_def by (metis length_map)
  then show ?thesis using assms by (simp add: world_frame_def counted_def)
qed

lemma frame_slots: "slots_only w w' \<Longrightarrow> world_frame w w'"
  by (intro world_frame_keys) (auto simp: slots_only_def arch_keys_def)

lemma frame_archetype:
  assumes "arch_at w i = Some a" "arch_key b = arch_key a"
  shows "world_frame w (set_arch i b w)"
proof (rule world_frame_keys)
  have "unat i < length (archetypes w)" "a = archetypes w ! unat i" using assms(1) by (simp_all add: arch_at_iff)
  then show "arch_keys (set_arch i b w) = arch_keys w"
    using assms(2) by (simp add: arch_keys_def set_arch_def map_update list_update_same_conv)
qed (simp_all add: set_arch_def)

lemma frame_pool: "world_frame w (w\<lparr>chunk_pool := p\<rparr>)"
  by (rule world_frame_keys) (simp_all add: arch_keys_def)

lemma frame_find_or_create: "find_or_create_archetype sig vts w = (i, w') \<Longrightarrow> world_frame w w'"
proof (cases "archetype_by_signature w sig")
  case None
  assume f: "find_or_create_archetype sig vts w = (i, w')"
  let ?n = "length (archetypes w)"
  have "w' = snd (find_or_create_archetype sig vts w)" using f by simp
  then have a: "archetypes w' = archetypes w @ [new_archetype sig vts]" and keep: "in_tick w' = in_tick w"
    "in_apply_phase w' = in_apply_phase w" "singletons w' = singletons w"
    and ep: "archetype_epoch w + 1 \<noteq> 0 \<Longrightarrow> archetype_epoch w' = archetype_epoch w + 1 \<and> query_cache w' = query_cache w"
    using None by (simp_all add: find_or_create_archetype_def Let_def)
  have "counted w' \<and> query_cache w' = query_cache w" if c: "counted w" and l: "length (archetypes w') < 2 ^ 32"
  proof -
    have n: "archetype_epoch w + 1 = of_nat (Suc ?n)" and b: "Suc ?n < 2 ^ 32" using c l a by (simp_all add: counted_def)
    have "unat (of_nat (Suc ?n) :: u32) = Suc ?n" using b by (simp add: unsigned_of_nat take_bit_nat_eq_self del: of_nat_Suc)
    then have "archetype_epoch w + 1 \<noteq> 0" unfolding n by (metis Zero_not_Suc unsigned_0)
    then show ?thesis using ep n l a by (simp add: counted_def)
  qed
  then show ?thesis using keep a by (simp add: world_frame_def arch_keys_def)
qed (simp add: find_or_create_archetype_def)

section \<open>Rows\<close>

lemma key_set_row [simp]: "arch_key (set_row l r a) = arch_key a"
  by (simp add: arch_key_def set_row_def)

lemma key_bump [simp]: "arch_key (bump_versions n a) = arch_key a"
  by (simp add: arch_key_def bump_versions_def)

lemma key_reserve: "reserve_row a p = (l, b, q) \<Longrightarrow> arch_key b = arch_key a"
  by (auto simp: arch_key_def reserve_row_unfold allocate_chunk_def add_raw_rows_def bump_versions_def Let_def
      split: if_splits prod.splits)

lemma key_write: "write_entity l e a = Some b \<Longrightarrow> arch_key b = arch_key a"
  by (auto simp: write_entity_def bind_eq_Some_conv)

lemma key_cells: "with_cells l f a = Some b \<Longrightarrow> arch_key b = arch_key a"
  by (auto simp: with_cells_def bind_eq_Some_conv)

lemma key_pop: "arch_key (fst (pop_row a p)) = arch_key a"
  by (simp add: arch_key_def pop_row_def drop_empty_trailing_chunk_def)

lemma key_compact:
  assumes "compact_rows l a p = Some (moved, b, q)"
  shows "arch_key b = arch_key a"
proof -
  have "\<exists>x. arch_key x = arch_key a \<and> pop_row x p = (b, q)"
    using assms unfolding compact_rows_def Let_def bind_eq_Some_conv
    by (auto split: if_splits simp: bind_eq_Some_conv case_prod_unfold)
      (rule exI, rule conjI [rotated], assumption, simp)+
  then show ?thesis using key_pop by (metis fst_conv)
qed

section \<open>The operations\<close>

interpretation frames: along_updates world_frame
proof
  show "world_frame w ((set_arch i b w)\<lparr>chunk_pool := q\<rparr>)"
    if "arch_at w i = Some a" "reserve_row a (chunk_pool w) = (l, b, q)" for w i a l and b :: "'v Archetype" and q
    by (rule world_frame_trans [OF frame_archetype [OF that(1) key_reserve [OF that(2)]] frame_pool])
  show "world_frame w ((set_arch i b w)\<lparr>chunk_pool := q\<rparr>)"
    if "arch_at w i = Some a" "compact_rows l a (chunk_pool w) = Some (m, b, q)" for w i a l m and b :: "'v Archetype" and q
    by (rule world_frame_trans [OF frame_archetype [OF that(1) key_compact [OF that(2)]] frame_pool])
qed (auto intro: world_frame_trans frame_slots frame_find_or_create frame_archetype)

lemmas frame_create = frames.create

end
