(* ===== verification/World_Blocks.thy ===== *)
theory World_Blocks
  imports World_Frames
begin

text \<open>
  The memory of the chunks: the blocks that the archetypes of a World hold are the blocks its chunk pool
  has handed out and not got back, each held by one chunk.  Every update of the World keeps it.
\<close>

definition arch_blocks :: "'v Archetype \<Rightarrow> nat multiset" where
  "arch_blocks a = mset (map chunk_block (chunks a))"

definition world_blocks :: "'v World \<Rightarrow> nat multiset" where
  "world_blocks w = sum_list (map arch_blocks (archetypes w))"

definition blocks_ok :: "'v World \<Rightarrow> bool" where
  "blocks_ok w \<longleftrightarrow> pool_inv (chunk_pool w) \<and> world_blocks w = mset_set (pool_owned (chunk_pool w))"

definition blocks_kept :: "'v World \<Rightarrow> 'v World \<Rightarrow> bool" where
  "blocks_kept w w' \<longleftrightarrow> (blocks_ok w \<longrightarrow> blocks_ok w')"

section \<open>One archetype and the pool\<close>

lemma owned_finite: "pool_inv p \<Longrightarrow> finite (pool_owned p)"
  using live_finite by (simp add: pool_owned_def)

lemma acquire_owned:
  assumes "pool_inv p" "pool_acquire p = (x, q)"
  shows "pool_inv q" "mset_set (pool_owned q) = add_mset x (mset_set (pool_owned p))"
proof -
  have a: "pool_alloc p = Some (x, q)" by (simp add: pool_alloc_def assms(2))
  show "pool_inv q" by (rule pool.alloc_inv [OF assms(1) a])
  show "mset_set (pool_owned q) = add_mset x (mset_set (pool_owned p))"
    using pool.alloc_live [OF assms(1) a] pool.alloc_fresh [OF assms(1) a] owned_finite [OF assms(1)] by simp
qed

lemma release_owned:
  assumes "pool_inv p" "mset_set (pool_owned p) = add_mset x M"
  shows "pool_inv (pool_release (Some x) p)" "mset_set (pool_owned (pool_release (Some x) p)) = M"
proof -
  have fin: "finite (pool_owned p)" by (rule owned_finite [OF assms(1)])
  have x: "x \<in> pool_owned p" using assms(2) fin by (metis elem_mset_set union_single_eq_member)
  show "pool_inv (pool_release (Some x) p)" using pool.release_inv [OF assms(1) x] by (simp add: pool_give_back_def)
  have "mset_set (pool_owned p - {x}) = mset_set (pool_owned p) - {#x#}" using fin x by (simp add: mset_set_Diff)
  then show "mset_set (pool_owned (pool_release (Some x) p)) = M"
    using pool.release_live [OF assms(1) x] assms(2) by (simp add: pool_give_back_def)
qed

lemma set_row_block_list: "map chunk_block (chunks (set_row l r a)) = map chunk_block (chunks a)"
  by (simp add: set_row_def map_update list_update_same_conv) (metis list_update_beyond list_update_id map_update not_le)

lemma blocks_set_row [simp]: "arch_blocks (set_row l r a) = arch_blocks a"
  by (simp only: arch_blocks_def set_row_block_list)

lemma blocks_bump [simp]: "arch_blocks (bump_versions n a) = arch_blocks a"
  by (simp add: arch_blocks_def bump_versions_def)

text \<open>What an update of an archetype does to its blocks, it does to the blocks the pool has out.\<close>

definition block_step :: "'v Archetype \<Rightarrow> ChunkPool \<Rightarrow> 'v Archetype \<Rightarrow> ChunkPool \<Rightarrow> bool" where
  "block_step a p b q \<longleftrightarrow> (\<forall>M. pool_inv p \<and> mset_set (pool_owned p) = arch_blocks a + M \<longrightarrow>
     pool_inv q \<and> mset_set (pool_owned q) = arch_blocks b + M)"

lemma block_step_same: "arch_blocks b = arch_blocks a \<Longrightarrow> block_step a p b p"
  by (simp add: block_step_def)

lemma blocks_raw: "chunks a \<noteq> [] \<Longrightarrow> arch_blocks (add_raw_rows n a) = arch_blocks a"
  by (cases "chunks a" rule: rev_cases) (simp_all add: arch_blocks_def add_raw_rows_def)

lemma block_reserve:
  assumes "reserve_row a p = (l, b, q)"
  shows "block_step a p b q"
proof (cases "needs_chunk a")
  case True
  obtain x p' where x: "pool_acquire p = (x, p')" by fastforce
  let ?a = "a\<lparr>chunks := chunks a @ [\<lparr>chunk_block = x, chunk_rows = []\<rparr>]\<rparr>"
  have q: "q = p'" "arch_blocks b = add_mset x (arch_blocks a)"
    using assms True blocks_raw [of ?a 1] by (auto simp: reserve_row_def allocate_chunk_def x arch_blocks_def bump_versions_def Let_def)
  show ?thesis unfolding block_step_def q using acquire_owned [OF _ x] by simp
next
  case False
  then have "q = p" "arch_blocks b = arch_blocks a"
    using assms blocks_raw [of a 1] by (auto simp: reserve_row_def needs_chunk_def arch_blocks_def bump_versions_def Let_def)
  then show ?thesis by (simp add: block_step_same)
qed

lemma block_pop:
  assumes "pop_row a p = (b, q)" "chunks a \<noteq> []"
  shows "block_step a p b q"
proof -
  obtain cs c where cs: "chunks a = cs @ [c]" using assms(2) by (cases "chunks a" rule: rev_cases) auto
  have "arch_blocks b = arch_blocks a \<and> q = p
    \<or> arch_blocks a = add_mset (chunk_block c) (arch_blocks b) \<and> q = pool_release (Some (chunk_block c)) p"
    using assms(1) by (auto simp: pop_row_def drop_empty_trailing_chunk_def cs arch_blocks_def split: if_splits)
  then show ?thesis
  proof (elim disjE conjE)
    assume a: "arch_blocks a = add_mset (chunk_block c) (arch_blocks b)" "q = pool_release (Some (chunk_block c)) p"
    show ?thesis unfolding block_step_def a using release_owned [of p "chunk_block c"] by auto
  qed (simp add: block_step_same)
qed

lemma block_compact:
  assumes "compact_rows l a p = Some (m, b, q)"
  shows "block_step a p b q"
proof -
  have "\<exists>x. arch_blocks x = arch_blocks a \<and> pop_row x p = (b, q) \<and> get_row x (last_row_location (bump_versions 1 a)) \<noteq> None"
    using assms unfolding compact_rows_def Let_def bind_eq_Some_conv
    by (auto split: if_splits simp: bind_eq_Some_conv case_prod_unfold)
      (rule exI, rule conjI [rotated], rule conjI, assumption, simp, simp)+
  then obtain x where x: "arch_blocks x = arch_blocks a" "pop_row x p = (b, q)" "chunks x \<noteq> []"
    by (force simp: get_row_def split: if_splits)
  show ?thesis using block_pop [OF x(2,3)] by (simp add: block_step_def x(1))
qed

section \<open>The World\<close>

lemma sum_list_replace:
  fixes xs :: "'a :: comm_monoid_add list"
  shows "i < length xs \<Longrightarrow> sum_list (xs[i := x]) + xs ! i = sum_list xs + x"
proof (induction xs arbitrary: i)
  case (Cons y xs)
  then show ?case by (cases i) (simp_all add: add.assoc add.left_commute [of y] add.commute [of x])
qed simp

lemma world_blocks_set:
  assumes "arch_at w i = Some a"
  shows "world_blocks (set_arch i b w) + arch_blocks a = world_blocks w + arch_blocks b"
  using assms sum_list_replace [of "unat i" "map arch_blocks (archetypes w)" "arch_blocks b"]
  by (simp add: arch_at_iff world_blocks_def set_arch_def map_update)

lemma blocks_step:
  assumes "arch_at w i = Some a" "block_step a (chunk_pool w) b q"
  shows "blocks_kept w ((set_arch i b w)\<lparr>chunk_pool := q\<rparr>)"
proof -
  define M where "M = world_blocks (set_arch i (a\<lparr>chunks := []\<rparr>) w)"
  have M: "world_blocks w = arch_blocks a + M"
    using world_blocks_set [OF assms(1), of "a\<lparr>chunks := []\<rparr>"] by (simp add: M_def arch_blocks_def add.commute)
  have "world_blocks (set_arch i b w) = arch_blocks b + M" using world_blocks_set [OF assms(1), of b] M by (simp add: add.commute)
  then have new: "world_blocks ((set_arch i b w)\<lparr>chunk_pool := q\<rparr>) = arch_blocks b + M" by (simp add: world_blocks_def)
  show ?thesis
    unfolding blocks_kept_def
  proof
    assume "blocks_ok w"
    then have "pool_inv (chunk_pool w)" "mset_set (pool_owned (chunk_pool w)) = arch_blocks a + M" using M by (simp_all add: blocks_ok_def)
    then have "pool_inv q" "mset_set (pool_owned q) = arch_blocks b + M" using assms(2) unfolding block_step_def by blast+
    then show "blocks_ok ((set_arch i b w)\<lparr>chunk_pool := q\<rparr>)" using new by (simp add: blocks_ok_def)
  qed
qed

lemma blocks_same:
  "archetypes w' = archetypes w \<Longrightarrow> chunk_pool w' = chunk_pool w \<Longrightarrow> blocks_kept w w'"
  by (simp add: blocks_kept_def blocks_ok_def world_blocks_def)

lemma blocks_new:
  assumes "find_or_create_archetype sig vts w = (i, w')"
  shows "blocks_kept w w'"
proof -
  have "world_blocks w' = world_blocks w \<and> chunk_pool w' = chunk_pool w"
    using assms by (auto simp: find_or_create_archetype_def world_blocks_def new_archetype_def arch_blocks_def Let_def split: option.splits)
  then show ?thesis by (simp add: blocks_kept_def blocks_ok_def)
qed

interpretation blocks: along_updates blocks_kept
proof
  show "blocks_kept w (set_arch i (set_row l r a) w)" if "arch_at w i = Some a" for w i l r and a :: "'v Archetype"
    using blocks_step [OF that block_step_same [OF blocks_set_row]] by (simp add: set_arch_def)
  show "blocks_kept u w" if "blocks_kept u v" "blocks_kept v w" for u v w :: "'v World" using that by (simp add: blocks_kept_def)
qed (auto simp: slots_only_def intro: blocks_same blocks_new blocks_step block_reserve block_compact)

text \<open>Aging works on the cache only.\<close>

lemma blocks_aging: "blocks_kept w (w\<lparr>chunk_pool := pool_advance_tick (chunk_pool w)\<rparr>)"
  using aging_pool.age_inv aging_pool.age_live by (simp add: blocks_kept_def blocks_ok_def world_blocks_def)

lemma blocks_empty: "blocks_ok empty_world"
  by (simp add: blocks_ok_def world_blocks_def pool_inv_def pool_owned_def cached_def empty_world_def empty_pool_def)

text \<open>Read for lists: every block is held once.\<close>

lemma blocks_listed:
  assumes "blocks_ok w"
  shows "distinct (concat (map (\<lambda>a. map chunk_block (chunks a)) (archetypes w)))
    \<and> set (concat (map (\<lambda>a. map chunk_block (chunks a)) (archetypes w))) = pool_owned (chunk_pool w)"
proof -
  let ?bs = "concat (map (\<lambda>a. map chunk_block (chunks a)) (archetypes w))"
  have "mset ?bs = world_blocks w" by (simp add: mset_concat world_blocks_def arch_blocks_def [abs_def] comp_def del: mset_map)
  then have m: "mset ?bs = mset_set (pool_owned (chunk_pool w))" using assms by (simp only: blocks_ok_def)
  have fin: "finite (pool_owned (chunk_pool w))" using assms by (simp add: blocks_ok_def owned_finite)
  have s: "set ?bs = pool_owned (chunk_pool w)" using arg_cong [OF m, of set_mset] fin by (simp del: set_concat)
  have "count (mset ?bs) x = (if x \<in> set ?bs then 1 else 0)" for x unfolding m s using fin by (simp add: count_mset_set')
  then have "distinct ?bs" by (subst distinct_count_atmost_1) blast
  then show ?thesis using s by blast
qed

end
