(* ===== verification/World_Queries.thy ===== *)
theory World_Queries
  imports World_Frames
begin

text \<open>
  Queries see exactly the matching entities: the filter by matcher hash loses no archetype, the cache
  answers as a fresh scan would, and an iteration visits every entity with the wanted components once.
\<close>

section \<open>The matcher hash\<close>

lemma matcher_bits:
  "bit (foldl (\<lambda>mask cid. mask OR push_bit (unat (cid mod 63)) 1) m (sig :: u64 list) :: u64) k \<longleftrightarrow>
     bit m k \<or> (\<exists>c \<in> set sig. k = unat (c mod 63))"
proof (induction sig arbitrary: m)
  case (Cons c sig)
  have "unat (c mod 63) < 63" by (simp add: unat_mod)
  then have "bit (m OR push_bit (unat (c mod 63)) 1) k \<longleftrightarrow> bit m k \<or> k = unat (c mod 63)"
    by (auto simp: bit_simps)
  then show ?case using Cons by auto
qed simp

lemma matcher_bit: "bit (compute_matcher_hash sig) k \<longleftrightarrow> (\<exists>c \<in> set sig. k = unat (c mod 63))"
  unfolding compute_matcher_hash_def matcher_bits by simp

lemma matcher_subset: "set ids \<subseteq> set sig \<Longrightarrow> compute_matcher_hash sig AND compute_matcher_hash ids = compute_matcher_hash ids"
  by (rule bit_word_eqI) (auto simp: bit_simps matcher_bit)

lemma matcher_shared: "c \<in> set ids \<Longrightarrow> c \<in> set sig \<Longrightarrow> compute_matcher_hash sig AND compute_matcher_hash ids \<noteq> 0"
proof
  assume c: "c \<in> set ids" "c \<in> set sig" and z: "compute_matcher_hash sig AND compute_matcher_hash ids = 0"
  have "bit (compute_matcher_hash sig AND compute_matcher_hash ids) (unat (c mod 63))"
    using c by (auto simp: bit_simps matcher_bit)
  then show False by (simp only: z bit_0_eq bot_fun_def) simp
qed

section \<open>The scan\<close>

definition selects :: "QueryCacheKey \<Rightarrow> component_type_id_t set \<Rightarrow> bool" where
  "selects key cs \<longleftrightarrow> set (require_ids key) \<subseteq> cs \<and> set (exclude_ids key) \<inter> cs = {}"

definition key_sorted :: "QueryCacheKey \<Rightarrow> bool" where
  "key_sorted key \<longleftrightarrow> sorted_wrt (<) (require_ids key) \<and> sorted_wrt (<) (exclude_ids key)"

definition scan_of :: "QueryCacheKey \<Rightarrow> 'v Archetype list \<Rightarrow> u32 list" where
  "scan_of key as = query_scan key (compute_matcher_hash (require_ids key)) (compute_matcher_hash (exclude_ids key)) as 0"

lemma strict_sorted_remdups_adj: "sorted xs \<Longrightarrow> sorted_wrt (<) (remdups_adj (xs :: u64 list))"
  by (induction xs rule: remdups_adj.induct) (auto simp: order_le_less)

lemma query_build_sorted [simp]: "key_sorted (query_build req exc)"
  by (simp add: key_sorted_def query_build_def strict_sorted_remdups_adj)

lemma query_build_selects: "selects (query_build req exc) cs \<longleftrightarrow> set req \<subseteq> cs \<and> set exc \<inter> cs = {}"
  by (simp add: selects_def query_build_def)

lemma query_takes_iff:
  assumes "key_sorted key" "sorted_wrt (<) (signature a)" "matcher_hash a = compute_matcher_hash (signature a)"
  shows "query_takes key (compute_matcher_hash (require_ids key)) (compute_matcher_hash (exclude_ids key)) a
    \<longleftrightarrow> selects key (set (signature a))"
proof -
  note m = matches_merge [of _ "signature a"]
  have r: "matches_all (require_ids key) (signature a) \<longleftrightarrow> set (require_ids key) \<subseteq> set (signature a)"
    and x: "matches_none (exclude_ids key) (signature a) \<longleftrightarrow> set (exclude_ids key) \<inter> set (signature a) = {}"
    using m assms by (simp_all add: key_sorted_def)
  show ?thesis
    using matcher_subset [of "require_ids key" "signature a"] matcher_shared [of _ "exclude_ids key" "signature a"]
    by (auto simp: query_takes_def selects_def r x assms(3))
qed

lemma query_scan_filter:
  "query_scan key req exc as n = map (\<lambda>i. of_nat (n + i)) (filter (\<lambda>i. query_takes key req exc (as ! i)) [0..<length as])"
proof (induction as arbitrary: n)
  case (Cons a as)
  have "[0..<length (a # as)] = 0 # map Suc [0..<length as]" by (simp add: upt_conv_Cons map_Suc_upt del: upt_Suc)
  then show ?case using Cons [of "Suc n"] by (simp add: filter_map comp_def del: upt_Suc)
qed simp

lemma query_scan_keys: "map arch_key as = map arch_key bs \<Longrightarrow> query_scan key req exc as n = query_scan key req exc bs n"
proof (induction as arbitrary: bs n)
  case (Cons a as)
  then obtain b bs' where b: "bs = b # bs'" "arch_key a = arch_key b" "map arch_key as = map arch_key bs'" by auto
  then have "query_takes key req exc a = query_takes key req exc b" by (simp add: query_takes_def arch_key_def)
  then show ?case using Cons.IH [OF b(3)] b(1) by simp
qed simp

lemma scan_selects:
  assumes "\<forall>a \<in> set as. arch_wf vt a" "key_sorted key"
  shows "scan_of key as = map of_nat (filter (\<lambda>i. selects key (set (signature (as ! i)))) [0..<length as])"
proof -
  have "query_takes key (compute_matcher_hash (require_ids key)) (compute_matcher_hash (exclude_ids key)) (as ! i)
      = selects key (set (signature (as ! i)))" if "i < length as" for i
    using that assms by (intro query_takes_iff) (auto simp: arch_wf_def)
  then show ?thesis unfolding scan_of_def query_scan_filter
    by (auto intro!: arg_cong [of _ _ "map word_of_nat"] filter_cong)
qed

section \<open>The cache\<close>

definition cache_ok :: "'v World \<Rightarrow> bool" where
  "cache_ok w \<longleftrightarrow> counted w \<and> (\<forall>key q. query_cache w key = Some q \<longrightarrow>
     (\<exists>n \<le> length (archetypes w). epoch q = of_nat n \<and> archetype_indices q = scan_of key (take n (archetypes w))))"

lemma scan_of_frame:
  assumes "arch_keys w' = arch_keys w @ ks" "n \<le> length (archetypes w)"
  shows "scan_of key (take n (archetypes w')) = scan_of key (take n (archetypes w))"
proof -
  have "map arch_key (take n (archetypes w')) = take n (arch_keys w')" by (simp add: arch_keys_def take_map)
  also have "\<dots> = take n (arch_keys w)" using assms by (simp add: arch_keys_def)
  finally have "map arch_key (take n (archetypes w')) = map arch_key (take n (archetypes w))"
    by (simp add: arch_keys_def take_map)
  then show ?thesis unfolding scan_of_def by (rule query_scan_keys)
qed

lemma cache_ok_frame:
  assumes "cache_ok w" "world_frame w w'" "length (archetypes w') < 2 ^ 32"
  shows "cache_ok w'"
proof -
  obtain ks where ks: "arch_keys w' = arch_keys w @ ks" using assms(2) by (auto simp: world_frame_def)
  have c: "counted w'" "query_cache w' = query_cache w" using assms by (auto simp: world_frame_def cache_ok_def)
  have "\<exists>n \<le> length (archetypes w'). epoch q = of_nat n \<and> archetype_indices q = scan_of key (take n (archetypes w'))"
    if "query_cache w' key = Some q" for key q
  proof -
    obtain n where n: "n \<le> length (archetypes w)" "epoch q = of_nat n" "archetype_indices q = scan_of key (take n (archetypes w))"
      using assms(1) c(2) \<open>query_cache w' key = Some q\<close> by (auto simp: cache_ok_def)
    then show ?thesis using scan_of_frame [OF ks n(1)] arch_keys_length [OF ks] by (metis order_trans)
  qed
  then show ?thesis using c by (simp add: cache_ok_def)
qed

lemma resolve_fresh:
  assumes "cache_ok w" "resolve_query_cache key w = (q, w')"
  shows "archetype_indices q = scan_of key (archetypes w)" "cache_ok w'" "archetypes w' = archetypes w"
proof -
  note c = assms(1) [unfolded cache_ok_def counted_def]
  have "archetype_indices q = scan_of key (archetypes w) \<and> cache_ok w' \<and> archetypes w' = archetypes w"
  proof (cases "\<exists>q. query_cache w key = Some q \<and> epoch q = archetype_epoch w")
    case True
    then have q: "query_cache w key = Some q" "epoch q = archetype_epoch w" "w' = w"
      using assms(2) by (auto simp: resolve_query_cache_def Let_def)
    then obtain n where n: "n \<le> length (archetypes w)" "epoch q = of_nat n"
      "archetype_indices q = scan_of key (take n (archetypes w))" using c by blast
    have "(of_nat n :: u32) = of_nat (length (archetypes w))" using n(2) q(2) c by simp
    then have "unat (of_nat n :: u32) = unat (of_nat (length (archetypes w)) :: u32)" by simp
    then have "n = length (archetypes w)" using n(1) c by (simp add: unsigned_of_nat take_bit_nat_eq_self)
    then show ?thesis using n(3) q(3) assms(1) by simp
  next
    case False
    then have q: "archetype_indices q = scan_of key (archetypes w)" "epoch q = archetype_epoch w"
      "w' = w\<lparr>query_cache := (query_cache w)(key := Some q)\<rparr>"
      using assms(2) by (auto simp: resolve_query_cache_def Let_def scan_of_def split: option.splits)
    have "cache_ok w'" using c q by (auto simp: cache_ok_def counted_def)
    then show ?thesis using q by simp
  qed
  then show "archetype_indices q = scan_of key (archetypes w)" "cache_ok w'" "archetypes w' = archetypes w" by blast+
qed

section \<open>Iteration\<close>

text \<open>The rows an iteration should see: the entities the key selects, with their components.\<close>

definition wanted :: "'v World \<Rightarrow> component_type_id_t list \<Rightarrow> QueryCacheKey \<Rightarrow> (EntityID option \<times> 'v option list) set" where
  "wanted w cs key = {(Some e, map (\<lambda>c. the (m c)) cs) | e m. entity_view w e = Some m \<and> selects key (dom m)}"

definition archetype_visit :: "component_type_id_t list \<Rightarrow> 'v Archetype \<Rightarrow> (EntityID option \<times> 'v option list) list" where
  "archetype_visit cs a = map (\<lambda>r. (row_entity r, map (\<lambda>c. row_cells r ! the (column_index_for a c)) cs)) (arch_rows a)"

lemma visit_archetype_rows:
  "set cs \<subseteq> set (signature a) \<Longrightarrow> visit_archetype a cs = Some (archetype_visit cs a)"
  by (auto simp: visit_archetype_def archetype_visit_def arch_rows_def list_all_iff arch_has_component_def
      column_index_none_iff map_concat comp_def)

lemma visit_matched_rows:
  assumes "length (archetypes w) < 2 ^ 32" "\<forall>i \<in> set is. i < length (archetypes w) \<and> set cs \<subseteq> set (signature (archetypes w ! i))"
  shows "visit_matched w cs (map of_nat is) = Some (concat (map (\<lambda>i. archetype_visit cs (archetypes w ! i)) is))"
  using assms
proof (induction "is")
  case (Cons i "is")
  then have "arch_at w (of_nat i) = Some (archetypes w ! i)"
    by (simp add: arch_at_iff unsigned_of_nat take_bit_nat_eq_self)
  then show ?case using Cons visit_archetype_rows [of cs "archetypes w ! i"] by simp
qed simp

lemma row_owner:
  assumes "world_inv vt w" "grid w i l = Some r"
  obtains e where "row_entity r = Some e" "location w e = Some (i, l)"
  using assms unfolding world_inv_iff inverse_maps_def by meson

lemma view_in_archetype:
  assumes "world_inv vt w" "i < length (archetypes w)" "r \<in> set (arch_rows (archetypes w ! i))"
  shows "\<exists>e l. row_entity r = Some e \<and> location w e = Some (i, l) \<and> get_row (archetypes w ! i) l = Some r
    \<and> entity_view w e = Some (row_view (signature (archetypes w ! i)) (row_cells r))
    \<and> length (row_cells r) = length (signature (archetypes w ! i))"
proof -
  define a where "a = archetypes w ! i"
  have wf: "arch_wf vt a" using assms by (auto simp: world_inv_iff archs_inv_def a_def)
  then have ok: "arch_ok a" by (simp add: arch_wf_def)
  obtain p where p: "p < length (arch_rows a)" "r = arch_rows a ! p" using assms(3) by (metis a_def in_set_conv_nth)
  then obtain l where l: "get_row a l = Some r" using rows_at_locations [OF ok p(1)] by auto
  then have g: "grid w i l = Some r" using assms(2) by (simp add: grid_at a_def)
  then obtain e where e: "row_entity r = Some e" "location w e = Some (i, l)"
    by (rule row_owner [OF assms(1)])
  moreover have "entity_view w e = Some (row_view (signature a) (row_cells r))"
    using e g by (simp add: entity_view_def row_view_def a_def)
  moreover have "length (row_cells r) = length (signature a)" using ok p by (simp add: arch_ok_def)
  ultimately show ?thesis using l by (auto simp: a_def)
qed

lemma entities_distinct:
  assumes "world_inv vt w" "distinct is" "\<forall>i \<in> set is. i < length (archetypes w)"
  shows "distinct (concat (map (\<lambda>i. map row_entity (arch_rows (archetypes w ! i))) is))"
  using assms(2,3)
proof (induction "is")
  case (Cons i "is")
  define a where "a = archetypes w ! i"
  have i: "i < length (archetypes w)" using Cons by simp
  note v = view_in_archetype [OF assms(1)]
  have ok: "arch_ok a" using assms(1) i by (auto simp: world_inv_iff archs_inv_def arch_wf_def a_def)
  have "distinct (map row_entity (arch_rows a))"
  proof (rule distinct_conv_nth [THEN iffD2], intro allI impI)
    fix p q
    assume pq: "p < length (map row_entity (arch_rows a))" "q < length (map row_entity (arch_rows a))" "p \<noteq> q"
    obtain l k where l: "get_row a l = Some (arch_rows a ! p)" "flat_pos a l = p"
        "get_row a k = Some (arch_rows a ! q)" "flat_pos a k = q"
      using rows_at_locations [OF ok] pq(1,2) by (metis length_map)
    have g: "grid w i l = Some (arch_rows a ! p)" "grid w i k = Some (arch_rows a ! q)"
      using l i by (simp_all add: grid_at a_def)
    show "map row_entity (arch_rows a) ! p \<noteq> map row_entity (arch_rows a) ! q"
    proof
      assume "map row_entity (arch_rows a) ! p = map row_entity (arch_rows a) ! q"
      then have same: "row_entity (arch_rows a ! p) = row_entity (arch_rows a ! q)" using pq by simp
      obtain e where e: "row_entity (arch_rows a ! p) = Some e" "location w e = Some (i, l)"
        by (rule row_owner [OF assms(1) g(1)])
      have "location w e = Some (i, k)"
        using inverse_maps_row [of "grid w" "location w", OF _ g(2)] same e(1) assms(1) by (simp add: world_inv_iff)
      then show False using e(2) l(2,4) pq(3) by simp
    qed
  qed
  moreover have "set (map row_entity (arch_rows a)) \<inter>
      set (concat (map (\<lambda>i. map row_entity (arch_rows (archetypes w ! i))) is)) = {}"
  proof (rule ccontr)
    assume "\<not> ?thesis"
    then obtain r j r' where r: "r \<in> set (arch_rows a)" "j \<in> set is" "r' \<in> set (arch_rows (archetypes w ! j))"
        "row_entity r = row_entity r'" by auto
    have j: "j < length (archetypes w)" "j \<noteq> i" using r(2) Cons.prems by auto
    show False using v [OF i r(1) [unfolded a_def]] v [OF j(1) r(3)] r(4) j(2) by auto
  qed
  ultimately show ?case using Cons by (simp add: a_def)
qed simp

lemma row_cell_at:
  assumes "length (row_cells r) = length (signature a)" "distinct (signature a)" "c \<in> set (signature a)"
  shows "row_cells r ! the (column_index_for a c) = the (row_view (signature a) (row_cells r) c)"
proof -
  obtain i where i: "i < length (signature a)" "signature a ! i = c" using assms(3) by (metis in_set_conv_nth)
  then have "column_index_for a c = Some i" using assms(2) column_index_iff by blast
  then show ?thesis using i zip_lookup [OF assms(2,1) i(1)] by (simp add: row_view_def)
qed

lemma for_each_rows:
  assumes inv: "world_inv vt w" and ok: "cache_ok w" and key: "key_sorted key" and cs: "set cs \<subseteq> set (require_ids key)"
  shows "\<exists>rows w'. for_each_with_entity cs key w = Some (rows, w') \<and> distinct (map fst rows) \<and> set rows = wanted w cs key"
proof -
  define sel where "sel = filter (\<lambda>i. selects key (set (signature (archetypes w ! i)))) [0..<length (archetypes w)]"
  obtain q w' where q: "resolve_query_cache key w = (q, w')" by fastforce
  have wf: "\<forall>a \<in> set (archetypes w). arch_wf vt a" using inv by (simp add: world_inv_iff archs_inv_def)
  note r = resolve_fresh [OF ok q]
  have ai: "archetype_indices q = map of_nat sel" using r(1) scan_selects [OF wf key] by (simp add: sel_def)
  have len: "length (archetypes w') < 2 ^ 32" using ok r(3) by (simp add: cache_ok_def counted_def)
  have sel: "i < length (archetypes w)" "selects key (set (signature (archetypes w ! i)))" if "i \<in> set sel" for i
    using that by (auto simp: sel_def)
  define rows where "rows = concat (map (\<lambda>i. archetype_visit cs (archetypes w ! i)) sel)"
  have "\<forall>i \<in> set sel. set cs \<subseteq> set (signature (archetypes w ! i))" using sel(2) cs by (auto simp: selects_def)
  then have "visit_matched w' cs (map of_nat sel) = Some rows"
    using visit_matched_rows [OF len, of sel cs] sel(1) by (simp add: r(3) rows_def)
  then have run: "for_each_with_entity cs key w = Some (rows, w')" by (simp add: for_each_with_entity_def q ai)
  have "map fst rows = concat (map (\<lambda>i. map row_entity (arch_rows (archetypes w ! i))) sel)"
    by (simp add: rows_def map_concat comp_def archetype_visit_def)
  moreover have "distinct sel" by (simp add: sel_def)
  ultimately have dist: "distinct (map fst rows)" using entities_distinct [OF inv, of sel] sel(1) by simp
  have dom: "dom (row_view sig cells) = set sig" if "length cells = length sig" for sig and cells :: "'a option list"
    using that by (rule row_view_dom)
  have "x \<in> wanted w cs key" if x: "x \<in> set rows" for x
  proof -
    obtain i r where i: "i \<in> set sel" "r \<in> set (arch_rows (archetypes w ! i))"
      "x = (row_entity r, map (\<lambda>c. row_cells r ! the (column_index_for (archetypes w ! i) c)) cs)"
      using x by (auto simp: rows_def archetype_visit_def)
    define a where "a = archetypes w ! i"
    obtain e where v: "row_entity r = Some e" "entity_view w e = Some (row_view (signature a) (row_cells r))"
        "length (row_cells r) = length (signature a)"
      using view_in_archetype [OF inv sel(1) [OF i(1)] i(2)] by (auto simp: a_def)
    have d: "distinct (signature a)" using wf sel(1) [OF i(1)] by (simp add: arch_wf_def strict_sorted_iff a_def)
    have "set cs \<subseteq> set (signature a)" using sel(2) [OF i(1)] cs by (auto simp: selects_def a_def)
    then have "x = (Some e, map (\<lambda>c. the (row_view (signature a) (row_cells r) c)) cs)"
      using i(3) [folded a_def] v(1) row_cell_at [OF v(3) d] by auto
    moreover have "selects key (dom (row_view (signature a) (row_cells r)))"
      using sel(2) [OF i(1)] dom [OF v(3)] by (simp add: a_def)
    ultimately show ?thesis using v(2) unfolding wanted_def by blast
  qed
  moreover have "x \<in> set rows" if x: "x \<in> wanted w cs key" for x
  proof -
    obtain e m where e: "entity_view w e = Some m" "selects key (dom m)" "x = (Some e, map (\<lambda>c. the (m c)) cs)"
      using x by (auto simp: wanted_def)
    obtain i l where l: "location w e = Some (i, l)" using e(1) by (auto simp: entity_view_def split: option.splits)
    then obtain r where r: "grid w i l = Some r" "row_entity r = Some e"
      using inverse_maps_at [of "grid w" "location w" e i l] inv by (auto simp: world_inv_iff)
    have i: "i < length (archetypes w)" "get_row (archetypes w ! i) l = Some r" using r(1) by (simp_all add: grid_def split: if_splits)
    have "arch_ok (archetypes w ! i)" and d: "distinct (signature (archetypes w ! i))"
      using wf i(1) by (simp_all add: arch_wf_def strict_sorted_iff)
    then have mem: "r \<in> set (arch_rows (archetypes w ! i))" using get_row_in i(2) by blast
    note v = view_in_archetype [OF inv i(1) mem]
    have m: "m = row_view (signature (archetypes w ! i)) (row_cells r)" and n: "length (row_cells r) = length (signature (archetypes w ! i))"
      using v r(2) e(1) by auto
    then have s: "i \<in> set sel" "set cs \<subseteq> set (signature (archetypes w ! i))"
      using e(2) dom [OF n] i(1) cs by (auto simp: sel_def selects_def)
    have "x = (row_entity r, map (\<lambda>c. row_cells r ! the (column_index_for (archetypes w ! i) c)) cs)"
      using e(3) r(2) m row_cell_at [OF n d] s(2) by auto
    then show ?thesis using s(1) mem unfolding rows_def archetype_visit_def by auto
  qed
  ultimately show ?thesis using run dist by blast
qed

end
