(* ===== verification/World_Properties.thy ===== *)
theory World_Properties
  imports World_Queries
begin

text \<open>
  The World as an abstract machine: every operation keeps the invariant and acts on the abstract map
  of \<open>World_Invariant\<close> as its name says.  The bounds are those of the 32-bit indices: fewer than
  \<open>2 ^ 32 - 1\<close> archetypes, and a slot to allocate.
\<close>

definition has_room :: "'v World \<Rightarrow> bool" where
  "has_room w \<longleftrightarrow> length (archetypes w) + 1 < 2 ^ 32 \<and> (has_free w \<or> length (entity_slots w) < 2 ^ 32)"

definition can_hold :: "vtables_of \<Rightarrow> component_type_id_t set \<Rightarrow> bool" where
  "can_hold vt cs \<longleftrightarrow> (\<exists>sig. distinct sig \<and> set sig = cs \<and> sig_fits vt sig)"

lemma can_hold_list: "can_hold vt (set sig) \<Longrightarrow> distinct sig \<Longrightarrow> sig_fits vt sig"
  unfolding can_hold_def using sig_fits_set by blast

lemma entity_view_cong:
  "location w' = location w \<Longrightarrow> archetypes w' = archetypes w \<Longrightarrow> entity_view w' = entity_view w"
proof -
  assume l: "location w' = location w" and a: "archetypes w' = archetypes w"
  show ?thesis unfolding entity_view_def by (simp only: l a grid_cong [OF a])
qed

lemma not_alive_no_view: "\<not> eid_is_alive w e \<Longrightarrow> entity_view w e = None"
  using entity_view_alive by force

lemma world_inv_empty: "world_inv vt empty_world"
proof -
  have "chain_ok (empty_world :: 'a World) []" by (simp add: chain_ok_def empty_world_def dead_slots_def)
  then have "\<exists>fs. chain_ok (empty_world :: 'a World) fs" ..
  then have "table_inv (empty_world :: 'a World)" by (simp add: table_inv_def empty_world_def)
  moreover have "location (empty_world :: 'a World) e = None" for e
    by (simp add: location_def eid_is_alive_def slot_at_def arr_get_def empty_world_def)
  moreover have "grid (empty_world :: 'a World) j k = None" for j k by (simp add: grid_def empty_world_def)
  ultimately show ?thesis
    by (simp add: world_inv_iff inverse_maps_def archs_inv_def index_ok_def) (simp add: empty_world_def)
qed

lemma drop_reserved_inv:
  assumes inv: "world_inv vt w"
  shows "world_inv vt (drop_reserved_slot e w) \<and> entity_view (drop_reserved_slot e w) = entity_view w"
proof (cases "drop_reserved_slot e w = w")
  case False
  then obtain s where s: "slot_at w (index e) = Some s" "alive s" "archetype_index s = INVALID_ARCHETYPE"
    and dr: "drop_reserved_slot e w = push_free (index e) w"
    by (auto simp: drop_reserved_slot_def split: option.splits if_splits)
  have lo: "location (push_free (index e) w) = location w"
  proof
    fix x
    have "index x = index e \<Longrightarrow> location w x = None" using s by (simp add: location_def eid_is_alive_def)
    then show "location (push_free (index e) w) x = location w x" using location_push_free [OF s(1)] by auto
  qed
  have "index e \<in> live_slots w" using s by (auto simp: live_slots_def slot_at_iff)
  then have "table_inv (push_free (index e) w)" using inv by (intro table_inv_push) (simp_all add: world_inv_iff)
  then show ?thesis using inv entity_view_cong [OF lo] by (simp add: dr world_inv_iff lo)
qed (use inv in simp)

lemma destroy_total:
  assumes inv: "world_inv vt w"
  shows "\<exists>w'. destroy_entity e w = Some w' \<and> world_inv vt w'
    \<and> entity_view w' = (if in_tick_or_log w then entity_view w else (entity_view w)(e := None))"
proof (cases "in_tick_or_log w")
  case True
  then show ?thesis using inv by (simp add: destroy_entity_def)
next
  case nt: False
  show ?thesis
  proof (cases "eid_is_alive w e")
    case True
    then show ?thesis using destroy_entity_spec [OF inv nt True] nt by simp
  next
    case dead: False
    have same: "(entity_view w)(e := None) = entity_view w" using not_alive_no_view [OF dead] by auto
    show ?thesis
    proof (cases "eid_is_deferred e \<or> slot_at w (index e) = None")
      case True
      then show ?thesis using nt inv same by (auto simp: destroy_entity_def)
    next
      case False
      then obtain s where s: "slot_at w (index e) = Some s" and nd: "\<not> eid_is_deferred e" by auto
      show ?thesis
      proof (cases "alive s \<and> slot_generation s = generation e")
        case False
        then show ?thesis using nt inv same s nd by (auto simp: destroy_entity_def)
      next
        case True
        then have r: "archetype_index s = INVALID_ARCHETYPE" using dead s nd by (simp add: eid_is_alive_def)
        have d: "destroy_entity e w = Some (drop_reserved_slot e w)" using nt s nd True r by (simp add: destroy_entity_def)
        then show ?thesis using drop_reserved_inv [OF inv] nt same by auto
      qed
    qed
  qed
qed

lemma reserve_total:
  assumes inv: "world_inv vt w" and room: "has_room w"
  shows "\<exists>e w'. reserve_entity_slot w = Some (e, w') \<and> world_inv vt w' \<and> entity_view w' = entity_view w
    \<and> entity_view w e = None \<and> restore_entity_precheck w' e"
proof -
  have t: "table_inv w" "has_free w \<or> length (entity_slots w) < 2 ^ 32" using inv room by (simp_all add: world_inv_iff has_room_def)
  obtain e w1 where al: "allocate_entity_slot w = Some (e, w1)" by (rule allocate_some [OF t])
  note u = unlocated_fresh [OF t al]
  note fr = allocate_frame [OF al]
  obtain s where s: "slot_at w1 (index e) = Some s" "alive s" "slot_generation s = generation e" using u(3) by blast
  define w' where "w' = set_slot (index e) (s\<lparr>archetype_index := INVALID_ARCHETYPE, chunk_index := 0, row := 0\<rparr>) w1"
  have r: "reserve_entity_slot w = Some (e, w')" using al s by (simp add: reserve_entity_slot_def w'_def)
  have b: "unat (index e) < length (entity_slots w1)" using s(1) by (simp add: slot_at_iff)
  have lo: "location w' = location w"
  proof
    fix x
    show "location w' x = location w x"
    proof (cases "index x = index e")
      case True
      have "slot_at w' (index x) = Some (s\<lparr>archetype_index := INVALID_ARCHETYPE, chunk_index := 0, row := 0\<rparr>)"
        using True b by (simp add: w'_def)
      then have "location w' x = None" by (simp add: location_def eid_is_alive_def)
      then show ?thesis using u(1) [OF True] by simp
    next
      case False
      then show ?thesis using u(2) b by (intro location_cong) (simp add: w'_def)
    qed
  qed
  have "table_inv w'" unfolding w'_def by (rule table_inv_place [OF u(4) s(1)]) (use s in simp_all)
  then have "world_inv vt w'" using inv lo fr by (simp add: world_inv_iff w'_def)
  moreover have "entity_view w' = entity_view w"
    by (rule entity_view_cong [OF lo]) (simp add: w'_def fr)
  moreover have "entity_view w e = None" using u(1) by (simp add: entity_view_def)
  moreover have "\<not> eid_is_deferred e" using u(5) by (simp add: eid_is_deferred_def deferred_iff generation_ok_def)
  then have "restore_entity_precheck w' e" using s b by (simp add: restore_entity_precheck_def w'_def)
  ultimately show ?thesis using r by blast
qed


lemma remove_refused:
  assumes inv: "world_inv vt w" and m: "entity_view w e = Some m" and ok: "\<not> in_tick_or_log w" "\<not> is_immutable w e"
    and no: "c \<notin> dom m \<or> dom m = {c}"
  shows "remove_component c e w = Some (False, w)"
proof -
  obtain s r where lc: "slot_at w (index e) = Some s" "arch_at w (archetype_index s) = Some (archetypes w ! unat (archetype_index s))"
    "location w e = Some (unat (archetype_index s), slot_loc s)" "unat (archetype_index s) < length (archetypes w)"
    "arch_wf vt (archetypes w ! unat (archetype_index s))"
    "get_row (archetypes w ! unat (archetype_index s)) (slot_loc s) = Some r" "row_entity r = Some e"
    "m = row_view (signature (archetypes w ! unat (archetype_index s))) (row_cells r)"
    "cells_live vt (signature (archetypes w ! unat (archetype_index s))) (row_cells r)" "eid_is_alive w e"
    by (rule located [OF inv m])
  define a where "a = archetypes w ! unat (archetype_index s)"
  note lc = lc [folded a_def]
  have dom: "dom m = set (signature a)" using lc(8) row_view_dom [OF cells_live_length [OF lc(9)]] by simp
  show ?thesis
  proof (cases "column_index_for a c")
    case None
    then show ?thesis using ok lc by (simp add: remove_component_def)
  next
    case (Some col)
    then have "set (signature a) = {c}" using no dom column_index_none_iff [of a c] by auto
    moreover have "distinct (signature a)" using lc(5) by (simp add: arch_wf_def strict_sorted_iff)
    ultimately have "length (signature a) = 1" using distinct_card [of "signature a"] by simp
    then show ?thesis using ok lc Some by (simp add: remove_component_def)
  qed
qed

lemma create_total:
  assumes "world_inv vt w" "has_room w" "distinct (map fst comps)" "can_hold vt (fst ` set comps)"
  shows "\<exists>e w'. create_entity_impl vt im comps w = Some (e, w') \<and> world_inv vt w'
    \<and> (if in_tick_or_log w then e = INVALID_ENTITY_ID \<and> w' = w
       else entity_view w e = None \<and> entity_view w' = (entity_view w)(e := Some (component_map vt comps))
         \<and> is_immutable w' e = im)"
proof (cases "in_tick_or_log w")
  case True
  then show ?thesis using assms(1) by (simp add: create_entity_impl_def)
next
  case False
  have "sig_fits vt (map fst comps)" using assms(3,4) can_hold_list [of vt "map fst comps"] by simp
  then show ?thesis
    using create_entity_spec [OF assms(1) False _ _ assms(3), of im] assms(2) False by (simp add: has_room_def)
qed


lemma add_total:
  assumes "world_inv vt w" "has_room w" "\<And>m. entity_view w e = Some m \<Longrightarrow> can_hold vt (insert c (dom m))"
  shows "\<exists>p w'. add_component vt c v e w = Some (p, w') \<and> world_inv vt w'
    \<and> (case entity_view w e of
         None \<Rightarrow> p = None \<and> w' = w
       | Some m \<Rightarrow>
           if in_tick_or_log w \<or> is_immutable w e then p = None \<and> w' = w
           else entity_view w' = (entity_view w)(e := Some (m(c := Some (if vt_size (vt c) = 0 then None else Some v))))
             \<and> (case p of None \<Rightarrow> vt_size (vt c) = 0 | Some pl \<Rightarrow> vt_size (vt c) \<noteq> 0 \<and> load_cell w' pl = Some v))"
proof (cases "entity_view w e")
  case None
  then have "\<not> eid_is_alive w e" using alive_has_view [OF assms(1)] by blast
  then show ?thesis using None assms(1) by (simp add: add_component_def)
next
  case (Some m)
  show ?thesis
  proof (cases "in_tick_or_log w \<or> is_immutable w e")
    case True
    then have "add_component vt c v e w = Some (None, w)" using Some entity_view_alive [of w e] by (auto simp: add_component_def)
    then show ?thesis using Some True assms(1) by simp
  next
    case False
    obtain sig where "distinct sig" "set sig = insert c (dom m)" "sig_fits vt sig"
      using assms(3) [OF Some] by (auto simp: can_hold_def)
    then show ?thesis
      using add_component_spec [OF assms(1) _ Some, of sig c v] False assms(2) Some by (simp add: has_room_def)
  qed
qed


lemma remove_total:
  assumes "world_inv vt w" "has_room w"
  shows "\<exists>b w'. remove_component c e w = Some (b, w') \<and> world_inv vt w'
    \<and> b = (case entity_view w e of None \<Rightarrow> False
        | Some m \<Rightarrow> \<not> in_tick_or_log w \<and> \<not> is_immutable w e \<and> c \<in> dom m \<and> dom m \<noteq> {c})
    \<and> entity_view w' = (if b then (entity_view w)(e := Some ((the (entity_view w e))(c := None))) else entity_view w)"
proof (cases "entity_view w e")
  case None
  then have "\<not> eid_is_alive w e" using alive_has_view [OF assms(1)] by blast
  then show ?thesis using None assms(1) by (intro exI [of _ False] exI [of _ w]) (simp add: remove_component_def)
next
  case (Some m)
  show ?thesis
  proof (cases "in_tick_or_log w \<or> is_immutable w e")
    case True
    then have "remove_component c e w = Some (False, w)"
      using Some entity_view_alive [of w e] by (auto simp: remove_component_def)
    then show ?thesis using Some True assms(1) by auto
  next
    case False
    show ?thesis
    proof (cases "c \<in> dom m \<and> dom m \<noteq> {c}")
      case True
      have nt: "\<not> in_tick_or_log w" and ni: "\<not> is_immutable w e" using False by simp_all
      obtain w' where "remove_component c e w = Some (True, w')" "world_inv vt w'"
          "entity_view w' = (entity_view w)(e := Some (m(c := None)))"
        using remove_component_spec [OF assms(1) nt Some ni] True assms(2) by (auto simp: has_room_def)
      then show ?thesis using Some True False by (intro exI [of _ True] exI [of _ w']) simp
    next
      case refused: False
      have "remove_component c e w = Some (False, w)" by (rule remove_refused [OF assms(1) Some]) (use False refused in auto)
      then show ?thesis using Some refused assms(1) by auto
    qed
  qed
qed


section \<open>The operations refine updates of the abstract map\<close>

text \<open>C17: Creating an entity never faults, returns an identifier that named nothing, and makes it name
  exactly the given components; inside a tick it changes nothing and returns the invalid identifier.\<close>

theorem create_entity_refines:
  assumes "world_inv vt w" "has_room w" "distinct (map fst comps)" "can_hold vt (fst ` set comps)"
  shows "\<exists>e w'. create_entity_impl vt im comps w = Some (e, w') \<and> world_inv vt w'
    \<and> (if in_tick_or_log w then e = INVALID_ENTITY_ID \<and> w' = w
       else entity_view w e = None \<and> entity_view w' = (entity_view w)(e := Some (component_map vt comps))
         \<and> is_immutable w' e = im)"
  using assms by (rule create_total)

text \<open>C18: Destroying removes the entity's components and nothing else, on every branch: a live entity, a
  reserved one, a stale or deferred identifier; it never touches a dead cell.\<close>

theorem destroy_entity_refines:
  assumes "world_inv vt w"
  shows "\<exists>w'. destroy_entity e w = Some w' \<and> world_inv vt w'
    \<and> entity_view w' = (if in_tick_or_log w then entity_view w else (entity_view w)(e := None))"
  using assms by (rule destroy_total)

text \<open>C19: Adding a component sets exactly that component of a live, mutable entity, whether it was there
  before or the entity migrates, and returns a pointer to the stored value; every refusal leaves the
  world as it is.\<close>

theorem add_component_refines:
  assumes "world_inv vt w" "has_room w" "\<And>m. entity_view w e = Some m \<Longrightarrow> can_hold vt (insert c (dom m))"
  shows "\<exists>p w'. add_component vt c v e w = Some (p, w') \<and> world_inv vt w'
    \<and> (case entity_view w e of
         None \<Rightarrow> p = None \<and> w' = w
       | Some m \<Rightarrow>
           if in_tick_or_log w \<or> is_immutable w e then p = None \<and> w' = w
           else entity_view w' = (entity_view w)(e := Some (m(c := Some (if vt_size (vt c) = 0 then None else Some v))))
             \<and> (case p of None \<Rightarrow> vt_size (vt c) = 0 | Some pl \<Rightarrow> vt_size (vt c) \<noteq> 0 \<and> load_cell w' pl = Some v))"
  using assms by (rule add_total)

text \<open>C20: Removing a component drops exactly that component; it refuses, changing nothing, inside a tick, for
  a dead or immutable entity, for a component that is not there and for the last one.\<close>

theorem remove_component_refines:
  assumes "world_inv vt w" "has_room w"
  shows "\<exists>b w'. remove_component c e w = Some (b, w') \<and> world_inv vt w'
    \<and> b = (case entity_view w e of None \<Rightarrow> False
        | Some m \<Rightarrow> \<not> in_tick_or_log w \<and> \<not> is_immutable w e \<and> c \<in> dom m \<and> dom m \<noteq> {c})
    \<and> entity_view w' = (if b then (entity_view w)(e := Some ((the (entity_view w e))(c := None))) else entity_view w)"
  using assms by (rule remove_total)

text \<open>Reading follows the abstract map: the stored value, the null pointer for a dead entity, a missing
  component or a tag, and never a dangling cell.\<close>

theorem get_component_refines:
  assumes "world_inv vt w"
  shows "read_component vt c w e =
      Some (case entity_view w e of None \<Rightarrow> None | Some m \<Rightarrow> (case m c of None \<Rightarrow> None | Some x \<Rightarrow> x))
    \<and> has_component c w e = Some (case entity_view w e of None \<Rightarrow> False | Some m \<Rightarrow> m c \<noteq> None)"
  using read_component_spec [OF assms] by blast

lemma world_inv_frame:
  assumes "world_inv vt w" "entity_slots w' = entity_slots w" "first_free w' = first_free w" "has_free w' = has_free w"
    "archetypes w' = archetypes w" "archetype_by_signature w' = archetype_by_signature w"
  shows "world_inv vt w'"
proof -
  have sl: "slot_at w' i = slot_at w i" for i using assms(2) by (simp add: slot_at_def)
  have al: "eid_is_alive w' e = eid_is_alive w e" for e using sl by (simp add: eid_is_alive_def)
  have lo: "location w' = location w" by (rule ext) (rule location_cong; simp add: sl)
  have "table_inv w'" using assms by (simp add: world_inv_iff table_inv_def chain_ok_def dead_slots_def)
  then show ?thesis using assms lo grid_cong [OF assms(5)] by (simp add: world_inv_iff archs_inv_def index_ok_def)
qed

section \<open>A concrete world\<close>

definition demo_vt :: vtables_of where
  "demo_vt c = \<lparr>vt_size = 4, vt_align = 4\<rparr>"

lemma demo_fits: "can_hold demo_vt {7}" "can_hold demo_vt {7, 9}" "can_hold demo_vt {9, 7}"
proof -
  have f: "sig_fits demo_vt [7]" "sig_fits demo_vt [7, 9]"
    by (simp_all add: sig_fits_def alignments_ok_def demo_vt_def CHUNK_BLOCK_BYTES_def SIZEOF_ENTITY_ID_def)
      (use power_0 power2_eq_square [of "2 :: nat"] in \<open>auto intro: exI [of _ "2 :: nat"]\<close>)
  show "can_hold demo_vt {7}" unfolding can_hold_def using f(1) by (intro exI [of _ "[7]"]) simp
  show "can_hold demo_vt {7, 9}" unfolding can_hold_def using f(2) by (intro exI [of _ "[7, 9]"]) simp
  then show "can_hold demo_vt {9, 7}" by (simp add: insert_commute)
qed

lemma demo_room: "has_room empty_world" "\<not> in_tick_or_log empty_world"
  by (simp_all add: has_room_def empty_world_def in_tick_or_log_def)

lemma create_growth:
  assumes "create_entity_impl vt im comps w = Some (e, w')" "\<not> in_tick_or_log w"
  shows "length (archetypes w') \<le> Suc (length (archetypes w))" "length (entity_slots w') \<le> Suc (length (entity_slots w))"
proof -
  obtain sig vts ai w1 eid w2 l w3 w4 where o: "find_or_create_archetype sig vts w = (ai, w1)"
    "allocate_entity_slot w1 = Some (eid, w2)" "insert_into eid ai (\<lambda>a. place_cells vt a comps) w2 = Some (l, w3)"
    "place_slot eid ai l w3 = Some w4" "stamp_immutable eid im w4 = Some w'"
    by (rule create_steps [OF assms])
  have 1: "length (archetypes w1) \<le> Suc (length (archetypes w))" "entity_slots w1 = entity_slots w"
    using o(1) by (auto simp: find_or_create_archetype_def Let_def split: option.splits)
  have 2: "archetypes w2 = archetypes w1" "length (entity_slots w2) \<le> Suc (length (entity_slots w1))"
    using o(2) by (auto simp: allocate_entity_slot_def set_slot_def Let_def bind_eq_Some_conv split: if_splits)
  have 3: "length (archetypes w3) = length (archetypes w2)" "entity_slots w3 = entity_slots w2"
    using o(3) unfolding insert_into_def by (auto simp: set_arch_def case_prod_unfold Let_def elim!: bind_SomeE)
  have 4: "archetypes w' = archetypes w3" "length (entity_slots w') = length (entity_slots w3)"
    using o(4,5) by (auto simp: place_slot_def stamp_immutable_def set_slot_def bind_eq_Some_conv)
  show "length (archetypes w') \<le> Suc (length (archetypes w))" "length (entity_slots w') \<le> Suc (length (entity_slots w))"
    using 1 2 3 4 by simp_all
qed

text \<open>One entity in an empty world.\<close>

lemma demo_created_with:
  assumes "distinct (map fst comps)" "can_hold demo_vt (fst ` set comps)"
  obtains e w where "create_entity_impl demo_vt False comps (empty_world :: int World) = Some (e, w)"
    "world_inv demo_vt w" "entity_view w = [e \<mapsto> component_map demo_vt comps]" "\<not> in_tick_or_log w" "\<not> is_immutable w e"
    "has_room w"
proof -
  obtain e w where c: "create_entity_impl demo_vt False comps (empty_world :: int World) = Some (e, w)" "world_inv demo_vt w"
      "entity_view w = (entity_view empty_world)(e := Some (component_map demo_vt comps))" "\<not> is_immutable w e"
    using create_total [OF world_inv_empty demo_room(1) assms, of False] by (auto simp: demo_room(2))
  have "entity_view (empty_world :: int World) x = None" for x
    by (simp add: entity_view_def location_def eid_is_alive_def slot_at_def arr_get_def empty_world_def)
  then have "entity_view (empty_world :: int World) = Map.empty" by blast
  then have v: "entity_view w = [e \<mapsto> component_map demo_vt comps]" using c(3) by simp
  have "world_frame empty_world w" by (rule frame_create [OF c(1)])
  then have nt: "\<not> in_tick_or_log w" by (simp add: world_frame_def in_tick_or_log_def empty_world_def)
  have "has_room w" using create_growth [OF c(1) demo_room(2)] by (simp add: has_room_def empty_world_def)
  then show thesis using that c v nt by blast
qed

lemma demo_created:
  obtains e w where "create_entity_impl demo_vt False [(7, 5 :: int)] empty_world = Some (e, w)"
    "world_inv demo_vt w" "entity_view w = [e \<mapsto> [7 \<mapsto> Some 5]]" "\<not> in_tick_or_log w" "\<not> is_immutable w e" "has_room w"
proof -
  have m: "component_map demo_vt [(7, 5 :: int)] = [7 \<mapsto> Some 5]" by (auto simp: component_map_def demo_vt_def fun_eq_iff)
  show thesis by (rule demo_created_with [of "[(7, 5)]"]) (use demo_fits(1) that in \<open>simp_all add: m\<close>)
qed

theorem create_entity_refines_witness:
  "\<exists>e w. create_entity_impl demo_vt False [(7, 5 :: int)] empty_world = Some (e, w) \<and> world_inv demo_vt w
     \<and> entity_view w e = Some (component_map demo_vt [(7, 5)])"
  using create_entity_refines [OF world_inv_empty demo_room(1), of "[(7, 5 :: int)]" demo_vt False] demo_fits(1)
  by (auto simp: demo_room(2))

theorem destroy_entity_refines_witness:
  "\<exists>e w w'. create_entity_impl demo_vt False [(7, 5 :: int)] empty_world = Some (e, w)
     \<and> entity_view w e = Some [7 \<mapsto> Some 5] \<and> destroy_entity e w = Some w' \<and> entity_view w' = Map.empty"
proof -
  obtain e w where d: "create_entity_impl demo_vt False [(7, 5 :: int)] empty_world = Some (e, w)"
    "world_inv demo_vt w" "entity_view w = [e \<mapsto> [7 \<mapsto> Some 5]]" "\<not> in_tick_or_log w" by (rule demo_created)
  then show ?thesis using destroy_entity_refines [OF d(2), of e] by auto
qed

theorem add_component_refines_witness:
  "\<exists>e w p w'. create_entity_impl demo_vt False [(7, 5 :: int)] empty_world = Some (e, w)
     \<and> add_component demo_vt 9 4 e w = Some (Some p, w') \<and> load_cell w' p = Some 4
     \<and> entity_view w' = [e \<mapsto> [7 \<mapsto> Some 5, 9 \<mapsto> Some 4]]"
proof -
  obtain e w where d: "create_entity_impl demo_vt False [(7, 5 :: int)] empty_world = Some (e, w)"
    "world_inv demo_vt w" "entity_view w = [e \<mapsto> [7 \<mapsto> Some 5]]" "\<not> in_tick_or_log w" "\<not> is_immutable w e" "has_room w"
    by (rule demo_created)
  have h: "can_hold demo_vt (insert 9 (dom m))" if "entity_view w e = Some m" for m using that d(3) demo_fits(3) by auto
  show ?thesis using add_component_refines [OF d(2,6) h, of e 4] d(1,3-5) by (auto simp: demo_vt_def split: option.splits)
qed

theorem remove_component_refines_witness:
  "\<exists>e w w'. create_entity_impl demo_vt False [(9, 4), (7, 5 :: int)] empty_world = Some (e, w)
     \<and> remove_component 9 e w = Some (True, w') \<and> entity_view w' = [e \<mapsto> [7 \<mapsto> Some 5]]"
proof -
  have m: "component_map demo_vt [(9, 4), (7, 5 :: int)] = [7 \<mapsto> Some 5, 9 \<mapsto> Some 4]" by (auto simp: component_map_def demo_vt_def fun_eq_iff)
  obtain e w where d: "create_entity_impl demo_vt False [(9, 4), (7, 5 :: int)] empty_world = Some (e, w)"
    "world_inv demo_vt w" "entity_view w = [e \<mapsto> [7 \<mapsto> Some 5, 9 \<mapsto> Some 4]]" "\<not> in_tick_or_log w" "\<not> is_immutable w e" "has_room w"
    by (rule demo_created_with [of "[(9, 4), (7, 5)]"]) (use demo_fits(3) in \<open>simp_all add: m\<close>)
  have "dom [7 :: component_type_id_t \<mapsto> Some 5, 9 \<mapsto> Some (4 :: int)] \<noteq> {9}" "[7 :: component_type_id_t \<mapsto> Some 5, 9 \<mapsto> Some (4 :: int)](9 := None) = [7 \<mapsto> Some 5]"
    by (auto simp: fun_eq_iff)
  then show ?thesis using remove_component_refines [OF d(2,6), of 9 e] d(1,3-5) by auto
qed

theorem get_component_refines_witness:
  "\<exists>e w. create_entity_impl demo_vt False [(7, 5 :: int)] empty_world = Some (e, w)
     \<and> read_component demo_vt 7 w e = Some (Some 5) \<and> has_component 9 w e = Some False"
proof -
  obtain e w where d: "create_entity_impl demo_vt False [(7, 5 :: int)] empty_world = Some (e, w)"
    "world_inv demo_vt w" "entity_view w = [e \<mapsto> [7 \<mapsto> Some 5]]" by (rule demo_created)
  then show ?thesis using get_component_refines [OF d(2), of 7 e] get_component_refines [OF d(2), of 9 e] by auto
qed

end
