(* ===== verification/Bulk_Creation.thy ===== *)
theory Bulk_Creation
  imports World_Frames
begin

text \<open>
  Bulk creation of \<open>src/openvic-simulation/ecs/World.hpp\<close> and \<open>ecs/World.cpp\<close>: \<open>count\<close> entities of one
  signature, whose rows are reserved in ranges and whose cells are constructed column by column.

  A component pack is the list of its component types; \<open>spans\<close> are the input spans, one per component
  with data in pack order, or \<^const>\<open>None\<close> to default-construct, \<open>dflt\<close> being the default value of
  every type.  A column block is the list of its staged values, empty for a tag.  The nested loops
  over the ranges and their rows run over the row locations in order.
\<close>

section \<open>Checks and spans\<close>

fun spans_have_size :: "nat \<Rightarrow> nat list \<Rightarrow> bool" where
  "spans_have_size n [] = True"
| "spans_have_size n (s # ss) = (if s \<noteq> n then False else spans_have_size n ss)"

definition bulk_create_sizes_ok :: "nat \<Rightarrow> nat \<Rightarrow> nat list \<Rightarrow> bool" where
  "bulk_create_sizes_ok n out_ids_size span_sizes =
     (if out_ids_size \<noteq> n then False else spans_have_size n span_sizes)"

text \<open>The position in the span list of every component of the pack; \<^const>\<open>None\<close> for a tag.\<close>

fun span_index_loop :: "vtables_of \<Rightarrow> component_type_id_t list \<Rightarrow> nat \<Rightarrow> nat option list" where
  "span_index_loop vt [] nxt = []"
| "span_index_loop vt (c # cs) nxt =
     (if vt_size (vt c) = 0 then None # span_index_loop vt cs nxt else Some nxt # span_index_loop vt cs (nxt + 1))"

definition bulk_span_index_map :: "vtables_of \<Rightarrow> component_type_id_t list \<Rightarrow> nat option list" where
  "bulk_span_index_map vt ids = span_index_loop vt ids 0"

text \<open>The values of one component of the pack: its span, or that many defaults.\<close>

definition column_values ::
    "(component_type_id_t \<Rightarrow> 'v) \<Rightarrow> 'v list list option \<Rightarrow> nat \<Rightarrow> component_type_id_t \<Rightarrow> nat \<Rightarrow> 'v list option" where
  "column_values dflt spans n c pos =
     (case spans of None \<Rightarrow> Some (replicate n (dflt c)) | Some ss \<Rightarrow> arr_get ss (int pos))"

section \<open>Rows of a batch\<close>

text \<open>A column of the batch: one construction per row.\<close>

fun fill_column :: "nat \<Rightarrow> RowLocation list \<Rightarrow> 'v list \<Rightarrow> 'v Archetype \<Rightarrow> 'v Archetype option" where
  "fill_column col [] vs a = Some a"
| "fill_column col (l # ls) [] a = None"
| "fill_column col (l # ls) (v # vs) a = do {
     a \<leftarrow> with_cells l (construct_cell col v) a;
     fill_column col ls vs a }"

fun fill_columns :: "nat \<Rightarrow> ColumnVTable list \<Rightarrow> 'v list list \<Rightarrow> RowLocation list \<Rightarrow> 'v Archetype \<Rightarrow> 'v Archetype option" where
  "fill_columns col [] [] ls a = Some a"
| "fill_columns col (vt # vts) (b # bs) ls a =
     (if vt_size vt = 0 \<or> b = [] then fill_columns (Suc col) vts bs ls a
      else do { a \<leftarrow> fill_column col ls b a; fill_columns (Suc col) vts bs ls a })"
| "fill_columns col _ _ ls a = None"

section \<open>Finalising reserved slots\<close>

definition slot_reserved :: "'a slot_table_scheme \<Rightarrow> EntityID \<Rightarrow> bool" where
  "slot_reserved w e \<longleftrightarrow>
     (case slot_at w (index e) of
        None \<Rightarrow> False
      | Some slot \<Rightarrow> alive slot \<and> slot_generation slot = generation e \<and> archetype_index slot = INVALID_ARCHETYPE)"

definition element_slots :: "ColumnVTable list \<Rightarrow> 'v list list \<Rightarrow> nat \<Rightarrow> 'v option list" where
  "element_slots vts blocks i = map2 (\<lambda>vt b. if vt_size vt = 0 \<or> b = [] then None else arr_get b (int i)) vts blocks"

fun finalize_each :: "component_type_id_t list \<Rightarrow> ColumnVTable list \<Rightarrow> 'v list list \<Rightarrow> EntityID list \<Rightarrow> nat \<Rightarrow>
    'v World \<Rightarrow> 'v World option" where
  "finalize_each sig vts blocks [] i w = Some w"
| "finalize_each sig vts blocks (e # es) i w = do {
     w \<leftarrow> (if slot_reserved w e then finalize_reserved_entity e sig vts (element_slots vts blocks i) w else Some w);
     finalize_each sig vts blocks es (Suc i) w }"

fun place_reserved :: "u32 \<Rightarrow> (EntityID \<times> RowLocation) list \<Rightarrow> 'v World \<Rightarrow> 'v World option" where
  "place_reserved ai [] w = Some w"
| "place_reserved ai ((e, l) # els) w = do {
     a \<leftarrow> arch_at w ai;
     a \<leftarrow> write_entity l e a;
     w \<leftarrow> place_slot e ai l (set_arch ai a w);
     place_reserved ai els w }"

definition finalize_reserved_entities_bulk :: "EntityID list \<Rightarrow> component_type_id_t list \<Rightarrow> ColumnVTable list \<Rightarrow>
    'v list list \<Rightarrow> 'v World \<Rightarrow> 'v World option" where
  "finalize_reserved_entities_bulk ids sig vts blocks w =
     (if ids = [] then Some w
      else if \<not> list_all (slot_reserved w) ids then finalize_each sig vts blocks ids 0 w
      else do {
        let (ai, w) = find_or_create_archetype sig vts w;
        a \<leftarrow> arch_at w ai;
        (ranges, a, p) \<leftarrow> reserve_rows (length ids) a (chunk_pool w);
        let ls = concat (map range_locations ranges);
        w \<leftarrow> place_reserved ai (zip ids ls) ((set_arch ai a w)\<lparr>chunk_pool := p\<rparr>);
        a \<leftarrow> arch_at w ai;
        a \<leftarrow> fill_columns 0 vts blocks ls a;
        Some (set_arch ai a w) })"

section \<open>Creating a batch\<close>

fun place_created :: "bool \<Rightarrow> u32 \<Rightarrow> RowLocation list \<Rightarrow> 'v World \<Rightarrow> (EntityID list \<times> 'v World) option" where
  "place_created immut ai [] w = Some ([], w)"
| "place_created immut ai (l # ls) w = do {
     (e, w) \<leftarrow> allocate_entity_slot w;
     a \<leftarrow> arch_at w ai;
     a \<leftarrow> write_entity l e a;
     w \<leftarrow> place_slot e ai l (set_arch ai a w);
     w \<leftarrow> stamp_immutable e immut w;
     (es, w) \<leftarrow> place_created immut ai ls w;
     Some (e # es, w) }"

fun construct_columns :: "(component_type_id_t \<Rightarrow> 'v) \<Rightarrow> 'v list list option \<Rightarrow> nat \<Rightarrow> RowLocation list \<Rightarrow>
    (component_type_id_t \<times> nat option) list \<Rightarrow> 'v Archetype \<Rightarrow> 'v Archetype option" where
  "construct_columns dflt spans n ls [] a = Some a"
| "construct_columns dflt spans n ls ((c, None) # cs) a = construct_columns dflt spans n ls cs a"
| "construct_columns dflt spans n ls ((c, Some pos) # cs) a = do {
     col \<leftarrow> column_index_for a c;
     vs \<leftarrow> column_values dflt spans n c pos;
     a \<leftarrow> fill_column col ls vs a;
     construct_columns dflt spans n ls cs a }"

text \<open>The result: success, the contents of \<open>out_ids\<close>, the world.\<close>

definition create_entities_impl :: "vtables_of \<Rightarrow> (component_type_id_t \<Rightarrow> 'v) \<Rightarrow> bool \<Rightarrow> component_type_id_t list \<Rightarrow>
    'v list list option \<Rightarrow> nat \<Rightarrow> EntityID list \<Rightarrow> 'v World \<Rightarrow> (bool \<times> EntityID list \<times> 'v World) option" where
  "create_entities_impl vt dflt immut ids spans n out_ids w =
     (if in_tick_or_log w then Some (False, replicate (length out_ids) INVALID_ENTITY_ID, w)
      else if \<not> bulk_create_sizes_ok n (length out_ids) (case spans of None \<Rightarrow> [] | Some ss \<Rightarrow> map length ss)
      then Some (False, out_ids, w)
      else if n = 0 then Some (True, out_ids, w)
      else do {
        let sorted = exchange_sort (map (\<lambda>c. (c, vt c)) ids);
        let (ai, w) = find_or_create_archetype (map fst sorted) (map snd sorted) w;
        a \<leftarrow> arch_at w ai;
        (ranges, a, p) \<leftarrow> reserve_rows n a (chunk_pool w);
        let ls = concat (map range_locations ranges);
        (es, w) \<leftarrow> place_created immut ai ls ((set_arch ai a w)\<lparr>chunk_pool := p\<rparr>);
        a \<leftarrow> arch_at w ai;
        a \<leftarrow> construct_columns dflt spans n ls (zip ids (bulk_span_index_map vt ids)) a;
        Some (True, es, set_arch ai a w) })"

end
