(* ===== verification/Bulk_Rows.thy ===== *)
theory Bulk_Rows
  imports Bulk_Creation
begin

text \<open>
  The rows of an archetype under bulk reservation: reserving and filling commute, so reserving all rows
  first and filling them column by column leaves what reserving and filling one by one does.
\<close>

section \<open>Reserving and filling commute\<close>

lemma set_row_last:
  assumes "chunks a = cs @ [c]" "loc_chunk k \<le> length cs"
  shows "chunks (set_row k r a) = (if loc_chunk k = length cs then cs @ [c\<lparr>chunk_rows := (chunk_rows c)[loc_row k := r]\<rparr>]
    else cs[loc_chunk k := (cs ! loc_chunk k)\<lparr>chunk_rows := (chunk_rows (cs ! loc_chunk k))[loc_row k := r]\<rparr>] @ [c])"
  using assms by (simp add: set_row_def list_update_append nth_append)

lemma set_row_fields [simp]:
  "chunk_capacity (set_row k r a) = chunk_capacity a" "signature (set_row k r a) = signature a"
  "vtables (set_row k r a) = vtables a" "column_offsets (set_row k r a) = column_offsets a"
  "total_entity_count (set_row k r a) = total_entity_count a" "raw_row (set_row k r a) = raw_row a"
  "matcher_hash (set_row k r a) = matcher_hash a" "length (chunks (set_row k r a)) = length (chunks a)"
  by (simp_all add: set_row_def raw_row_def)

lemma needs_chunk_set_row:
  assumes "get_row a k \<noteq> None"
  shows "needs_chunk (set_row k r a) = needs_chunk a"
proof (cases "chunks a" rule: rev_cases)
  case Nil
  then show ?thesis using assms by (simp add: get_row_def)
next
  case (snoc cs c)
  then have "loc_chunk k \<le> length cs" using assms by (auto simp: get_row_def split: if_splits)
  note u = set_row_last [OF snoc this, of r]
  show ?thesis by (cases "loc_chunk k = length cs") (simp_all add: needs_chunk_def u snoc chunk_count_def)
qed


lemma get_row_chunk: "get_row a k \<noteq> None \<Longrightarrow> loc_chunk k < length (chunks a) \<and> loc_row k < length (chunk_rows (chunks a ! loc_chunk k))"
  by (auto simp: get_row_def chunk_count_def split: if_splits)

lemma allocate_set_row:
  assumes "get_row a k \<noteq> None"
  shows "allocate_chunk (set_row k r a) p = (set_row k r (fst (allocate_chunk a p)), snd (allocate_chunk a p))"
  using get_row_chunk [OF assms]
  by (simp add: allocate_chunk_def set_row_def case_prod_unfold Let_def list_update_append nth_append)

lemma add_raw_set_row:
  assumes "get_row a k \<noteq> None"
  shows "add_raw_rows n (set_row k r a) = set_row k r (add_raw_rows n a)"
proof (cases "chunks a" rule: rev_cases)
  case Nil
  then show ?thesis using get_row_chunk [OF assms] by simp
next
  case (snoc cs c)
  have k: "loc_chunk k \<le> length cs" "loc_chunk k = length cs \<Longrightarrow> loc_row k < length (chunk_rows c)"
    using get_row_chunk [OF assms] snoc by (auto simp: nth_append split: if_splits)
  have r: "raw_row (set_row k r a) = raw_row a" by simp
  show ?thesis
    using k unfolding add_raw_rows_def r
    by (simp add: set_row_def snoc list_update_append nth_append butlast_append)
qed

lemma reserve_set_row:
  assumes k: "get_row a k \<noteq> None" and r: "reserve_row a p = (l, b, q)"
  shows "reserve_row (set_row k x a) p = (l, set_row k x b, q)"
proof -
  define w where "w = (if needs_chunk a then allocate_chunk a p else (a, p))"
  have kw: "get_row (fst w) k \<noteq> None"
    using k get_row_chunk [OF k] by (auto simp: w_def allocate_chunk_def get_row_def case_prod_unfold Let_def nth_append split: if_splits)
  have w': "(if needs_chunk (set_row k x a) then allocate_chunk (set_row k x a) p else (set_row k x a, p))
      = (set_row k x (fst w), snd w)"
    using allocate_set_row [OF k, of x p] needs_chunk_set_row [OF k, of x] by (simp add: w_def)
  have cnt: "chunk_count (chunks (set_row k x (fst w)) ! j) = chunk_count (chunks (fst w) ! j)" for j
    using get_row_chunk [OF kw] by (cases "j = loc_chunk k") (simp_all add: set_row_def chunk_count_def)
  have "bump_versions 1 ((set_row k x u)\<lparr>total_entity_count := t\<rparr>) = set_row k x (bump_versions 1 (u\<lparr>total_entity_count := t\<rparr>))" for u t
    by (simp add: bump_versions_def set_row_def)
  then show ?thesis
    using r unfolding reserve_row_unfold w' w_def [symmetric] Let_def
    by (simp add: cnt add_raw_set_row [OF kw])
qed

lemma reserve_many_set_row:
  assumes "get_row a k \<noteq> None" "arch_ok a" "reserve_many n a p = (ls, b, q)" 
  shows "reserve_many n (set_row k x a) p = (ls, set_row k x b, q)"
  using assms
proof (induction n arbitrary: a p ls)
  case (Suc n)
  obtain l a1 p1 where r: "reserve_row a p = (l, a1, p1)" by (metis prod_cases3)
  obtain ks where m: "reserve_many n a1 p1 = (ks, b, q)" "ls = l # ks"
    using Suc.prems(3) r by (auto simp: Let_def split: prod.splits)
  have g: "get_row a1 k \<noteq> None" using reserve_row_get(1) [OF Suc.prems(2) r, of k] Suc.prems(1) by auto
  show ?case using Suc.IH [OF g reserve_row_spec(1) [OF Suc.prems(2) r] m(1)] reserve_set_row [OF Suc.prems(1) r] m(2) by simp
qed simp

text \<open>One row after the other, filled at once.\<close>

fun put_rows :: "'v Row list \<Rightarrow> 'v Archetype \<Rightarrow> ChunkPool \<Rightarrow> RowLocation list \<times> 'v Archetype \<times> ChunkPool" where
  "put_rows [] a p = ([], a, p)"
| "put_rows (r # rs) a p =
     (let (l, a, p) = reserve_row a p; (ls, a, p) = put_rows rs (set_row l r a) p in (l # ls, a, p))"

fun set_rows :: "(RowLocation \<times> 'v Row) list \<Rightarrow> 'v Archetype \<Rightarrow> 'v Archetype" where
  "set_rows [] a = a"
| "set_rows ((l, r) # lrs) a = set_rows lrs (set_row l r a)"

lemma reserve_many_ok:
  assumes "arch_ok a" "reserve_many n a p = (ls, b, q)"
  shows "arch_ok b" "same_shape b a" "length ls = n" "distinct ls" "\<And>l. l \<in> set ls \<Longrightarrow> get_row a l = None \<and> get_row b l = Some (raw_row a)"
    "\<And>k. k \<notin> set ls \<Longrightarrow> get_row b k = get_row a k"
proof -
  have "arch_ok b \<and> same_shape b a \<and> length ls = n \<and> distinct ls \<and> (\<forall>l \<in> set ls. get_row a l = None \<and> get_row b l = Some (raw_row a))
     \<and> (\<forall>k. k \<notin> set ls \<longrightarrow> get_row b k = get_row a k)"
    using assms
  proof (induction n arbitrary: a p ls)
    case 0
    then show ?case by (simp add: same_shape_def)
  next
    case (Suc n)
    obtain l a1 p1 where r: "reserve_row a p = (l, a1, p1)" by (metis prod_cases3)
    obtain ks where m: "reserve_many n a1 p1 = (ks, b, q)" "ls = l # ks"
      using Suc.prems(2) r by (auto simp: Let_def split: prod.splits)
    note s = reserve_row_spec [OF Suc.prems(1) r] and g = reserve_row_get [OF Suc.prems(1) r]
    have raw: "raw_row a1 = raw_row a" using same_shape_flat [OF s(3)] by simp
    have ih: "arch_ok b" "same_shape b a1" "length ks = n" "distinct ks"
      "\<forall>x \<in> set ks. get_row a1 x = None \<and> get_row b x = Some (raw_row a)" "\<forall>k. k \<notin> set ks \<longrightarrow> get_row b k = get_row a1 k"
      using Suc.IH [OF s(1) m(1)] by (auto simp: raw)
    have l: "l \<notin> set ks" using ih(5) g(2) s(5) by auto
    have "same_shape b a" using ih(2) s(3) by (rule same_shape_trans)
    moreover have "\<forall>x \<in> set ls. get_row a x = None \<and> get_row b x = Some (raw_row a)"
      using ih(5,6) g l by (auto simp: m(2) split: if_splits)
    moreover have "\<forall>k. k \<notin> set ls \<longrightarrow> get_row b k = get_row a k" using ih(6) g(1) by (simp add: m(2))
    ultimately show ?case using ih l by (simp add: m(2))
  qed
  then show "arch_ok b" "same_shape b a" "length ls = n" "distinct ls" "\<And>l. l \<in> set ls \<Longrightarrow> get_row a l = None \<and> get_row b l = Some (raw_row a)"
    "\<And>k. k \<notin> set ls \<Longrightarrow> get_row b k = get_row a k" by blast+
qed

lemma put_rows_many:
  assumes "arch_ok a" "\<forall>r \<in> set rs. length (row_cells r) = length (signature a)" "reserve_many (length rs) a p = (ls, b, q)"
  shows "put_rows rs a p = (ls, set_rows (zip ls rs) b, q)"
  using assms
proof (induction rs arbitrary: a p ls b)
  case (Cons r rs)
  obtain l a1 p1 where rr: "reserve_row a p = (l, a1, p1)" by (metis prod_cases3)
  obtain ks where m: "reserve_many (length rs) a1 p1 = (ks, b, q)" "ls = l # ks"
    using Cons.prems(3) rr by (auto simp: Let_def split: prod.splits)
  note s = reserve_row_spec [OF Cons.prems(1) rr]
  have sg: "signature a1 = signature a" using s(3) by (simp add: same_shape_def)
  have ok: "arch_ok (set_row l r a1)" by (rule set_row_ok [OF s(1,5)]) (use Cons.prems(2) sg in simp)
  have "reserve_many (length rs) (set_row l r a1) p1 = (ks, set_row l r b, q)"
    by (rule reserve_many_set_row [OF _ s(1) m(1)]) (simp add: s(5))
  then have "put_rows rs (set_row l r a1) p1 = (ks, set_rows (zip ks rs) (set_row l r b), q)"
    using Cons.IH [OF ok] Cons.prems(2) sg by simp
  then show ?case by (simp add: rr m(2))
qed simp


section \<open>Updating rows in place\<close>

lemma set_row_commute:
  assumes "k \<noteq> l"
  shows "set_row k x (set_row l y a) = set_row l y (set_row k x a)"
proof (cases "loc_chunk k = loc_chunk l \<and> loc_chunk k < length (chunks a)")
  case True
  then have "loc_row k \<noteq> loc_row l" using assms by auto
  then show ?thesis using True by (simp add: set_row_def list_update_swap)
next
  case False
  then show ?thesis
    by (cases "loc_chunk k = loc_chunk l") (simp_all add: set_row_def list_update_beyond list_update_swap)
qed

lemma set_rows_commute:
  "l \<notin> fst ` set lrs \<Longrightarrow> set_row l x (set_rows lrs a) = set_rows lrs (set_row l x a)"
proof (induction lrs arbitrary: a)
  case (Cons lr lrs)
  then show ?case by (cases lr) (simp add: set_row_commute)
qed simp

lemma set_rows_shape: "signature (set_rows lrs a) = signature a \<and> column_offsets (set_rows lrs a) = column_offsets a"
proof (induction lrs arbitrary: a)
  case (Cons lr lrs)
  then show ?case by (cases lr) simp
qed simp

lemmas set_rows_fields [simp] = set_rows_shape [THEN conjunct1] set_rows_shape [THEN conjunct2]

lemma set_rows_versions: "set_rows lrs (a\<lparr>column_versions := v\<rparr>) = set_rows lrs a\<lparr>column_versions := v\<rparr>"
proof (induction lrs arbitrary: a)
  case (Cons lr lrs)
  obtain l r where "lr = (l, r)" by fastforce
  moreover have "set_row l r (a\<lparr>column_versions := v\<rparr>) = set_row l r a\<lparr>column_versions := v\<rparr>" by (simp add: set_row_def)
  ultimately show ?case using Cons by simp
qed simp

lemma get_set_rows:
  assumes "\<And>k r. (k, r) \<in> set lrs \<Longrightarrow> get_row a k \<noteq> None" "l \<notin> fst ` set lrs"
  shows "get_row (set_rows lrs a) l = get_row a l"
  using assms
proof (induction lrs arbitrary: a rule: list.induct)
  case (Cons kr lrs)
  obtain k r where kr: "kr = (k, r)" by fastforce
  obtain x where x: "get_row a k = Some x" using Cons.prems(1) kr by fastforce
  have "get_row (set_row k r a) m \<noteq> None" if "get_row a m \<noteq> None" for m using get_set_row [OF x, of r m] that by simp
  then have "get_row (set_row k r a) m \<noteq> None" if "(m, y) \<in> set lrs" for m y using Cons.prems(1) that by fastforce
  then have "get_row (set_rows lrs (set_row k r a)) l = get_row (set_row k r a) l"
    using Cons.IH [of "set_row k r a"] Cons.prems(2) by auto
  then show ?case using Cons.prems(2) get_set_row [OF x, of r l] by (auto simp: kr)
qed simp

text \<open>A loop that updates one row after the other.\<close>

fun update_rows :: "(RowLocation \<times> ('v Row \<Rightarrow> 'v Row option)) list \<Rightarrow> 'v Archetype \<Rightarrow> 'v Archetype option" where
  "update_rows [] a = Some a"
| "update_rows ((l, f) # lfs) a = do {
     r \<leftarrow> get_row a l;
     r \<leftarrow> f r;
     update_rows lfs (set_row l r a) }"

lemma update_rows_set:
  assumes "distinct ls" "\<forall>l \<in> set ls. get_row a l \<noteq> None" "length rs = length ls" "list_all2 (\<lambda>(f, r) r'. f r = Some r') (zip fs rs) rs'"
    "length fs = length ls"
  shows "update_rows (zip ls fs) (set_rows (zip ls rs) a) = Some (set_rows (zip ls rs') a)"
  using assms
proof (induction ls arbitrary: rs fs rs' a)
  case (Cons l ls)
  obtain r rs2 where rs: "rs = r # rs2" using Cons.prems(3) by (cases rs) auto
  obtain f fs2 where fs: "fs = f # fs2" using Cons.prems(5) by (cases fs) auto
  obtain r' rs3 where rs': "rs' = r' # rs3" "f r = Some r'" "list_all2 (\<lambda>(f, r) r'. f r = Some r') (zip fs2 rs2) rs3"
    using Cons.prems(4) by (auto simp: rs fs list_all2_Cons1)
  obtain y where y: "get_row a l = Some y" using Cons.prems(2) by auto
  note gs = get_set_row [OF y]
  have l: "l \<notin> fst ` set (zip ls rs2)" using Cons.prems(1) by (auto dest: set_zip_leftD)
  have "get_row (set_rows (zip ls rs2) (set_row l r a)) l = Some r"
    using l Cons.prems(2) gs [of r] by (subst get_set_rows) (auto dest!: set_zip_leftD)
  moreover have "set_row l r' (set_rows (zip ls rs2) (set_row l r a)) = set_rows (zip ls rs2) (set_row l r' a)"
    by (simp add: set_rows_commute [OF l])
  moreover have "update_rows (zip ls fs2) (set_rows (zip ls rs2) (set_row l r' a)) = Some (set_rows (zip ls rs3) (set_row l r' a))"
    by (rule Cons.IH) (use Cons.prems rs'(3) gs [of r'] in \<open>auto simp: rs fs\<close>)
  ultimately show ?case by (simp add: rs fs rs'(1,2))
qed simp

section \<open>Columns\<close>

lemma fill_column_update:
  "length vs = length ls \<Longrightarrow> fill_column col ls vs a =
     update_rows (zip ls (map (\<lambda>v r. map_option (\<lambda>cs. r\<lparr>row_cells := cs\<rparr>) (construct_cell col v (row_cells r))) vs)) a"
proof (induction vs arbitrary: ls a)
  case (Cons v vs)
  obtain l ls' where ls: "ls = l # ls'" "length vs = length ls'" using Cons.prems by (cases ls) auto
  show ?case
    by (cases "get_row a l") (simp_all add: ls Cons.IH with_cells_def Option.bind_map_option comp_def)
qed simp

text \<open>The rows of the batch: entity and cells.\<close>

definition batch_rows :: "EntityID list \<Rightarrow> 'v option list list \<Rightarrow> 'v Row list" where
  "batch_rows es css = map2 (\<lambda>e cs. \<lparr>row_entity = Some e, row_cells = cs\<rparr>) es css"

definition block_ok :: "nat \<Rightarrow> ColumnVTable \<Rightarrow> 'v list \<Rightarrow> bool" where
  "block_ok n vt b \<longleftrightarrow> (if vt_size vt = 0 then b = [] else length b = n)"

lemma fill_columns_rows:
  assumes "list_all2 (block_ok (length ls)) vts blocks" "distinct ls" "\<forall>l \<in> set ls. get_row a l \<noteq> None" "ls \<noteq> []"
    "length es = length ls" "length pre = length ls" "\<forall>cs \<in> set pre. length cs = col"
  shows "fill_columns col vts blocks ls (set_rows (zip ls (batch_rows es (map (\<lambda>cs. cs @ replicate (length vts) None) pre))) a)
    = Some (set_rows (zip ls (batch_rows es (map (\<lambda>i. pre ! i @ element_slots vts blocks i) [0..<length ls]))) a)"
  using assms(1,6,7)
proof (induction vts blocks arbitrary: col pre rule: list_all2_induct)
  case Nil
  then have "map (\<lambda>cs. cs @ replicate (length ([] :: ColumnVTable list)) None) pre = map (\<lambda>i. pre ! i @ element_slots [] [] i) [0..<length ls]"
    by (intro nth_equalityI) (simp_all add: element_slots_def)
  then show ?case by (simp only: fill_columns.simps)
next
  case (Cons vt vts b blocks)
  define new where "new = (\<lambda>i. if vt_size vt = 0 then None else Some (b ! i))"
  define pre' where "pre' = map (\<lambda>i. pre ! i @ [new i]) [0..<length ls]"
  have el: "pre' ! i @ element_slots vts blocks i = pre ! i @ element_slots (vt # vts) (b # blocks) i" if "i < length ls" for i
  proof -
    have "new i = (if vt_size vt = 0 \<or> b = [] then None else arr_get b (int i))"
      using Cons(1) that assms(4) by (auto simp: new_def block_ok_def arr_get_def split: if_splits)
    then show ?thesis using that by (simp add: pre'_def element_slots_def)
  qed
  then have res: "map (\<lambda>i. pre' ! i @ element_slots vts blocks i) [0..<length ls] =
      map (\<lambda>i. pre ! i @ element_slots (vt # vts) (b # blocks) i) [0..<length ls]" by simp
  have ih: "fill_columns (Suc col) vts blocks ls (set_rows (zip ls (batch_rows es (map (\<lambda>cs. cs @ replicate (length vts) None) pre'))) a)
    = Some (set_rows (zip ls (batch_rows es (map (\<lambda>i. pre ! i @ element_slots (vt # vts) (b # blocks) i) [0..<length ls]))) a)"
    unfolding res [symmetric] by (rule Cons.IH) (use Cons.prems in \<open>auto simp: pre'_def\<close>)
  show ?case
  proof (cases "vt_size vt = 0")
    case True
    have "map (\<lambda>cs. cs @ replicate (length (vt # vts)) None) pre = map (\<lambda>cs. cs @ replicate (length vts) None) pre'"
      using Cons.prems(1) True by (intro nth_equalityI) (simp_all add: pre'_def new_def)
    then show ?thesis using ih True by simp
  next
    case False
    have b: "length b = length ls" "b \<noteq> []" using Cons(1) False assms(4) by (auto simp: block_ok_def)
    have step: "fill_column col ls b (set_rows (zip ls (batch_rows es (map (\<lambda>cs. cs @ replicate (length (vt # vts)) None) pre))) a)
      = Some (set_rows (zip ls (batch_rows es (map (\<lambda>cs. cs @ replicate (length vts) None) pre'))) a)"
      unfolding fill_column_update [OF b(1)]
    proof (rule update_rows_set [OF assms(2,3)])
      show "list_all2 (\<lambda>(f, r) r'. f r = Some r')
         (zip (map (\<lambda>v r. map_option (\<lambda>cs. r\<lparr>row_cells := cs\<rparr>) (construct_cell col v (row_cells r))) b)
           (batch_rows es (map (\<lambda>cs. cs @ replicate (length (vt # vts)) None) pre)))
         (batch_rows es (map (\<lambda>cs. cs @ replicate (length vts) None) pre'))"
        unfolding list_all2_conv_all_nth
      proof (intro conjI allI impI)
        fix i
        assume "i < length (zip (map (\<lambda>v r. map_option (\<lambda>cs. r\<lparr>row_cells := cs\<rparr>) (construct_cell col v (row_cells r))) b)
           (batch_rows es (map (\<lambda>cs. cs @ replicate (length (vt # vts)) None) pre)))"
        then have i: "i < length ls" using b(1) by simp
        have "length (pre ! i) = col" using Cons.prems i by simp
        then have "construct_cell col (b ! i) (pre ! i @ replicate (length (vt # vts)) None) = Some (pre' ! i @ replicate (length vts) None)"
          using i False by (simp add: construct_cell_def pre'_def new_def nth_append list_update_append)
        then show "(\<lambda>(f, r) r'. f r = Some r') (zip (map (\<lambda>v r. map_option (\<lambda>cs. r\<lparr>row_cells := cs\<rparr>) (construct_cell col v (row_cells r))) b)
           (batch_rows es (map (\<lambda>cs. cs @ replicate (length (vt # vts)) None) pre)) ! i)
          (batch_rows es (map (\<lambda>cs. cs @ replicate (length vts) None) pre') ! i)"
          using i b(1) assms(5) Cons.prems(1) by (simp add: batch_rows_def) (simp add: pre'_def)
      qed (use b(1) assms(5) Cons.prems(1) in \<open>simp add: batch_rows_def pre'_def\<close>)
    qed (use b(1) assms(5) Cons.prems(1) in \<open>simp_all add: batch_rows_def\<close>)
    then show ?thesis using ih False b(2) by simp
  qed
qed

end
