(* ===== verification/Bulk_Worlds.thy ===== *)
theory Bulk_Worlds
  imports Bulk_Rows
begin

text \<open>
  Finalising a batch of reserved slots against finalising them one after the other: the two worlds
  agree on everything but the version counters, which the batch bumps once per range.
\<close>

section \<open>Slots\<close>

fun slots_placed :: "u32 \<Rightarrow> (EntityID \<times> RowLocation) list \<Rightarrow> EntitySlot list \<Rightarrow> EntitySlot list" where
  "slots_placed ai [] ss = ss"
| "slots_placed ai ((e, l) # els) ss = slots_placed ai els (ss[unat (index e) := (ss ! unat (index e))
     \<lparr>archetype_index := ai, chunk_index := of_nat (loc_chunk l), row := of_nat (loc_row l)\<rparr>])"

lemma place_slot_eq:
  "unat (index e) < length (entity_slots w) \<Longrightarrow>
     place_slot e ai l w = Some (w\<lparr>entity_slots := slots_placed ai [(e, l)] (entity_slots w)\<rparr>)"
  by (simp add: place_slot_def slot_at_def arr_get_uint set_slot_def)

lemma update_rows_entities:
  "update_rows ((l, \<lambda>r. Some (r\<lparr>row_entity := Some e\<rparr>)) # lfs) a = Option.bind (write_entity l e a) (update_rows lfs)"
  by (cases "get_row a l") (simp_all add: write_entity_def)

lemma place_reserved_eq:
  assumes "unat ai < length (archetypes w)" "length ls = length es"
    "update_rows (zip ls (map (\<lambda>e r. Some (r\<lparr>row_entity := Some e\<rparr>)) es)) (archetypes w ! unat ai) = Some b"
    "\<forall>e \<in> set es. unat (index e) < length (entity_slots w)"
  shows "place_reserved ai (zip es ls) w = Some (w\<lparr>archetypes := (archetypes w)[unat ai := b],
     entity_slots := slots_placed ai (zip es ls) (entity_slots w)\<rparr>)"
  using assms
proof (induction es arbitrary: ls w)
  case Nil
  then have "(archetypes w)[unat ai := b] = archetypes w" by auto
  then show ?case by simp
next
  case (Cons e es)
  obtain l ks where ls: "ls = l # ks" using Cons.prems(2) by (cases ls) auto
  obtain a where a: "write_entity l e (archetypes w ! unat ai) = Some a"
    "update_rows (zip ks (map (\<lambda>e r. Some (r\<lparr>row_entity := Some e\<rparr>)) es)) a = Some b"
    using Cons.prems(3) unfolding ls list.map zip_Cons_Cons update_rows_entities by (auto simp: bind_eq_Some_conv)
  define w1 where "w1 = (set_arch ai a w)\<lparr>entity_slots := slots_placed ai [(e, l)] (entity_slots w)\<rparr>"
  have e: "unat (index e) < length (entity_slots (set_arch ai a w))" using Cons.prems(4) by (simp add: set_arch_def)
  have st: "place_slot e ai l (set_arch ai a w) = Some w1"
    using place_slot_eq [OF e, of ai l] by (simp add: w1_def) (simp add: set_arch_def)
  have "place_reserved ai (zip es ks) w1 = Some (w1\<lparr>archetypes := (archetypes w1)[unat ai := b],
     entity_slots := slots_placed ai (zip es ks) (entity_slots w1)\<rparr>)"
    by (rule Cons.IH) (use Cons.prems a(2) in \<open>simp_all add: w1_def set_arch_def ls\<close>)
  moreover have "arch_at w ai = Some (archetypes w ! unat ai)" using Cons.prems(1) by (simp add: arch_at_iff)
  ultimately show ?case using a(1) st by (simp add: ls) (simp add: w1_def set_arch_def)
qed

section \<open>The loop of single creations\<close>

lemma insert_reserved:
  assumes "unat ai < length (archetypes w)" "arch_ok (archetypes w ! unat ai)"
    "reserve_row (archetypes w ! unat ai) (chunk_pool w) = (l, b, q)"
    "f b (replicate (length (signature (archetypes w ! unat ai))) None) = Some cs"
    "\<And>x. f (set_row l x b) = f b"
  shows "insert_into e ai f w =
    Some (l, (set_arch ai (set_row l \<lparr>row_entity = Some e, row_cells = cs\<rparr> b) w)\<lparr>chunk_pool := q\<rparr>)"
proof -
  have g: "get_row b l = Some (raw_row (archetypes w ! unat ai))" by (rule reserve_row_spec(5) [OF assms(2,3)])
  have "write_entity l e b = Some (set_row l ((raw_row (archetypes w ! unat ai))\<lparr>row_entity := Some e\<rparr>) b)"
    using g by (simp add: write_entity_def)
  moreover have "with_cells l (f b) (set_row l ((raw_row (archetypes w ! unat ai))\<lparr>row_entity := Some e\<rparr>) b) =
      Some (set_row l \<lparr>row_entity = Some e, row_cells = cs\<rparr> b)"
    using assms(4) by (simp add: with_cells_def get_set_row [OF g] raw_row_def)
  ultimately show ?thesis
    using assms(1,3,5) by (simp add: insert_into_def arch_at_iff [THEN iffD2])
qed

lemma slot_reserved_bound: "slot_reserved w e \<Longrightarrow> unat (index e) < length (entity_slots w)"
  by (auto simp: slot_reserved_def slot_at_iff split: option.splits)

lemma slot_reserved_placed:
  assumes "entity_slots w' = slots_placed ai [(e, l)] (entity_slots w)" "index d \<noteq> index e"
  shows "slot_reserved w' d = slot_reserved w d"
proof -
  have "slot_at w' (index d) = slot_at w (index d)"
    using assms by (simp add: slot_at_def arr_get_uint nth_list_update)
  then show ?thesis by (simp add: slot_reserved_def)
qed

lemma finalize_each_eq:
  assumes "archetype_by_signature w sig = Some ai" "unat ai < length (archetypes w)" "arch_ok (archetypes w ! unat ai)"
    "signature (archetypes w ! unat ai) = sig"
    "\<forall>k < i + length es. fill_cells vts (element_slots vts blocks k) (replicate (length sig) None) = Some (element_slots vts blocks k)"
    "distinct (map index es)" "list_all (slot_reserved w) es"
    "\<forall>k < i + length es. length (element_slots vts blocks k) = length sig"
    "put_rows (batch_rows es (map (element_slots vts blocks) [i..<i + length es])) (archetypes w ! unat ai) (chunk_pool w) = (ls, b, q)"
  shows "finalize_each sig vts blocks es i w = Some (w\<lparr>archetypes := (archetypes w)[unat ai := b], chunk_pool := q,
     entity_slots := slots_placed ai (zip es ls) (entity_slots w)\<rparr>)"
  using assms
proof (induction es arbitrary: i w ls)
  case Nil
  then have "(archetypes w)[unat ai := b] = archetypes w" "chunk_pool w = q" "ls = []" by (auto simp: batch_rows_def)
  then show ?case by simp
next
  case (Cons e es)
  define cs where "cs = element_slots vts blocks i"
  define r where "r = \<lparr>row_entity = Some e, row_cells = cs\<rparr>"
  define rs where "rs = batch_rows es (map (element_slots vts blocks) [Suc i..<Suc i + length es])"
  obtain l a1 p1 where rr: "reserve_row (archetypes w ! unat ai) (chunk_pool w) = (l, a1, p1)" by (metis prod_cases3)
  have split: "batch_rows (e # es) (map (element_slots vts blocks) [i..<i + length (e # es)]) = r # rs"
    by (simp add: batch_rows_def r_def rs_def cs_def upt_conv_Cons del: upt_Suc)
  obtain ks where m: "put_rows rs (set_row l r a1) p1 = (ks, b, q)" "ls = l # ks"
    using Cons.prems(9) unfolding split by (auto simp: rr Let_def split: prod.splits)
  note s = reserve_row_spec [OF Cons.prems(3) rr]
  have sg: "signature a1 = sig" using s(3) Cons.prems(4) by (simp add: same_shape_def)
  have res: "slot_reserved w e" using Cons.prems(7) by simp
  then have bd: "unat (index e) < length (entity_slots w)" by (rule slot_reserved_bound)
  define w1 where "w1 = w\<lparr>archetypes := (archetypes w)[unat ai := set_row l r a1], chunk_pool := p1,
     entity_slots := slots_placed ai [(e, l)] (entity_slots w)\<rparr>"
  have ins: "insert_into e ai (\<lambda>_. fill_cells vts cs) w = Some (l, (set_arch ai (set_row l r a1) w)\<lparr>chunk_pool := p1\<rparr>)"
    unfolding r_def by (rule insert_reserved [OF Cons.prems(2,3) rr]) (use Cons.prems(4,5) cs_def in simp_all)
  have "finalize_reserved_entity e sig vts cs w = Some w1"
    using res bd Cons.prems(1) ins place_slot_eq [of e "(set_arch ai (set_row l r a1) w)\<lparr>chunk_pool := p1\<rparr>" ai l]
    by (auto simp: finalize_reserved_entity_def find_or_create_archetype_def slot_reserved_def w1_def set_arch_def split: option.splits)
  then have step: "finalize_each sig vts blocks (e # es) i w = finalize_each sig vts blocks es (Suc i) w1"
    using res by (simp add: cs_def)
  have "finalize_each sig vts blocks es (Suc i) w1 = Some (w1\<lparr>archetypes := (archetypes w1)[unat ai := b], chunk_pool := q,
     entity_slots := slots_placed ai (zip es ks) (entity_slots w1)\<rparr>)"
  proof (rule Cons.IH)
    show "list_all (slot_reserved w1) es"
    proof (unfold list_all_iff, rule)
      fix d
      assume d: "d \<in> set es"
      then have "index d \<noteq> index e" using Cons.prems(6) by simp (metis image_eqI)
      then have "slot_reserved w1 d = slot_reserved w d" by (intro slot_reserved_placed) (simp_all add: w1_def)
      then show "slot_reserved w1 d" using Cons.prems(7) d by (simp add: list_all_iff)
    qed
    have "arch_ok (set_row l r a1)"
      by (rule set_row_ok [OF s(1,5)]) (use Cons.prems(8) sg in \<open>simp add: r_def cs_def\<close>)
    then show "arch_ok (archetypes w1 ! unat ai)" using Cons.prems(2) by (simp add: w1_def)
  qed (use Cons.prems sg m(1) in \<open>simp_all add: w1_def rs_def\<close>)
  then show ?case unfolding step by (simp add: w1_def m(2))
qed


section \<open>Bulk and loop agree\<close>

text \<open>Worlds that differ at most in the version counters of their columns.\<close>

definition forget_arch :: "'v Archetype \<Rightarrow> 'v Archetype" where
  "forget_arch a = a\<lparr>column_versions := map (\<lambda>_. 0) (column_versions a)\<rparr>"

definition forget_versions :: "'v World \<Rightarrow> 'v World" where
  "forget_versions w = w\<lparr>archetypes := map forget_arch (archetypes w)\<rparr>"

lemma forget_arch_versions: "length v = length (column_versions a) \<Longrightarrow> forget_arch (a\<lparr>column_versions := v\<rparr>) = forget_arch a"
  by (simp add: forget_arch_def map_replicate_const)

lemma set_rows_length_versions: "length (column_versions (set_rows lrs a)) = length (column_versions a)"
proof (induction lrs arbitrary: a)
  case (Cons lr lrs)
  then show ?case by (cases lr) simp
qed simp

lemma find_or_create_found:
  assumes "find_or_create_archetype sig vts w = (ai, w1)" "index_ok w" "length (archetypes w) + 1 < 2 ^ 32"
  shows "archetype_by_signature w1 sig = Some ai" "find_or_create_archetype sig vts w1 = (ai, w1)"
    "entity_slots w1 = entity_slots w"
  using assms by (auto simp: find_or_create_archetype_def Let_def split: option.splits if_splits)

lemma finalize_each_found:
  assumes "find_or_create_archetype sig vts w = (ai, w1)" "find_or_create_archetype sig vts w1 = (ai, w1)"
    "entity_slots w1 = entity_slots w" "slot_reserved w e"
  shows "finalize_each sig vts blocks (e # es) i w = finalize_each sig vts blocks (e # es) i w1"
proof -
  have at: "slot_at w1 j = slot_at w j" for j using assms(3) by (simp add: slot_at_def)
  have "finalize_reserved_entity e sig vts cs w1 = finalize_reserved_entity e sig vts cs w" for cs
    using assms(1,2,4) by (auto simp: finalize_reserved_entity_def at slot_reserved_def split: option.splits)
  moreover have "slot_reserved w1 e = slot_reserved w e" by (simp add: slot_reserved_def at)
  ultimately show ?thesis using assms(4) by simp
qed

lemma element_slots_live:
  assumes "list_all2 (block_ok n) (map vt sig) blocks" "k < n"
  shows "cells_live vt sig (element_slots (map vt sig) blocks k)"
  using assms(1)
proof (induction sig arbitrary: blocks)
  case (Cons c sig)
  obtain b bs where b: "blocks = b # bs" "block_ok n (vt c) b" "list_all2 (block_ok n) (map vt sig) bs"
    using Cons.prems by (auto simp: list_all2_Cons1)
  have "(if vt_size (vt c) = 0 \<or> b = [] then None else arr_get b (int k)) = None \<longleftrightarrow> vt_size (vt c) = 0"
    using b(2) assms(2) by (auto simp: block_ok_def arr_get_def split: if_splits)
  then show ?case using Cons.IH [OF b(3)] by (simp add: cells_live_def element_slots_def b(1))
qed (simp add: cells_live_def element_slots_def)


lemma set_row_same: "get_row a l = Some r \<Longrightarrow> set_row l r a = a"
proof -
  assume g: "get_row a l = Some r"
  then have "loc_chunk l < length (chunks a)" "chunk_rows (chunks a ! loc_chunk l) ! loc_row l = r"
    by (auto simp: get_row_def split: if_splits)
  then show ?thesis by (auto simp: set_row_def)
qed

lemma set_rows_same: "list_all2 (\<lambda>l r. get_row a l = Some r) ls rs \<Longrightarrow> set_rows (zip ls rs) a = a"
  by (induction ls rs rule: list_all2_induct) (simp_all add: set_row_same)

lemma get_row_versions [simp]: "get_row (a\<lparr>column_versions := v\<rparr>) l = get_row a l"
  by (simp add: get_row_def)

lemma length_batch_rows [simp]: "length (batch_rows es css) = min (length es) (length css)"
  by (simp add: batch_rows_def)

lemma nth_batch_rows [simp]:
  "i < length es \<Longrightarrow> i < length css \<Longrightarrow> batch_rows es css ! i = \<lparr>row_entity = Some (es ! i), row_cells = css ! i\<rparr>"
  by (simp add: batch_rows_def)

text \<open>The rows of a batch, reserved together, written and filled.\<close>

lemma bulk_rows:
  assumes "arch_ok a" "es \<noteq> []" "list_all2 (block_ok (length es)) vts blocks" "length vts = length (signature a)"
    "reserve_rows (length es) a p = Some (ranges, b, q)" "ls = concat (map range_locations ranges)"
    "rs = batch_rows es (map (element_slots vts blocks) [0..<length es])"
  shows "length ls = length es"
    "\<exists>c. update_rows (zip ls (map (\<lambda>e r. Some (r\<lparr>row_entity := Some e\<rparr>)) es)) b = Some c
      \<and> fill_columns 0 vts blocks ls c = Some (set_rows (zip ls rs) b)"
    "\<exists>v. reserve_many (length es) a p = (ls, b\<lparr>column_versions := v\<rparr>, q) \<and> length v = length (column_versions b)"
proof -
  obtain v where m: "reserve_many (length es) a p = (ls, b\<lparr>column_versions := v\<rparr>, q)" "length v = length (column_versions b)"
    using reserve_rows_many [OF assms(1), of "length es" p] assms(5,6) by auto
  then show "\<exists>v. reserve_many (length es) a p = (ls, b\<lparr>column_versions := v\<rparr>, q) \<and> length v = length (column_versions b)" by blast
  note ok = reserve_many_ok [OF assms(1) m(1)]
  show len: "length ls = length es" by (rule ok(3))
  have raw: "get_row b l = Some (raw_row a)" if "l \<in> set ls" for l using ok(5) [OF that] by simp
  define raws where "raws = replicate (length es) (raw_row a)"
  have "list_all2 (\<lambda>l r. get_row b l = Some r) ls raws"
    unfolding list_all2_conv_all_nth using len raw by (simp add: raws_def)
  then have same: "set_rows (zip ls raws) b = b" by (rule set_rows_same)
  define blank where "blank = batch_rows es (map (\<lambda>cs. cs @ replicate (length vts) None) (replicate (length es) ([] :: 'a option list)))"
  have "update_rows (zip ls (map (\<lambda>e r. Some (r\<lparr>row_entity := Some e\<rparr>)) es)) (set_rows (zip ls raws) b) = Some (set_rows (zip ls blank) b)"
  proof (rule update_rows_set [OF ok(4)])
    show "list_all2 (\<lambda>(f, r) r'. f r = Some r') (zip (map (\<lambda>e r. Some (r\<lparr>row_entity := Some e\<rparr>)) es) raws) blank"
      unfolding list_all2_conv_all_nth
    proof (intro conjI allI impI)
      fix i
      assume "i < length (zip (map (\<lambda>e r. Some (r\<lparr>row_entity := Some e\<rparr>)) es) raws)"
      then have "i < length es" by (simp add: raws_def)
      then show "(\<lambda>(f, r) r'. f r = Some r') (zip (map (\<lambda>e r. Some (r\<lparr>row_entity := Some e\<rparr>)) es) raws ! i) (blank ! i)"
        by (simp add: raws_def blank_def) (simp add: raw_row_def assms(4))
    qed (simp add: raws_def blank_def)
  qed (use len raw in \<open>simp_all add: raws_def\<close>)
  moreover have "fill_columns 0 vts blocks ls (set_rows (zip ls blank) b) = Some (set_rows (zip ls rs) b)"
  proof -
    let ?none = "replicate (length es) ([] :: 'a option list)"
    have g: "\<forall>l \<in> set ls. get_row b l \<noteq> None" using raw by simp
    have ne: "ls \<noteq> []" using len assms(2) by auto
    have k: "list_all2 (block_ok (length ls)) vts blocks" using assms(3) len by simp
    have "fill_columns 0 vts blocks ls (set_rows (zip ls blank) b) =
        Some (set_rows (zip ls (batch_rows es (map (\<lambda>i. ?none ! i @ element_slots vts blocks i) [0..<length ls]))) b)"
      unfolding blank_def by (rule fill_columns_rows [OF k ok(4) g ne]) (simp_all add: len)
    moreover have "map (\<lambda>i. ?none ! i @ element_slots vts blocks i) [0..<length ls] = map (element_slots vts blocks) [0..<length es]"
      by (rule map_cong) (simp_all add: len)
    ultimately show ?thesis by (simp only: assms(7))
  qed
  ultimately show "\<exists>c. update_rows (zip ls (map (\<lambda>e r. Some (r\<lparr>row_entity := Some e\<rparr>)) es)) b = Some c
      \<and> fill_columns 0 vts blocks ls c = Some (set_rows (zip ls rs) b)"
    by (simp add: same)
qed


lemma bulk_reserved:
  fixes w :: "'v World"
  assumes inv: "world_inv vt w" and room: "length (archetypes w) + 1 < 2 ^ 32" and fits: "sig_fits vt sig" "sorted_wrt (<) sig"
    and blocks: "list_all2 (block_ok (length ids)) (map vt sig) blocks" and ids: "distinct (map index ids)" "ids \<noteq> []"
      "list_all (slot_reserved w) ids"
  shows "\<exists>w1 w2. finalize_reserved_entities_bulk ids sig (map vt sig) blocks w = Some w1
    \<and> finalize_each sig (map vt sig) blocks ids 0 w = Some w2 \<and> forget_versions w1 = forget_versions w2"
proof -
  obtain ai u where foc: "find_or_create_archetype sig (map vt sig) w = (ai, u)" by fastforce
  have iv: "archs_inv vt w" using inv by (simp add: world_inv_iff)
  note fc = find_or_create [OF iv fits room foc]
  have ix: "index_ok w" using iv by (simp add: archs_inv_def)
  note fd = find_or_create_found [OF foc ix room]
  define a where "a = archetypes u ! unat ai"
  have ok: "arch_ok a" and sg: "signature a = sig" and at: "arch_at u ai = Some a"
    using fc(1,2,3) by (auto simp: archs_inv_def arch_wf_def a_def arch_at_iff)
  obtain ranges b q where rr: "reserve_rows (length ids) a (chunk_pool u) = Some (ranges, b, q)"
    using reserve_rows_many [OF ok] by blast
  define ls where "ls = concat (map range_locations ranges)"
  define rs where "rs = batch_rows ids (map (element_slots (map vt sig) blocks) [0..<length ids])"
  have lv: "length (map vt sig) = length (signature a)" by (simp add: sg)
  note br = bulk_rows [OF ok ids(2) blocks lv rr ls_def rs_def]
  obtain c v where c: "update_rows (zip ls (map (\<lambda>e r. Some (r\<lparr>row_entity := Some e\<rparr>)) ids)) b = Some c"
    "fill_columns 0 (map vt sig) blocks ls c = Some (set_rows (zip ls rs) b)"
    "reserve_many (length ids) a (chunk_pool u) = (ls, b\<lparr>column_versions := v\<rparr>, q)" "length v = length (column_versions b)"
    using br(2,3) by blast
  have resu: "list_all (slot_reserved u) ids"
    using ids(3) fc(7) by (simp add: list_all_iff slot_reserved_def slot_at_def)
  then have bd: "\<forall>e \<in> set ids. unat (index e) < length (entity_slots u)"
    unfolding list_all_iff using slot_reserved_bound by blast
  define w0 where "w0 = (set_arch ai b u)\<lparr>chunk_pool := q\<rparr>"
  have pl: "place_reserved ai (zip ids ls) w0 = Some (w0\<lparr>archetypes := (archetypes w0)[unat ai := c],
     entity_slots := slots_placed ai (zip ids ls) (entity_slots w0)\<rparr>)"
    by (rule place_reserved_eq) (use fc(2) br(1) c(1) bd in \<open>simp_all add: w0_def set_arch_def\<close>)
  have bulk: "finalize_reserved_entities_bulk ids sig (map vt sig) blocks w =
    Some (u\<lparr>archetypes := (archetypes u)[unat ai := set_rows (zip ls rs) b], chunk_pool := q,
      entity_slots := slots_placed ai (zip ids ls) (entity_slots u)\<rparr>)"
    using ids(2,3) foc at rr pl c(2) fc(2)
    by (simp add: finalize_reserved_entities_bulk_def ls_def [symmetric] w0_def [symmetric]) (simp add: w0_def set_arch_def arch_at_iff [THEN iffD2])
  have live: "cells_live vt sig (element_slots (map vt sig) blocks k)" if "k < length ids" for k
    by (rule element_slots_live [OF blocks that])
  have "put_rows rs a (chunk_pool u) = (ls, set_rows (zip ls rs) (b\<lparr>column_versions := v\<rparr>), q)"
  proof (rule put_rows_many [OF ok])
    show "\<forall>r \<in> set rs. length (row_cells r) = length (signature a)"
      using live cells_live_length sg by (fastforce simp: rs_def batch_rows_def set_zip)
  qed (use c(3) in \<open>simp add: rs_def\<close>)
  moreover have fl: "\<forall>k < 0 + length ids. fill_cells (map vt sig) (element_slots (map vt sig) blocks k) (replicate (length sig) None) =
      Some (element_slots (map vt sig) blocks k)"
    "\<forall>k < 0 + length ids. length (element_slots (map vt sig) blocks k) = length sig"
    using live by (auto intro: fill_cells_live cells_live_length)
  ultimately have "finalize_each sig (map vt sig) blocks ids 0 u = Some (u\<lparr>archetypes := (archetypes u)[unat ai := set_rows (zip ls rs) (b\<lparr>column_versions := v\<rparr>)],
     chunk_pool := q, entity_slots := slots_placed ai (zip ids ls) (entity_slots u)\<rparr>)"
    by (intro finalize_each_eq [OF fd(1) fc(2) _ _ fl(1) ids(1) resu fl(2)])
      (use ok sg in \<open>simp_all add: a_def rs_def\<close>)
  moreover obtain e es where "ids = e # es" using ids(2) by (cases ids) auto
  ultimately have loop: "finalize_each sig (map vt sig) blocks ids 0 w = Some (u\<lparr>archetypes := (archetypes u)[unat ai := set_rows (zip ls rs) (b\<lparr>column_versions := v\<rparr>)],
     chunk_pool := q, entity_slots := slots_placed ai (zip ids ls) (entity_slots u)\<rparr>)"
    using finalize_each_found [OF foc fd(2,3)] ids(3) by simp
  show ?thesis unfolding bulk loop
    by (rule exI, rule exI, rule conjI, rule refl, rule conjI, rule refl)
      (simp add: forget_versions_def map_update set_rows_versions forget_arch_versions set_rows_length_versions c(4))
qed

end
