(* ===== verification/Bulk_Equivalence.thy ===== *)
theory Bulk_Equivalence
  imports Bulk_Worlds
begin

text \<open>
  Creating a batch against creating its entities one after the other: the same identifiers, and worlds
  that agree on everything but the version counters.
\<close>

section \<open>Creating a batch and creating one by one\<close>

text \<open>The loop a batch stands for: one entity of the given components after the other.\<close>

fun create_each :: "vtables_of \<Rightarrow> bool \<Rightarrow> (component_type_id_t \<times> 'v) list list \<Rightarrow> 'v World \<Rightarrow> (EntityID list \<times> 'v World) option" where
  "create_each vt immut [] w = Some ([], w)"
| "create_each vt immut (comps # rest) w = do {
     (e, w) \<leftarrow> create_entity_impl vt immut comps w;
     (es, w) \<leftarrow> create_each vt immut rest w;
     Some (e # es, w) }"

text \<open>The slots of a batch, without the archetypes.\<close>

fun slots_created :: "bool \<Rightarrow> u32 \<Rightarrow> RowLocation list \<Rightarrow> 'v World \<Rightarrow> (EntityID list \<times> 'v World) option" where
  "slots_created immut ai [] w = Some ([], w)"
| "slots_created immut ai (l # ls) w = do {
     (e, w) \<leftarrow> allocate_entity_slot w;
     w \<leftarrow> place_slot e ai l w;
     w \<leftarrow> stamp_immutable e immut w;
     (es, w) \<leftarrow> slots_created immut ai ls w;
     Some (e # es, w) }"

definition with_rows :: "'v World \<Rightarrow> 'v Archetype list \<Rightarrow> ChunkPool \<Rightarrow> 'v World" where
  "with_rows w as p = w\<lparr>archetypes := as, chunk_pool := p\<rparr>"

lemma with_rows_frame [simp]:
  "archetypes (with_rows w as p) = as" "chunk_pool (with_rows w as p) = p" "slot_at (with_rows w as p) i = slot_at w i"
  "archetype_by_signature (with_rows w as p) = archetype_by_signature w" "in_tick_or_log (with_rows w as p) = in_tick_or_log w"
  "with_rows (with_rows w as p) bs q = with_rows w bs q"
  by (simp_all add: with_rows_def slot_at_def in_tick_or_log_def)

lemma slots_with_rows:
  "allocate_entity_slot (with_rows w as p) = map_option (\<lambda>(e, w). (e, with_rows w as p)) (allocate_entity_slot w)"
  "place_slot e ai l (with_rows w as p) = map_option (\<lambda>w. with_rows w as p) (place_slot e ai l w)"
  "stamp_immutable e b (with_rows w as p) = map_option (\<lambda>w. with_rows w as p) (stamp_immutable e b w)"
  by (auto simp: allocate_entity_slot_def place_slot_def stamp_immutable_def with_rows_def slot_at_def set_slot_def arr_get_def Let_def
      split: if_splits option.splits)

lemma rows_untouched:
  "allocate_entity_slot w = Some (e, w') \<Longrightarrow> archetypes w' = archetypes w \<and> chunk_pool w' = chunk_pool w
     \<and> archetype_by_signature w' = archetype_by_signature w \<and> in_tick_or_log w' = in_tick_or_log w"
  "place_slot e ai l w = Some w' \<Longrightarrow> archetypes w' = archetypes w \<and> chunk_pool w' = chunk_pool w
     \<and> archetype_by_signature w' = archetype_by_signature w \<and> in_tick_or_log w' = in_tick_or_log w"
  "stamp_immutable e b w = Some w' \<Longrightarrow> archetypes w' = archetypes w \<and> chunk_pool w' = chunk_pool w
     \<and> archetype_by_signature w' = archetype_by_signature w \<and> in_tick_or_log w' = in_tick_or_log w"
  by (auto simp: allocate_entity_slot_def place_slot_def stamp_immutable_def slot_at_def set_slot_def in_tick_or_log_def Let_def
      bind_eq_Some_conv split: if_splits)


lemma slots_created_rows:
  "slots_created immut ai ls (with_rows w as p) = map_option (\<lambda>(es, w). (es, with_rows w as p)) (slots_created immut ai ls w)"
proof (induction ls arbitrary: w)
  case (Cons l ls)
  show ?case
    by (cases "allocate_entity_slot w")
      (auto simp: slots_with_rows Cons.IH Option.bind_map_option comp_def case_prod_unfold map_option_case split: option.splits
        intro!: bind_option_cong)
qed simp

lemma set_arch_rows: "set_arch ai a w = with_rows w ((archetypes w)[unat ai := a]) (chunk_pool w)"
  by (simp add: set_arch_def with_rows_def)

lemma place_created_eq:
  assumes "unat ai < length (archetypes w)" "slots_created immut ai ls w = Some (es, w')"
    "update_rows (zip ls (map (\<lambda>e r. Some (r\<lparr>row_entity := Some e\<rparr>)) es)) (archetypes w ! unat ai) = Some b"
  shows "place_created immut ai ls w = Some (es, with_rows w' ((archetypes w)[unat ai := b]) (chunk_pool w))"
  using assms
proof (induction ls arbitrary: w w' es)
  case Nil
  then have "(archetypes w)[unat ai := b] = archetypes w" by auto
  then show ?case using Nil by (simp add: with_rows_def)
next
  case (Cons l ls)
  obtain e w1 w2 w3 es' where st: "allocate_entity_slot w = Some (e, w1)" "place_slot e ai l w1 = Some w2"
    "stamp_immutable e immut w2 = Some w3" "slots_created immut ai ls w3 = Some (es', w')" "es = e # es'"
    using Cons.prems(2) by (auto simp: bind_eq_Some_conv)
  obtain a where a: "write_entity l e (archetypes w ! unat ai) = Some a"
    "update_rows (zip ls (map (\<lambda>e r. Some (r\<lparr>row_entity := Some e\<rparr>)) es')) a = Some b"
    using Cons.prems(3) unfolding st(5) list.map zip_Cons_Cons update_rows_entities by (auto simp: bind_eq_Some_conv)
  note ut = rows_untouched(1) [OF st(1)] rows_untouched(2) [OF st(2)] rows_untouched(3) [OF st(3)]
  let ?as = "(archetypes w)[unat ai := a]"
  define w4 where "w4 = with_rows w3 ?as (chunk_pool w)"
  have "place_slot e ai l (set_arch ai a w1) = Some (with_rows w2 ?as (chunk_pool w))"
    "stamp_immutable e immut (with_rows w2 ?as (chunk_pool w)) = Some w4"
    using ut st(2,3) by (simp_all add: set_arch_rows slots_with_rows w4_def)
  moreover have "slots_created immut ai ls w4 = Some (es', with_rows w' ?as (chunk_pool w))"
    using st(4) by (simp add: w4_def slots_created_rows)
  then have "place_created immut ai ls w4 = Some (es', with_rows w' ((archetypes w)[unat ai := b]) (chunk_pool w))"
    using Cons.IH [where w = w4 and es = es' and w' = "with_rows w' ?as (chunk_pool w)"] Cons.prems(1) a(2)
    by (simp add: w4_def)
  moreover have "arch_at w1 ai = Some (archetypes w ! unat ai)" using Cons.prems(1) ut by (simp add: arch_at_iff)
  ultimately show ?case using st(1,5) a(1) by simp
qed

lemma slots_created_total:
  assumes "table_inv w" "length (entity_slots w) + length ls \<le> 2 ^ 32"
  shows "\<exists>es w'. slots_created immut ai ls w = Some (es, w') \<and> length es = length ls"
  using assms
proof (induction ls arbitrary: w)
  case (Cons l ls)
  have room: "has_free w \<or> length (entity_slots w) < 2 ^ 32" using Cons.prems(2) by simp
  obtain e w1 where al: "allocate_entity_slot w = Some (e, w1)" by (rule allocate_some [OF Cons.prems(1) room])
  note u = unlocated_fresh [OF Cons.prems(1) room al]
  obtain s where s: "slot_at w1 (index e) = Some s" "alive s" using u(3) by blast
  define w2 where "w2 = set_slot (index e) (s\<lparr>archetype_index := ai, chunk_index := of_nat (loc_chunk l), row := of_nat (loc_row l)\<rparr>) w1"
  define w3 where "w3 = set_slot (index e) (s\<lparr>archetype_index := ai, chunk_index := of_nat (loc_chunk l), row := of_nat (loc_row l), immutable := immut\<rparr>) w2"
  have p: "place_slot e ai l w1 = Some w2" using s by (simp add: place_slot_def w2_def)
  have s2: "slot_at w2 (index e) = Some (s\<lparr>archetype_index := ai, chunk_index := of_nat (loc_chunk l), row := of_nat (loc_row l)\<rparr>)"
    using s(1) by (simp add: w2_def slot_at_iff)
  then have st: "stamp_immutable e immut w2 = Some w3" by (simp add: stamp_immutable_def w3_def)
  have t2: "table_inv w2" unfolding w2_def by (rule table_inv_place [OF u(4) s(1,2)]) (use s in simp_all)
  have t3: "table_inv w3" unfolding w3_def by (rule table_inv_place [OF t2 s2]) (use s in simp_all)
  have "length (entity_slots w1) \<le> Suc (length (entity_slots w))"
    using al by (auto simp: allocate_entity_slot_def Let_def set_slot_def bind_eq_Some_conv split: if_splits)
  then have "length (entity_slots w3) + length ls \<le> 2 ^ 32" using Cons.prems(2) by (simp add: w3_def w2_def set_slot_def)
  then obtain es w' where "slots_created immut ai ls w3 = Some (es, w')" "length es = length ls"
    using Cons.IH [OF t3] by blast
  then show ?case using al p st by simp
qed simp


section \<open>The columns in pack order\<close>

text \<open>The components of the \<open>k\<close>-th entity of a batch.\<close>

definition batch_components ::
    "vtables_of \<Rightarrow> (component_type_id_t \<Rightarrow> 'v) \<Rightarrow> 'v list list option \<Rightarrow> component_type_id_t list \<Rightarrow> nat \<Rightarrow> (component_type_id_t \<times> 'v) list" where
  "batch_components vt dflt spans ids k = map (\<lambda>(c, pos). (c, case pos of None \<Rightarrow> dflt c
     | Some i \<Rightarrow> (case spans of None \<Rightarrow> dflt c | Some ss \<Rightarrow> ss ! i ! k))) (zip ids (bulk_span_index_map vt ids))"

lemma construct_cell_row:
  "construct_cell col v cs = Some cs' \<Longrightarrow>
     map_option (\<lambda>cs. r\<lparr>row_cells := cs\<rparr>) (construct_cell col v (row_cells (r\<lparr>row_cells := cs\<rparr>))) = Some (r\<lparr>row_cells := cs'\<rparr>)"
  by simp

lemma construct_columns_rows:
  assumes "distinct ls" "\<forall>l \<in> set ls. get_row a l \<noteq> None" "length es = length ls" "length pre = length ls" "length post = length ls"
    "\<forall>k < length ls. place_cells vt a (map (\<lambda>(c, pos). (c, case pos of None \<Rightarrow> dflt c
        | Some i \<Rightarrow> (case spans of None \<Rightarrow> dflt c | Some ss \<Rightarrow> ss ! i ! k))) cs) (pre ! k) = Some (post ! k)"
    "\<forall>(c, pos) \<in> set cs. (pos = None \<longleftrightarrow> vt_size (vt c) = 0)
       \<and> (\<forall>i ss. pos = Some i \<longrightarrow> spans = Some ss \<longrightarrow> i < length ss \<and> length (ss ! i) = length ls)"
    "ls \<noteq> []"
  shows "construct_columns dflt spans (length ls) ls cs (set_rows (zip ls (batch_rows es pre)) a)
    = Some (set_rows (zip ls (batch_rows es post)) a)"
  using assms(4,6,7)
proof (induction cs arbitrary: pre)
  case Nil
  then have "pre = post" using assms(5) by (intro nth_equalityI) auto
  then show ?case by simp
next
  case (Cons cp cs)
  obtain c pos where cp: "cp = (c, pos)" by fastforce
  show ?case
  proof (cases pos)
    case None
    then show ?thesis using Cons by (auto simp: cp)
  next
    case (Some i)
    define val where "val = (\<lambda>k. case spans of None \<Rightarrow> dflt c | Some ss \<Rightarrow> ss ! i ! k)"
    define vs where "vs = map val [0..<length ls]"
    have size: "vt_size (vt c) \<noteq> 0" using Cons.prems(3) Some by (auto simp: cp)
    have cv: "column_values dflt spans (length ls) c i = Some vs"
    proof (cases spans)
      case None
      then show ?thesis by (simp add: column_values_def vs_def val_def map_replicate_const)
    next
      case (Some ss)
      then have "i < length ss" "length (ss ! i) = length ls" using Cons.prems(3) \<open>pos = Some i\<close> by (auto simp: cp)
      moreover from this have "map (\<lambda>k. ss ! i ! k) [0..<length ls] = ss ! i" by (metis map_nth)
      ultimately show ?thesis using Some by (simp add: column_values_def vs_def val_def arr_get_def)
    qed
    have "0 < length ls" using assms(8) by simp
    then obtain col where col: "column_index_for a c = Some col"
      using Cons.prems(2) Some size by (fastforce simp: cp bind_eq_Some_conv)
    have step: "\<exists>cs1. construct_cell col (val k) (pre ! k) = Some cs1 \<and> place_cells vt a (map (\<lambda>(c, pos). (c, case pos of None \<Rightarrow> dflt c
        | Some i \<Rightarrow> (case spans of None \<Rightarrow> dflt c | Some ss \<Rightarrow> ss ! i ! k))) cs) cs1 = Some (post ! k)" if "k < length ls" for k
      using Cons.prems(2) that Some size col by (fastforce simp: cp bind_eq_Some_conv val_def)
    define pre' where "pre' = map (\<lambda>k. the (construct_cell col (val k) (pre ! k))) [0..<length ls]"
    have pre': "construct_cell col (val k) (pre ! k) = Some (pre' ! k)" "place_cells vt a (map (\<lambda>(c, pos). (c, case pos of None \<Rightarrow> dflt c
        | Some i \<Rightarrow> (case spans of None \<Rightarrow> dflt c | Some ss \<Rightarrow> ss ! i ! k))) cs) (pre' ! k) = Some (post ! k)" if "k < length ls" for k
      using step [OF that] that by (auto simp: pre'_def)
    have "fill_column col ls vs (set_rows (zip ls (batch_rows es pre)) a) = Some (set_rows (zip ls (batch_rows es pre')) a)"
    proof (subst fill_column_update)
      show "update_rows (zip ls (map (\<lambda>v r. map_option (\<lambda>cs. r\<lparr>row_cells := cs\<rparr>) (construct_cell col v (row_cells r))) vs))
          (set_rows (zip ls (batch_rows es pre)) a) = Some (set_rows (zip ls (batch_rows es pre')) a)"
      proof (rule update_rows_set [OF assms(1,2)])
        show "list_all2 (\<lambda>(f, r) r'. f r = Some r')
          (zip (map (\<lambda>v r. map_option (\<lambda>cs. r\<lparr>row_cells := cs\<rparr>) (construct_cell col v (row_cells r))) vs) (batch_rows es pre)) (batch_rows es pre')"
          unfolding list_all2_conv_all_nth using pre'(1) assms(3) Cons.prems(1) by (simp add: vs_def pre'_def [symmetric]) (simp add: pre'_def)
      qed (use assms(3) Cons.prems(1) in \<open>simp_all add: vs_def\<close>)
    qed (simp add: vs_def)
    moreover have "construct_columns dflt spans (length ls) ls cs (set_rows (zip ls (batch_rows es pre')) a) = Some (set_rows (zip ls (batch_rows es post)) a)"
      by (rule Cons.IH) (use pre'(2) Cons.prems(3) in \<open>auto simp: pre'_def\<close>)
    moreover have "column_index_for (set_rows (zip ls (batch_rows es pre)) a) c = Some col" using col by (simp add: column_index_for_def)
    ultimately show ?thesis using cv by (simp add: cp Some)
  qed
qed


section \<open>The loop of single creations\<close>

lemma create_each_eq:
  assumes "archetype_by_signature w sig = Some ai" "unat ai < length (archetypes w)" "arch_ok (archetypes w ! unat ai)"
    "signature (archetypes w ! unat ai) = sig" "\<not> in_tick_or_log w" "length cells = length css"
    "\<forall>comps \<in> set css. map fst (exchange_sort (map (\<lambda>(c, v). (c, vt c)) comps)) = sig"
    "\<forall>k < length css. place_cells vt (archetypes w ! unat ai) (css ! k) (replicate (length sig) None) = Some (cells ! k)
       \<and> length (cells ! k) = length sig"
    "slots_created immut ai ls w = Some (es, w')" "length es = length css"
    "put_rows (batch_rows es cells) (archetypes w ! unat ai) (chunk_pool w) = (ls, b, q)"
  shows "create_each vt immut css w = Some (es, with_rows w' ((archetypes w)[unat ai := b]) q)"
  using assms
proof (induction css arbitrary: w w' es cells ls)
  case Nil
  then have "(archetypes w)[unat ai := b] = archetypes w" "chunk_pool w = q" "ls = []" by (auto simp: batch_rows_def)
  then show ?case using Nil by (simp add: with_rows_def)
next
  case (Cons comps css)
  obtain cs cells' where cells: "cells = cs # cells'" using Cons.prems(6) by (cases cells) auto
  obtain e es' where es: "es = e # es'" using Cons.prems(10) by (cases es) auto
  define r where "r = \<lparr>row_entity = Some e, row_cells = cs\<rparr>"
  obtain l a1 p1 where rr: "reserve_row (archetypes w ! unat ai) (chunk_pool w) = (l, a1, p1)" by (metis prod_cases3)
  obtain ks where m: "put_rows (batch_rows es' cells') (set_row l r a1) p1 = (ks, b, q)" "ls = l # ks"
    using Cons.prems(11) by (auto simp: cells es batch_rows_def r_def rr Let_def split: prod.splits)
  obtain w1 w2 w3 where st: "allocate_entity_slot w = Some (e, w1)" "place_slot e ai l w1 = Some w2"
    "stamp_immutable e immut w2 = Some w3" "slots_created immut ai ks w3 = Some (es', w')"
    using Cons.prems(9) by (auto simp: es m(2) bind_eq_Some_conv)
  note ut = rows_untouched(1) [OF st(1)] rows_untouched(2) [OF st(2)] rows_untouched(3) [OF st(3)]
  note s = reserve_row_spec [OF Cons.prems(3) rr]
  have sg: "signature a1 = sig" using s(3) Cons.prems(4) by (simp add: same_shape_def)
  have pc: "place_cells vt (archetypes w ! unat ai) comps (replicate (length sig) None) = Some cs" "length cs = length sig"
    using Cons.prems(8) by (auto simp: cells)
  have same: "place_cells vt x comps = place_cells vt (archetypes w ! unat ai) comps" if "signature x = sig" for x
    using that Cons.prems(4) by (intro place_cells_cong) simp
  let ?as = "(archetypes w)[unat ai := set_row l r a1]"
  define w4 where "w4 = with_rows w3 ?as p1"
  have "insert_into e ai (\<lambda>a. place_cells vt a comps) w1 = Some (l, (set_arch ai (set_row l r a1) w1)\<lparr>chunk_pool := p1\<rparr>)"
  proof (unfold r_def, rule insert_reserved)
    show "unat ai < length (archetypes w1)" "arch_ok (archetypes w1 ! unat ai)"
      "reserve_row (archetypes w1 ! unat ai) (chunk_pool w1) = (l, a1, p1)" using Cons.prems(2,3) ut rr by simp_all
    show "place_cells vt a1 comps (replicate (length (signature (archetypes w1 ! unat ai))) None) = Some cs"
      using pc(1) same [OF sg] ut Cons.prems(4) by simp
    show "place_cells vt (set_row l x a1) comps = place_cells vt a1 comps" for x by (rule place_cells_cong) simp
  qed
  moreover have "(set_arch ai (set_row l r a1) w1)\<lparr>chunk_pool := p1\<rparr> = with_rows w1 ?as p1" using ut by (simp add: set_arch_def with_rows_def)
  ultimately have one: "create_entity_impl vt immut comps w = Some (e, w4)"
    using Cons.prems(1,5,7) st by (simp add: create_entity_impl_def find_or_create_archetype_def slots_with_rows w4_def)
  have "create_each vt immut css w4 = Some (es', with_rows (with_rows w' ?as p1) ((archetypes w4)[unat ai := b]) q)"
  proof (rule Cons.IH [where cells = cells' and ls = ks])
    have "arch_ok (set_row l r a1)" by (rule set_row_ok [OF s(1,5)]) (use pc(2) sg in \<open>simp add: r_def\<close>)
    then show "arch_ok (archetypes w4 ! unat ai)" using Cons.prems(2) by (simp add: w4_def)
    show "\<forall>k < length css. place_cells vt (archetypes w4 ! unat ai) (css ! k) (replicate (length sig) None) = Some (cells' ! k)
       \<and> length (cells' ! k) = length sig"
    proof (intro allI impI)
      fix k
      assume "k < length css"
      then have "place_cells vt (archetypes w ! unat ai) (css ! k) (replicate (length sig) None) = Some (cells' ! k)
       \<and> length (cells' ! k) = length sig" using Cons.prems(8) [rule_format, of "Suc k"] by (simp add: cells)
      moreover have "place_cells vt (archetypes w4 ! unat ai) (css ! k) = place_cells vt (archetypes w ! unat ai) (css ! k)"
        using Cons.prems(2,4) sg by (intro place_cells_cong) (simp add: w4_def)
      ultimately show "place_cells vt (archetypes w4 ! unat ai) (css ! k) (replicate (length sig) None) = Some (cells' ! k)
       \<and> length (cells' ! k) = length sig" by simp
    qed
    show "slots_created immut ai ks w4 = Some (es', with_rows w' ?as p1)" using st(4) by (simp add: w4_def slots_created_rows)
  qed (use Cons.prems ut sg m(1) in \<open>simp_all add: w4_def cells es\<close>)
  then show ?case using one by (simp add: es) (simp add: w4_def)
qed


section \<open>A batch is a loop\<close>

lemma span_index_loop_spec:
  "length (span_index_loop vt cs nxt) = length cs"
  "(c, pos) \<in> set (zip cs (span_index_loop vt cs nxt)) \<Longrightarrow>
     (pos = None \<longleftrightarrow> vt_size (vt c) = 0) \<and> (\<forall>i. pos = Some i \<longrightarrow> i < nxt + length (filter (\<lambda>c. vt_size (vt c) \<noteq> 0) cs))"
proof -
  show "length (span_index_loop vt cs nxt) = length cs" by (induction cs arbitrary: nxt) simp_all
  show "(c, pos) \<in> set (zip cs (span_index_loop vt cs nxt)) \<Longrightarrow>
     (pos = None \<longleftrightarrow> vt_size (vt c) = 0) \<and> (\<forall>i. pos = Some i \<longrightarrow> i < nxt + length (filter (\<lambda>c. vt_size (vt c) \<noteq> 0) cs))"
  proof (induction cs arbitrary: nxt)
    case (Cons d cs)
    then show ?case using Cons.IH [of nxt] Cons.IH [of "nxt + 1"] by (auto split: if_splits)
  qed simp
qed

definition spans_fit :: "vtables_of \<Rightarrow> component_type_id_t list \<Rightarrow> 'v list list option \<Rightarrow> nat \<Rightarrow> bool" where
  "spans_fit vt ids spans n \<longleftrightarrow> (case spans of None \<Rightarrow> True
     | Some ss \<Rightarrow> length ss = length (filter (\<lambda>c. vt_size (vt c) \<noteq> 0) ids) \<and> (\<forall>s \<in> set ss. length s = n))"

lemma spans_fit_sizes: "spans_fit vt ids spans n \<Longrightarrow> spans_have_size n (case spans of None \<Rightarrow> [] | Some ss \<Rightarrow> map length ss)"
proof -
  have "\<forall>s \<in> set ss. length s = n \<Longrightarrow> spans_have_size n (map length ss)" for ss :: "'a list list" by (induction ss) auto
  then show "spans_fit vt ids spans n \<Longrightarrow> spans_have_size n (case spans of None \<Rightarrow> [] | Some ss \<Rightarrow> map length ss)"
    by (auto simp: spans_fit_def split: option.splits)
qed

lemma batch_components_ids: "map fst (batch_components vt dflt spans ids k) = ids"
  by (simp add: batch_components_def bulk_span_index_map_def span_index_loop_spec(1) comp_def case_prod_unfold)

lemma batch_signature:
  fixes vt :: vtables_of
  assumes "distinct ids"
  defines "srt \<equiv> exchange_sort (map (\<lambda>c. (c, vt c)) ids)"
  shows "map (\<lambda>(c, v). (c, vt c)) (batch_components vt dflt spans ids k) = map (\<lambda>c. (c, vt c)) ids"
    "sorted_wrt (<) (map fst srt)" "map snd srt = map vt (map fst srt)" "set (map fst srt) = set ids"
proof -
  have eq: "map (\<lambda>(c, v). (c, vt c)) xs = map (\<lambda>c. (c, vt c)) (map fst xs)" for xs :: "(component_type_id_t \<times> 'x) list"
    by (simp add: case_prod_unfold)
  show "map (\<lambda>(c, v). (c, vt c)) (batch_components vt dflt spans ids k) = map (\<lambda>c. (c, vt c)) ids"
    unfolding eq batch_components_ids ..
  have i: "map fst (map (\<lambda>c. (c, ())) ids) = ids" by (simp add: comp_def)
  show "sorted_wrt (<) (map fst srt)" "map snd srt = map vt (map fst srt)" "set (map fst srt) = set ids"
    using exchange_sort_signature [of "map (\<lambda>c. (c, ())) ids" vt] assms(1) unfolding eq i srt_def set_map [symmetric] by simp_all
qed

lemma bulk_create_loop:
  fixes w :: "'v World"
  assumes inv: "world_inv vt w" and nt: "\<not> in_tick_or_log w" and room: "length (archetypes w) + 1 < 2 ^ 32"
    "length (entity_slots w) + n \<le> 2 ^ 32"
    and ids: "distinct ids" "sig_fits vt ids" and sp: "spans_fit vt ids spans n" and out: "length out_ids = n"
  shows "\<exists>es w1 w2. create_entities_impl vt dflt immut ids spans n out_ids w = Some (True, es, w1)
    \<and> create_each vt immut (map (batch_components vt dflt spans ids) [0..<n]) w = Some (es, w2)
    \<and> forget_versions w1 = forget_versions w2"
proof (cases "n = 0")
  case True
  then show ?thesis using nt out spans_fit_sizes [OF sp] by (auto simp: create_entities_impl_def bulk_create_sizes_ok_def)
next
  case False
  define srt where "srt = exchange_sort (map (\<lambda>c. (c, vt c)) ids)"
  define sig where "sig = map fst srt"
  note sg = batch_signature [OF ids(1), where vt = vt, folded srt_def, folded sig_def]
  have fits: "sig_fits vt sig" using sig_fits_set [of sig ids vt] sg(2,4) ids by (simp add: strict_sorted_iff)
  obtain ai u where foc: "find_or_create_archetype sig (map vt sig) w = (ai, u)" by fastforce
  have iv: "archs_inv vt w" "table_inv w" using inv by (simp_all add: world_inv_iff)
  note fc = find_or_create [OF iv(1) fits sg(2) room(1) foc]
  note fd = find_or_create_found [OF foc _ room(1)]
  define a where "a = archetypes u ! unat ai"
  have ix: "index_ok w" using iv by (simp add: archs_inv_def)
  have ok: "arch_ok a" and sga: "signature a = sig" and at: "arch_at u ai = Some a"
    using fc(1,2,3) by (auto simp: archs_inv_def arch_wf_def a_def arch_at_iff)
  have ntu: "\<not> in_tick_or_log u" using nt fc by (simp add: in_tick_or_log_def)
  obtain ranges b q where rr: "reserve_rows n a (chunk_pool u) = Some (ranges, b, q)" using reserve_rows_many [OF ok] by blast
  define ls where "ls = concat (map range_locations ranges)"
  obtain v where m: "reserve_many n a (chunk_pool u) = (ls, b\<lparr>column_versions := v\<rparr>, q)" and v: "length v = length (column_versions b)"
    using reserve_rows_many [OF ok, of n "chunk_pool u"] rr by (auto simp: ls_def)
  note mo = reserve_many_ok [OF ok m]
  have raw: "get_row b l = Some (raw_row a)" if "l \<in> set ls" for l using mo(5) [OF that] by simp
  have "length (entity_slots u) + length ls \<le> 2 ^ 32" "table_inv u" using fc(6,7) iv(2) room(2) mo(3) by simp_all
  then obtain es w' where sl: "slots_created immut ai ls u = Some (es, w')" "length es = n" using slots_created_total mo(3) by metis
  define comps where "comps = batch_components vt dflt spans ids"
  define cells where "cells = map (\<lambda>k. staged_values vt (comps k) sig) [0..<n]"
  have place: "place_cells vt x (comps k) (replicate (length sig) None) = Some (staged_values vt (comps k) sig)"
    if "signature x = sig" for x :: "'v Archetype" and k
  proof -
    have f: "map fst (comps k) = ids" by (simp add: comps_def batch_components_ids)
    then have "fst ` set (comps k) = set sig" using sg(4) by (metis set_map)
    then show ?thesis using place_cells_fresh [of x "comps k" vt] that f ids(1) sg(2) by (simp add: strict_sorted_iff)
  qed
  define blank where "blank = batch_rows es (replicate n (replicate (length sig) (None :: 'v option)))"
  define rs where "rs = batch_rows es cells"
  have raws: "set_rows (zip ls (replicate n (raw_row a))) b = b"
    by (rule set_rows_same) (use raw mo(3) in \<open>simp add: list_all2_conv_all_nth\<close>)
  have upd: "update_rows (zip ls (map (\<lambda>e r. Some (r\<lparr>row_entity := Some e\<rparr>)) es)) b = Some (set_rows (zip ls blank) b)"
  proof -
    have "update_rows (zip ls (map (\<lambda>e r. Some (r\<lparr>row_entity := Some e\<rparr>)) es)) (set_rows (zip ls (replicate n (raw_row a))) b) = Some (set_rows (zip ls blank) b)"
    proof (rule update_rows_set [OF mo(4)])
      show "list_all2 (\<lambda>(f, r) r'. f r = Some r') (zip (map (\<lambda>e r. Some (r\<lparr>row_entity := Some e\<rparr>)) es) (replicate n (raw_row a))) blank"
        unfolding list_all2_conv_all_nth using sl(2) by (simp add: blank_def) (simp add: raw_row_def sga)
    qed (use raw mo(3) sl(2) in simp_all)
    then show ?thesis by (simp only: raws)
  qed
  have pl: "place_created immut ai ls (with_rows u ((archetypes u)[unat ai := b]) q) =
      Some (es, with_rows w' ((archetypes u)[unat ai := set_rows (zip ls blank) b]) q)"
    using place_created_eq [of ai "with_rows u ((archetypes u)[unat ai := b]) q" immut ls es
        "with_rows w' ((archetypes u)[unat ai := b]) q" "set_rows (zip ls blank) b"] fc(2) sl(1) upd
    by (simp add: slots_created_rows)
  have fill: "construct_columns dflt spans n ls (zip ids (bulk_span_index_map vt ids)) (set_rows (zip ls blank) b) = Some (set_rows (zip ls rs) b)"
  proof -
    have ne: "ls \<noteq> []" using mo(3) False by auto
    have pos: "\<forall>(c, pos) \<in> set (zip ids (bulk_span_index_map vt ids)). (pos = None \<longleftrightarrow> vt_size (vt c) = 0)
       \<and> (\<forall>i ss. pos = Some i \<longrightarrow> spans = Some ss \<longrightarrow> i < length ss \<and> length (ss ! i) = length ls)"
      using span_index_loop_spec(2) [of _ _ ids vt 0] sp mo(3) by (fastforce simp: bulk_span_index_map_def spans_fit_def)
    have sgb: "signature b = sig" using mo(2) sga by (simp add: same_shape_def)
    have "\<forall>k < length ls. place_cells vt b (map (\<lambda>(c, pos). (c, case pos of None \<Rightarrow> dflt c
        | Some i \<Rightarrow> (case spans of None \<Rightarrow> dflt c | Some ss \<Rightarrow> ss ! i ! k))) (zip ids (bulk_span_index_map vt ids)))
          (replicate n (replicate (length sig) None) ! k) = Some (cells ! k)"
    proof (intro allI impI)
      fix k
      assume "k < length ls"
      then show "place_cells vt b (map (\<lambda>(c, pos). (c, case pos of None \<Rightarrow> dflt c
        | Some i \<Rightarrow> (case spans of None \<Rightarrow> dflt c | Some ss \<Rightarrow> ss ! i ! k))) (zip ids (bulk_span_index_map vt ids)))
          (replicate n (replicate (length sig) None) ! k) = Some (cells ! k)"
        using place [OF sgb, of k] mo(3) by (simp add: comps_def batch_components_def [symmetric] cells_def)
    qed
    then show ?thesis unfolding blank_def rs_def mo(3) [symmetric]
      by (intro construct_columns_rows [OF mo(4)]) (use raw ne pos sl(2) mo(3) in \<open>simp_all add: cells_def\<close>)
  qed
  have bulk: "create_entities_impl vt dflt immut ids spans n out_ids w =
      Some (True, es, with_rows w' ((archetypes u)[unat ai := set_rows (zip ls rs) b]) q)"
  proof -
    have "(set_arch ai b u)\<lparr>chunk_pool := q\<rparr> = with_rows u ((archetypes u)[unat ai := b]) q" by (simp add: set_arch_def with_rows_def)
    moreover have "set_arch ai x (with_rows w' ((archetypes u)[unat ai := y]) q) = with_rows w' ((archetypes u)[unat ai := x]) q" for x y
      by (simp add: set_arch_rows)
    ultimately show ?thesis
      using nt out False spans_fit_sizes [OF sp] foc at rr pl fill fc(2) sg(3)
      by (simp add: create_entities_impl_def bulk_create_sizes_ok_def srt_def [symmetric] sig_def [symmetric] ls_def [symmetric] arch_at_iff [THEN iffD2])
  qed
  have cl: "\<forall>k < length (map comps [0..<n]). place_cells vt a (map comps [0..<n] ! k) (replicate (length sig) None) = Some (cells ! k)
      \<and> length (cells ! k) = length sig"
    using place [OF sga] by (simp add: cells_def staged_values_def)
  have put: "put_rows rs a (chunk_pool u) = (ls, set_rows (zip ls rs) (b\<lparr>column_versions := v\<rparr>), q)"
  proof (rule put_rows_many [OF ok])
    show "\<forall>r \<in> set rs. length (row_cells r) = length (signature a)"
      by (auto simp: rs_def batch_rows_def set_zip cells_def staged_values_def sga)
  qed (use m sl(2) in \<open>simp add: rs_def cells_def\<close>)
  have loopu: "create_each vt immut (map comps [0..<n]) u =
      Some (es, with_rows w' ((archetypes u)[unat ai := set_rows (zip ls rs) (b\<lparr>column_versions := v\<rparr>)]) q)"
  proof (rule create_each_eq [where cells = cells and ls = ls])
    show "\<forall>c \<in> set (map comps [0..<n]). map fst (exchange_sort (map (\<lambda>(c, v). (c, vt c)) c)) = sig"
      by (simp add: comps_def sg(1)) (simp add: sig_def srt_def)
  qed (use fd(1) ix fc(2) ok sga ntu cl sl put in \<open>simp_all add: a_def cells_def rs_def\<close>)
  obtain c0 cs where c0: "map comps [0..<n] = c0 # cs" using False by (cases n) (simp_all add: upt_conv_Cons del: upt_Suc)
  have "c0 = comps 0" using c0 False by (metis list.sel(1) list.map_sel(1) upt_conv_Cons neq0_conv list.simps(9))
  then have ce: "create_entity_impl vt immut c0 u = create_entity_impl vt immut c0 w"
    using foc fd(2) [OF ix] nt ntu sg(3)
    by (simp add: create_entity_impl_def comps_def sg(1) srt_def [symmetric] sig_def [symmetric])
  have "create_each vt immut (map comps [0..<n]) w = create_each vt immut (map comps [0..<n]) u" using ce by (simp add: c0)
  then have "create_each vt immut (map (batch_components vt dflt spans ids) [0..<n]) w =
      Some (es, with_rows w' ((archetypes u)[unat ai := set_rows (zip ls rs) (b\<lparr>column_versions := v\<rparr>)]) q)"
    using loopu by (simp add: comps_def)
  moreover have "forget_versions (with_rows w' ((archetypes u)[unat ai := set_rows (zip ls rs) b]) q) =
      forget_versions (with_rows w' ((archetypes u)[unat ai := set_rows (zip ls rs) (b\<lparr>column_versions := v\<rparr>)]) q)"
    by (simp add: forget_versions_def with_rows_def map_update set_rows_versions forget_arch_versions set_rows_length_versions v)
  ultimately show ?thesis using bulk by blast
qed

end
