(* ===== verification/Bulk_Properties.thy ===== *)
theory Bulk_Properties
  imports World_Properties Bulk_Equivalence
begin

text \<open>
  What bulk creation promises: it is the loop of single creations, in identifiers and in effect.
\<close>

lemma world_inv_forget:
  fixes w :: "'v World"
  shows "world_inv vt (forget_versions w) = world_inv vt w"
proof -
  have rows: "arch_rows (forget_arch a) = arch_rows a" "arch_ok (forget_arch a) = arch_ok a" for a :: "'v Archetype"
    by (simp_all add: forget_arch_def arch_rows_def arch_ok_def)
  have wf: "arch_wf vt (forget_arch a) = arch_wf vt a" for a :: "'v Archetype"
    unfolding arch_wf_def rows by (simp add: forget_arch_def)
  have sl: "slot_at (forget_versions w) i = slot_at w i" for i by (simp add: forget_versions_def slot_at_def)
  have lo: "location (forget_versions w) = location w" by (rule ext) (rule location_cong, rule sl)
  have gr: "grid (forget_versions w) = grid w"
    by (intro ext) (simp add: grid_def forget_versions_def forget_arch_def get_row_def)
  have "index_ok (forget_versions w) = index_ok w"
    by (auto simp: index_ok_def forget_versions_def forget_arch_def)
  then have "archs_inv vt (forget_versions w) = archs_inv vt w"
    using wf by (simp add: archs_inv_def) (simp add: forget_versions_def)
  moreover have "table_inv (forget_versions w) = table_inv w"
    by (simp add: table_inv_def chain_ok_def forget_versions_def)
  ultimately show ?thesis by (simp add: world_inv_iff lo gr)
qed

lemma entity_view_forget: "entity_view (forget_versions w) = entity_view w"
proof -
  have sl: "slot_at (forget_versions w) i = slot_at w i" for i by (simp add: forget_versions_def slot_at_def)
  have lo: "location (forget_versions w) = location w" by (rule ext) (rule location_cong, rule sl)
  have gr: "grid (forget_versions w) = grid w"
    by (intro ext) (simp add: grid_def forget_versions_def forget_arch_def get_row_def)
  have sg: "signature (archetypes (forget_versions w) ! i) = signature (archetypes w ! i)" if "grid w i l = Some r" for i l r
    using that by (simp add: forget_versions_def forget_arch_def grid_def split: if_splits)
  show ?thesis unfolding entity_view_def lo gr by (rule ext) (auto split: option.splits simp: sg)
qed

text \<open>C29: A batch creation hands out the identifiers of the loop of single creations, in order, and leaves
  the same world but for the version counters of the columns; in particular the same entities with the
  same components, and the invariant holds after the one exactly when it holds after the other.\<close>

theorem bulk_create_equals_loop:
  fixes w :: "'v World"
  assumes "world_inv vt w" "\<not> in_tick_or_log w" "length (archetypes w) + 1 < 2 ^ 32"
    "length (entity_slots w) + n \<le> 2 ^ 32" "distinct ids" "sig_fits vt ids" "spans_fit vt ids spans n" "length out_ids = n"
  shows "\<exists>es w1 w2. create_entities_impl vt dflt immut ids spans n out_ids w = Some (True, es, w1)
    \<and> create_each vt immut (map (batch_components vt dflt spans ids) [0..<n]) w = Some (es, w2)
    \<and> forget_versions w1 = forget_versions w2 \<and> entity_view w1 = entity_view w2 \<and> world_inv vt w1 = world_inv vt w2"
proof -
  obtain es w1 w2 where "create_entities_impl vt dflt immut ids spans n out_ids w = Some (True, es, w1)"
    "create_each vt immut (map (batch_components vt dflt spans ids) [0..<n]) w = Some (es, w2)"
    and f: "forget_versions w1 = forget_versions w2"
    using bulk_create_loop [OF assms, of dflt immut] by blast
  moreover have "entity_view w1 = entity_view w2" using f by (metis entity_view_forget)
  moreover have "world_inv vt w1 = world_inv vt w2" using f by (metis world_inv_forget)
  ultimately show ?thesis by blast
qed

theorem bulk_create_equals_loop_witness:
  "\<exists>es w1 w2. create_entities_impl demo_vt (\<lambda>_. 0 :: int) True [9, 7] (Some [[1, 2], [3, 4]]) 2 [INVALID_ENTITY_ID, INVALID_ENTITY_ID] empty_world = Some (True, es, w1)
    \<and> create_each demo_vt True [[(9, 1), (7, 3)], [(9, 2), (7, 4)]] empty_world = Some (es, w2) \<and> entity_view w1 = entity_view w2"
proof -
  have f: "sig_fits demo_vt [9, 7]" using can_hold_list [of demo_vt "[9, 7]"] demo_fits(3) by simp
  have s: "spans_fit demo_vt [9, 7] (Some [[1, 2], [3, 4 :: int]]) 2" by (simp add: spans_fit_def demo_vt_def)
  have b: "map (batch_components demo_vt (\<lambda>_. 0 :: int) (Some [[1, 2], [3, 4]]) [9, 7]) [0..<2] = [[(9, 1), (7, 3)], [(9, 2), (7, 4)]]"
    by (simp add: upt_rec batch_components_def bulk_span_index_map_def demo_vt_def)
  have e: "length (archetypes (empty_world :: int World)) = 0" "length (entity_slots (empty_world :: int World)) = 0" by (simp_all add: empty_world_def)
  show ?thesis
    using bulk_create_equals_loop [OF world_inv_empty demo_room(2) _ _ _ f s, of "[INVALID_ENTITY_ID, INVALID_ENTITY_ID]" "\<lambda>_. 0" True] e
    unfolding b by auto
qed

text \<open>Finalising a batch of reserved slots, on the fast path as on the fallback, is finalising the valid
  ones one after the other, but for the version counters.\<close>

theorem bulk_finalize_equals_loop:
  assumes "world_inv vt w" "length (archetypes w) + 1 < 2 ^ 32" "sig_fits vt sig" "sorted_wrt (<) sig"
    "list_all2 (block_ok (length ids)) (map vt sig) blocks" "distinct (map index ids)"
  shows "map_option forget_versions (finalize_reserved_entities_bulk ids sig (map vt sig) blocks w) =
    map_option forget_versions (finalize_each sig (map vt sig) blocks ids 0 w)"
proof (cases "ids = [] \<or> \<not> list_all (slot_reserved w) ids")
  case True
  then show ?thesis by (auto simp: finalize_reserved_entities_bulk_def)
next
  case False
  then obtain w1 w2 where "finalize_reserved_entities_bulk ids sig (map vt sig) blocks w = Some w1"
    "finalize_each sig (map vt sig) blocks ids 0 w = Some w2" "forget_versions w1 = forget_versions w2"
    using bulk_reserved [OF assms(1-6)] by blast
  then show ?thesis by simp
qed


theorem bulk_finalize_equals_loop_witness:
  "\<exists>e w. reserve_entity_slot (empty_world :: int World) = Some (e, w) \<and>
     map_option forget_versions (finalize_reserved_entities_bulk [e] [7] [demo_vt 7] [[5]] w) =
     map_option forget_versions (finalize_each [7] [demo_vt 7] [[5]] [e] 0 w)"
proof -
  obtain e and w :: "int World" where r: "reserve_entity_slot empty_world = Some (e, w)" "world_inv demo_vt w"
    using reserve_total [OF world_inv_empty demo_room(1)] by metis
  have "length (archetypes w) = 0"
    using r(1) by (auto simp: reserve_entity_slot_def allocate_entity_slot_def empty_world_def set_slot_def Let_def bind_eq_Some_conv split: if_splits)
  moreover have "sig_fits demo_vt [7]" using can_hold_list [of demo_vt "[7]"] demo_fits(1) by simp
  ultimately show ?thesis
    using bulk_finalize_equals_loop [OF r(2), of "[7]" "[e]" "[[5]]"] r(1) by (auto simp: block_ok_def demo_vt_def)
qed

end
