(* ===== verification/World_Histories.thy ===== *)
theory World_Histories
  imports World_Blocks Bulk_Properties
begin

text \<open>
  What happens to the entities of a World, in any order, from the empty World on: single and batch
  creation, reservation and finalisation, destruction, migration, saving and loading, queries, the flags
  of a tick and the aging of the chunk pool at its end.  Applying a command buffer, which is made of these,
  is the subject of \<open>Command_Safety\<close>.
\<close>

section \<open>Batches along the updates\<close>

locale along_batches = along_updates R for R :: "'v World \<Rightarrow> 'v World \<Rightarrow> bool" +
  assumes R_rows: "arch_at w i = Some a \<Longrightarrow> reserve_rows n a (chunk_pool w) = Some (rs, b, q) \<Longrightarrow>
      R w ((set_arch i b w)\<lparr>chunk_pool := q\<rparr>)"
begin

lemma fill_column:
  "arch_at w i = Some a \<Longrightarrow> fill_column col ls vs a = Some b \<Longrightarrow> R w (set_arch i b w)"
proof (induction col ls vs a arbitrary: w rule: fill_column.induct)
  case (1 col vs a)
  then have "set_arch i b w = w" by (auto simp: set_arch_def arch_at_iff)
  then show ?case by (simp add: R_refl)
next
  case (3 col l ls v vs a)
  obtain c where c: "with_cells l (construct_cell col v) a = Some c" "fill_column col ls vs c = Some b"
    using 3(3) by (auto simp: bind_eq_Some_conv)
  have at: "arch_at (set_arch i c w) i = Some c" using arch_at_set [OF 3(2), where b = c and p = "chunk_pool w"] by (simp add: set_arch_def)
  note R_cells [OF 3(2) c(1)]
  also note 3(1) [OF c(1) at c(2)]
  finally show ?case by (simp add: set_arch_def)
qed simp

lemma construct_columns:
  "arch_at w i = Some a \<Longrightarrow> construct_columns dflt spans n ls cs a = Some b \<Longrightarrow> R w (set_arch i b w)"
proof (induction cs arbitrary: a w)
  case Nil
  then have "set_arch i b w = w" by (auto simp: set_arch_def arch_at_iff)
  then show ?case by (simp add: R_refl)
next
  case (Cons x cs)
  obtain c pos where x: "x = (c, pos)" by fastforce
  show ?case
  proof (cases pos)
    case None
    then show ?thesis using Cons x by simp
  next
    case (Some k)
    obtain col vs d where d: "fill_column col ls vs a = Some d" "construct_columns dflt spans n ls cs d = Some b"
      using Cons.prems(2) x Some by (auto simp: bind_eq_Some_conv)
    have at: "arch_at (set_arch i d w) i = Some d" using arch_at_set [OF Cons.prems(1), where b = d and p = "chunk_pool w"] by (simp add: set_arch_def)
    note fill_column [OF Cons.prems(1) d(1)]
    also note Cons.IH [OF at d(2)]
    finally show ?thesis by (simp add: set_arch_def)
  qed
qed

lemma place_created: "place_created im ai ls w = Some (es, w') \<Longrightarrow> R w w'"
proof (induction ls arbitrary: w es)
  case (Cons l ls)
  obtain e w1 a b w2 w3 es' where o: "allocate_entity_slot w = Some (e, w1)" "arch_at w1 ai = Some a" "write_entity l e a = Some b"
    "place_slot e ai l (set_arch ai b w1) = Some w2" "stamp_immutable e im w2 = Some w3" "place_created im ai ls w3 = Some (es', w')"
    using Cons.prems by (auto simp: bind_eq_Some_conv)
  obtain r where b: "b = set_row l r a" using write_is_set_row [OF o(3)] by blast
  note along_slots(6) [OF o(1)]
  also note R_row [OF o(2), of l r, folded b]
  also note along_slots(4) [OF o(4)]
  also note along_slots(5) [OF o(5)]
  also note Cons.IH [OF o(6)]
  finally show ?case .
qed (simp add: R_refl)

lemma batch:
  assumes "create_entities_impl vt dflt im ids spans n out_ids w = Some (ok, es, w')"
  shows "R w w'"
proof (cases "w' = w")
  case False
  define srt where "srt = exchange_sort (map (\<lambda>c. (c, vt c)) ids)"
  obtain ai w1 where f: "find_or_create_archetype (map fst srt) (map snd srt) w = (ai, w1)" by fastforce
  obtain a ranges b p es' w2 c d where o: "arch_at w1 ai = Some a" "reserve_rows n a (chunk_pool w1) = Some (ranges, b, p)"
    "place_created im ai (concat (map range_locations ranges)) ((set_arch ai b w1)\<lparr>chunk_pool := p\<rparr>) = Some (es', w2)"
    "arch_at w2 ai = Some c"
    "construct_columns dflt spans n (concat (map range_locations ranges)) (zip ids (bulk_span_index_map vt ids)) c = Some d"
    "w' = set_arch ai d w2"
    using assms False f unfolding create_entities_impl_def Let_def srt_def [symmetric] by (auto split: if_splits elim!: bind_SomeE)
  note R_new [OF f]
  also note R_rows [OF o(1,2)]
  also note place_created [OF o(3)]
  also note construct_columns [OF o(4,5)]
  finally show ?thesis by (simp add: o(6))
qed (simp add: R_refl)

end

section \<open>Reserved ranges\<close>

lemma block_step_trans: "block_step a p b q \<Longrightarrow> block_step b q c r \<Longrightarrow> block_step a p c r"
  by (simp add: block_step_def)

lemma block_alloc: "allocate_chunk a p = (b, q) \<Longrightarrow> block_step a p b q \<and> chunks b \<noteq> [] \<and> arch_key b = arch_key a"
  using acquire_owned [of p] by (auto simp: allocate_chunk_def block_step_def arch_blocks_def arch_key_def split: prod.splits)

lemma reserve_rows_loop_kept:
  "reserve_rows_loop n a p out = Some (rs, b, q) \<Longrightarrow> block_step a p b q \<and> arch_key b = arch_key a"
proof (induction n arbitrary: a p out rule: less_induct)
  case (less n)
  show ?case
  proof (cases "n = 0")
    case True
    then show ?thesis using less.prems by (simp add: reserve_rows_loop.simps block_step_same)
  next
    case False
    define ap where "ap = (if needs_chunk a then allocate_chunk a p else (a, p))"
    define k where "k = min n (chunk_capacity (fst ap) - chunk_count (chunks (fst ap) ! (length (chunks (fst ap)) - 1)))"
    have "k \<noteq> 0" using less.prems False
      unfolding reserve_rows_loop.simps [of n a p out] Let_def case_prod_unfold ap_def [symmetric] k_def [symmetric]
      by (auto split: if_splits)
    moreover from this obtain o' where "reserve_rows_loop (n - k) (add_raw_rows k (fst ap)) (snd ap) o' = Some (rs, b, q)"
      using less.prems False
      unfolding reserve_rows_loop.simps [of n a p out] Let_def case_prod_unfold ap_def [symmetric] k_def [symmetric] by auto
    ultimately have ih: "block_step (add_raw_rows k (fst ap)) (snd ap) b q" "arch_key b = arch_key (add_raw_rows k (fst ap))"
      using less.IH [of "n - k"] False by auto
    have ap: "block_step a p (fst ap) (snd ap)" "chunks (fst ap) \<noteq> []" "arch_key (fst ap) = arch_key a"
      using block_alloc [of a p "fst ap" "snd ap"] by (auto simp: ap_def block_step_same needs_chunk_def)
    have raw: "block_step (fst ap) (snd ap) (add_raw_rows k (fst ap)) (snd ap)" by (rule block_step_same [OF blocks_raw [OF ap(2)]])
    have "arch_key (add_raw_rows k (fst ap)) = arch_key (fst ap)" by (simp add: arch_key_def add_raw_rows_def)
    then show ?thesis using block_step_trans [OF ap(1) block_step_trans [OF raw ih(1)]] ih(2) ap(3) by simp
  qed
qed

lemma reserve_rows_kept:
  assumes "reserve_rows n a p = Some (rs, b, q)"
  shows "block_step a p b q" "arch_key b = arch_key a"
proof -
  have "block_step a p b q \<and> arch_key b = arch_key a"
  proof (cases "n = 0")
    case False
    then obtain out c where c: "reserve_rows_loop n a p [] = Some (out, c, q)"
      "b = bump_versions (of_nat (length out)) (c\<lparr>total_entity_count := total_entity_count c + n\<rparr>)"
      using assms by (auto simp: reserve_rows_def bind_eq_Some_conv)
    have "arch_blocks b = arch_blocks c" "arch_key b = arch_key c" by (simp_all add: c(2) arch_key_def arch_blocks_def bump_versions_def)
    then show ?thesis using reserve_rows_loop_kept [OF c(1)] block_step_trans block_step_same by metis
  qed (use assms in \<open>simp add: reserve_rows_def block_step_same\<close>)
  then show "block_step a p b q" "arch_key b = arch_key a" by simp_all
qed

interpretation frame_batches: along_batches world_frame
  by unfold_locales (rule world_frame_trans [OF frame_archetype frame_pool], assumption, rule reserve_rows_kept)

interpretation block_batches: along_batches blocks_kept
  by unfold_locales (rule blocks_step, assumption, rule reserve_rows_kept)

section \<open>Reachable worlds\<close>

text \<open>The operations as a step relation, each under the bounds of its refinement property; a batch may
  need an index for every entity.\<close>

inductive world_step :: "vtables_of \<Rightarrow> 'v World \<Rightarrow> 'v World \<Rightarrow> bool" for vt where
  step_create: "\<lbrakk>has_room w; distinct (map fst comps); can_hold vt (fst ` set comps);
      create_entity_impl vt im comps w = Some (e, w')\<rbrakk> \<Longrightarrow> world_step vt w w'"
| step_batch: "\<lbrakk>length (archetypes w) + n < 2 ^ 32; length (entity_slots w) + n \<le> 2 ^ 32; distinct ids; can_hold vt (set ids);
      spans_fit vt ids spans n; create_entities_impl vt dflt im ids spans n out_ids w = Some (ok, es, w')\<rbrakk> \<Longrightarrow> world_step vt w w'"
| step_reserve: "\<lbrakk>has_room w; reserve_entity_slot w = Some (e, w')\<rbrakk> \<Longrightarrow> world_step vt w w'"
| step_finalize: "\<lbrakk>has_room w; sorted_wrt (<) sig; can_hold vt (set sig); cells_live vt sig vals;
      finalize_reserved_entity e sig (map vt sig) vals w = Some w'\<rbrakk> \<Longrightarrow> world_step vt w w'"
| step_drop: "world_step vt w (drop_reserved_slot e w)"
| step_destroy: "destroy_entity e w = Some w' \<Longrightarrow> world_step vt w w'"
| step_add: "\<lbrakk>has_room w; \<And>m. entity_view w e = Some m \<Longrightarrow> can_hold vt (insert c (dom m));
      add_component vt c v e w = Some (p, w')\<rbrakk> \<Longrightarrow> world_step vt w w'"
| step_remove: "\<lbrakk>has_room w; remove_component c e w = Some (b, w')\<rbrakk> \<Longrightarrow> world_step vt w w'"
| step_load: "\<lbrakk>length (snap_slots snap) \<le> 2 ^ 32; restore_identity snap w = (b, w')\<rbrakk> \<Longrightarrow> world_step vt w w'"
| step_restore: "\<lbrakk>has_room w; distinct (map fst comps); can_hold vt (fst ` set comps);
      restore_entity vt e comps w = Some (b, w')\<rbrakk> \<Longrightarrow> world_step vt w w'"
| step_tick: "world_step vt w (w\<lparr>in_tick := b, in_apply_phase := b'\<rparr>)"
| step_age: "world_step vt w (w\<lparr>chunk_pool := pool_advance_tick (chunk_pool w)\<rparr>)"
| step_query: "resolve_query_cache key w = (q, w') \<Longrightarrow> world_step vt w w'"

inductive reachable_world :: "vtables_of \<Rightarrow> 'v World \<Rightarrow> bool" for vt where
  reach_empty: "reachable_world vt empty_world"
| reach_step: "reachable_world vt w \<Longrightarrow> world_step vt w w' \<Longrightarrow> reachable_world vt w'"

text \<open>The operations that \<open>World_Properties\<close> does not treat keep the invariant too.\<close>

lemma create_each_inv:
  "world_inv vt w \<Longrightarrow> \<not> in_tick_or_log w \<Longrightarrow> length (archetypes w) + length css < 2 ^ 32 \<Longrightarrow> length (entity_slots w) + length css \<le> 2 ^ 32 \<Longrightarrow>
   \<forall>comps \<in> set css. distinct (map fst comps) \<and> can_hold vt (fst ` set comps) \<Longrightarrow>
   create_each vt im css w = Some (es, w') \<Longrightarrow> world_inv vt w'"
proof (induction css arbitrary: w es)
  case (Cons comps css)
  obtain e w1 es' where o: "create_entity_impl vt im comps w = Some (e, w1)" "create_each vt im css w1 = Some (es', w')"
    using Cons.prems(6) by (auto simp: bind_eq_Some_conv)
  have room: "has_room w" using Cons.prems(3,4) by (simp add: has_room_def)
  have inv: "world_inv vt w1" using create_total [OF Cons.prems(1) room, of comps im] Cons.prems(5) o(1) by auto
  have nt: "\<not> in_tick_or_log w1" using frame_create [OF o(1)] Cons.prems(2) by (simp add: world_frame_def in_tick_or_log_def)
  note g = create_growth [OF o(1) Cons.prems(2)]
  show ?case by (rule Cons.IH [OF inv nt _ _ _ o(2)]) (use g Cons.prems(3-5) in simp_all)
qed simp

lemma batch_inv:
  assumes "world_inv vt w" "length (archetypes w) + n < 2 ^ 32" "length (entity_slots w) + n \<le> 2 ^ 32" "distinct ids" "can_hold vt (set ids)"
    "spans_fit vt ids spans n" "create_entities_impl vt dflt im ids spans n out_ids w = Some (ok, es, w')"
  shows "world_inv vt w'"
proof (cases "in_tick_or_log w \<or> length out_ids \<noteq> n \<or> n = 0")
  case True
  then have "w' = w" using assms(7) by (auto simp: create_entities_impl_def bulk_create_sizes_ok_def split: if_splits)
  then show ?thesis using assms(1) by simp
next
  case False
  have r: "length (archetypes w) + 1 < 2 ^ 32" using assms(2) False by simp
  have f: "sig_fits vt ids" by (rule can_hold_list [OF assms(5,4)])
  obtain w2 es2 where w2: "create_each vt im (map (batch_components vt dflt spans ids) [0..<n]) w = Some (es2, w2)"
    "forget_versions w' = forget_versions w2"
    using bulk_create_loop [OF assms(1) _ r assms(3,4) f assms(6), of out_ids dflt im] False assms(7) by auto
  have "world_inv vt w2"
  proof (rule create_each_inv [OF assms(1) _ _ _ _ w2(1)])
    have "set ids = fst ` set (batch_components vt dflt spans ids k)" for k
      using arg_cong [OF batch_components_ids [of vt dflt spans ids k], of set] by simp
    then show "\<forall>comps \<in> set (map (batch_components vt dflt spans ids) [0..<n]). distinct (map fst comps) \<and> can_hold vt (fst ` set comps)"
      using assms(4,5) by (simp add: batch_components_ids)
  qed (use False assms in simp_all)
  then show ?thesis using w2(2) by (metis world_inv_forget)
qed

lemma finalize_inv:
  assumes "world_inv vt w" "has_room w" "sorted_wrt (<) sig" "can_hold vt (set sig)" "cells_live vt sig vals"
    "finalize_reserved_entity e sig (map vt sig) vals w = Some w'"
  shows "world_inv vt w'"
proof (cases "slot_reserved w e")
  case True
  then obtain s where s: "slot_at w (index e) = Some s" "alive s" "slot_generation s = generation e" "archetype_index s = INVALID_ARCHETYPE"
    by (auto simp: slot_reserved_def split: option.splits)
  have "sig_fits vt sig" using can_hold_list [OF assms(4)] assms(3) by (simp add: strict_sorted_iff)
  then show ?thesis using finalize_spec [OF assms(1) _ s _ assms(3,5)] assms(2,6) by (auto simp: has_room_def)
next
  case False
  then have "w' = w" using assms(6) by (auto simp: finalize_reserved_entity_def slot_reserved_def split: option.splits if_splits)
  then show ?thesis using assms(1) by simp
qed

lemma restore_inv:
  assumes "world_inv vt w" "has_room w" "distinct (map fst comps)" "can_hold vt (fst ` set comps)"
    "restore_entity vt e comps w = Some (b, w')"
  shows "world_inv vt w'"
proof (cases "w' = w")
  case False
  define srt where "srt = exchange_sort (map (\<lambda>(c, v). (c, vt c)) comps)"
  note sg = exchange_sort_signature [OF assms(3), of vt, folded srt_def]
  have "finalize_reserved_entity e (map fst srt) (map snd srt) (staged_values vt comps (map fst srt)) w = Some w'"
    using assms(5) False by (auto simp: restore_entity_def srt_def [symmetric] Let_def bind_eq_Some_conv split: if_splits)
  note f = this [unfolded sg(2)]
  show ?thesis
    by (rule finalize_inv [OF assms(1,2) sg(1) _ _ f]) (use assms(4) sg(3) staged_live [of "map fst srt" comps vt] in simp_all)
qed (use assms in simp)

lemma load_inv:
  assumes "world_inv vt w" "length (snap_slots snap) \<le> 2 ^ 32" "restore_identity snap w = (b, w')"
  shows "world_inv vt w'"
proof (cases "w' = w")
  case False
  have gen: "generation_ok g" if "g \<noteq> 0" "g AND DEFERRED_GENERATION_BIT = 0" for g
    using that deferred_iff [of g] by (auto simp: generation_ok_def unat_gt_0 Suc_le_eq)
  from False have g: "\<not> in_tick w" "entity_slots w = []" "list_all (\<lambda>r. generation_ok (rec_generation r)) (snap_slots snap)"
    "distinct (snap_free_list snap)" "\<forall>i \<in> set (snap_free_list snap). unat i < length (snap_slots snap)"
    using assms(3) free_list_ok_iff [of "replicate (length (snap_slots snap)) False" "length (snap_slots snap)" "snap_free_list snap"]
    by (auto simp: restore_identity_def list_ex_iff list_all_iff intro: gen split: if_splits)
  obtain v where v: "restore_identity snap w = (True, v)" "chain_ok v (snap_free_list snap)"
    "map slot_generation (entity_slots v) = map rec_generation (snap_slots snap)"
    "\<forall>i. unat i < length (entity_slots v) \<longrightarrow> i \<notin> set (snap_free_list snap) \<longrightarrow>
          entity_slots v ! unat i = restored_slot (snap_slots snap ! unat i)"
    using restore_identity_ok [OF g] by blast
  have [simp]: "v = w'" using v(1) assms(3) by simp
  have same: "archetypes w' = archetypes w" "archetype_by_signature w' = archetype_by_signature w"
    using assms(3) by (auto simp: restore_identity_def split: if_splits)
  have len: "length (entity_slots w') = length (snap_slots snap)" using arg_cong [OF v(3), of length] by simp
  have "\<forall>g \<in> set (map slot_generation (entity_slots v)). generation_ok g"
    unfolding v(3) using g(3) by (auto simp: list_all_iff)
  then have "\<forall>s \<in> set (entity_slots w'). generation_ok (slot_generation s)" by simp
  then have t: "table_inv w'" using v(2) len assms(2) by (auto simp: table_inv_def)
  have dead: "\<not> eid_is_alive w' x" for x
  proof
    assume a: "eid_is_alive w' x"
    then obtain s where s: "slot_at w' (index x) = Some s" "alive s" "archetype_index s \<noteq> INVALID_ARCHETYPE"
      by (auto simp: eid_is_alive_def split: option.splits if_splits)
    then have i: "unat (index x) < length (entity_slots w')" "s = entity_slots w' ! unat (index x)" by (simp_all add: slot_at_iff)
    have "index x \<notin> set (snap_free_list snap)"
      using s(2) i v(2) by (auto simp: chain_ok_def dead_slots_def)
    then show False using v(4) i s(3) by (simp add: restored_slot_def)
  qed
  have "location w x = None" for x using g(2) by (simp add: location_def eid_is_alive_def slot_at_def arr_get_def)
  moreover have "location w' x = None" for x using dead by (simp add: location_def)
  ultimately have "location w' = location w" by (simp add: fun_eq_iff)
  then show ?thesis using assms(1) t same grid_cong [OF same(1)] by (simp add: world_inv_iff archs_inv_def index_ok_def)
qed (use assms in simp)

lemma step_inv:
  assumes "world_step vt w w'" "world_inv vt w"
  shows "world_inv vt w'"
  using assms
proof (induction rule: world_step.induct)
  case (step_create w comps im e w')
  then show ?case using create_total [of vt w comps im] by auto
next
  case (step_batch w n ids spans dflt im out_ids ok es w')
  then show ?case by (intro batch_inv [of vt w n ids spans dflt im out_ids ok es w'])
next
  case (step_reserve w e w')
  then show ?case using reserve_total [of vt w] by auto
next
  case (step_finalize w sig vals e w')
  then show ?case by (intro finalize_inv [of vt w sig vals e w'])
next
  case (step_drop w e)
  then show ?case using drop_reserved_inv by blast
next
  case (step_destroy e w w')
  then show ?case using destroy_total [of vt w e] by auto
next
  case (step_add w e c v p w')
  obtain p1 w1 where "add_component vt c v e w = Some (p1, w1)" "world_inv vt w1"
    using add_total [OF step_add(4) step_add(1), of e c v] step_add(2) by blast
  then show ?case using step_add(3) by simp
next
  case (step_remove w c e b w')
  then show ?case using remove_total [of vt w c e] by auto
next
  case (step_load snap w b w')
  then show ?case by (intro load_inv [of vt w snap b w'])
next
  case (step_restore w comps e b w')
  then show ?case by (intro restore_inv [of vt w comps e b w'])
next
  case (step_tick w b b')
  then show ?case by (rule world_inv_frame) simp_all
next
  case (step_age w)
  then show ?case by (rule world_inv_frame) simp_all
next
  case (step_query key w q w')
  then show ?case by (intro world_inv_frame [of vt w w']) (auto simp: resolve_query_cache_def Let_def split: option.splits if_splits)
qed

text \<open>A step is a sequence of updates, or it sets flags, ages the pool or answers a query.\<close>

lemma load_slots_only: "restore_identity snap w = (b, w') \<Longrightarrow> slots_only w w'"
  by (auto simp: restore_identity_def slots_only_iff split: if_splits)

lemma restore_finalizes:
  assumes "restore_entity vt e comps w = Some (b, w')"
  obtains "w' = w" | sig vts vals where "finalize_reserved_entity e sig vts vals w = Some w'"
  using assms by (auto simp: restore_entity_def Let_def bind_eq_Some_conv split: if_splits)


context along_batches begin

lemma along_step:
  assumes "world_step vt w w'"
  shows "R w w' \<or> (\<exists>b b'. w' = w\<lparr>in_tick := b, in_apply_phase := b'\<rparr>)
    \<or> w' = w\<lparr>chunk_pool := pool_advance_tick (chunk_pool w)\<rparr> \<or> (\<exists>key q. resolve_query_cache key w = (q, w'))"
  using assms
proof cases
  case (step_restore comps e b)
  then show ?thesis using restore_finalizes [OF step_restore(4)] finalize R_refl by metis
qed (auto intro: batch along_operations R_slots [OF load_slots_only])

end

lemma step_cache:
  assumes "world_step vt w w'" "world_inv vt w" "cache_ok w"
  shows "cache_ok w'"
proof -
  have len: "length (archetypes w') < 2 ^ 32" using step_inv [OF assms(1,2)] by (simp add: world_inv_iff archs_inv_def index_ok_def)
  have frame: ?thesis if "world_frame w w'" using cache_ok_frame [OF assms(3) that] len by blast
  show ?thesis using frame_batches.along_step [OF assms(1)]
  proof (elim disjE exE)
    fix b b'
    assume "w' = w\<lparr>in_tick := b, in_apply_phase := b'\<rparr>"
    then show ?thesis using assms(3) by (simp add: cache_ok_def counted_def)
  next
    fix key q
    assume "resolve_query_cache key w = (q, w')"
    then show ?thesis by (rule resolve_fresh(2) [OF assms(3)])
  qed (use frame frame_pool in auto)
qed

lemma step_blocks:
  assumes "world_step vt w w'"
  shows "blocks_kept w w'"
  using block_batches.along_step [OF assms]
proof (elim disjE exE)
  fix key q
  assume "resolve_query_cache key w = (q, w')"
  then show "blocks_kept w w'" by (intro blocks_same) (auto simp: resolve_query_cache_def Let_def split: option.splits if_splits)
qed (auto intro: blocks_same blocks_aging)

lemma reachable_invs: "reachable_world vt w \<Longrightarrow> world_inv vt w \<and> cache_ok w \<and> blocks_ok w"
proof (induction rule: reachable_world.induct)
  case reach_empty
  then show ?case using world_inv_empty blocks_empty by (auto simp: cache_ok_def counted_def empty_world_def)
next
  case (reach_step w w')
  then show ?case using step_inv step_cache step_blocks unfolding blocks_kept_def by blast
qed

text \<open>C5: In a reachable World the chunks of all archetypes hold pairwise different blocks, and these are exactly
  the blocks that the heap has allocated and the pool does not cache: no chunk uses a freed or cached
  block, and no block is lost.\<close>

theorem chunk_blocks_exact:
  assumes "reachable_world vt w"
  shows "distinct (concat (map (\<lambda>a. map chunk_block (chunks a)) (archetypes w)))
    \<and> set (concat (map (\<lambda>a. map chunk_block (chunks a)) (archetypes w)))
      = live_blocks (heap (chunk_pool w)) - set (cached (chunk_pool w))
    \<and> distinct (cached (chunk_pool w)) \<and> set (cached (chunk_pool w)) \<subseteq> live_blocks (heap (chunk_pool w))"
  using blocks_listed [of w] reachable_invs [OF assms] by (simp add: blocks_ok_def pool_inv_def pool_owned_def)

text \<open>C16: Every world reached from the empty one keeps the invariant: slots and rows point at each other,
  every archetype is well formed and found under its signature, and the free list threads exactly the
  dead slots.\<close>

theorem reachable_world_inv:
  assumes "reachable_world vt w"
  shows "world_inv vt w"
  using reachable_invs [OF assms] by blast

text \<open>C22: In a reachable world a query, cached or not, lists exactly the archetypes that have every required
  and no excluded component, in creation order.\<close>

theorem query_cache_exact:
  assumes "reachable_world vt w" "resolve_query_cache (query_build req exc) w = (q, w')"
  shows "archetype_indices q = map of_nat (filter
      (\<lambda>i. set req \<subseteq> set (signature (archetypes w ! i)) \<and> set exc \<inter> set (signature (archetypes w ! i)) = {})
      [0..<length (archetypes w)])"
proof -
  have inv: "world_inv vt w" "cache_ok w" using reachable_invs [OF assms(1)] by auto
  have "\<forall>a \<in> set (archetypes w). arch_wf vt a" using inv(1) by (simp add: world_inv_iff archs_inv_def)
  then show ?thesis using scan_selects [of "archetypes w" vt "query_build req exc"] resolve_fresh(1) [OF inv(2) assms(2)]
    by (simp add: query_build_selects)
qed

text \<open>C21: In a reachable world an iteration visits every live entity that has all the iterated and none of
  the excluded components exactly once, with its components, and nothing else.\<close>

theorem for_each_visits:
  assumes "reachable_world vt w"
  shows "\<exists>rows w'. for_each_with_entity cs (query_build cs exc) w = Some (rows, w') \<and> distinct (map fst rows)
    \<and> set rows = {(Some e, map (\<lambda>c. the (m c)) cs) | e m.
        entity_view w e = Some m \<and> set cs \<subseteq> dom m \<and> set exc \<inter> dom m = {}}"
  using for_each_rows [of vt w "query_build cs exc" cs] reachable_invs [OF assms]
  by (simp add: wanted_def query_build_selects) (simp add: query_build_def)



section \<open>Concrete worlds\<close>

lemma demo_reached:
  assumes "create_entity_impl demo_vt False [(7, 5 :: int)] empty_world = Some (e, w)"
  shows "reachable_world demo_vt w"
  using reach_step [OF reach_empty step_create [OF demo_room(1) _ _ assms]] demo_fits(1) by simp

theorem reachable_world_inv_witness:
  "\<exists>e w. create_entity_impl demo_vt False [(7, 5 :: int)] empty_world = Some (e, w) \<and> world_inv demo_vt w"
proof -
  obtain e w where d: "create_entity_impl demo_vt False [(7, 5 :: int)] empty_world = Some (e, w)"
    by (rule demo_created)
  then show ?thesis using reachable_world_inv [OF demo_reached [OF d(1)]] by auto
qed

text \<open>A World with one archetype, of the components 7 and 9.\<close>

lemma demo_layout:
  "compute_chunk_layout [\<lparr>vt_size = 4, vt_align = 4\<rparr>] = (1365, [10920])"
  "compute_chunk_layout [\<lparr>vt_size = 4, vt_align = 4\<rparr>, \<lparr>vt_size = 4, vt_align = 4\<rparr>] = (1023, [8184, 12276])"
  by (simp_all add: compute_chunk_layout_def layout_at_capacity_def align_up_def CHUNK_BLOCK_BYTES_def SIZEOF_ENTITY_ID_def
      Let_def back_off.simps)

lemmas world_code = create_entity_impl_def in_tick_or_log_def find_or_create_archetype_def new_archetype_def demo_layout
  allocate_entity_slot_def slot_at_def set_slot_def arr_get_def insert_into_def arch_at_def reserve_row_def needs_chunk_def
  allocate_chunk_def pool_acquire_def heap_new_def add_raw_rows_def bump_versions_def write_entity_def with_cells_def
  get_row_def set_row_def chunk_count_def set_arch_def place_slot_def stamp_immutable_def empty_pool_def raw_row_def
  column_index_for_def construct_cell_def default_slot_def Let_def

definition pair_world :: "int World" where
  "pair_world = snd (the (create_entity_impl demo_vt False [(9, 4), (7, 5)] empty_world))"

lemma pair_world_created:
  "\<exists>e. create_entity_impl demo_vt False [(9, 4), (7, 5)] empty_world = Some (e, pair_world)"
  "map signature (archetypes pair_world) = [[7, 9]]" "map (length \<circ> chunks) (archetypes pair_world) = [1]"
  by (simp_all add: pair_world_def world_code empty_world_def demo_vt_def)

lemma pair_world_reached: "reachable_world demo_vt pair_world"
proof -
  obtain e where e: "create_entity_impl demo_vt False [(9, 4), (7, 5)] empty_world = Some (e, pair_world)"
    using pair_world_created(1) ..
  show ?thesis using reach_step [OF reach_empty step_create [OF demo_room(1) _ _ e]] demo_fits(3) by simp
qed

theorem query_cache_exact_witness:
  "\<exists>q w' q' w''. resolve_query_cache (query_build [7] []) pair_world = (q, w') \<and> archetype_indices q = [0]
    \<and> resolve_query_cache (query_build [7] [9]) pair_world = (q', w'') \<and> archetype_indices q' = []"
proof -
  have l: "length (archetypes pair_world) = 1" "signature (archetypes pair_world ! 0) = [7, 9]"
    using arg_cong [OF pair_world_created(2), of length] arg_cong [OF pair_world_created(2), of hd]
    by (simp_all add: hd_map hd_conv_nth flip: length_greater_0_conv)
  obtain q w' q' w'' where q: "resolve_query_cache (query_build [7] []) pair_world = (q, w')"
    "resolve_query_cache (query_build [7] [9]) pair_world = (q', w'')" by fastforce
  then show ?thesis
    using query_cache_exact [OF pair_world_reached q(1)] query_cache_exact [OF pair_world_reached q(2)] l by simp
qed

theorem chunk_blocks_exact_witness:
  "\<exists>x. concat (map (\<lambda>a. map chunk_block (chunks a)) (archetypes pair_world)) = [x]
     \<and> live_blocks (heap (chunk_pool pair_world)) - set (cached (chunk_pool pair_world)) = {x}"
proof -
  have "\<exists>x. concat (map (\<lambda>a. map chunk_block (chunks a)) (archetypes pair_world)) = [x]"
    by (simp add: pair_world_def world_code empty_world_def demo_vt_def)
  then obtain x where x: "concat (map (\<lambda>a. map chunk_block (chunks a)) (archetypes pair_world)) = [x]" ..
  show ?thesis using chunk_blocks_exact [OF pair_world_reached] unfolding x by auto
qed

theorem for_each_visits_witness:
  "\<exists>e w rows w'. create_entity_impl demo_vt False [(7, 5 :: int)] empty_world = Some (e, w)
     \<and> for_each_with_entity [7] (query_build [7] [9]) w = Some (rows, w') \<and> set rows = {(Some e, [Some 5])}"
proof -
  obtain e w where d: "create_entity_impl demo_vt False [(7, 5 :: int)] empty_world = Some (e, w)"
    "entity_view w = [e \<mapsto> [7 \<mapsto> Some 5]]" by (rule demo_created)
  have "\<And>x m. [e \<mapsto> [7 \<mapsto> Some 5]] x = Some m \<longleftrightarrow> x = e \<and> m = [7 \<mapsto> Some (5 :: int)]" by auto
  then have "{(Some x, map (\<lambda>c. the (m c)) [7]) | x m. entity_view w x = Some m \<and> set [7] \<subseteq> dom m \<and> set [9] \<inter> dom m = {}}
      = {(Some e, [Some 5])}" unfolding d(2) by auto
  then show ?thesis using for_each_visits [OF demo_reached [OF d(1)], of "[7]" "[9]"] d(1) by auto
qed

end
