(* ===== verification/Cached_References.thy ===== *)
theory Cached_References
  imports World_Histories
begin

text \<open>
  Cached component references (\<open>ecs/CachedRef.hpp\<close>) across a migration.  A reference compares only the
  version of the component's column with the one it saw; every archetype counts its columns from zero, so
  the version in the archetype the entity has moved to can be the same.
\<close>

section \<open>Addresses\<close>

definition chunk_at :: "'v World \<Rightarrow> nat \<Rightarrow> nat \<Rightarrow> nat" where
  "chunk_at w ai k = chunk_block (chunks (archetypes w ! ai) ! k)"

text \<open>A component with data has an address in the chunk of its row.\<close>

lemma located_address:
  assumes inv: "world_inv vt w" and m: "entity_view w e = Some m" and c: "c \<in> dom m" "vt_size (vt c) \<noteq> 0"
  obtains ai l r col ver where "location w e = Some (ai, l)" "get_row (archetypes w ! ai) l = Some r"
    "component_address vt c w e = Some (Some (chunk_at w ai (loc_chunk l), col, loc_row l))"
    "component_version_in c w e = Some ver" "ai < length (archetypes w)" "set (signature (archetypes w ! ai)) = dom m"
proof -
  obtain s r where lc: "slot_at w (index e) = Some s" "arch_at w (archetype_index s) = Some (archetypes w ! unat (archetype_index s))"
    "location w e = Some (unat (archetype_index s), slot_loc s)" "unat (archetype_index s) < length (archetypes w)"
    "arch_wf vt (archetypes w ! unat (archetype_index s))"
    "get_row (archetypes w ! unat (archetype_index s)) (slot_loc s) = Some r" "row_entity r = Some e"
    "m = row_view (signature (archetypes w ! unat (archetype_index s))) (row_cells r)"
    "cells_live vt (signature (archetypes w ! unat (archetype_index s))) (row_cells r)" "eid_is_alive w e"
    by (rule located [OF inv m])
  define a where "a = archetypes w ! unat (archetype_index s)"
  note lc = lc [folded a_def]
  have dom: "set (signature a) = dom m" using lc(8) row_view_dom [OF cells_live_length [OF lc(9)]] by simp
  then have "c \<in> set (signature a)" using c(1) by simp
  then obtain col where col: "column_index_for a c = Some col" "col < length (signature a)"
    using column_index_none_iff [of a c] column_index_iff [of a c] lc(5)
    by (cases "column_index_for a c") (auto simp: arch_wf_def strict_sorted_iff)
  have "loc_chunk (slot_loc s) < length (chunks a)" using lc(6) by (auto simp: get_row_def split: if_splits)
  then have "address_of w (archetype_index s, slot_loc s, col) =
      Some (chunk_at w (unat (archetype_index s)) (loc_chunk (slot_loc s)), col, loc_row (slot_loc s))"
    using lc(2) by (simp add: address_of_def arr_get_def chunk_at_def a_def)
  then have "component_address vt c w e = Some (Some (chunk_at w (unat (archetype_index s)) (loc_chunk (slot_loc s)), col, loc_row (slot_loc s)))"
    using lc(1,2,10) col(1) c(2) by (simp add: component_address_def get_component_def)
  moreover have "component_version_in c w e = Some (column_versions a ! col)"
    using lc(1,2,5,10) col by (simp add: component_version_in_def arr_get_def arch_wf_def)
  ultimately show thesis using that lc(3,4,6) dom by (simp add: a_def)
qed

section \<open>A migration moves the component\<close>

lemma distinct_concat_parts:
  "distinct (concat xss) \<Longrightarrow> i < length xss \<Longrightarrow> j < length xss \<Longrightarrow> i \<noteq> j \<Longrightarrow> set (xss ! i) \<inter> set (xss ! j) = {}"
proof (induction xss arbitrary: i j)
  case (Cons xs xss)
  have d: "set xs \<inter> set (xss ! k) = {}" if "k < length xss" for k using Cons.prems(1) that by (auto simp: disjoint_iff)
  show ?case using Cons d by (cases i; cases j) (auto simp: Int_commute)
qed simp

text \<open>The new row is reserved before the old one is given up, so their chunks hold different blocks.\<close>

lemma migrate_blocks:
  fixes w :: "'v World"
  assumes ok: "blocks_ok w" and m: "migrate_entity e target placed dropped w = Some ((ti, k), w')"
    and s: "slot_at w (index e) = Some s" "unat (archetype_index s) < length (archetypes w)" "ti \<noteq> archetype_index s"
    and l: "l < length (chunks (archetypes w ! unat (archetype_index s)))"
  shows "chunk_at w' (unat ti) (loc_chunk k) \<noteq> chunk_at w (unat (archetype_index s)) l"
proof -
  let ?i = "archetype_index s"
  obtain w1 t b p c src trow srow ds ss src1 w4 where o:
    "find_or_create_archetype (map fst target) (map snd target) w = (ti, w1)"
    "arch_at w1 ti = Some t" "reserve_row t (chunk_pool w1) = (k, b, p)" "write_entity k e b = Some c"
    "arch_at (set_arch ti (set_row k (trow\<lparr>row_cells := ds\<rparr>) c) ((set_arch ti c w1)\<lparr>chunk_pool := p\<rparr>)) ?i = Some src1"
    "compact_archetype_after_external_move ?i (slot_loc s)
       (set_arch ?i (set_row (slot_loc s) (srow\<lparr>row_cells := ss\<rparr>) src1)
          (set_arch ti (set_row k (trow\<lparr>row_cells := ds\<rparr>) c) ((set_arch ti c w1)\<lparr>chunk_pool := p\<rparr>))) = Some w4"
    "place_slot e ti k w4 = Some w'"
    by (rule migrate_steps [OF m]) (use s(1) in simp)
  let ?w2 = "(set_arch ti c w1)\<lparr>chunk_pool := p\<rparr>"
  have "blocks_ok ?w2"
    using blocks.R_new [OF o(1)] blocks.R_reserve_write [OF o(2-4)] ok by (simp add: blocks_kept_def)
  then have dist: "distinct (concat (map (\<lambda>a. map chunk_block (chunks a)) (archetypes ?w2)))" using blocks_listed by blast
  have old: "archetypes w1 ! unat ?i = archetypes w ! unat ?i" "unat ?i < length (archetypes w1)"
    using o(1) s(2) by (auto simp: find_or_create_archetype_def nth_append Let_def split: option.splits)
  have two: "archetypes ?w2 ! unat ?i = archetypes w ! unat ?i" "archetypes ?w2 ! unat ti = c" "unat ti < length (archetypes ?w2)"
    using o(2) old s(3) by (auto simp: set_arch_def arch_at_iff)
  have kb: "loc_chunk k < length (chunks c)"
    using o(4) by (auto simp: write_entity_def bind_eq_Some_conv get_row_def set_row_def split: if_splits)
  have new: "map chunk_block (chunks (archetypes w' ! unat ti)) = map chunk_block (chunks c)"
  proof -
    let ?w3 = "set_arch ti (set_row k (trow\<lparr>row_cells := ds\<rparr>) c) ?w2"
    let ?v = "set_arch ?i (set_row (slot_loc s) (srow\<lparr>row_cells := ss\<rparr>) src1) ?w3"
    obtain x where x: "archetypes w4 = (archetypes ?v)[unat ?i := x]"
      using o(6) by (auto simp: compact_archetype_after_external_move_def bind_eq_Some_conv set_arch_def set_slot_def Let_def
          split: option.splits)
    have "archetypes w' = archetypes w4" using o(7) by (auto simp: place_slot_def bind_eq_Some_conv)
    then have "archetypes w' ! unat ti = set_row k (trow\<lparr>row_cells := ds\<rparr>) c"
      using x s(3) o(2) by (simp add: set_arch_def arch_at_iff)
    then show ?thesis by (simp only: set_row_block_list)
  qed
  then have a: "chunk_at w' (unat ti) (loc_chunk k) = map chunk_block (chunks c) ! loc_chunk k"
    using kb by (metis chunk_at_def length_map nth_map)
  let ?B = "map (\<lambda>a. map chunk_block (chunks a)) (archetypes ?w2)"
  have len: "unat ?i < length ?B" "unat ti < length ?B" "unat ti \<noteq> unat ?i" using old(2) two(3) s(3) by (simp_all add: set_arch_def)
  have B: "?B ! unat ti = map chunk_block (chunks c)" "?B ! unat ?i = map chunk_block (chunks (archetypes w ! unat ?i))"
    using len two(1,2) by (simp_all only: length_map nth_map)
  have apart: "x \<noteq> y" if "x \<in> X" "y \<in> Y" "X \<inter> Y = {}" for x y :: nat and X Y using that by blast
  have "map chunk_block (chunks c) ! loc_chunk k \<in> set (?B ! unat ti)" unfolding B using kb by simp
  moreover have "chunk_at w (unat ?i) l \<in> set (?B ! unat ?i)" unfolding B chunk_at_def using l by simp
  ultimately have "map chunk_block (chunks c) ! loc_chunk k \<noteq> chunk_at w (unat ?i) l"
    by (rule apart) (rule distinct_concat_parts [OF dist len(2,1,3)])
  then show ?thesis by (simp only: a not_False_eq_True)
qed


section \<open>A concrete migration\<close>

definition int_vt :: vtables_of where
  "int_vt c = \<lparr>vt_size = 4, vt_align = 4\<rparr>"

lemmas move_code = world_code add_component_def eid_is_alive_def eid_is_deferred_def is_immutable_def migrate_entity_def
  compact_archetype_after_external_move_def compact_rows_def last_row_location_def pop_row_def drop_empty_trailing_chunk_def
  pool_release_def slot_loc_def DEFERRED_GENERATION_BIT_def INVALID_ARCHETYPE_def NO_COLUMN_OFFSET_def

lemmas ref_code = ref_from_def ref_get_def component_address_def component_version_in_def get_component_def address_of_def
  eid_is_alive_def eid_is_deferred_def slot_at_def arr_get_def arch_at_def column_index_for_def slot_loc_def
  DEFERRED_GENERATION_BIT_def INVALID_ARCHETYPE_def

text \<open>An entity with the component 7, then moved by adding the component 9.\<close>

definition ref_entity_id :: EntityID where
  "ref_entity_id = \<lparr>index = 0, generation = 1\<rparr>"

definition ref_world :: "int World" where
  "ref_world = snd (the (create_entity_impl int_vt False [(7, 5)] empty_world))"

definition ref_world_moved :: "int World" where
  "ref_world_moved = snd (the (add_component int_vt 9 6 ref_entity_id ref_world))"

definition old_ref :: CachedRef where
  "old_ref = \<lparr>ref_entity = ref_entity_id, cached_version = 1, cached_pointer = Some (0, 0, 0)\<rparr>"

lemma int_vt_demo: "int_vt = demo_vt"
  by (rule ext) (simp add: int_vt_def demo_vt_def)

lemma ref_world_created: "create_entity_impl int_vt False [(7, 5)] empty_world = Some (ref_entity_id, ref_world)"
  by (simp add: ref_world_def world_code ref_entity_id_def empty_world_def int_vt_def)

lemma ref_world_sound:
  "reachable_world int_vt ref_world" "has_room ref_world" "\<not> in_tick_or_log ref_world" "\<not> is_immutable ref_world ref_entity_id"
  "entity_view ref_world ref_entity_id = Some [7 \<mapsto> Some 5]"
proof -
  obtain e w where d: "create_entity_impl demo_vt False [(7, 5 :: int)] empty_world = Some (e, w)"
    "entity_view w = [e \<mapsto> [7 \<mapsto> Some 5]]" "\<not> in_tick_or_log w" "\<not> is_immutable w e" "has_room w" by (rule demo_created)
  have "e = ref_entity_id" "w = ref_world" using d(1) ref_world_created by (simp_all add: int_vt_demo)
  then show "reachable_world int_vt ref_world" "has_room ref_world" "\<not> in_tick_or_log ref_world" "\<not> is_immutable ref_world ref_entity_id"
    "entity_view ref_world ref_entity_id = Some [7 \<mapsto> Some 5]"
    using d demo_reached [OF d(1)] by (simp_all add: int_vt_demo)
qed

lemma ref_world_moves:
  "ref_from int_vt 7 ref_world ref_entity_id = Some old_ref"
  "\<exists>p. add_component int_vt 9 6 ref_entity_id ref_world = Some (p, ref_world_moved)"
  "component_version_in 7 ref_world_moved ref_entity_id = Some 1"
  by (simp_all add: ref_world_moved_def ref_world_def move_code ref_code old_ref_def ref_entity_id_def empty_world_def int_vt_def)


end
