(* ===== verification/System_Access.thy ===== *)
theory System_Access
  imports World_Queries "HOL-Library.Product_Lexorder"
begin

text \<open>
  \<open>src/openvic-simulation/ecs/SystemAccess.hpp\<close> and the metadata of \<open>SystemRegistration\<close>
  (\<open>ecs/System.hpp\<close>, filled by \<open>World::register_system\<close>): what a system declares to
  read and to write, when two declarations conflict, and when two systems with conflicting declarations
  still never meet on an entity.  \<open>std::sort\<close> is a sort by the comparator's key.
\<close>

type_synonym system_type_id_t = u64

datatype AccessMode = Read | Write

record ComponentAccess =
  component_id :: component_type_id_t
  access_mode :: AccessMode

section \<open>Overlap\<close>

fun overlaps_one :: "ComponentAccess \<Rightarrow> ComponentAccess list \<Rightarrow> bool" where
  "overlaps_one x [] = False"
| "overlaps_one x (y # ys) =
     (if component_id x \<noteq> component_id y then overlaps_one x ys
      else if access_mode x = Write \<or> access_mode y = Write then True
      else overlaps_one x ys)"

fun access_overlaps :: "ComponentAccess list \<Rightarrow> ComponentAccess list \<Rightarrow> bool" where
  "access_overlaps [] b = False"
| "access_overlaps (x # xs) b = (if overlaps_one x b then True else access_overlaps xs b)"

fun sorted_intersects :: "component_type_id_t list \<Rightarrow> component_type_id_t list \<Rightarrow> bool" where
  "sorted_intersects (x # xs) (y # ys) =
     (if x = y then True else if x < y then sorted_intersects xs (y # ys) else sorted_intersects (x # xs) ys)"
| "sorted_intersects _ _ = False"

definition access_conflict_components :: "ComponentAccess list \<Rightarrow> ComponentAccess list \<Rightarrow> component_type_id_t list" where
  "access_conflict_components a b = remdups_adj (sort (map component_id (filter (\<lambda>x. overlaps_one x b) a)))"

section \<open>Building an access set\<close>

fun merge_extra_reads :: "ComponentAccess list \<Rightarrow> component_type_id_t list \<Rightarrow> ComponentAccess list" where
  "merge_extra_reads dest [] = dest"
| "merge_extra_reads dest (c # cs) =
     (let found_write = list_ex (\<lambda>e. component_id e = c \<and> access_mode e = Write) dest
      in merge_extra_reads (if found_write then dest else dest @ [\<lparr>component_id = c, access_mode = Read\<rparr>]) cs)"

definition merge_extra_writes :: "ComponentAccess list \<Rightarrow> component_type_id_t list \<Rightarrow> ComponentAccess list" where
  "merge_extra_writes dest extra = dest @ map (\<lambda>c. \<lparr>component_id = c, access_mode = Write\<rparr>) extra"

text \<open>\<open>std::unique\<close> keeps the first element of every run of equal ids.\<close>

fun unique_ids :: "ComponentAccess list \<Rightarrow> ComponentAccess list" where
  "unique_ids (x # y # zs) = (if component_id x = component_id y then unique_ids (x # zs) else x # unique_ids (y # zs))"
| "unique_ids xs = xs"

definition canonicalise_access_set :: "ComponentAccess list \<Rightarrow> ComponentAccess list" where
  "canonicalise_access_set xs = unique_ids (sort_key (\<lambda>a. (component_id a, access_mode a = Read)) xs)"

section \<open>Registrations\<close>

record SystemRegistration =
  reg_type_id :: system_type_id_t
  reg_access :: "ComponentAccess list"
  run_after :: "system_type_id_t list"
  run_before :: "system_type_id_t list"
  extra_reads :: "component_type_id_t list"
  extra_writes :: "component_type_id_t list"
  tick_query_require_ids :: "component_type_id_t list"
  tick_query_exclude_ids :: "component_type_id_t list"
  reg_generation :: u32
  reg_alive :: bool

text \<open>The static declarations of a system class; the registration derived from them.\<close>

record SystemDeclaration =
  decl_type_id :: system_type_id_t
  declared_access :: "ComponentAccess list"
  declared_run_after :: "system_type_id_t list"
  declared_run_before :: "system_type_id_t list"
  decl_extra_reads :: "component_type_id_t list"
  decl_extra_writes :: "component_type_id_t list"
  decl_require_ids :: "component_type_id_t list"
  decl_exclude_ids :: "component_type_id_t list"

definition registration_of :: "SystemDeclaration \<Rightarrow> SystemRegistration" where
  "registration_of S =
     (let access = canonicalise_access_set (declared_access S);
          reads = remdups_adj (sort (decl_extra_reads S));
          writes = remdups_adj (sort (decl_extra_writes S));
          access = merge_extra_reads access reads;
          access = merge_extra_writes access writes;
          access = canonicalise_access_set access
      in \<lparr>reg_type_id = decl_type_id S, reg_access = access, run_after = declared_run_after S,
          run_before = declared_run_before S, extra_reads = reads, extra_writes = writes,
          tick_query_require_ids = decl_require_ids S, tick_query_exclude_ids = decl_exclude_ids S,
          reg_generation = 1, reg_alive = True\<rparr>)"

definition sorted_contains :: "component_type_id_t list \<Rightarrow> component_type_id_t \<Rightarrow> bool" where
  "sorted_contains v c \<longleftrightarrow> c \<in> set v"

fun conflicts_iterated :: "SystemRegistration \<Rightarrow> SystemRegistration \<Rightarrow> component_type_id_t list \<Rightarrow> bool" where
  "conflicts_iterated a b [] = True"
| "conflicts_iterated a b (c # cs) =
     (if \<not> sorted_contains (tick_query_require_ids a) c \<or> \<not> sorted_contains (tick_query_require_ids b) c then False
      else if sorted_contains (extra_reads a) c \<or> sorted_contains (extra_writes a) c
           \<or> sorted_contains (extra_reads b) c \<or> sorted_contains (extra_writes b) c then False
      else conflicts_iterated a b cs)"

definition provably_disjoint :: "SystemRegistration \<Rightarrow> SystemRegistration \<Rightarrow> bool" where
  "provably_disjoint a b \<longleftrightarrow>
     (if \<not> (sorted_intersects (tick_query_require_ids a) (tick_query_exclude_ids b)
            \<or> sorted_intersects (tick_query_require_ids b) (tick_query_exclude_ids a)) then False
      else conflicts_iterated a b (access_conflict_components (reg_access a) (reg_access b)))"

section \<open>What they decide\<close>

definition clash :: "ComponentAccess \<Rightarrow> ComponentAccess \<Rightarrow> bool" where
  "clash x y \<longleftrightarrow> component_id x = component_id y \<and> (access_mode x = Write \<or> access_mode y = Write)"

lemma clash_sym: "clash x y \<longleftrightarrow> clash y x"
  by (auto simp: clash_def)

lemma overlaps_one_iff: "overlaps_one x b \<longleftrightarrow> (\<exists>y \<in> set b. clash x y)"
  by (induction b) (auto simp: clash_def)

lemma access_overlaps_iff: "access_overlaps a b \<longleftrightarrow> (\<exists>x \<in> set a. \<exists>y \<in> set b. clash x y)"
  by (induction a) (auto simp: overlaps_one_iff)

lemma access_overlaps_sym: "access_overlaps a b \<longleftrightarrow> access_overlaps b a"
  unfolding access_overlaps_iff using clash_sym by blast

lemma conflict_components_iff:
  "c \<in> set (access_conflict_components a b) \<longleftrightarrow> (\<exists>x \<in> set a. \<exists>y \<in> set b. component_id x = c \<and> clash x y)"
  by (auto simp: access_conflict_components_def overlaps_one_iff)

lemma conflict_components_sym: "set (access_conflict_components a b) = set (access_conflict_components b a)"
proof -
  have "c \<in> set (access_conflict_components a b) \<Longrightarrow> c \<in> set (access_conflict_components b a)" for a b c
    unfolding conflict_components_iff using clash_sym by (metis clash_def)
  then show ?thesis by blast
qed

lemma sorted_intersects_iff:
  "sorted_wrt (<) a \<Longrightarrow> sorted_wrt (<) b \<Longrightarrow> sorted_intersects a b \<longleftrightarrow> set a \<inter> set b \<noteq> {}"
proof (induction a b rule: sorted_intersects.induct)
  case (1 x xs y ys)
  consider "x = y" | "x < y" | "y < x" by fastforce
  then show ?case using 1 by cases (auto simp: not_less_iff_gr_or_eq)
qed auto

lemma conflicts_iterated_iff:
  "conflicts_iterated a b cs \<longleftrightarrow> (\<forall>c \<in> set cs. c \<in> set (tick_query_require_ids a) \<and> c \<in> set (tick_query_require_ids b)
     \<and> c \<notin> set (extra_reads a) \<union> set (extra_writes a) \<union> set (extra_reads b) \<union> set (extra_writes b))"
  by (induction cs) (auto simp: sorted_contains_def)

text \<open>The iteration query of a registered system.\<close>

definition tick_query :: "SystemRegistration \<Rightarrow> QueryCacheKey" where
  "tick_query r = \<lparr>require_ids = tick_query_require_ids r, exclude_ids = tick_query_exclude_ids r\<rparr>"

definition queries_sorted :: "SystemRegistration \<Rightarrow> bool" where
  "queries_sorted r \<longleftrightarrow> key_sorted (tick_query r)"

lemma disjoint_iff:
  assumes "queries_sorted a" "queries_sorted b"
  shows "provably_disjoint a b \<longleftrightarrow>
     (set (tick_query_require_ids a) \<inter> set (tick_query_exclude_ids b) \<noteq> {}
      \<or> set (tick_query_require_ids b) \<inter> set (tick_query_exclude_ids a) \<noteq> {})
     \<and> (\<forall>c \<in> set (access_conflict_components (reg_access a) (reg_access b)).
          c \<in> set (tick_query_require_ids a) \<and> c \<in> set (tick_query_require_ids b)
          \<and> c \<notin> set (extra_reads a) \<union> set (extra_writes a) \<union> set (extra_reads b) \<union> set (extra_writes b))"
proof -
  have "sorted_intersects (tick_query_require_ids a) (tick_query_exclude_ids b)
      = (set (tick_query_require_ids a) \<inter> set (tick_query_exclude_ids b) \<noteq> {})"
    "sorted_intersects (tick_query_require_ids b) (tick_query_exclude_ids a)
      = (set (tick_query_require_ids b) \<inter> set (tick_query_exclude_ids a) \<noteq> {})"
    using assms by (simp_all add: queries_sorted_def key_sorted_def tick_query_def sorted_intersects_iff)
  then show ?thesis by (simp add: provably_disjoint_def conflicts_iterated_iff)
qed

lemma sorted_intersects_comm: "sorted_intersects a b = sorted_intersects b a"
proof (induction a b rule: sorted_intersects.induct)
  case (1 x xs y ys)
  then show ?case by (cases "x = y"; cases "x < y") auto
next
  case "2_1"
  then show ?case by (metis sorted_intersects.simps(2,3) neq_Nil_conv)
next
  case "2_2"
  then show ?case by (metis sorted_intersects.simps(2,3) neq_Nil_conv)
qed

lemma provably_disjoint_sym: "provably_disjoint a b \<longleftrightarrow> provably_disjoint b a"
  unfolding provably_disjoint_def conflicts_iterated_iff conflict_components_sym [of "reg_access a" "reg_access b"]
  by (auto simp: sorted_intersects_comm)

section \<open>Canonical access sets\<close>

lemma unique_ids_spec:
  "sorted (map (\<lambda>a. (component_id a, access_mode a = Read)) xs) \<Longrightarrow>
     sorted_wrt (<) (map component_id (unique_ids xs))
     \<and> component_id ` set (unique_ids xs) = component_id ` set xs \<and> set (unique_ids xs) \<subseteq> set xs
     \<and> (xs \<noteq> [] \<longrightarrow> unique_ids xs \<noteq> [] \<and> hd (unique_ids xs) = hd xs)
     \<and> (\<forall>x \<in> set xs. access_mode x = Write \<longrightarrow> (\<exists>y \<in> set (unique_ids xs). component_id y = component_id x \<and> access_mode y = Write))"
proof (induction xs rule: unique_ids.induct)
  case (1 x y zs)
  show ?case
  proof (cases "component_id x = component_id y")
    case True
    have s: "sorted (map (\<lambda>a. (component_id a, access_mode a = Read)) (x # zs))" using 1(3) by auto
    note ih = "1.IH"(1) [OF True s]
    have "access_mode y = Write \<Longrightarrow> access_mode x = Write"
      using 1(3) True by (cases "access_mode x") auto
    then show ?thesis using ih True by auto
  next
    case False
    have s: "sorted (map (\<lambda>a. (component_id a, access_mode a = Read)) (y # zs))" using 1(3) by auto
    note ih = "1.IH"(2) [OF False s]
    have lt: "component_id x < component_id y" using 1(3) False by auto
    have "component_id x < component_id u" if "u \<in> set (unique_ids (y # zs))" for u
    proof -
      have "component_id y \<le> component_id u"
        using that ih s by (cases "u = y") (auto simp: less_eq_prod_def dest!: subsetD)
      then show ?thesis using lt by order
    qed
    have "\<forall>z \<in> set zs. component_id x < component_id z" using s lt by (auto simp: less_eq_prod_def)
    then have "sorted_wrt (<) (map component_id (unique_ids (x # y # zs)))" using ih False lt by simp
    moreover have "component_id ` set (unique_ids (x # y # zs)) = component_id ` set (x # y # zs)" using ih False by simp
    moreover have "set (unique_ids (x # y # zs)) \<subseteq> set (x # y # zs)" using ih False by auto
    ultimately show ?thesis using ih False by auto
  qed
qed auto

lemma canonical_set:
  "sorted_wrt (<) (map component_id (canonicalise_access_set xs))"
  "component_id ` set (canonicalise_access_set xs) = component_id ` set xs"
  "set (canonicalise_access_set xs) \<subseteq> set xs"
  "x \<in> set xs \<Longrightarrow> access_mode x = Write \<Longrightarrow>
     \<exists>y \<in> set (canonicalise_access_set xs). component_id y = component_id x \<and> access_mode y = Write"
  using unique_ids_spec [of "sort_key (\<lambda>a. (component_id a, access_mode a = Read)) xs"]
  by (auto simp: canonicalise_access_set_def)

lemma strict_ids_unique:
  "sorted_wrt (<) (map component_id xs) \<Longrightarrow> x \<in> set xs \<Longrightarrow> y \<in> set xs \<Longrightarrow> component_id x = component_id y \<Longrightarrow> x = y"
proof -
  assume s: "sorted_wrt (<) (map component_id xs)" and xy: "x \<in> set xs" "y \<in> set xs" "component_id x = component_id y"
  have "inj_on component_id (set xs)" using s by (simp add: strict_sorted_iff distinct_map)
  then show "x = y" using xy by (auto dest: inj_onD)
qed

abbreviation entry :: "component_type_id_t \<Rightarrow> AccessMode \<Rightarrow> ComponentAccess" where
  "entry c m \<equiv> \<lparr>component_id = c, access_mode = m\<rparr>"

lemma entry_eta: "entry (component_id x) (access_mode x) = x"
  by simp

lemma canonical_write: "entry c Write \<in> set (canonicalise_access_set xs) \<longleftrightarrow> entry c Write \<in> set xs"
proof
  assume "entry c Write \<in> set xs"
  then obtain y where "y \<in> set (canonicalise_access_set xs)" "component_id y = c" "access_mode y = Write"
    using canonical_set(4) by fastforce
  then show "entry c Write \<in> set (canonicalise_access_set xs)" by (metis entry_eta)
qed (use canonical_set(3) in blast)

lemma canonical_read:
  "entry c Read \<in> set (canonicalise_access_set xs) \<longleftrightarrow> entry c Read \<in> set xs \<and> entry c Write \<notin> set xs"
proof
  assume r: "entry c Read \<in> set (canonicalise_access_set xs)"
  moreover have "entry c Write \<notin> set (canonicalise_access_set xs)"
    using strict_ids_unique [OF canonical_set(1) r, of "entry c Write"] by auto
  ultimately show "entry c Read \<in> set xs \<and> entry c Write \<notin> set xs"
    using canonical_set(3) by (auto simp: canonical_write)
next
  assume r: "entry c Read \<in> set xs \<and> entry c Write \<notin> set xs"
  then have "c \<in> component_id ` set (canonicalise_access_set xs)" unfolding canonical_set(2) by force
  then obtain y where y: "y \<in> set (canonicalise_access_set xs)" "component_id y = c" by blast
  have "access_mode y = Read"
  proof (rule ccontr)
    assume "access_mode y \<noteq> Read"
    then have "y = entry c Write" using y(2) by (cases "access_mode y") auto
    then show False using y(1) r canonical_write by blast
  qed
  then show "entry c Read \<in> set (canonicalise_access_set xs)" using y by (metis entry_eta)
qed

lemma merge_reads_spec:
  "entry c Write \<in> set (merge_extra_reads dest extra) \<longleftrightarrow> entry c Write \<in> set dest"
  "entry c Read \<in> set (merge_extra_reads dest extra) \<longleftrightarrow>
     entry c Read \<in> set dest \<or> c \<in> set extra \<and> entry c Write \<notin> set dest"
proof -
  have w: "list_ex (\<lambda>e. component_id e = d \<and> access_mode e = Write) xs \<longleftrightarrow> entry d Write \<in> set xs" for d xs
    unfolding list_ex_iff by (metis entry_eta ComponentAccess.select_convs)
  show "entry c Write \<in> set (merge_extra_reads dest extra) \<longleftrightarrow> entry c Write \<in> set dest"
    by (induction dest extra rule: merge_extra_reads.induct) (auto simp: Let_def)
  show "entry c Read \<in> set (merge_extra_reads dest extra) \<longleftrightarrow>
     entry c Read \<in> set dest \<or> c \<in> set extra \<and> entry c Write \<notin> set dest"
    by (induction dest extra rule: merge_extra_reads.induct) (auto simp: Let_def w)
qed

lemma merge_writes_spec:
  "entry c Write \<in> set (merge_extra_writes dest extra) \<longleftrightarrow> entry c Write \<in> set dest \<or> c \<in> set extra"
  "entry c Read \<in> set (merge_extra_writes dest extra) \<longleftrightarrow> entry c Read \<in> set dest"
  by (auto simp: merge_extra_writes_def)

text \<open>The access set of a registration writes exactly the components the system declares to write, in its
  pack or as extra writes, and reads the other declared ones; it has one entry per component, in
  ascending order.\<close>

theorem registration_access_spec:
  "sorted_wrt (<) (map component_id (reg_access (registration_of S)))
   \<and> (entry c Write \<in> set (reg_access (registration_of S)) \<longleftrightarrow>
       entry c Write \<in> set (declared_access S) \<or> c \<in> set (decl_extra_writes S))
   \<and> (entry c Read \<in> set (reg_access (registration_of S)) \<longleftrightarrow>
       (entry c Read \<in> set (declared_access S) \<or> c \<in> set (decl_extra_reads S))
       \<and> entry c Write \<notin> set (declared_access S) \<and> c \<notin> set (decl_extra_writes S))"
  by (auto simp: registration_of_def Let_def canonical_set(1) canonical_write canonical_read merge_reads_spec merge_writes_spec)

end
