(* ===== verification/System_Scheduler.thy ===== *)
theory System_Scheduler
  imports System_Access
begin

text \<open>
  \<open>src/openvic-simulation/ecs/SystemScheduler.cpp\<close>: the dependency graph over registration
  indices and the seven phases of \<open>rebuild\<close>.  Indices and depths are natural numbers; they are
  bounded by the number of registrations, which fits in 32 bits.
\<close>

section \<open>The graph\<close>

record DAG =
  dag_n :: nat
  out_edges :: "nat list list"
  in_edges :: "nat list list"
  depth :: "nat list"

definition dag_resize :: "nat \<Rightarrow> DAG" where
  "dag_resize m = \<lparr>dag_n = m, out_edges = replicate m [], in_edges = replicate m [],
     depth = replicate m 0\<rparr>"

definition add_edge :: "nat \<Rightarrow> nat \<Rightarrow> DAG \<Rightarrow> DAG" where
  "add_edge u v d =
     (if v \<in> set (out_edges d ! u) then d
      else d\<lparr>out_edges := (out_edges d)[u := (out_edges d ! u) @ [v]], in_edges := (in_edges d)[v := (in_edges d ! v) @ [u]]\<rparr>)"

text \<open>The depth-first search; the head of the list is the top of the stack.  A node outside the graph, which
  the search never meets, is skipped.\<close>

function path_loop :: "nat list list \<Rightarrow> nat \<Rightarrow> bool list \<Rightarrow> nat list \<Rightarrow> bool" where
  "path_loop out to visited [] = False"
| "path_loop out to visited (u # stack) =
     (if u = to then True
      else if length visited \<le> u \<or> visited ! u then path_loop out to visited stack
      else (let visited = visited[u := True]
            in path_loop out to visited (rev (filter (\<lambda>v. \<not> visited ! v) (out ! u)) @ stack)))"
  by pat_completeness auto

lemma visit_fewer:
  assumes "u < length visited" "\<not> visited ! u"
  shows "length (filter Not (visited[u := True])) < length (filter Not visited)"
proof -
  have "visited = take u visited @ visited ! u # drop (Suc u) visited" using assms(1) by (rule id_take_nth_drop)
  moreover have "visited[u := True] = take u visited @ True # drop (Suc u) visited" using assms(1) by (rule upd_conv_take_nth_drop)
  ultimately have "length (filter Not (visited[u := True])) = length (filter Not (take u visited)) + length (filter Not (drop (Suc u) visited))"
    and "length (filter Not visited) = length (filter Not (take u visited)) + length (filter Not (visited ! u # drop (Suc u) visited))"
    by (metis (no_types) filter.simps(2) filter_append length_append)+
  then show ?thesis using assms(2) by simp
qed

termination path_loop
  by (relation "measures [\<lambda>(out, to, visited, stack). length (filter Not visited), \<lambda>(out, to, visited, stack). length stack]")
    (auto simp: visit_fewer)

definition path_exists :: "DAG \<Rightarrow> nat \<Rightarrow> nat \<Rightarrow> bool" where
  "path_exists d from to =
     (if from = to then True else path_loop (out_edges d) to (replicate (dag_n d) False) [from])"

text \<open>Relaxing the edges of one node; then the queue.  The counter of incoming edges is decremented and
  compared with zero.\<close>

fun relax :: "nat \<Rightarrow> nat list \<Rightarrow> nat list \<Rightarrow> nat list \<Rightarrow> nat list \<Rightarrow> nat list \<times> nat list \<times> nat list" where
  "relax u [] indeg dep q = (indeg, dep, q)"
| "relax u (v # vs) indeg dep q =
     (let cand = dep ! u + 1;
          dep = (if cand > dep ! v then dep[v := cand] else dep)
      in relax u vs (indeg[v := indeg ! v - 1]) dep (if v < length indeg \<and> indeg ! v = 1 then q @ [v] else q))"

lemma sum_list_pred: "v < length xs \<Longrightarrow> sum_list (xs[v := xs ! v - 1]) = sum_list xs - (if xs ! v = 0 then 0 else (1 :: nat))"
proof (induction xs arbitrary: v)
  case (Cons x xs)
  then show ?case
    by (cases v) (auto dest: elem_le_sum_list)
qed simp

lemma count_down_measure:
  "length (if v < length indeg \<and> indeg ! v = 1 then q @ [v] else q) + sum_list (indeg[v := indeg ! v - 1])
     \<le> length q + sum_list (indeg :: nat list)"
proof (cases "v < length indeg")
  case True
  then show ?thesis using sum_list_pred [of v indeg] elem_le_sum_list [of v indeg] by auto
qed (simp add: list_update_beyond)

lemma relax_measure:
  "relax u vs indeg dep q = (indeg', dep', q') \<Longrightarrow> length q' + sum_list indeg' \<le> length q + sum_list indeg"
proof (induction vs arbitrary: indeg dep q)
  case (Cons v vs)
  then show ?case using count_down_measure [of v indeg q] unfolding relax.simps Let_def by (meson order_trans)
qed simp

text \<open>The queue of nodes without pending predecessors: the final depths and the number of nodes taken out.\<close>

function topo_loop :: "nat list list \<Rightarrow> nat list \<Rightarrow> nat list \<Rightarrow> nat list \<Rightarrow> nat \<Rightarrow> nat list \<times> nat" where
  "topo_loop out indeg dep [] processed = (dep, processed)"
| "topo_loop out indeg dep (u # q) processed =
     (case relax u (out ! u) indeg dep q of (indeg', dep', q') \<Rightarrow> topo_loop out indeg' dep' q' (processed + 1))"
  by pat_completeness auto
termination topo_loop
proof (relation "measure (\<lambda>(out, indeg, dep, q, processed). length q + sum_list indeg)")
  fix out indeg dep u q and processed :: nat and x y xa ya
  assume "(x, y) = relax u (out ! u) indeg dep q" "(xa, ya) = y"
  then have "length ya + sum_list x \<le> length q + sum_list indeg" by (intro relax_measure [of u "out ! u" indeg dep q x xa ya]) auto
  then show "((out, x, xa, ya, processed + 1), out, indeg, dep, u # q, processed)
      \<in> measure (\<lambda>(out, indeg, dep, q, processed). length q + sum_list indeg)" by simp
qed simp

definition recompute_depths :: "DAG \<Rightarrow> DAG \<times> bool" where
  "recompute_depths d =
     (let indeg = map length (in_edges d);
          q = filter (\<lambda>v. indeg ! v = 0) [0..<dag_n d];
          (dep, processed) = topo_loop (out_edges d) indeg (replicate (dag_n d) 0) q 0
      in (d\<lparr>depth := dep\<rparr>, processed = dag_n d))"

section \<open>The phases of rebuild\<close>

text \<open>The index of every alive registration by type; the first of two with the same type.\<close>

fun type_index :: "SystemRegistration list \<Rightarrow> nat \<Rightarrow> system_type_id_t \<Rightarrow> nat option" where
  "type_index [] i t = None"
| "type_index (r # rs) i t = (if reg_alive r \<and> reg_type_id r = t then Some i else type_index rs (Suc i) t)"

fun add_after_edges :: "(system_type_id_t \<Rightarrow> nat option) \<Rightarrow> nat \<Rightarrow> system_type_id_t list \<Rightarrow> DAG \<Rightarrow> DAG" where
  "add_after_edges idx i [] d = d"
| "add_after_edges idx i (p # ps) d =
     add_after_edges idx i ps (case idx p of None \<Rightarrow> d | Some j \<Rightarrow> add_edge j i d)"

fun add_before_edges :: "(system_type_id_t \<Rightarrow> nat option) \<Rightarrow> nat \<Rightarrow> system_type_id_t list \<Rightarrow> DAG \<Rightarrow> DAG" where
  "add_before_edges idx i [] d = d"
| "add_before_edges idx i (p # ps) d =
     add_before_edges idx i ps (case idx p of None \<Rightarrow> d | Some j \<Rightarrow> add_edge i j d)"

fun declared_edges :: "(system_type_id_t \<Rightarrow> nat option) \<Rightarrow> SystemRegistration list \<Rightarrow> nat \<Rightarrow> DAG \<Rightarrow> DAG" where
  "declared_edges idx [] i d = d"
| "declared_edges idx (r # rs) i d =
     declared_edges idx rs (Suc i)
       (if \<not> reg_alive r then d
        else add_before_edges idx i (run_before r) (add_after_edges idx i (run_after r) d))"

text \<open>The conflict pairs, by ascending first and second index.\<close>

definition real_conflict :: "SystemRegistration \<Rightarrow> SystemRegistration \<Rightarrow> bool" where
  "real_conflict a b \<longleftrightarrow>
     reg_alive a \<and> reg_alive b \<and> access_overlaps (reg_access a) (reg_access b) \<and> \<not> provably_disjoint a b"

definition conflict_pairs :: "SystemRegistration list \<Rightarrow> (nat \<times> nat) list" where
  "conflict_pairs reg =
     concat (map (\<lambda>i. map (\<lambda>j. (i, j)) (filter (\<lambda>j. real_conflict (reg ! i) (reg ! j)) [Suc i..<length reg]))
       [0..<length reg])"

definition pair_key :: "SystemRegistration list \<Rightarrow> nat \<times> nat \<Rightarrow> system_type_id_t \<times> system_type_id_t" where
  "pair_key reg p =
     (min (reg_type_id (reg ! fst p)) (reg_type_id (reg ! snd p)), max (reg_type_id (reg ! fst p)) (reg_type_id (reg ! snd p)))"

text \<open>Orienting one conflict: the cheaper direction, on equal cost the smaller type first.\<close>

definition orient :: "SystemRegistration list \<Rightarrow> DAG \<Rightarrow> nat \<times> nat \<Rightarrow> nat \<times> nat" where
  "orient reg d p =
     (let u = fst p; v = snd p;
          cost_u_to_v = (if depth d ! u + 1 > depth d ! v then depth d ! u + 1 - depth d ! v else 0);
          cost_v_to_u = (if depth d ! v + 1 > depth d ! u then depth d ! v + 1 - depth d ! u else 0)
      in if cost_v_to_u < cost_u_to_v then (v, u)
         else if cost_u_to_v = cost_v_to_u then (if reg_type_id (reg ! v) < reg_type_id (reg ! u) then (v, u) else (u, v))
         else (u, v))"

text \<open>\<^const>\<open>None\<close>: both directions close a cycle.\<close>

definition remove_edge :: "nat \<Rightarrow> nat \<Rightarrow> DAG \<Rightarrow> DAG" where
  "remove_edge u v d =
     d\<lparr>out_edges := (out_edges d)[u := removeAll v (out_edges d ! u)], in_edges := (in_edges d)[v := removeAll u (in_edges d ! v)]\<rparr>"

definition resolve_conflict :: "SystemRegistration list \<Rightarrow> nat \<times> nat \<Rightarrow> DAG \<Rightarrow> DAG option" where
  "resolve_conflict reg p d =
     (if path_exists d (fst p) (snd p) \<or> path_exists d (snd p) (fst p) then Some d
      else case orient reg d p of (first, second) \<Rightarrow>
        (case recompute_depths (add_edge first second d) of (d1, ok) \<Rightarrow>
           if ok then Some d1
           else case recompute_depths (add_edge second first (remove_edge first second d1)) of (d2, ok) \<Rightarrow>
             if ok then Some d2 else None))"

fun resolve_conflicts :: "SystemRegistration list \<Rightarrow> (nat \<times> nat) list \<Rightarrow> DAG \<Rightarrow> DAG option" where
  "resolve_conflicts reg [] d = Some d"
| "resolve_conflicts reg (p # ps) d = Option.bind (resolve_conflict reg p d) (resolve_conflicts reg ps)"

text \<open>The priority queue takes the least (depth, type) out; between equal ones the first pushed.\<close>

definition emit_key :: "SystemRegistration list \<Rightarrow> nat list \<Rightarrow> nat \<Rightarrow> nat \<times> system_type_id_t" where
  "emit_key reg dep i = (dep ! i, reg_type_id (reg ! i))"

definition pq_top :: "SystemRegistration list \<Rightarrow> nat list \<Rightarrow> nat list \<Rightarrow> nat" where
  "pq_top reg dep pq = hd (filter (\<lambda>i. \<forall>j \<in> set pq. emit_key reg dep i \<le> emit_key reg dep j) pq)"

fun release_successors :: "SystemRegistration list \<Rightarrow> nat list \<Rightarrow> nat list \<Rightarrow> nat list \<Rightarrow> nat list \<times> nat list" where
  "release_successors reg [] indeg pq = (indeg, pq)"
| "release_successors reg (v # vs) indeg pq =
     (if \<not> reg_alive (reg ! v) then release_successors reg vs indeg pq
      else release_successors reg vs (indeg[v := indeg ! v - 1])
             (if v < length indeg \<and> indeg ! v = 1 then pq @ [v] else pq))"

lemma release_measure:
  "release_successors reg vs indeg pq = (indeg', pq') \<Longrightarrow> length pq' + sum_list indeg' \<le> length pq + sum_list indeg"
proof (induction vs arbitrary: indeg pq)
  case (Cons v vs)
  show ?case
  proof (cases "reg_alive (reg ! v)")
    case True
    then show ?thesis using Cons count_down_measure [of v indeg pq] by (metis (no_types, lifting) order_trans release_successors.simps(2))
  next
    case False
    then show ?thesis using Cons by simp
  qed
qed simp

lemma pq_top_in:
  assumes "pq \<noteq> []"
  shows "pq_top reg dep pq \<in> set pq" "\<forall>j \<in> set pq. emit_key reg dep (pq_top reg dep pq) \<le> emit_key reg dep j"
proof -
  let ?P = "\<lambda>i. \<forall>j \<in> set pq. emit_key reg dep i \<le> emit_key reg dep j"
  have fin: "finite (emit_key reg dep ` set pq)" "emit_key reg dep ` set pq \<noteq> {}" using assms by simp_all
  then have "Min (emit_key reg dep ` set pq) \<in> emit_key reg dep ` set pq" by (rule Min_in)
  then obtain m where "m \<in> set pq" "emit_key reg dep m = Min (emit_key reg dep ` set pq)" by force
  then have "m \<in> set (filter ?P pq)" using Min_le [OF fin(1)] by simp
  then have "filter ?P pq \<noteq> []" by force
  then have "hd (filter ?P pq) \<in> set (filter ?P pq)" by (rule list.set_sel(1))
  then show "pq_top reg dep pq \<in> set pq" "\<forall>j \<in> set pq. emit_key reg dep (pq_top reg dep pq) \<le> emit_key reg dep j"
    unfolding pq_top_def by auto
qed

function emit_loop :: "SystemRegistration list \<Rightarrow> nat list list \<Rightarrow> nat list \<Rightarrow> nat list \<Rightarrow> nat list \<Rightarrow> nat list \<Rightarrow> nat list" where
  "emit_loop reg out dep indeg pq order =
     (if pq = [] then order
      else let top = pq_top reg dep pq
           in case release_successors reg (out ! top) indeg (remove1 top pq) of (indeg', pq') \<Rightarrow>
             emit_loop reg out dep indeg' pq' (order @ [top]))"
  by pat_completeness auto
termination emit_loop
proof (relation "measure (\<lambda>(reg, out, dep, indeg, pq, order). length pq + sum_list indeg)")
  fix reg out dep indeg pq and order :: "nat list" and x xa y
  assume pq: "pq \<noteq> []" and top: "x = pq_top reg dep pq"
    and rel: "(xa, y) = release_successors reg (out ! x) indeg (remove1 x pq)"
  have "length (remove1 x pq) < length pq"
    using pq_top_in(1) [OF pq, of reg dep] pq top by (simp add: length_remove1)
  moreover have "length y + sum_list xa \<le> length (remove1 x pq) + sum_list indeg"
    by (rule release_measure [OF rel [symmetric]])
  ultimately show "((reg, out, dep, xa, y, order @ [x]), reg, out, dep, indeg, pq, order)
      \<in> measure (\<lambda>(reg, out, dep, indeg, pq, order). length pq + sum_list indeg)" by simp
qed simp

declare emit_loop.simps [simp del]

definition emit_order :: "SystemRegistration list \<Rightarrow> DAG \<Rightarrow> nat list" where
  "emit_order reg d =
     (let indeg = map length (in_edges d)
      in emit_loop reg (out_edges d) (depth d) indeg (filter (\<lambda>i. reg_alive (reg ! i) \<and> indeg ! i = 0) [0..<length reg]) [])"

text \<open>A new stage starts whenever the depth changes.\<close>

fun stage_layout :: "nat list \<Rightarrow> nat list \<Rightarrow> nat list list \<Rightarrow> nat list list" where
  "stage_layout dep [] stages = stages"
| "stage_layout dep (i # is) stages =
     (if stages = [] \<or> dep ! hd (last stages) \<noteq> dep ! i then stage_layout dep is (stages @ [[i]])
      else stage_layout dep is (butlast stages @ [last stages @ [i]]))"

text \<open>FNV-1a over the little-endian bytes of 64-bit values.\<close>

definition fold_byte :: "u64 \<Rightarrow> u64 \<Rightarrow> u64" where
  "fold_byte h b = (h XOR b) * 0x100000001b3"

definition fold_u64 :: "u64 \<Rightarrow> u64 \<Rightarrow> u64" where
  "fold_u64 h v = foldl (\<lambda>h i. fold_byte h (drop_bit (i * 8) v AND 0xff)) h [0..<8]"

fun hash_stages :: "SystemRegistration list \<Rightarrow> nat list list \<Rightarrow> nat \<Rightarrow> u64 \<Rightarrow> u64" where
  "hash_stages reg [] s h = h"
| "hash_stages reg (st # sts) s h =
     hash_stages reg sts (Suc s) (foldl (\<lambda>h i. fold_u64 h (reg_type_id (reg ! i))) (fold_u64 h (of_nat s)) st)"

record SystemScheduler =
  built :: bool
  stages :: "nat list list"
  schedule_hash :: u64

definition cleared_schedule :: SystemScheduler where
  "cleared_schedule = \<lparr>built = False, stages = [], schedule_hash = 0\<rparr>"

definition rebuild :: "SystemRegistration list \<Rightarrow> SystemScheduler" where
  "rebuild reg =
     (case recompute_depths (declared_edges (type_index reg 0) reg 0 (dag_resize (length reg))) of (d, ok) \<Rightarrow>
        if \<not> ok then cleared_schedule
        else case resolve_conflicts reg (sort_key (pair_key reg) (conflict_pairs reg)) d of
               None \<Rightarrow> cleared_schedule
             | Some d \<Rightarrow>
                 let sts = stage_layout (depth d) (emit_order reg d) []
                 in \<lparr>built = True, stages = sts, schedule_hash = hash_stages reg sts 0 0xcbf29ce484222325\<rparr>)"

text \<open>\<open>stage_index_of\<close>; \<^const>\<open>None\<close> is \<open>SIZE_MAX\<close>.\<close>

fun stage_search :: "SystemRegistration list \<Rightarrow> system_type_id_t \<Rightarrow> nat list list \<Rightarrow> nat \<Rightarrow> nat option" where
  "stage_search reg t [] s = None"
| "stage_search reg t (st # sts) s =
     (if list_ex (\<lambda>i. i < length reg \<and> reg_type_id (reg ! i) = t) st then Some s else stage_search reg t sts (Suc s))"

definition stage_index_of :: "SystemScheduler \<Rightarrow> system_type_id_t \<Rightarrow> SystemRegistration list \<Rightarrow> nat option" where
  "stage_index_of sch t reg = stage_search reg t (stages sch) 0"

end
