(* ===== verification/Scheduler_Graph.thy ===== *)
theory Scheduler_Graph
  imports System_Scheduler
begin

text \<open>
  The graph algorithms of the scheduler: the queue computes longest paths and detects cycles, the search
  decides reachability, and the priority queue emits the nodes by ascending (depth, type).
\<close>

definition edges :: "DAG \<Rightarrow> (nat \<times> nat) set" where
  "edges d = {(u, v). u < dag_n d \<and> v \<in> set (out_edges d ! u)}"

definition dag_ok :: "nat \<Rightarrow> DAG \<Rightarrow> bool" where
  "dag_ok n d \<longleftrightarrow> dag_n d = n \<and> length (out_edges d) = n \<and> length (in_edges d) = n
     \<and> (\<forall>u < n. distinct (out_edges d ! u) \<and> set (out_edges d ! u) = {v. (u, v) \<in> edges d})
     \<and> (\<forall>v < n. distinct (in_edges d ! v) \<and> set (in_edges d ! v) = {u. (u, v) \<in> edges d})
     \<and> edges d \<subseteq> {..<n} \<times> {..<n}"

lemma dag_okD:
  assumes "dag_ok n d"
  shows "dag_n d = n" "length (out_edges d) = n" "length (in_edges d) = n"
    "u < n \<Longrightarrow> distinct (out_edges d ! u)" "u < n \<Longrightarrow> set (out_edges d ! u) = {v. (u, v) \<in> edges d}"
    "v < n \<Longrightarrow> distinct (in_edges d ! v)" "v < n \<Longrightarrow> set (in_edges d ! v) = {u. (u, v) \<in> edges d}"
    "(u, v) \<in> edges d \<Longrightarrow> u < n \<and> v < n" "finite (edges d)"
  using assms unfolding dag_ok_def by (auto intro: finite_subset)

lemma dag_ok_resize: "dag_ok n (dag_resize n)" "edges (dag_resize n) = {}"
  by (auto simp: dag_ok_def dag_resize_def edges_def)

lemma add_edge_spec:
  assumes ok: "dag_ok n d" and uv: "u < n" "v < n"
  shows "edges (add_edge u v d) = insert (u, v) (edges d)" "dag_ok n (add_edge u v d)"
    "depth (add_edge u v d) = depth d"
proof -
  note D = dag_okD [OF ok]
  show e: "edges (add_edge u v d) = insert (u, v) (edges d)"
    using uv D(1,2) by (auto simp: add_edge_def edges_def nth_list_update split: if_splits)
  show "dag_ok n (add_edge u v d)"
  proof (cases "v \<in> set (out_edges d ! u)")
    case True
    then show ?thesis using ok by (simp add: add_edge_def)
  next
    case False
    then have a: "add_edge u v d = d\<lparr>out_edges := (out_edges d)[u := (out_edges d ! u) @ [v]],
        in_edges := (in_edges d)[v := (in_edges d ! v) @ [u]]\<rparr>" by (simp add: add_edge_def)
    have new: "(u, v) \<notin> edges d" using False D(5) uv by blast
    have "distinct (out_edges (add_edge u v d) ! x) \<and> set (out_edges (add_edge u v d) ! x) = {y. (x, y) \<in> edges (add_edge u v d)}"
      if "x < n" for x
      using that False uv D(2,4,5) e by (auto simp: a nth_list_update)
    moreover have "distinct (in_edges (add_edge u v d) ! x) \<and> set (in_edges (add_edge u v d) ! x) = {y. (y, x) \<in> edges (add_edge u v d)}"
      if "x < n" for x
      using that new uv D(3,6,7) e by (auto simp: a nth_list_update)
    moreover have "edges (add_edge u v d) \<subseteq> {..<n} \<times> {..<n}" using e uv D(8) by auto
    ultimately show ?thesis using D(1-3) by (simp add: dag_ok_def a)
  qed
  show "depth (add_edge u v d) = depth d" by (simp add: add_edge_def)
qed

section \<open>Reachability\<close>

lemma path_loop_sound:
  "path_loop out to visited stack \<Longrightarrow> (\<And>u v. v \<in> set (out ! u) \<Longrightarrow> u < length visited \<Longrightarrow> (u, v) \<in> E) \<Longrightarrow>
     \<exists>s \<in> set stack. (s, to) \<in> E\<^sup>*"
proof (induction out to visited stack rule: path_loop.induct)
  case (2 out to visited u stack)
  show ?case
  proof (cases "u = to \<or> length visited \<le> u \<or> visited ! u")
    case True
    then show ?thesis using 2 by (auto split: if_splits)
  next
    case False
    then have "path_loop out to (visited[u := True]) (rev (filter (\<lambda>v. \<not> visited[u := True] ! v) (out ! u)) @ stack)"
      using "2.prems"(1) by (simp add: Let_def)
    then have "\<exists>s \<in> set (rev (filter (\<lambda>v. \<not> visited[u := True] ! v) (out ! u)) @ stack). (s, to) \<in> E\<^sup>*"
      using "2.IH"(2) [of "visited[u := True]"] False "2.prems"(2) by auto
    then show ?thesis
      using "2.prems"(2) [of _ u] False by (auto intro: converse_rtrancl_into_rtrancl)
  qed
qed simp

text \<open>The visited nodes lead only to visited nodes and to the stack.\<close>

lemma path_loop_complete:
  "\<not> path_loop out to visited stack \<Longrightarrow> (\<And>u v. (u, v) \<in> E \<Longrightarrow> v \<in> set (out ! u) \<and> u < length visited) \<Longrightarrow>
     (\<And>u v. u < length visited \<Longrightarrow> visited ! u \<Longrightarrow> (u, v) \<in> E \<Longrightarrow> v \<in> set stack \<or> (v < length visited \<and> visited ! v)) \<Longrightarrow>
     (\<And>u. u < length visited \<Longrightarrow> visited ! u \<Longrightarrow> u \<noteq> to) \<Longrightarrow>
     (\<And>u v. u < length visited \<Longrightarrow> v \<in> set (out ! u) \<Longrightarrow> v < length visited) \<Longrightarrow> set stack \<subseteq> {..<length visited} \<Longrightarrow>
     s \<in> set stack \<or> (s < length visited \<and> visited ! s) \<Longrightarrow> (s, t) \<in> E\<^sup>* \<Longrightarrow> t \<noteq> to"
proof (induction out to visited stack arbitrary: s t rule: path_loop.induct)
  case (1 out to visited)
  have "t < length visited \<and> visited ! t" using "1.prems"(8,7)
  proof (induction rule: rtrancl_induct)
    case base
    then show ?case by simp
  next
    case (step y z)
    then show ?case using "1.prems"(3) [of y z] by simp
  qed
  then show ?case using "1.prems"(4) by blast
next
  case (2 out to visited u stack)
  have ne: "u \<noteq> to" using "2.prems"(1) by auto
  show ?case
  proof (cases "visited ! u")
    case True
    then have n: "\<not> path_loop out to visited stack" using "2.prems"(1) ne by simp
    show ?thesis
    proof (rule "2.IH"(1) [OF ne _ n])
      show "length visited \<le> u \<or> visited ! u" using True by simp
      show "v \<in> set stack \<or> (v < length visited \<and> visited ! v)" if "x < length visited" "visited ! x" "(x, v) \<in> E" for x v
        using "2.prems"(3) [OF that] True "2.prems"(6) by auto
      show "s \<in> set stack \<or> (s < length visited \<and> visited ! s)" using "2.prems"(6,7) True by auto
    qed (use "2.prems"(2,4,5,6,8) in auto)
  next
    case False
    define vis where "vis = visited[u := True]"
    define st where "st = rev (filter (\<lambda>v. \<not> vis ! v) (out ! u)) @ stack"
    have b: "u < length visited" using "2.prems"(6) by simp
    have n: "\<not> path_loop out to vis st" using "2.prems"(1) ne False b by (simp add: vis_def st_def Let_def)
    have len: "length vis = length visited" by (simp add: vis_def)
    have in_vis: "x < length visited \<Longrightarrow> vis ! x \<longleftrightarrow> visited ! x \<or> x = u" for x using b by (auto simp: vis_def nth_list_update)
    show ?thesis
    proof (rule "2.IH"(2) [OF ne _ refl, folded vis_def, folded st_def, OF _ n])
      show "\<not> (length visited \<le> u \<or> visited ! u)" using b False by simp
      show "v \<in> set st \<or> (v < length vis \<and> vis ! v)" if x: "x < length vis" "vis ! x" "(x, v) \<in> E" for x v
      proof (cases "x = u")
        case True
        then have "v \<in> set (out ! u)" "v < length vis" using "2.prems"(2) [OF x(3)] "2.prems"(5) [of x v] x(1) len by auto
        then show ?thesis by (auto simp: st_def)
      next
        case False
        then have "v \<in> set (u # stack) \<or> (v < length visited \<and> visited ! v)"
          using "2.prems"(3) [of x v] x in_vis [of x] len by auto
        then show ?thesis using in_vis [of v] b len by (auto simp: st_def)
      qed
      show "s \<in> set st \<or> (s < length vis \<and> vis ! s)"
        using "2.prems"(7) in_vis [of s] b len by (auto simp: st_def)
      show "set st \<subseteq> {..<length vis}"
        using "2.prems"(6) "2.prems"(5) [OF b] len by (auto simp: st_def)
    qed (use "2.prems"(2,4,5,8) in_vis len ne in auto)
  qed
qed

lemma path_exists_iff:
  assumes ok: "dag_ok n d" and uv: "u < n" "v < n"
  shows "path_exists d u v \<longleftrightarrow> (u, v) \<in> (edges d)\<^sup>*"
proof (cases "u = v")
  case False
  note D = dag_okD [OF ok]
  have E: "v \<in> set (out_edges d ! u) \<longleftrightarrow> (u, v) \<in> edges d" if "u < n" for u v using D(5) [OF that] by simp
  show ?thesis
  proof
    assume "path_exists d u v"
    then have "path_loop (out_edges d) v (replicate n False) [u]" using False D(1) by (simp add: path_exists_def)
    then have "\<exists>s \<in> set [u]. (s, v) \<in> (edges d)\<^sup>*" by (rule path_loop_sound) (simp add: E)
    then show "(u, v) \<in> (edges d)\<^sup>*" by simp
  next
    assume r: "(u, v) \<in> (edges d)\<^sup>*"
    show "path_exists d u v"
    proof (rule ccontr)
      assume "\<not> path_exists d u v"
      then have "\<not> path_loop (out_edges d) v (replicate n False) [u]" using False D(1) by (simp add: path_exists_def)
      from path_loop_complete [OF this, of "edges d" u v] show False using E D(8) uv r by auto
    qed
  qed
qed (simp add: path_exists_def)

section \<open>Longest paths\<close>

text \<open>Every node lies just above its highest predecessor.\<close>

definition depth_of :: "nat \<Rightarrow> (nat \<times> nat) set \<Rightarrow> nat list \<Rightarrow> bool" where
  "depth_of n E dep \<longleftrightarrow> length dep = n \<and> (\<forall>(u, v) \<in> E. dep ! u < dep ! v)
     \<and> (\<forall>v < n. dep ! v = 0 \<or> (\<exists>u. (u, v) \<in> E \<and> dep ! v = Suc (dep ! u)))"

lemma depth_acyclic: "depth_of n E dep \<Longrightarrow> acyclic E"
proof -
  assume d: "depth_of n E dep"
  have "dep ! u < dep ! v" if "(u, v) \<in> E\<^sup>+" for u v
    using that by induction (use d in \<open>auto simp: depth_of_def intro: less_trans\<close>)
  then show ?thesis by (auto simp: acyclic_def)
qed

lemma depth_path: "depth_of n E dep \<Longrightarrow> (u, v) \<in> E\<^sup>* \<Longrightarrow> u \<noteq> v \<Longrightarrow> dep ! u < dep ! v"
proof -
  assume d: "depth_of n E dep" and p: "(u, v) \<in> E\<^sup>*" "u \<noteq> v"
  have "(u, v) \<in> E\<^sup>+" using p by (simp add: rtrancl_eq_or_trancl)
  then show ?thesis by induction (use d in \<open>auto simp: depth_of_def intro: less_trans\<close>)
qed

text \<open>The state of the queue after the nodes \<open>P\<close> were taken out.\<close>

definition topo_state :: "nat \<Rightarrow> (nat \<times> nat) set \<Rightarrow> nat list \<Rightarrow> nat list \<Rightarrow> nat list \<Rightarrow> nat list \<Rightarrow> bool" where
  "topo_state n E P q indeg dep \<longleftrightarrow> length indeg = n \<and> length dep = n \<and> distinct (P @ q) \<and> set (P @ q) \<subseteq> {..<n}
     \<and> (\<forall>v < n. indeg ! v = card {u. (u, v) \<in> E \<and> u \<notin> set P})
     \<and> (\<forall>v < n. v \<in> set (P @ q) \<longleftrightarrow> {u. (u, v) \<in> E \<and> u \<notin> set P} = {})
     \<and> (\<forall>u v. (u, v) \<in> E \<longrightarrow> u \<in> set P \<longrightarrow> dep ! u < dep ! v)
     \<and> (\<forall>v < n. dep ! v = 0 \<or> (\<exists>u \<in> set P. (u, v) \<in> E \<and> dep ! v = Suc (dep ! u)))"

lemma relax_closed:
  "distinct vs \<Longrightarrow> u \<notin> set vs \<Longrightarrow> set vs \<subseteq> {..<length indeg} \<Longrightarrow> length dep = length indeg \<Longrightarrow>
     \<exists>indeg' dep'. relax u vs indeg dep q = (indeg', dep', q @ filter (\<lambda>v. indeg ! v = 1) vs)
       \<and> length indeg' = length indeg \<and> length dep' = length indeg
       \<and> (\<forall>v < length indeg. indeg' ! v = (if v \<in> set vs then indeg ! v - 1 else indeg ! v))
       \<and> (\<forall>v < length indeg. dep' ! v = (if v \<in> set vs then max (dep ! v) (Suc (dep ! u)) else dep ! v))"
proof (induction vs arbitrary: indeg dep q)
  case (Cons v vs)
  define i1 where "i1 = indeg[v := indeg ! v - 1]"
  define d1 where "d1 = (if dep ! u + 1 > dep ! v then dep[v := dep ! u + 1] else dep)"
  define q1 where "q1 = (if indeg ! v = 1 then q @ [v] else q)"
  have v: "v < length indeg" "v \<notin> set vs" "v \<noteq> u" using Cons.prems by auto
  have r: "relax u (v # vs) indeg dep q = relax u vs i1 d1 q1"
    using v(1) by (simp add: i1_def d1_def q1_def Let_def)
  have l: "length i1 = length indeg" "length d1 = length indeg" using Cons.prems(4) by (simp_all add: i1_def d1_def)
  obtain indeg' dep' where ih: "relax u vs i1 d1 q1 = (indeg', dep', q1 @ filter (\<lambda>v. i1 ! v = 1) vs)"
    "length indeg' = length indeg" "length dep' = length indeg"
    "\<forall>v < length indeg. indeg' ! v = (if v \<in> set vs then i1 ! v - 1 else i1 ! v)"
    "\<forall>v < length indeg. dep' ! v = (if v \<in> set vs then max (d1 ! v) (Suc (d1 ! u)) else d1 ! v)"
    using Cons.IH [of i1 d1 q1] Cons.prems(1-3) l by auto
  have f: "filter (\<lambda>v. i1 ! v = 1) vs = filter (\<lambda>v. indeg ! v = 1) vs"
    by (rule filter_cong) (use v in \<open>auto simp: i1_def nth_list_update\<close>)
  have i1: "i1 ! x = (if x = v then indeg ! v - 1 else indeg ! x)" for x using v(1) by (simp add: i1_def nth_list_update)
  have d1: "d1 ! x = (if x = v then max (dep ! v) (Suc (dep ! u)) else dep ! x)" for x
    using v(1) Cons.prems(4) by (simp add: d1_def nth_list_update max_def)
  have "\<forall>x < length indeg. indeg' ! x = (if x \<in> set (v # vs) then indeg ! x - 1 else indeg ! x)"
    using ih(4) v(2) by (auto simp: i1)
  moreover have "\<forall>x < length indeg. dep' ! x = (if x \<in> set (v # vs) then max (dep ! x) (Suc (dep ! u)) else dep ! x)"
    using ih(5) v(2,3) by (auto simp: d1)
  moreover have "relax u (v # vs) indeg dep q = (indeg', dep', q @ filter (\<lambda>v. indeg ! v = 1) (v # vs))"
    unfolding r using ih(1) f by (simp add: q1_def)
  ultimately show ?case using ih(2,3) by blast
qed simp

lemma topo_step:
  assumes s: "topo_state n E P (u # q) indeg dep" and E: "E \<subseteq> {..<n} \<times> {..<n}"
    and out: "distinct (out ! u)" "set (out ! u) = {v. (u, v) \<in> E}"
  obtains indeg' dep' q' where "relax u (out ! u) indeg dep q = (indeg', dep', q')"
    "topo_state n E (P @ [u]) q' indeg' dep'"
proof -
  note S = s [unfolded topo_state_def]
  have u: "u < n" "u \<notin> set P" using S by auto
  have no_in: "\<And>w. (w, u) \<in> E \<Longrightarrow> w \<in> set P" using S u(1) by auto
  have "u \<notin> set (out ! u)" using no_in u(2) out(2) by auto
  moreover have "set (out ! u) \<subseteq> {..<length indeg}" using S E out(2) by auto
  ultimately obtain indeg' dep' where r: "relax u (out ! u) indeg dep q = (indeg', dep', q @ filter (\<lambda>v. indeg ! v = 1) (out ! u))"
    "length indeg' = n" "length dep' = n"
    "\<forall>v < n. indeg' ! v = (if v \<in> set (out ! u) then indeg ! v - 1 else indeg ! v)"
    "\<forall>v < n. dep' ! v = (if v \<in> set (out ! u) then max (dep ! v) (Suc (dep ! u)) else dep ! v)"
    using relax_closed [OF out(1), of u indeg dep q] S by auto
  define q' where "q' = q @ filter (\<lambda>v. indeg ! v = 1) (out ! u)"
  have fin: "finite {w. (w, v) \<in> E \<and> w \<notin> set P}" for v
    by (rule finite_subset [of _ "{..<n}"]) (use E in auto)
  have pending: "{w. (w, v) \<in> E \<and> w \<notin> set (P @ [u])} = {w. (w, v) \<in> E \<and> w \<notin> set P} - {u}" for v by auto
  have mem: "u \<in> {w. (w, v) \<in> E \<and> w \<notin> set P} \<longleftrightarrow> v \<in> set (out ! u)" for v using out(2) u(2) by auto
  have card: "card {w. (w, v) \<in> E \<and> w \<notin> set (P @ [u])}
      = (if v \<in> set (out ! u) then card {w. (w, v) \<in> E \<and> w \<notin> set P} - 1 else card {w. (w, v) \<in> E \<and> w \<notin> set P})" for v
    unfolding pending using mem [of v] fin [of v] by (simp add: card_Diff_singleton_if)
  have indeg: "indeg' ! v = card {w. (w, v) \<in> E \<and> w \<notin> set (P @ [u])}" if v: "v < n" for v
  proof -
    have "indeg ! v = card {w. (w, v) \<in> E \<and> w \<notin> set P}" using S v by blast
    then show ?thesis unfolding card using r(4) v by simp
  qed
  have new: "v \<in> set q' \<longleftrightarrow> v \<in> set q \<or> (v \<in> set (out ! u) \<and> indeg ! v = 1)" for v by (auto simp: q'_def)
  have one: "indeg ! v = 1 \<longleftrightarrow> {w. (w, v) \<in> E \<and> w \<notin> set P} = {u}" if "v < n" "v \<in> set (out ! u)" for v
  proof -
    have "indeg ! v = card {w. (w, v) \<in> E \<and> w \<notin> set P}" using S that(1) by blast
    moreover have "u \<in> {w. (w, v) \<in> E \<and> w \<notin> set P}" using mem [of v] that(2) by blast
    ultimately show ?thesis by (metis One_nat_def card_1_singleton_iff singletonD)
  qed
  have notin: "v \<notin> set (P @ u # q)" if "v \<in> set (out ! u)" for v
  proof -
    have "v < n" using that E out(2) by auto
    moreover have "{w. (w, v) \<in> E \<and> w \<notin> set P} \<noteq> {}" using mem [of v] that by blast
    ultimately show ?thesis using S by blast
  qed
  have "distinct ((P @ [u]) @ q')" using S out(1) notin by (auto simp: q'_def)
  moreover have "set ((P @ [u]) @ q') \<subseteq> {..<n}" using S E out(2) by (auto simp: q'_def)
  moreover have "v \<in> set ((P @ [u]) @ q') \<longleftrightarrow> {w. (w, v) \<in> E \<and> w \<notin> set (P @ [u])} = {}" if v: "v < n" for v
  proof (cases "v \<in> set (out ! u)")
    case True
    then show ?thesis using notin [OF True] one [OF v True] mem [of v] unfolding pending by (auto simp: new)
  next
    case False
    then have "{w. (w, v) \<in> E \<and> w \<notin> set (P @ [u])} = {w. (w, v) \<in> E \<and> w \<notin> set P}" using mem [of v] unfolding pending by auto
    then show ?thesis using S v False by (auto simp: new)
  qed
  moreover have same: "dep' ! v = dep ! v" if "v \<in> set (P @ [u])" for v
  proof -
    have "v < n" "v \<notin> set (out ! u)" using that S notin by auto
    then show ?thesis using r(5) by simp
  qed
  have "dep' ! w < dep' ! v" if e: "(w, v) \<in> E" "w \<in> set (P @ [u])" for w v
  proof -
    have vn: "v < n" using e(1) E by auto
    have ge: "dep ! v \<le> dep' ! v" using r(5) vn by auto
    show ?thesis
    proof (cases "w = u")
      case True
      then have "v \<in> set (out ! u)" using e(1) out(2) by auto
      then show ?thesis using r(5) vn same [OF e(2)] True by auto
    next
      case False
      then have "dep ! w < dep ! v" using S e by auto
      then show ?thesis using ge same [OF e(2)] by simp
    qed
  qed
  moreover have "dep' ! v = 0 \<or> (\<exists>w \<in> set (P @ [u]). (w, v) \<in> E \<and> dep' ! v = Suc (dep' ! w))" if v: "v < n" for v
  proof (cases "dep' ! v = dep ! v")
    case True
    have "dep ! v = 0 \<or> (\<exists>w \<in> set P. (w, v) \<in> E \<and> dep ! v = Suc (dep ! w))" using S v by blast
    then show ?thesis using True same by auto
  next
    case False
    then have "v \<in> set (out ! u)" "dep' ! v = Suc (dep ! u)" using r(5) v by (auto simp: max_def split: if_splits)
    then show ?thesis using out(2) same [of u] by auto
  qed
  ultimately have "topo_state n E (P @ [u]) q' indeg' dep'"
    using r(2,3) indeg unfolding topo_state_def by blast
  then show thesis using that r(1) q'_def by blast
qed

lemma topo_loop_spec:
  assumes "topo_state n E P q indeg dep" "E \<subseteq> {..<n} \<times> {..<n}"
    "\<And>u. u < n \<Longrightarrow> distinct (out ! u) \<and> set (out ! u) = {v. (u, v) \<in> E}"
  shows "\<exists>P' indeg' dep'. topo_loop out indeg dep q (length P) = (dep', length P') \<and> topo_state n E P' [] indeg' dep'"
  using assms(1,3)
proof (induction out indeg dep q "length P" arbitrary: P rule: topo_loop.induct)
  case (1 out indeg dep)
  then show ?case by auto
next
  case (2 out indeg dep u q)
  have u: "u < n" using "2.prems"(1) by (simp add: topo_state_def)
  obtain indeg' dep' q' where r: "relax u (out ! u) indeg dep q = (indeg', dep', q')"
    "topo_state n E (P @ [u]) q' indeg' dep'"
    by (rule topo_step [OF "2.prems"(1) assms(2)]) (use "2.prems"(2) [OF u] in auto)
  have "\<exists>P' indeg'' dep''. topo_loop out indeg' dep' q' (length (P @ [u])) = (dep'', length P') \<and> topo_state n E P' [] indeg'' dep''"
    by (rule "2.hyps" [OF r(1) [symmetric] refl _ r(2) "2.prems"(2)]) simp_all
  then show ?case using r(1) by simp
qed

lemma topo_start:
  assumes ok: "dag_ok n d"
  shows "topo_state n (edges d) [] (filter (\<lambda>v. map length (in_edges d) ! v = 0) [0..<n]) (map length (in_edges d)) (replicate n 0)"
proof -
  note D = dag_okD [OF ok]
  have c: "map length (in_edges d) ! v = card {u. (u, v) \<in> edges d}" if "v < n" for v
    using that D(3,6,7) by (metis distinct_card nth_map)
  have "finite {u. (u, v) \<in> edges d}" for v by (rule finite_subset [of _ "{..<n}"]) (use D(8) in auto)
  then have "map length (in_edges d) ! v = 0 \<longleftrightarrow> {u. (u, v) \<in> edges d} = {}" if "v < n" for v
    using c [OF that] by simp
  then show ?thesis using c D(3) unfolding topo_state_def by (auto simp del: nth_map)
qed

lemma topo_done:
  assumes s: "topo_state n E P [] indeg dep" and E: "E \<subseteq> {..<n} \<times> {..<n}"
  shows "length P = n \<longleftrightarrow> acyclic E" "length P = n \<Longrightarrow> depth_of n E dep"
proof -
  note S = s [unfolded topo_state_def]
  have all: "length P = n \<longleftrightarrow> set P = {..<n}"
  proof
    assume "length P = n"
    then have "card (set P) = n" using S by (simp add: distinct_card)
    then show "set P = {..<n}" using S by (intro card_subset_eq) auto
  next
    assume "set P = {..<n}"
    moreover have "card (set P) = length P" using S by (simp add: distinct_card)
    ultimately show "length P = n" by simp
  qed
  show d: "depth_of n E dep" if "length P = n"
  proof -
    have "set P = {..<n}" using that all by blast
    then show ?thesis using S E unfolding depth_of_def by auto
  qed
  show "length P = n \<longleftrightarrow> acyclic E"
  proof
    assume "length P = n"
    then show "acyclic E" using d depth_acyclic by blast
  next
    assume a: "acyclic E"
    have "finite E" using E finite_subset by blast
    then have wf: "wf E" using a finite_acyclic_wf by blast
    have "v \<in> set P" if "v < n" for v
      using wf that
    proof (induction v)
      case (less v)
      have "{u. (u, v) \<in> E \<and> u \<notin> set P} = {}" using less E by blast
      then show ?case using S less.prems by auto
    qed
    then show "length P = n" using all S by auto
  qed
qed

lemma recompute_spec:
  assumes ok: "dag_ok n d"
  shows "\<exists>dep. recompute_depths d = (d\<lparr>depth := dep\<rparr>, acyclic (edges d)) \<and> (acyclic (edges d) \<longrightarrow> depth_of n (edges d) dep)"
proof -
  note D = dag_okD [OF ok]
  have E: "edges d \<subseteq> {..<n} \<times> {..<n}" using D(8) by auto
  have out: "u < n \<Longrightarrow> distinct (out_edges d ! u) \<and> set (out_edges d ! u) = {v. (u, v) \<in> edges d}" for u using D(4,5) by blast
  obtain P indeg dep where t: "topo_loop (out_edges d) (map length (in_edges d)) (replicate n 0)
      (filter (\<lambda>v. map length (in_edges d) ! v = 0) [0..<n]) 0 = (dep, length P)" "topo_state n (edges d) P [] indeg dep"
    using topo_loop_spec [OF topo_start [OF ok] E out] by auto
  have "recompute_depths d = (d\<lparr>depth := dep\<rparr>, length P = n)"
    unfolding recompute_depths_def Let_def D(1) t(1) by simp
  then show ?thesis using topo_done [OF t(2) E] by auto
qed

lemma edges_depth [simp]: "edges (d\<lparr>depth := dep\<rparr>) = edges d"
  by (simp add: edges_def)

lemma dag_ok_depth [simp]: "dag_ok n (d\<lparr>depth := dep\<rparr>) = dag_ok n d"
  by (simp add: dag_ok_def)

text \<open>Longest paths are unique.\<close>

lemma depth_unique:
  assumes "depth_of n E d1" "depth_of n E d2" "E \<subseteq> {..<n} \<times> {..<n}"
  shows "d1 = d2"
proof (rule nth_equalityI)
  show "length d1 = length d2" using assms by (simp add: depth_of_def)
  have le: "a ! v \<le> b ! v" if a: "depth_of n E a" and b: "depth_of n E b" and v: "v < n" for a b v
    using v
  proof (induction "a ! v" arbitrary: v rule: less_induct)
    case less
    have "a ! v = 0 \<or> (\<exists>u. (u, v) \<in> E \<and> a ! v = Suc (a ! u))" using a less.prems by (simp add: depth_of_def)
    then show ?case
    proof (elim disjE exE conjE)
      fix u
      assume u: "(u, v) \<in> E" "a ! v = Suc (a ! u)"
      have "u < n" using u(1) assms(3) by auto
      then have "a ! u \<le> b ! u" using less.hyps [of u] u(2) by simp
      moreover have "b ! u < b ! v" using b u(1) unfolding depth_of_def by blast
      ultimately show ?thesis using u(2) by simp
    qed simp
  qed
  show "d1 ! i = d2 ! i" if "i < length d1" for i
    using le [OF assms(1,2), of i] le [OF assms(2,1), of i] that assms(1) by (simp add: depth_of_def)
qed

section \<open>The emission\<close>

definition emit_state :: "SystemRegistration list \<Rightarrow> (nat \<times> nat) set \<Rightarrow> nat list \<Rightarrow> nat list \<Rightarrow> nat list \<Rightarrow> nat list \<Rightarrow> bool" where
  "emit_state reg E dep P q indeg \<longleftrightarrow> length indeg = length reg \<and> distinct (P @ q)
     \<and> set (P @ q) \<subseteq> {i. i < length reg \<and> reg_alive (reg ! i)}
     \<and> (\<forall>v < length reg. indeg ! v = card {u. (u, v) \<in> E \<and> u \<notin> set P})
     \<and> (\<forall>v < length reg. reg_alive (reg ! v) \<longrightarrow> v \<in> set (P @ q) \<longleftrightarrow> {u. (u, v) \<in> E \<and> u \<notin> set P} = {})
     \<and> sorted (map (emit_key reg dep) P)
     \<and> (\<forall>x \<in> set P. \<forall>y < length reg. reg_alive (reg ! y) \<longrightarrow> y \<notin> set P \<longrightarrow> emit_key reg dep x \<le> emit_key reg dep y)"

text \<open>Every edge joins alive registrations.\<close>

definition alive_edges :: "SystemRegistration list \<Rightarrow> (nat \<times> nat) set \<Rightarrow> bool" where
  "alive_edges reg E \<longleftrightarrow> (\<forall>(u, v) \<in> E. u < length reg \<and> v < length reg \<and> reg_alive (reg ! u) \<and> reg_alive (reg ! v))"

lemma release_closed:
  "distinct vs \<Longrightarrow> set vs \<subseteq> {i. i < length indeg \<and> reg_alive (reg ! i)} \<Longrightarrow>
     \<exists>indeg'. release_successors reg vs indeg pq = (indeg', pq @ filter (\<lambda>v. indeg ! v = 1) vs)
       \<and> length indeg' = length indeg
       \<and> (\<forall>v < length indeg. indeg' ! v = (if v \<in> set vs then indeg ! v - 1 else indeg ! v))"
proof (induction vs arbitrary: indeg pq)
  case (Cons v vs)
  define i1 where "i1 = indeg[v := indeg ! v - 1]"
  define q1 where "q1 = (if indeg ! v = 1 then pq @ [v] else pq)"
  have v: "v < length indeg" "v \<notin> set vs" "reg_alive (reg ! v)" using Cons.prems by auto
  have r: "release_successors reg (v # vs) indeg pq = release_successors reg vs i1 q1"
    using v by (simp add: i1_def q1_def)
  have "length i1 = length indeg" by (simp add: i1_def)
  then obtain indeg' where ih: "release_successors reg vs i1 q1 = (indeg', q1 @ filter (\<lambda>v. i1 ! v = 1) vs)"
    "length indeg' = length indeg" "\<forall>v < length indeg. indeg' ! v = (if v \<in> set vs then i1 ! v - 1 else i1 ! v)"
    using Cons.IH [of i1 q1] Cons.prems by auto
  have f: "filter (\<lambda>v. i1 ! v = 1) vs = filter (\<lambda>v. indeg ! v = 1) vs"
    by (rule filter_cong) (use v in \<open>auto simp: i1_def nth_list_update\<close>)
  have i1: "i1 ! x = (if x = v then indeg ! v - 1 else indeg ! x)" for x using v(1) by (simp add: i1_def nth_list_update)
  have "\<forall>x < length indeg. indeg' ! x = (if x \<in> set (v # vs) then indeg ! x - 1 else indeg ! x)"
    using ih(3) v(2) by (auto simp: i1)
  moreover have "release_successors reg (v # vs) indeg pq = (indeg', pq @ filter (\<lambda>v. indeg ! v = 1) (v # vs))"
    unfolding r using ih(1) f by (simp add: q1_def)
  ultimately show ?case using ih(2) by blast
qed simp

text \<open>A node still waiting lies above one in the queue.\<close>

lemma waiting_above:
  assumes s: "emit_state reg E dep P q indeg" and E: "alive_edges reg E" and d: "depth_of (length reg) E dep"
    and y: "y < length reg" "reg_alive (reg ! y)" "y \<notin> set P"
  shows "\<exists>z \<in> set q. emit_key reg dep z \<le> emit_key reg dep y"
  using y
proof (induction "dep ! y" arbitrary: y rule: less_induct)
  case less
  show ?case
  proof (cases "y \<in> set q")
    case False
    then have "{u. (u, y) \<in> E \<and> u \<notin> set P} \<noteq> {}" using s less.prems by (auto simp: emit_state_def)
    then obtain u where u: "(u, y) \<in> E" "u \<notin> set P" by blast
    have lt: "dep ! u < dep ! y" using d u(1) unfolding depth_of_def by blast
    have "u < length reg" "reg_alive (reg ! u)" using E u(1) by (auto simp: alive_edges_def)
    then obtain z where z: "z \<in> set q" "emit_key reg dep z \<le> emit_key reg dep u" using less.hyps [OF lt] u(2) by blast
    moreover have "emit_key reg dep u \<le> emit_key reg dep y" using lt by (simp add: emit_key_def)
    ultimately show ?thesis by (meson order_trans)
  qed auto
qed

lemma emit_step:
  assumes s: "emit_state reg E dep P q indeg" and E: "alive_edges reg E" and d: "depth_of (length reg) E dep"
    and top: "u \<in> set q" "\<forall>j \<in> set q. emit_key reg dep u \<le> emit_key reg dep j"
    and out: "distinct (out ! u)" "set (out ! u) = {v. (u, v) \<in> E}"
  obtains indeg' q' where "release_successors reg (out ! u) indeg (remove1 u q) = (indeg', q')"
    "emit_state reg E dep (P @ [u]) q' indeg'"
proof -
  note S = s [unfolded emit_state_def]
  let ?n = "length reg"
  have u: "u < ?n" "u \<notin> set P" "reg_alive (reg ! u)" using S top(1) by auto
  have q: "set (remove1 u q) = set q - {u}" "distinct (remove1 u q)" using S by (simp_all add: set_remove1_eq distinct_remove1)
  have oa: "set (out ! u) \<subseteq> {i. i < length indeg \<and> reg_alive (reg ! i)}" using S E out(2) by (auto simp: alive_edges_def)
  obtain indeg' where r: "release_successors reg (out ! u) indeg (remove1 u q) = (indeg', remove1 u q @ filter (\<lambda>v. indeg ! v = 1) (out ! u))"
    "length indeg' = ?n" "\<forall>v < ?n. indeg' ! v = (if v \<in> set (out ! u) then indeg ! v - 1 else indeg ! v)"
    using release_closed [OF out(1) oa, of "remove1 u q"] S by auto
  define q' where "q' = remove1 u q @ filter (\<lambda>v. indeg ! v = 1) (out ! u)"
  have pending: "{w. (w, v) \<in> E \<and> w \<notin> set (P @ [u])} = {w. (w, v) \<in> E \<and> w \<notin> set P} - {u}" for v by auto
  have mem: "u \<in> {w. (w, v) \<in> E \<and> w \<notin> set P} \<longleftrightarrow> v \<in> set (out ! u)" for v using out(2) u(2) by auto
  have fin: "finite {w. (w, v) \<in> E \<and> w \<notin> set P}" for v
    by (rule finite_subset [of _ "{..<?n}"]) (use E in \<open>auto simp: alive_edges_def\<close>)
  have card: "card {w. (w, v) \<in> E \<and> w \<notin> set (P @ [u])}
      = (if v \<in> set (out ! u) then card {w. (w, v) \<in> E \<and> w \<notin> set P} - 1 else card {w. (w, v) \<in> E \<and> w \<notin> set P})" for v
    unfolding pending using mem [of v] fin [of v] by (simp add: card_Diff_singleton_if)
  have indeg: "indeg' ! v = card {w. (w, v) \<in> E \<and> w \<notin> set (P @ [u])}" if v: "v < ?n" for v
  proof -
    have "indeg ! v = card {w. (w, v) \<in> E \<and> w \<notin> set P}" using S v by blast
    then show ?thesis unfolding card using r(3) v by simp
  qed
  have one: "indeg ! v = 1 \<longleftrightarrow> {w. (w, v) \<in> E \<and> w \<notin> set P} = {u}" if "v < ?n" "v \<in> set (out ! u)" for v
  proof -
    have "indeg ! v = card {w. (w, v) \<in> E \<and> w \<notin> set P}" using S that(1) by blast
    moreover have "u \<in> {w. (w, v) \<in> E \<and> w \<notin> set P}" using mem [of v] that(2) by blast
    ultimately show ?thesis by (metis One_nat_def card_1_singleton_iff singletonD)
  qed
  have notin: "v \<notin> set (P @ q)" if "v \<in> set (out ! u)" for v
  proof -
    have "v < ?n" "reg_alive (reg ! v)" using that oa S by auto
    moreover have "{w. (w, v) \<in> E \<and> w \<notin> set P} \<noteq> {}" using mem [of v] that by blast
    ultimately show ?thesis using S by blast
  qed
  have new: "v \<in> set q' \<longleftrightarrow> (v \<in> set q \<and> v \<noteq> u) \<or> (v \<in> set (out ! u) \<and> indeg ! v = 1)" for v by (auto simp: q'_def q(1))
  have "distinct ((P @ [u]) @ q')" using S out(1) notin q u(2) top(1) by (auto simp: q'_def)
  moreover have "set ((P @ [u]) @ q') \<subseteq> {i. i < ?n \<and> reg_alive (reg ! i)}" using S oa u new by auto
  moreover have "v \<in> set ((P @ [u]) @ q') \<longleftrightarrow> {w. (w, v) \<in> E \<and> w \<notin> set (P @ [u])} = {}" if v: "v < ?n" "reg_alive (reg ! v)" for v
  proof (cases "v \<in> set (out ! u)")
    case True
    then show ?thesis using notin [OF True] one [OF v(1) True] mem [of v] top(1) unfolding pending by (auto simp: new)
  next
    case False
    then have "{w. (w, v) \<in> E \<and> w \<notin> set (P @ [u])} = {w. (w, v) \<in> E \<and> w \<notin> set P}" using mem [of v] unfolding pending by auto
    then show ?thesis using S v False top(1) by (auto simp: new)
  qed
  moreover have least: "emit_key reg dep u \<le> emit_key reg dep y" if "y < ?n" "reg_alive (reg ! y)" "y \<notin> set P" for y
    using waiting_above [OF s E d that] top(2) by (meson order_trans)
  then have "\<forall>x \<in> set (P @ [u]). \<forall>y < ?n. reg_alive (reg ! y) \<longrightarrow> y \<notin> set (P @ [u]) \<longrightarrow> emit_key reg dep x \<le> emit_key reg dep y"
    using S by auto
  moreover have "sorted (map (emit_key reg dep) (P @ [u]))" using S u by (auto simp: sorted_append)
  ultimately have "emit_state reg E dep (P @ [u]) q' indeg'"
    using r(2) indeg unfolding emit_state_def by blast
  then show thesis using that r(1) q'_def by blast
qed

lemma emit_loop_spec:
  assumes "emit_state reg E dep P q indeg" "alive_edges reg E" "depth_of (length reg) E dep"
    "\<And>u. u < length reg \<Longrightarrow> distinct (out ! u) \<and> set (out ! u) = {v. (u, v) \<in> E}"
  shows "\<exists>indeg'. emit_state reg E dep (emit_loop reg out dep indeg q P) [] indeg'"
  using assms
proof (induction reg out dep indeg q P rule: emit_loop.induct)
  case (1 reg out dep indeg q P)
  show ?case
  proof (cases "q = []")
    case True
    then show ?thesis using "1.prems"(1) by (subst emit_loop.simps) auto
  next
    case False
    define u where "u = pq_top reg dep q"
    have top: "u \<in> set q" "\<forall>j \<in> set q. emit_key reg dep u \<le> emit_key reg dep j" unfolding u_def using pq_top_in [OF False] by blast+
    have "u < length reg" using top(1) "1.prems"(1) by (auto simp: emit_state_def)
    then obtain indeg' q' where r: "release_successors reg (out ! u) indeg (remove1 u q) = (indeg', q')"
      "emit_state reg E dep (P @ [u]) q' indeg'"
      using emit_step [OF "1.prems"(1-3) top] "1.prems"(4) by metis
    have "\<exists>i. emit_state reg E dep (emit_loop reg out dep indeg' q' (P @ [u])) [] i"
      by (rule "1.IH" [OF False u_def r(1) [symmetric] r(2) "1.prems"(2-4)])
    then show ?thesis using False r(1) by (subst emit_loop.simps) (simp add: u_def [symmetric] Let_def)
  qed
qed

lemma emit_order_spec:
  assumes ok: "dag_ok (length reg) d" and E: "alive_edges reg (edges d)" and d: "depth_of (length reg) (edges d) (depth d)"
  shows "distinct (emit_order reg d)" "set (emit_order reg d) = {i. i < length reg \<and> reg_alive (reg ! i)}"
    "sorted (map (emit_key reg (depth d)) (emit_order reg d))"
proof -
  note D = dag_okD [OF ok]
  let ?in = "map length (in_edges d)"
  have c: "?in ! v = card {u. (u, v) \<in> edges d}" if "v < length reg" for v
    using that D(3,6,7) by (metis distinct_card nth_map)
  have "finite {u. (u, v) \<in> edges d}" for v by (rule finite_subset [of _ "{..<length reg}"]) (use D(8) in auto)
  then have z: "?in ! v = 0 \<longleftrightarrow> {u. (u, v) \<in> edges d} = {}" if "v < length reg" for v using c [OF that] by simp
  have "emit_state reg (edges d) (depth d) [] (filter (\<lambda>i. reg_alive (reg ! i) \<and> ?in ! i = 0) [0..<length reg]) ?in"
    using c z D(3) unfolding emit_state_def by (auto simp del: nth_map)
  moreover have "distinct (out_edges d ! u) \<and> set (out_edges d ! u) = {v. (u, v) \<in> edges d}" if "u < length reg" for u
    using D(4,5) that by blast
  ultimately obtain indeg where "emit_state reg (edges d) (depth d) (emit_order reg d) [] indeg"
    using emit_loop_spec [OF _ E d] unfolding emit_order_def Let_def by blast
  note st = this
  have full: "y \<in> set (emit_order reg d)" if "y < length reg" "reg_alive (reg ! y)" for y
    using waiting_above [OF st E d that] by auto
  show "distinct (emit_order reg d)" "sorted (map (emit_key reg (depth d)) (emit_order reg d))"
    using st by (simp_all add: emit_state_def)
  show "set (emit_order reg d) = {i. i < length reg \<and> reg_alive (reg ! i)}"
    using full st by (auto simp: emit_state_def)
qed

end
