(* ===== verification/Scheduler_Properties.thy ===== *)
theory Scheduler_Properties
  imports Scheduler_Graph
begin

text \<open>
  What a rebuilt schedule promises: it exists exactly when the declared order has no cycle, every alive
  system runs in exactly one stage, declared order and conflicts are separated by stages, and the
  layout does not depend on the order of registration.
\<close>

section \<open>Declared edges\<close>

text \<open>The declared order over registration indices.\<close>

definition declares :: "(system_type_id_t \<Rightarrow> nat option) \<Rightarrow> nat \<Rightarrow> SystemRegistration \<Rightarrow> (nat \<times> nat) set" where
  "declares idx i r = (if reg_alive r
     then {(j, i) | j p. p \<in> set (run_after r) \<and> idx p = Some j} \<union> {(i, j) | j p. p \<in> set (run_before r) \<and> idx p = Some j}
     else {})"

definition declared_order :: "SystemRegistration list \<Rightarrow> (nat \<times> nat) set" where
  "declared_order reg = (\<Union>i < length reg. declares (type_index reg 0) i (reg ! i))"

lemma type_index_spec:
  "type_index rs i t = Some k \<Longrightarrow> i \<le> k \<and> k < i + length rs \<and> reg_alive (rs ! (k - i)) \<and> reg_type_id (rs ! (k - i)) = t"
proof (induction rs arbitrary: i)
  case (Cons r rs)
  then show ?case
  proof (cases "reg_alive r \<and> reg_type_id r = t")
    case False
    then have "type_index rs (Suc i) t = Some k" using Cons.prems by auto
    then have "Suc i \<le> k \<and> k < Suc i + length rs \<and> reg_alive (rs ! (k - Suc i)) \<and> reg_type_id (rs ! (k - Suc i)) = t"
      by (rule Cons.IH)
    moreover have "(r # rs) ! (k - i) = rs ! (k - Suc i)" if "Suc i \<le> k" using that by (simp add: nth_Cons')
    ultimately show ?thesis by auto
  qed auto
qed simp

lemma type_index_at:
  "type_index reg 0 t = Some k \<Longrightarrow> k < length reg \<and> reg_alive (reg ! k) \<and> reg_type_id (reg ! k) = t"
  using type_index_spec [of reg 0 t k] by simp

lemma add_after_spec:
  "dag_ok n d \<Longrightarrow> i < n \<Longrightarrow> (\<And>p j. idx p = Some j \<Longrightarrow> j < n) \<Longrightarrow>
     dag_ok n (add_after_edges idx i ps d)
     \<and> edges (add_after_edges idx i ps d) = edges d \<union> {(j, i) | j p. p \<in> set ps \<and> idx p = Some j}"
proof (induction ps arbitrary: d)
  case (Cons p ps)
  show ?case
  proof (cases "idx p")
    case None
    then show ?thesis using Cons by auto
  next
    case (Some j)
    then have "j < n" using Cons.prems(3) by blast
    then show ?thesis using Cons.IH [of "add_edge j i d"] add_edge_spec(1,2) [OF Cons.prems(1), of j i] Cons.prems(2,3) Some by auto
  qed
qed simp

lemma add_before_spec:
  "dag_ok n d \<Longrightarrow> i < n \<Longrightarrow> (\<And>p j. idx p = Some j \<Longrightarrow> j < n) \<Longrightarrow>
     dag_ok n (add_before_edges idx i ps d)
     \<and> edges (add_before_edges idx i ps d) = edges d \<union> {(i, j) | j p. p \<in> set ps \<and> idx p = Some j}"
proof (induction ps arbitrary: d)
  case (Cons p ps)
  show ?case
  proof (cases "idx p")
    case None
    then show ?thesis using Cons by auto
  next
    case (Some j)
    then have "j < n" using Cons.prems(3) by blast
    then show ?thesis using Cons.IH [of "add_edge i j d"] add_edge_spec(1,2) [OF Cons.prems(1), of i j] Cons.prems(2,3) Some by auto
  qed
qed simp

lemma declared_edges_spec:
  "dag_ok n d \<Longrightarrow> i + length rs \<le> n \<Longrightarrow> (\<And>p j. idx p = Some j \<Longrightarrow> j < n) \<Longrightarrow>
     dag_ok n (declared_edges idx rs i d)
     \<and> edges (declared_edges idx rs i d) = edges d \<union> (\<Union>k < length rs. declares idx (i + k) (rs ! k))"
proof (induction rs arbitrary: i d)
  case (Cons r rs)
  define d1 where "d1 = (if \<not> reg_alive r then d else add_before_edges idx i (run_before r) (add_after_edges idx i (run_after r) d))"
  have i: "i < n" using Cons.prems(2) by simp
  have d1: "dag_ok n d1 \<and> edges d1 = edges d \<union> declares idx i r"
    using add_after_spec [where ps = "run_after r", OF Cons.prems(1) i Cons.prems(3)]
      add_before_spec [where d = "add_after_edges idx i (run_after r) d" and ps = "run_before r", OF _ i Cons.prems(3)] Cons.prems(1)
    by (auto simp: d1_def declares_def)
  have "(\<Union>k < length (r # rs). declares idx (i + k) ((r # rs) ! k)) = declares idx i r \<union> (\<Union>k < length rs. declares idx (Suc i + k) (rs ! k))"
    by (simp add: lessThan_Suc_eq_insert_0 image_image)
  then show ?case using Cons.IH [of d1 "Suc i"] d1 Cons.prems(2,3) by (auto simp: d1_def [symmetric])
qed simp

lemma declared_graph:
  "dag_ok (length reg) (declared_edges (type_index reg 0) reg 0 (dag_resize (length reg)))"
  "edges (declared_edges (type_index reg 0) reg 0 (dag_resize (length reg))) = declared_order reg"
  using declared_edges_spec [OF dag_ok_resize(1), of 0 reg "length reg" "type_index reg 0"] type_index_at
  by (auto simp: dag_ok_resize(2) declared_order_def)

lemma declared_alive: "alive_edges reg (declared_order reg)"
  unfolding alive_edges_def declared_order_def declares_def using type_index_at by (fastforce split: if_splits)

section \<open>Conflicts\<close>

lemma conflict_pairs_iff:
  "p \<in> set (conflict_pairs reg) \<longleftrightarrow> fst p < snd p \<and> snd p < length reg \<and> real_conflict (reg ! fst p) (reg ! snd p)"
  by (cases p) (force simp: conflict_pairs_def)

definition linked_pair :: "DAG \<Rightarrow> nat \<times> nat \<Rightarrow> bool" where
  "linked_pair d p \<longleftrightarrow> (fst p, snd p) \<in> (edges d)\<^sup>* \<or> (snd p, fst p) \<in> (edges d)\<^sup>*"

lemma acyclic_insert_fresh: "acyclic E \<Longrightarrow> (v, u) \<notin> E\<^sup>* \<Longrightarrow> acyclic (insert (u, v) E)"
  by (simp add: acyclic_insert)

definition good_graph :: "SystemRegistration list \<Rightarrow> DAG \<Rightarrow> bool" where
  "good_graph reg d \<longleftrightarrow> dag_ok (length reg) d \<and> acyclic (edges d) \<and> depth_of (length reg) (edges d) (depth d)
     \<and> alive_edges reg (edges d)"

text \<open>An edge between unconnected nodes never closes a cycle: the second attempt is never needed.\<close>

lemma resolve_conflict_spec:
  assumes g: "good_graph reg d" and p: "p \<in> set (conflict_pairs reg)"
  shows "\<exists>d'. resolve_conflict reg p d = Some d' \<and> good_graph reg d' \<and> linked_pair d' p \<and> edges d \<subseteq> edges d'
    \<and> edges d' = (if linked_pair d p then edges d else insert (orient reg d p) (edges d))"
proof -
  let ?n = "length reg"
  have b: "fst p < ?n" "snd p < ?n" "fst p \<noteq> snd p" "reg_alive (reg ! fst p)" "reg_alive (reg ! snd p)"
    using p by (auto simp: conflict_pairs_iff real_conflict_def)
  note G = g [unfolded good_graph_def]
  have pe: "path_exists d (fst p) (snd p) \<or> path_exists d (snd p) (fst p) \<longleftrightarrow> linked_pair d p"
    using path_exists_iff [of ?n d] G b by (simp add: linked_pair_def)
  show ?thesis
  proof (cases "linked_pair d p")
    case True
    then show ?thesis using g pe by (simp add: resolve_conflict_def)
  next
    case False
    obtain f s where fs: "orient reg d p = (f, s)" by fastforce
    have cases: "(f, s) = (fst p, snd p) \<or> (f, s) = (snd p, fst p)"
      using fs by (auto simp: orient_def Let_def split: if_splits)
    then have fsb: "f < ?n" "s < ?n" "reg_alive (reg ! f)" "reg_alive (reg ! s)" using b by auto
    have no: "(s, f) \<notin> (edges d)\<^sup>*" using False cases by (auto simp: linked_pair_def)
    note a = add_edge_spec [OF conjunct1 [OF G] fsb(1,2)]
    have ac: "acyclic (edges (add_edge f s d))" unfolding a(1) by (rule acyclic_insert_fresh) (use G no in auto)
    obtain dep where r: "recompute_depths (add_edge f s d) = (add_edge f s d\<lparr>depth := dep\<rparr>, True)"
      "depth_of ?n (edges (add_edge f s d)) dep"
      using recompute_spec [OF a(2)] ac by auto
    define d' where "d' = add_edge f s d\<lparr>depth := dep\<rparr>"
    have "resolve_conflict reg p d = Some d'" using False pe fs r(1) by (auto simp: resolve_conflict_def d'_def)
    moreover have "good_graph reg d'"
      using a(2) ac r(2) G fsb by (simp add: good_graph_def d'_def) (simp add: a(1) alive_edges_def)
    moreover have "edges d' = insert (f, s) (edges d)" by (simp add: d'_def a(1))
    moreover have "linked_pair d' p" using cases \<open>edges d' = insert (f, s) (edges d)\<close> by (auto simp: linked_pair_def)
    ultimately show ?thesis using False fs by auto
  qed
qed

lemma linked_mono: "edges d \<subseteq> edges d' \<Longrightarrow> linked_pair d p \<Longrightarrow> linked_pair d' p"
  unfolding linked_pair_def using rtrancl_mono by blast

lemma resolve_conflicts_spec:
  "good_graph reg d \<Longrightarrow> set ps \<subseteq> set (conflict_pairs reg) \<Longrightarrow>
     \<exists>d'. resolve_conflicts reg ps d = Some d' \<and> good_graph reg d' \<and> edges d \<subseteq> edges d' \<and> (\<forall>p \<in> set ps. linked_pair d' p)"
proof (induction ps arbitrary: d)
  case (Cons p ps)
  then obtain d1 where d1: "resolve_conflict reg p d = Some d1" "good_graph reg d1" "linked_pair d1 p" "edges d \<subseteq> edges d1"
    using resolve_conflict_spec [of reg d p] by auto
  obtain d' where d': "resolve_conflicts reg ps d1 = Some d'" "good_graph reg d'" "edges d1 \<subseteq> edges d'" "\<forall>p \<in> set ps. linked_pair d' p"
    using Cons.IH [OF d1(2)] Cons.prems(2) by auto
  then have "linked_pair d' p" using linked_mono d1(3) by blast
  then show ?case using d1 d' by auto
qed auto

section \<open>Stages\<close>

text \<open>Stages of ascending depth, each of one depth.\<close>

definition one_level :: "nat list \<Rightarrow> nat list \<Rightarrow> bool" where
  "one_level dep st \<longleftrightarrow> st \<noteq> [] \<and> (\<forall>i \<in> set st. dep ! i = dep ! hd st)"

definition levels :: "nat list \<Rightarrow> nat list list \<Rightarrow> bool" where
  "levels dep sts \<longleftrightarrow> (\<forall>st \<in> set sts. one_level dep st) \<and> sorted_wrt (<) (map (\<lambda>st. dep ! hd st) sts)"

lemma levels_nil [simp]: "levels dep []"
  by (simp add: levels_def)

lemma levels_snoc:
  "levels dep (sts @ [st]) \<longleftrightarrow> levels dep sts \<and> one_level dep st \<and> (\<forall>x \<in> set sts. dep ! hd x < dep ! hd st)"
  by (auto simp: levels_def sorted_wrt_append)

lemma levels_same: "levels dep sts \<Longrightarrow> st \<in> set sts \<Longrightarrow> i \<in> set st \<Longrightarrow> j \<in> set st \<Longrightarrow> dep ! i = dep ! j"
  unfolding levels_def one_level_def by metis

lemma stage_layout_spec:
  "sorted (map ((!) dep) (concat sts @ is)) \<Longrightarrow> levels dep sts \<Longrightarrow>
     concat (stage_layout dep is sts) = concat sts @ is \<and> levels dep (stage_layout dep is sts)"
proof (induction "is" arbitrary: sts)
  case (Cons i "is")
  show ?case
  proof (cases "sts = [] \<or> dep ! hd (last sts) \<noteq> dep ! i")
    case True
    have below: "dep ! hd st < dep ! i" if st: "st \<in> set sts" for st
    proof -
      obtain a b where sp: "sts = a @ [b]" using st by (cases sts rule: rev_cases) auto
      have b: "b \<noteq> []" "\<forall>x \<in> set a. dep ! hd x < dep ! hd b"
        using Cons.prems(2) unfolding sp levels_snoc one_level_def by blast+
      then have "dep ! hd b \<le> dep ! i" using Cons.prems(1) sp by (simp add: sorted_append)
      then have "dep ! hd b < dep ! i" using True sp by simp
      then show ?thesis using st sp b(2) by (auto intro: less_trans)
    qed
    have "levels dep (sts @ [[i]])" unfolding levels_snoc one_level_def using Cons.prems(2) below by simp
    moreover have "sorted (map ((!) dep) (concat (sts @ [[i]]) @ is))" using Cons.prems(1) by simp
    ultimately show ?thesis using Cons.IH [of "sts @ [[i]]"] True by simp
  next
    case False
    then obtain a b where sp: "sts = a @ [b]" by (cases sts rule: rev_cases) auto
    have L: "levels dep a" "b \<noteq> []" "\<forall>x \<in> set b. dep ! x = dep ! hd b" "\<forall>x \<in> set a. dep ! hd x < dep ! hd b"
      using Cons.prems(2) unfolding sp levels_snoc one_level_def by blast+
    have di: "dep ! i = dep ! hd b" using False sp by simp
    have hd: "hd (b @ [i]) = hd b" using L(2) by simp
    have "\<forall>x \<in> set (b @ [i]). dep ! x = dep ! hd b" using L(3) di by (metis UnE empty_iff empty_set insertE list.simps(15) set_append)
    then have "levels dep (a @ [b @ [i]])" unfolding levels_snoc one_level_def hd using L by blast
    moreover have "sorted (map ((!) dep) (concat (a @ [b @ [i]]) @ is))" using Cons.prems(1) sp by simp
    ultimately show ?thesis using Cons.IH [of "a @ [b @ [i]]"] False sp by simp
  qed
qed simp

text \<open>Nodes of different stages are ordered by depth.\<close>

lemma stage_depth_less:
  assumes "levels dep sts" "s < length sts" "t < length sts" "i \<in> set (sts ! s)" "j \<in> set (sts ! t)"
  shows "dep ! i < dep ! j \<longleftrightarrow> s < t"
proof -
  have in_level: "dep ! i = dep ! hd (sts ! s)" "dep ! j = dep ! hd (sts ! t)"
    using assms unfolding levels_def one_level_def by (metis nth_mem)+
  have lt: "a < b \<Longrightarrow> b < length sts \<Longrightarrow> dep ! hd (sts ! a) < dep ! hd (sts ! b)" for a b
    using assms(1) by (simp add: levels_def sorted_wrt_iff_nth_less)
  consider "s < t" | "s = t" | "t < s" by linarith
  then show ?thesis
  proof cases
    case 1
    then show ?thesis unfolding in_level using lt [OF 1 assms(3)] by simp
  next
    case 2
    then show ?thesis unfolding in_level by simp
  next
    case 3
    then show ?thesis unfolding in_level using lt [OF 3 assms(2)] by simp
  qed
qed

text \<open>Everything the stages promise, in terms of the final graph.\<close>

lemma rebuild_spec:
  assumes "acyclic (declared_order reg)"
  obtains d where "good_graph reg d" "declared_order reg \<subseteq> edges d" "\<forall>p \<in> set (conflict_pairs reg). linked_pair d p"
    "built (rebuild reg)" "concat (stages (rebuild reg)) = emit_order reg d"
    "stages (rebuild reg) = stage_layout (depth d) (emit_order reg d) []"
    "levels (depth d) (stages (rebuild reg))"
    "schedule_hash (rebuild reg) = hash_stages reg (stages (rebuild reg)) 0 0xcbf29ce484222325"
proof -
  define d0 where "d0 = declared_edges (type_index reg 0) reg 0 (dag_resize (length reg))"
  note g = declared_graph [of reg, folded d0_def]
  obtain dep where r: "recompute_depths d0 = (d0\<lparr>depth := dep\<rparr>, True)" "depth_of (length reg) (edges d0) dep"
    using recompute_spec [OF g(1)] assms g(2) by auto
  have "good_graph reg (d0\<lparr>depth := dep\<rparr>)" using g r(2) assms declared_alive by (simp add: good_graph_def)
  then obtain d where d: "resolve_conflicts reg (sort_key (pair_key reg) (conflict_pairs reg)) (d0\<lparr>depth := dep\<rparr>) = Some d"
    "good_graph reg d" "edges (d0\<lparr>depth := dep\<rparr>) \<subseteq> edges d" "\<forall>p \<in> set (sort_key (pair_key reg) (conflict_pairs reg)). linked_pair d p"
    using resolve_conflicts_spec [of reg "d0\<lparr>depth := dep\<rparr>" "sort_key (pair_key reg) (conflict_pairs reg)"] by auto
  have reb: "rebuild reg = \<lparr>built = True, stages = stage_layout (depth d) (emit_order reg d) [],
      schedule_hash = hash_stages reg (stage_layout (depth d) (emit_order reg d) []) 0 0xcbf29ce484222325\<rparr>"
    using r(1) d(1) by (simp add: rebuild_def d0_def [symmetric] Let_def)
  note em = emit_order_spec [of reg d] 
  have "sorted (map (emit_key reg (depth d)) (emit_order reg d))" using em d(2) by (simp add: good_graph_def)
  then have "sorted (map ((!) (depth d)) (emit_order reg d))"
    unfolding sorted_map by (rule sorted_wrt_mono_rel [rotated]) (auto simp: emit_key_def less_eq_prod_def)
  then have st: "concat (stage_layout (depth d) (emit_order reg d) []) = emit_order reg d"
      "levels (depth d) (stage_layout (depth d) (emit_order reg d) [])"
    using stage_layout_spec [of "depth d" "[]" "emit_order reg d"] by simp_all
  show thesis by (rule that [of d]) (use d st g in \<open>simp_all add: reb\<close>)
qed

lemma rebuild_fails: "\<not> acyclic (declared_order reg) \<Longrightarrow> rebuild reg = cleared_schedule"
  using recompute_spec [OF declared_graph(1), of reg] by (auto simp: rebuild_def declared_graph(2))

lemma built_acyclic: "built (rebuild reg) \<Longrightarrow> acyclic (declared_order reg)"
  by (metis rebuild_fails cleared_schedule_def SystemScheduler.select_convs(1))

text \<open>C12: a schedule is built exactly when the declared order has no cycle; a conflict between systems can
  always be oriented, so the fatal branch for conflicts is never taken.\<close>

theorem rebuild_built_iff:
  "built (rebuild reg) \<longleftrightarrow> acyclic (declared_order reg)"
  using built_acyclic rebuild_spec by metis

lemma scheduled_alive:
  assumes "built (rebuild reg)"
  shows "i \<in> set st \<Longrightarrow> st \<in> set (stages (rebuild reg)) \<Longrightarrow> i < length reg \<and> reg_alive (reg ! i)"
proof -
  assume i: "i \<in> set st" "st \<in> set (stages (rebuild reg))"
  obtain d where d: "good_graph reg d" "concat (stages (rebuild reg)) = emit_order reg d"
    by (rule rebuild_spec [OF built_acyclic [OF assms]])
  have "i \<in> set (emit_order reg d)" using i d(2) by (metis UN_I set_concat)
  then show ?thesis using emit_order_spec(2) [of reg d] d(1) by (simp add: good_graph_def)
qed

lemma real_conflict_sym: "real_conflict a b \<longleftrightarrow> real_conflict b a"
  unfolding real_conflict_def using access_overlaps_sym provably_disjoint_sym by blast

text \<open>C13: every alive system is scheduled in exactly one stage, exactly once, and no dead one is.\<close>

theorem rebuild_complete:
  assumes "built (rebuild reg)"
  shows "distinct (concat (stages (rebuild reg)))
    \<and> set (concat (stages (rebuild reg))) = {i. i < length reg \<and> reg_alive (reg ! i)} \<and> [] \<notin> set (stages (rebuild reg))"
proof -
  obtain d where d: "good_graph reg d" "concat (stages (rebuild reg)) = emit_order reg d"
    "levels (depth d) (stages (rebuild reg))"
    by (rule rebuild_spec [OF built_acyclic [OF assms]])
  then show ?thesis using emit_order_spec(1,2) [of reg d] by (auto simp: good_graph_def levels_def one_level_def)
qed

text \<open>C14: a system scheduled before another by declaration, with \<open>run_after\<close> or \<open>run_before\<close>, is in an
  earlier stage.\<close>

theorem rebuild_respects_declared:
  assumes "built (rebuild reg)" "(i, j) \<in> declared_order reg"
    "s < length (stages (rebuild reg))" "t < length (stages (rebuild reg))"
    "i \<in> set (stages (rebuild reg) ! s)" "j \<in> set (stages (rebuild reg) ! t)"
  shows "s < t"
proof -
  obtain d where d: "good_graph reg d" "declared_order reg \<subseteq> edges d"
    "levels (depth d) (stages (rebuild reg))"
    by (rule rebuild_spec [OF built_acyclic [OF assms(1)]])
  have "depth d ! i < depth d ! j" using d(1,2) assms(2) by (auto simp: good_graph_def depth_of_def)
  then show ?thesis using stage_depth_less [OF d(3) assms(3-6)] by simp
qed

lemma stage_conflict_free:
  assumes "built (rebuild reg)" "st \<in> set (stages (rebuild reg))" "i \<in> set st" "j \<in> set st" "i < j"
  shows "\<not> real_conflict (reg ! i) (reg ! j)"
proof
  assume r: "real_conflict (reg ! i) (reg ! j)"
  obtain d where d: "good_graph reg d" "\<forall>p \<in> set (conflict_pairs reg). linked_pair d p"
    "levels (depth d) (stages (rebuild reg))"
    "concat (stages (rebuild reg)) = emit_order reg d"
    by (rule rebuild_spec [OF built_acyclic [OF assms(1)]])
  have "j \<in> set (emit_order reg d)" using assms(2,4) d(4) by (metis UN_I set_concat)
  then have "j < length reg" using emit_order_spec(2) [of reg d] d(1) by (simp add: good_graph_def)
  then have "(i, j) \<in> set (conflict_pairs reg)" using r assms(5) by (simp add: conflict_pairs_iff)
  then have "linked_pair d (i, j)" using d(2) by blast
  then have "depth d ! i < depth d ! j \<or> depth d ! j < depth d ! i"
    using depth_path [of "length reg" "edges d" "depth d"] d(1) assms(5) by (auto simp: linked_pair_def good_graph_def)
  moreover have "depth d ! i = depth d ! j" by (rule levels_same [OF d(3) assms(2-4)])
  ultimately show False by simp
qed

text \<open>Two different systems of one stage never conflict: their declared accesses do not overlap with a
  write, or they provably never iterate the same entity.\<close>

theorem rebuild_conflict_free:
  assumes "built (rebuild reg)" "st \<in> set (stages (rebuild reg))" "i \<in> set st" "j \<in> set st" "i < j"
  shows "\<not> real_conflict (reg ! i) (reg ! j)"
  by (rule stage_conflict_free [OF assms])

section \<open>Running a stage\<close>

text \<open>What a system may touch: a component it declares, on the entities its iteration query selects where
  the component is one it iterates, on any entity where it is an extra one.  \<open>comps\<close> are the
  components of each entity.\<close>

definition touches :: "SystemRegistration \<Rightarrow> (EntityID \<Rightarrow> component_type_id_t set) \<Rightarrow> EntityID \<Rightarrow> component_type_id_t \<Rightarrow> AccessMode \<Rightarrow> bool" where
  "touches r comps e c m \<longleftrightarrow> entry c m \<in> set (reg_access r)
     \<and> (c \<in> set (tick_query_require_ids r) \<longrightarrow> c \<in> set (extra_reads r) \<union> set (extra_writes r) \<or> selects (tick_query r) (comps e))"

lemma no_conflict_no_race:
  assumes "reg_alive a" "reg_alive b" "\<not> real_conflict a b" "queries_sorted a" "queries_sorted b"
    "touches a comps e c Write" "touches b comps e c m"
  shows False
proof -
  have cl: "clash (entry c Write) (entry c m)" by (simp add: clash_def)
  then have ov: "access_overlaps (reg_access a) (reg_access b)"
    using assms(6,7) unfolding access_overlaps_iff touches_def by blast
  have cc: "c \<in> set (access_conflict_components (reg_access a) (reg_access b))"
    using cl assms(6,7) unfolding conflict_components_iff touches_def by (metis ComponentAccess.select_convs(1))
  have "provably_disjoint a b" using assms(1-3) ov by (simp add: real_conflict_def)
  then have d: "set (tick_query_require_ids a) \<inter> set (tick_query_exclude_ids b) \<noteq> {}
      \<or> set (tick_query_require_ids b) \<inter> set (tick_query_exclude_ids a) \<noteq> {}"
    "c \<in> set (tick_query_require_ids a)" "c \<in> set (tick_query_require_ids b)"
    "c \<notin> set (extra_reads a) \<union> set (extra_writes a) \<union> set (extra_reads b) \<union> set (extra_writes b)"
    using cc disjoint_iff [OF assms(4,5)] by auto
  then have "selects (tick_query a) (comps e)" "selects (tick_query b) (comps e)"
    using assms(6,7) by (auto simp: touches_def)
  then show False using d(1) by (auto simp: selects_def tick_query_def)
qed

text \<open>C11: systems of one stage can run in parallel: on no component of any entity does one of them write
  while another reads or writes it, whatever components the entities have.\<close>

theorem stage_race_free:
  assumes "built (rebuild reg)" "st \<in> set (stages (rebuild reg))" "i \<in> set st" "j \<in> set st" "i \<noteq> j"
    "queries_sorted (reg ! i)" "queries_sorted (reg ! j)" "touches (reg ! i) comps e c Write"
  shows "\<not> touches (reg ! j) comps e c m"
proof
  assume t: "touches (reg ! j) comps e c m"
  have al: "reg_alive (reg ! k)" if k: "k \<in> set st" for k
    using scheduled_alive [OF assms(1)] assms(2) k by blast
  have "\<not> real_conflict (reg ! i) (reg ! j)"
  proof (cases "i < j")
    case True
    then show ?thesis by (rule stage_conflict_free [OF assms(1-4)])
  next
    case False
    then have "j < i" using assms(5) by simp
    then have "\<not> real_conflict (reg ! j) (reg ! i)" by (rule stage_conflict_free [OF assms(1,2,4,3)])
    then show ?thesis using real_conflict_sym by blast
  qed
  then show False using no_conflict_no_race [OF al [OF assms(3)] al [OF assms(4)] _ assms(6-8) t] by blast
qed

section \<open>An example\<close>

lemma emit_loop_step [simp]:
  "emit_loop reg out dep indeg [] order = order"
  "emit_loop reg out dep indeg (x # xs) order =
     (case release_successors reg (out ! pq_top reg dep (x # xs)) indeg (remove1 (pq_top reg dep (x # xs)) (x # xs)) of
        (indeg', pq') \<Rightarrow> emit_loop reg out dep indeg' pq' (order @ [pq_top reg dep (x # xs)]))"
  by (subst emit_loop.simps, simp add: Let_def del: remove1.simps)+

definition demo_system :: "system_type_id_t \<Rightarrow> ComponentAccess list \<Rightarrow> system_type_id_t list \<Rightarrow> SystemDeclaration" where
  "demo_system t acc after = \<lparr>decl_type_id = t, declared_access = acc, declared_run_after = after, declared_run_before = [],
     decl_extra_reads = [], decl_extra_writes = [], decl_require_ids = map component_id acc, decl_exclude_ids = []\<rparr>"

definition demo_writer :: SystemRegistration where
  "demo_writer = registration_of (demo_system 7 [entry 1 Write] [])"

definition demo_reader :: SystemRegistration where
  "demo_reader = registration_of (demo_system 9 [entry 1 Read] [])"

definition demo_late :: SystemRegistration where
  "demo_late = registration_of (demo_system 4 [entry 1 Read, entry 2 Write] [7])"

lemmas registration_code = registration_of_def demo_system_def canonicalise_access_set_def merge_extra_writes_def Let_def

lemma demo_writer_record: "demo_writer = \<lparr>reg_type_id = 7, reg_access = [entry 1 Write], run_after = [], run_before = [],
     extra_reads = [], extra_writes = [], tick_query_require_ids = [1], tick_query_exclude_ids = [],
     reg_generation = 1, reg_alive = True\<rparr>"
  by (simp add: demo_writer_def registration_code)

lemma demo_reader_record: "demo_reader = \<lparr>reg_type_id = 9, reg_access = [entry 1 Read], run_after = [], run_before = [],
     extra_reads = [], extra_writes = [], tick_query_require_ids = [1], tick_query_exclude_ids = [],
     reg_generation = 1, reg_alive = True\<rparr>"
  by (simp add: demo_reader_def registration_code)

lemma demo_late_record: "demo_late = \<lparr>reg_type_id = 4, reg_access = [entry 1 Read, entry 2 Write], run_after = [7], run_before = [],
     extra_reads = [], extra_writes = [], tick_query_require_ids = [1, 2], tick_query_exclude_ids = [],
     reg_generation = 1, reg_alive = True\<rparr>"
  by (simp add: demo_late_def registration_code)

lemmas demo_records = demo_writer_record demo_reader_record demo_late_record

lemma demo_conflicts:
  "real_conflict demo_reader demo_writer" "real_conflict demo_writer demo_late" "\<not> real_conflict demo_reader demo_late"
  by (simp_all add: demo_records real_conflict_def provably_disjoint_def)

lemma demo_fields:
  "reg_alive demo_writer" "reg_alive demo_reader" "reg_alive demo_late"
  "reg_type_id demo_writer = 7" "reg_type_id demo_reader = 9" "reg_type_id demo_late = 4"
  "run_after demo_writer = []" "run_after demo_reader = []" "run_after demo_late = [7]"
  "run_before demo_writer = []" "run_before demo_reader = []" "run_before demo_late = []"
  by (simp_all add: demo_records)

abbreviation demo_registry :: "SystemRegistration list" where
  "demo_registry \<equiv> [demo_reader, demo_writer, demo_late]"

lemma demo_pairs: "sort_key (pair_key demo_registry) (conflict_pairs demo_registry) = [(1, 2), (0, 1)]"
  by (simp add: conflict_pairs_def demo_conflicts upt_rec pair_key_def demo_fields)

lemma replicate_three: "replicate 3 x = [x, x, x]"
  by (simp add: numeral_3_eq_3)

lemma demo_declared:
  "declared_edges (type_index demo_registry 0) demo_registry 0 (dag_resize 3) =
     \<lparr>dag_n = 3, out_edges = [[], [2], []], in_edges = [[], [], [Suc 0]], depth = [0, 0, 0]\<rparr>"
  by (simp add: demo_fields dag_resize_def add_edge_def replicate_three)

lemma demo_depths:
  "recompute_depths \<lparr>dag_n = 3, out_edges = [[], [2], []], in_edges = [[], [], [Suc 0]], depth = [0, 0, 0]\<rparr> =
     (\<lparr>dag_n = 3, out_edges = [[], [2], []], in_edges = [[], [], [Suc 0]], depth = [0, 0, Suc 0]\<rparr>, True)"
  "recompute_depths \<lparr>dag_n = 3, out_edges = [[], [2, 0], []], in_edges = [[Suc 0], [], [Suc 0]], depth = [0, 0, Suc 0]\<rparr> =
     (\<lparr>dag_n = 3, out_edges = [[], [2, 0], []], in_edges = [[Suc 0], [], [Suc 0]], depth = [Suc 0, 0, Suc 0]\<rparr>, True)"
  by (simp_all add: recompute_depths_def upt_rec replicate_three)

lemma demo_resolved:
  "resolve_conflicts demo_registry [(1, 2), (0, 1)]
     \<lparr>dag_n = 3, out_edges = [[], [2], []], in_edges = [[], [], [Suc 0]], depth = [0, 0, Suc 0]\<rparr> =
   Some \<lparr>dag_n = 3, out_edges = [[], [2, 0], []], in_edges = [[Suc 0], [], [Suc 0]], depth = [Suc 0, 0, Suc 0]\<rparr>"
  by (simp add: resolve_conflict_def path_exists_def orient_def demo_fields add_edge_def demo_depths replicate_three)

lemma demo_order:
  "emit_order demo_registry \<lparr>dag_n = 3, out_edges = [[], [2, 0], []], in_edges = [[Suc 0], [], [Suc 0]], depth = [Suc 0, 0, Suc 0]\<rparr> = [1, 2, 0]"
  by (simp add: emit_order_def upt_rec demo_fields pq_top_def emit_key_def Let_def)

lemma demo_stages:
  "built (rebuild demo_registry)" "stages (rebuild demo_registry) = [[1], [2, 0]]"
proof -
  have n: "length demo_registry = 3" by simp
  show "built (rebuild demo_registry)" "stages (rebuild demo_registry) = [[1], [2, 0]]"
    unfolding rebuild_def n demo_declared demo_depths demo_pairs prod.case
    by (simp_all add: demo_resolved [simplified] demo_order [simplified])
qed

lemma demo_declares: "(1, 2) \<in> declared_order demo_registry"
proof -
  have "(1, 2) \<in> declares (type_index demo_registry 0) 2 demo_late"
    by (simp add: declares_def demo_fields)
  then show ?thesis unfolding declared_order_def by (intro UN_I [of 2]) simp_all
qed

theorem rebuild_complete_witness:
  "distinct (concat [[1], [2, 0 :: nat]]) \<and> {1, 2, 0} = {i. i < 3 \<and> reg_alive (demo_registry ! i)}"
  using rebuild_complete [OF demo_stages(1)] by (simp add: demo_stages(2) eval_nat_numeral)

theorem rebuild_respects_declared_witness: "(0 :: nat) < 1 \<and> (1, 2) \<in> declared_order demo_registry"
  using rebuild_respects_declared [OF demo_stages(1) demo_declares, of 0 1] demo_declares by (simp add: demo_stages(2))

theorem rebuild_conflict_free_witness: "\<not> real_conflict (demo_registry ! 0) (demo_registry ! 2)"
  using rebuild_conflict_free [OF demo_stages(1), of "[2, 0]" 0 2] by (simp add: demo_stages(2))

text \<open>Two readers of one stage, one of them a writer of another component.\<close>

theorem stage_race_free_witness:
  "touches demo_late (\<lambda>_. {1, 2}) INVALID_ENTITY_ID 2 Write \<and> \<not> touches demo_reader (\<lambda>_. {1, 2}) INVALID_ENTITY_ID 2 Read"
proof -
  have t: "touches demo_late (\<lambda>_. {1, 2}) INVALID_ENTITY_ID 2 Write"
    by (simp add: demo_records touches_def selects_def tick_query_def)
  have q: "queries_sorted demo_reader" "queries_sorted demo_late"
    by (simp_all add: demo_records queries_sorted_def key_sorted_def tick_query_def)
  show ?thesis
    using stage_race_free [OF demo_stages(1), of "[2, 0]" 2 0 "\<lambda>_. {1, 2}" INVALID_ENTITY_ID 2 Read] t q by (simp add: demo_stages(2))
qed

end
