(* ===== verification/Scheduler_Independence.thy ===== *)
theory Scheduler_Independence
  imports Scheduler_Properties
begin

text \<open>
  The schedule is a function of the set of alive systems: renumbering the registrations renumbers the
  graph, the depths and the emission, and leaves the types of every stage and the hash unchanged.
\<close>

section \<open>Renumbering\<close>

definition alive_indices :: "SystemRegistration list \<Rightarrow> nat set" where
  "alive_indices reg = {i. i < length reg \<and> reg_alive (reg ! i)}"

abbreviation type_at :: "SystemRegistration list \<Rightarrow> nat \<Rightarrow> system_type_id_t" where
  "type_at reg i \<equiv> reg_type_id (reg ! i)"

text \<open>\<open>pi\<close> renumbers the alive registrations of \<open>reg1\<close> to those of \<open>reg2\<close>.\<close>

definition renumbers :: "(nat \<Rightarrow> nat) \<Rightarrow> SystemRegistration list \<Rightarrow> SystemRegistration list \<Rightarrow> bool" where
  "renumbers pi reg1 reg2 \<longleftrightarrow> bij_betw pi (alive_indices reg1) (alive_indices reg2)
     \<and> (\<forall>i \<in> alive_indices reg1. reg2 ! pi i = reg1 ! i)
     \<and> inj_on (type_at reg1) (alive_indices reg1)"

lemma renumbers_onto: "renumbers pi reg1 reg2 \<Longrightarrow> x \<in> alive_indices reg2 \<Longrightarrow> \<exists>i \<in> alive_indices reg1. x = pi i"
  unfolding renumbers_def bij_betw_def by blast

definition moved_edges :: "(nat \<Rightarrow> nat) \<Rightarrow> (nat \<times> nat) set \<Rightarrow> (nat \<times> nat) set" where
  "moved_edges pi E = map_prod pi pi ` E"

lemma moved_iff:
  assumes "inj_on pi A" "E \<subseteq> A \<times> A" "i \<in> A" "j \<in> A"
  shows "(pi i, pi j) \<in> moved_edges pi E \<longleftrightarrow> (i, j) \<in> E"
proof
  assume "(pi i, pi j) \<in> moved_edges pi E"
  then obtain u v where uv: "(u, v) \<in> E" "pi i = pi u" "pi j = pi v" by (auto simp: moved_edges_def)
  then have "u = i" "v = j" using assms by (auto dest: inj_onD)
  then show "(i, j) \<in> E" using uv by simp
qed (auto simp: moved_edges_def)

lemma moved_from: "(x, y) \<in> moved_edges pi E \<Longrightarrow> \<exists>i j. (i, j) \<in> E \<and> x = pi i \<and> y = pi j"
  by (auto simp: moved_edges_def)

lemma moved_path:
  assumes "inj_on pi A" "E \<subseteq> A \<times> A" "i \<in> A" "j \<in> A"
  shows "(pi i, pi j) \<in> (moved_edges pi E)\<^sup>* \<longleftrightarrow> (i, j) \<in> E\<^sup>*"
proof
  have "\<exists>k \<in> A. y = pi k \<and> (i, k) \<in> E\<^sup>*" if "(pi i, y) \<in> (moved_edges pi E)\<^sup>*" for y
    using that
  proof (induction rule: rtrancl_induct)
    case base
    then show ?case using assms(3) by blast
  next
    case (step y z)
    then obtain k where k: "k \<in> A" "y = pi k" "(i, k) \<in> E\<^sup>*" by blast
    obtain u v where uv: "(u, v) \<in> E" "y = pi u" "z = pi v" using moved_from step(2) by blast
    then have "u = k" using k(1,2) assms(1,2) by (auto dest: inj_onD)
    then show ?case using k(3) uv assms(2) by (auto intro: rtrancl_into_rtrancl)
  qed
  then show "(i, j) \<in> E\<^sup>*" if "(pi i, pi j) \<in> (moved_edges pi E)\<^sup>*"
    using that assms(1,4) by (metis inj_onD)
  show "(pi i, pi j) \<in> (moved_edges pi E)\<^sup>*" if "(i, j) \<in> E\<^sup>*"
    using that by induction (auto simp: moved_edges_def intro: rtrancl_into_rtrancl)
qed

lemma moved_acyclic:
  assumes "inj_on pi A" "E \<subseteq> A \<times> A"
  shows "acyclic (moved_edges pi E) \<longleftrightarrow> acyclic E"
proof -
  have c: "acyclic X \<longleftrightarrow> \<not> (\<exists>x y. (x, y) \<in> X \<and> (y, x) \<in> X\<^sup>*)" for X :: "(nat \<times> nat) set"
    unfolding acyclic_def by (metis tranclD r_into_trancl' trancl_rtrancl_trancl rtrancl_into_trancl2)
  show ?thesis unfolding c
  proof (intro arg_cong [of _ _ Not] iffI; elim exE conjE)
    fix x y
    assume xy: "(x, y) \<in> moved_edges pi E" "(y, x) \<in> (moved_edges pi E)\<^sup>*"
    obtain i j where "(i, j) \<in> E" "x = pi i" "y = pi j" using moved_from xy(1) by blast
    then show "\<exists>x y. (x, y) \<in> E \<and> (y, x) \<in> E\<^sup>*" using moved_path [OF assms, of j i] assms(2) xy(2) by blast
  next
    fix x y
    assume xy: "(x, y) \<in> E" "(y, x) \<in> E\<^sup>*"
    then have "(pi x, pi y) \<in> moved_edges pi E" "(pi y, pi x) \<in> (moved_edges pi E)\<^sup>*"
      using moved_path [OF assms, of y x] assms(2) by (auto simp: moved_edges_def)
    then show "\<exists>x y. (x, y) \<in> moved_edges pi E \<and> (y, x) \<in> (moved_edges pi E)\<^sup>*" by blast
  qed
qed

lemma moved_depth:
  assumes "depth_of n E a" "depth_of m (moved_edges pi E) b" "inj_on pi A" "E \<subseteq> A \<times> A"
    "A \<subseteq> {..<n}" "pi ` A \<subseteq> {..<m}" "i \<in> A"
  shows "b ! pi i = a ! i"
proof (rule antisym)
  show "b ! pi i \<le> a ! i" using assms(7)
  proof (induction "b ! pi i" arbitrary: i rule: less_induct)
    case less
    have "pi i < m" using less.prems assms(6) by auto
    then have "b ! pi i = 0 \<or> (\<exists>w. (w, pi i) \<in> moved_edges pi E \<and> b ! pi i = Suc (b ! w))"
      using assms(2) by (simp add: depth_of_def)
    then show ?case
    proof (elim disjE exE conjE)
      fix w
      assume w: "(w, pi i) \<in> moved_edges pi E" "b ! pi i = Suc (b ! w)"
      obtain u v where uv: "(u, v) \<in> E" "w = pi u" "pi i = pi v" using moved_from w(1) by blast
      then have "v = i" "u \<in> A" using assms(3,4) less.prems by (auto dest: inj_onD)
      then have "b ! pi u \<le> a ! u" using less.hyps [of u] uv(2) w(2) by simp
      moreover have "a ! u < a ! i" using assms(1) uv(1) \<open>v = i\<close> unfolding depth_of_def by blast
      ultimately show ?thesis using w(2) uv(2) by simp
    qed simp
  qed
  show "a ! i \<le> b ! pi i" using assms(7)
  proof (induction "a ! i" arbitrary: i rule: less_induct)
    case less
    have "a ! i = 0 \<or> (\<exists>u. (u, i) \<in> E \<and> a ! i = Suc (a ! u))" using assms(1,5) less.prems by (auto simp: depth_of_def)
    then show ?case
    proof (elim disjE exE conjE)
      fix u
      assume u: "(u, i) \<in> E" "a ! i = Suc (a ! u)"
      then have "a ! u \<le> b ! pi u" using less.hyps [of u] assms(4) by auto
      moreover have "b ! pi u < b ! pi i" using assms(2) u(1) unfolding depth_of_def moved_edges_def by force
      ultimately show ?thesis using u(2) by simp
    qed simp
  qed
qed

section \<open>The graphs correspond\<close>

definition same_graph :: "(nat \<Rightarrow> nat) \<Rightarrow> SystemRegistration list \<Rightarrow> SystemRegistration list \<Rightarrow> DAG \<Rightarrow> DAG \<Rightarrow> bool" where
  "same_graph pi reg1 reg2 d1 d2 \<longleftrightarrow> good_graph reg1 d1 \<and> good_graph reg2 d2 \<and> edges d2 = moved_edges pi (edges d1)"

lemma alive_edges_sub: "alive_edges reg E \<Longrightarrow> E \<subseteq> alive_indices reg \<times> alive_indices reg"
  by (auto simp: alive_edges_def alive_indices_def)

lemma same_graph_depth:
  assumes r: "renumbers pi reg1 reg2" and g: "same_graph pi reg1 reg2 d1 d2" and i: "i \<in> alive_indices reg1"
  shows "depth d2 ! pi i = depth d1 ! i"
proof (rule moved_depth)
  show "depth_of (length reg1) (edges d1) (depth d1)" "depth_of (length reg2) (moved_edges pi (edges d1)) (depth d2)"
    using g unfolding same_graph_def good_graph_def by metis+
  show "edges d1 \<subseteq> alive_indices reg1 \<times> alive_indices reg1" using g alive_edges_sub by (simp add: same_graph_def good_graph_def)
  show "pi ` alive_indices reg1 \<subseteq> {..<length reg2}" "inj_on pi (alive_indices reg1)"
    using r by (auto simp: renumbers_def bij_betw_def alive_indices_def)
qed (use i in \<open>auto simp: alive_indices_def\<close>)

lemma same_graph_linked:
  assumes r: "renumbers pi reg1 reg2" and g: "same_graph pi reg1 reg2 d1 d2" and ij: "i \<in> alive_indices reg1" "j \<in> alive_indices reg1"
  shows "linked_pair d2 (pi i, pi j) = linked_pair d1 (i, j)"
proof -
  have "inj_on pi (alive_indices reg1)" "edges d1 \<subseteq> alive_indices reg1 \<times> alive_indices reg1" "edges d2 = moved_edges pi (edges d1)"
    using r g alive_edges_sub by (auto simp: renumbers_def bij_betw_def same_graph_def good_graph_def)
  then show ?thesis using moved_path ij by (simp add: linked_pair_def)
qed

lemma linked_swap: "linked_pair d (i, j) = linked_pair d (j, i)"
  by (auto simp: linked_pair_def)

lemma orient_swap: "type_at reg i \<noteq> type_at reg j \<Longrightarrow> orient reg d (i, j) = orient reg d (j, i)"
  by (auto simp: orient_def Let_def)

lemma orient_moved:
  assumes r: "renumbers pi reg1 reg2" and g: "same_graph pi reg1 reg2 d1 d2" and ij: "i \<in> alive_indices reg1" "j \<in> alive_indices reg1"
  shows "orient reg2 d2 (pi i, pi j) = map_prod pi pi (orient reg1 d1 (i, j))"
proof -
  have e: "depth d2 ! pi i = depth d1 ! i" "depth d2 ! pi j = depth d1 ! j" "reg2 ! pi i = reg1 ! i" "reg2 ! pi j = reg1 ! j"
    using r ij same_graph_depth [OF r g] by (simp_all add: renumbers_def)
  show ?thesis unfolding orient_def Let_def fst_conv snd_conv e by (auto split: if_splits)
qed

text \<open>The corresponding pair, up to its order.\<close>

definition same_pair :: "(nat \<Rightarrow> nat) \<Rightarrow> nat \<times> nat \<Rightarrow> nat \<times> nat \<Rightarrow> bool" where
  "same_pair pi p q \<longleftrightarrow> q = (pi (fst p), pi (snd p)) \<or> q = (pi (snd p), pi (fst p))"

lemma conflict_alive: "p \<in> set (conflict_pairs reg) \<Longrightarrow> fst p \<in> alive_indices reg \<and> snd p \<in> alive_indices reg \<and> fst p \<noteq> snd p"
  by (auto simp: conflict_pairs_iff real_conflict_def alive_indices_def)

lemma resolve_moved:
  assumes r: "renumbers pi reg1 reg2" and g: "same_graph pi reg1 reg2 d1 d2"
    and p: "p \<in> set (conflict_pairs reg1)" and q: "q \<in> set (conflict_pairs reg2)" and pq: "same_pair pi p q"
  shows "\<exists>d1' d2'. resolve_conflict reg1 p d1 = Some d1' \<and> resolve_conflict reg2 q d2 = Some d2' \<and> same_graph pi reg1 reg2 d1' d2'"
proof -
  have a: "fst p \<in> alive_indices reg1" "snd p \<in> alive_indices reg1" "fst p \<noteq> snd p" using conflict_alive [OF p] by auto
  have ne: "type_at reg2 (pi (fst p)) \<noteq> type_at reg2 (pi (snd p))"
    using r a by (auto simp: renumbers_def dest: inj_onD)
  have l: "linked_pair d2 q = linked_pair d1 p"
    using pq same_graph_linked [OF r g a(1,2)] linked_swap by (auto simp: same_pair_def)
  have o: "orient reg2 d2 q = map_prod pi pi (orient reg1 d1 p)"
    using pq orient_moved [OF r g a(1,2)] orient_swap [OF ne] by (auto simp: same_pair_def)
  obtain d1' where d1: "resolve_conflict reg1 p d1 = Some d1'" "good_graph reg1 d1'"
    "edges d1' = (if linked_pair d1 p then edges d1 else insert (orient reg1 d1 p) (edges d1))"
    using resolve_conflict_spec [of reg1 d1 p] p g unfolding same_graph_def by blast
  obtain d2' where d2: "resolve_conflict reg2 q d2 = Some d2'" "good_graph reg2 d2'"
    "edges d2' = (if linked_pair d2 q then edges d2 else insert (orient reg2 d2 q) (edges d2))"
    using resolve_conflict_spec [of reg2 d2 q] q g unfolding same_graph_def by blast
  have "edges d2' = moved_edges pi (edges d1')" using g d1(3) d2(3) l o by (simp add: same_graph_def moved_edges_def)
  then show ?thesis using d1 d2 by (auto simp: same_graph_def)
qed

lemma resolve_all_moved:
  assumes "renumbers pi reg1 reg2"
  shows "list_all2 (same_pair pi) ps qs \<Longrightarrow> set ps \<subseteq> set (conflict_pairs reg1) \<Longrightarrow> set qs \<subseteq> set (conflict_pairs reg2) \<Longrightarrow>
     same_graph pi reg1 reg2 d1 d2 \<Longrightarrow>
     \<exists>d1' d2'. resolve_conflicts reg1 ps d1 = Some d1' \<and> resolve_conflicts reg2 qs d2 = Some d2' \<and> same_graph pi reg1 reg2 d1' d2'"
proof (induction arbitrary: d1 d2 rule: list_all2_induct)
  case (Cons p ps q qs)
  obtain e1 e2 where e: "resolve_conflict reg1 p d1 = Some e1" "resolve_conflict reg2 q d2 = Some e2" "same_graph pi reg1 reg2 e1 e2"
    using resolve_moved [OF assms Cons.prems(3), of p q] Cons.hyps Cons.prems(1,2) by auto
  then show ?case using Cons.IH [OF _ _ e(3)] Cons.prems by auto
qed auto

section \<open>Declarations and conflicts correspond\<close>

text \<open>With distinct types a declaration names the registration of that type.\<close>

definition ordered_by :: "SystemRegistration \<Rightarrow> SystemRegistration \<Rightarrow> bool" where
  "ordered_by a b \<longleftrightarrow> reg_type_id a \<in> set (run_after b) \<or> reg_type_id b \<in> set (run_before a)"

lemma type_index_alive:
  assumes "inj_on (type_at reg) (alive_indices reg)"
  shows "type_index reg 0 t = Some k \<longleftrightarrow> k \<in> alive_indices reg \<and> type_at reg k = t"
proof
  assume "type_index reg 0 t = Some k"
  then show "k \<in> alive_indices reg \<and> type_at reg k = t" using type_index_at by (simp add: alive_indices_def)
next
  assume k: "k \<in> alive_indices reg \<and> type_at reg k = t"
  have some: "r \<in> set rs \<Longrightarrow> reg_alive r \<Longrightarrow> reg_type_id r = t \<Longrightarrow> type_index rs i t \<noteq> None" for rs r i
    by (induction rs arbitrary: i) auto
  have "reg ! k \<in> set reg" "reg_alive (reg ! k)" using k by (auto simp: alive_indices_def)
  then obtain j where j: "type_index reg 0 t = Some j" using some k by blast
  then have "j = k" using k type_index_at [OF j] inj_onD [OF assms, of j k] by (auto simp: alive_indices_def)
  then show "type_index reg 0 t = Some k" using j by simp
qed

lemma declared_order_alive:
  assumes "inj_on (type_at reg) (alive_indices reg)"
  shows "declared_order reg = {(i, j). i \<in> alive_indices reg \<and> j \<in> alive_indices reg \<and> ordered_by (reg ! i) (reg ! j)}"
  unfolding declared_order_def declares_def type_index_alive [OF assms] ordered_by_def
  by (auto simp: alive_indices_def split: if_splits)

lemma declared_moved:
  assumes "renumbers pi reg1 reg2"
  shows "declared_order reg2 = moved_edges pi (declared_order reg1)"
proof -
  have b: "bij_betw pi (alive_indices reg1) (alive_indices reg2)" and same: "\<And>i. i \<in> alive_indices reg1 \<Longrightarrow> reg2 ! pi i = reg1 ! i"
    and inj1: "inj_on (type_at reg1) (alive_indices reg1)" using assms by (auto simp: renumbers_def)
  have inj2: "inj_on (type_at reg2) (alive_indices reg2)"
  proof (rule inj_onI)
    fix x y
    assume xy: "x \<in> alive_indices reg2" "y \<in> alive_indices reg2" "type_at reg2 x = type_at reg2 y"
    obtain i j where "i \<in> alive_indices reg1" "x = pi i" "j \<in> alive_indices reg1" "y = pi j"
      using renumbers_onto [OF assms xy(1)] renumbers_onto [OF assms xy(2)] by blast
    then show "x = y" using xy(3) same inj1 by (auto dest: inj_onD)
  qed
  show ?thesis
  proof (intro subset_antisym subsetI)
    fix p
    assume "p \<in> declared_order reg2"
    then obtain x y where p: "p = (x, y)" "x \<in> alive_indices reg2" "y \<in> alive_indices reg2" "ordered_by (reg2 ! x) (reg2 ! y)"
      unfolding declared_order_alive [OF inj2] by blast
    obtain i j where ij: "i \<in> alive_indices reg1" "x = pi i" "j \<in> alive_indices reg1" "y = pi j"
      using renumbers_onto [OF assms p(2)] renumbers_onto [OF assms p(3)] by blast
    then have "(i, j) \<in> declared_order reg1" unfolding declared_order_alive [OF inj1] using p(4) same by simp
    then show "p \<in> moved_edges pi (declared_order reg1)" using p(1) ij by (auto simp: moved_edges_def)
  next
    fix p
    assume "p \<in> moved_edges pi (declared_order reg1)"
    then obtain i j where ij: "p = (pi i, pi j)" "(i, j) \<in> declared_order reg1" by (auto simp: moved_edges_def)
    then have "i \<in> alive_indices reg1" "j \<in> alive_indices reg1" "ordered_by (reg1 ! i) (reg1 ! j)"
      unfolding declared_order_alive [OF inj1] by blast+
    then show "p \<in> declared_order reg2" unfolding declared_order_alive [OF inj2] ij(1) using same b by (auto simp: bij_betw_def)
  qed
qed

lemma distinct_pairs: "distinct is \<Longrightarrow> (\<And>i. distinct (f i)) \<Longrightarrow> distinct (concat (map (\<lambda>i. map (\<lambda>j. (i, j)) (f i)) is))"
  by (induction "is") (auto simp: distinct_map inj_on_def)

lemma distinct_conflicts: "distinct (conflict_pairs reg)"
  unfolding conflict_pairs_def by (rule distinct_pairs) simp_all

lemma min_max_eq: "min a b = min c d \<Longrightarrow> max a b = max c d \<Longrightarrow> (a = c \<and> b = d) \<or> (a = d \<and> b = (c :: 'a :: linorder))"
  by (auto simp: min_def max_def split: if_splits)

lemma pair_key_inj:
  assumes "inj_on (type_at reg) (alive_indices reg)"
  shows "inj_on (pair_key reg) (set (conflict_pairs reg))"
proof (rule inj_onI)
  fix p q
  assume p: "p \<in> set (conflict_pairs reg)" and q: "q \<in> set (conflict_pairs reg)" and k: "pair_key reg p = pair_key reg q"
  have a: "fst p \<in> alive_indices reg" "snd p \<in> alive_indices reg" "fst q \<in> alive_indices reg" "snd q \<in> alive_indices reg"
    using conflict_alive p q by auto
  have "(type_at reg (fst p) = type_at reg (fst q) \<and> type_at reg (snd p) = type_at reg (snd q))
      \<or> (type_at reg (fst p) = type_at reg (snd q) \<and> type_at reg (snd p) = type_at reg (fst q))"
    using k by (intro min_max_eq) (simp_all add: pair_key_def)
  then have "(fst p = fst q \<and> snd p = snd q) \<or> (fst p = snd q \<and> snd p = fst q)"
    using a inj_onD [OF assms] by blast
  moreover have "fst p < snd p" "fst q < snd q" using p q by (simp_all add: conflict_pairs_iff)
  ultimately show "p = q" by (auto simp: prod_eq_iff)
qed

text \<open>The pair of \<open>reg2\<close> corresponding to a pair of \<open>reg1\<close>.\<close>

definition moved_pair :: "(nat \<Rightarrow> nat) \<Rightarrow> nat \<times> nat \<Rightarrow> nat \<times> nat" where
  "moved_pair pi p = (min (pi (fst p)) (pi (snd p)), max (pi (fst p)) (pi (snd p)))"

lemma moved_pair_conflict:
  assumes r: "renumbers pi reg1 reg2" and p: "p \<in> set (conflict_pairs reg1)"
  shows "moved_pair pi p \<in> set (conflict_pairs reg2)" "same_pair pi p (moved_pair pi p)" "pair_key reg2 (moved_pair pi p) = pair_key reg1 p"
proof -
  have a: "fst p \<in> alive_indices reg1" "snd p \<in> alive_indices reg1" "fst p \<noteq> snd p" using conflict_alive [OF p] by auto
  have ne: "pi (fst p) \<noteq> pi (snd p)" using r a by (auto simp: renumbers_def bij_betw_def dest: inj_onD)
  have lt: "pi (fst p) < length reg2" "pi (snd p) < length reg2" using r a by (auto simp: renumbers_def bij_betw_def alive_indices_def)
  have e: "reg2 ! pi (fst p) = reg1 ! fst p" "reg2 ! pi (snd p) = reg1 ! snd p" using r a by (auto simp: renumbers_def)
  have c: "real_conflict (reg1 ! fst p) (reg1 ! snd p)" "real_conflict (reg1 ! snd p) (reg1 ! fst p)"
    using p real_conflict_sym by (auto simp: conflict_pairs_iff)
  show "same_pair pi p (moved_pair pi p)" by (auto simp: same_pair_def moved_pair_def min_def max_def)
  show "moved_pair pi p \<in> set (conflict_pairs reg2)"
    using ne lt e c by (auto simp: conflict_pairs_iff moved_pair_def min_def max_def)
  show "pair_key reg2 (moved_pair pi p) = pair_key reg1 p"
    using e by (auto simp: pair_key_def moved_pair_def min_def max_def)
qed

lemma conflicts_moved:
  assumes r: "renumbers pi reg1 reg2"
  shows "moved_pair pi ` set (conflict_pairs reg1) = set (conflict_pairs reg2)"
proof (intro subset_antisym subsetI)
  show "q \<in> set (conflict_pairs reg2)" if "q \<in> moved_pair pi ` set (conflict_pairs reg1)" for q
    using that moved_pair_conflict(1) [OF r] by blast
next
  fix q
  assume q: "q \<in> set (conflict_pairs reg2)"
  have a: "fst q \<in> alive_indices reg2" "snd q \<in> alive_indices reg2" using conflict_alive [OF q] by auto
  then obtain i j where ij: "i \<in> alive_indices reg1" "fst q = pi i" "j \<in> alive_indices reg1" "snd q = pi j"
    using renumbers_onto [OF r a(1)] renumbers_onto [OF r a(2)] by blast
  have c: "real_conflict (reg1 ! i) (reg1 ! j)" "real_conflict (reg1 ! j) (reg1 ! i)"
    using q ij r real_conflict_sym by (auto simp: conflict_pairs_iff renumbers_def)
  have lt: "pi i < pi j" using q ij by (simp add: conflict_pairs_iff)
  then have "i \<noteq> j" by auto
  define p where "p = (min i j, max i j)"
  have "p \<in> set (conflict_pairs reg1)" using c \<open>i \<noteq> j\<close> ij by (auto simp: p_def conflict_pairs_iff alive_indices_def min_def max_def)
  moreover have "moved_pair pi p = q" using lt ij by (auto simp: p_def moved_pair_def min_def max_def prod_eq_iff)
  ultimately show "q \<in> moved_pair pi ` set (conflict_pairs reg1)" by blast
qed

lemma sorted_conflicts_moved:
  assumes r: "renumbers pi reg1 reg2"
  shows "sort_key (pair_key reg2) (conflict_pairs reg2) = map (moved_pair pi) (sort_key (pair_key reg1) (conflict_pairs reg1))"
proof -
  let ?L = "sort_key (pair_key reg1) (conflict_pairs reg1)"
  have keys: "map (pair_key reg2) (map (moved_pair pi) ?L) = map (pair_key reg1) ?L"
    using moved_pair_conflict(3) [OF r] by simp
  have inj1: "inj_on (pair_key reg1) (set (conflict_pairs reg1))" using r pair_key_inj by (simp add: renumbers_def)
  have "distinct (map (pair_key reg1) ?L)" using inj1 distinct_conflicts by (simp add: distinct_map)
  then have d: "distinct (map (pair_key reg2) (map (moved_pair pi) ?L))" unfolding keys .
  let ?M = "sort_key (pair_key reg2) (conflict_pairs reg2)"
  have set: "set (map (moved_pair pi) ?L) = set ?M" using conflicts_moved [OF r] by simp
  have inj2: "inj_on (pair_key reg2) (set ?M)" using d set by (metis distinct_map)
  have "map (pair_key reg2) ?M = map (pair_key reg2) (map (moved_pair pi) ?L)"
  proof (rule sorted_distinct_set_unique)
    show "sorted (map (pair_key reg2) ?M)" by simp
    show "distinct (map (pair_key reg2) ?M)" using inj2 distinct_conflicts by (simp add: distinct_map)
    show "sorted (map (pair_key reg2) (map (moved_pair pi) ?L))" unfolding keys by simp
    show "distinct (map (pair_key reg2) (map (moved_pair pi) ?L))" by (rule d)
    show "set (map (pair_key reg2) ?M) = set (map (pair_key reg2) (map (moved_pair pi) ?L))" using set by (metis set_map)
  qed
  then show ?thesis using inj2 set by (metis inj_on_map_eq_map Un_absorb)
qed

section \<open>The stages correspond\<close>

lemma stage_layout_moved:
  "(\<And>i. i \<in> set is \<union> set (concat sts) \<Longrightarrow> dep2 ! pi i = dep1 ! i) \<Longrightarrow> [] \<notin> set sts \<Longrightarrow>
     stage_layout dep2 (map pi is) (map (map pi) sts) = map (map pi) (stage_layout dep1 is sts)"
proof (induction "is" arbitrary: sts)
  case (Cons i "is")
  have di: "dep2 ! pi i = dep1 ! i" using Cons.prems(1) by simp
  show ?case
  proof (cases sts rule: rev_cases)
    case Nil
    then show ?thesis using Cons.IH [of "[[i]]"] Cons.prems by simp
  next
    case (snoc a b)
    then have b: "b \<noteq> []" using Cons.prems(2) by auto
    then have hd: "dep2 ! hd (map pi b) = dep1 ! hd b" using Cons.prems(1) [of "hd b"] snoc by (simp add: hd_map)
    show ?thesis
      using Cons.IH [of "sts @ [[i]]"] Cons.IH [of "a @ [b @ [i]]"] Cons.prems snoc b hd di by auto
  qed
qed simp

lemma hash_stages_types:
  "map (map (type_at reg1)) sts1 = map (map (type_at reg2)) sts2 \<Longrightarrow> hash_stages reg1 sts1 s h = hash_stages reg2 sts2 s h"
proof (induction sts1 arbitrary: sts2 s h)
  case (Cons st1 sts1)
  then obtain st2 sts2' where st: "sts2 = st2 # sts2'" "map (type_at reg1) st1 = map (type_at reg2) st2"
    "map (map (type_at reg1)) sts1 = map (map (type_at reg2)) sts2'" by auto
  have fold: "foldl (\<lambda>h i. fold_u64 h (type_at reg i)) x ys = foldl fold_u64 x (map (type_at reg) ys)" for reg x ys
    by (simp add: foldl_map)
  show ?case using Cons.IH [OF st(3)] st(1,2) by (simp add: fold)
qed simp

lemma emit_order_moved:
  assumes r: "renumbers pi reg1 reg2" and g: "same_graph pi reg1 reg2 d1 d2"
  shows "emit_order reg2 d2 = map pi (emit_order reg1 d1)"
proof -
  have ok: "dag_ok (length reg1) d1" "alive_edges reg1 (edges d1)" "depth_of (length reg1) (edges d1) (depth d1)"
    "dag_ok (length reg2) d2" "alive_edges reg2 (edges d2)" "depth_of (length reg2) (edges d2) (depth d2)"
    using g unfolding same_graph_def good_graph_def by metis+
  note e1 = emit_order_spec [OF ok(1-3), folded alive_indices_def]
  note e2 = emit_order_spec [OF ok(4-6), folded alive_indices_def]
  have b: "bij_betw pi (alive_indices reg1) (alive_indices reg2)" and same: "\<And>i. i \<in> alive_indices reg1 \<Longrightarrow> reg2 ! pi i = reg1 ! i"
    and inj1: "inj_on (type_at reg1) (alive_indices reg1)" using r by (auto simp: renumbers_def)
  have key: "emit_key reg2 (depth d2) (pi i) = emit_key reg1 (depth d1) i" if "i \<in> alive_indices reg1" for i
    using same [OF that] same_graph_depth [OF r g that] by (simp add: emit_key_def)
  have keys: "map (emit_key reg2 (depth d2)) (map pi (emit_order reg1 d1)) = map (emit_key reg1 (depth d1)) (emit_order reg1 d1)"
    using key e1(2) by simp
  have inj: "inj_on (emit_key reg1 (depth d1)) (alive_indices reg1)"
    using inj1 by (auto simp: inj_on_def emit_key_def)
  have d: "distinct (map (emit_key reg2 (depth d2)) (map pi (emit_order reg1 d1)))"
    unfolding keys using inj e1(1,2) by (simp add: distinct_map)
  have set: "set (map pi (emit_order reg1 d1)) = set (emit_order reg2 d2)"
    using b e1(2) e2(2) by (simp add: bij_betw_def)
  have inj2: "inj_on (emit_key reg2 (depth d2)) (set (emit_order reg2 d2))" using d set by (metis distinct_map)
  have "map (emit_key reg2 (depth d2)) (emit_order reg2 d2) = map (emit_key reg2 (depth d2)) (map pi (emit_order reg1 d1))"
  proof (rule sorted_distinct_set_unique)
    show "sorted (map (emit_key reg2 (depth d2)) (emit_order reg2 d2))" by (rule e2(3))
    show "distinct (map (emit_key reg2 (depth d2)) (emit_order reg2 d2))" using inj2 e2(1) by (simp add: distinct_map)
    show "sorted (map (emit_key reg2 (depth d2)) (map pi (emit_order reg1 d1)))" unfolding keys by (rule e1(3))
    show "distinct (map (emit_key reg2 (depth d2)) (map pi (emit_order reg1 d1)))" by (rule d)
    show "set (map (emit_key reg2 (depth d2)) (emit_order reg2 d2)) = set (map (emit_key reg2 (depth d2)) (map pi (emit_order reg1 d1)))"
      using set by (metis set_map)
  qed
  then show ?thesis using inj2 set by (metis inj_on_map_eq_map Un_absorb)
qed

lemma stages_alive: "acyclic (declared_order reg) \<Longrightarrow> set (concat (stages (rebuild reg))) = alive_indices reg"
proof -
  assume "acyclic (declared_order reg)"
  then obtain d where "good_graph reg d" "concat (stages (rebuild reg)) = emit_order reg d" by (rule rebuild_spec)
  then show ?thesis using emit_order_spec(2) [of reg d] by (simp add: good_graph_def alive_indices_def)
qed

lemma types_moved:
  assumes "renumbers pi reg1 reg2" "acyclic (declared_order reg1)" "stages (rebuild reg2) = map (map pi) (stages (rebuild reg1))"
  shows "map (map (type_at reg2)) (stages (rebuild reg2)) = map (map (type_at reg1)) (stages (rebuild reg1))"
proof -
  have "reg2 ! pi i = reg1 ! i" if "st \<in> set (stages (rebuild reg1))" "i \<in> set st" for st i
    using that stages_alive [OF assms(2)] assms(1) by (auto simp: renumbers_def)
  then show ?thesis unfolding assms(3) by simp
qed

lemma rebuild_moved:
  assumes r: "renumbers pi reg1 reg2" and ac: "acyclic (declared_order reg1)"
  shows "stages (rebuild reg2) = map (map pi) (stages (rebuild reg1))" "built (rebuild reg1)" "built (rebuild reg2)"
    "schedule_hash (rebuild reg2) = schedule_hash (rebuild reg1)"
proof -
  define e1 where "e1 = declared_edges (type_index reg1 0) reg1 0 (dag_resize (length reg1))"
  define e2 where "e2 = declared_edges (type_index reg2 0) reg2 0 (dag_resize (length reg2))"
  note g1 = declared_graph [of reg1, folded e1_def] and g2 = declared_graph [of reg2, folded e2_def]
  have "inj_on pi (alive_indices reg1)" using r by (simp add: renumbers_def bij_betw_def)
  then have ac2: "acyclic (declared_order reg2)"
    unfolding declared_moved [OF r] using moved_acyclic [OF _ alive_edges_sub [OF declared_alive]] ac by blast
  obtain dep1 where r1: "recompute_depths e1 = (e1\<lparr>depth := dep1\<rparr>, True)" "depth_of (length reg1) (edges e1) dep1"
    using recompute_spec [OF g1(1)] ac g1(2) by auto
  obtain dep2 where r2: "recompute_depths e2 = (e2\<lparr>depth := dep2\<rparr>, True)" "depth_of (length reg2) (edges e2) dep2"
    using recompute_spec [OF g2(1)] ac2 g2(2) by auto
  have "good_graph reg1 (e1\<lparr>depth := dep1\<rparr>)" using g1 r1(2) ac declared_alive by (simp add: good_graph_def)
  moreover have "good_graph reg2 (e2\<lparr>depth := dep2\<rparr>)" using g2 r2(2) ac2 declared_alive by (simp add: good_graph_def)
  ultimately have sg: "same_graph pi reg1 reg2 (e1\<lparr>depth := dep1\<rparr>) (e2\<lparr>depth := dep2\<rparr>)"
    using g1(2) g2(2) declared_moved [OF r] by (simp add: same_graph_def)
  let ?L = "sort_key (pair_key reg1) (conflict_pairs reg1)"
  have "list_all2 (same_pair pi) ?L (map (moved_pair pi) ?L)"
    using moved_pair_conflict(2) [OF r] by (auto simp: list.rel_map intro!: list.rel_refl_strong)
  moreover have "set (map (moved_pair pi) ?L) \<subseteq> set (conflict_pairs reg2)" using moved_pair_conflict(1) [OF r] by auto
  ultimately have "\<exists>d1 d2. resolve_conflicts reg1 ?L (e1\<lparr>depth := dep1\<rparr>) = Some d1
      \<and> resolve_conflicts reg2 (map (moved_pair pi) ?L) (e2\<lparr>depth := dep2\<rparr>) = Some d2 \<and> same_graph pi reg1 reg2 d1 d2"
    by (intro resolve_all_moved [OF r _ _ _ sg]) simp_all
  then obtain d1 d2 where d: "resolve_conflicts reg1 ?L (e1\<lparr>depth := dep1\<rparr>) = Some d1"
    "resolve_conflicts reg2 (sort_key (pair_key reg2) (conflict_pairs reg2)) (e2\<lparr>depth := dep2\<rparr>) = Some d2" "same_graph pi reg1 reg2 d1 d2"
    using sorted_conflicts_moved [OF r] by auto
  have b1: "rebuild reg1 = \<lparr>built = True, stages = stage_layout (depth d1) (emit_order reg1 d1) [],
      schedule_hash = hash_stages reg1 (stage_layout (depth d1) (emit_order reg1 d1) []) 0 0xcbf29ce484222325\<rparr>"
    using r1(1) d(1) by (simp add: rebuild_def e1_def [symmetric] Let_def)
  have b2: "rebuild reg2 = \<lparr>built = True, stages = stage_layout (depth d2) (emit_order reg2 d2) [],
      schedule_hash = hash_stages reg2 (stage_layout (depth d2) (emit_order reg2 d2) []) 0 0xcbf29ce484222325\<rparr>"
    using r2(1) d(2) by (simp add: rebuild_def e2_def [symmetric] Let_def)
  have em: "set (emit_order reg1 d1) = alive_indices reg1"
    using emit_order_spec(2) [of reg1 d1] d(3) by (simp add: same_graph_def good_graph_def alive_indices_def)
  have st: "stages (rebuild reg2) = map (map pi) (stages (rebuild reg1))"
    using stage_layout_moved [of "emit_order reg1 d1" "[]" "depth d2" pi "depth d1"] same_graph_depth [OF r d(3)] em
    by (simp add: b1 b2 emit_order_moved [OF r d(3)])
  show "stages (rebuild reg2) = map (map pi) (stages (rebuild reg1))" by (rule st)
  show "built (rebuild reg1)" "built (rebuild reg2)" by (simp_all add: b1 b2)
  have "map (map (type_at reg1)) (stages (rebuild reg1)) = map (map (type_at reg2)) (stages (rebuild reg2))"
    using types_moved [OF r ac st] by simp
  then show "schedule_hash (rebuild reg2) = schedule_hash (rebuild reg1)"
    using hash_stages_types [of reg1 "stages (rebuild reg1)" reg2 "stages (rebuild reg2)"] by (simp add: b1 b2)
qed

text \<open>Equal sets of alive registrations, in any order and among any dead ones, are renumbered into each other.\<close>

definition same_systems :: "SystemRegistration list \<Rightarrow> SystemRegistration list \<Rightarrow> bool" where
  "same_systems reg1 reg2 \<longleftrightarrow> mset (filter reg_alive reg1) = mset (filter reg_alive reg2)
     \<and> distinct (map reg_type_id (filter reg_alive reg1))"

lemma distinct_alive_inj: "distinct (map reg_type_id (filter reg_alive reg)) \<Longrightarrow> inj_on (type_at reg) (alive_indices reg)"
proof (induction reg rule: rev_induct)
  case (snoc r reg)
  have ai: "alive_indices (reg @ [r]) = alive_indices reg \<union> (if reg_alive r then {length reg} else {})"
    by (auto simp: alive_indices_def nth_append less_Suc_eq)
  have inj: "inj_on (type_at (reg @ [r])) (alive_indices reg)"
    using snoc by (auto simp: inj_on_def alive_indices_def nth_append)
  have "reg_type_id r \<notin> type_at (reg @ [r]) ` alive_indices reg" if a: "reg_alive r"
  proof
    assume "reg_type_id r \<in> type_at (reg @ [r]) ` alive_indices reg"
    then obtain i where "i < length reg" "reg_alive (reg ! i)" "reg_type_id (reg ! i) = reg_type_id r"
      by (auto simp: alive_indices_def nth_append)
    then have "reg_type_id r \<in> reg_type_id ` {x \<in> set reg. reg_alive x}"
      by (metis (mono_tags, lifting) image_eqI mem_Collect_eq nth_mem)
    then show False using snoc.prems a by simp
  qed
  then show ?case unfolding ai using inj by (cases "reg_alive r") (simp_all add: inj_on_insert, auto)
qed (simp add: alive_indices_def)

lemma same_systems_renumber:
  assumes "same_systems reg1 reg2"
  shows "renumbers (\<lambda>i. the (type_index reg2 0 (type_at reg1 i))) reg1 reg2"
proof -
  let ?pi = "\<lambda>i. the (type_index reg2 0 (type_at reg1 i))"
  have m: "mset (filter reg_alive reg1) = mset (filter reg_alive reg2)"
    and d1: "distinct (map reg_type_id (filter reg_alive reg1))" using assms by (simp_all add: same_systems_def)
  have d2: "distinct (map reg_type_id (filter reg_alive reg2))" using m d1 by (metis mset_eq_imp_distinct_iff mset_map)
  note i1 = distinct_alive_inj [OF d1] and i2 = distinct_alive_inj [OF d2]
  have set: "set (filter reg_alive reg1) = set (filter reg_alive reg2)" using m by (rule mset_eq_setD)
  have at: "\<exists>j. type_index reg2 0 (type_at reg1 i) = Some j \<and> j \<in> alive_indices reg2 \<and> reg2 ! j = reg1 ! i"
    if i: "i \<in> alive_indices reg1" for i
  proof -
    have "reg1 ! i \<in> set (filter reg_alive reg2)" using i set by (auto simp: alive_indices_def)
    then obtain j where "j < length reg2" "reg2 ! j = reg1 ! i" "reg_alive (reg1 ! i)" by (auto simp: in_set_conv_nth)
    then have "j \<in> alive_indices reg2" "reg2 ! j = reg1 ! i" by (simp_all add: alive_indices_def)
    then show ?thesis using type_index_alive [OF i2] by auto
  qed
  have "inj_on ?pi (alive_indices reg1)"
  proof (rule inj_onI)
    fix x y
    assume xy: "x \<in> alive_indices reg1" "y \<in> alive_indices reg1" "?pi x = ?pi y"
    then have "reg1 ! x = reg1 ! y" using at [OF xy(1)] at [OF xy(2)] by auto
    then have "type_at reg1 x = type_at reg1 y" by simp
    then show "x = y" using inj_onD [OF i1] xy by blast
  qed
  moreover have "?pi ` alive_indices reg1 = alive_indices reg2"
  proof (intro subset_antisym subsetI)
    show "j \<in> alive_indices reg2" if "j \<in> ?pi ` alive_indices reg1" for j using that at by force
  next
    fix j
    assume j: "j \<in> alive_indices reg2"
    then have "reg2 ! j \<in> set (filter reg_alive reg1)" using set by (auto simp: alive_indices_def)
    then obtain i where i: "i < length reg1" "reg1 ! i = reg2 ! j" "reg_alive (reg2 ! j)" by (auto simp: in_set_conv_nth)
    then have "i \<in> alive_indices reg1" by (simp add: alive_indices_def)
    moreover have "?pi i = j" using type_index_alive [OF i2, of "type_at reg1 i" j] j i(2) by simp
    ultimately show "j \<in> ?pi ` alive_indices reg1" by blast
  qed
  moreover have "\<forall>i \<in> alive_indices reg1. reg2 ! ?pi i = reg1 ! i" using at by fastforce
  ultimately show ?thesis using i1 by (simp add: renumbers_def bij_betw_def)
qed

text \<open>C15: the schedule is a function of the set of alive systems: the order of registration, and dead
  registrations in between, change neither whether it can be built, nor the types of any stage in
  their order, nor the hash that peers compare.\<close>

theorem schedule_order_independent:
  assumes "same_systems reg1 reg2"
  shows "built (rebuild reg2) = built (rebuild reg1)
    \<and> map (map (type_at reg2)) (stages (rebuild reg2)) = map (map (type_at reg1)) (stages (rebuild reg1))
    \<and> schedule_hash (rebuild reg2) = schedule_hash (rebuild reg1)"
proof (cases "acyclic (declared_order reg1)")
  case True
  note r = same_systems_renumber [OF assms]
  show ?thesis using rebuild_moved [OF r True] types_moved [OF r True rebuild_moved(1) [OF r True]] by simp
next
  case False
  note r = same_systems_renumber [OF assms]
  have "inj_on (\<lambda>i. the (type_index reg2 0 (type_at reg1 i))) (alive_indices reg1)" using r by (simp add: renumbers_def bij_betw_def)
  then have "\<not> acyclic (declared_order reg2)"
    unfolding declared_moved [OF r] using moved_acyclic [OF _ alive_edges_sub [OF declared_alive]] False by blast
  then show ?thesis using rebuild_fails False by (simp add: cleared_schedule_def)
qed

lemma demo_same: "same_systems demo_registry [demo_late, demo_reader\<lparr>reg_alive := False\<rparr>, demo_writer, demo_reader]"
  by (simp add: same_systems_def demo_fields)

theorem schedule_order_independent_witness:
  "schedule_hash (rebuild [demo_late, demo_reader\<lparr>reg_alive := False\<rparr>, demo_writer, demo_reader]) = schedule_hash (rebuild demo_registry)"
  using schedule_order_independent [OF demo_same] by simp

end
