(* ===== verification/Command_Buffer.thy ===== *)
theory Command_Buffer
  imports Bulk_Creation
begin

text \<open>
  \<open>src/openvic-simulation/ecs/CommandBuffer.hpp\<close> and \<open>ecs/CommandBuffer.cpp\<close>: structural changes
  recorded by a system and applied to the World afterwards, in record order.

  A payload is the value it still owns, \<^const>\<open>None\<close> for a tag or once moved from; the memory blocks
  that hold payloads are not modelled.  A result \<^const>\<open>None\<close> is a fault, as in the World.
\<close>

section \<open>Recorded operations\<close>

record 'v CreatePayload =
  create_sig :: "component_type_id_t list"
  create_vtables :: "ColumnVTable list"
  create_values :: "'v option list"
  create_immutable :: bool

record 'v BulkCreatePayload =
  bulk_sig :: "component_type_id_t list"
  bulk_vtables :: "ColumnVTable list"
  bulk_columns :: "'v list list"
  reserved_ids :: "EntityID list"
  bulk_count :: u32
  bulk_immutable :: bool

record 'v AddPayload =
  add_id :: component_type_id_t
  add_vtable :: ColumnVTable
  add_value :: "'v option"
  add_is_default :: bool

datatype 'v Op =
    CreateEntity EntityID "'v CreatePayload"
  | CreateEntitiesBulk EntityID "'v BulkCreatePayload"
  | DestroyEntity EntityID
  | AddComponent EntityID "'v AddPayload"
  | RemoveComponent EntityID component_type_id_t

record 'v CommandBuffer =
  buffer_ops :: "'v Op list"
  parallel_mode :: bool
  deferred_count :: u32

definition empty_buffer :: "'v CommandBuffer" where
  "empty_buffer = \<lparr>buffer_ops = [], parallel_mode = False, deferred_count = 0\<rparr>"

definition set_parallel_mode :: "bool \<Rightarrow> 'v CommandBuffer \<Rightarrow> 'v CommandBuffer" where
  "set_parallel_mode enabled cb = cb\<lparr>parallel_mode := enabled\<rparr>"

definition op_count :: "'v CommandBuffer \<Rightarrow> nat" where
  "op_count cb = length (buffer_ops cb)"

definition buffer_empty :: "'v CommandBuffer \<Rightarrow> bool" where
  "buffer_empty cb \<longleftrightarrow> buffer_ops cb = []"

definition push_op :: "'v Op \<Rightarrow> 'v CommandBuffer \<Rightarrow> 'v CommandBuffer" where
  "push_op op cb = cb\<lparr>buffer_ops := buffer_ops cb @ [op]\<rparr>"

section \<open>Recording\<close>

text \<open>The identifier of a recorded creation: a placeholder in parallel mode, else a slot reserved now.\<close>

definition record_eid :: "'v CommandBuffer \<Rightarrow> 'v World \<Rightarrow> (EntityID \<times> 'v CommandBuffer \<times> 'v World) option" where
  "record_eid cb w =
     (if parallel_mode cb
      then Some (\<lparr>index = deferred_count cb, generation = DEFERRED_GENERATION_BIT\<rparr>, cb\<lparr>deferred_count := deferred_count cb + 1\<rparr>, w)
      else map_option (\<lambda>(e, w). (e, cb, w)) (reserve_entity_slot w))"

definition record_create_entity :: "vtables_of \<Rightarrow> bool \<Rightarrow> (component_type_id_t \<times> 'v) list \<Rightarrow> 'v CommandBuffer \<Rightarrow> 'v World \<Rightarrow>
    (EntityID \<times> 'v CommandBuffer \<times> 'v World) option" where
  "record_create_entity vt immut comps cb w = do {
     let sorted = exchange_sort (map (\<lambda>(c, v). (c, vt c)) comps);
     (eid, cb, w) \<leftarrow> record_eid cb w;
     let payload = \<lparr>create_sig = map fst sorted, create_vtables = map snd sorted,
           create_values = staged_values vt comps (map fst sorted), create_immutable = immut\<rparr>;
     Some (eid, push_op (CreateEntity eid payload) cb, w) }"

fun stage_columns :: "(component_type_id_t \<Rightarrow> 'v) \<Rightarrow> 'v list list option \<Rightarrow> nat \<Rightarrow> component_type_id_t list \<Rightarrow>
    (component_type_id_t \<times> nat option) list \<Rightarrow> 'v list list \<Rightarrow> 'v list list option" where
  "stage_columns dflt spans n sig [] blocks = Some blocks"
| "stage_columns dflt spans n sig ((c, None) # cs) blocks = stage_columns dflt spans n sig cs blocks"
| "stage_columns dflt spans n sig ((c, Some pos) # cs) blocks = do {
     target \<leftarrow> column_index_loop sig c 0;
     vs \<leftarrow> column_values dflt spans n c pos;
     stage_columns dflt spans n sig cs (blocks[target := vs]) }"

fun reserve_each :: "nat \<Rightarrow> 'v World \<Rightarrow> (EntityID list \<times> 'v World) option" where
  "reserve_each 0 w = Some ([], w)"
| "reserve_each (Suc n) w = do {
     (e, w) \<leftarrow> reserve_entity_slot w;
     (es, w) \<leftarrow> reserve_each n w;
     Some (e # es, w) }"

text \<open>The result: success, the contents of \<open>out_ids\<close>, the buffer and the world.\<close>

definition record_create_entities :: "vtables_of \<Rightarrow> (component_type_id_t \<Rightarrow> 'v) \<Rightarrow> bool \<Rightarrow> component_type_id_t list \<Rightarrow>
    'v list list option \<Rightarrow> nat \<Rightarrow> EntityID list \<Rightarrow> 'v CommandBuffer \<Rightarrow> 'v World \<Rightarrow>
    (bool \<times> EntityID list \<times> 'v CommandBuffer \<times> 'v World) option" where
  "record_create_entities vt dflt immut ids spans n out_ids cb w =
     (if \<not> bulk_create_sizes_ok n (length out_ids) (case spans of None \<Rightarrow> [] | Some ss \<Rightarrow> map length ss)
      then Some (False, out_ids, cb, w)
      else if n = 0 then Some (True, out_ids, cb, w)
      else do {
        let sorted = exchange_sort (map (\<lambda>c. (c, vt c)) ids);
        blocks \<leftarrow> stage_columns dflt spans n (map fst sorted) (zip ids (bulk_span_index_map vt ids)) (replicate (length ids) []);
        let bulk = \<lparr>bulk_sig = map fst sorted, bulk_vtables = map snd sorted, bulk_columns = blocks,
              reserved_ids = [], bulk_count = of_nat n, bulk_immutable = immut\<rparr>;
        if parallel_mode cb
        then let base = deferred_count cb;
                 es = map (\<lambda>i. \<lparr>index = base + of_nat i, generation = DEFERRED_GENERATION_BIT\<rparr>) [0..<n]
             in Some (True, es, push_op (CreateEntitiesBulk \<lparr>index = base, generation = DEFERRED_GENERATION_BIT\<rparr> bulk)
                  (cb\<lparr>deferred_count := base + of_nat n\<rparr>), w)
        else do {
          (es, w) \<leftarrow> reserve_each n w;
          Some (True, es, push_op (CreateEntitiesBulk INVALID_ENTITY_ID (bulk\<lparr>reserved_ids := es\<rparr>)) cb, w) } })"

definition record_destroy_entity :: "EntityID \<Rightarrow> 'v CommandBuffer \<Rightarrow> 'v CommandBuffer" where
  "record_destroy_entity e cb = push_op (DestroyEntity e) cb"

definition record_add_component :: "vtables_of \<Rightarrow> component_type_id_t \<Rightarrow> 'v \<Rightarrow> EntityID \<Rightarrow> 'v CommandBuffer \<Rightarrow> 'v CommandBuffer" where
  "record_add_component vt c v e cb = push_op (AddComponent e \<lparr>add_id = c, add_vtable = vt c,
     add_value = (if vt_size (vt c) = 0 then None else Some v), add_is_default = False\<rparr>) cb"

definition record_add_default :: "vtables_of \<Rightarrow> (component_type_id_t \<Rightarrow> 'v) \<Rightarrow> component_type_id_t \<Rightarrow> EntityID \<Rightarrow> 'v CommandBuffer \<Rightarrow> 'v CommandBuffer" where
  "record_add_default vt dflt c e cb = push_op (AddComponent e \<lparr>add_id = c, add_vtable = vt c,
     add_value = (if vt_size (vt c) = 0 then None else Some (dflt c)), add_is_default = True\<rparr>) cb"

definition record_remove_component :: "component_type_id_t \<Rightarrow> EntityID \<Rightarrow> 'v CommandBuffer \<Rightarrow> 'v CommandBuffer" where
  "record_remove_component c e cb = push_op (RemoveComponent e c) cb"

section \<open>Applying\<close>

definition resolve :: "EntityID list \<Rightarrow> EntityID \<Rightarrow> EntityID" where
  "resolve placeholders e =
     (if \<not> eid_is_deferred e then e
      else if unat (index e) \<ge> length placeholders then INVALID_ENTITY_ID
      else placeholders ! unat (index e))"

text \<open>The stamp of a single creation looks at the index only.\<close>

definition stamp_applied :: "bool \<Rightarrow> EntityID \<Rightarrow> 'v World \<Rightarrow> 'v World" where
  "stamp_applied immut e w =
     (if immut then (case slot_at w (index e) of None \<Rightarrow> w | Some slot \<Rightarrow> set_slot (index e) (slot\<lparr>immutable := True\<rparr>) w) else w)"

definition apply_create :: "EntityID \<Rightarrow> 'v CreatePayload \<Rightarrow> EntityID list \<Rightarrow> 'v World \<Rightarrow> (EntityID list \<times> 'v World) option" where
  "apply_create e p placeholders w = do {
     (real, placeholders, w) \<leftarrow> (if eid_is_deferred e
        then do {
          (real, w) \<leftarrow> reserve_entity_slot w;
          Some (real, if unat (index e) < length placeholders then placeholders[unat (index e) := real] else placeholders, w) }
        else Some (e, placeholders, w));
     w \<leftarrow> finalize_reserved_entity real (create_sig p) (create_vtables p) (create_values p) w;
     Some (placeholders, stamp_applied (create_immutable p) real w) }"

text \<open>The slots of a deferred batch, each bound to its placeholder.\<close>

fun resolve_batch :: "nat \<Rightarrow> nat \<Rightarrow> EntityID list \<Rightarrow> 'v World \<Rightarrow> (EntityID list \<times> EntityID list \<times> 'v World) option" where
  "resolve_batch 0 ph placeholders w = Some ([], placeholders, w)"
| "resolve_batch (Suc n) ph placeholders w = do {
     (real, w) \<leftarrow> reserve_entity_slot w;
     (es, placeholders, w) \<leftarrow> resolve_batch n (Suc ph)
        (if ph < length placeholders then placeholders[ph := real] else placeholders) w;
     Some (real # es, placeholders, w) }"

fun stamp_batch :: "EntityID list \<Rightarrow> 'v World \<Rightarrow> 'v World" where
  "stamp_batch [] w = w"
| "stamp_batch (e # es) w = stamp_batch es
     (case slot_at w (index e) of
        None \<Rightarrow> w
      | Some slot \<Rightarrow> if alive slot \<and> slot_generation slot = generation e then set_slot (index e) (slot\<lparr>immutable := True\<rparr>) w else w)"

definition apply_bulk :: "EntityID \<Rightarrow> 'v BulkCreatePayload \<Rightarrow> EntityID list \<Rightarrow> 'v World \<Rightarrow> (EntityID list \<times> 'v World) option" where
  "apply_bulk e p placeholders w = do {
     (es, placeholders, w) \<leftarrow> (if eid_is_deferred e then resolve_batch (unat (bulk_count p)) (unat (index e)) placeholders w
        else Some (reserved_ids p, placeholders, w));
     w \<leftarrow> finalize_reserved_entities_bulk es (bulk_sig p) (bulk_vtables p) (bulk_columns p) w;
     Some (placeholders, if bulk_immutable p then stamp_batch es w else w) }"

text \<open>Replacing a component in place: the old value is destroyed, the new one moved in, the version bumped.\<close>

definition replace_cell :: "cell_place \<Rightarrow> 'v option \<Rightarrow> 'v World \<Rightarrow> 'v World option" where
  "replace_cell pl v w = (case pl of (ai, l, col) \<Rightarrow> do {
     a \<leftarrow> arch_at w ai;
     v \<leftarrow> v;
     a \<leftarrow> with_cells l (assign_cell col v) a;
     Some (set_arch ai (a\<lparr>column_versions := (column_versions a)[col := column_versions a ! col + 1]\<rparr>) w) })"

definition apply_add :: "EntityID \<Rightarrow> 'v AddPayload \<Rightarrow> 'v World \<Rightarrow> 'v World option" where
  "apply_add e p w =
     (if \<not> eid_is_valid e \<or> eid_is_deferred e then Some w
      else case slot_at w (index e) of
             None \<Rightarrow> Some w
           | Some slot \<Rightarrow>
               if \<not> alive slot \<or> slot_generation slot \<noteq> generation e then Some w
               else if archetype_index slot = INVALID_ARCHETYPE then Some w
               else if immutable slot then Some w
               else do {
                 src \<leftarrow> arch_at w (archetype_index slot);
                 (case column_index_for src (add_id p) of
                    Some col \<Rightarrow>
                      if column_offsets src ! col \<noteq> NO_COLUMN_OFFSET
                      then replace_cell (archetype_index slot, slot_loc slot, col) (add_value p) w
                      else Some w
                  | None \<Rightarrow> do {
                      v \<leftarrow> (if vt_size (add_vtable p) = 0 then Some None else map_option Some (add_value p));
                      (_, w) \<leftarrow> migrate_entity e (insert_id (add_id p) (add_vtable p) (signature src) (vtables src))
                         (Some (add_id p, v)) None w;
                      Some w }) })"

definition apply_remove :: "EntityID \<Rightarrow> component_type_id_t \<Rightarrow> 'v World \<Rightarrow> 'v World option" where
  "apply_remove e c w =
     (if \<not> eid_is_valid e \<or> eid_is_deferred e then Some w
      else case slot_at w (index e) of
             None \<Rightarrow> Some w
           | Some slot \<Rightarrow>
               if \<not> alive slot \<or> slot_generation slot \<noteq> generation e then Some w
               else if archetype_index slot = INVALID_ARCHETYPE then Some w
               else if immutable slot then Some w
               else do {
                 src \<leftarrow> arch_at w (archetype_index slot);
                 (case column_index_for src c of
                    None \<Rightarrow> Some w
                  | Some col \<Rightarrow>
                      if length (signature src) = 1 then Some w
                      else do {
                        (_, w) \<leftarrow> migrate_entity e (drop_id c (signature src) (vtables src)) None (Some col) w;
                        Some w }) })"

fun apply_op :: "'v Op \<Rightarrow> EntityID list \<Rightarrow> 'v World \<Rightarrow> (EntityID list \<times> 'v World) option" where
  "apply_op (CreateEntity e p) placeholders w = apply_create e p placeholders w"
| "apply_op (CreateEntitiesBulk e p) placeholders w = apply_bulk e p placeholders w"
| "apply_op (DestroyEntity e) placeholders w =
     map_option (\<lambda>w. (placeholders, w)) (destroy_entity (resolve placeholders e) w)"
| "apply_op (AddComponent e p) placeholders w = map_option (\<lambda>w. (placeholders, w)) (apply_add (resolve placeholders e) p w)"
| "apply_op (RemoveComponent e c) placeholders w = map_option (\<lambda>w. (placeholders, w)) (apply_remove (resolve placeholders e) c w)"

fun apply_ops :: "'v Op list \<Rightarrow> EntityID list \<Rightarrow> 'v World \<Rightarrow> (EntityID list \<times> 'v World) option" where
  "apply_ops [] placeholders w = Some (placeholders, w)"
| "apply_ops (op # rest) placeholders w = do {
     (placeholders, w) \<leftarrow> apply_op op placeholders w;
     apply_ops rest placeholders w }"

definition clear_buffer :: "'v CommandBuffer \<Rightarrow> 'v CommandBuffer" where
  "clear_buffer cb = cb\<lparr>buffer_ops := [], deferred_count := 0\<rparr>"

definition apply_buffer :: "'v CommandBuffer \<Rightarrow> 'v World \<Rightarrow> ('v CommandBuffer \<times> 'v World) option" where
  "apply_buffer cb w = do {
     (_, w) \<leftarrow> apply_ops (buffer_ops cb) (replicate (unat (deferred_count cb)) INVALID_ENTITY_ID) w;
     Some (cb\<lparr>buffer_ops := [], deferred_count := 0\<rparr>, w) }"

section \<open>Merging\<close>

definition rebase_eid :: "u32 \<Rightarrow> EntityID \<Rightarrow> EntityID" where
  "rebase_eid base e = (if eid_is_deferred e then e\<lparr>index := index e + base\<rparr> else e)"

fun rebase_op :: "u32 \<Rightarrow> 'v Op \<Rightarrow> 'v Op" where
  "rebase_op base (CreateEntity e p) = CreateEntity (rebase_eid base e) p"
| "rebase_op base (CreateEntitiesBulk e p) = CreateEntitiesBulk (rebase_eid base e) p"
| "rebase_op base (DestroyEntity e) = DestroyEntity (rebase_eid base e)"
| "rebase_op base (AddComponent e p) = AddComponent (rebase_eid base e) p"
| "rebase_op base (RemoveComponent e c) = RemoveComponent (rebase_eid base e) c"

text \<open>The receiving buffer and the emptied one.\<close>

definition merge_from :: "'v CommandBuffer \<Rightarrow> 'v CommandBuffer \<Rightarrow> 'v CommandBuffer \<times> 'v CommandBuffer" where
  "merge_from cb other =
     (if buffer_ops other = [] then (cb\<lparr>deferred_count := deferred_count cb + deferred_count other\<rparr>, other\<lparr>deferred_count := 0\<rparr>)
      else (cb\<lparr>buffer_ops := buffer_ops cb @ map (rebase_op (deferred_count cb)) (buffer_ops other),
              deferred_count := deferred_count cb + deferred_count other\<rparr>,
            other\<lparr>buffer_ops := [], deferred_count := 0\<rparr>))"

end
