(* ===== verification/Command_Merge.thy ===== *)
theory Command_Merge
  imports Command_Buffer World_Properties
begin

text \<open>
  Merging buffers: applying the merged buffer is applying the one buffer and then the other, because
  the placeholders of the second are moved behind those of the first.
\<close>

section \<open>Placeholders of a buffer\<close>

text \<open>The placeholders of an operation are among the first \<open>n\<close>.\<close>

definition eid_within :: "nat \<Rightarrow> EntityID \<Rightarrow> bool" where
  "eid_within n e \<longleftrightarrow> (eid_is_deferred e \<longrightarrow> unat (index e) < n)"

fun op_within :: "nat \<Rightarrow> 'v Op \<Rightarrow> bool" where
  "op_within n (CreateEntity e p) = eid_within n e"
| "op_within n (CreateEntitiesBulk e p) = (eid_is_deferred e \<longrightarrow> unat (index e) + unat (bulk_count p) \<le> n)"
| "op_within n (DestroyEntity e) = eid_within n e"
| "op_within n (AddComponent e p) = eid_within n e"
| "op_within n (RemoveComponent e c) = eid_within n e"

definition recorded_ok :: "'v CommandBuffer \<Rightarrow> bool" where
  "recorded_ok cb \<longleftrightarrow> (\<forall>op \<in> set (buffer_ops cb). op_within (unat (deferred_count cb)) op)"

lemma resolve_left: "eid_within (length m) e \<Longrightarrow> resolve (m @ r) e = resolve m e"
  by (auto simp: resolve_def eid_within_def nth_append)

lemma rebase_index:
  assumes "unat (index e) + unat base < 2 ^ 32"
  shows "unat (index e + base) = unat base + unat (index e)"
proof -
  have "unat (index e + base) = (unat (index e) + unat base) mod 2 ^ 32" by (simp only: unat_word_ariths) simp
  then show ?thesis using mod_less [OF assms] by linarith
qed

lemma rebase_deferred [simp]: "eid_is_deferred (rebase_eid base e) = eid_is_deferred e"
  by (simp add: rebase_eid_def eid_is_deferred_def)

lemma resolve_shift:
  assumes "eid_within (length m) e" "length l = unat base" "length l + length m \<le> 2 ^ 32"
  shows "resolve (l @ m) (rebase_eid base e) = resolve m e"
proof (cases "eid_is_deferred e")
  case True
  then have "unat (index e + base) = unat base + unat (index e)"
    using assms by (intro rebase_index) (simp add: eid_within_def)
  moreover have "rebase_eid base e = e\<lparr>index := index e + base\<rparr>" using True by (simp add: rebase_eid_def)
  ultimately have i: "unat (index (rebase_eid base e)) = length l + unat (index e)" using assms(2) by simp
  have "unat (index e) < length m" using True assms(1) by (simp add: eid_within_def)
  then show ?thesis unfolding resolve_def rebase_deferred i using True by (simp add: nth_append)
next
  case False
  then have "rebase_eid base e = e" by (simp add: rebase_eid_def)
  then show ?thesis using False by (simp add: resolve_def)
qed

section \<open>Batches\<close>

lemma resolve_batch_append:
  "ph + n \<le> length m \<Longrightarrow>
     resolve_batch n ph (m @ r) w = map_option (\<lambda>(es, m', w'). (es, m' @ r, w')) (resolve_batch n ph m w)"
proof (induction n arbitrary: ph m w)
  case (Suc n)
  show ?case
    by (cases "reserve_entity_slot w")
      (use Suc in \<open>auto simp: list_update_append Option.bind_map_option comp_def case_prod_unfold map_option_case split: option.splits\<close>)
qed simp

lemma resolve_batch_shift:
  "ph + n \<le> length m \<Longrightarrow>
     resolve_batch n (length l + ph) (l @ m) w = map_option (\<lambda>(es, m', w'). (es, l @ m', w')) (resolve_batch n ph m w)"
proof (induction n arbitrary: ph m w)
  case (Suc n)
  have "length l + Suc ph = Suc (length l + ph)" by simp
  then show ?case
    by (cases "reserve_entity_slot w")
      (use Suc.IH [of "Suc ph"] Suc.prems in \<open>auto simp: list_update_append Option.bind_map_option comp_def case_prod_unfold map_option_case split: option.splits\<close>)
qed simp

lemma resolve_batch_length: "resolve_batch n ph m w = Some (es, m', w') \<Longrightarrow> length m' = length m \<and> length es = n"
proof (induction n arbitrary: ph m w es)
  case (Suc n)
  then show ?case by (fastforce simp: bind_eq_Some_conv split: if_splits)
qed simp

section \<open>Operations\<close>

lemma apply_op_append:
  assumes "op_within (length m) op"
  shows "apply_op op (m @ r) w = map_option (\<lambda>(m', w'). (m' @ r, w')) (apply_op op m w)"
proof (cases op)
  case (CreateEntity e p)
  show ?thesis
  proof (cases "eid_is_deferred e")
    case True
    then have "unat (index e) < length m" using assms by (simp add: CreateEntity eid_within_def)
    then show ?thesis using True
      by (cases "reserve_entity_slot w")
        (auto simp: CreateEntity apply_create_def list_update_append map_option_case split: option.splits Option.bind_splits)
  next
    case False
    then show ?thesis
      by (auto simp: CreateEntity apply_create_def map_option_case split: option.splits Option.bind_splits)
  qed
next
  case (CreateEntitiesBulk e p)
  show ?thesis
  proof (cases "eid_is_deferred e")
    case True
    then have "unat (index e) + unat (bulk_count p) \<le> length m" using assms by (simp add: CreateEntitiesBulk)
    note b = resolve_batch_append [OF this, of r w]
    show ?thesis using True
      by (cases "resolve_batch (unat (bulk_count p)) (unat (index e)) m w")
        (auto simp: CreateEntitiesBulk apply_bulk_def b map_option_case split: option.splits Option.bind_splits)
  next
    case False
    then show ?thesis by (auto simp: CreateEntitiesBulk apply_bulk_def map_option_case split: option.splits Option.bind_splits)
  qed
qed (use assms in \<open>simp_all add: resolve_left option.map_comp comp_def\<close>)

lemma apply_op_shift:
  assumes "op_within (length m) op" "length l = unat base" "length l + length m \<le> 2 ^ 32"
  shows "apply_op (rebase_op base op) (l @ m) w = map_option (\<lambda>(m', w'). (l @ m', w')) (apply_op op m w)"
proof (cases op)
  case (CreateEntity e p)
  show ?thesis
  proof (cases "eid_is_deferred e")
    case True
    then have b: "unat (index e) < length m" using assms by (simp add: CreateEntity eid_within_def)
    then have "unat (index (rebase_eid base e)) = length l + unat (index e)"
      using True assms rebase_index [of e base] by (simp add: rebase_eid_def)
    then show ?thesis using True b
      by (cases "reserve_entity_slot w")
        (auto simp: CreateEntity apply_create_def list_update_append map_option_case split: option.splits Option.bind_splits)
  next
    case False
    then have "rebase_eid base e = e" by (simp add: rebase_eid_def)
    then show ?thesis using False
      by (auto simp: CreateEntity apply_create_def map_option_case split: option.splits Option.bind_splits)
  qed
next
  case (CreateEntitiesBulk e p)
  show ?thesis
  proof (cases "eid_is_deferred e \<and> bulk_count p \<noteq> 0")
    case True
    then have d: "eid_is_deferred e" and bd: "unat (index e) + unat (bulk_count p) \<le> length m" "0 < unat (bulk_count p)"
      using assms by (auto simp: CreateEntitiesBulk unat_gt_0)
    then have i: "unat (index (rebase_eid base e)) = length l + unat (index e)"
      using True assms rebase_index [of e base] by (simp add: rebase_eid_def)
    note b = resolve_batch_shift [OF bd(1), of l w]
    show ?thesis using d
      by (cases "resolve_batch (unat (bulk_count p)) (unat (index e)) m w")
        (auto simp: CreateEntitiesBulk apply_bulk_def i b map_option_case split: option.splits Option.bind_splits)
  next
    case False
    then consider "\<not> eid_is_deferred e" | "eid_is_deferred e" "bulk_count p = 0" by blast
    then show ?thesis
    proof cases
      case 1
      then have "rebase_eid base e = e" by (simp add: rebase_eid_def)
      then show ?thesis using 1 by (auto simp: CreateEntitiesBulk apply_bulk_def map_option_case split: option.splits Option.bind_splits)
    next
      case 2
      then show ?thesis by (auto simp: CreateEntitiesBulk apply_bulk_def map_option_case split: option.splits Option.bind_splits)
    qed
  qed
qed (use assms in \<open>simp_all add: resolve_shift option.map_comp comp_def\<close>)

lemma apply_op_length: "apply_op op m w = Some (m', w') \<Longrightarrow> length m' = length m"
  by (cases op) (auto simp: apply_create_def apply_bulk_def bind_eq_Some_conv dest: resolve_batch_length split: if_splits)

section \<open>Lists of operations\<close>

lemma apply_ops_concat:
  "apply_ops (xs @ ys) m w = Option.bind (apply_ops xs m w) (\<lambda>(m', w'). apply_ops ys m' w')"
  by (induction xs arbitrary: m w) (simp_all add: case_prod_unfold)

lemma apply_ops_append:
  assumes "\<forall>op \<in> set xs. op_within (length m) op"
  shows "apply_ops xs (m @ r) w = map_option (\<lambda>(m', w'). (m' @ r, w')) (apply_ops xs m w)"
  using assms
proof (induction xs arbitrary: m w)
  case (Cons op xs)
  show ?case
  proof (cases "apply_op op m w")
    case None
    then show ?thesis using apply_op_append [of m op r w] Cons.prems by simp
  next
    case (Some mw)
    obtain m' w' where mw: "mw = (m', w')" by fastforce
    have "length m' = length m" using apply_op_length Some mw by blast
    then show ?thesis using apply_op_append [of m op r w] Cons Some mw by simp
  qed
qed simp

lemma apply_ops_shift:
  assumes "\<forall>op \<in> set xs. op_within (length m) op" "length l = unat base" "length l + length m \<le> 2 ^ 32"
  shows "apply_ops (map (rebase_op base) xs) (l @ m) w = map_option (\<lambda>(m', w'). (l @ m', w')) (apply_ops xs m w)"
  using assms
proof (induction xs arbitrary: m w)
  case (Cons op xs)
  show ?case
  proof (cases "apply_op op m w")
    case None
    then show ?thesis using apply_op_shift [of m op l base w] Cons.prems by simp
  next
    case (Some mw)
    obtain m' w' where mw: "mw = (m', w')" by fastforce
    have "length m' = length m" using apply_op_length Some mw by blast
    then show ?thesis using apply_op_shift [of m op l base w] Cons Some mw by simp
  qed
qed simp

lemma apply_ops_length: "apply_ops xs m w = Some (m', w') \<Longrightarrow> length m' = length m"
  by (induction xs arbitrary: m w) (auto simp: bind_eq_Some_conv dest!: apply_op_length)

lemma merge_ops:
  "buffer_ops (fst (merge_from a b)) = buffer_ops a @ map (rebase_op (deferred_count a)) (buffer_ops b)"
  "deferred_count (fst (merge_from a b)) = deferred_count a + deferred_count b"
  by (simp_all add: merge_from_def)

lemma merged_apply:
  assumes "recorded_ok a" "recorded_ok b" "unat (deferred_count a) + unat (deferred_count b) < 2 ^ 32"
  shows "map_option snd (apply_buffer (fst (merge_from a b)) w) =
    Option.bind (apply_buffer a w) (\<lambda>(a', w'). map_option snd (apply_buffer b w'))"
proof -
  let ?ma = "replicate (unat (deferred_count a)) INVALID_ENTITY_ID" and ?mb = "replicate (unat (deferred_count b)) INVALID_ENTITY_ID"
  have n: "unat (deferred_count a + deferred_count b) = unat (deferred_count a) + unat (deferred_count b)"
    using assms(3) by (simp add: unat_word_ariths)
  have ra: "replicate (unat (deferred_count a + deferred_count b)) INVALID_ENTITY_ID = ?ma @ ?mb" by (simp add: n replicate_add)
  have first: "apply_ops (buffer_ops a) (?ma @ ?mb) w = map_option (\<lambda>(m', w'). (m' @ ?mb, w')) (apply_ops (buffer_ops a) ?ma w)"
    by (rule apply_ops_append) (use assms(1) in \<open>simp add: recorded_ok_def\<close>)
  show ?thesis
  proof (cases "apply_ops (buffer_ops a) ?ma w")
    case None
    then show ?thesis using first by (simp add: apply_buffer_def merge_ops ra apply_ops_concat)
  next
    case (Some mw)
    obtain m' w' where mw: "mw = (m', w')" by fastforce
    have "length m' = unat (deferred_count a)" using apply_ops_length Some mw by fastforce
    then have "apply_ops (map (rebase_op (deferred_count a)) (buffer_ops b)) (m' @ ?mb) w' =
        map_option (\<lambda>(m2, w2). (m' @ m2, w2)) (apply_ops (buffer_ops b) ?mb w')"
      by (intro apply_ops_shift) (use assms(2,3) in \<open>simp_all add: recorded_ok_def\<close>)
    then show ?thesis using first Some mw
      by (cases "apply_ops (buffer_ops b) ?mb w'") (auto simp: apply_buffer_def merge_ops ra apply_ops_concat)
  qed
qed

section \<open>Recorded buffers\<close>

lemma eid_within_mono: "eid_within m e \<Longrightarrow> m \<le> n \<Longrightarrow> eid_within n e"
  by (auto simp: eid_within_def)

lemma op_within_mono: "op_within m op \<Longrightarrow> m \<le> n \<Longrightarrow> op_within n op"
  by (cases op) (auto intro: eid_within_mono)

lemma recorded_push:
  "recorded_ok cb \<Longrightarrow> op_within (unat (deferred_count cb)) op \<Longrightarrow> recorded_ok (push_op op cb)"
  by (auto simp: recorded_ok_def push_op_def)

lemma recorded_more:
  "recorded_ok cb \<Longrightarrow> deferred_count cb \<le> n \<Longrightarrow> recorded_ok (cb\<lparr>deferred_count := n\<rparr>)"
  by (auto simp: recorded_ok_def word_le_nat_alt intro: op_within_mono)

text \<open>
  Buffers as systems fill them: the components come from \<open>C\<close>, those of one creation are distinct, an
  identifier given to an operation is a real one or a placeholder this buffer handed out, and fewer
  than \<open>2^32\<close> placeholders are handed out.  \<open>spans\<close> has one span for every component with data.
\<close>

definition spans_match :: "vtables_of \<Rightarrow> component_type_id_t list \<Rightarrow> 'v list list option \<Rightarrow> bool" where
  "spans_match vt ids spans \<longleftrightarrow> (case spans of None \<Rightarrow> True | Some ss \<Rightarrow> length ss = length (filter (\<lambda>c. vt_size (vt c) \<noteq> 0) ids))"

inductive recorded :: "vtables_of \<Rightarrow> (component_type_id_t \<Rightarrow> 'v) \<Rightarrow> component_type_id_t set \<Rightarrow> 'v CommandBuffer \<Rightarrow> bool"
  for vt :: vtables_of and dflt :: "component_type_id_t \<Rightarrow> 'v" and C :: "component_type_id_t set" where
  recorded_empty: "recorded vt dflt C empty_buffer"
| recorded_mode: "recorded vt dflt C cb \<Longrightarrow> recorded vt dflt C (set_parallel_mode b cb)"
| recorded_create: "recorded vt dflt C cb \<Longrightarrow> unat (deferred_count cb) + 1 < 2 ^ 32 \<Longrightarrow>
    distinct (map fst comps) \<Longrightarrow> fst ` set comps \<subseteq> C \<Longrightarrow>
    record_create_entity vt immut comps cb w = Some (e, cb', w') \<Longrightarrow> eid_is_deferred e \<longrightarrow> parallel_mode cb \<Longrightarrow> recorded vt dflt C cb'"
| recorded_batch: "recorded vt dflt C cb \<Longrightarrow> unat (deferred_count cb) + n < 2 ^ 32 \<Longrightarrow>
    distinct ids \<Longrightarrow> set ids \<subseteq> C \<Longrightarrow> spans_match vt ids spans \<Longrightarrow> table_inv w \<Longrightarrow> length (entity_slots w) + n \<le> 2 ^ 32 \<Longrightarrow>
    record_create_entities vt dflt immut ids spans n out cb w = Some (ok, es, cb', w') \<Longrightarrow> recorded vt dflt C cb'"
| recorded_destroy: "recorded vt dflt C cb \<Longrightarrow> eid_within (unat (deferred_count cb)) e \<Longrightarrow> recorded vt dflt C (record_destroy_entity e cb)"
| recorded_add: "recorded vt dflt C cb \<Longrightarrow> eid_within (unat (deferred_count cb)) e \<Longrightarrow> c \<in> C \<Longrightarrow>
    recorded vt dflt C (record_add_component vt c v e cb)"
| recorded_default: "recorded vt dflt C cb \<Longrightarrow> eid_within (unat (deferred_count cb)) e \<Longrightarrow> c \<in> C \<Longrightarrow>
    recorded vt dflt C (record_add_default vt dflt c e cb)"
| recorded_remove: "recorded vt dflt C cb \<Longrightarrow> eid_within (unat (deferred_count cb)) e \<Longrightarrow> recorded vt dflt C (record_remove_component c e cb)"
| recorded_clear: "recorded vt dflt C cb \<Longrightarrow> recorded vt dflt C (clear_buffer cb)"
| recorded_apply: "recorded vt dflt C cb \<Longrightarrow> apply_buffer cb w = Some (cb', w') \<Longrightarrow> recorded vt dflt C cb'"
| recorded_merge: "recorded vt dflt C a \<Longrightarrow> recorded vt dflt C b \<Longrightarrow> unat (deferred_count a) + unat (deferred_count b) < 2 ^ 32 \<Longrightarrow>
    recorded vt dflt C (fst (merge_from a b))"
| recorded_merged: "recorded vt dflt C b \<Longrightarrow> recorded vt dflt C (snd (merge_from a b))"

lemma invalid_not_deferred: "\<not> eid_is_deferred INVALID_ENTITY_ID"
  by (simp add: eid_is_deferred_def INVALID_ENTITY_ID_def)

lemma recorded_ok_create:
  assumes "recorded_ok cb" "unat (deferred_count cb) + 1 < 2 ^ 32"
    "record_create_entity vt immut comps cb w = Some (e, cb', w')" "eid_is_deferred e \<longrightarrow> parallel_mode cb"
  shows "recorded_ok cb'"
proof -
  have u: "unat (deferred_count cb + 1) = unat (deferred_count cb) + 1"
    using assms(2) by (simp add: unat_word_ariths)
  show ?thesis
  proof (cases "parallel_mode cb")
    case True
    then obtain p where p: "e = \<lparr>index = deferred_count cb, generation = DEFERRED_GENERATION_BIT\<rparr>"
      "cb' = push_op (CreateEntity e p) (cb\<lparr>deferred_count := deferred_count cb + 1\<rparr>)"
      using assms(3) by (auto simp: record_create_entity_def record_eid_def Let_def)
    have "recorded_ok (cb\<lparr>deferred_count := deferred_count cb + 1\<rparr>)"
      by (rule recorded_more [OF assms(1)]) (simp add: word_le_nat_alt u)
    then show ?thesis unfolding p(2) by (rule recorded_push) (simp add: p(1) eid_within_def u)
  next
    case False
    then obtain p where "cb' = push_op (CreateEntity e p) cb" "\<not> eid_is_deferred e"
      using assms(3,4) by (auto simp: record_create_entity_def record_eid_def Let_def bind_eq_Some_conv)
    then show ?thesis using recorded_push [OF assms(1)] by (simp add: eid_within_def)
  qed
qed

lemma recorded_ok_batch:
  assumes "recorded_ok cb" "unat (deferred_count cb) + n < 2 ^ 32"
    "record_create_entities vt dflt immut ids spans n out cb w = Some (ok, es, cb', w')"
  shows "recorded_ok cb'"
proof -
  have un: "unat (of_nat n :: u32) = n" using assms(2) by (simp add: unat_of_nat)
  then have u: "unat (deferred_count cb + of_nat n) = unat (deferred_count cb) + n"
    using assms(2) by (simp add: unat_word_ariths)
  have "cb' = cb \<or> (\<exists>p. cb' = push_op (CreateEntitiesBulk \<lparr>index = deferred_count cb, generation = DEFERRED_GENERATION_BIT\<rparr> p)
        (cb\<lparr>deferred_count := deferred_count cb + of_nat n\<rparr>) \<and> bulk_count p = of_nat n)
    \<or> (\<exists>p. cb' = push_op (CreateEntitiesBulk INVALID_ENTITY_ID p) cb)"
    using assms(3)
    by (simp add: record_create_entities_def Let_def bind_eq_Some_conv split: if_splits) (rule disjI2 disjI1, fastforce)+
  then consider "cb' = cb"
    | p where "cb' = push_op (CreateEntitiesBulk \<lparr>index = deferred_count cb, generation = DEFERRED_GENERATION_BIT\<rparr> p)
        (cb\<lparr>deferred_count := deferred_count cb + of_nat n\<rparr>)" "bulk_count p = of_nat n"
    | p where "cb' = push_op (CreateEntitiesBulk INVALID_ENTITY_ID p) cb" by blast
  then show ?thesis
  proof cases
    case 2
    have "recorded_ok (cb\<lparr>deferred_count := deferred_count cb + of_nat n\<rparr>)"
      by (rule recorded_more [OF assms(1)]) (simp add: word_le_nat_alt u)
    then show ?thesis unfolding 2(1) by (rule recorded_push) (simp add: 2(2) u un)
  next
    case 3
    then show ?thesis using recorded_push [OF assms(1)] invalid_not_deferred by simp
  qed (use assms(1) in simp)
qed

lemma rebase_within:
  assumes "op_within n op" "unat base + n < 2 ^ 32"
  shows "op_within (unat base + n) (rebase_op base op)"
proof -
  have i: "unat (index (rebase_eid base e)) = unat base + unat (index e)" if "eid_is_deferred e" "unat (index e) \<le> n" for e
    using that assms(2) rebase_index [of e base] by (simp add: rebase_eid_def)
  have e: "eid_within (unat base + n) (rebase_eid base e)" if "eid_within n e" for e
    using that i [of e] by (auto simp: eid_within_def)
  show ?thesis
  proof (cases op)
    case (CreateEntitiesBulk e p)
    then show ?thesis using assms(1) i [of e] by auto
  qed (use assms(1) e in auto)
qed

lemma recorded_ok_merge:
  assumes "recorded_ok a" "recorded_ok b" "unat (deferred_count a) + unat (deferred_count b) < 2 ^ 32"
  shows "recorded_ok (fst (merge_from a b))"
proof -
  have n: "unat (deferred_count a + deferred_count b) = unat (deferred_count a) + unat (deferred_count b)"
    using assms(3) by (simp add: unat_word_ariths)
  show ?thesis
    using assms unfolding recorded_ok_def merge_ops n
    by (auto intro: op_within_mono rebase_within)
qed

lemma recorded_is_ok: "recorded vt dflt C cb \<Longrightarrow> recorded_ok cb"
proof (induction rule: recorded.induct)
  case recorded_empty
  show ?case by (simp add: recorded_ok_def empty_buffer_def)
next
  case (recorded_mode cb b)
  then show ?case by (simp add: recorded_ok_def set_parallel_mode_def)
next
  case (recorded_create cb comps immut w e cb' w')
  show ?case by (rule recorded_ok_create [OF recorded_create.IH recorded_create.hyps(2,5,6)])
next
  case (recorded_batch cb n ids spans w immut out ok es cb' w')
  show ?case by (rule recorded_ok_batch [OF recorded_batch.IH recorded_batch.hyps(2,8)])
next
  case (recorded_clear cb)
  show ?case by (simp add: recorded_ok_def clear_buffer_def)
next
  case (recorded_apply cb w cb' w')
  then show ?case by (auto simp: recorded_ok_def apply_buffer_def bind_eq_Some_conv)
next
  case (recorded_merge a b)
  then show ?case using recorded_ok_merge by blast
next
  case (recorded_merged b a)
  then show ?case by (auto simp: recorded_ok_def merge_from_def)
qed (auto simp: record_destroy_entity_def record_add_component_def record_add_default_def record_remove_component_def intro: recorded_push)

end
