(* ===== verification/Command_Immediate.thy ===== *)
theory Command_Immediate
  imports Command_Merge Bulk_Properties
begin

text \<open>
  Applying a recorded operation compared with the immediate operation of the World.
\<close>

section \<open>Adding and removing\<close>

lemma generation_valid:
  assumes "world_inv vt w" "slot_at w (index e) = Some s" "slot_generation s = generation e"
  shows "eid_is_valid e" "\<not> eid_is_deferred e"
proof -
  have "s \<in> set (entity_slots w)" using assms(2) by (simp add: slot_at_iff)
  then have "generation_ok (generation e)" using assms(1,3) by (force simp: world_inv_iff table_inv_def)
  then show "eid_is_valid e" "\<not> eid_is_deferred e"
    unfolding eid_is_valid_def eid_is_deferred_def deferred_iff generation_ok_def by auto
qed

text \<open>The guards of a deferred operation let it reach exactly the live, mutable entities.\<close>

lemma deferred_gate:
  assumes "world_inv vt w"
  shows "(if \<not> eid_is_valid e \<or> eid_is_deferred e then x
      else case slot_at w (index e) of None \<Rightarrow> x
        | Some slot \<Rightarrow> if \<not> alive slot \<or> slot_generation slot \<noteq> generation e then x
            else if archetype_index slot = INVALID_ARCHETYPE then x else if immutable slot then x else f slot) =
    (if \<not> eid_is_alive w e then x else if is_immutable w e then x else f (the (slot_at w (index e))))"
  using generation_valid [OF assms] by (auto simp: eid_is_alive_def is_immutable_def split: option.splits)

lemma apply_remove_immediate:
  assumes "world_inv vt w" "\<not> in_tick_or_log w"
  shows "apply_remove e c w = map_option snd (remove_component c e w)"
proof -
  define f where "f (slot :: EntitySlot) = do {
                 src \<leftarrow> arch_at w (archetype_index slot);
                 (case column_index_for src c of
                    None \<Rightarrow> Some w
                  | Some col \<Rightarrow>
                      if length (signature src) = 1 then Some w
                      else do {
                        (_, w) \<leftarrow> migrate_entity e (drop_id c (signature src) (vtables src)) None (Some col) w;
                        Some w }) }" for slot
  have l: "apply_remove e c w = (if \<not> eid_is_alive w e then Some w else if is_immutable w e then Some w else f (the (slot_at w (index e))))"
    unfolding apply_remove_def f_def by (rule deferred_gate [OF assms(1)])
  show ?thesis
  proof (cases "eid_is_alive w e \<and> \<not> is_immutable w e")
    case True
    then obtain s where s: "slot_at w (index e) = Some s" by (auto simp: eid_is_alive_def split: if_splits option.splits)
    show ?thesis unfolding l using True assms(2) s
      by (auto simp: remove_component_def f_def map_option_case split: option.splits Option.bind_splits)
  next
    case False
    then show ?thesis unfolding l using assms(2) by (auto simp: remove_component_def)
  qed
qed

lemma forget_replace:
  assumes "unat ai < length (archetypes w)"
  shows "map_option forget_versions (replace_cell (ai, l, col) (Some v) w) = map_option forget_versions (store_cell (ai, l, col) v w)"
proof (cases "with_cells l (assign_cell col v) (archetypes w ! unat ai)")
  case (Some a)
  have "forget_arch (a\<lparr>column_versions := (column_versions a)[col := n]\<rparr>) = forget_arch a" for n by (rule forget_arch_versions) simp
  then show ?thesis using Some assms
    by (simp add: replace_cell_def store_cell_def forget_versions_def set_arch_def map_update arch_at_def arr_get_uint)
qed (use assms in \<open>simp add: replace_cell_def store_cell_def arch_at_def arr_get_uint\<close>)

definition add_payload_ok :: "vtables_of \<Rightarrow> 'v AddPayload \<Rightarrow> bool" where
  "add_payload_ok vt p \<longleftrightarrow> add_vtable p = vt (add_id p) \<and> (add_value p = None \<longleftrightarrow> vt_size (vt (add_id p)) = 0)"

lemma apply_add_immediate:
  assumes inv: "world_inv vt w" and nt: "\<not> in_tick_or_log w" and p: "add_payload_ok vt p" "vt_size (vt (add_id p)) \<noteq> 0 \<longrightarrow> add_value p = Some v"
    and room: "has_room w" and fits: "\<And>m. entity_view w e = Some m \<Longrightarrow> can_hold vt (insert (add_id p) (dom m))"
  shows "map_option forget_versions (apply_add e p w) =
    map_option (\<lambda>(_, w). forget_versions w) (add_component vt (add_id p) v e w)"
proof -
  define f where "f (slot :: EntitySlot) = do {
                 src \<leftarrow> arch_at w (archetype_index slot);
                 (case column_index_for src (add_id p) of
                    Some col \<Rightarrow>
                      if column_offsets src ! col \<noteq> NO_COLUMN_OFFSET
                      then replace_cell (archetype_index slot, slot_loc slot, col) (add_value p) w
                      else Some w
                  | None \<Rightarrow> do {
                      v \<leftarrow> (if vt_size (add_vtable p) = 0 then Some None else map_option Some (add_value p));
                      (_, w) \<leftarrow> migrate_entity e (insert_id (add_id p) (add_vtable p) (signature src) (vtables src))
                         (Some (add_id p, v)) None w;
                      Some w }) }" for slot
  have l: "apply_add e p w = (if \<not> eid_is_alive w e then Some w else if is_immutable w e then Some w else f (the (slot_at w (index e))))"
    unfolding apply_add_def f_def by (rule deferred_gate [OF inv])
  show ?thesis
  proof (cases "eid_is_alive w e \<and> \<not> is_immutable w e")
    case True
    then obtain m where m: "entity_view w e = Some m" using alive_has_view [OF inv] by blast
    obtain s where s: "slot_at w (index e) = Some s" "arch_at w (archetype_index s) = Some (archetypes w ! unat (archetype_index s))"
      "unat (archetype_index s) < length (archetypes w)" "arch_wf vt (archetypes w ! unat (archetype_index s))"
      by (rule located [OF inv m])
    let ?a = "archetypes w ! unat (archetype_index s)"
    show ?thesis
    proof (cases "column_index_for ?a (add_id p)")
      case None
      obtain c w' where a: "add_component vt (add_id p) v e w = Some (c, w')"
        using add_total [OF inv room fits, of e v] by blast
      define pl where "pl = Some (add_id p, if vt_size (vt (add_id p)) = 0 then None else Some v)"
      have "add_component vt (add_id p) v e w = do {
             ((ti, l), w) \<leftarrow> migrate_entity e (insert_id (add_id p) (vt (add_id p)) (signature ?a) (vtables ?a)) pl None w;
             t \<leftarrow> arch_at w ti;
             col \<leftarrow> column_index_for t (add_id p);
             Some (if vt_size (vt (add_id p)) = 0 then None else Some (ti, l, col), w) }"
        using True nt s(1,2) None by (simp add: add_component_def pl_def)
      then obtain x where "migrate_entity e (insert_id (add_id p) (vt (add_id p)) (signature ?a) (vtables ?a)) pl None w = Some (x, w')"
        unfolding a by (auto simp: bind_eq_Some_conv dest!: sym [of "Some _"])
      moreover have "f s = do { (_, w) \<leftarrow> migrate_entity e (insert_id (add_id p) (vt (add_id p)) (signature ?a) (vtables ?a)) pl None w; Some w }"
        using s(2) None p by (cases "vt_size (vt (add_id p)) = 0") (simp_all add: f_def pl_def add_payload_ok_def)
      ultimately show ?thesis unfolding l using True a s(1) by simp
    next
      case (Some col)
      have col: "col < length (signature ?a)" "signature ?a ! col = add_id p"
        using Some s(4) column_index_iff [of ?a] by (auto simp: arch_wf_def strict_sorted_iff)
      have "(column_offsets ?a ! col = NO_COLUMN_OFFSET) = (vt_size (vt (add_id p)) = 0)"
        using s(4) col unfolding arch_wf_def by (metis (mono_tags, lifting) length_map nth_map)
      moreover have "add_value p = (if vt_size (vt (add_id p)) = 0 then None else Some v)" using p by (auto simp: add_payload_ok_def)
      ultimately show ?thesis unfolding l using True nt s(1,2) forget_replace [OF s(3), of "slot_loc s" col v] Some
        by (cases "vt_size (vt (add_id p)) = 0") (auto simp: add_component_def f_def Option.map_conv_bind_option comp_def)
    qed
  next
    case False
    then show ?thesis unfolding l using nt by (auto simp: add_component_def)
  qed
qed

section \<open>Creating\<close>

definition with_slots :: "EntitySlot list \<Rightarrow> u32 \<Rightarrow> bool \<Rightarrow> 'v World \<Rightarrow> 'v World" where
  "with_slots S f h w = w\<lparr>entity_slots := S, first_free := f, has_free := h\<rparr>"

lemma with_slots_fields [simp]:
  "entity_slots (with_slots S f h w) = S" "archetypes (with_slots S f h w) = archetypes w"
  "chunk_pool (with_slots S f h w) = chunk_pool w" "set_slot i s (with_slots S f h w) = with_slots (S[unat i := s]) f h w"
  "(set_arch ai a (with_slots S f h w))\<lparr>chunk_pool := q\<rparr> = with_slots S f h ((set_arch ai a w)\<lparr>chunk_pool := q\<rparr>)"
  by (simp_all add: with_slots_def set_slot_def set_arch_def)

lemma allocate_with_slots:
  assumes "allocate_entity_slot w = Some (e, w')" "has_free w \<or> length (entity_slots w) < 2 ^ 32"
  obtains S f h s where "w' = with_slots S f h w" "unat (index e) < length S" "S ! unat (index e) = s" "\<not> immutable s"
    "alive s" "slot_generation s = generation e"
    "\<And>v :: 'v World. entity_slots v = entity_slots w \<Longrightarrow> first_free v = first_free w \<Longrightarrow> has_free v = has_free w \<Longrightarrow>
      allocate_entity_slot v = Some (e, with_slots S f h v)"
proof -
  define S where "S = entity_slots w'"
  define f where "f = first_free w'"
  define h where "h = has_free w'"
  have "w' = with_slots S f h w"
    using assms by (auto simp: allocate_entity_slot_def with_slots_def S_def f_def h_def set_slot_def Let_def bind_eq_Some_conv split: if_splits)
  moreover have "unat (index e) < length S \<and> \<not> immutable (S ! unat (index e)) \<and> alive (S ! unat (index e))
      \<and> slot_generation (S ! unat (index e)) = generation e"
    using assms
    by (auto simp: allocate_entity_slot_def S_def set_slot_def slot_at_iff Let_def bind_eq_Some_conv unat_of_nat nth_append default_slot_def split: if_splits)
  moreover have "allocate_entity_slot v = Some (e, with_slots S f h v)"
    if "entity_slots v = entity_slots w" "first_free v = first_free w" "has_free v = has_free w" for v :: "'v World"
    using assms that
    by (auto simp: allocate_entity_slot_def with_slots_def S_def f_def h_def set_slot_def slot_at_def Let_def bind_eq_Some_conv split: if_splits)
  ultimately show thesis using that by blast
qed

lemma find_with_slots:
  assumes "find_or_create_archetype sig vts w = (ai, w1)"
  shows "find_or_create_archetype sig vts (with_slots S f h w) = (ai, with_slots S f h w1)"
  using assms by (auto simp: find_or_create_archetype_def with_slots_def Let_def split: option.splits)

lemma create_is_deferred:
  fixes w :: "'v World"
  assumes inv: "world_inv vt w" and nt: "\<not> in_tick_or_log w" and room: "has_room w"
    and comps: "distinct (map fst comps)" "can_hold vt (fst ` set comps)"
  defines "srt \<equiv> exchange_sort (map (\<lambda>(c, v). (c, vt c)) comps)"
  shows "\<exists>e w1 w2 w3. create_entity_impl vt immut comps w = Some (e, w3) \<and> reserve_entity_slot w = Some (e, w1) \<and> \<not> eid_is_deferred e
    \<and> finalize_reserved_entity e (map fst srt) (map snd srt) (staged_values vt comps (map fst srt)) w1 = Some w2
    \<and> stamp_applied immut e w2 = w3"
proof -
  define sig where "sig = map fst srt"
  note sg = exchange_sort_signature [OF comps(1), of vt, folded srt_def, folded sig_def]
  have fits: "sig_fits vt sig" using can_hold_list [of vt sig] comps(2) sg(1,3) by (simp add: strict_sorted_iff)
  have iv: "archs_inv vt w" "table_inv w" using inv by (simp_all add: world_inv_iff)
  have rm: "length (archetypes w) + 1 < 2 ^ 32" using room by (simp add: has_room_def)
  obtain ai u where foc: "find_or_create_archetype sig (map vt sig) w = (ai, u)" by fastforce
  note fc = find_or_create [OF iv(1) fits sg(1) rm foc]
  obtain e wa where al: "allocate_entity_slot w = Some (e, wa)" using allocate_some [OF iv(2)] room unfolding has_room_def by blast
  obtain S f h s where S: "wa = with_slots S f h w" "unat (index e) < length S" "S ! unat (index e) = s" "\<not> immutable s"
    "alive s" "slot_generation s = generation e" "allocate_entity_slot u = Some (e, with_slots S f h u)"
    using allocate_with_slots [OF al] room fc(7,9,10) unfolding has_room_def by metis
  let ?a = "archetypes u ! unat ai"
  have ok: "arch_ok ?a" and ar: "unat ai < length (archetypes u)" and sga: "signature ?a = sig"
    using fc(1,2,3) by (auto simp: archs_inv_def arch_wf_def)
  obtain l b q where rr: "reserve_row ?a (chunk_pool u) = (l, b, q)" by (metis prod_cases3)
  have sgb: "signature b = sig" using reserve_row_spec(3) [OF ok rr] sga by (simp add: same_shape_def)
  define cs where "cs = staged_values vt comps sig"
  have live: "cells_live vt sig cs" using staged_live [of sig comps vt] sg(3) by (simp add: cs_def)
  have pc: "place_cells vt x comps (replicate (length sig) None) = Some cs" if "signature x = sig" for x :: "'v Archetype"
    using place_cells_fresh [of x comps vt] that comps(1) sg(1,3) by (simp add: strict_sorted_iff cs_def)
  let ?u = "(set_arch ai (set_row l \<lparr>row_entity = Some e, row_cells = cs\<rparr> b) u)\<lparr>chunk_pool := q\<rparr>"
  have ins: "insert_into e ai g (with_slots T f h u) = Some (l, with_slots T f h ?u)"
    if "g b (replicate (length sig) None) = Some cs" "\<And>x. g (set_row l x b) = g b" for g T
    using insert_reserved [of ai "with_slots T f h u" l b q g cs e] that ok ar rr sga by simp
  have i1: "insert_into e ai (\<lambda>a. place_cells vt a comps) (with_slots S f h u) = Some (l, with_slots S f h ?u)"
    by (rule ins) (simp_all add: pc sgb, rule place_cells_cong, simp)
  define s1 where "s1 = s\<lparr>archetype_index := INVALID_ARCHETYPE, chunk_index := 0, row := 0\<rparr>"
  define s2 where "s2 = s\<lparr>archetype_index := ai, chunk_index := of_nat (loc_chunk l), row := of_nat (loc_row l)\<rparr>"
  let ?S = "S[unat (index e) := s1]"
  have i2: "insert_into e ai (\<lambda>_. fill_cells (map vt sig) cs) (with_slots ?S f h u) = Some (l, with_slots ?S f h ?u)"
    by (rule ins) (simp_all add: fill_cells_live [OF live])
  have at: "slot_at (with_slots T f h v) (index e) = Some (T ! unat (index e))" if "length T = length S" for T and v :: "'v World"
    using that S(2) by (simp add: slot_at_iff)
  have res: "reserve_entity_slot w = Some (e, with_slots ?S f h w)"
    using al at [of S w] S by (simp add: reserve_entity_slot_def s1_def)
  have nd: "\<not> eid_is_deferred e"
    using unlocated_fresh(5) [OF iv(2) _ al] room by (auto simp: has_room_def eid_is_deferred_def deferred_iff generation_ok_def)
  have fin: "finalize_reserved_entity e sig (map vt sig) cs (with_slots ?S f h w) = Some (with_slots (S[unat (index e) := s2]) f h ?u)"
    using find_with_slots [OF foc, of ?S f h] at [of ?S] S(2,3,5,6)
    by (simp add: finalize_reserved_entity_def s1_def [symmetric] place_slot_def i2) (simp add: s1_def s2_def)
  have create: "create_entity_impl vt immut comps w = Some (e, with_slots (S[unat (index e) := s2\<lparr>immutable := immut\<rparr>]) f h ?u)"
    using nt foc S(2,3,7) i1 at [of S] at [of "S[unat (index e) := s2]"] sg(2)
    by (simp add: create_entity_impl_def srt_def [symmetric] sig_def [symmetric] place_slot_def stamp_immutable_def s2_def)
  have "s2\<lparr>immutable := False\<rparr> = s2" using S(4) by (simp add: s2_def)
  then have "stamp_applied immut e (with_slots (S[unat (index e) := s2]) f h ?u) =
      with_slots (S[unat (index e) := s2\<lparr>immutable := immut\<rparr>]) f h ?u"
    using at [of "S[unat (index e) := s2]"] S(2) by (cases immut) (simp_all add: stamp_applied_def)
  then show ?thesis using create res nd fin sg(2) by (simp add: sig_def [symmetric] cs_def)
qed

end
