(* ===== verification/Command_Safety.thy ===== *)
theory Command_Safety
  imports Command_Immediate
begin

text \<open>
  The type invariant of recorded buffers, and that applying them never faults and keeps the
  invariant of the World.
\<close>

section \<open>Well-typed operations\<close>

fun op_typed :: "vtables_of \<Rightarrow> component_type_id_t set \<Rightarrow> 'v Op \<Rightarrow> bool" where
  "op_typed vt C (CreateEntity e p) \<longleftrightarrow> sorted_wrt (<) (create_sig p) \<and> create_vtables p = map vt (create_sig p)
     \<and> cells_live vt (create_sig p) (create_values p) \<and> set (create_sig p) \<subseteq> C"
| "op_typed vt C (CreateEntitiesBulk e p) \<longleftrightarrow> sorted_wrt (<) (bulk_sig p) \<and> bulk_vtables p = map vt (bulk_sig p)
     \<and> list_all2 (block_ok (unat (bulk_count p))) (map vt (bulk_sig p)) (bulk_columns p) \<and> set (bulk_sig p) \<subseteq> C
     \<and> (\<not> eid_is_deferred e \<longrightarrow> length (reserved_ids p) = unat (bulk_count p) \<and> distinct (map index (reserved_ids p)))"
| "op_typed vt C (DestroyEntity e) \<longleftrightarrow> True"
| "op_typed vt C (AddComponent e p) \<longleftrightarrow> add_payload_ok vt p \<and> add_id p \<in> C"
| "op_typed vt C (RemoveComponent e c) \<longleftrightarrow> True"

lemma typed_rebase: "op_typed vt C (rebase_op base op) = op_typed vt C op"
  by (cases op) simp_all

section \<open>Batches\<close>

lemma spans_have_size_all: "spans_have_size n ss \<longleftrightarrow> (\<forall>s \<in> set ss. s = n)"
  by (induction ss) auto

lemma stage_columns_blocks:
  assumes "stage_columns dflt spans n sig cps blocks = Some out"
    "\<forall>i vs. case_option False (\<lambda>ss. i < length ss \<and> vs = ss ! i) spans \<longrightarrow> length vs = n"
    "length blocks = length sig" "distinct sig" "distinct (map fst cps)"
  shows "length out = length sig \<and> (\<forall>j < length sig. out ! j = blocks ! j \<or> length (out ! j) = n)
    \<and> (\<forall>j < length sig. sig ! j \<notin> fst ` set cps \<longrightarrow> out ! j = blocks ! j)
    \<and> (\<forall>j < length sig. \<forall>pos. (sig ! j, pos) \<in> set cps \<longrightarrow> (if pos = None then out ! j = blocks ! j else length (out ! j) = n))"
  using assms
proof (induction cps arbitrary: blocks)
  case (Cons cp cps)
  obtain c p where cp: "cp = (c, p)" by fastforce
  show ?case
  proof (cases p)
    case None
    have "stage_columns dflt spans n sig cps blocks = Some out" using Cons.prems(1) by (simp add: cp None)
    note ih = Cons.IH [OF this Cons.prems(2-4)]
    have "c \<notin> fst ` set cps" "distinct (map fst cps)" using Cons.prems(5) by (auto simp: cp)
    then show ?thesis using ih by (auto simp: cp None)
  next
    case (Some pos)
    obtain t vs where t: "column_index_loop sig c 0 = Some t" "column_values dflt spans n c pos = Some vs"
      "stage_columns dflt spans n sig cps (blocks[t := vs]) = Some out"
      using Cons.prems(1) by (auto simp: cp Some bind_eq_Some_conv)
    have tc: "t < length sig" "sig ! t = c" using t(1) column_index_loop_iff [OF Cons.prems(4), of c 0 t] by auto
    have vs: "length vs = n" using t(2) Cons.prems(2) by (auto simp: column_values_def arr_get_def split: option.splits if_splits)
    have d: "c \<notin> fst ` set cps" "distinct (map fst cps)" using Cons.prems(5) by (auto simp: cp)
    have ih: "length out = length sig" "\<And>j. j < length sig \<Longrightarrow> out ! j = blocks[t := vs] ! j \<or> length (out ! j) = n"
      "\<And>j. j < length sig \<Longrightarrow> sig ! j \<notin> fst ` set cps \<Longrightarrow> out ! j = blocks[t := vs] ! j"
      "\<And>j pos. j < length sig \<Longrightarrow> (sig ! j, pos) \<in> set cps \<Longrightarrow> (if pos = None then out ! j = blocks[t := vs] ! j else length (out ! j) = n)"
      using Cons.IH [OF t(3) Cons.prems(2) _ Cons.prems(4) d(2)] Cons.prems(3) by auto
    have ot: "out ! t = vs" using ih(3) [OF tc(1)] tc d(1) Cons.prems(3) by simp
    have ne: "t \<noteq> j \<longleftrightarrow> sig ! j \<noteq> c" if "j < length sig" for j
      using that tc Cons.prems(4) by (metis nth_eq_iff_index_eq)
    show ?thesis
    proof (intro conjI allI impI)
      show "length out = length sig" by (rule ih(1))
      fix j assume j: "j < length sig"
      show "out ! j = blocks ! j \<or> length (out ! j) = n" using ih(2) [OF j] ot vs by (cases "t = j") auto
      show "out ! j = blocks ! j" if "sig ! j \<notin> fst ` set (cp # cps)" using ih(3) [OF j] ne [OF j] that by (auto simp: cp)
      show "if q = None then out ! j = blocks ! j else length (out ! j) = n" if "(sig ! j, q) \<in> set (cp # cps)" for q
      proof (cases "sig ! j = c")
        case True
        then have "q = Some pos" using that d(1) by (force simp: cp Some)
        then show ?thesis using ne [OF j] True ot vs by simp
      next
        case False
        then have "(sig ! j, q) \<in> set cps" using that by (simp add: cp)
        then show ?thesis using ih(4) [OF j] ne [OF j] False by auto
      qed
    qed
  qed
qed simp

lemma staged_blocks_ok:
  assumes "stage_columns dflt spans n sig (zip ids (bulk_span_index_map vt ids)) (replicate (length ids) []) = Some out"
    "bulk_create_sizes_ok n m (case spans of None \<Rightarrow> [] | Some ss \<Rightarrow> map length ss)" "spans_match vt ids spans"
    "distinct ids" "distinct sig" "set sig = set ids"
  shows "list_all2 (block_ok n) (map vt sig) out"
proof -
  let ?cps = "zip ids (bulk_span_index_map vt ids)"
  have ln: "length sig = length ids" using assms(4-6) by (metis distinct_card)
  have lc: "length (bulk_span_index_map vt ids) = length ids" by (simp add: bulk_span_index_map_def span_index_loop_spec(1))
  have sz: "\<forall>i vs. case_option False (\<lambda>ss. i < length ss \<and> vs = ss ! i) spans \<longrightarrow> length vs = n"
    using assms(2) by (auto simp: bulk_create_sizes_ok_def spans_have_size_all split: option.splits if_splits)
  have "length (replicate (length ids) ([] :: 'a list)) = length sig" "distinct (map fst ?cps)" using ln lc assms(4) by simp_all
  note sb = stage_columns_blocks [OF assms(1) sz this(1) assms(5) this(2)]
  have b: "length out = length sig" "\<And>j pos. j < length sig \<Longrightarrow> (sig ! j, pos) \<in> set ?cps \<Longrightarrow>
      (if pos = None then out ! j = replicate (length ids) [] ! j else length (out ! j) = n)"
    using sb by blast+
  have "block_ok n (vt (sig ! j)) (out ! j)" if j: "j < length sig" for j
  proof -
    have "sig ! j \<in> set (map fst ?cps)" using nth_mem [OF j] assms(6) lc by (simp only: map_fst_zip)
    then obtain pos where p: "(sig ! j, pos) \<in> set ?cps" by auto
    have "pos = None \<longleftrightarrow> vt_size (vt (sig ! j)) = 0" using span_index_loop_spec(2) p by (fastforce simp: bulk_span_index_map_def)
    then show ?thesis using b(2) [OF j p] j ln by (auto simp: block_ok_def)
  qed
  then show ?thesis using b(1) by (simp add: list_all2_conv_all_nth)
qed

section \<open>Reservations\<close>

text \<open>A reservation gives a fresh slot and lengthens the table by at most one slot.\<close>

lemma reserve_fresh:
  fixes w :: "'v World"
  assumes "table_inv w" "has_free w \<or> length (entity_slots w) < 2 ^ 32" "reserve_entity_slot w = Some (e, w')"
  shows "table_inv w'" "index e \<notin> live_slots w" "live_slots w' = insert (index e) (live_slots w)"
    "length (entity_slots w') \<le> length (entity_slots w) + 1" "archetypes w' = archetypes w" "in_tick_or_log w' = in_tick_or_log w"
    "archetype_by_signature w' = archetype_by_signature w"
proof -
  obtain w1 s where o: "allocate_entity_slot w = Some (e, w1)" "slot_at w1 (index e) = Some s"
    "w' = set_slot (index e) (s\<lparr>archetype_index := INVALID_ARCHETYPE, chunk_index := 0, row := 0\<rparr>) w1"
    using assms(3) by (auto simp: reserve_entity_slot_def bind_eq_Some_conv)
  note al = allocate_slot_alloc [OF assms(2) o(1)]
  have al1: "alive s" using unlocated_fresh(3) [OF assms(1,2) o(1)] o(2) by auto
  have "live_slots w' = live_slots w1" using o(2) al1 by (auto simp: o(3) live_slots_def set_slot_def slot_at_iff nth_list_update)
  then show "index e \<notin> live_slots w" "live_slots w' = insert (index e) (live_slots w)"
    using slots.alloc_fresh [OF assms(1) al] slots.alloc_live [OF assms(1) al] by simp_all
  have "table_inv w1" by (rule table_inv_alloc [OF assms(1) al])
  then show "table_inv w'" unfolding o(3) by (rule table_inv_place [OF _ o(2) al1]) (simp_all add: al1)
  show "length (entity_slots w') \<le> length (entity_slots w) + 1" "archetypes w' = archetypes w" "in_tick_or_log w' = in_tick_or_log w"
    "archetype_by_signature w' = archetype_by_signature w"
    using o(1) by (auto simp: o(3) allocate_entity_slot_def set_slot_def in_tick_or_log_def Let_def bind_eq_Some_conv split: if_splits)
qed

lemma reserve_each_distinct:
  fixes w :: "'v World"
  assumes "reserve_each n w = Some (es, w')" "table_inv w" "length (entity_slots w) + n \<le> 2 ^ 32"
  shows "length es = n \<and> distinct (map index es) \<and> index ` set es \<inter> live_slots w = {}"
  using assms
proof (induction n arbitrary: w es)
  case (Suc n)
  obtain e w1 es1 where o: "reserve_entity_slot w = Some (e, w1)" "reserve_each n w1 = Some (es1, w')" "es = e # es1"
    using Suc.prems(1) by (auto simp: bind_eq_Some_conv)
  have "has_free w \<or> length (entity_slots w) < 2 ^ 32" using Suc.prems(3) by simp
  note f = reserve_fresh [OF Suc.prems(2) this o(1)]
  then show ?case using Suc.IH [OF o(2) f(1)] Suc.prems(3) by (auto simp: o(3))
qed simp

section \<open>The type invariant\<close>

definition buffer_typed :: "vtables_of \<Rightarrow> component_type_id_t set \<Rightarrow> 'v CommandBuffer \<Rightarrow> bool" where
  "buffer_typed vt C cb \<longleftrightarrow> (\<forall>op \<in> set (buffer_ops cb). op_typed vt C op)"

lemma typed_push: "buffer_typed vt C cb \<Longrightarrow> op_typed vt C op \<Longrightarrow> buffer_typed vt C (push_op op cb)"
  by (auto simp: buffer_typed_def push_op_def)

lemma typed_create:
  assumes "buffer_typed vt C cb" "distinct (map fst comps)" "fst ` set comps \<subseteq> C"
    "record_create_entity vt immut comps cb w = Some (e, cb', w')"
  shows "buffer_typed vt C cb'"
proof -
  define srt where "srt = exchange_sort (map (\<lambda>(c, v). (c, vt c)) comps)"
  define p where "p = \<lparr>create_sig = map fst srt, create_vtables = map snd srt,
    create_values = staged_values vt comps (map fst srt), create_immutable = immut\<rparr>"
  note sg = exchange_sort_signature [OF assms(2), of vt, folded srt_def]
  obtain cb1 where "record_eid cb w = Some (e, cb1, w')" "cb' = push_op (CreateEntity e p) cb1"
    using assms(4) by (auto simp: record_create_entity_def Let_def srt_def p_def bind_eq_Some_conv)
  moreover from this have "buffer_ops cb1 = buffer_ops cb" by (auto simp: record_eid_def split: if_splits)
  moreover have "op_typed vt C (CreateEntity e p)"
    using sg assms(3) staged_live [of "map fst srt" comps vt] by (simp add: p_def)
  ultimately show ?thesis using typed_push [of vt C cb1 "CreateEntity e p"] assms(1) by (simp add: buffer_typed_def)
qed

lemma typed_batch:
  assumes "buffer_typed vt C cb" "n < 2 ^ 32" "distinct ids" "set ids \<subseteq> C" "spans_match vt ids spans" "table_inv w"
    "length (entity_slots w) + n \<le> 2 ^ 32" "record_create_entities vt dflt immut ids spans n out cb w = Some (ok, es, cb', w')"
  shows "buffer_typed vt C cb'"
proof (cases "\<not> bulk_create_sizes_ok n (length out) (case spans of None \<Rightarrow> [] | Some ss \<Rightarrow> map length ss) \<or> n = 0")
  case True
  then show ?thesis using assms(1,8) by (auto simp: record_create_entities_def split: if_splits)
next
  case False
  define srt where "srt = exchange_sort (map (\<lambda>c. (c, vt c)) ids)"
  note sg = batch_signature(2-4) [OF assms(3), of vt, folded srt_def]
  obtain blocks where b: "stage_columns dflt spans n (map fst srt) (zip ids (bulk_span_index_map vt ids)) (replicate (length ids) []) = Some blocks"
    using assms(8) False by (auto simp: record_create_entities_def Let_def srt_def bind_eq_Some_conv)
  have un: "unat (of_nat n :: u32) = n" using assms(2) by (simp add: unat_of_nat)
  have ok: "list_all2 (block_ok n) (map vt (map fst srt)) blocks"
    by (rule staged_blocks_ok [OF b, of "length out"]) (use False assms(3,5) sg in \<open>simp_all add: strict_sorted_iff\<close>)
  define p where "p = \<lparr>bulk_sig = map fst srt, bulk_vtables = map snd srt, bulk_columns = blocks,
              reserved_ids = [], bulk_count = of_nat n, bulk_immutable = immut\<rparr>"
  have pt: "op_typed vt C (CreateEntitiesBulk e (p\<lparr>reserved_ids := rs\<rparr>))"
    if "\<not> eid_is_deferred e \<longrightarrow> length rs = n \<and> distinct (map index rs)" for e rs
    using that sg assms(4) ok by (simp add: p_def un)
  have p0: "p\<lparr>reserved_ids := []\<rparr> = p" by (simp add: p_def)
  have rec: "record_create_entities vt dflt immut ids spans n out cb w = (if parallel_mode cb
        then Some (True, map (\<lambda>i. \<lparr>index = deferred_count cb + of_nat i, generation = DEFERRED_GENERATION_BIT\<rparr>) [0..<n],
               push_op (CreateEntitiesBulk \<lparr>index = deferred_count cb, generation = DEFERRED_GENERATION_BIT\<rparr> p)
                  (cb\<lparr>deferred_count := deferred_count cb + of_nat n\<rparr>), w)
        else do { (es, w) \<leftarrow> reserve_each n w;
          Some (True, es, push_op (CreateEntitiesBulk INVALID_ENTITY_ID (p\<lparr>reserved_ids := es\<rparr>)) cb, w) })"
    using False b unfolding record_create_entities_def srt_def [symmetric] by (simp add: Let_def p_def)
  show ?thesis
  proof (cases "parallel_mode cb")
    case True
    have "op_typed vt C (CreateEntitiesBulk \<lparr>index = deferred_count cb, generation = DEFERRED_GENERATION_BIT\<rparr> p)"
      using pt [of "\<lparr>index = deferred_count cb, generation = DEFERRED_GENERATION_BIT\<rparr>" "[]"] unfolding p0
      by (simp add: eid_is_deferred_def DEFERRED_GENERATION_BIT_def)
    moreover have "buffer_typed vt C (cb\<lparr>deferred_count := deferred_count cb + of_nat n\<rparr>)" using assms(1) by (simp add: buffer_typed_def)
    ultimately show ?thesis using assms(8) True unfolding rec by (auto intro: typed_push)
  next
    case False
    then obtain es1 where r: "reserve_each n w = Some (es1, w')" "cb' = push_op (CreateEntitiesBulk INVALID_ENTITY_ID (p\<lparr>reserved_ids := es1\<rparr>)) cb"
      using assms(8) unfolding rec by (auto simp: bind_eq_Some_conv)
    show ?thesis unfolding r(2)
      by (rule typed_push [OF assms(1) pt]) (use reserve_each_distinct [OF r(1) assms(6,7)] in simp)
  qed
qed

lemma recorded_is_typed: "recorded vt dflt C cb \<Longrightarrow> buffer_typed vt C cb"
proof (induction rule: recorded.induct)
  case (recorded_create cb comps immut w e cb' w')
  show ?case by (rule typed_create [OF recorded_create.IH recorded_create.hyps(3-5)])
next
  case (recorded_batch cb n ids spans w immut out ok es cb' w')
  have "n < 2 ^ 32" using recorded_batch.hyps(2) by linarith
  then show ?case by (rule typed_batch [OF recorded_batch.IH _ recorded_batch.hyps(3-8)])
next
  case (recorded_apply cb w cb' w')
  then show ?case by (auto simp: buffer_typed_def apply_buffer_def bind_eq_Some_conv)
next
  case (recorded_merge a b)
  then show ?case by (auto simp: buffer_typed_def merge_ops typed_rebase)
qed (auto simp: buffer_typed_def empty_buffer_def set_parallel_mode_def clear_buffer_def merge_from_def record_destroy_entity_def
    record_add_component_def record_add_default_def record_remove_component_def push_op_def add_payload_ok_def)

section \<open>Growth\<close>

text \<open>At most \<open>n\<close> more archetypes and slots.\<close>

definition grows :: "nat \<Rightarrow> 'v World \<Rightarrow> 'v World \<Rightarrow> bool" where
  "grows n w w' \<longleftrightarrow> length (archetypes w') \<le> length (archetypes w) + n \<and> length (entity_slots w') \<le> length (entity_slots w) + n
     \<and> in_tick_or_log w' = in_tick_or_log w"

lemma grows_refl [simp]: "grows n w w"
  by (simp add: grows_def)

lemma grows_trans: "grows m u v \<Longrightarrow> grows n v w \<Longrightarrow> grows (m + n) u w"
  by (simp add: grows_def)

lemma grows_mono: "grows m u v \<Longrightarrow> m \<le> n \<Longrightarrow> grows n u v"
  by (auto simp: grows_def)

lemma grows_find: "find_or_create_archetype sig vts w = (i, w') \<Longrightarrow> grows 1 w w'"
  by (auto simp: find_or_create_archetype_def grows_def Let_def in_tick_or_log_def split: option.splits if_splits)

lemma grows_rows [simp]:
  "grows 0 w (set_arch i a w)" "grows 0 w (w\<lparr>chunk_pool := p\<rparr>)" "grows 0 w (set_slot j s w)"
  by (simp_all add: grows_def set_arch_def set_slot_def in_tick_or_log_def)

lemma grows_place: "place_slot e ai l w = Some w' \<Longrightarrow> grows 0 w w'"
  by (auto simp: place_slot_def bind_eq_Some_conv)

lemma grows_insert: "insert_into e ai f w = Some (l, w') \<Longrightarrow> grows 0 w w'"
  by (auto simp: insert_into_def bind_eq_Some_conv grows_def set_arch_def in_tick_or_log_def case_prod_unfold Let_def)

lemma grows_compact: "compact_archetype_after_external_move ai l w = Some w' \<Longrightarrow> grows 0 w w'"
  by (auto simp: compact_archetype_after_external_move_def bind_eq_Some_conv grows_def set_arch_def set_slot_def in_tick_or_log_def
      Let_def split: option.splits)

lemma grows_finalize:
  assumes "finalize_reserved_entity e sig vts vals w = Some w'"
  shows "grows 1 w w'"
proof (cases "w' = w")
  case False
  obtain ai w1 where f: "find_or_create_archetype sig vts w = (ai, w1)" by fastforce
  obtain l w2 where o: "insert_into e ai (\<lambda>_. fill_cells vts vals) w1 = Some (l, w2)" "place_slot e ai l w2 = Some w'"
    using assms False f by (auto simp: finalize_reserved_entity_def bind_eq_Some_conv split: option.splits if_splits)
  show ?thesis using grows_trans [OF grows_trans [OF grows_find [OF f] grows_insert [OF o(1)]] grows_place [OF o(2)]] by simp
qed (simp add: grows_def)

lemma grows_destroy:
  assumes "destroy_entity e w = Some w'"
  shows "grows 0 w w'"
proof -
  have p: "grows 0 v (push_free i v)" for i and v :: "'a World"
    by (auto simp: push_free_def grows_def set_slot_def in_tick_or_log_def split: option.splits)
  then have d: "grows 0 w (drop_reserved_slot e w)" by (auto simp: drop_reserved_slot_def split: option.splits)
  show ?thesis
  proof (cases "w' = w \<or> w' = drop_reserved_slot e w")
    case False
    then obtain s b w1 where o:
      "compact_archetype_after_external_move (archetype_index s) (slot_loc s) (set_arch (archetype_index s) b w) = Some w1"
      "w' = push_free (index e) w1"
      using assms by (auto simp: destroy_entity_def bind_eq_Some_conv split: option.splits if_splits)
    show ?thesis
      using grows_trans [OF grows_trans [OF grows_rows(1) grows_compact [OF o(1)]] p] by (simp add: o(2))
  qed (use d in auto)
qed

lemma grows_store: "store_cell pl v w = Some w' \<Longrightarrow> grows 0 w w'"
  by (auto simp: store_cell_def bind_eq_Some_conv split: prod.splits)

lemma grows_migrate:
  assumes "migrate_entity e target placed dropped w = Some (pos, w')"
  shows "grows 1 w w'"
proof -
  obtain ti w1 where f: "find_or_create_archetype (map fst target) (map snd target) w = (ti, w1)" by (metis prod.collapse)
  obtain i t t' src i' loc w4 l p where o:
    "compact_archetype_after_external_move i loc (set_arch i src (set_arch ti t ((set_arch ti t' w1)\<lparr>chunk_pool := p\<rparr>))) = Some w4"
    "place_slot e ti l w4 = Some w'"
    using assms f unfolding migrate_entity_def Let_def
    by (elim bind_SomeE) (auto simp: case_prod_unfold elim!: bind_SomeE)
  note grows_find [OF f]
  note g = grows_trans [OF this grows_rows(1) [of w1 ti t']]
  note g = grows_trans [OF g grows_rows(2)]
  note g = grows_trans [OF g grows_rows(1)]
  note g = grows_trans [OF g grows_rows(1)]
  note g = grows_trans [OF g grows_compact [OF o(1)]]
  show ?thesis using grows_trans [OF g grows_place [OF o(2)]] by simp
qed

section \<open>Sound worlds\<close>

definition sound :: "vtables_of \<Rightarrow> component_type_id_t set \<Rightarrow> 'v World \<Rightarrow> bool" where
  "sound vt C w \<longleftrightarrow> world_inv vt w \<and> \<not> in_tick_or_log w \<and> (\<forall>e m. entity_view w e = Some m \<longrightarrow> dom m \<subseteq> C)"

definition all_fit :: "vtables_of \<Rightarrow> component_type_id_t set \<Rightarrow> bool" where
  "all_fit vt C \<longleftrightarrow> (\<forall>S. S \<subseteq> C \<longrightarrow> can_hold vt S)"

text \<open>Room for \<open>n\<close> more archetypes and slots.\<close>

definition room_for :: "nat \<Rightarrow> 'v World \<Rightarrow> bool" where
  "room_for n w \<longleftrightarrow> length (archetypes w) + n < 2 ^ 32 \<and> length (entity_slots w) + n < 2 ^ 32"

lemma room_grows: "room_for (m + n) w \<Longrightarrow> grows m w w' \<Longrightarrow> room_for n w'"
  by (auto simp: room_for_def grows_def)

lemma room_has: "room_for (Suc n) w \<Longrightarrow> has_room w"
  by (auto simp: room_for_def has_room_def)

lemma sound_view: "sound vt C w \<Longrightarrow> world_inv vt w' \<Longrightarrow> in_tick_or_log w' = in_tick_or_log w \<Longrightarrow>
    (\<And>e m. entity_view w' e = Some m \<Longrightarrow> entity_view w e = Some m \<or> dom m \<subseteq> C) \<Longrightarrow> sound vt C w'"
  unfolding sound_def by blast

lemma sound_sig_fits: "all_fit vt C \<Longrightarrow> set sig \<subseteq> C \<Longrightarrow> sorted_wrt (<) sig \<Longrightarrow> sig_fits vt sig"
  using can_hold_list [of vt sig] by (simp add: all_fit_def strict_sorted_iff)

lemma reserve_each_total:
  fixes w :: "'v World"
  shows "sound vt C w \<Longrightarrow> room_for n w \<Longrightarrow> \<exists>es w'. reserve_each n w = Some (es, w') \<and> sound vt C w' \<and> grows n w w'"
proof (induction n arbitrary: w)
  case (Suc n)
  have inv: "world_inv vt w" using Suc.prems(1) by (simp add: sound_def)
  obtain e w1 where r: "reserve_entity_slot w = Some (e, w1)" "world_inv vt w1" "entity_view w1 = entity_view w"
    using reserve_total [OF inv room_has [OF Suc.prems(2)]] by blast
  have "table_inv w" "has_free w \<or> length (entity_slots w) < 2 ^ 32" using inv Suc.prems(2) by (simp_all add: world_inv_iff room_for_def)
  note f = reserve_fresh [OF this r(1)]
  have g: "grows 1 w w1" using f by (simp add: grows_def)
  have s: "sound vt C w1" by (rule sound_view [OF Suc.prems(1) r(2)]) (simp_all add: f r(3))
  show ?case using Suc.IH [OF s room_grows [of 1 n w w1]] Suc.prems(2) g r(1) grows_trans [OF g] by fastforce
qed (simp add: grows_def)

lemma finalize_total:
  assumes "sound vt C w" "room_for 1 w" "all_fit vt C" "sorted_wrt (<) sig" "set sig \<subseteq> C" "cells_live vt sig vals"
  shows "\<exists>w'. finalize_reserved_entity e sig (map vt sig) vals w = Some w' \<and> sound vt C w' \<and> grows 1 w w'"
proof -
  have inv: "world_inv vt w" and rm: "length (archetypes w) + 1 < 2 ^ 32" using assms(1,2) by (auto simp: sound_def room_for_def)
  note fits = sound_sig_fits [OF assms(3,5,4)]
  show ?thesis
  proof (cases "slot_reserved w e")
    case False
    then have "finalize_reserved_entity e sig (map vt sig) vals w = Some w"
      by (auto simp: finalize_reserved_entity_def slot_reserved_def split: option.splits)
    then show ?thesis using assms(1) by (auto simp: grows_def)
  next
    case True
    then obtain s where s: "slot_at w (index e) = Some s" "alive s" "slot_generation s = generation e" "archetype_index s = INVALID_ARCHETYPE"
      by (auto simp: slot_reserved_def split: option.splits)
    obtain w' where w': "finalize_reserved_entity e sig (map vt sig) vals w = Some w'" "world_inv vt w'"
      "entity_view w' = (entity_view w)(e := Some (row_view sig vals))"
      using finalize_spec [OF inv rm s fits assms(4,6)] by blast
    note g = grows_finalize [OF w'(1)]
    have "sound vt C w'"
      by (rule sound_view [OF assms(1) w'(2)])
        (use g w'(3) assms(5) row_view_dom [OF cells_live_length [OF assms(6)]] in \<open>auto simp: grows_def split: if_splits\<close>)
    then show ?thesis using w'(1) g by blast
  qed
qed

lemma finalize_each_total:
  assumes "sound vt C w" "room_for (length es) w" "all_fit vt C" "sorted_wrt (<) sig" "set sig \<subseteq> C"
    "list_all2 (block_ok n) (map vt sig) blocks" "i + length es \<le> n"
  shows "\<exists>w'. finalize_each sig (map vt sig) blocks es i w = Some w' \<and> sound vt C w' \<and> grows (length es) w w'"
  using assms
proof (induction es arbitrary: w i)
  case (Cons e es)
  have live: "cells_live vt sig (element_slots (map vt sig) blocks i)" using element_slots_live [OF Cons.prems(6)] Cons.prems(7) by simp
  have rm: "room_for 1 w" using Cons.prems(2) by (simp add: room_for_def)
  obtain w1 where w1: "(if slot_reserved w e then finalize_reserved_entity e sig (map vt sig) (element_slots (map vt sig) blocks i) w else Some w) = Some w1"
    "sound vt C w1" "grows 1 w w1"
  proof (cases "slot_reserved w e")
    case True
    then show thesis using that finalize_total [OF Cons.prems(1) rm Cons.prems(3-5) live, of e] by auto
  next
    case False
    then show thesis using that [of w] Cons.prems(1) by (simp add: grows_def)
  qed
  have "room_for (length es) w1" using room_grows [OF _ w1(3)] Cons.prems(2) by simp
  then show ?case using Cons.IH [OF w1(2) _ Cons.prems(3-6), of "Suc i"] Cons.prems(7) w1(1) grows_trans [OF w1(3)] by fastforce
qed (simp add: grows_def)

lemma finalize_bulk_total:
  fixes w :: "'v World"
  assumes "sound vt C w" "room_for (Suc (length es)) w" "all_fit vt C" "sorted_wrt (<) sig" "set sig \<subseteq> C"
    "list_all2 (block_ok (length es)) (map vt sig) blocks" "distinct (map index es)"
  shows "\<exists>w'. finalize_reserved_entities_bulk es sig (map vt sig) blocks w = Some w' \<and> sound vt C w' \<and> grows (length es) w w'"
proof -
  have rm: "room_for (length es) w" using assms(2) by (simp add: room_for_def)
  obtain w2 where w2: "finalize_each sig (map vt sig) blocks es 0 w = Some w2" "sound vt C w2" "grows (length es) w w2"
    using finalize_each_total [OF assms(1) rm assms(3-6)] by auto
  show ?thesis
  proof (cases "es = [] \<or> \<not> list_all (slot_reserved w) es")
    case True
    then show ?thesis using w2 by (auto simp: finalize_reserved_entities_bulk_def)
  next
    case False
    have inv: "world_inv vt w" and a1: "length (archetypes w) + 1 < 2 ^ 32" using assms(1,2) by (auto simp: sound_def room_for_def)
    obtain w1 where w1: "finalize_reserved_entities_bulk es sig (map vt sig) blocks w = Some w1" "forget_versions w1 = forget_versions w2"
      using bulk_reserved [OF inv a1 sound_sig_fits [OF assms(3,5,4)] assms(4,6,7)] False w2(1) by auto
    have l: "length (archetypes v) = length (archetypes (forget_versions v))" "entity_slots v = entity_slots (forget_versions v)"
      "in_tick_or_log v = in_tick_or_log (forget_versions v)" for v :: "'v World"
      by (simp_all add: forget_versions_def in_tick_or_log_def)
    have "grows (length es) w w1" using w2(3) l w1(2) unfolding grows_def by metis
    moreover have "sound vt C w1" using w2(2) l(3) w1(2) world_inv_forget entity_view_forget unfolding sound_def by metis
    ultimately show ?thesis using w1(1) by blast
  qed
qed

section \<open>Stamps\<close>

lemma linked_next_free: "next_free s' = next_free (slots ! unat i) \<Longrightarrow> linked (slots[unat i := s']) fs = linked slots fs"
proof -
  assume n: "next_free s' = next_free (slots ! unat i)"
  have "next_free (slots[unat i := s'] ! unat j) = next_free (slots ! unat j)" for j :: u32
    using n by (cases "unat i < length slots") (auto simp: nth_list_update list_update_beyond)
  then show ?thesis by (induction fs rule: induct_list012) auto
qed

lemma stamp_sound:
  assumes "sound vt C w" "slot_at w i = Some s"
  shows "sound vt C (set_slot i (s\<lparr>immutable := b\<rparr>) w)"
proof -
  let ?w = "set_slot i (s\<lparr>immutable := b\<rparr>) w"
  have inv: "world_inv vt w" using assms(1) by (simp add: sound_def)
  have i: "unat i < length (entity_slots w)" "s = entity_slots w ! unat i" using assms(2) by (simp_all add: slot_at_iff)
  have l: "location ?w = location w" using location_stamp [OF assms(2)] by (simp add: fun_eq_iff)
  have v: "entity_view ?w = entity_view w" unfolding entity_view_def l set_slot_frame by simp
  obtain fs where fs: "chain_ok w fs" using inv unfolding world_inv_iff table_inv_def by blast
  have "dead_slots (entity_slots ?w) = dead_slots (entity_slots w)"
    using i by (auto simp: dead_slots_def set_slot_def nth_list_update)
  moreover have "linked (entity_slots ?w) fs = linked (entity_slots w) fs"
    using linked_next_free [of "s\<lparr>immutable := b\<rparr>" "entity_slots w" i fs] i by (simp add: set_slot_def)
  ultimately have "chain_ok ?w fs" using fs by (simp add: chain_ok_def) (simp add: set_slot_def)
  moreover have "generation_ok (slot_generation s)" using inv i by (auto simp: world_inv_iff table_inv_def)
  ultimately have "table_inv ?w" using inv by (auto simp: world_inv_iff table_inv_def set_slot_def dest!: in_set_update)
  then have "world_inv vt ?w" using inv l by (simp add: world_inv_def rows_point_back_def slots_point_to_rows_def)
  then show ?thesis using assms(1) v by (simp add: sound_def) (simp add: set_slot_def in_tick_or_log_def)
qed

lemma stamp_applied_sound: "sound vt C w \<Longrightarrow> sound vt C (stamp_applied b e w)"
  by (auto simp: stamp_applied_def intro: stamp_sound split: option.splits)

lemma grows_stamp: "grows 0 w (stamp_applied b e w)"
  by (auto simp: stamp_applied_def split: option.splits)

lemma stamp_batch_sound: "sound vt C w \<Longrightarrow> sound vt C (stamp_batch es w) \<and> grows 0 w (stamp_batch es w)"
proof (induction es arbitrary: w)
  case (Cons e es)
  define w1 where "w1 = (case slot_at w (index e) of None \<Rightarrow> w
      | Some slot \<Rightarrow> if alive slot \<and> slot_generation slot = generation e then set_slot (index e) (slot\<lparr>immutable := True\<rparr>) w else w)"
  have "sound vt C w1 \<and> grows 0 w w1" using Cons.prems by (auto simp: w1_def intro: stamp_sound split: option.splits)
  then show ?case using Cons.IH [of w1] grows_trans [of 0 w w1 0] by (auto simp: w1_def [symmetric])
qed simp

section \<open>Applying never faults\<close>

fun op_cost :: "'v Op \<Rightarrow> nat" where
  "op_cost (CreateEntitiesBulk e p) = 2 * unat (bulk_count p) + 1"
| "op_cost op = 2"

lemma reserve_each_batch:
  "reserve_each n w = Some (es, w') \<Longrightarrow> \<exists>m'. resolve_batch n ph m w = Some (es, m', w')"
proof (induction n arbitrary: ph m w es)
  case (Suc n)
  obtain e w1 es1 where o: "reserve_entity_slot w = Some (e, w1)" "reserve_each n w1 = Some (es1, w')" "es = e # es1"
    using Suc.prems by (auto simp: bind_eq_Some_conv)
  define m1 where "m1 = (if ph < length m then m[ph := e] else m)"
  obtain m' where "resolve_batch n (Suc ph) m1 w1 = Some (es1, m', w')" using Suc.IH [OF o(2)] by blast
  then have "resolve_batch (Suc n) ph m w = Some (es, m', w')" using o(1,3) by (simp add: m1_def)
  then show ?case ..
qed simp

lemma apply_create_total:
  fixes w :: "'v World"
  assumes "sound vt C w" "room_for 2 w" "all_fit vt C" "op_typed vt C (CreateEntity e p)"
  shows "\<exists>m' w'. apply_create e p m w = Some (m', w') \<and> sound vt C w' \<and> grows 2 w w'"
proof -
  obtain real m1 w1 where r: "(if eid_is_deferred e
        then do { (real, w) \<leftarrow> reserve_entity_slot w;
          Some (real, if unat (index e) < length m then m[unat (index e) := real] else m, w) }
        else Some (e, m, w)) = Some (real, m1, w1)" "sound vt C w1" "grows 1 w w1"
  proof (cases "eid_is_deferred e")
    case True
    have "room_for 1 w" using assms(2) by (simp add: room_for_def)
    then obtain real w1 where "reserve_entity_slot w = Some (real, w1)" "sound vt C w1" "grows 1 w w1"
      using reserve_each_total [OF assms(1), of 1] by (auto simp: bind_eq_Some_conv)
    then show thesis using that True by simp
  next
    case False
    then show thesis using that assms(1) by (simp add: grows_def)
  qed
  have rm: "room_for 1 w1" using room_grows [of 1 1 w w1] r(3) assms(2) by (simp add: numeral_2_eq_2)
  obtain w2 where w2: "finalize_reserved_entity real (create_sig p) (map vt (create_sig p)) (create_values p) w1 = Some w2"
    "sound vt C w2" "grows 1 w1 w2"
    using finalize_total [OF r(2) rm assms(3), of "create_sig p" "create_values p" real] assms(4) by auto
  have "apply_create e p m w = Some (m1, stamp_applied (create_immutable p) real w2)"
    using r(1) w2(1) assms(4) unfolding apply_create_def r(1) by simp
  then show ?thesis
    using stamp_applied_sound [OF w2(2)] grows_trans [OF grows_trans [OF r(3) w2(3)] grows_stamp, of "create_immutable p" real]
    by (simp add: numeral_2_eq_2)
qed

lemma apply_bulk_total:
  fixes w :: "'v World"
  assumes "sound vt C w" "room_for (2 * unat (bulk_count p) + 1) w" "all_fit vt C" "op_typed vt C (CreateEntitiesBulk e p)"
  shows "\<exists>m' w'. apply_bulk e p m w = Some (m', w') \<and> sound vt C w' \<and> grows (2 * unat (bulk_count p) + 1) w w'"
proof -
  let ?n = "unat (bulk_count p)"
  obtain es m1 w1 where r: "(if eid_is_deferred e then resolve_batch (unat (bulk_count p)) (unat (index e)) m w
        else Some (reserved_ids p, m, w)) = Some (es, m1, w1)" "sound vt C w1" "grows ?n w w1" "length es = ?n" "distinct (map index es)"
  proof (cases "eid_is_deferred e")
    case True
    have rm: "room_for ?n w" using assms(2) by (simp add: room_for_def)
    then obtain es w1 where o: "reserve_each ?n w = Some (es, w1)" "sound vt C w1" "grows ?n w w1"
      using reserve_each_total [OF assms(1)] by blast
    have "length es = ?n \<and> distinct (map index es)"
      using reserve_each_distinct [OF o(1)] assms(1) rm by (auto simp: sound_def world_inv_iff room_for_def)
    then show thesis using that True reserve_each_batch [OF o(1), of "unat (index e)" m] o by auto
  next
    case False
    then show thesis using that assms(1,4) by (simp add: grows_def)
  qed
  have rm: "room_for (Suc (length es)) w1" using room_grows [OF _ r(3), of "?n + 1"] assms(2) r(4) by (simp add: mult_2)
  obtain w2 where w2: "finalize_reserved_entities_bulk es (bulk_sig p) (map vt (bulk_sig p)) (bulk_columns p) w1 = Some w2"
    "sound vt C w2" "grows ?n w1 w2"
    using finalize_bulk_total [OF r(2) rm assms(3), of "bulk_sig p" "bulk_columns p"] assms(4) r(4,5) by auto
  have "apply_bulk e p m w = Some (m1, if bulk_immutable p then stamp_batch es w2 else w2)"
    using w2(1) assms(4) unfolding apply_bulk_def r(1) by simp
  moreover have "sound vt C (if bulk_immutable p then stamp_batch es w2 else w2) \<and> grows 0 w2 (if bulk_immutable p then stamp_batch es w2 else w2)"
    using stamp_batch_sound [OF w2(2)] w2(2) by simp
  ultimately show ?thesis using grows_mono [OF grows_trans [OF grows_trans [OF r(3) w2(3)]]] by fastforce
qed

lemma grows_apply_add: "apply_add e p w = Some w' \<Longrightarrow> grows 1 w w'"
  by (auto simp: apply_add_def bind_eq_Some_conv replace_cell_def
      intro: grows_migrate [simplified] grows_mono [OF grows_rows(1)] split: if_splits option.splits)

lemma apply_add_total:
  fixes w :: "'v World"
  assumes "sound vt C w" "room_for 2 w" "all_fit vt C" "add_payload_ok vt p" "add_id p \<in> C"
  shows "\<exists>w'. apply_add e p w = Some w' \<and> sound vt C w' \<and> grows 1 w w'"
proof -
  define v where "v = the (add_value p)"
  have v: "vt_size (vt (add_id p)) \<noteq> 0 \<longrightarrow> add_value p = Some v" using assms(4) by (auto simp: v_def add_payload_ok_def)
  have inv: "world_inv vt w" and nt: "\<not> in_tick_or_log w" using assms(1) by (simp_all add: sound_def)
  have rm: "has_room w" using room_has [of 1 w] assms(2) by (simp add: numeral_2_eq_2)
  have fits: "can_hold vt (insert (add_id p) (dom m))" if "entity_view w e = Some m" for m
    using that assms(1,3,5) by (simp add: sound_def all_fit_def)
  obtain q w1 where w1: "add_component vt (add_id p) v e w = Some (q, w1)" "world_inv vt w1"
    "case entity_view w e of None \<Rightarrow> q = None \<and> w1 = w
       | Some m \<Rightarrow> if in_tick_or_log w \<or> is_immutable w e then q = None \<and> w1 = w
           else entity_view w1 = (entity_view w)(e := Some (m(add_id p := Some (if vt_size (vt (add_id p)) = 0 then None else Some v))))
             \<and> (case q of None \<Rightarrow> vt_size (vt (add_id p)) = 0 | Some pl \<Rightarrow> vt_size (vt (add_id p)) \<noteq> 0 \<and> load_cell w1 pl = Some v)"
    using add_total [OF inv rm fits, of e v] by blast
  obtain w' where w': "apply_add e p w = Some w'" "forget_versions w' = forget_versions w1"
    using apply_add_immediate [OF inv nt assms(4) v rm, of e] fits w1(1) by auto
  have view: "entity_view w' = entity_view w1" and iv: "world_inv vt w'"
    using w'(2) w1(2) world_inv_forget entity_view_forget by metis+
  note g = grows_apply_add [OF w'(1)]
  have "sound vt C w'"
  proof (rule sound_view [OF assms(1) iv])
    show "in_tick_or_log w' = in_tick_or_log w" using g by (simp add: grows_def)
    show "entity_view w x = Some m \<or> dom m \<subseteq> C" if m: "entity_view w' x = Some m" for x m
    proof (cases "entity_view w e")
      case None
      then show ?thesis using w1(3) m view by simp
    next
      case (Some k)
      then have "dom k \<subseteq> C" using assms(1) by (simp add: sound_def)
      then have d: "dom (k(add_id p := Some y)) \<subseteq> C" for y using assms(5) by auto
      have "entity_view w' = entity_view w \<or> (\<exists>y. entity_view w' = (entity_view w)(e := Some (k(add_id p := Some y))))"
        using w1(3) view Some by (auto split: if_splits)
      then show ?thesis
      proof (elim disjE exE)
        fix y assume "entity_view w' = (entity_view w)(e := Some (k(add_id p := Some y)))"
        then show ?thesis using m d [of y] by (cases "x = e") (simp_all only: fun_upd_same fun_upd_other option.inject simp_thms)
      qed (use m in simp)
    qed
  qed
  then show ?thesis using w'(1) g by blast
qed

lemma grows_remove: "remove_component c e w = Some (b, w') \<Longrightarrow> grows 1 w w'"
  by (auto simp: remove_component_def bind_eq_Some_conv intro: grows_migrate [simplified] split: if_splits option.splits)

lemma apply_remove_total:
  fixes w :: "'v World"
  assumes "sound vt C w" "room_for 2 w"
  shows "\<exists>w'. apply_remove e c w = Some w' \<and> sound vt C w' \<and> grows 1 w w'"
proof -
  have inv: "world_inv vt w" and nt: "\<not> in_tick_or_log w" using assms(1) by (simp_all add: sound_def)
  have rm: "has_room w" using room_has [of 1 w] assms(2) by (simp add: numeral_2_eq_2)
  obtain b w' where w': "remove_component c e w = Some (b, w')" "world_inv vt w'"
    "b \<longrightarrow> entity_view w e \<noteq> None"
    "entity_view w' = (if b then (entity_view w)(e := Some ((the (entity_view w e))(c := None))) else entity_view w)"
    using remove_total [OF inv rm, of c e] by (auto split: option.splits)
  note g = grows_remove [OF w'(1)]
  have "sound vt C w'"
  proof (rule sound_view [OF assms(1) w'(2)])
    show "in_tick_or_log w' = in_tick_or_log w" using g by (simp add: grows_def)
    show "entity_view w x = Some m \<or> dom m \<subseteq> C" if m: "entity_view w' x = Some m" for x m
    proof (cases "b \<and> x = e")
      case True
      then obtain k where k: "entity_view w e = Some k" "m = k(c := None)" using w'(3,4) m by auto
      then have "dom k \<subseteq> C" using assms(1) by (simp add: sound_def)
      then show ?thesis using k(2) by auto
    qed (use m w'(4) in \<open>auto split: if_splits\<close>)
  qed
  then show ?thesis using w'(1) g apply_remove_immediate [OF inv nt, of e c] by auto
qed

lemma apply_op_total:
  fixes w :: "'v World"
  assumes "sound vt C w" "room_for (op_cost op) w" "all_fit vt C" "op_typed vt C op"
  shows "\<exists>m' w'. apply_op op m w = Some (m', w') \<and> sound vt C w' \<and> grows (op_cost op) w w'"
proof (cases op)
  case (CreateEntity e p)
  then show ?thesis using apply_create_total [of vt C w e p m] assms by simp
next
  case (CreateEntitiesBulk e p)
  then show ?thesis using apply_bulk_total [of vt C w p e m] assms by simp
next
  case (DestroyEntity e)
  have inv: "world_inv vt w" using assms(1) by (simp add: sound_def)
  obtain w' where w': "destroy_entity (resolve m e) w = Some w'" "world_inv vt w'"
    "entity_view w' = (if in_tick_or_log w then entity_view w else (entity_view w)(resolve m e := None))"
    using destroy_total [OF inv] by blast
  note g = grows_destroy [OF w'(1)]
  have "sound vt C w'" by (rule sound_view [OF assms(1) w'(2)]) (use g w'(3) in \<open>auto simp: grows_def split: if_splits\<close>)
  then show ?thesis using w'(1) grows_mono [OF g] DestroyEntity by simp
next
  case (AddComponent e p)
  then show ?thesis using apply_add_total [of vt C w p "resolve m e"] assms grows_mono [of 1 w _ 2] by auto
next
  case (RemoveComponent e c)
  then show ?thesis using apply_remove_total [of vt C w "resolve m e" c] assms grows_mono [of 1 w _ 2] by auto
qed

lemma apply_ops_total:
  fixes w :: "'v World"
  assumes "sound vt C w" "room_for (sum_list (map op_cost ops)) w" "all_fit vt C" "\<forall>op \<in> set ops. op_typed vt C op"
  shows "\<exists>m' w'. apply_ops ops m w = Some (m', w') \<and> sound vt C w' \<and> grows (sum_list (map op_cost ops)) w w'"
  using assms
proof (induction ops arbitrary: m w)
  case Nil
  then show ?case by (auto simp: grows_def)
next
  case (Cons op ops)
  have "room_for (op_cost op) w" using Cons.prems(2) by (simp add: room_for_def)
  then obtain m1 w1 where w1: "apply_op op m w = Some (m1, w1)" "sound vt C w1" "grows (op_cost op) w w1"
    using apply_op_total [OF Cons.prems(1) _ Cons.prems(3)] Cons.prems(4) by fastforce
  have "room_for (sum_list (map op_cost ops)) w1" using room_grows [OF _ w1(3)] Cons.prems(2) by simp
  then obtain m' w' where "apply_ops ops m1 w1 = Some (m', w')" "sound vt C w'" "grows (sum_list (map op_cost ops)) w1 w'"
    using Cons.IH [OF w1(2) _ Cons.prems(3)] Cons.prems(4) by fastforce
  then show ?case using w1(1) grows_trans [OF w1(3)] by fastforce
qed

definition buffer_cost :: "'v CommandBuffer \<Rightarrow> nat" where
  "buffer_cost cb = sum_list (map op_cost (buffer_ops cb))"

lemma apply_buffer_total:
  fixes w :: "'v World"
  assumes "buffer_typed vt C cb" "sound vt C w" "room_for (buffer_cost cb) w" "all_fit vt C"
  shows "\<exists>cb' w'. apply_buffer cb w = Some (cb', w') \<and> buffer_empty cb' \<and> sound vt C w' \<and> grows (buffer_cost cb) w w'"
  using apply_ops_total [of vt C w "buffer_ops cb" "replicate (unat (deferred_count cb)) INVALID_ENTITY_ID"] assms
  by (auto simp: buffer_typed_def buffer_cost_def apply_buffer_def buffer_empty_def)

end
