(* ===== verification/Command_Properties.thy ===== *)
theory Command_Properties
  imports Command_Safety
begin

text \<open>
  What the command buffer promises: well-typed recordings, application without faults, the effect
  of the immediate operations, and merging as concatenation.
\<close>

text \<open>C28: A buffer filled through its recording operations only holds well-typed operations: every signature
  is sorted and carries its column types, a value is staged exactly for the components with data, and
  every placeholder is one the buffer has handed out.\<close>

theorem recorded_buffer_typed:
  assumes "recorded vt dflt C cb" "op \<in> set (buffer_ops cb)"
  shows "op_typed vt C op \<and> op_within (unat (deferred_count cb)) op"
  using assms recorded_is_typed [OF assms(1)] recorded_is_ok [OF assms(1)] by (simp add: buffer_typed_def recorded_ok_def)

text \<open>C24: Applying a recorded buffer outside a tick never faults, whatever happened to its entities between
  recording and applying: it leaves an empty buffer and a world that satisfies its invariant, holding
  only known components.\<close>

theorem apply_buffer_safe:
  fixes w :: "'v World"
  assumes "recorded vt dflt C cb" "sound vt C w" "room_for (buffer_cost cb) w" "all_fit vt C"
  shows "\<exists>cb' w'. apply_buffer cb w = Some (cb', w') \<and> buffer_empty cb' \<and> world_inv vt w'
    \<and> (\<forall>e m. entity_view w' e = Some m \<longrightarrow> dom m \<subseteq> C)"
  using apply_buffer_total [OF recorded_is_typed [OF assms(1)] assms(2-4)] unfolding sound_def by blast

text \<open>C25: A creation that is recorded and applied is the immediate creation: in serial mode it hands out the same
  identifier, in either mode applying it leaves the same world.\<close>

theorem deferred_create_immediate:
  fixes w :: "'v World"
  assumes "world_inv vt w" "\<not> in_tick_or_log w" "has_room w" "distinct (map fst comps)" "can_hold vt (fst ` set comps)"
  shows "\<exists>e w' eid cb w1. create_entity_impl vt immut comps w = Some (e, w')
    \<and> record_create_entity vt immut comps (set_parallel_mode par empty_buffer) w = Some (eid, cb, w1)
    \<and> (\<not> par \<longrightarrow> eid = e) \<and> (par \<longrightarrow> w1 = w) \<and> map_option snd (apply_buffer cb w1) = Some w'"
proof -
  define srt where "srt = exchange_sort (map (\<lambda>(c, v). (c, vt c)) comps)"
  obtain e w1 w2 w3 where d: "create_entity_impl vt immut comps w = Some (e, w3)" "reserve_entity_slot w = Some (e, w1)"
    "\<not> eid_is_deferred e"
    "finalize_reserved_entity e (map fst srt) (map snd srt) (staged_values vt comps (map fst srt)) w1 = Some w2"
    "stamp_applied immut e w2 = w3"
    using create_is_deferred [OF assms, of immut] unfolding srt_def by blast
  show ?thesis
  proof (cases par)
    case True
    then show ?thesis using d
      by (simp add: record_create_entity_def record_eid_def set_parallel_mode_def empty_buffer_def push_op_def Let_def srt_def [symmetric]
          apply_buffer_def apply_create_def) (simp add: eid_is_deferred_def DEFERRED_GENERATION_BIT_def)
  next
    case False
    then show ?thesis using d
      by (simp add: record_create_entity_def record_eid_def set_parallel_mode_def empty_buffer_def push_op_def Let_def srt_def [symmetric]
          apply_buffer_def apply_create_def)
  qed
qed

text \<open>C26: A destruction or a removal that is recorded and applied has the effect of the immediate operation, and so
  has an added component but for the version counter of a column it replaces a value in: refusals on
  dead, reserved and immutable entities included.\<close>

theorem deferred_ops_immediate:
  fixes w :: "'v World"
  assumes "world_inv vt w" "\<not> in_tick_or_log w" "has_room w" "\<not> eid_is_deferred e"
    "\<And>m. entity_view w e = Some m \<Longrightarrow> can_hold vt (insert c (dom m))"
  shows "map_option snd (apply_buffer (record_destroy_entity e empty_buffer) w) = destroy_entity e w
    \<and> map_option snd (apply_buffer (record_remove_component c e empty_buffer) w) = map_option snd (remove_component c e w)
    \<and> map_option (\<lambda>(_, w). forget_versions w) (apply_buffer (record_add_component vt c v e empty_buffer) w) =
        map_option (\<lambda>(_, w). forget_versions w) (add_component vt c v e w)"
proof -
  define p where "p = \<lparr>add_id = c, add_vtable = vt c, add_value = (if vt_size (vt c) = 0 then None else Some v), add_is_default = False\<rparr>"
  have run: "map_option g (apply_buffer (push_op op empty_buffer) w) = map_option (\<lambda>(m, w'). g (empty_buffer, w')) (apply_op op [] w)"
    for op and g :: "'v CommandBuffer \<times> 'v World \<Rightarrow> 'b"
    by (cases "apply_op op [] w") (auto simp: push_op_def empty_buffer_def apply_buffer_def)
  have "map_option forget_versions (apply_add e p w) = map_option (\<lambda>(_, w). forget_versions w) (add_component vt c v e w)"
    using apply_add_immediate [OF assms(1,2), of p v e] assms(3,5) by (simp add: p_def add_payload_ok_def)
  then show ?thesis
    using assms(4) apply_remove_immediate [OF assms(1,2), of e c]
    unfolding record_destroy_entity_def record_remove_component_def record_add_component_def run p_def [symmetric]
    by (simp add: resolve_def option.map_comp comp_def option.map_ident)
qed

text \<open>C27: Applying a merged buffer is applying the receiving buffer and then the other one: the operations keep
  their order, and the shifted placeholders of the other buffer reach its own entities.\<close>

theorem merge_apply:
  assumes "recorded vt dflt C a" "recorded vt dflt C b" "unat (deferred_count a) + unat (deferred_count b) < 2 ^ 32"
  shows "map_option snd (apply_buffer (fst (merge_from a b)) w) =
    Option.bind (apply_buffer a w) (\<lambda>(_, w'). map_option snd (apply_buffer b w'))"
  using merged_apply [OF recorded_is_ok [OF assms(1)] recorded_is_ok [OF assms(2)] assms(3)] .

text \<open>A single immutable creation whose reserved slot has been given away marks the new occupant immutable.\<close>

theorem stale_create_stamps_occupant:
  assumes "\<not> eid_is_deferred e" "slot_at w (index e) = Some s" "slot_generation s \<noteq> generation e" "create_immutable p"
  shows "apply_create e p m w = Some (m, set_slot (index e) (s\<lparr>immutable := True\<rparr>) w)
    \<and> stamp_batch [e] w = w"
  using assms by (simp add: apply_create_def finalize_reserved_entity_def stamp_applied_def)

section \<open>Concrete buffers\<close>

definition demo_buffer :: "int CommandBuffer" where
  "demo_buffer = \<lparr>buffer_ops = [CreateEntity \<lparr>index = 0, generation = DEFERRED_GENERATION_BIT\<rparr>
     \<lparr>create_sig = [7], create_vtables = [demo_vt 7], create_values = [Some 5], create_immutable = False\<rparr>],
     parallel_mode = True, deferred_count = 1\<rparr>"

lemma demo_recorded:
  "record_create_entity demo_vt False [(7, 5)] (set_parallel_mode True empty_buffer) (empty_world :: int World) =
     Some (\<lparr>index = 0, generation = DEFERRED_GENERATION_BIT\<rparr>, demo_buffer, empty_world)"
  by (simp add: record_create_entity_def record_eid_def set_parallel_mode_def empty_buffer_def push_op_def demo_buffer_def
      staged_values_def demo_vt_def Let_def)

lemma demo_buffer_recorded: "recorded demo_vt (\<lambda>_. 0) {7} demo_buffer"
  using recorded_create [OF recorded_mode [OF recorded_empty] _ _ _ demo_recorded, where C = "{7}"]
  by (simp add: set_parallel_mode_def empty_buffer_def)

lemma demo_all_fit: "all_fit demo_vt {7}"
proof -
  have "can_hold demo_vt {}" unfolding can_hold_def
    by (intro exI [of _ "[]"]) (simp add: sig_fits_def alignments_ok_def CHUNK_BLOCK_BYTES_def SIZEOF_ENTITY_ID_def)
  then show ?thesis using demo_fits(1) by (auto simp: all_fit_def subset_singleton_iff)
qed

lemma demo_sound: "sound demo_vt {7} (empty_world :: int World)" "room_for (buffer_cost demo_buffer) (empty_world :: int World)"
proof -
  have "entity_view (empty_world :: int World) x = None" for x
    by (simp add: entity_view_def location_def eid_is_alive_def slot_at_def arr_get_def empty_world_def)
  then show "sound demo_vt {7} (empty_world :: int World)" using world_inv_empty [of demo_vt] demo_room(2) by (simp add: sound_def)
  show "room_for (buffer_cost demo_buffer) (empty_world :: int World)" by (simp add: room_for_def buffer_cost_def demo_buffer_def empty_world_def)
qed

theorem recorded_buffer_typed_witness:
  "op_typed demo_vt {7} (hd (buffer_ops demo_buffer)) \<and> buffer_ops demo_buffer \<noteq> []"
  using recorded_buffer_typed [OF demo_buffer_recorded, of "hd (buffer_ops demo_buffer)"] by (simp add: demo_buffer_def)

theorem apply_buffer_safe_witness:
  "\<exists>cb' w'. apply_buffer demo_buffer empty_world = Some (cb', w') \<and> buffer_empty cb' \<and> world_inv demo_vt w'"
  using apply_buffer_safe [OF demo_buffer_recorded demo_sound demo_all_fit] by blast

theorem deferred_create_immediate_witness:
  "\<exists>e w'. create_entity_impl demo_vt False [(7, 5 :: int)] empty_world = Some (e, w')
    \<and> map_option snd (apply_buffer demo_buffer empty_world) = Some w'"
  using deferred_create_immediate [OF world_inv_empty demo_room(2,1), of "[(7, 5 :: int)]" demo_vt False True] demo_fits(1)
  by (simp add: demo_recorded)

theorem deferred_ops_immediate_witness:
  "\<exists>e w. create_entity_impl demo_vt False [(7, 5 :: int)] empty_world = Some (e, w)
     \<and> map_option snd (apply_buffer (record_destroy_entity e empty_buffer) w) = destroy_entity e w"
proof -
  obtain e w where d: "create_entity_impl demo_vt False [(7, 5 :: int)] empty_world = Some (e, w)"
    "world_inv demo_vt w" "entity_view w = [e \<mapsto> [7 \<mapsto> Some 5]]" "\<not> in_tick_or_log w" "has_room w"
    by (rule demo_created)
  have "eid_is_alive w e" using d(3) by (intro entity_view_alive) simp
  then have "\<not> eid_is_deferred e" by (auto simp: eid_is_alive_def split: if_splits)
  moreover have "can_hold demo_vt (insert 9 (dom m))" if "entity_view w e = Some m" for m using that d(3) demo_fits(3) by auto
  ultimately show ?thesis using deferred_ops_immediate [OF d(2,4,5), of e 9 1] d(1) by blast
qed

theorem merge_apply_witness:
  "map_option snd (apply_buffer (fst (merge_from demo_buffer demo_buffer)) empty_world) =
    Option.bind (apply_buffer demo_buffer empty_world) (\<lambda>(_, w'). map_option snd (apply_buffer demo_buffer w'))"
  using merge_apply [OF demo_buffer_recorded demo_buffer_recorded] by (simp add: demo_buffer_def)

end
