(* ===== verification/Effect_Frames.thy ===== *)
theory Effect_Frames
  imports Sim_Prelude "HOL-Library.Multiset"
begin

text \<open>
  Operations on a state that is a skeleton together with the contents of places, each of which reads
  and writes only some places: run in any order, operations that do not disturb each other give
  one result.
\<close>

text \<open>A loop over a list whose body may fail.\<close>

fun in_order :: "('i \<Rightarrow> 's \<Rightarrow> 's option) \<Rightarrow> 'i list \<Rightarrow> 's \<Rightarrow> 's option" where
  "in_order f [] s = Some s"
| "in_order f (i # is) s = Option.bind (f i s) (in_order f is)"

lemma in_order_append: "in_order f (xs @ ys) s = Option.bind (in_order f xs s) (in_order f ys)"
  by (induction xs arbitrary: s) (auto simp: fun_eq_iff split: Option.bind_splits)

lemma in_order_cong:
  assumes "P s" "\<And>x s. x \<in> set xs \<Longrightarrow> P s \<Longrightarrow> f x s = g x s" "\<And>x s t. x \<in> set xs \<Longrightarrow> P s \<Longrightarrow> f x s = Some t \<Longrightarrow> P t"
  shows "in_order f xs s = in_order g xs s"
  using assms
proof (induction xs arbitrary: s)
  case (Cons x xs)
  have "f x s = g x s" using Cons.prems by simp
  moreover have "in_order f xs t = in_order g xs t" if "g x s = Some t" for t
  proof (rule Cons.IH)
    show "P t" by (rule Cons.prems(3) [of x s t]) (simp_all add: Cons.prems(1) calculation that)
    show "f y u = g y u" if "y \<in> set xs" "P u" for y u by (rule Cons.prems(2)) (use that in auto)
    show "P v" if "y \<in> set xs" "P u" "f y u = Some v" for y u v by (rule Cons.prems(3) [of y u v]) (use that in auto)
  qed
  ultimately show ?case by (auto split: Option.bind_splits)
qed simp

lemma in_order_keeps:
  assumes "in_order f xs s = Some t" "P s" "\<And>x s t. x \<in> set xs \<Longrightarrow> P s \<Longrightarrow> f x s = Some t \<Longrightarrow> P t"
  shows "P t"
  using assms by (induction xs arbitrary: s) (auto simp: bind_eq_Some_conv)

lemma in_order_map: "in_order f (map g xs) s = in_order (\<lambda>x. f (g x)) xs s"
  by (induction xs arbitrary: s) (simp_all split: Option.bind_splits)

locale placed_state =
  fixes skel :: "'s \<Rightarrow> 'k"
    and get :: "'s \<Rightarrow> 'p \<Rightarrow> 'x"
  assumes ext: "skel s = skel t \<Longrightarrow> (\<And>p. get s p = get t p) \<Longrightarrow> s = t"
begin

text \<open>\<open>f\<close> keeps the skeleton \<open>K\<close>, writes within \<open>W\<close>, and what it does depends on \<open>R\<close>.\<close>

definition framed :: "'k \<Rightarrow> 'p set \<Rightarrow> 'p set \<Rightarrow> ('s \<Rightarrow> 's option) \<Rightarrow> bool" where
  "framed K R W f \<longleftrightarrow>
     (\<forall>s t. skel s = K \<longrightarrow> f s = Some t \<longrightarrow> skel t = K \<and> (\<forall>p. p \<notin> W \<longrightarrow> get t p = get s p))
     \<and> (\<forall>s s'. skel s = K \<longrightarrow> skel s' = K \<longrightarrow> (\<forall>p \<in> R. get s p = get s' p) \<longrightarrow>
          (f s = None \<longleftrightarrow> f s' = None) \<and> (\<forall>t t'. f s = Some t \<longrightarrow> f s' = Some t' \<longrightarrow> (\<forall>p \<in> W. get t p = get t' p)))"

lemma framed_keeps:
  "framed K R W f \<Longrightarrow> skel s = K \<Longrightarrow> f s = Some t \<Longrightarrow> skel t = K"
  "framed K R W f \<Longrightarrow> skel s = K \<Longrightarrow> f s = Some t \<Longrightarrow> p \<notin> W \<Longrightarrow> get t p = get s p"
  unfolding framed_def by blast+

lemma framed_cong:
  assumes "framed K R W f" "skel s = K" "skel s' = K" "\<And>p. p \<in> R \<Longrightarrow> get s p = get s' p"
  shows "f s = None \<longleftrightarrow> f s' = None" "f s = Some t \<Longrightarrow> f s' = Some t' \<Longrightarrow> p \<in> W \<Longrightarrow> get t p = get t' p"
  using assms unfolding framed_def by blast+

lemma framedI:
  assumes "\<And>s t. skel s = K \<Longrightarrow> f s = Some t \<Longrightarrow> skel t = K"
    "\<And>s t p. skel s = K \<Longrightarrow> f s = Some t \<Longrightarrow> p \<notin> W \<Longrightarrow> get t p = get s p"
    "\<And>s s'. skel s = K \<Longrightarrow> skel s' = K \<Longrightarrow> (\<And>p. p \<in> R \<Longrightarrow> get s p = get s' p) \<Longrightarrow> f s = None \<Longrightarrow> f s' = None"
    "\<And>s s' t t' p. skel s = K \<Longrightarrow> skel s' = K \<Longrightarrow> (\<And>p. p \<in> R \<Longrightarrow> get s p = get s' p) \<Longrightarrow>
       f s = Some t \<Longrightarrow> f s' = Some t' \<Longrightarrow> p \<in> W \<Longrightarrow> get t p = get t' p"
  shows "framed K R W f"
  unfolding framed_def
proof (intro conjI allI impI ballI)
  fix s s' assume s: "skel s = K" "skel s' = K" and r: "\<forall>p \<in> R. get s p = get s' p"
  show "f s = None \<longleftrightarrow> f s' = None"
    using assms(3) [OF s] assms(3) [OF s(2,1)] r by (metis (no_types, lifting))
  show "get t p = get t' p" if "f s = Some t" "f s' = Some t'" "p \<in> W" for t t' p
    by (rule assms(4) [OF s _ that]) (use r in blast)
qed (use assms(1,2) in blast)+

lemma framed_on:
  assumes "framed K R W g" "\<And>s. skel s = K \<Longrightarrow> f s = g s"
  shows "framed K R W f"
proof (rule framedI)
  show "skel t = K" if "skel s = K" "f s = Some t" for s t
    using framed_keeps(1) [OF assms(1) that(1), of t] assms(2) [OF that(1)] that(2) by simp
  show "get t p = get s p" if "skel s = K" "f s = Some t" "p \<notin> W" for s t p
    using framed_keeps(2) [OF assms(1) that(1), of t] assms(2) [OF that(1)] that(2,3) by simp
  fix s s' assume s: "skel s = K" "skel s' = K" and r: "\<And>p. p \<in> R \<Longrightarrow> get s p = get s' p"
  show "f s' = None" if "f s = None"
    using framed_cong(1) [OF assms(1) s r] that assms(2) [OF s(1)] assms(2) [OF s(2)] by simp
  show "get t p = get t' p" if "f s = Some t" "f s' = Some t'" "p \<in> W" for t t' p
    using framed_cong(2) [OF assms(1) s r] that assms(2) [OF s(1)] assms(2) [OF s(2)] by simp
qed

lemma framed_weaken:
  assumes "framed K R W f" "R \<subseteq> R'" "W \<subseteq> W'" "W' \<subseteq> R'"
  shows "framed K R' W' f"
  unfolding framed_def
proof (intro conjI allI impI ballI)
  fix s t assume s: "skel s = K" "f s = Some t"
  show "skel t = K" by (rule framed_keeps(1) [OF assms(1) s])
  fix p assume "p \<notin> W'"
  then show "get t p = get s p" using framed_keeps(2) [OF assms(1) s] assms(3) by blast
next
  fix s s' assume s: "skel s = K" "skel s' = K" and r: "\<forall>p \<in> R'. get s p = get s' p"
  have r': "\<And>p. p \<in> R \<Longrightarrow> get s p = get s' p" using r assms(2) by blast
  show "f s = None \<longleftrightarrow> f s' = None" by (rule framed_cong(1) [OF assms(1) s r'])
  fix t t' p assume t: "f s = Some t" "f s' = Some t'" and p: "p \<in> W'"
  show "get t p = get t' p"
  proof (cases "p \<in> W")
    case False
    then have "get t p = get s p" "get t' p = get s' p"
      using framed_keeps(2) [OF assms(1) s(1) t(1)] framed_keeps(2) [OF assms(1) s(2) t(2)] by blast+
    then show ?thesis using r p assms(4) by auto
  qed (rule framed_cong(2) [OF assms(1) s r' t])
qed

lemma framed_skip: "framed K R W Some"
  if "W \<subseteq> R"
  by (simp add: framed_def) (use that in blast)

lemma framed_fail: "framed K R W (\<lambda>_. None)"
  unfolding framed_def by simp

text \<open>A sequence of operations, where each keeps its reads within \<open>R\<close>, which covers what it writes.\<close>

lemma framed_bind:
  assumes "framed K R W f" "framed K R W g" "W \<subseteq> R"
  shows "framed K R W (\<lambda>s. Option.bind (f s) g)"
  unfolding framed_def
proof (intro conjI allI impI ballI)
  fix s t assume s: "skel s = K" "Option.bind (f s) g = Some t"
  then obtain u where u: "f s = Some u" "g u = Some t" by (auto simp: bind_eq_Some_conv)
  note ku = framed_keeps [OF assms(1) s(1) u(1)]
  show "skel t = K" by (rule framed_keeps(1) [OF assms(2) ku(1) u(2)])
  fix p assume "p \<notin> W"
  then show "get t p = get s p" using framed_keeps(2) [OF assms(2) ku(1) u(2)] ku(2) by simp
next
  fix s s' assume s: "skel s = K" "skel s' = K" and r: "\<forall>p \<in> R. get s p = get s' p"
  have c: "f s = None \<longleftrightarrow> f s' = None" using framed_cong(1) [OF assms(1) s] r by blast
  have u: "\<forall>p \<in> R. get u p = get u' p" if "f s = Some u" "f s' = Some u'" for u u'
  proof
    fix p assume p: "p \<in> R"
    show "get u p = get u' p"
    proof (cases "p \<in> W")
      case True
      then show ?thesis using framed_cong(2) [OF assms(1) s _ that] r by blast
    next
      case False
      then show ?thesis using framed_keeps(2) [OF assms(1) s(1) that(1)] framed_keeps(2) [OF assms(1) s(2) that(2)] r p by auto
    qed
  qed
  show "Option.bind (f s) g = None \<longleftrightarrow> Option.bind (f s') g = None"
  proof (cases "f s")
    case None
    then show ?thesis using c by simp
  next
    case (Some u)
    then obtain u' where u': "f s' = Some u'" using c by fastforce
    have "g u = None \<longleftrightarrow> g u' = None"
      using framed_cong(1) [OF assms(2) framed_keeps(1) [OF assms(1) s(1) Some] framed_keeps(1) [OF assms(1) s(2) u']] u [OF Some u'] by blast
    then show ?thesis using Some u' by simp
  qed
  fix t t' p assume t: "Option.bind (f s) g = Some t" "Option.bind (f s') g = Some t'" and p: "p \<in> W"
  obtain u u' where uu: "f s = Some u" "g u = Some t" "f s' = Some u'" "g u' = Some t'" using t by (auto simp: bind_eq_Some_conv)
  show "get t p = get t' p"
    using framed_cong(2) [OF assms(2) framed_keeps(1) [OF assms(1) s(1) uu(1)] framed_keeps(1) [OF assms(1) s(2) uu(3)] _ uu(2,4) p]
      u [OF uu(1,3)] by blast
qed

lemma framed_in_order:
  assumes "\<And>i. i \<in> set is \<Longrightarrow> framed K R W (f i)" "W \<subseteq> R"
  shows "framed K R W (in_order f is)"
  using assms(1)
proof (induction "is")
  case Nil
  have "in_order f [] = Some" by (simp add: fun_eq_iff)
  then show ?case using framed_skip [OF assms(2)] by simp
next
  case (Cons i "is")
  have "framed K R W (\<lambda>s. Option.bind (f i s) (in_order f is))"
    by (rule framed_bind [OF _ _ assms(2)]) (use Cons in auto)
  moreover have "in_order f (i # is) = (\<lambda>s. Option.bind (f i s) (in_order f is))" by (simp add: fun_eq_iff)
  ultimately show ?case by simp
qed

text \<open>
  Operations none of which writes what another reads: the result is the one each leaves on its own
  places when started in the common state, and it fails when one of them does.
\<close>

definition apart :: "('i \<Rightarrow> 'p set) \<Rightarrow> ('i \<Rightarrow> 'p set) \<Rightarrow> 'i set \<Rightarrow> bool" where
  "apart R W I \<longleftrightarrow> (\<forall>i \<in> I. \<forall>j \<in> I. i \<noteq> j \<longrightarrow> W i \<inter> R j = {})"

lemma in_order_result:
  assumes "\<And>i. i \<in> set is \<Longrightarrow> framed K (R i) (W i) (f i)" "\<And>i. i \<in> set is \<Longrightarrow> W i \<subseteq> R i" "apart R W (set is)" "distinct is" "skel s = K"
  shows "(in_order f is s = None \<longleftrightarrow> (\<exists>i \<in> set is. f i s = None))
    \<and> (\<forall>t. in_order f is s = Some t \<longrightarrow> skel t = K
         \<and> (\<forall>p. (\<forall>i \<in> set is. p \<notin> W i) \<longrightarrow> get t p = get s p)
         \<and> (\<forall>i \<in> set is. \<forall>p \<in> W i. get t p = get (the (f i s)) p))"
  using assms
proof (induction "is" arbitrary: s)
  case (Cons i "is")
  have fi: "framed K (R i) (W i) (f i)" using Cons.prems(1) by simp
  show ?case
  proof (cases "f i s")
    case (Some u)
    note k = framed_keeps [OF fi Cons.prems(5) Some]
    have ap: "apart R W (set is)" using Cons.prems(3) by (auto simp: apart_def)
    have d: "distinct is" "i \<notin> set is" using Cons.prems(4) by auto
    have away: "get u p = get s p" if "j \<in> set is" "p \<in> R j" for j p
      using k(2) that Cons.prems(3) d(2) by (fastforce simp: apart_def)
    have fj: "framed K (R j) (W j) (f j)" if "j \<in> set is" for j using that Cons.prems(1) by simp
    have same: "f j u = None \<longleftrightarrow> f j s = None" if "j \<in> set is" for j
      using framed_cong(1) [OF fj [OF that] k(1) Cons.prems(5)] away [OF that] by blast
    have same2: "get (the (f j u)) p = get (the (f j s)) p" if j: "j \<in> set is" "p \<in> W j" "f j u \<noteq> None" for j p
    proof -
      have "f j s \<noteq> None" using j same [OF j(1)] by simp
      then obtain x y where "f j u = Some x" "f j s = Some y" using j(3) by blast
      then show ?thesis using framed_cong(2) [OF fj [OF j(1)] k(1) Cons.prems(5) _ _ _ j(2), of x y] away [OF j(1)] by simp
    qed
    have ih: "(in_order f is u = None \<longleftrightarrow> (\<exists>i \<in> set is. f i u = None))
    \<and> (\<forall>t. in_order f is u = Some t \<longrightarrow> skel t = K
         \<and> (\<forall>p. (\<forall>i \<in> set is. p \<notin> W i) \<longrightarrow> get t p = get u p)
         \<and> (\<forall>i \<in> set is. \<forall>p \<in> W i. get t p = get (the (f i u)) p))"
      by (rule Cons.IH [OF _ _ ap d(1) k(1)]) (use fj Cons.prems(2) in auto)
    have step: "in_order f (i # is) s = in_order f is u" using Some by simp
    have none: "in_order f is u = None \<longleftrightarrow> (\<exists>j \<in> set (i # is). f j s = None)" using ih same Some by auto
    moreover have "skel t = K \<and> (\<forall>p. (\<forall>j \<in> set (i # is). p \<notin> W j) \<longrightarrow> get t p = get s p)
         \<and> (\<forall>j \<in> set (i # is). \<forall>p \<in> W j. get t p = get (the (f j s)) p)" if t: "in_order f is u = Some t" for t
    proof (intro conjI allI impI ballI)
      show "skel t = K" using ih t by blast
      show "get t p = get s p" if "\<forall>j \<in> set (i # is). p \<notin> W j" for p using ih t that k(2) by auto
      fix j p assume j: "j \<in> set (i # is)" and p: "p \<in> W j"
      show "get t p = get (the (f j s)) p"
      proof (cases "j = i")
        case True
        then have "p \<notin> W l" if "l \<in> set is" for l
          using that p Cons.prems(3) d(2) Cons.prems(2) [of l] by (fastforce simp: apart_def)
        then have "get t p = get u p" using ih t by blast
        then show ?thesis using True Some by simp
      next
        case False
        then have js: "j \<in> set is" using j by simp
        then have "f j u \<noteq> None" using ih t by auto
        then show ?thesis using ih t js p same2 by auto
      qed
    qed
    ultimately show ?thesis unfolding step by blast
  qed (auto simp: Cons.prems)
qed simp

lemma any_order:
  assumes "\<And>i. i \<in> set is \<Longrightarrow> framed K (R i) (W i) (f i)" "\<And>i. i \<in> set is \<Longrightarrow> W i \<subseteq> R i" "apart R W (set is)" "distinct is" "skel s = K"
    "mset js = mset is"
  shows "in_order f js s = in_order f is s"
proof -
  have st: "set js = set is" "distinct js" using assms(4,6) by (metis set_mset_mset, metis mset_eq_imp_distinct_iff)
  note a = in_order_result [OF assms(1-5)]
  have b: "(in_order f js s = None \<longleftrightarrow> (\<exists>i \<in> set js. f i s = None))
    \<and> (\<forall>t. in_order f js s = Some t \<longrightarrow> skel t = K
         \<and> (\<forall>p. (\<forall>i \<in> set js. p \<notin> W i) \<longrightarrow> get t p = get s p)
         \<and> (\<forall>i \<in> set js. \<forall>p \<in> W i. get t p = get (the (f i s)) p))"
    by (rule in_order_result) (use assms st in auto)
  show ?thesis
  proof (cases "in_order f is s")
    case None
    then show ?thesis using a b st by simp
  next
    case (Some t)
    then have "\<not> (\<exists>i \<in> set js. f i s = None)" using a by (simp add: st(1))
    then obtain u where u: "in_order f js s = Some u" using b by (cases "in_order f js s") auto
    have ta: "skel t = K" "(\<forall>i \<in> set is. p \<notin> W i) \<Longrightarrow> get t p = get s p"
      "i \<in> set is \<Longrightarrow> p \<in> W i \<Longrightarrow> get t p = get (the (f i s)) p" for i p using a by (simp_all add: Some)
    have ub: "skel u = K" "(\<forall>i \<in> set is. p \<notin> W i) \<Longrightarrow> get u p = get s p"
      "i \<in> set is \<Longrightarrow> p \<in> W i \<Longrightarrow> get u p = get (the (f i s)) p" for i p using b by (simp_all add: u st(1))
    have "u = t"
    proof (rule ext)
      show "skel u = skel t" using ta(1) ub(1) by simp
      show "get u p = get t p" for p
        by (cases "\<exists>i \<in> set is. p \<in> W i") (use ta(2) [of p] ta(3) [of _ p] ub(2) [of p] ub(3) [of _ p] in auto)
    qed
    then show ?thesis using u Some by simp
  qed
qed

end

end
