(* ===== verification/System_Run.thy ===== *)
theory System_Run
  imports Effect_Frames System_Scheduler Command_Buffer Game_Date
begin

text \<open>
  Running the systems: \<open>src/openvic-simulation/ecs/SystemImpl.hpp\<close>, \<open>ecs/ChunkSystem.hpp\<close>,
  \<open>SystemScheduler::run\<close> of \<open>ecs/SystemScheduler.cpp\<close> and the iterations of \<open>ecs/World.hpp\<close>.

  The body of a system is a parameter: it gets the places its references address and may change the World
  and the command buffer of its context; \<^const>\<open>None\<close> is a fault.  A reference to a tag addresses no
  place.  Structural changes are refused during a tick, so the chunks and rows of an iteration are those
  found when it starts.  The thread pool runs the bodies of a \<open>parallel_for\<close> in an order of its own: the
  parameter \<open>ord\<close> gives it for each dispatch of a tick, the one of a stage or the one of a system in it.
\<close>

type_synonym 'v tick_io = "'v World \<times> 'v CommandBuffer"

record ChunkView =
  row_count :: nat
  eids :: "EntityID option list"
  raw_arrays :: "(u32 \<times> nat \<times> nat) option list"

text \<open>The bases \<open>System\<close> and \<open>SystemThreaded\<close>, whose \<open>tick\<close> may take the entity; \<open>ChunkSystem\<close>;
  \<open>PhaseAnchorSystem\<close>.\<close>

datatype 'v SystemBody =
    RowTick bool "Date \<Rightarrow> EntityID option \<Rightarrow> cell_place option list \<Rightarrow> 'v tick_io \<Rightarrow> 'v tick_io option"
  | ChunkTick "Date \<Rightarrow> ChunkView \<Rightarrow> 'v tick_io \<Rightarrow> 'v tick_io option"
  | AnchorTick

record 'v SystemCode =
  component_pack :: "component_type_id_t list"
  is_threaded :: bool
  tick_body :: "'v SystemBody"
  should_run :: "(Date \<Rightarrow> 'v World \<Rightarrow> 'v CommandBuffer \<Rightarrow> bool) option"

text \<open>A registration with its instance, \<^const>\<open>None\<close> once the instance is deleted, its pending buffer and
  the buffers of its chunks.\<close>

record 'v SystemSlot =
  slot_reg :: SystemRegistration
  slot_code :: "'v SystemCode option"
  pending_cmd :: "'v CommandBuffer"
  per_chunk_cmds :: "'v CommandBuffer list"

record 'v TickState =
  tick_world :: "'v World"
  system_slots :: "'v SystemSlot list"

section \<open>Iterating\<close>

text \<open>The columns of the component pack; the slab of a tag is the null pointer, and a missing column of
  another type would be read out of bounds.\<close>

fun bind_columns :: "vtables_of \<Rightarrow> 'v Archetype \<Rightarrow> component_type_id_t list \<Rightarrow> nat option list option" where
  "bind_columns vt a [] = Some []"
| "bind_columns vt a (c # cs) =
     (if vt_size (vt c) = 0 then map_option ((#) None) (bind_columns vt a cs)
      else do {
        col \<leftarrow> column_index_for a c;
        cols \<leftarrow> bind_columns vt a cs;
        Some (Some col # cols) })"

definition tick_row ::
    "bool \<Rightarrow> (EntityID option \<Rightarrow> cell_place option list \<Rightarrow> 'v tick_io \<Rightarrow> 'v tick_io option) \<Rightarrow>
     u32 \<Rightarrow> nat \<Rightarrow> nat option list \<Rightarrow> nat \<Rightarrow> 'v tick_io \<Rightarrow> 'v tick_io option" where
  "tick_row with_entity f ai ci cols r s = do {
     let l = \<lparr>loc_chunk = ci, loc_row = r\<rparr>;
     a \<leftarrow> arch_at (fst s) ai;
     x \<leftarrow> get_row a l;
     e \<leftarrow> (if with_entity then map_option Some (row_entity x) else Some None);
     f e (map (map_option (\<lambda>col. (ai, l, col))) cols) s }"

definition iterate_one_chunk ::
    "vtables_of \<Rightarrow> component_type_id_t list \<Rightarrow> bool \<Rightarrow>
     (EntityID option \<Rightarrow> cell_place option list \<Rightarrow> 'v tick_io \<Rightarrow> 'v tick_io option) \<Rightarrow>
     u32 \<Rightarrow> nat \<Rightarrow> 'v tick_io \<Rightarrow> 'v tick_io option" where
  "iterate_one_chunk vt pack with_entity f ai ci s = do {
     a \<leftarrow> arch_at (fst s) ai;
     ch \<leftarrow> arr_get (chunks a) (int ci);
     cols \<leftarrow> bind_columns vt a pack;
     in_order (tick_row with_entity f ai ci cols) [0..<chunk_count ch] s }"

definition view_chunk ::
    "vtables_of \<Rightarrow> component_type_id_t list \<Rightarrow> (ChunkView \<Rightarrow> 'v tick_io \<Rightarrow> 'v tick_io option) \<Rightarrow>
     u32 \<Rightarrow> nat \<Rightarrow> 'v tick_io \<Rightarrow> 'v tick_io option" where
  "view_chunk vt pack g ai ci s = do {
     a \<leftarrow> arch_at (fst s) ai;
     ch \<leftarrow> arr_get (chunks a) (int ci);
     if chunk_count ch = 0 then Some s
     else do {
       cols \<leftarrow> bind_columns vt a pack;
       g \<lparr>row_count = chunk_count ch, eids = map row_entity (chunk_rows ch),
          raw_arrays = map (map_option (\<lambda>col. (ai, ci, col))) cols\<rparr> s } }"

text \<open>The loop of \<open>for_each\<close>, \<open>for_each_with_entity\<close> and \<open>for_each_chunk\<close> over the chunks of the
  matching archetypes.\<close>

definition for_each_matched ::
    "QueryCacheKey \<Rightarrow> (u32 \<Rightarrow> nat \<Rightarrow> 'v tick_io \<Rightarrow> 'v tick_io option) \<Rightarrow> 'v tick_io \<Rightarrow> 'v tick_io option" where
  "for_each_matched key visit s = do {
     let (q, w) = resolve_query_cache key (fst s);
     in_order (\<lambda>ai s. do {
         a \<leftarrow> arch_at (fst s) ai;
         in_order (visit ai) [0..<length (chunks a)] s })
       (archetype_indices q) (w, snd s) }"

definition dispatch_serial :: "vtables_of \<Rightarrow> Date \<Rightarrow> QueryCacheKey \<Rightarrow> 'v SystemCode \<Rightarrow> 'v tick_io \<Rightarrow> 'v tick_io option" where
  "dispatch_serial vt today key code s =
     (case tick_body code of
        RowTick with_entity f \<Rightarrow> for_each_matched key (iterate_one_chunk vt (component_pack code) with_entity (f today)) s
      | ChunkTick g \<Rightarrow> for_each_matched key (view_chunk vt (component_pack code) (g today)) s
      | AnchorTick \<Rightarrow> Some s)"

text \<open>One chunk of a threaded system.\<close>

definition tick_one_chunk :: "vtables_of \<Rightarrow> Date \<Rightarrow> 'v SystemCode \<Rightarrow> u32 \<Rightarrow> nat \<Rightarrow> 'v tick_io \<Rightarrow> 'v tick_io option" where
  "tick_one_chunk vt today code ai ci s =
     (case tick_body code of
        RowTick with_entity f \<Rightarrow> iterate_one_chunk vt (component_pack code) with_entity (f today) ai ci s
      | _ \<Rightarrow> None)"

record ChunkLocation =
  archetype_idx :: u32
  chunk_idx :: nat

fun chunks_of :: "'v World \<Rightarrow> u32 list \<Rightarrow> ChunkLocation list option" where
  "chunks_of w [] = Some []"
| "chunks_of w (ai # ais) = do {
     a \<leftarrow> arch_at w ai;
     rest \<leftarrow> chunks_of w ais;
     Some (map (\<lambda>c. \<lparr>archetype_idx = ai, chunk_idx = c\<rparr>)
             (filter (\<lambda>c. chunk_count (chunks a ! c) > 0) [0..<length (chunks a)]) @ rest) }"

definition collect_matching_chunks :: "QueryCacheKey \<Rightarrow> 'v World \<Rightarrow> (ChunkLocation list \<times> 'v World) option" where
  "collect_matching_chunks key w =
     (let (q, w) = resolve_query_cache key w in map_option (\<lambda>cs. (cs, w)) (chunks_of w (archetype_indices q)))"

section \<open>Contexts\<close>

text \<open>Running a body with the World and one of the buffers.\<close>

definition on_pending :: "nat \<Rightarrow> ('v tick_io \<Rightarrow> 'v tick_io option) \<Rightarrow> 'v TickState \<Rightarrow> 'v TickState option" where
  "on_pending i f s = do {
     sl \<leftarrow> arr_get (system_slots s) (int i);
     (w, cb) \<leftarrow> f (tick_world s, pending_cmd sl);
     Some (s\<lparr>tick_world := w, system_slots := (system_slots s)[i := sl\<lparr>pending_cmd := cb\<rparr>]\<rparr>) }"

definition on_chunk_cmd :: "nat \<Rightarrow> nat \<Rightarrow> ('v tick_io \<Rightarrow> 'v tick_io option) \<Rightarrow> 'v TickState \<Rightarrow> 'v TickState option" where
  "on_chunk_cmd i k f s = do {
     sl \<leftarrow> arr_get (system_slots s) (int i);
     cmd \<leftarrow> arr_get (per_chunk_cmds sl) (int k);
     (w, cb) \<leftarrow> f (tick_world s, cmd);
     Some (s\<lparr>tick_world := w, system_slots := (system_slots s)[i := sl\<lparr>per_chunk_cmds := (per_chunk_cmds sl)[k := cb]\<rparr>]\<rparr>) }"

definition parallel_for ::
    "(nat \<Rightarrow> nat list) \<Rightarrow> nat \<Rightarrow> (nat \<Rightarrow> 'v TickState \<Rightarrow> 'v TickState option) \<Rightarrow> 'v TickState \<Rightarrow> 'v TickState option" where
  "parallel_for ord n body s = (if n = 0 then Some s else in_order body (ord n) s)"

text \<open>The buffers of the first \<open>n\<close> chunks are cleared and armed, the vector growing to hold them.\<close>

definition arm_cmds :: "nat \<Rightarrow> 'v CommandBuffer list \<Rightarrow> 'v CommandBuffer list" where
  "arm_cmds n cmds =
     (let cmds = cmds @ replicate (n - length cmds) empty_buffer
      in map (\<lambda>cb. set_parallel_mode True (clear_buffer cb)) (take n cmds) @ drop n cmds)"

definition arm_chunk_cmds :: "nat \<Rightarrow> nat \<Rightarrow> 'v TickState \<Rightarrow> 'v TickState option" where
  "arm_chunk_cmds i n s = do {
     sl \<leftarrow> arr_get (system_slots s) (int i);
     Some (s\<lparr>system_slots := (system_slots s)[i := sl\<lparr>per_chunk_cmds := arm_cmds n (per_chunk_cmds sl)\<rparr>]\<rparr>) }"

text \<open>Merging the first buffers into a pending buffer, in the order of the chunks.\<close>

fun merge_cmds :: "nat \<Rightarrow> 'v CommandBuffer \<Rightarrow> 'v CommandBuffer list \<Rightarrow> ('v CommandBuffer \<times> 'v CommandBuffer list) option" where
  "merge_cmds 0 pending cmds = Some (pending, cmds)"
| "merge_cmds (Suc n) pending [] = None"
| "merge_cmds (Suc n) pending (cb # cmds) =
     (let (pending, cb) = merge_from pending (set_parallel_mode False cb)
      in map_option (\<lambda>(pending, cmds). (pending, cb # cmds)) (merge_cmds n pending cmds))"

text \<open>The buffers of \<open>i\<close> go to the pending buffer of \<open>j\<close>.\<close>

definition merge_chunk_cmds :: "nat \<Rightarrow> nat \<Rightarrow> nat \<Rightarrow> 'v TickState \<Rightarrow> 'v TickState option" where
  "merge_chunk_cmds i j n s = do {
     sl \<leftarrow> arr_get (system_slots s) (int i);
     target \<leftarrow> arr_get (system_slots s) (int j);
     (pending, cmds) \<leftarrow> merge_cmds n (pending_cmd target) (per_chunk_cmds sl);
     let slots = (system_slots s)[i := sl\<lparr>per_chunk_cmds := cmds\<rparr>];
     Some (s\<lparr>system_slots := slots[j := (slots ! j)\<lparr>pending_cmd := pending\<rparr>]\<rparr>) }"

section \<open>One system\<close>

definition collect_chunks :: "nat \<Rightarrow> 'v TickState \<Rightarrow> (ChunkLocation list \<times> 'v TickState) option" where
  "collect_chunks i s = do {
     sl \<leftarrow> arr_get (system_slots s) (int i);
     (cs, w) \<leftarrow> collect_matching_chunks (tick_query (slot_reg sl)) (tick_world s);
     Some (cs, s\<lparr>tick_world := w\<rparr>) }"

text \<open>\<open>j\<close> is the registration the scheduler installed, whose pending buffer receives the merge.\<close>

definition dispatch_threaded ::
    "vtables_of \<Rightarrow> (nat \<Rightarrow> nat list) \<Rightarrow> Date \<Rightarrow> nat \<Rightarrow> 'v SystemCode \<Rightarrow> nat \<Rightarrow> 'v TickState \<Rightarrow> 'v TickState option" where
  "dispatch_threaded vt ord today i code j s = do {
     (cs, s) \<leftarrow> collect_chunks i s;
     let n = length cs;
     if n = 0 then Some s
     else do {
       s \<leftarrow> arm_chunk_cmds i n s;
       s \<leftarrow> parallel_for ord n (\<lambda>k. on_chunk_cmd i k (tick_one_chunk vt today code (archetype_idx (cs ! k)) (chunk_idx (cs ! k)))) s;
       merge_chunk_cmds i j n s } }"

text \<open>\<open>current\<close> is \<open>current_system_registration\<close>, without which a threaded system runs serially.\<close>

definition tick_all ::
    "vtables_of \<Rightarrow> (nat \<Rightarrow> nat list) \<Rightarrow> Date \<Rightarrow> nat option \<Rightarrow> nat \<Rightarrow> 'v SystemCode \<Rightarrow> 'v TickState \<Rightarrow> 'v TickState option" where
  "tick_all vt ord today current i code s = do {
     sl \<leftarrow> arr_get (system_slots s) (int i);
     (case (is_threaded code, current) of
        (True, Some j) \<Rightarrow> dispatch_threaded vt ord today i code j s
      | _ \<Rightarrow> on_pending i (dispatch_serial vt today (tick_query (slot_reg sl)) code) s) }"

section \<open>A stage\<close>

text \<open>The code a registration runs, unless it is dead.\<close>

definition runnable :: "'v TickState \<Rightarrow> nat \<Rightarrow> 'v SystemCode option" where
  "runnable s i = do {
     sl \<leftarrow> arr_get (system_slots s) (int i);
     if reg_alive (slot_reg sl) then slot_code sl else None }"

definition run_flag :: "Date \<Rightarrow> 'v TickState \<Rightarrow> nat \<Rightarrow> bool" where
  "run_flag today s i =
     (case runnable s i of
        None \<Rightarrow> True
      | Some code \<Rightarrow>
          (case should_run code of None \<Rightarrow> True | Some p \<Rightarrow> p today (tick_world s) (pending_cmd (system_slots s ! i))))"

text \<open>The systems that run, with their code, in the order of the stage.\<close>

definition running :: "Date \<Rightarrow> 'v TickState \<Rightarrow> nat list \<Rightarrow> (nat \<times> 'v SystemCode) list" where
  "running today s st =
     map (\<lambda>i. (i, the (runnable s i))) (filter (\<lambda>i. runnable s i \<noteq> None \<and> run_flag today s i) st)"

definition run_serially ::
    "vtables_of \<Rightarrow> (nat option \<Rightarrow> nat \<Rightarrow> nat list) \<Rightarrow> Date \<Rightarrow> (nat \<times> 'v SystemCode) list \<Rightarrow> 'v TickState \<Rightarrow> 'v TickState option" where
  "run_serially vt ord today rs =
     in_order (\<lambda>(i, code). tick_all vt (ord (Some i)) today (Some i) i code) rs"

definition prewarm :: "(nat \<times> 'v SystemCode) list \<Rightarrow> 'v TickState \<Rightarrow> 'v TickState" where
  "prewarm rs s = foldl (\<lambda>s (i, code).
     let key = tick_query (slot_reg (system_slots s ! i))
     in if require_ids key = [] then s else s\<lparr>tick_world := snd (resolve_query_cache key (tick_world s))\<rparr>) s rs"

datatype 'v WorkItem =
    ThreadedChunk nat "'v SystemCode" u32 nat nat
  | SerialWhole nat "'v SystemCode"

text \<open>The work items of a stage, and for every threaded system its number of chunks.\<close>

fun build_items :: "(nat \<times> 'v SystemCode) list \<Rightarrow> 'v TickState \<Rightarrow>
    ('v WorkItem list \<times> (nat \<times> nat) list \<times> 'v TickState) option" where
  "build_items [] s = Some ([], [], s)"
| "build_items ((i, code) # rs) s =
     (if is_threaded code then do {
        (cs, s) \<leftarrow> collect_chunks i s;
        s \<leftarrow> arm_chunk_cmds i (length cs) s;
        (items, infos, s) \<leftarrow> build_items rs s;
        Some (map (\<lambda>k. ThreadedChunk i code (archetype_idx (cs ! k)) (chunk_idx (cs ! k)) k) [0..<length cs] @ items,
              (i, length cs) # infos, s) }
      else do {
        (items, infos, s) \<leftarrow> build_items rs s;
        Some (SerialWhole i code # items, infos, s) })"

definition run_item ::
    "vtables_of \<Rightarrow> (nat option \<Rightarrow> nat \<Rightarrow> nat list) \<Rightarrow> Date \<Rightarrow> 'v WorkItem \<Rightarrow> 'v TickState \<Rightarrow> 'v TickState option" where
  "run_item vt ord today item s =
     (case item of
        ThreadedChunk i code ai ci k \<Rightarrow> on_chunk_cmd i k (tick_one_chunk vt today code ai ci) s
      | SerialWhole i code \<Rightarrow> tick_all vt (ord (Some i)) today None i code s)"

definition run_combined ::
    "vtables_of \<Rightarrow> (nat option \<Rightarrow> nat \<Rightarrow> nat list) \<Rightarrow> Date \<Rightarrow> (nat \<times> 'v SystemCode) list \<Rightarrow> 'v TickState \<Rightarrow> 'v TickState option" where
  "run_combined vt ord today rs s = do {
     (items, infos, s) \<leftarrow> build_items rs (prewarm rs s);
     s \<leftarrow> parallel_for (ord None) (length items) (\<lambda>k. run_item vt ord today (items ! k)) s;
     in_order (\<lambda>(i, n). merge_chunk_cmds i i n) infos s }"

definition set_in_apply_phase :: "bool \<Rightarrow> 'v TickState \<Rightarrow> 'v TickState" where
  "set_in_apply_phase b s = s\<lparr>tick_world := (tick_world s)\<lparr>in_apply_phase := b\<rparr>\<rparr>"

definition apply_pending :: "nat \<Rightarrow> 'v TickState \<Rightarrow> 'v TickState option" where
  "apply_pending i = on_pending i (\<lambda>(w, cb). map_option (\<lambda>(cb, w). (w, cb)) (apply_buffer cb w))"

definition stage_barrier :: "nat list \<Rightarrow> 'v TickState \<Rightarrow> 'v TickState option" where
  "stage_barrier st s = do {
     s \<leftarrow> in_order apply_pending st (set_in_apply_phase True s);
     Some (set_in_apply_phase False s) }"

definition run_stage ::
    "vtables_of \<Rightarrow> (nat list \<Rightarrow> nat option \<Rightarrow> nat \<Rightarrow> nat list) \<Rightarrow> Date \<Rightarrow> bool \<Rightarrow> nat list \<Rightarrow> 'v TickState \<Rightarrow> 'v TickState option" where
  "run_stage vt ord today serial_mode st s =
     (if st = [] then Some s
      else do {
        let rs = running today s st;
        s \<leftarrow> (if serial_mode \<or> length st = 1 then run_serially vt (ord st) today rs s else run_combined vt (ord st) today rs s);
        stage_barrier st s })"

definition run_schedule ::
    "vtables_of \<Rightarrow> (nat list \<Rightarrow> nat option \<Rightarrow> nat \<Rightarrow> nat list) \<Rightarrow> Date \<Rightarrow> bool \<Rightarrow> SystemScheduler \<Rightarrow> 'v TickState \<Rightarrow> 'v TickState option" where
  "run_schedule vt ord today serial_mode sch s =
     (if \<not> built sch then Some s else in_order (run_stage vt ord today serial_mode) (stages sch) s)"

end
