(* ===== verification/Tick_Places.thy ===== *)
theory Tick_Places
  imports System_Run
begin

text \<open>
  What a running system can touch: the cells of the chunks, the singletons, the cached queries and the
  buffer of its context.  Everything else of the World is its skeleton, which no body changes during a
  tick; the state of a stage is split the same way into the contents of places and a skeleton.
\<close>

section \<open>Skeletons\<close>

definition erase_row :: "'v Row \<Rightarrow> 'v Row" where
  "erase_row x = x\<lparr>row_cells := map (\<lambda>_. None) (row_cells x)\<rparr>"

definition erase_chunk :: "'v DataChunk \<Rightarrow> 'v DataChunk" where
  "erase_chunk ch = ch\<lparr>chunk_rows := map erase_row (chunk_rows ch)\<rparr>"

definition erase_arch :: "'v Archetype \<Rightarrow> 'v Archetype" where
  "erase_arch a = a\<lparr>chunks := map erase_chunk (chunks a)\<rparr>"

definition erase_world :: "'v World \<Rightarrow> 'v World" where
  "erase_world w = w\<lparr>archetypes := map erase_arch (archetypes w), singletons := (\<lambda>_. None)\<rparr>"

definition forget_cache :: "'v World \<Rightarrow> 'v World" where
  "forget_cache w = w\<lparr>query_cache := (\<lambda>_. None)\<rparr>"

definition erase_slot :: "'v SystemSlot \<Rightarrow> 'v SystemSlot" where
  "erase_slot sl = sl\<lparr>pending_cmd := empty_buffer, per_chunk_cmds := map (\<lambda>_. empty_buffer) (per_chunk_cmds sl)\<rparr>"

datatype world_place = CellAt nat nat nat nat | SingletonAt component_type_id_t | CachedAt QueryCacheKey

datatype buffer_place = PendingOf nat | ChunkCmdOf nat nat

datatype 'v content = Value "'v option" | Cached "CachedQuery option" | Buffer "'v CommandBuffer option"

definition cell_at :: "'v Archetype list \<Rightarrow> nat \<Rightarrow> nat \<Rightarrow> nat \<Rightarrow> nat \<Rightarrow> 'v option" where
  "cell_at as a c r col =
     (if a < length as \<and> c < length (chunks (as ! a)) \<and> r < length (chunk_rows (chunks (as ! a) ! c))
         \<and> col < length (row_cells (chunk_rows (chunks (as ! a) ! c) ! r))
      then row_cells (chunk_rows (chunks (as ! a) ! c) ! r) ! col else None)"

primrec world_get :: "'v World \<Rightarrow> world_place \<Rightarrow> 'v content" where
  "world_get w (CellAt a c r col) = Value (cell_at (archetypes w) a c r col)"
| "world_get w (SingletonAt x) = Value (singletons w x)"
| "world_get w (CachedAt key) = Cached (query_cache w key)"

text \<open>The state of a body: its own buffer is the place \<^const>\<open>None\<close>.\<close>

definition io_skel :: "'v tick_io \<Rightarrow> 'v World" where
  "io_skel s = forget_cache (erase_world (fst s))"

definition io_get :: "'v tick_io \<Rightarrow> world_place option \<Rightarrow> 'v content" where
  "io_get s p = (case p of None \<Rightarrow> Buffer (Some (snd s)) | Some q \<Rightarrow> world_get (fst s) q)"

text \<open>The state of a stage.\<close>

definition stage_skel :: "'v TickState \<Rightarrow> 'v TickState" where
  "stage_skel s = s\<lparr>tick_world := erase_world (tick_world s), system_slots := map erase_slot (system_slots s)\<rparr>"

definition buffer_at :: "'v SystemSlot list \<Rightarrow> buffer_place \<Rightarrow> 'v CommandBuffer option" where
  "buffer_at slots b =
     (case b of
        PendingOf i \<Rightarrow> if i < length slots then Some (pending_cmd (slots ! i)) else None
      | ChunkCmdOf i k \<Rightarrow>
          if i < length slots \<and> k < length (per_chunk_cmds (slots ! i)) then Some (per_chunk_cmds (slots ! i) ! k) else None)"

definition stage_get :: "'v TickState \<Rightarrow> world_place + buffer_place \<Rightarrow> 'v content" where
  "stage_get s p = (case p of Inl q \<Rightarrow> world_get (tick_world s) q | Inr b \<Rightarrow> Buffer (buffer_at (system_slots s) b))"

section \<open>A skeleton and its places determine the state\<close>

lemma map_eq_ext:
  assumes "map e xs = map e ys" "\<And>i. i < length xs \<Longrightarrow> e (xs ! i) = e (ys ! i) \<Longrightarrow> xs ! i = ys ! i"
  shows "xs = ys"
proof (rule nth_equalityI)
  show l: "length xs = length ys" using assms(1) by (rule map_eq_imp_length_eq)
  show "xs ! i = ys ! i" if "i < length xs" for i
  proof (rule assms(2) [OF that])
    show "e (xs ! i) = e (ys ! i)" using arg_cong [OF assms(1), of "\<lambda>zs. zs ! i"] that l by simp
  qed
qed

lemma erase_row_ext:
  assumes "erase_row x = erase_row y" "\<And>col. col < length (row_cells x) \<Longrightarrow> row_cells x ! col = row_cells y ! col"
  shows "x = y"
proof -
  have l: "length (row_cells x) = length (row_cells y)"
    using arg_cong [OF assms(1), of "\<lambda>x. length (row_cells x)"] by (simp add: erase_row_def)
  have "row_cells x = row_cells y" by (rule nth_equalityI [OF l assms(2)])
  then show ?thesis using assms(1) by (cases x; cases y) (simp add: erase_row_def)
qed

lemma erase_archs_ext:
  assumes "map erase_arch as = map erase_arch bs" "\<And>a c r col. cell_at as a c r col = cell_at bs a c r col"
  shows "as = bs"
proof (rule map_eq_ext [OF assms(1)])
  fix a assume a: "a < length as" and ea: "erase_arch (as ! a) = erase_arch (bs ! a)"
  have la: "a < length bs" using a arg_cong [OF assms(1), of length] by simp
  have "chunks (as ! a) = chunks (bs ! a)"
  proof (rule map_eq_ext)
    show m: "map erase_chunk (chunks (as ! a)) = map erase_chunk (chunks (bs ! a))"
      using arg_cong [OF ea, of chunks] by (simp add: erase_arch_def)
    fix c assume c: "c < length (chunks (as ! a))" and ec: "erase_chunk (chunks (as ! a) ! c) = erase_chunk (chunks (bs ! a) ! c)"
    have lc: "c < length (chunks (bs ! a))" using c arg_cong [OF m, of length] by simp
    let ?x = "chunks (as ! a) ! c" and ?y = "chunks (bs ! a) ! c"
    have "chunk_rows ?x = chunk_rows ?y"
    proof (rule map_eq_ext)
      show mr: "map erase_row (chunk_rows ?x) = map erase_row (chunk_rows ?y)"
        using arg_cong [OF ec, of chunk_rows] by (simp add: erase_chunk_def)
      fix r assume r: "r < length (chunk_rows ?x)" and er: "erase_row (chunk_rows ?x ! r) = erase_row (chunk_rows ?y ! r)"
      have lr: "r < length (chunk_rows ?y)" using r arg_cong [OF mr, of length] by simp
      have lcs: "length (row_cells (chunk_rows ?x ! r)) = length (row_cells (chunk_rows ?y ! r))"
        using arg_cong [OF er, of "\<lambda>x. length (row_cells x)"] by (simp add: erase_row_def)
      show "chunk_rows ?x ! r = chunk_rows ?y ! r"
      proof (rule erase_row_ext [OF er])
        show "row_cells (chunk_rows ?x ! r) ! col = row_cells (chunk_rows ?y ! r) ! col" if "col < length (row_cells (chunk_rows ?x ! r))" for col
          using assms(2) [of a c r col] that a la c lc r lr lcs by (simp add: cell_at_def)
      qed
    qed
    then show "?x = ?y" using ec by (cases ?x; cases ?y) (simp add: erase_chunk_def)
  qed
  then show "as ! a = bs ! a" using ea by (cases "as ! a"; cases "bs ! a") (simp add: erase_arch_def)
qed

lemma erase_world_ext:
  assumes "erase_world w = erase_world w'" "\<And>p. world_get w p = world_get w' p"
  shows "w = w'"
proof -
  have "archetypes w = archetypes w'"
  proof (rule erase_archs_ext)
    show "map erase_arch (archetypes w) = map erase_arch (archetypes w')"
      using arg_cong [OF assms(1), of archetypes] by (simp add: erase_world_def)
    show "cell_at (archetypes w) a c r col = cell_at (archetypes w') a c r col" for a c r col
      using assms(2) [of "CellAt a c r col"] by simp
  qed
  moreover have "singletons w = singletons w'" using assms(2) [of "SingletonAt x" for x] by (simp add: fun_eq_iff)
  ultimately show ?thesis using assms(1) by (cases w; cases w') (simp add: erase_world_def)
qed

lemma forget_cache_ext:
  assumes "forget_cache (erase_world w) = forget_cache (erase_world w')" "\<And>key. query_cache w key = query_cache w' key"
  shows "erase_world w = erase_world w'"
proof -
  have "query_cache (erase_world w) = query_cache (erase_world w')" using assms(2) by (simp add: erase_world_def fun_eq_iff)
  then show ?thesis using assms(1) by (cases "erase_world w"; cases "erase_world w'") (simp add: forget_cache_def)
qed

interpretation io: placed_state io_skel io_get
proof
  fix s t :: "'v tick_io"
  assume k: "io_skel s = io_skel t" and g: "\<And>p. io_get s p = io_get t p"
  have w: "world_get (fst s) p = world_get (fst t) p" for p using g [of "Some p"] by (simp add: io_get_def)
  have "erase_world (fst s) = erase_world (fst t)"
    by (rule forget_cache_ext) (use k w [of "CachedAt key" for key] in \<open>simp_all add: io_skel_def\<close>)
  then have "fst s = fst t" by (rule erase_world_ext) (rule w)
  moreover have "snd s = snd t" using g [of None] by (simp add: io_get_def)
  ultimately show "s = t" by (rule prod_eqI)
qed

interpretation stage: placed_state stage_skel stage_get
proof
  fix s t :: "'v TickState"
  assume k: "stage_skel s = stage_skel t" and g: "\<And>p. stage_get s p = stage_get t p"
  have "tick_world s = tick_world t"
  proof (rule erase_world_ext)
    show "erase_world (tick_world s) = erase_world (tick_world t)" using arg_cong [OF k, of tick_world] by (simp add: stage_skel_def)
    show "world_get (tick_world s) p = world_get (tick_world t) p" for p using g [of "Inl p"] by (simp add: stage_get_def)
  qed
  moreover have "system_slots s = system_slots t"
  proof (rule map_eq_ext)
    show m: "map erase_slot (system_slots s) = map erase_slot (system_slots t)"
      using arg_cong [OF k, of system_slots] by (simp add: stage_skel_def)
    fix i assume i: "i < length (system_slots s)" and e: "erase_slot (system_slots s ! i) = erase_slot (system_slots t ! i)"
    have li: "i < length (system_slots t)" using i arg_cong [OF m, of length] by simp
    have b: "buffer_at (system_slots s) b = buffer_at (system_slots t) b" for b using g [of "Inr b"] by (simp add: stage_get_def)
    have n: "length (per_chunk_cmds (system_slots s ! i)) = length (per_chunk_cmds (system_slots t ! i))"
      using arg_cong [OF e, of "\<lambda>sl. length (per_chunk_cmds sl)"] by (simp add: erase_slot_def)
    have "per_chunk_cmds (system_slots s ! i) = per_chunk_cmds (system_slots t ! i)"
    proof (rule nth_equalityI [OF n])
      show "per_chunk_cmds (system_slots s ! i) ! k = per_chunk_cmds (system_slots t ! i) ! k"
        if "k < length (per_chunk_cmds (system_slots s ! i))" for k
        using b [of "ChunkCmdOf i k"] that i li n by (simp add: buffer_at_def)
    qed
    moreover have "pending_cmd (system_slots s ! i) = pending_cmd (system_slots t ! i)"
      using b [of "PendingOf i"] i li by (simp add: buffer_at_def)
    ultimately show "system_slots s ! i = system_slots t ! i"
      using e by (cases "system_slots s ! i"; cases "system_slots t ! i") (simp add: erase_slot_def)
  qed
  ultimately show "s = t" using k by (cases s; cases t) (simp add: stage_skel_def)
qed

section \<open>Reading a skeleton\<close>

lemma erase_arch_simps [simp]:
  "signature (erase_arch a) = signature a" "column_index_for (erase_arch a) c = column_index_for a c"
  "length (chunks (erase_arch a)) = length (chunks a)"
  by (simp_all add: erase_arch_def column_index_for_def)

lemma erase_chunk_simps [simp]:
  "chunk_count (erase_chunk ch) = chunk_count ch" "map row_entity (chunk_rows (erase_chunk ch)) = map row_entity (chunk_rows ch)"
  by (simp_all add: erase_chunk_def chunk_count_def erase_row_def)

lemma erase_world_simps [simp]:
  "archetypes (erase_world w) = map erase_arch (archetypes w)" "query_cache (erase_world w) = query_cache w"
  "archetype_epoch (erase_world w) = archetype_epoch w" "in_tick (erase_world w) = in_tick w"
  "in_apply_phase (erase_world w) = in_apply_phase w"
  by (simp_all add: erase_world_def)

lemma forget_cache_simps [simp]:
  "archetypes (forget_cache w) = archetypes w" "archetype_epoch (forget_cache w) = archetype_epoch w"
  "in_tick (forget_cache w) = in_tick w" "in_apply_phase (forget_cache w) = in_apply_phase w"
  by (simp_all add: forget_cache_def)

lemma erase_row_idem [simp]: "erase_row (erase_row x) = erase_row x"
  by (simp add: erase_row_def comp_def)

lemma erase_chunk_idem [simp]: "erase_chunk (erase_chunk ch) = erase_chunk ch"
  by (simp add: erase_chunk_def comp_def)

lemma erase_arch_idem [simp]: "erase_arch (erase_arch a) = erase_arch a"
  by (simp add: erase_arch_def comp_def)

lemma erase_world_idem [simp]: "erase_world (erase_world w) = erase_world w"
  by (simp add: erase_world_def comp_def)

lemma forget_cache_idem [simp]: "forget_cache (forget_cache w) = forget_cache w"
  by (simp add: forget_cache_def)

lemma arch_at_skel: "arch_at (io_skel s) ai = map_option erase_arch (arch_at (fst s) ai)"
  by (cases "unat ai < length (archetypes (fst s))") (simp_all add: io_skel_def arch_at_def arr_get_uint)

lemma erased_chunk: "ci < length (chunks a) \<Longrightarrow> chunks (erase_arch a) ! ci = erase_chunk (chunks a ! ci)"
  by (simp add: erase_arch_def)

lemma bind_columns_erase [simp]: "bind_columns vt (erase_arch a) cs = bind_columns vt a cs"
  by (induction cs) simp_all

section \<open>The iterations are framed\<close>

lemma framed_iterate:
  assumes "\<And>cols r. bind_columns vt (archetypes K ! unat ai) pack = Some cols \<Longrightarrow> io.framed K R W (tick_row we f ai ci cols r)" "W \<subseteq> R"
  shows "io.framed K R W (iterate_one_chunk vt pack we f ai ci)"
proof -
  let ?plan = "do {
     a \<leftarrow> arch_at K ai;
     ch \<leftarrow> arr_get (chunks a) (int ci);
     cols \<leftarrow> bind_columns vt a pack;
     Some (cols, chunk_count ch) }"
  let ?g = "\<lambda>s. Option.bind ?plan (\<lambda>(cols, n). in_order (tick_row we f ai ci cols) [0..<n] s)"
  have "iterate_one_chunk vt pack we f ai ci s = ?g s" if "io_skel s = K" for s
  proof (cases "arch_at (fst s) ai")
    case (Some a)
    then have "arch_at K ai = Some (erase_arch a)" using arch_at_skel [of s ai] that by simp
    then show ?thesis using Some
      by (cases "ci < length (chunks a)")
        (simp_all add: iterate_one_chunk_def arr_get_def erased_chunk split: Option.bind_splits)
  next
    case None
    then show ?thesis using arch_at_skel [of s ai] that by (simp add: iterate_one_chunk_def)
  qed
  moreover have "io.framed K R W ?g"
  proof (cases ?plan)
    case None
    then show ?thesis using io.framed_fail by simp
  next
    case (Some p)
    obtain cols n where p: "p = (cols, n)" by (cases p)
    have "bind_columns vt (archetypes K ! unat ai) pack = Some cols"
      using Some p by (auto simp: bind_eq_Some_conv arch_at_iff)
    then have "io.framed K R W (in_order (tick_row we f ai ci cols) [0..<n])"
      by (intro io.framed_in_order assms(2)) (rule assms(1))
    then show ?thesis using Some p by simp
  qed
  ultimately show ?thesis using io.framed_on by blast
qed

text \<open>A chunk visited by whichever body the system has.\<close>

definition visit_chunk :: "vtables_of \<Rightarrow> Date \<Rightarrow> 'v SystemCode \<Rightarrow> u32 \<Rightarrow> nat \<Rightarrow> 'v tick_io \<Rightarrow> 'v tick_io option" where
  "visit_chunk vt today code =
     (case tick_body code of
        RowTick we f \<Rightarrow> iterate_one_chunk vt (component_pack code) we (f today)
      | ChunkTick g \<Rightarrow> view_chunk vt (component_pack code) (g today)
      | AnchorTick \<Rightarrow> \<lambda>_ _. Some)"

definition visit_archetypes :: "(u32 \<Rightarrow> nat \<Rightarrow> 'v tick_io \<Rightarrow> 'v tick_io option) \<Rightarrow> u32 list \<Rightarrow> 'v tick_io \<Rightarrow> 'v tick_io option" where
  "visit_archetypes visit = in_order (\<lambda>ai s. do {
     a \<leftarrow> arch_at (fst s) ai;
     in_order (visit ai) [0..<length (chunks a)] s })"

lemma dispatch_serial_visits:
  assumes "tick_body code \<noteq> AnchorTick" "resolve_query_cache key (fst s) = (q, fst s)"
  shows "dispatch_serial vt today key code s = visit_archetypes (visit_chunk vt today code) (archetype_indices q) s"
  using assms by (cases "tick_body code") (simp_all add: dispatch_serial_def for_each_matched_def visit_chunk_def visit_archetypes_def)

lemma framed_visits:
  assumes "\<And>ai ci. ai \<in> set ais \<Longrightarrow> io.framed K R W (visit ai ci)" "W \<subseteq> R"
  shows "io.framed K R W (visit_archetypes visit ais)"
  unfolding visit_archetypes_def
proof (rule io.framed_in_order [OF _ assms(2)])
  fix ai assume ai: "ai \<in> set ais"
  let ?g = "\<lambda>s. Option.bind (arch_at K ai) (\<lambda>a. in_order (visit ai) [0..<length (chunks a)] s)"
  have "io.framed K R W ?g"
    by (cases "arch_at K ai") (simp_all add: io.framed_fail io.framed_in_order [OF assms(1) [OF ai] assms(2)])
  moreover have "Option.bind (arch_at (fst s) ai) (\<lambda>a. in_order (visit ai) [0..<length (chunks a)] s) = ?g s" if "io_skel s = K" for s
    using arch_at_skel [of s ai] that by (cases "arch_at (fst s) ai") auto
  ultimately show "io.framed K R W (\<lambda>s. Option.bind (arch_at (fst s) ai) (\<lambda>a. in_order (visit ai) [0..<length (chunks a)] s))"
    by (rule io.framed_on)
qed

section \<open>From a body to the stage\<close>

text \<open>The places of a body that runs with the buffer \<open>b\<close>.\<close>

definition on_buffer :: "buffer_place \<Rightarrow> world_place option \<Rightarrow> world_place + buffer_place" where
  "on_buffer b p = (case p of None \<Rightarrow> Inr b | Some q \<Rightarrow> Inl q)"

lemma on_buffer_simps [simp]: "on_buffer b None = Inr b" "on_buffer b (Some q) = Inl q"
  by (simp_all add: on_buffer_def)

lemma on_buffer_inj: "on_buffer b p = on_buffer b q \<longleftrightarrow> p = q"
  by (simp add: on_buffer_def split: option.splits)

lemma on_buffer_in [simp]: "on_buffer b p \<in> on_buffer b ` P \<longleftrightarrow> p \<in> P"
  by (auto simp: on_buffer_inj)

text \<open>A lens of the stage: the World and one buffer are replaced, nothing else is read or changed.\<close>

definition with_buffer :: "buffer_place \<Rightarrow> 'v CommandBuffer \<Rightarrow> 'v SystemSlot list \<Rightarrow> 'v SystemSlot list" where
  "with_buffer b cb slots =
     (case b of
        PendingOf i \<Rightarrow> slots[i := (slots ! i)\<lparr>pending_cmd := cb\<rparr>]
      | ChunkCmdOf i k \<Rightarrow> slots[i := (slots ! i)\<lparr>per_chunk_cmds := (per_chunk_cmds (slots ! i))[k := cb]\<rparr>])"

definition run_on :: "buffer_place \<Rightarrow> ('v tick_io \<Rightarrow> 'v tick_io option) \<Rightarrow> 'v TickState \<Rightarrow> 'v TickState option" where
  "run_on b f s = do {
     cb \<leftarrow> buffer_at (system_slots s) b;
     (w, cb) \<leftarrow> f (tick_world s, cb);
     Some (s\<lparr>tick_world := w, system_slots := with_buffer b cb (system_slots s)\<rparr>) }"

lemma on_pending_run: "on_pending i f = run_on (PendingOf i) f"
  by (auto simp: fun_eq_iff on_pending_def run_on_def buffer_at_def with_buffer_def arr_get_def split: Option.bind_splits)

lemma on_chunk_cmd_run: "on_chunk_cmd i k f = run_on (ChunkCmdOf i k) f"
  by (auto simp: fun_eq_iff on_chunk_cmd_def run_on_def buffer_at_def with_buffer_def arr_get_def split: Option.bind_splits)

lemma nth_updated: "xs[i := y] ! j = (if i = j \<and> j < length xs then y else xs ! j)"
  by (cases "i < length xs") (auto simp: nth_list_update list_update_beyond not_less)

lemma buffer_with_buffer:
  "buffer_at slots b \<noteq> None \<Longrightarrow> buffer_at (with_buffer b cb slots) b = Some cb"
  "b \<noteq> b' \<Longrightarrow> buffer_at (with_buffer b cb slots) b' = buffer_at slots b'"
  by (auto simp: buffer_at_def with_buffer_def nth_updated split: buffer_place.splits if_splits)

lemma erase_with_buffer: "map erase_slot (with_buffer b cb slots) = map erase_slot slots"
  by (rule nth_equalityI)
    (auto simp: with_buffer_def erase_slot_def nth_updated map_update map_replicate_const split: buffer_place.splits)

lemma run_on_skel:
  "stage_skel s = L \<Longrightarrow> io_skel (tick_world s, cb) = forget_cache (tick_world L)"
  by (auto simp: stage_skel_def io_skel_def)

lemma framed_run_on:
  assumes f: "io.framed (forget_cache (tick_world L)) R W f" and W: "\<And>key. Some (CachedAt key) \<notin> W" "None \<in> W" "W \<subseteq> R"
  shows "stage.framed L (on_buffer b ` R) (on_buffer b ` W) (run_on b f)"
proof (rule stage.framedI)
  fix s t assume s: "stage_skel s = L" "run_on b f s = Some t"
  then obtain cb w cb' where st: "buffer_at (system_slots s) b = Some cb" "f (tick_world s, cb) = Some (w, cb')"
    "t = s\<lparr>tick_world := w, system_slots := with_buffer b cb' (system_slots s)\<rparr>"
    by (auto simp: run_on_def bind_eq_Some_conv)
  note k = io.framed_keeps [OF f run_on_skel [OF s(1)] st(2)]
  have "forget_cache (erase_world w) = forget_cache (erase_world (tick_world s))"
    using k(1) run_on_skel [OF s(1), of cb] by (simp add: io_skel_def)
  moreover have "query_cache w key = query_cache (tick_world s) key" for key
    using k(2) [OF W(1) [of key]] by (simp add: io_get_def)
  ultimately have "erase_world w = erase_world (tick_world s)" by (rule forget_cache_ext)
  then show "stage_skel t = L" using s(1) by (simp add: st(3) stage_skel_def erase_with_buffer)
  show "stage_get t p = stage_get s p" if p: "p \<notin> on_buffer b ` W" for p
  proof (cases p)
    case (Inl q)
    then have "Some q \<notin> W" using p by (metis imageI on_buffer_simps(2))
    then have "world_get w q = world_get (tick_world s) q" using k(2) [of "Some q"] by (simp add: io_get_def)
    then show ?thesis using Inl by (simp add: st(3) stage_get_def)
  next
    case (Inr b')
    then have "b \<noteq> b'" using p W(2) by force
    then show ?thesis using Inr by (simp add: st(3) stage_get_def buffer_with_buffer)
  qed
next
  fix s s' assume s: "stage_skel s = L" "stage_skel s' = L"
    and r: "\<And>p. p \<in> on_buffer b ` R \<Longrightarrow> stage_get s p = stage_get s' p"
  have same: "io_get (tick_world s, cb) p = io_get (tick_world s', cb) p" if "p \<in> R" for p cb
    using r [OF imageI [OF that]] by (cases p) (simp_all add: io_get_def stage_get_def)
  have bf: "buffer_at (system_slots s) b = buffer_at (system_slots s') b"
    using r [of "Inr b"] W(2,3) by (force simp: stage_get_def)
  have cong: "f (tick_world s, cb) = None \<longleftrightarrow> f (tick_world s', cb) = None"
    "f (tick_world s, cb) = Some u \<Longrightarrow> f (tick_world s', cb) = Some u' \<Longrightarrow> p \<in> W \<Longrightarrow> io_get u p = io_get u' p" for cb u u' p
    using io.framed_cong [OF f run_on_skel [OF s(1), of cb] run_on_skel [OF s(2), of cb] same] by blast+
  show "run_on b f s' = None" if "run_on b f s = None"
    using that cong(1) unfolding run_on_def bf by (cases "buffer_at (system_slots s') b") (auto split: Option.bind_splits)
  fix t t' p assume t: "run_on b f s = Some t" "run_on b f s' = Some t'" and p: "p \<in> on_buffer b ` W"
  obtain cb w c w' c' where u: "buffer_at (system_slots s) b = Some cb" "f (tick_world s, cb) = Some (w, c)"
    "f (tick_world s', cb) = Some (w', c')"
    "t = s\<lparr>tick_world := w, system_slots := with_buffer b c (system_slots s)\<rparr>"
    "t' = s'\<lparr>tick_world := w', system_slots := with_buffer b c' (system_slots s')\<rparr>"
    using t by (auto simp: run_on_def bf bind_eq_Some_conv)
  obtain q where q: "q \<in> W" "p = on_buffer b q" using p by blast
  have "io_get (w, c) q = io_get (w', c') q" by (rule cong(2) [OF u(2,3) q(1)])
  then show "stage_get t p = stage_get t' p"
    using u(1) bf by (cases q) (simp_all add: q(2) u(4,5) stage_get_def io_get_def buffer_with_buffer)
qed

end
