(* ===== verification/Stage_Order.thy ===== *)
theory Stage_Order
  imports Tick_Places Scheduler_Properties
begin

text \<open>
  The work items of a stage: what each reads and writes follows from the declared accesses of its
  system, items of systems without a conflict stay apart, and so do the chunks of a threaded system.
\<close>

section \<open>Declared accesses as places\<close>

definition holds :: "'v World \<Rightarrow> nat \<Rightarrow> nat \<Rightarrow> component_type_id_t \<Rightarrow> bool" where
  "holds K a col x \<longleftrightarrow> a < length (archetypes K) \<and> col < length (signature (archetypes K ! a)) \<and> signature (archetypes K ! a) ! col = x"

text \<open>\<open>D\<close> are the chunks an iteration visits: an iterated component is touched there only, an extra one
  anywhere.\<close>

primrec may_read :: "SystemRegistration \<Rightarrow> 'v World \<Rightarrow> (nat \<times> nat) set \<Rightarrow> world_place \<Rightarrow> bool" where
  "may_read r K D (CellAt a c i col) \<longleftrightarrow> (\<exists>x. holds K a col x \<and>
     (x \<in> set (extra_reads r) \<union> set (extra_writes r) \<or> ((a, c) \<in> D \<and> x \<in> set (tick_query_require_ids r))))"
| "may_read r K D (SingletonAt x) \<longleftrightarrow> x \<in> set (extra_reads r) \<union> set (extra_writes r)"
| "may_read r K D (CachedAt key) \<longleftrightarrow> False"

primrec may_write :: "SystemRegistration \<Rightarrow> 'v World \<Rightarrow> (nat \<times> nat) set \<Rightarrow> world_place \<Rightarrow> bool" where
  "may_write r K D (CellAt a c i col) \<longleftrightarrow> (\<exists>x. holds K a col x \<and>
     (x \<in> set (extra_writes r) \<or>
      ((a, c) \<in> D \<and> x \<in> set (tick_query_require_ids r) \<and> entry x Write \<in> set (reg_access r))))"
| "may_write r K D (SingletonAt x) \<longleftrightarrow> x \<in> set (extra_writes r)"
| "may_write r K D (CachedAt key) \<longleftrightarrow> False"

definition reads :: "SystemRegistration \<Rightarrow> 'v World \<Rightarrow> (nat \<times> nat) set \<Rightarrow> world_place option set" where
  "reads r K D = insert None (Some ` {p. may_read r K D p})"

definition writes :: "SystemRegistration \<Rightarrow> 'v World \<Rightarrow> (nat \<times> nat) set \<Rightarrow> world_place option set" where
  "writes r K D = insert None (Some ` {p. may_write r K D p})"

lemma may_write_read: "may_write r K D p \<Longrightarrow> may_read r K D p"
  by (cases p) auto

lemma may_mono:
  "may_read r K D p \<Longrightarrow> D \<subseteq> D' \<Longrightarrow> may_read r K D' p" "may_write r K D p \<Longrightarrow> D \<subseteq> D' \<Longrightarrow> may_write r K D' p"
  by (cases p; auto)+

lemma writes_reads: "writes r K D \<subseteq> reads r K D"
  using may_write_read unfolding reads_def writes_def by blast

lemma reads_mono: "D \<subseteq> D' \<Longrightarrow> reads r K D \<subseteq> reads r K D'" "D \<subseteq> D' \<Longrightarrow> writes r K D \<subseteq> writes r K D'"
  using may_mono unfolding reads_def writes_def by blast+

lemma writes_simps [simp]: "None \<in> writes r K D" "Some (CachedAt key) \<notin> writes r K D"
  by (auto simp: writes_def)

text \<open>
  A system keeps to its declarations: during a tick, running it over one chunk changes nothing but the
  contents of the places it may write there, and depends only on those it may read.
\<close>

definition honest :: "vtables_of \<Rightarrow> SystemRegistration \<Rightarrow> 'v SystemCode \<Rightarrow> bool" where
  "honest vt r code \<longleftrightarrow> (\<forall>K today ai ci. in_tick K \<and> \<not> in_apply_phase K \<longrightarrow>
     io.framed K (reads r K {(unat ai, ci)}) (writes r K {(unat ai, ci)}) (visit_chunk vt today code ai ci))"

lemma honest_visit:
  assumes "honest vt r code" "in_tick K" "\<not> in_apply_phase K" "(unat ai, ci) \<in> D"
  shows "io.framed K (reads r K D) (writes r K D) (visit_chunk vt today code ai ci)"
proof (rule io.framed_weaken)
  show "io.framed K (reads r K {(unat ai, ci)}) (writes r K {(unat ai, ci)}) (visit_chunk vt today code ai ci)"
    using assms(1-3) unfolding honest_def by blast
qed (use assms(4) in \<open>simp_all add: reads_mono writes_reads\<close>)

text \<open>What registration guarantees: the extra accesses and the component pack are in the access set, and the
  lists of ids are sorted.\<close>

definition registered :: "SystemRegistration \<Rightarrow> bool" where
  "registered r \<longleftrightarrow> (\<exists>S. r = registration_of S \<and> set (decl_require_ids S) \<subseteq> component_id ` set (declared_access S)
     \<and> sorted_wrt (<) (decl_require_ids S) \<and> sorted_wrt (<) (decl_exclude_ids S))"

lemma registered_facts:
  assumes "registered r"
  shows "queries_sorted r" "reg_alive r"
    "x \<in> set (extra_writes r) \<Longrightarrow> entry x Write \<in> set (reg_access r)"
    "x \<in> set (extra_reads r) \<union> set (extra_writes r) \<union> set (tick_query_require_ids r) \<Longrightarrow> \<exists>m. entry x m \<in> set (reg_access r)"
proof -
  obtain S where S: "r = registration_of S" "set (decl_require_ids S) \<subseteq> component_id ` set (declared_access S)"
    "sorted_wrt (<) (decl_require_ids S)" "sorted_wrt (<) (decl_exclude_ids S)" using assms by (auto simp: registered_def)
  have f: "extra_reads r = remdups_adj (sort (decl_extra_reads S))" "extra_writes r = remdups_adj (sort (decl_extra_writes S))"
    "tick_query_require_ids r = decl_require_ids S" "tick_query_exclude_ids r = decl_exclude_ids S"
    by (simp_all add: S(1) registration_of_def Let_def)
  note acc = canonical_write canonical_read merge_reads_spec merge_writes_spec
  have w: "entry x Write \<in> set (reg_access r) \<longleftrightarrow> entry x Write \<in> set (declared_access S) \<or> x \<in> set (decl_extra_writes S)"
    and rd: "entry x Read \<in> set (reg_access r) \<longleftrightarrow> (entry x Read \<in> set (declared_access S) \<or> x \<in> set (decl_extra_reads S))
       \<and> entry x Write \<notin> set (declared_access S) \<and> x \<notin> set (decl_extra_writes S)" for x
    by (auto simp: S(1) registration_of_def Let_def acc)
  show "queries_sorted r" "reg_alive r"
    using S(3,4) f by (simp_all add: queries_sorted_def key_sorted_def tick_query_def S(1) registration_of_def Let_def)
  show "entry x Write \<in> set (reg_access r)" if "x \<in> set (extra_writes r)" using that f w by simp
  have pack: "\<exists>m. entry x m \<in> set (declared_access S)" if r: "x \<in> set (decl_require_ids S)"
  proof -
    obtain y where "y \<in> set (declared_access S)" "component_id y = x" using r S(2) by blast
    then have "entry x (access_mode y) \<in> set (declared_access S)" using entry_eta [of y] by (metis (no_types))
    then show ?thesis ..
  qed
  show "\<exists>m. entry x m \<in> set (reg_access r)" if "x \<in> set (extra_reads r) \<union> set (extra_writes r) \<union> set (tick_query_require_ids r)"
  proof -
    have "x \<in> set (decl_extra_reads S) \<or> x \<in> set (decl_extra_writes S) \<or> (\<exists>m. entry x m \<in> set (declared_access S))"
      using that f pack by auto
    then have "entry x Write \<in> set (reg_access r) \<or> entry x Read \<in> set (reg_access r)"
      unfolding w rd using AccessMode.exhaust by (metis (no_types))
    then show ?thesis by blast
  qed
qed

text \<open>A threaded system races with itself unless it leaves the components its chunks write out of its
  extra accesses.\<close>

definition self_apart :: "SystemRegistration \<Rightarrow> bool" where
  "self_apart r \<longleftrightarrow> extra_writes r = [] \<and> (\<forall>x \<in> set (extra_reads r). entry x Write \<notin> set (reg_access r))"

section \<open>Iterations that do not disturb each other\<close>

lemma apart_systems:
  assumes "registered a" "registered b" "\<not> real_conflict a b"
    "\<And>x c. (x, c) \<in> D \<Longrightarrow> selects (tick_query a) (set (signature (archetypes K ! x)))"
    "\<And>x c. (x, c) \<in> E \<Longrightarrow> selects (tick_query b) (set (signature (archetypes K ! x)))"
    "may_write a K D p" "may_read b K E p"
  shows False
proof -
  have wt: "touches a (\<lambda>_. cs) e x Write" if "x \<in> set (extra_writes a) \<or> (selects (tick_query a) cs \<and> entry x Write \<in> set (reg_access a))" for cs e x
    using that registered_facts(3) [OF assms(1)] by (auto simp: touches_def)
  have rt: "\<exists>m. touches b (\<lambda>_. cs) e x m"
    if "x \<in> set (extra_reads b) \<union> set (extra_writes b) \<or> (selects (tick_query b) cs \<and> x \<in> set (tick_query_require_ids b))" for cs e x
    using that registered_facts(4) [OF assms(2), of x] by (auto simp: touches_def)
  have no: False if "touches a comps e x Write" "touches b comps e x m" for comps e x m
    by (rule no_conflict_no_race [OF registered_facts(2) [OF assms(1)] registered_facts(2) [OF assms(2)] assms(3)
          registered_facts(1) [OF assms(1)] registered_facts(1) [OF assms(2)] that])
  show False
  proof (cases p)
    case (CellAt i c j col)
    obtain x where x: "holds K i col x" "x \<in> set (extra_writes a) \<or> ((i, c) \<in> D \<and> entry x Write \<in> set (reg_access a))"
      using assms(6) by (auto simp: CellAt)
    moreover have "x \<in> set (extra_reads b) \<union> set (extra_writes b) \<or> ((i, c) \<in> E \<and> x \<in> set (tick_query_require_ids b))"
      using assms(7) x(1) by (auto simp: CellAt holds_def)
    ultimately show False
      using wt [of x "set (signature (archetypes K ! i))"] rt [of x "set (signature (archetypes K ! i))"] assms(4,5) no by blast
  next
    case (SingletonAt x)
    have "touches a (\<lambda>_. {}) INVALID_ENTITY_ID x Write" by (rule wt) (use assms(6) SingletonAt in simp)
    moreover obtain m where "touches b (\<lambda>_. {}) INVALID_ENTITY_ID x m" using rt [of x "{}" INVALID_ENTITY_ID] assms(7) SingletonAt by auto
    ultimately show False by (rule no)
  qed (use assms(6) in simp)
qed

lemma apart_chunks:
  assumes "self_apart r" "registered r" "(a, c) \<noteq> (a', c')" "may_write r K {(a, c)} p" "may_read r K {(a', c')} p"
  shows False
  using assms by (cases p) (auto simp: self_apart_def holds_def)

section \<open>Cached queries\<close>

definition warm :: "QueryCacheKey \<Rightarrow> 'v World \<Rightarrow> bool" where
  "warm key w \<longleftrightarrow> (\<exists>q. query_cache w key = Some q \<and> epoch q = archetype_epoch w)"

definition matched_archetypes :: "QueryCacheKey \<Rightarrow> 'v World \<Rightarrow> u32 list" where
  "matched_archetypes key w = archetype_indices (fst (resolve_query_cache key w))"

lemma resolve_warm:
  assumes "warm key w"
  shows "resolve_query_cache key w = (the (query_cache w key), w)"
  using assms by (auto simp: warm_def resolve_query_cache_def Let_def)

lemma warm_erase [simp]: "warm key (erase_world w) = warm key w"
  by (simp add: warm_def)

lemma matched_warm: "warm key w \<Longrightarrow> matched_archetypes key w = archetype_indices (the (query_cache w key))"
  by (simp add: matched_archetypes_def resolve_warm)

lemma resolve_warms: "warm key (snd (resolve_query_cache key w))"
  by (auto simp: resolve_query_cache_def warm_def Let_def split: option.splits)

lemma resolve_keeps_warm: "warm key w \<Longrightarrow> warm key (snd (resolve_query_cache key' w))"
  by (auto simp: resolve_query_cache_def warm_def Let_def split: option.splits)

lemma unat_of_nat_below: "n < 2 ^ 32 \<Longrightarrow> unat (of_nat n :: u32) = n"
  by (simp add: unat_of_nat take_bit_nat_eq_self)

text \<open>The World at the start of a stage: signatures are sorted and hashed, cached queries exact.\<close>

definition keys_ok :: "'v World \<Rightarrow> bool" where
  "keys_ok w \<longleftrightarrow> cache_ok w \<and>
     (\<forall>a \<in> set (archetypes w). sorted_wrt (<) (signature a) \<and> matcher_hash a = compute_matcher_hash (signature a))"

lemma world_inv_keys: "world_inv vt w \<Longrightarrow> cache_ok w \<Longrightarrow> keys_ok w"
  by (simp add: keys_ok_def world_inv_iff archs_inv_def arch_wf_def)

lemma matched_selects:
  assumes "keys_ok w" "key_sorted key"
  shows "matched_archetypes key w = map of_nat (filter (\<lambda>i. selects key (set (signature (archetypes w ! i)))) [0..<length (archetypes w)])"
proof -
  obtain q w' where q: "resolve_query_cache key w = (q, w')" by fastforce
  have "matched_archetypes key w = scan_of key (archetypes w)"
    using resolve_fresh(1) [OF _ q] assms(1) by (simp add: matched_archetypes_def q keys_ok_def)
  moreover have "query_takes key (compute_matcher_hash (require_ids key)) (compute_matcher_hash (exclude_ids key)) (archetypes w ! i)
      = selects key (set (signature (archetypes w ! i)))" if "i < length (archetypes w)" for i
    using that assms by (intro query_takes_iff) (auto simp: keys_ok_def)
  ultimately show ?thesis unfolding scan_of_def query_scan_filter
    by (auto intro!: arg_cong [of _ _ "map word_of_nat"] filter_cong)
qed

lemma matched_in:
  assumes "keys_ok w" "key_sorted key" "ai \<in> set (matched_archetypes key w)"
  shows "unat ai < length (archetypes w)" "selects key (set (signature (archetypes w ! unat ai)))"
proof -
  have l: "length (archetypes w) < 2 ^ 32" using assms(1) by (simp add: keys_ok_def cache_ok_def counted_def)
  obtain i where i: "ai = of_nat i" "i < length (archetypes w)" "selects key (set (signature (archetypes w ! i)))"
    using assms(3) unfolding matched_selects [OF assms(1,2)] by auto
  then have "unat ai = i" using l by (auto intro: unat_of_nat_below)
  then show "unat ai < length (archetypes w)" "selects key (set (signature (archetypes w ! unat ai)))" using i by simp_all
qed

lemma matched_distinct:
  assumes "keys_ok w" "key_sorted key"
  shows "distinct (matched_archetypes key w)"
proof -
  have l: "length (archetypes w) < 2 ^ 32" using assms(1) by (simp add: keys_ok_def cache_ok_def counted_def)
  have "inj_on (of_nat :: nat \<Rightarrow> u32) {0..<length (archetypes w)}"
  proof (rule inj_onI)
    fix i j assume i: "i \<in> {0..<length (archetypes w)}" and j: "j \<in> {0..<length (archetypes w)}" and e: "(of_nat i :: u32) = of_nat j"
    have "i < 2 ^ 32" "j < 2 ^ 32" using i j l by simp_all
    then show "i = j" using e unat_of_nat_below [of i] unat_of_nat_below [of j] by metis
  qed
  then show ?thesis unfolding matched_selects [OF assms]
    by (simp add: distinct_map) (erule inj_on_subset, auto)
qed

end
