(* ===== verification/Stage_Items.thy ===== *)
theory Stage_Items
  imports Stage_Order
begin

text \<open>
  The work items of a stage over the skeleton \<open>K\<close> of its World: which ones there are, that each keeps
  to its places, and that the pool may run them in any order.
\<close>

section \<open>The items of a skeleton\<close>

definition selected_archetypes :: "QueryCacheKey \<Rightarrow> 'v World \<Rightarrow> u32 list" where
  "selected_archetypes key K =
     map of_nat (filter (\<lambda>i. selects key (set (signature (archetypes K ! i)))) [0..<length (archetypes K)])"

definition chunk_list :: "QueryCacheKey \<Rightarrow> 'v World \<Rightarrow> ChunkLocation list" where
  "chunk_list key K = the (chunks_of K (selected_archetypes key K))"

definition slot_key :: "'v SystemSlot list \<Rightarrow> nat \<Rightarrow> QueryCacheKey" where
  "slot_key slots i = tick_query (slot_reg (slots ! i))"

definition items_of :: "'v World \<Rightarrow> 'v SystemSlot list \<Rightarrow> nat \<times> 'v SystemCode \<Rightarrow> 'v WorkItem list" where
  "items_of K slots x =
     (if is_threaded (snd x)
      then map (\<lambda>k. ThreadedChunk (fst x) (snd x) (archetype_idx (chunk_list (slot_key slots (fst x)) K ! k))
                     (chunk_idx (chunk_list (slot_key slots (fst x)) K ! k)) k)
             [0..<length (chunk_list (slot_key slots (fst x)) K)]
      else [SerialWhole (fst x) (snd x)])"

primrec item_buffer :: "'v WorkItem \<Rightarrow> buffer_place" where
  "item_buffer (ThreadedChunk i code ai ci k) = ChunkCmdOf i k"
| "item_buffer (SerialWhole i code) = PendingOf i"

primrec item_system :: "'v WorkItem \<Rightarrow> nat" where
  "item_system (ThreadedChunk i code ai ci k) = i"
| "item_system (SerialWhole i code) = i"

primrec item_visits :: "vtables_of \<Rightarrow> Date \<Rightarrow> 'v World \<Rightarrow> 'v SystemSlot list \<Rightarrow> 'v WorkItem \<Rightarrow> 'v tick_io \<Rightarrow> 'v tick_io option" where
  "item_visits vt today K slots (ThreadedChunk i code ai ci k) = visit_chunk vt today code ai ci"
| "item_visits vt today K slots (SerialWhole i code) =
     (if tick_body code = AnchorTick then Some
      else visit_archetypes (visit_chunk vt today code) (selected_archetypes (slot_key slots i) K))"

primrec item_domain :: "'v World \<Rightarrow> 'v SystemSlot list \<Rightarrow> 'v WorkItem \<Rightarrow> (nat \<times> nat) set" where
  "item_domain K slots (ThreadedChunk i code ai ci k) = {(unat ai, ci)}"
| "item_domain K slots (SerialWhole i code) = unat ` set (selected_archetypes (slot_key slots i) K) \<times> UNIV"

definition item_step :: "vtables_of \<Rightarrow> Date \<Rightarrow> 'v World \<Rightarrow> 'v SystemSlot list \<Rightarrow> 'v WorkItem \<Rightarrow> 'v TickState \<Rightarrow> 'v TickState option" where
  "item_step vt today K slots it = run_on (item_buffer it) (item_visits vt today K slots it)"

text \<open>A system as it is registered: its code keeps to the declarations, only row bodies run per chunk, and
  exactly the anchors have an empty query.\<close>

definition system_ok :: "vtables_of \<Rightarrow> SystemRegistration \<Rightarrow> 'v SystemCode \<Rightarrow> bool" where
  "system_ok vt r code \<longleftrightarrow> registered r \<and> honest vt r code
     \<and> (is_threaded code \<longrightarrow> (\<exists>we f. tick_body code = RowTick we f) \<and> self_apart r)
     \<and> (tick_query_require_ids r = [] \<longleftrightarrow> tick_body code = AnchorTick)"

definition systems_ok :: "vtables_of \<Rightarrow> 'v SystemSlot list \<Rightarrow> (nat \<times> 'v SystemCode) list \<Rightarrow> bool" where
  "systems_ok vt slots rs \<longleftrightarrow> distinct (map fst rs)
     \<and> (\<forall>x \<in> set rs. fst x < length slots \<and> system_ok vt (slot_reg (slots ! fst x)) (snd x))
     \<and> (\<forall>x \<in> set rs. \<forall>y \<in> set rs. fst x \<noteq> fst y \<longrightarrow> \<not> real_conflict (slot_reg (slots ! fst x)) (slot_reg (slots ! fst y)))"

text \<open>A World in a tick with the skeleton \<open>K\<close>.\<close>

definition ticking :: "'v World \<Rightarrow> 'v World \<Rightarrow> bool" where
  "ticking K w \<longleftrightarrow> forget_cache (erase_world w) = K \<and> keys_ok w \<and> in_tick w \<and> \<not> in_apply_phase w"

lemma ticking_K:
  assumes "ticking K w"
  shows "in_tick K" "\<not> in_apply_phase K" "length (archetypes K) < 2 ^ 32" "archetypes K = map erase_arch (archetypes w)"
  using assms by (auto simp: ticking_def keys_ok_def cache_ok_def counted_def)

lemma selected_matched:
  assumes "ticking K w" "key_sorted key"
  shows "matched_archetypes key w = selected_archetypes key K"
proof -
  have "archetypes K = map erase_arch (archetypes w)" using assms(1) by (simp add: ticking_K)
  then have "filter (\<lambda>i. selects key (set (signature (archetypes K ! i)))) [0..<length (archetypes w)]
      = filter (\<lambda>i. selects key (set (signature (archetypes w ! i)))) [0..<length (archetypes w)]"
    by (intro filter_cong) simp_all
  then show ?thesis using assms ticking_K(4) [OF assms(1)] by (simp add: ticking_def matched_selects selected_archetypes_def)
qed

lemma selected_in:
  assumes "length (archetypes K) < 2 ^ 32" "ai \<in> set (selected_archetypes key K)"
  shows "unat ai < length (archetypes K)" "selects key (set (signature (archetypes K ! unat ai)))"
proof -
  obtain i where i: "ai = of_nat i" "i < length (archetypes K)" "selects key (set (signature (archetypes K ! i)))"
    using assms(2) by (auto simp: selected_archetypes_def)
  then have "unat ai = i" using assms(1) by (auto intro: unat_of_nat_below)
  then show "unat ai < length (archetypes K)" "selects key (set (signature (archetypes K ! unat ai)))" using i by simp_all
qed

lemma selected_distinct:
  assumes "length (archetypes K) < 2 ^ 32"
  shows "distinct (selected_archetypes key K)"
proof -
  have "inj_on (of_nat :: nat \<Rightarrow> u32) {0..<length (archetypes K)}"
  proof (rule inj_onI)
    fix i j assume i: "i \<in> {0..<length (archetypes K)}" and j: "j \<in> {0..<length (archetypes K)}" and e: "(of_nat i :: u32) = of_nat j"
    have "i < 2 ^ 32" "j < 2 ^ 32" using i j assms by simp_all
    then show "i = j" using e unat_of_nat_below [of i] unat_of_nat_below [of j] by metis
  qed
  then show ?thesis unfolding selected_archetypes_def by (simp add: distinct_map) (erule inj_on_subset, auto)
qed

lemma chunks_of_erase: "chunks_of (forget_cache (erase_world w)) ais = chunks_of w ais"
proof (induction ais)
  case (Cons ai ais)
  have "arch_at (forget_cache (erase_world w)) ai = map_option erase_arch (arch_at w ai)"
    using arch_at_skel [of "(w, empty_buffer)" ai] by (simp add: io_skel_def)
  moreover have "filter (\<lambda>c. 0 < chunk_count (chunks (erase_arch a) ! c)) [0..<length (chunks a)]
      = filter (\<lambda>c. 0 < chunk_count (chunks a ! c)) [0..<length (chunks a)]" for a :: "'a Archetype"
    by (intro filter_cong) (simp_all add: erased_chunk)
  ultimately show ?case using Cons by (cases "arch_at w ai") simp_all
qed simp

lemma chunks_of_total:
  assumes "\<forall>ai \<in> set ais. unat ai < length (archetypes K)"
  shows "\<exists>cs. chunks_of K ais = Some cs \<and> (\<forall>l \<in> set cs. archetype_idx l \<in> set ais) \<and> (distinct ais \<longrightarrow> distinct cs)"
  using assms
proof (induction ais)
  case (Cons ai ais)
  then obtain cs where cs: "chunks_of K ais = Some cs" "\<forall>l \<in> set cs. archetype_idx l \<in> set ais" "distinct ais \<longrightarrow> distinct cs" by auto
  obtain a where a: "arch_at K ai = Some a" using Cons.prems arch_at_iff [of K ai] by auto
  let ?here = "map (\<lambda>c. \<lparr>archetype_idx = ai, chunk_idx = c\<rparr>) (filter (\<lambda>c. chunk_count (chunks a ! c) > 0) [0..<length (chunks a)])"
  have "distinct ?here" by (simp add: distinct_map inj_on_def)
  then show ?case using cs a by auto
qed simp

lemma chunk_list_facts:
  assumes "length (archetypes K) < 2 ^ 32"
  shows "chunks_of K (selected_archetypes key K) = Some (chunk_list key K)" "distinct (chunk_list key K)"
    "l \<in> set (chunk_list key K) \<Longrightarrow> archetype_idx l \<in> set (selected_archetypes key K)"
proof -
  have "\<forall>ai \<in> set (selected_archetypes key K). unat ai < length (archetypes K)" using selected_in(1) [OF assms] by blast
  then obtain cs where cs: "chunks_of K (selected_archetypes key K) = Some cs"
    "\<forall>l \<in> set cs. archetype_idx l \<in> set (selected_archetypes key K)" "distinct cs"
    using chunks_of_total selected_distinct [OF assms] by blast
  then show "chunks_of K (selected_archetypes key K) = Some (chunk_list key K)" "distinct (chunk_list key K)"
    "l \<in> set (chunk_list key K) \<Longrightarrow> archetype_idx l \<in> set (selected_archetypes key K)" by (simp_all add: chunk_list_def)
qed

section \<open>Items keep to their places\<close>

lemma items_of_cases:
  assumes "it \<in> set (items_of K slots x)" "length (archetypes K) < 2 ^ 32"
  obtains (chunk) k where "is_threaded (snd x)" "k < length (chunk_list (slot_key slots (fst x)) K)"
      "it = ThreadedChunk (fst x) (snd x) (archetype_idx (chunk_list (slot_key slots (fst x)) K ! k))
              (chunk_idx (chunk_list (slot_key slots (fst x)) K ! k)) k"
      "archetype_idx (chunk_list (slot_key slots (fst x)) K ! k) \<in> set (selected_archetypes (slot_key slots (fst x)) K)"
    | (whole) "\<not> is_threaded (snd x)" "it = SerialWhole (fst x) (snd x)"
  using assms chunk_list_facts(3) [OF assms(2)] by (auto simp: items_of_def split: if_splits)

lemma item_of_system [simp]: "it \<in> set (items_of K slots x) \<Longrightarrow> item_system it = fst x"
  by (auto simp: items_of_def split: if_splits)

lemma item_selects:
  assumes "it \<in> set (items_of K slots x)" "length (archetypes K) < 2 ^ 32" "(a, c) \<in> item_domain K slots it"
  shows "selects (slot_key slots (fst x)) (set (signature (archetypes K ! a)))"
  using assms(1,2)
proof (cases rule: items_of_cases)
  case (chunk k)
  then show ?thesis using selected_in(2) [OF assms(2)] assms(3) by auto
next
  case whole
  then show ?thesis using selected_in(2) [OF assms(2)] assms(3) by auto
qed

lemma item_framed:
  fixes K :: "'v World"
  assumes "it \<in> set (items_of K slots x)" "length (archetypes K) < 2 ^ 32" "in_tick K" "\<not> in_apply_phase K"
    "system_ok vt (slot_reg (slots ! fst x)) (snd x)"
  shows "io.framed K (reads (slot_reg (slots ! fst x)) K (item_domain K slots it))
    (writes (slot_reg (slots ! fst x)) K (item_domain K slots it)) (item_visits vt today K slots it)"
proof -
  let ?r = "slot_reg (slots ! fst x)"
  have h: "honest vt ?r (snd x)" using assms(5) by (simp add: system_ok_def)
  show ?thesis using assms(1,2)
  proof (cases rule: items_of_cases)
    case (chunk k)
    then show ?thesis using honest_visit [OF h assms(3,4)] by simp
  next
    case whole
    have "io.framed K (reads ?r K (item_domain K slots it)) (writes ?r K (item_domain K slots it)) Some"
      by (rule io.framed_skip [OF writes_reads])
    moreover have "io.framed K (reads ?r K (item_domain K slots it)) (writes ?r K (item_domain K slots it))
        (visit_archetypes (visit_chunk vt today (snd x)) (selected_archetypes (slot_key slots (fst x)) K))"
      by (rule framed_visits [OF _ writes_reads], rule honest_visit [OF h assms(3,4)]) (simp add: whole(2))
    ultimately show ?thesis by (simp add: whole(2))
  qed
qed

definition item_reads :: "'v World \<Rightarrow> 'v SystemSlot list \<Rightarrow> 'v WorkItem \<Rightarrow> (world_place + buffer_place) set" where
  "item_reads K slots it = on_buffer (item_buffer it) ` reads (slot_reg (slots ! item_system it)) K (item_domain K slots it)"

definition item_writes :: "'v World \<Rightarrow> 'v SystemSlot list \<Rightarrow> 'v WorkItem \<Rightarrow> (world_place + buffer_place) set" where
  "item_writes K slots it = on_buffer (item_buffer it) ` writes (slot_reg (slots ! item_system it)) K (item_domain K slots it)"

lemma item_step_framed:
  assumes "it \<in> set (items_of K slots x)" "length (archetypes K) < 2 ^ 32" "in_tick K" "\<not> in_apply_phase K"
    "system_ok vt (slot_reg (slots ! fst x)) (snd x)" "forget_cache (tick_world L) = K"
  shows "stage.framed L (item_reads K slots it) (item_writes K slots it) (item_step vt today K slots it)"
  unfolding item_step_def item_reads_def item_writes_def item_of_system [OF assms(1)]
  by (rule framed_run_on [OF _ _ _ writes_reads]) (use assms(6) item_framed [OF assms(1-5)] in simp_all)

lemma item_place:
  "Inl p \<in> item_writes K slots it \<longleftrightarrow> may_write (slot_reg (slots ! item_system it)) K (item_domain K slots it) p"
  "Inl p \<in> item_reads K slots it \<longleftrightarrow> may_read (slot_reg (slots ! item_system it)) K (item_domain K slots it) p"
  "Inr b \<in> item_writes K slots it \<longleftrightarrow> b = item_buffer it" "Inr b \<in> item_reads K slots it \<longleftrightarrow> b = item_buffer it"
  by (auto simp: item_writes_def item_reads_def writes_def reads_def image_image)

lemma same_buffer_same_item:
  assumes "it \<in> set (items_of K slots x)" "it' \<in> set (items_of K slots y)" "x \<in> set rs" "y \<in> set rs" "distinct (map fst rs)"
    "item_buffer it = item_buffer it'"
  shows "it = it'"
proof -
  have "item_system it = item_system it'" using assms(6) by (cases it; cases it') auto
  then have "fst x = fst y" using assms(1,2) by simp
  then have "x = y" using assms(3-5) by (simp add: distinct_map inj_on_def)
  then show ?thesis using assms(1,2,6) by (auto simp: items_of_def split: if_splits)
qed

lemma items_apart:
  assumes ok: "systems_ok vt slots rs" and len: "length (archetypes K) < 2 ^ 32"
    and it: "x \<in> set rs" "it \<in> set (items_of K slots x)" and it': "y \<in> set rs" "it' \<in> set (items_of K slots y)" and ne: "it \<noteq> it'"
  shows "item_writes K slots it \<inter> item_reads K slots it' = {}"
proof (rule equals0I)
  let ?a = "slot_reg (slots ! fst x)" and ?b = "slot_reg (slots ! fst y)"
  have sys: "system_ok vt ?a (snd x)" "system_ok vt ?b (snd y)" and d: "distinct (map fst rs)"
    using ok it(1) it'(1) by (auto simp: systems_ok_def)
  fix q assume "q \<in> item_writes K slots it \<inter> item_reads K slots it'"
  then have q: "q \<in> item_writes K slots it" "q \<in> item_reads K slots it'" by simp_all
  show False
  proof (cases q)
    case (Inr b)
    then have "item_buffer it = item_buffer it'" using q by (simp add: item_place)
    then show False using same_buffer_same_item [OF it(2) it'(2) it(1) it'(1) d] ne by blast
  next
    case (Inl p)
    have p: "may_write ?a K (item_domain K slots it) p" "may_read ?b K (item_domain K slots it') p"
      using q it(2) it'(2) by (simp_all add: Inl item_place)
    show False
    proof (cases "fst x = fst y")
      case False
      then have nc: "\<not> real_conflict ?a ?b" using ok it(1) it'(1) by (auto simp: systems_ok_def)
      show False
        by (rule apart_systems [OF _ _ nc _ _ p])
          (use sys item_selects [OF it(2) len] item_selects [OF it'(2) len] in \<open>auto simp: system_ok_def slot_key_def\<close>)
    next
      case True
      then have xy: "x = y" using it(1) it'(1) d by (simp add: distinct_map inj_on_def)
      obtain k where k: "is_threaded (snd x)" "k < length (chunk_list (slot_key slots (fst x)) K)"
        "it = ThreadedChunk (fst x) (snd x) (archetype_idx (chunk_list (slot_key slots (fst x)) K ! k))
              (chunk_idx (chunk_list (slot_key slots (fst x)) K ! k)) k"
        using it(2) it'(2) ne xy by (auto simp: items_of_def split: if_splits)
      obtain k' where k': "k' < length (chunk_list (slot_key slots (fst x)) K)"
        "it' = ThreadedChunk (fst x) (snd x) (archetype_idx (chunk_list (slot_key slots (fst x)) K ! k'))
              (chunk_idx (chunk_list (slot_key slots (fst x)) K ! k')) k'"
        using it'(2) xy k(1) by (auto simp: items_of_def)
      let ?l = "chunk_list (slot_key slots (fst x)) K ! k" and ?l' = "chunk_list (slot_key slots (fst x)) K ! k'"
      have "k \<noteq> k'" using ne k k' by auto
      then have "?l \<noteq> ?l'" using chunk_list_facts(2) [OF len] k(2) k'(1) by (simp add: nth_eq_iff_index_eq)
      then have "(unat (archetype_idx ?l), chunk_idx ?l) \<noteq> (unat (archetype_idx ?l'), chunk_idx ?l')" by auto
      moreover have "self_apart ?a" "registered ?a" using sys(1) k(1) by (auto simp: system_ok_def)
      moreover have "may_write ?a K {(unat (archetype_idx ?l), chunk_idx ?l)} p"
        "may_read ?a K {(unat (archetype_idx ?l'), chunk_idx ?l')} p"
        using p xy by (simp_all add: k(3) k'(2))
      ultimately show False using apart_chunks by blast
    qed
  qed
qed

definition stage_items :: "'v World \<Rightarrow> 'v SystemSlot list \<Rightarrow> (nat \<times> 'v SystemCode) list \<Rightarrow> 'v WorkItem list" where
  "stage_items K slots rs = concat (map (items_of K slots) rs)"

lemma items_of_distinct: "distinct (items_of K slots x)"
  by (auto simp: items_of_def distinct_map inj_on_def)

lemma stage_items_distinct: "distinct (map fst rs) \<Longrightarrow> distinct (stage_items K slots rs)"
proof (induction rs)
  case (Cons x rs)
  have "set (items_of K slots x) \<inter> set (stage_items K slots rs) = {}"
  proof (rule equals0I)
    fix it assume "it \<in> set (items_of K slots x) \<inter> set (stage_items K slots rs)"
    then obtain y where "it \<in> set (items_of K slots x)" "y \<in> set rs" "it \<in> set (items_of K slots y)" by (auto simp: stage_items_def)
    then have "fst y = fst x" using item_of_system by metis
    then show False using Cons.prems \<open>y \<in> set rs\<close> by (metis distinct.simps(2) image_eqI list.map(2) set_map)
  qed
  then show ?case using Cons items_of_distinct by (simp add: stage_items_def)
qed (simp add: stage_items_def)

text \<open>The pool may run the items of a stage in any order.\<close>

lemma items_any_order:
  assumes ok: "systems_ok vt slots rs" and K: "length (archetypes K) < 2 ^ 32" "in_tick K" "\<not> in_apply_phase K"
    "io_skel (tick_world s, empty_buffer) = K"
    and js: "mset js = mset (stage_items K slots rs)"
  shows "in_order (item_step vt today K slots) js s = in_order (item_step vt today K slots) (stage_items K slots rs) s"
proof (rule stage.any_order [OF _ _ _ _ refl js])
  have at: "\<exists>x \<in> set rs. it \<in> set (items_of K slots x)" if "it \<in> set (stage_items K slots rs)" for it
    using that by (auto simp: stage_items_def)
  have L: "forget_cache (tick_world (stage_skel s)) = K" using K(4) by (simp add: stage_skel_def io_skel_def)
  show "stage.framed (stage_skel s) (item_reads K slots it) (item_writes K slots it) (item_step vt today K slots it)"
    if "it \<in> set (stage_items K slots rs)" for it
    using at [OF that] item_step_framed [OF _ K(1-3) _ L] ok unfolding systems_ok_def by blast
  show "item_writes K slots it \<subseteq> item_reads K slots it" for it
    using writes_reads unfolding item_writes_def item_reads_def by (rule image_mono)
  show "stage.apart (item_reads K slots) (item_writes K slots) (set (stage_items K slots rs))"
    unfolding stage.apart_def using at items_apart [OF ok K(1)] by blast
  show "distinct (stage_items K slots rs)" by (rule stage_items_distinct) (use ok in \<open>simp add: systems_ok_def\<close>)
qed

end
