(* ===== verification/Stage_Modes.thy ===== *)
theory Stage_Modes
  imports Stage_Items
begin

text \<open>
  The two ways to run a stage: one system after the other, or all work items in one dispatch with the
  buffers merged afterwards.  Both are the items of every system between its preparation and its merge,
  and these steps of different systems commute.
\<close>

section \<open>Changing one slot\<close>

definition on_slot :: "nat \<Rightarrow> ('v SystemSlot \<Rightarrow> 'v SystemSlot option) \<Rightarrow> 'v TickState \<Rightarrow> 'v TickState option" where
  "on_slot j g s = do {
     sl \<leftarrow> arr_get (system_slots s) (int j);
     sl \<leftarrow> g sl;
     Some (s\<lparr>system_slots := (system_slots s)[j := sl]\<rparr>) }"

primrec buffer_slot :: "buffer_place \<Rightarrow> nat" where
  "buffer_slot (PendingOf i) = i"
| "buffer_slot (ChunkCmdOf i k) = i"

lemma buffer_slot_item [simp]: "buffer_slot (item_buffer it) = item_system it"
  by (cases it) simp_all

lemma run_on_on_slot:
  assumes "buffer_slot b \<noteq> j"
  shows "Option.bind (on_slot j g s) (run_on b f) = Option.bind (run_on b f s) (on_slot j g)"
proof -
  have at: "buffer_at (slots[j := sl]) b = buffer_at slots b" "with_buffer b cb (slots[j := sl]) = (with_buffer b cb slots)[j := sl]"
    "with_buffer b cb slots ! j = slots ! j" "length (with_buffer b cb slots) = length slots" for slots sl cb
    using assms by (auto simp: buffer_at_def with_buffer_def nth_updated list_update_swap split: buffer_place.splits)
  show ?thesis
    by (cases "buffer_at (system_slots s) b"; cases "j < length (system_slots s)"; cases "g (system_slots s ! j)")
      (auto simp: on_slot_def run_on_def arr_get_def at split: Option.bind_splits)
qed

lemma on_slot_swap:
  assumes "i \<noteq> j"
  shows "Option.bind (on_slot i g s) (on_slot j h) = Option.bind (on_slot j h s) (on_slot i g)"
  using assms by (auto simp: on_slot_def arr_get_def nth_updated list_update_swap split: Option.bind_splits)

section \<open>The query cache\<close>

definition set_cache :: "(QueryCacheKey \<Rightarrow> CachedQuery option) \<Rightarrow> 'v TickState \<Rightarrow> 'v TickState" where
  "set_cache c s = s\<lparr>tick_world := (tick_world s)\<lparr>query_cache := c\<rparr>\<rparr>"

definition resolve_into :: "QueryCacheKey \<Rightarrow> 'v TickState \<Rightarrow> 'v TickState" where
  "resolve_into key s = s\<lparr>tick_world := snd (resolve_query_cache key (tick_world s))\<rparr>"

lemma resolve_into_cache: "resolve_into key s = set_cache (query_cache (snd (resolve_query_cache key (tick_world s)))) s"
  by (cases s) (auto simp: resolve_into_def set_cache_def resolve_query_cache_def Let_def split: option.splits)

lemma resolve_skeleton:
  assumes "forget_cache (erase_world w) = forget_cache (erase_world w')" "query_cache w = query_cache w'"
  shows "query_cache (snd (resolve_query_cache key w)) = query_cache (snd (resolve_query_cache key w'))"
proof -
  have a: "map erase_arch (archetypes w) = map erase_arch (archetypes w')" "archetype_epoch w = archetype_epoch w'"
    using arg_cong [OF assms(1), of archetypes] arg_cong [OF assms(1), of archetype_epoch] by simp_all
  have k: "arch_key (erase_arch x) = arch_key x" for x :: "'a Archetype" by (simp add: arch_key_def erase_arch_def)
  have "map arch_key (archetypes w) = map arch_key (archetypes w')"
    using arg_cong [OF a(1), of "map arch_key"] by (simp add: k comp_def)
  then show ?thesis
    using query_scan_keys [of "archetypes w" "archetypes w'"] assms(2) a(2)
    by (auto simp: resolve_query_cache_def Let_def split: option.splits)
qed

lemma run_on_set_cache:
  assumes f: "io.framed K R W f" "\<And>key. Some (CachedAt key) \<notin> R \<union> W" "None \<in> W" and s: "forget_cache (erase_world (tick_world s)) = K"
  shows "run_on b f (set_cache c s) = map_option (set_cache c) (run_on b f s)"
proof (cases "buffer_at (system_slots s) b")
  case (Some cb)
  let ?w = "tick_world s"
  let ?wc = "?w\<lparr>query_cache := c\<rparr>"
  have k: "io_skel (?w, cb) = K" "io_skel (?wc, cb) = K" using s by (auto simp: io_skel_def forget_cache_def erase_world_def)
  have g: "io_get (?w, cb) p = io_get (?wc, cb) p" if "\<And>key. p \<noteq> Some (CachedAt key)" for p
    using that by (cases p; cases "the p") (auto simp: io_get_def)
  have r: "io_get (?w, cb) p = io_get (?wc, cb) p" if "p \<in> R" for p using that f(2) by (intro g) blast
  have none: "f (?w, cb) = None \<longleftrightarrow> f (?wc, cb) = None" by (rule io.framed_cong(1) [OF f(1) k r])
  have val: "f (?wc, cb) = Some (w'\<lparr>query_cache := c\<rparr>, cb')" if fw: "f (?w, cb) = Some (w', cb')" for w' cb'
  proof -
    obtain u where u: "f (?wc, cb) = Some u" using none fw by fastforce
    note k1 = io.framed_keeps [OF f(1) k(1) fw] and k2 = io.framed_keeps [OF f(1) k(2) u]
    have "u = (w'\<lparr>query_cache := c\<rparr>, cb')"
    proof (rule io.ext)
      show "io_skel u = io_skel (w'\<lparr>query_cache := c\<rparr>, cb')"
        using k1(1) k2(1) by (auto simp: io_skel_def forget_cache_def erase_world_def)
      fix p
      show "io_get u p = io_get (w'\<lparr>query_cache := c\<rparr>, cb') p"
      proof (cases "p \<in> W")
        case True
        then have nc: "p \<noteq> Some (CachedAt key)" for key using f(2) by blast
        have "io_get u p = io_get (w', cb') p" using io.framed_cong(2) [OF f(1) k r fw u True] by simp
        then show ?thesis using nc by (cases p; cases "the p") (auto simp: io_get_def)
      next
        case False
        then obtain q where q: "p = Some q" using f(3) by (cases p) auto
        have "io_get u p = io_get (?wc, cb) p" "io_get (w', cb') p = io_get (?w, cb) p" using k1(2) k2(2) False by simp_all
        then show ?thesis by (cases q) (auto simp: q io_get_def)
      qed
    qed
    then show ?thesis using u by simp
  qed
  show ?thesis
    using Some none val by (cases "f (?w, cb)") (auto simp: run_on_def set_cache_def split: prod.splits)
qed (simp add: run_on_def set_cache_def)

section \<open>States of a stage\<close>

definition at_stage :: "'v World \<Rightarrow> 'v SystemSlot list \<Rightarrow> 'v TickState \<Rightarrow> bool" where
  "at_stage K slots s \<longleftrightarrow> ticking K (tick_world s) \<and> map slot_reg (system_slots s) = map slot_reg slots"

lemma at_stage_slot:
  assumes "at_stage K slots s"
  shows "length (system_slots s) = length slots" "i < length slots \<Longrightarrow> slot_reg (system_slots s ! i) = slot_reg (slots ! i)"
proof -
  have m: "map slot_reg (system_slots s) = map slot_reg slots" using assms by (simp add: at_stage_def)
  show l: "length (system_slots s) = length slots" using m by (rule map_eq_imp_length_eq)
  show "slot_reg (system_slots s ! i) = slot_reg (slots ! i)" if "i < length slots"
    using arg_cong [OF m, of "\<lambda>xs. xs ! i"] that l by simp
qed

lemma keys_ok_resolve:
  assumes "keys_ok w"
  shows "keys_ok (snd (resolve_query_cache key w))"
proof -
  obtain q w' where q: "resolve_query_cache key w = (q, w')" by fastforce
  then show ?thesis using resolve_fresh [OF _ q] assms by (simp add: keys_ok_def)
qed

lemma resolve_fields:
  "forget_cache (erase_world (snd (resolve_query_cache key w))) = forget_cache (erase_world w)"
  "in_tick (snd (resolve_query_cache key w)) = in_tick w" "in_apply_phase (snd (resolve_query_cache key w)) = in_apply_phase w"
  by (auto simp: resolve_query_cache_def Let_def forget_cache_def erase_world_def split: option.splits)

lemma at_stage_resolve [simp]: "at_stage K slots s \<Longrightarrow> at_stage K slots (resolve_into key s)"
  by (simp add: at_stage_def resolve_into_def ticking_def keys_ok_resolve resolve_fields)

lemma at_stage_on_slot:
  assumes "on_slot j g s = Some t" "at_stage K slots s" "\<And>sl sl'. g sl = Some sl' \<Longrightarrow> slot_reg sl' = slot_reg sl"
  shows "at_stage K slots t"
proof -
  obtain sl where sl: "j < length (system_slots s)" "g (system_slots s ! j) = Some sl" "t = s\<lparr>system_slots := (system_slots s)[j := sl]\<rparr>"
    using assms(1) by (auto simp: on_slot_def arr_get_def bind_eq_Some_conv split: if_splits)
  have "map slot_reg ((system_slots s)[j := sl]) = map slot_reg (system_slots s)"
    using assms(3) [OF sl(2)] sl(1) by (simp add: map_update list_update_same_conv)
  then show ?thesis using assms(2) sl(3) by (simp add: at_stage_def)
qed

lemma cache_ok_skeleton:
  assumes "forget_cache (erase_world w) = forget_cache (erase_world w')" "query_cache w = query_cache w'" "keys_ok w"
  shows "keys_ok w'"
proof -
  have a: "map erase_arch (archetypes w) = map erase_arch (archetypes w')" "archetype_epoch w = archetype_epoch w'"
    using arg_cong [OF assms(1), of archetypes] arg_cong [OF assms(1), of archetype_epoch] by simp_all
  have k: "arch_key (erase_arch x) = arch_key x" for x :: "'a Archetype" by (simp add: arch_key_def erase_arch_def)
  have keys: "map arch_key (archetypes w) = map arch_key (archetypes w')"
    using arg_cong [OF a(1), of "map arch_key"] by (simp add: k comp_def)
  have l: "length (archetypes w) = length (archetypes w')" using map_eq_imp_length_eq [OF keys] .
  have scan: "scan_of key (take n (archetypes w)) = scan_of key (take n (archetypes w'))" for key n
    unfolding scan_of_def by (rule query_scan_keys) (metis keys take_map)
  have "\<forall>x \<in> set (map arch_key (archetypes w)). sorted_wrt (<) (fst x) \<and> snd x = compute_matcher_hash (fst x)"
    using assms(3) by (simp add: keys_ok_def arch_key_def)
  then have "\<forall>x \<in> set (archetypes w'). sorted_wrt (<) (signature x) \<and> matcher_hash x = compute_matcher_hash (signature x)"
    unfolding keys by (simp add: arch_key_def)
  then show ?thesis
    using assms(2,3) a(2) l scan by (simp add: keys_ok_def cache_ok_def counted_def)
qed

lemma at_stage_step:
  assumes "item_step vt today K slots it s = Some t" "at_stage K slots s" "x \<in> set rs" "it \<in> set (items_of K slots x)"
    "systems_ok vt slots rs"
  shows "at_stage K slots t" "query_cache (tick_world t) = query_cache (tick_world s)"
proof -
  have tk: "ticking K (tick_world s)" using assms(2) by (simp add: at_stage_def)
  note K = ticking_K [OF tk]
  have sys: "system_ok vt (slot_reg (slots ! fst x)) (snd x)" using assms(3,5) by (simp add: systems_ok_def)
  have L: "forget_cache (tick_world (stage_skel s)) = K" using tk by (simp add: stage_skel_def ticking_def)
  note fr = stage.framed_keeps [OF item_step_framed [OF assms(4) K(3,1,2) sys L] refl assms(1)]
  have e: "erase_world (tick_world t) = erase_world (tick_world s)" "map erase_slot (system_slots t) = map erase_slot (system_slots s)"
    using arg_cong [OF fr(1), of tick_world] arg_cong [OF fr(1), of system_slots] by (simp_all add: stage_skel_def)
  show q: "query_cache (tick_world t) = query_cache (tick_world s)" using arg_cong [OF e(1), of query_cache] by simp
  have "in_tick (tick_world t) = in_tick (tick_world s)" "in_apply_phase (tick_world t) = in_apply_phase (tick_world s)"
    using arg_cong [OF e(1), of in_tick] arg_cong [OF e(1), of in_apply_phase] by simp_all
  moreover have "keys_ok (tick_world t)"
    by (rule cache_ok_skeleton [of "tick_world s"]) (use e(1) q tk in \<open>simp_all add: ticking_def\<close>)
  moreover have "map slot_reg (system_slots t) = map slot_reg (system_slots s)"
    using arg_cong [OF e(2), of "map slot_reg"] by (simp add: erase_slot_def comp_def)
  ultimately show "at_stage K slots t" using assms(2) e(1) by (simp add: at_stage_def ticking_def)
qed

section \<open>Preparing and merging a system\<close>

definition arm_slot :: "nat \<Rightarrow> 'v SystemSlot \<Rightarrow> 'v SystemSlot option" where
  "arm_slot n sl = Some (sl\<lparr>per_chunk_cmds := arm_cmds n (per_chunk_cmds sl)\<rparr>)"

definition merge_slot :: "nat \<Rightarrow> 'v SystemSlot \<Rightarrow> 'v SystemSlot option" where
  "merge_slot n sl = map_option (\<lambda>(pending, cmds). sl\<lparr>per_chunk_cmds := cmds, pending_cmd := pending\<rparr>)
     (merge_cmds n (pending_cmd sl) (per_chunk_cmds sl))"

abbreviation chunks_here :: "'v World \<Rightarrow> 'v SystemSlot list \<Rightarrow> nat \<Rightarrow> nat" where
  "chunks_here K slots i \<equiv> length (chunk_list (slot_key slots i) K)"

definition resolve_for :: "'v SystemSlot list \<Rightarrow> nat \<times> 'v SystemCode \<Rightarrow> 'v TickState \<Rightarrow> 'v TickState" where
  "resolve_for slots x s = (if require_ids (slot_key slots (fst x)) = [] then s else resolve_into (slot_key slots (fst x)) s)"

definition arm_for :: "'v World \<Rightarrow> 'v SystemSlot list \<Rightarrow> nat \<times> 'v SystemCode \<Rightarrow> 'v TickState \<Rightarrow> 'v TickState option" where
  "arm_for K slots x s = (if is_threaded (snd x) then on_slot (fst x) (arm_slot (chunks_here K slots (fst x))) s else Some s)"

definition prepare :: "'v World \<Rightarrow> 'v SystemSlot list \<Rightarrow> nat \<times> 'v SystemCode \<Rightarrow> 'v TickState \<Rightarrow> 'v TickState option" where
  "prepare K slots x s = arm_for K slots x (resolve_for slots x s)"

definition merge_for :: "'v World \<Rightarrow> 'v SystemSlot list \<Rightarrow> nat \<times> 'v SystemCode \<Rightarrow> 'v TickState \<Rightarrow> 'v TickState option" where
  "merge_for K slots x s = (if is_threaded (snd x) then on_slot (fst x) (merge_slot (chunks_here K slots (fst x))) s else Some s)"

lemma resolve_for_fun: "resolve_for slots x = (if require_ids (slot_key slots (fst x)) = [] then (\<lambda>s. s) else resolve_into (slot_key slots (fst x)))"
  by (simp add: fun_eq_iff resolve_for_def)

lemma arm_for_fun: "arm_for K slots x = (if is_threaded (snd x) then on_slot (fst x) (arm_slot (chunks_here K slots (fst x))) else Some)"
  by (simp add: fun_eq_iff arm_for_def)

lemma merge_for_fun: "merge_for K slots x = (if is_threaded (snd x) then on_slot (fst x) (merge_slot (chunks_here K slots (fst x))) else Some)"
  by (simp add: fun_eq_iff merge_for_def)

lemma arm_chunk_on_slot: "arm_chunk_cmds i n = on_slot i (arm_slot n)"
  by (auto simp: fun_eq_iff arm_chunk_cmds_def on_slot_def arm_slot_def)

lemma merge_chunk_on_slot: "merge_chunk_cmds i i n = on_slot i (merge_slot n)"
  by (auto simp: fun_eq_iff merge_chunk_cmds_def on_slot_def merge_slot_def arr_get_def Let_def split: Option.bind_splits prod.splits)

lemma arm_slot_reg: "arm_slot n sl = Some sl' \<Longrightarrow> slot_reg sl' = slot_reg sl"
  by (auto simp: arm_slot_def)

lemma merge_slot_reg: "merge_slot n sl = Some sl' \<Longrightarrow> slot_reg sl' = slot_reg sl"
  by (auto simp: merge_slot_def)

lemma at_stage_prepare:
  assumes "at_stage K slots s"
  shows "at_stage K slots (resolve_for slots x s)" "arm_for K slots x s = Some t \<Longrightarrow> at_stage K slots t"
    "prepare K slots x s = Some t \<Longrightarrow> at_stage K slots t" "merge_for K slots x s = Some t \<Longrightarrow> at_stage K slots t"
proof -
  show r: "at_stage K slots (resolve_for slots x s)" using assms by (simp add: resolve_for_def)
  have arm: "at_stage K slots t" if "arm_for K slots x s = Some t" "at_stage K slots s" for s t
    using that at_stage_on_slot [OF _ that(2) arm_slot_reg] by (auto simp: arm_for_def split: if_splits)
  show "arm_for K slots x s = Some t \<Longrightarrow> at_stage K slots t" "prepare K slots x s = Some t \<Longrightarrow> at_stage K slots t"
    using arm assms r by (auto simp: prepare_def)
  show "merge_for K slots x s = Some t \<Longrightarrow> at_stage K slots t"
    using at_stage_on_slot [OF _ assms merge_slot_reg] assms by (auto simp: merge_for_def split: if_splits)
qed

lemma on_slot_total: "j < length (system_slots s) \<Longrightarrow> \<exists>t. on_slot j (arm_slot n) s = Some t"
  by (simp add: on_slot_def arm_slot_def)

lemma resolve_on_slot:
  "on_slot j g (resolve_into key s) = map_option (resolve_into key) (on_slot j g s)"
  by (cases "j < length (system_slots s)"; cases "g (system_slots s ! j)")
    (auto simp: on_slot_def resolve_into_def arr_get_def)

lemma resolve_for_on_slot: "on_slot j g (resolve_for slots x s) = map_option (resolve_for slots x) (on_slot j g s)"
  by (simp add: resolve_for_fun resolve_on_slot option.map_ident)

text \<open>The steps of one system commute with the preparation and the merge of another.\<close>

lemma step_resolve:
  assumes "at_stage K slots s" "x \<in> set rs" "it \<in> set (items_of K slots x)" "systems_ok vt slots rs"
  shows "item_step vt today K slots it (resolve_for slots y s) = map_option (resolve_for slots y) (item_step vt today K slots it s)"
proof -
  have tk: "ticking K (tick_world s)" using assms(1) by (simp add: at_stage_def)
  note K = ticking_K [OF tk]
  have sys: "system_ok vt (slot_reg (slots ! fst x)) (snd x)" using assms(2,4) by (simp add: systems_ok_def)
  note f = item_framed [OF assms(3) K(3,1,2) sys, of today]
  let ?key = "slot_key slots (fst y)" and ?step = "item_step vt today K slots it"
  let ?c = "query_cache (snd (resolve_query_cache ?key (tick_world s)))"
  have "?step (set_cache ?c s) = map_option (set_cache ?c) (?step s)"
    unfolding item_step_def
    by (rule run_on_set_cache [OF f]) (use tk in \<open>auto simp: ticking_def reads_def writes_def\<close>)
  moreover have "set_cache ?c t = resolve_into ?key t" if t: "?step s = Some t" for t
  proof -
    note at = at_stage_step [OF t assms(1-4)]
    have "forget_cache (erase_world (tick_world t)) = forget_cache (erase_world (tick_world s))"
      using at(1) tk by (simp add: at_stage_def ticking_def)
    then show ?thesis unfolding resolve_into_cache using resolve_skeleton [OF _ at(2)] by simp
  qed
  ultimately have "?step (resolve_into ?key s) = map_option (resolve_into ?key) (?step s)"
    unfolding resolve_into_cache [of ?key s] by (cases "?step s") simp_all
  then show ?thesis by (simp add: resolve_for_fun option.map_ident)
qed

lemma step_on_slot:
  assumes "it \<in> set (items_of K slots x)" "fst x \<noteq> j"
  shows "Option.bind (on_slot j g s) (item_step vt today K slots it) = Option.bind (item_step vt today K slots it s) (on_slot j g)"
  unfolding item_step_def by (rule run_on_on_slot) (use assms in simp)

lemma step_prepare:
  assumes "at_stage K slots s" "x \<in> set rs" "it \<in> set (items_of K slots x)" "systems_ok vt slots rs" "fst x \<noteq> fst y"
  shows "Option.bind (prepare K slots y s) (item_step vt today K slots it) = Option.bind (item_step vt today K slots it s) (prepare K slots y)"
proof -
  let ?step = "item_step vt today K slots it" and ?arm = "on_slot (fst y) (arm_slot (chunks_here K slots (fst y)))"
  note st = step_resolve [OF assms(1-4), of today y]
  show ?thesis
  proof (cases "is_threaded (snd y)")
    case True
    have "Option.bind (?arm (resolve_for slots y s)) ?step = Option.bind (?step (resolve_for slots y s)) ?arm"
      by (rule step_on_slot [OF assms(3,5)])
    then show ?thesis using True by (cases "?step s") (simp_all add: prepare_def arm_for_def st)
  next
    case False
    then show ?thesis by (cases "?step s") (simp_all add: prepare_def arm_for_def st)
  qed
qed

lemma step_merge:
  assumes "it \<in> set (items_of K slots x)" "fst x \<noteq> fst y"
  shows "Option.bind (merge_for K slots y s) (item_step vt today K slots it) = Option.bind (item_step vt today K slots it s) (merge_for K slots y)"
  using step_on_slot [OF assms] by (simp add: merge_for_fun)

lemma prepare_merge:
  assumes "fst x \<noteq> fst y"
  shows "Option.bind (prepare K slots y s) (merge_for K slots x) = Option.bind (merge_for K slots x s) (prepare K slots y)"
proof -
  let ?m = "on_slot (fst x) (merge_slot (chunks_here K slots (fst x)))" and ?arm = "on_slot (fst y) (arm_slot (chunks_here K slots (fst y)))"
  have swap: "Option.bind (?arm (resolve_for slots y s)) ?m = Option.bind (?m s) (\<lambda>t. ?arm (resolve_for slots y t))"
  proof -
    have "Option.bind (?arm (resolve_for slots y s)) ?m = Option.bind (?m (resolve_for slots y s)) ?arm"
      by (rule on_slot_swap [OF assms [symmetric]])
    then show ?thesis unfolding resolve_for_on_slot [of "fst x"] by (cases "?m s") simp_all
  qed
  show ?thesis
  proof (cases "is_threaded (snd y)")
    case True
    then show ?thesis using swap by (cases "is_threaded (snd x)"; cases "?m s") (simp_all add: prepare_def arm_for_def merge_for_fun)
  next
    case False
    then show ?thesis using resolve_for_on_slot [of "fst x" _ slots y s]
      by (cases "is_threaded (snd x)"; cases "?m s") (simp_all add: prepare_def arm_for_def merge_for_fun)
  qed
qed

text \<open>Two loops whose steps commute.\<close>

lemma in_order_one_commute:
  assumes "\<And>y t. y \<in> set ys \<Longrightarrow> P t \<Longrightarrow> Option.bind (f y t) g = Option.bind (g t) (f y)" "P s"
    "\<And>y t u. y \<in> set ys \<Longrightarrow> P t \<Longrightarrow> f y t = Some u \<Longrightarrow> P u"
  shows "Option.bind (in_order f ys s) g = Option.bind (g s) (in_order f ys)"
  using assms
proof (induction ys arbitrary: s)
  case Nil
  show ?case by (cases "g s") simp_all
next
  case (Cons y ys)
  have "Option.bind (in_order f (y # ys) s) g = Option.bind (f y s) (\<lambda>t. Option.bind (in_order f ys t) g)" by (simp add: Option.bind_assoc)
  also have "\<dots> = Option.bind (f y s) (\<lambda>t. Option.bind (g t) (in_order f ys))"
  proof (cases "f y s")
    case (Some t)
    have "Option.bind (in_order f ys t) g = Option.bind (g t) (in_order f ys)"
    proof (rule Cons.IH)
      show "P t" by (rule Cons.prems(3) [OF _ Cons.prems(2) Some]) simp
      show "Option.bind (f z v) g = Option.bind (g v) (f z)" if "z \<in> set ys" "P v" for z v
        by (rule Cons.prems(1)) (use that in simp_all)
      show "P u" if "z \<in> set ys" "P v" "f z v = Some u" for z v u
        by (rule Cons.prems(3) [OF _ that(2,3)]) (use that(1) in simp)
    qed
    then show ?thesis using Some by simp
  qed simp
  also have "\<dots> = Option.bind (Option.bind (f y s) g) (in_order f ys)" by (simp add: Option.bind_assoc)
  also have "\<dots> = Option.bind (g s) (in_order f (y # ys))"
    using Cons.prems(1) [of y s] Cons.prems(2) by (cases "g s") simp_all
  finally show ?case .
qed

lemma in_order_commute:
  assumes "\<And>x y t. x \<in> set xs \<Longrightarrow> y \<in> set ys \<Longrightarrow> P t \<Longrightarrow> Option.bind (f y t) (g x) = Option.bind (g x t) (f y)" "P s"
    "\<And>y t u. y \<in> set ys \<Longrightarrow> P t \<Longrightarrow> f y t = Some u \<Longrightarrow> P u"
    "\<And>x t u. x \<in> set xs \<Longrightarrow> P t \<Longrightarrow> g x t = Some u \<Longrightarrow> P u"
  shows "Option.bind (in_order f ys s) (in_order g xs) = Option.bind (in_order g xs s) (in_order f ys)"
  using assms
proof (induction xs arbitrary: s)
  case Nil
  show ?case by (cases "in_order f ys s") simp_all
next
  case (Cons x xs)
  have one: "Option.bind (in_order f ys s) (g x) = Option.bind (g x s) (in_order f ys)"
  proof (rule in_order_one_commute [where P = P])
    show "Option.bind (f y t) (g x) = Option.bind (g x t) (f y)" if "y \<in> set ys" "P t" for y t
      by (rule Cons.prems(1) [OF _ that]) simp
  qed (rule Cons.prems(2), rule Cons.prems(3))
  have "Option.bind (in_order f ys s) (in_order g (x # xs)) = Option.bind (Option.bind (in_order f ys s) (g x)) (in_order g xs)"
    by (cases "in_order f ys s") simp_all
  also have "\<dots> = Option.bind (g x s) (\<lambda>t. Option.bind (in_order f ys t) (in_order g xs))" unfolding one by (simp add: Option.bind_assoc)
  also have "\<dots> = Option.bind (g x s) (\<lambda>t. Option.bind (in_order g xs t) (in_order f ys))"
  proof (cases "g x s")
    case (Some t)
    have "Option.bind (in_order f ys t) (in_order g xs) = Option.bind (in_order g xs t) (in_order f ys)"
    proof (rule Cons.IH)
      show "P t" by (rule Cons.prems(4) [OF _ Cons.prems(2) Some]) simp
      show "Option.bind (f y v) (g z) = Option.bind (g z v) (f y)" if "z \<in> set xs" "y \<in> set ys" "P v" for z y v
        by (rule Cons.prems(1)) (use that in simp_all)
      show "P u" if "y \<in> set ys" "P v" "f y v = Some u" for y v u by (rule Cons.prems(3) [OF that])
      show "P u" if "z \<in> set xs" "P v" "g z v = Some u" for z v u
        by (rule Cons.prems(4) [OF _ that(2,3)]) (use that(1) in simp)
    qed
    then show ?thesis using Some by simp
  qed simp
  also have "\<dots> = Option.bind (in_order g (x # xs) s) (in_order f ys)" by (simp add: Option.bind_assoc)
  finally show ?case .
qed

section \<open>Both modes\<close>

definition one_by_one :: "vtables_of \<Rightarrow> Date \<Rightarrow> 'v World \<Rightarrow> 'v SystemSlot list \<Rightarrow> nat \<times> 'v SystemCode \<Rightarrow> 'v TickState \<Rightarrow> 'v TickState option" where
  "one_by_one vt today K slots x s = do {
     s \<leftarrow> prepare K slots x s;
     s \<leftarrow> in_order (item_step vt today K slots) (items_of K slots x) s;
     merge_for K slots x s }"

definition all_at_once :: "vtables_of \<Rightarrow> Date \<Rightarrow> 'v World \<Rightarrow> 'v SystemSlot list \<Rightarrow> (nat \<times> 'v SystemCode) list \<Rightarrow> 'v TickState \<Rightarrow> 'v TickState option" where
  "all_at_once vt today K slots rs s = do {
     s \<leftarrow> in_order (prepare K slots) rs s;
     s \<leftarrow> in_order (item_step vt today K slots) (stage_items K slots rs) s;
     in_order (merge_for K slots) rs s }"

lemma modes_agree:
  assumes "systems_ok vt slots all" "set rs \<subseteq> set all" "distinct (map fst rs)" "at_stage K slots s"
  shows "in_order (one_by_one vt today K slots) rs s = all_at_once vt today K slots rs s"
  using assms(2-4)
proof (induction rs arbitrary: s)
  case Nil
  then show ?case by (simp add: all_at_once_def stage_items_def)
next
  case (Cons x rs)
  let ?step = "item_step vt today K slots" and ?P = "at_stage K slots" and ?prep = "in_order (prepare K slots) rs"
  let ?ix = "items_of K slots x" and ?irs = "stage_items K slots rs" and ?merges = "in_order (merge_for K slots) rs"
  have x: "x \<in> set all" and sub: "set rs \<subseteq> set all" and ne: "\<And>y. y \<in> set rs \<Longrightarrow> fst x \<noteq> fst y" and d: "distinct (map fst rs)"
    using Cons.prems by auto
  have step_keep: "?P u" if "it \<in> set ?ix" "?P t" "?step it t = Some u" for it t u
    by (rule at_stage_step(1) [OF that(3,2) x that(1) assms(1)])
  have irs: "\<exists>y \<in> set rs. it \<in> set (items_of K slots y)" if "it \<in> set ?irs" for it using that by (auto simp: stage_items_def)
  have step_keep': "?P u" if "it \<in> set ?irs" "?P t" "?step it t = Some u" for it t u
    using irs [OF that(1)] at_stage_step(1) [OF that(3,2) _ _ assms(1)] sub by blast
  have swap_prep: "Option.bind (?prep t) (in_order ?step ?ix) = Option.bind (in_order ?step ?ix t) ?prep" if "?P t" for t
    by (rule in_order_commute [of _ _ ?P])
      (use that step_prepare [OF _ x _ assms(1) ne] at_stage_prepare(3) step_keep in auto)
  have swap_merge: "Option.bind (in_order ?step ?irs t) (merge_for K slots x) = Option.bind (merge_for K slots x t) (in_order ?step ?irs)" if "?P t" for t
  proof (rule in_order_one_commute [of _ ?P])
    show "Option.bind (?step it u) (merge_for K slots x) = Option.bind (merge_for K slots x u) (?step it)" if it: "it \<in> set ?irs" "?P u" for it u
    proof -
      obtain y where y: "y \<in> set rs" "it \<in> set (items_of K slots y)" using irs [OF it(1)] by blast
      then have "fst y \<noteq> fst x" using ne by metis
      then show ?thesis using step_merge [OF y(2)] by metis
    qed
  qed (use that step_keep' in auto)
  have swap_both: "Option.bind (?prep t) (merge_for K slots x) = Option.bind (merge_for K slots x t) ?prep" if "?P t" for t
    by (rule in_order_one_commute [of _ ?P]) (use that prepare_merge [OF ne] at_stage_prepare(3) in auto)
  have rest: "Option.bind (?prep u) (\<lambda>v. Option.bind (in_order ?step ?irs v) (\<lambda>v. Option.bind (merge_for K slots x v) ?merges))
      = Option.bind (merge_for K slots x u) (all_at_once vt today K slots rs)" if u: "?P u" for u
  proof -
    have keep: "?P v" if "?prep u = Some v" for v
      by (rule in_order_keeps [where P = ?P, OF that u]) (rule at_stage_prepare(3))
    have "Option.bind (?prep u) (\<lambda>v. Option.bind (in_order ?step ?irs v) (\<lambda>v. Option.bind (merge_for K slots x v) ?merges))
        = Option.bind (?prep u) (\<lambda>v. Option.bind (merge_for K slots x v) (\<lambda>v. Option.bind (in_order ?step ?irs v) ?merges))"
    proof (cases "?prep u")
      case (Some v)
      have "Option.bind (Option.bind (in_order ?step ?irs v) (merge_for K slots x)) ?merges
          = Option.bind (Option.bind (merge_for K slots x v) (in_order ?step ?irs)) ?merges"
        unfolding swap_merge [OF keep [OF Some]] ..
      then show ?thesis using Some by (simp add: Option.bind_assoc)
    qed simp
    also have "\<dots> = Option.bind (Option.bind (?prep u) (merge_for K slots x)) (\<lambda>v. Option.bind (in_order ?step ?irs v) ?merges)"
      by (simp add: Option.bind_assoc)
    also have "\<dots> = Option.bind (merge_for K slots x u) (all_at_once vt today K slots rs)"
      unfolding swap_both [OF u] by (cases "merge_for K slots x u") (simp_all add: all_at_once_def)
    finally show ?thesis .
  qed
  have "all_at_once vt today K slots (x # rs) s = Option.bind (prepare K slots x s) (\<lambda>t.
      Option.bind (Option.bind (?prep t) (in_order ?step ?ix)) (\<lambda>u.
      Option.bind (in_order ?step ?irs u) (\<lambda>v. Option.bind (merge_for K slots x v) ?merges)))"
    by (simp add: all_at_once_def stage_items_def in_order_append Option.bind_assoc)
  also have "\<dots> = Option.bind (prepare K slots x s) (\<lambda>t. Option.bind (in_order ?step ?ix t) (\<lambda>u.
      Option.bind (merge_for K slots x u) (all_at_once vt today K slots rs)))"
  proof (cases "prepare K slots x s")
    case (Some t)
    have t: "?P t" by (rule at_stage_prepare(3) [OF Cons.prems(3) Some])
    show ?thesis
    proof (cases "in_order ?step ?ix t")
      case (Some u)
      have "?P u" by (rule in_order_keeps [where P = ?P, OF Some t]) (rule step_keep)
      then show ?thesis by (simp only: \<open>prepare K slots x s = Some t\<close> Some swap_prep [OF t] Option.bind.simps rest)
    qed (simp only: \<open>prepare K slots x s = Some t\<close> swap_prep [OF t] Option.bind.simps)
  qed simp
  also have "\<dots> = Option.bind (one_by_one vt today K slots x s) (all_at_once vt today K slots rs)"
    by (simp add: one_by_one_def Option.bind_assoc)
  also have "\<dots> = in_order (one_by_one vt today K slots) (x # rs) s"
  proof (cases "one_by_one vt today K slots x s")
    case (Some t)
    then obtain u v where st: "prepare K slots x s = Some u" "in_order ?step ?ix u = Some v" "merge_for K slots x v = Some t"
      by (auto simp: one_by_one_def bind_eq_Some_conv)
    have "?P u" by (rule at_stage_prepare(3) [OF Cons.prems(3) st(1)])
    then have "?P v" by (rule in_order_keeps [where P = ?P, OF st(2)]) (rule step_keep)
    then have "?P t" by (rule at_stage_prepare(4)) (rule st(3))
    then show ?thesis using Cons.IH [OF sub d] Some by simp
  qed simp
  finally show ?case ..
qed

end
