(* ===== verification/Stage_Runs.thy ===== *)
theory Stage_Runs
  imports Stage_Modes
begin

text \<open>
  The code of the scheduler follows the two modes: a stage run one system at a time and a stage run in one
  dispatch, whatever the order in which the pool takes the work.
\<close>

definition any_schedule :: "(nat \<Rightarrow> nat list) \<Rightarrow> bool" where
  "any_schedule od \<longleftrightarrow> (\<forall>n. mset (od n) = mset [0..<n])"

lemma schedule_items:
  assumes "any_schedule od"
  shows "mset (map ((!) xs) (od (length xs))) = mset xs" "k \<in> set (od n) \<Longrightarrow> k < n"
proof -
  have m: "mset (od n) = mset [0..<n]" for n using assms by (simp add: any_schedule_def)
  have "mset (map ((!) xs) (od (length xs))) = image_mset ((!) xs) (mset [0..<length xs])" by (simp add: m)
  also have "\<dots> = mset (map ((!) xs) [0..<length xs])" by simp
  finally show "mset (map ((!) xs) (od (length xs))) = mset xs" by (simp add: map_nth)
  show "k < n" if "k \<in> set (od n)" using that mset_eq_setD [OF m [of n]] by simp
qed

section \<open>Resolving a query\<close>

lemma warm_cache: "query_cache w = query_cache w' \<Longrightarrow> archetype_epoch w = archetype_epoch w' \<Longrightarrow> warm key w = warm key w'"
  by (simp add: warm_def)

lemma resolve_into_warm [simp]: "warm key (tick_world s) \<Longrightarrow> resolve_into key s = s"
  by (simp add: resolve_into_def resolve_warm)

lemma collect_at_stage:
  assumes "at_stage K slots s" "i < length slots" "key_sorted (slot_key slots i)"
  shows "collect_chunks i s = Some (chunk_list (slot_key slots i) K, resolve_into (slot_key slots i) s)"
proof -
  let ?key = "slot_key slots i"
  have tk: "ticking K (tick_world s)" using assms(1) by (simp add: at_stage_def)
  note K = ticking_K [OF tk] and sl = at_stage_slot [OF assms(1)]
  obtain q w' where q: "resolve_query_cache ?key (tick_world s) = (q, w')" by fastforce
  have "archetype_indices q = selected_archetypes ?key K"
    using selected_matched [OF tk assms(3)] by (simp add: matched_archetypes_def q)
  moreover have "forget_cache (erase_world w') = K" using resolve_fields(1) [of ?key "tick_world s"] tk by (simp add: q ticking_def)
  then have "chunks_of w' ais = chunks_of K ais" for ais using chunks_of_erase [of w' ais] by simp
  ultimately have "collect_matching_chunks ?key (tick_world s) = Some (chunk_list ?key K, w')"
    by (simp add: collect_matching_chunks_def q chunk_list_facts(1) [OF K(3)])
  moreover have "w' = snd (resolve_query_cache ?key (tick_world s))" by (simp add: q)
  ultimately show ?thesis using sl assms(2) by (simp add: collect_chunks_def resolve_into_def slot_key_def)
qed

lemma dispatch_serial_resolves:
  assumes "tick_body code \<noteq> AnchorTick"
  shows "run_on b (dispatch_serial vt today key code) s =
    run_on b (visit_archetypes (visit_chunk vt today code) (matched_archetypes key (tick_world s))) (resolve_into key s)"
  using assms
  by (cases "tick_body code"; cases "resolve_query_cache key (tick_world s)")
    (simp_all add: run_on_def resolve_into_def dispatch_serial_def for_each_matched_def visit_chunk_def visit_archetypes_def
      matched_archetypes_def case_prod_unfold)

lemma serial_item:
  assumes "at_stage K slots s" "x \<in> set rs" "systems_ok vt slots rs" "\<not> is_threaded (snd x)"
  shows "tick_all vt od today current (fst x) (snd x) s = item_step vt today K slots (SerialWhole (fst x) (snd x)) (resolve_for slots x s)"
proof -
  have tk: "ticking K (tick_world s)" using assms(1) by (simp add: at_stage_def)
  have ok: "fst x < length slots" "system_ok vt (slot_reg (slots ! fst x)) (snd x)" using assms(2,3) by (auto simp: systems_ok_def)
  note sl = at_stage_slot [OF assms(1)]
  have key: "key_sorted (slot_key slots (fst x))"
    using ok(2) registered_facts(1) by (auto simp: system_ok_def queries_sorted_def slot_key_def)
  have "tick_all vt od today current (fst x) (snd x) s =
      run_on (PendingOf (fst x)) (dispatch_serial vt today (slot_key slots (fst x)) (snd x)) s"
    using assms(4) ok(1) sl by (simp add: tick_all_def on_pending_run slot_key_def)
  moreover have "require_ids (slot_key slots (fst x)) = [] \<longleftrightarrow> tick_body (snd x) = AnchorTick"
    using ok(2) by (simp add: system_ok_def slot_key_def tick_query_def)
  ultimately show ?thesis
    using dispatch_serial_resolves [of "snd x" "PendingOf (fst x)" vt today "slot_key slots (fst x)" s] selected_matched [OF tk key]
    by (cases "tick_body (snd x) = AnchorTick")
      (auto simp: item_step_def resolve_for_def dispatch_serial_def [abs_def] run_on_def)
qed

lemma chunk_item:
  assumes "tick_body code = RowTick we f"
  shows "on_chunk_cmd i k (tick_one_chunk vt today code ai ci) = item_step vt today K slots (ThreadedChunk i code ai ci k)"
  using assms by (simp add: on_chunk_cmd_run item_step_def tick_one_chunk_def [abs_def] visit_chunk_def)

section \<open>One system\<close>

lemma in_order_nil: "in_order f [] = Some"
  by (simp add: fun_eq_iff)

lemma empty_slots:
  "arm_slot 0 = Some" "merge_slot 0 = Some" "i < length (system_slots s) \<Longrightarrow> on_slot i Some s = Some s"
  by (simp_all add: fun_eq_iff arm_slot_def arm_cmds_def merge_slot_def on_slot_def)

lemma tick_all_one:
  assumes at: "at_stage K slots s" and x: "x \<in> set rs" and ok: "systems_ok vt slots rs" and o: "any_schedule od"
  shows "tick_all vt od today (Some (fst x)) (fst x) (snd x) s = one_by_one vt today K slots x s"
proof (cases "is_threaded (snd x)")
  case False
  then show ?thesis using serial_item [OF at x ok False]
    by (cases "item_step vt today K slots (SerialWhole (fst x) (snd x)) (resolve_for slots x s)")
      (simp_all add: one_by_one_def prepare_def arm_for_def merge_for_fun items_of_def)
next
  case True
  let ?i = "fst x" and ?key = "slot_key slots (fst x)"
  let ?cs = "chunk_list ?key K" and ?items = "items_of K slots x"
  have sys: "?i < length slots" "system_ok vt (slot_reg (slots ! ?i)) (snd x)" using x ok by (auto simp: systems_ok_def)
  then obtain we f where body: "tick_body (snd x) = RowTick we f" using True by (auto simp: system_ok_def)
  have key: "key_sorted ?key" "require_ids ?key \<noteq> []"
    using sys(2) registered_facts(1) body by (auto simp: system_ok_def queries_sorted_def slot_key_def tick_query_def)
  have one: "systems_ok vt slots [x]" using sys by (simp add: systems_ok_def)
  define s1 where "s1 = resolve_into ?key s"
  have at1: "at_stage K slots s1" using at by (simp add: s1_def)
  have l1: "?i < length (system_slots s1)" using at_stage_slot(1) [OF at1] sys(1) by simp
  have prep: "prepare K slots x s = on_slot ?i (arm_slot (length ?cs)) s1"
    using True key(2) by (simp add: prepare_def arm_for_def resolve_for_def s1_def)
  have mrg: "merge_for K slots x = on_slot ?i (merge_slot (length ?cs))" using True by (simp add: merge_for_fun)
  have unf: "tick_all vt od today (Some ?i) ?i (snd x) s =
      (if ?cs = [] then Some s1 else do {
         s \<leftarrow> on_slot ?i (arm_slot (length ?cs)) s1;
         s \<leftarrow> parallel_for od (length ?cs) (\<lambda>k. on_chunk_cmd ?i k (tick_one_chunk vt today (snd x) (archetype_idx (?cs ! k)) (chunk_idx (?cs ! k)))) s;
         on_slot ?i (merge_slot (length ?cs)) s })"
    using True at_stage_slot [OF at] sys(1) collect_at_stage [OF at sys(1) key(1)]
    by (simp add: tick_all_def dispatch_threaded_def s1_def [symmetric] arm_chunk_on_slot merge_chunk_on_slot Let_def)
  show ?thesis
  proof (cases "?cs = []")
    case True
    then have "?items = []" using \<open>is_threaded (snd x)\<close> by (simp add: items_of_def)
    then show ?thesis using True l1 unfolding unf one_by_one_def prep mrg
      by (simp add: empty_slots)
  next
    case False
    have run: "parallel_for od (length ?cs) (\<lambda>k. on_chunk_cmd ?i k (tick_one_chunk vt today (snd x) (archetype_idx (?cs ! k)) (chunk_idx (?cs ! k)))) t
        = in_order (item_step vt today K slots) ?items t" if t: "at_stage K slots t" for t
    proof -
      have li: "length ?items = length ?cs" using True by (simp add: items_of_def)
      have "parallel_for od (length ?cs) (\<lambda>k. on_chunk_cmd ?i k (tick_one_chunk vt today (snd x) (archetype_idx (?cs ! k)) (chunk_idx (?cs ! k)))) t
          = in_order (\<lambda>k. item_step vt today K slots (?items ! k)) (od (length ?items)) t"
        unfolding parallel_for_def using False li
        by (simp, intro in_order_cong [where P = "\<lambda>_. True"])
          (simp_all add: chunk_item [OF body, of _ _ vt today _ _ K slots] items_of_def True schedule_items(2) [OF o])
      also have "\<dots> = in_order (item_step vt today K slots) (map ((!) ?items) (od (length ?items))) t" by (simp add: in_order_map)
      also have "\<dots> = in_order (item_step vt today K slots) (stage_items K slots [x]) t"
      proof (rule items_any_order [OF one])
        have tk: "ticking K (tick_world t)" using t by (simp add: at_stage_def)
        show "length (archetypes K) < 2 ^ 32" "in_tick K" "\<not> in_apply_phase K" using ticking_K [OF tk] by simp_all
        show "io_skel (tick_world t, empty_buffer) = K" using tk by (simp add: io_skel_def ticking_def)
        show "mset (map ((!) ?items) (od (length ?items))) = mset (stage_items K slots [x])"
          using schedule_items(1) [OF o, of ?items] by (simp add: stage_items_def)
      qed
      finally show ?thesis by (simp add: stage_items_def)
    qed
    show ?thesis
    proof (cases "on_slot ?i (arm_slot (length ?cs)) s1")
      case (Some t)
      have "at_stage K slots t" by (rule at_stage_on_slot [OF Some at1 arm_slot_reg])
      then show ?thesis using False Some unfolding unf one_by_one_def prep mrg by (simp add: run)
    qed (simp add: False unf one_by_one_def prep)
  qed
qed

lemma run_serially_one:
  assumes at: "at_stage K slots s" and ok: "systems_ok vt slots all" and sub: "set rs \<subseteq> set all" and o: "\<And>i. any_schedule (ord (Some i))"
  shows "run_serially vt ord today rs s = in_order (one_by_one vt today K slots) rs s"
  unfolding run_serially_def
proof (rule in_order_cong [where P = "at_stage K slots", OF at])
  fix x t assume x: "x \<in> set rs" and t: "at_stage K slots t"
  show e: "(case x of (i, code) \<Rightarrow> tick_all vt (ord (Some i)) today (Some i) i code) t = one_by_one vt today K slots x t"
    using tick_all_one [OF t _ ok o] x sub by (auto simp: case_prod_unfold)
  fix u assume "(case x of (i, code) \<Rightarrow> tick_all vt (ord (Some i)) today (Some i) i code) t = Some u"
  then obtain v w where st: "prepare K slots x t = Some v" "in_order (item_step vt today K slots) (items_of K slots x) v = Some w"
    "merge_for K slots x w = Some u"
    unfolding e by (auto simp: one_by_one_def bind_eq_Some_conv)
  have "at_stage K slots v" by (rule at_stage_prepare(3) [OF t st(1)])
  then have "at_stage K slots w"
    by (rule in_order_keeps [where P = "at_stage K slots", OF st(2)]) (use at_stage_step(1) [OF _ _ _ _ ok] x sub in blast)
  then show "at_stage K slots u" by (rule at_stage_prepare(4)) (rule st(3))
qed

section \<open>One dispatch\<close>

text \<open>Every query of the stage is warm.\<close>

definition warmed :: "'v SystemSlot list \<Rightarrow> (nat \<times> 'v SystemCode) list \<Rightarrow> 'v TickState \<Rightarrow> bool" where
  "warmed slots rs s \<longleftrightarrow> (\<forall>x \<in> set rs. require_ids (slot_key slots (fst x)) \<noteq> [] \<longrightarrow> warm (slot_key slots (fst x)) (tick_world s))"

lemma resolve_for_warmed: "warmed slots rs s \<Longrightarrow> x \<in> set rs \<Longrightarrow> resolve_for slots x s = s"
  by (auto simp: warmed_def resolve_for_def)

lemma fold_resolve_warmed: "warmed slots rs (fold (resolve_for slots) rs s)"
proof (induction rs rule: rev_induct)
  case (snoc x rs)
  have "warm key (tick_world (resolve_for slots x t))" if "warm key (tick_world t)" for key t
    using that by (simp add: resolve_for_def resolve_into_def resolve_keeps_warm)
  moreover have "warm (slot_key slots (fst x)) (tick_world (resolve_for slots x t))" if "require_ids (slot_key slots (fst x)) \<noteq> []" for t
    using that by (simp add: resolve_for_def resolve_into_def resolve_warms)
  ultimately show ?case using snoc by (auto simp: warmed_def)
qed (simp add: warmed_def)

lemma fold_resolve_slots [simp]: "system_slots (fold (resolve_for slots) rs s) = system_slots s"
  by (induction rs arbitrary: s) (simp_all add: resolve_for_def resolve_into_def)

lemma at_stage_fold [simp]: "at_stage K slots s \<Longrightarrow> at_stage K slots (fold (resolve_for slots) rs s)"
  by (induction rs arbitrary: s) (simp_all add: at_stage_prepare(1))

lemma prewarm_fold:
  assumes "map slot_reg (system_slots s) = map slot_reg slots" "\<forall>x \<in> set rs. fst x < length slots"
  shows "prewarm rs s = fold (resolve_for slots) rs s"
  using assms
proof (induction rs arbitrary: s)
  case (Cons x rs)
  have l: "length (system_slots s) = length slots" using Cons.prems(1) by (rule map_eq_imp_length_eq)
  have "slot_reg (system_slots s ! fst x) = slot_reg (slots ! fst x)"
    using arg_cong [OF Cons.prems(1), of "\<lambda>xs. xs ! fst x"] Cons.prems(2) l by simp
  then have "prewarm (x # rs) s = prewarm rs (resolve_for slots x s)"
    by (cases x) (simp add: prewarm_def resolve_for_def resolve_into_def slot_key_def Let_def)
  moreover have "system_slots (resolve_for slots x s) = system_slots s" by (simp add: resolve_for_def resolve_into_def)
  ultimately show ?case using Cons by simp
qed (simp add: prewarm_def)

lemma arm_fold_resolve: "arm_for K slots x (fold (resolve_for slots) rs s) = map_option (fold (resolve_for slots) rs) (arm_for K slots x s)"
proof (induction rs arbitrary: s)
  case (Cons y rs)
  have "arm_for K slots x (resolve_for slots y s) = map_option (resolve_for slots y) (arm_for K slots x s)"
    by (simp add: arm_for_def resolve_for_on_slot)
  then show ?case using Cons by (simp add: option.map_comp comp_def)
qed (simp add: option.map_id)

lemma prepare_fold: "in_order (prepare K slots) rs s = in_order (arm_for K slots) rs (fold (resolve_for slots) rs s)"
proof (induction rs arbitrary: s)
  case (Cons x rs)
  have "in_order (arm_for K slots) (x # rs) (fold (resolve_for slots) (x # rs) s)
      = Option.bind (arm_for K slots x (fold (resolve_for slots) rs (resolve_for slots x s))) (in_order (arm_for K slots) rs)" by simp
  also have "\<dots> = Option.bind (arm_for K slots x (resolve_for slots x s)) (\<lambda>t. in_order (arm_for K slots) rs (fold (resolve_for slots) rs t))"
    unfolding arm_fold_resolve by (cases "arm_for K slots x (resolve_for slots x s)") simp_all
  also have "\<dots> = Option.bind (prepare K slots x s) (in_order (prepare K slots) rs)"
    by (cases "prepare K slots x s") (simp_all add: Cons prepare_def)
  finally show ?case by simp
qed simp

definition stage_infos :: "'v World \<Rightarrow> 'v SystemSlot list \<Rightarrow> (nat \<times> 'v SystemCode) list \<Rightarrow> (nat \<times> nat) list" where
  "stage_infos K slots rs = map (\<lambda>x. (fst x, chunks_here K slots (fst x))) (filter (\<lambda>x. is_threaded (snd x)) rs)"

lemma stage_infos_simps [simp]:
  "stage_infos K slots [] = []"
  "stage_infos K slots (x # rs) = (if is_threaded (snd x) then (fst x, chunks_here K slots (fst x)) # stage_infos K slots rs else stage_infos K slots rs)"
  by (simp_all add: stage_infos_def)

lemma merge_infos: "in_order (\<lambda>(i, n). merge_chunk_cmds i i n) (stage_infos K slots rs) s = in_order (merge_for K slots) rs s"
  by (induction rs arbitrary: s)
    (auto simp: merge_for_def merge_chunk_on_slot split: Option.bind_splits)

lemma build_items_eq:
  assumes "at_stage K slots s" "systems_ok vt slots all" "set rs \<subseteq> set all" "warmed slots all s"
  shows "build_items rs s = map_option (\<lambda>t. (stage_items K slots rs, stage_infos K slots rs, t)) (in_order (arm_for K slots) rs s)"
  using assms(1,3,4)
proof (induction rs arbitrary: s)
  case Nil
  then show ?case by (simp add: stage_items_def)
next
  case (Cons x rs)
  obtain i code where xx: "x = (i, code)" by (cases x)
  have x: "x \<in> set all" and sub: "set rs \<subseteq> set all" using Cons.prems by auto
  have sys: "i < length slots" "system_ok vt (slot_reg (slots ! i)) code" using assms(2) x by (auto simp: systems_ok_def xx)
  have items: "stage_items K slots (x # rs) = items_of K slots x @ stage_items K slots rs" by (simp add: stage_items_def)
  show ?case
  proof (cases "is_threaded code")
    case False
    then have "arm_for K slots x s = Some s" by (simp add: arm_for_def xx)
    then show ?thesis using False Cons.IH [OF Cons.prems(1) sub Cons.prems(3)]
      by (cases "in_order (arm_for K slots) rs s") (simp_all add: xx items_of_def items [unfolded xx])
  next
    case True
    let ?key = "slot_key slots i"
    have key: "key_sorted ?key" "require_ids ?key \<noteq> []"
      using sys(2) registered_facts(1) True by (auto simp: system_ok_def queries_sorted_def slot_key_def tick_query_def)
    have "warm ?key (tick_world s)" using Cons.prems(3) x key(2) by (auto simp: warmed_def xx)
    then have cs: "collect_chunks i s = Some (chunk_list ?key K, s)"
      using collect_at_stage [OF Cons.prems(1) sys(1) key(1)] by simp
    have arm: "arm_chunk_cmds i (chunks_here K slots i) s = arm_for K slots x s" using True by (simp add: arm_for_def xx arm_chunk_on_slot)
    show ?thesis
    proof (cases "arm_for K slots x s")
      case None
      then show ?thesis using True cs arm by (simp add: xx)
    next
      case (Some t)
      have t: "at_stage K slots t" by (rule at_stage_prepare(2) [OF Cons.prems(1) Some])
      have "tick_world t = tick_world s" using Some by (auto simp: arm_for_def on_slot_def bind_eq_Some_conv split: if_splits)
      then have w: "warmed slots all t" using Cons.prems(3) by (simp add: warmed_def)
      have "build_items (x # rs) s = map_option (\<lambda>(items, infos, u). (items_of K slots x @ items, (i, chunks_here K slots i) # infos, u)) (build_items rs t)"
        using True cs arm Some by (cases "build_items rs t") (auto simp: xx items_of_def)
      then show ?thesis using True Some Cons.IH [OF t sub w]
        by (cases "in_order (arm_for K slots) rs t") (simp_all add: xx items [unfolded xx])
    qed
  qed
qed

lemma run_item_eq:
  assumes "at_stage K slots s" "systems_ok vt slots rs" "warmed slots rs s" "it \<in> set (stage_items K slots rs)"
  shows "run_item vt ord today it s = item_step vt today K slots it s"
proof -
  obtain x where x: "x \<in> set rs" "it \<in> set (items_of K slots x)" using assms(4) by (auto simp: stage_items_def)
  have sys: "system_ok vt (slot_reg (slots ! fst x)) (snd x)" using assms(2) x(1) by (simp add: systems_ok_def)
  show ?thesis
  proof (cases "is_threaded (snd x)")
    case True
    then obtain we f where "tick_body (snd x) = RowTick we f" using sys by (auto simp: system_ok_def)
    from chunk_item [OF this, of _ _ vt today _ _ K slots] True show ?thesis using x(2) by (auto simp: items_of_def run_item_def)
  next
    case False
    then show ?thesis using x(2) serial_item [OF assms(1) x(1) assms(2) False] resolve_for_warmed [OF assms(3) x(1)]
      by (simp add: items_of_def run_item_def)
  qed
qed

lemma run_combined_all:
  assumes at: "at_stage K slots s" and ok: "systems_ok vt slots rs" and o: "any_schedule (ord None)"
  shows "run_combined vt ord today rs s = all_at_once vt today K slots rs s"
proof -
  let ?items = "stage_items K slots rs" and ?step = "item_step vt today K slots"
  define s1 where "s1 = fold (resolve_for slots) rs s"
  have at1: "at_stage K slots s1" and wm1: "warmed slots rs s1" using at by (simp_all add: s1_def fold_resolve_warmed)
  have pre: "prewarm rs s = s1"
    unfolding s1_def by (rule prewarm_fold) (use at ok in \<open>simp_all add: at_stage_def systems_ok_def\<close>)
  have build: "build_items rs s1 = map_option (\<lambda>t. (?items, stage_infos K slots rs, t)) (in_order (prepare K slots) rs s)"
    using build_items_eq [OF at1 ok subset_refl wm1] by (simp add: prepare_fold s1_def)
  have run: "parallel_for (ord None) (length ?items) (\<lambda>k. run_item vt ord today (?items ! k)) t = in_order ?step ?items t"
    if t: "in_order (prepare K slots) rs s = Some t" for t
  proof (cases "?items = []")
    case False
    have at2: "at_stage K slots t" by (rule in_order_keeps [where P = "at_stage K slots", OF t at]) (rule at_stage_prepare(3))
    have w: "tick_world t = tick_world s1"
      by (rule in_order_keeps [where P = "\<lambda>u. tick_world u = tick_world s1", OF t [unfolded prepare_fold, folded s1_def]])
        (auto simp: arm_for_def on_slot_def bind_eq_Some_conv split: if_splits)
    then have wm2: "warmed slots rs t" using wm1 by (simp add: warmed_def)
    let ?P = "\<lambda>u. at_stage K slots u \<and> warmed slots rs u"
    have keep: "?P v" if it: "it \<in> set ?items" "?P u" "?step it u = Some v" for it u v
    proof -
      obtain x where x: "x \<in> set rs" "it \<in> set (items_of K slots x)" using it(1) by (auto simp: stage_items_def)
      note st = at_stage_step [OF it(3) conjunct1 [OF it(2)] x ok]
      have "forget_cache (erase_world (tick_world v)) = forget_cache (erase_world (tick_world u))"
        using st(1) it(2) by (simp add: at_stage_def ticking_def)
      from arg_cong [OF this, of archetype_epoch]
      have "archetype_epoch (tick_world v) = archetype_epoch (tick_world u)" by simp
      then show ?thesis using st it(2) warm_cache [of "tick_world v" "tick_world u"] by (simp add: warmed_def)
    qed
    have "parallel_for (ord None) (length ?items) (\<lambda>k. run_item vt ord today (?items ! k)) t
        = in_order (\<lambda>k. ?step (?items ! k)) (ord None (length ?items)) t"
    proof -
      have "in_order (\<lambda>k. run_item vt ord today (?items ! k)) (ord None (length ?items)) t = in_order (\<lambda>k. ?step (?items ! k)) (ord None (length ?items)) t"
      proof (rule in_order_cong [where P = ?P])
        show "?P t" using at2 wm2 by simp
        fix k u assume k: "k \<in> set (ord None (length ?items))" and u: "?P u"
        have it: "?items ! k \<in> set ?items" using schedule_items(2) [OF o k] by (rule nth_mem)
        show e: "run_item vt ord today (?items ! k) u = ?step (?items ! k) u"
          by (rule run_item_eq [OF conjunct1 [OF u] ok conjunct2 [OF u] it])
        show "?P v" if "run_item vt ord today (?items ! k) u = Some v" for v
          by (rule keep [OF it u]) (use that e in simp)
      qed
      then show ?thesis using False by (simp add: parallel_for_def)
    qed
    also have "\<dots> = in_order ?step (map ((!) ?items) (ord None (length ?items))) t" by (simp add: in_order_map)
    also have "\<dots> = in_order ?step ?items t"
    proof (rule items_any_order [OF ok])
      have tk: "ticking K (tick_world t)" using at2 by (simp add: at_stage_def)
      show "length (archetypes K) < 2 ^ 32" "in_tick K" "\<not> in_apply_phase K" using ticking_K [OF tk] by simp_all
      show "io_skel (tick_world t, empty_buffer) = K" using tk by (simp add: io_skel_def ticking_def)
      show "mset (map ((!) ?items) (ord None (length ?items))) = mset ?items" by (rule schedule_items(1) [OF o])
    qed
    finally show ?thesis .
  qed (simp add: parallel_for_def)
  show ?thesis
  proof (cases "in_order (prepare K slots) rs s")
    case (Some t)
    then show ?thesis using run [OF Some] build
      by (cases "in_order ?step ?items t") (simp_all add: run_combined_def all_at_once_def pre merge_infos)
  qed (simp add: run_combined_def all_at_once_def pre build)
qed

end
