(* ===== verification/Tick_Bodies.thy ===== *)
theory Tick_Bodies
  imports Stage_Order
begin

text \<open>
  Bodies that keep to their declarations: loads and stores through the references an iteration hands out,
  and the row systems built from them.
\<close>

section \<open>Loads and stores by place\<close>

definition place_of :: "cell_place \<Rightarrow> world_place" where
  "place_of p = (case p of (ai, l, col) \<Rightarrow> CellAt (unat ai) (loc_chunk l) (loc_row l) col)"

definition cell_of :: "'v World \<Rightarrow> cell_place \<Rightarrow> 'v option" where
  "cell_of w p = (case p of (ai, l, col) \<Rightarrow> cell_at (archetypes w) (unat ai) (loc_chunk l) (loc_row l) col)"

lemma world_get_place: "world_get w (place_of p) = Value (cell_of w p)"
  by (cases p) (simp add: place_of_def cell_of_def)

lemma load_cell_of: "load_cell w p = cell_of w p"
proof -
  obtain ai l col where p: "p = (ai, l, col)" by (cases p) auto
  show ?thesis
    by (cases "unat ai < length (archetypes w)") (auto simp: p load_cell_def cell_of_def cell_at_def arch_at_def arr_get_uint get_row_def chunk_count_def)
qed

definition put_cell :: "nat \<Rightarrow> nat \<Rightarrow> nat \<Rightarrow> nat \<Rightarrow> 'v \<Rightarrow> 'v Archetype list \<Rightarrow> 'v Archetype list" where
  "put_cell a c r col v as = as[a := (as ! a)\<lparr>chunks := (chunks (as ! a))[c := (chunks (as ! a) ! c)
     \<lparr>chunk_rows := (chunk_rows (chunks (as ! a) ! c))[r := (chunk_rows (chunks (as ! a) ! c) ! r)
       \<lparr>row_cells := (row_cells (chunk_rows (chunks (as ! a) ! c) ! r))[col := Some v]\<rparr>]\<rparr>]\<rparr>]"

lemma store_cell_eq:
  "store_cell (ai, l, col) v w =
     (if cell_of w (ai, l, col) = None then None
      else Some (w\<lparr>archetypes := put_cell (unat ai) (loc_chunk l) (loc_row l) col v (archetypes w)\<rparr>))"
  by (cases "unat ai < length (archetypes w)")
    (auto simp: store_cell_def cell_of_def cell_at_def arch_at_def arr_get_uint get_row_def chunk_count_def with_cells_def
      assign_cell_def set_arch_def set_row_def put_cell_def)

lemma cell_at_put:
  assumes "cell_at as a c r col \<noteq> None"
  shows "cell_at (put_cell a c r col v as) a' c' r' col' = (if (a', c', r', col') = (a, c, r, col) then Some v else cell_at as a' c' r' col')"
proof -
  have b: "a < length as" "c < length (chunks (as ! a))" "r < length (chunk_rows (chunks (as ! a) ! c))"
    "col < length (row_cells (chunk_rows (chunks (as ! a) ! c) ! r))"
    using assms by (auto simp: cell_at_def split: if_splits)
  consider "a' \<noteq> a" | "a' = a" "c' \<noteq> c" | "a' = a" "c' = c" "r' \<noteq> r" | "a' = a" "c' = c" "r' = r" by blast
  then show ?thesis using b by cases (simp_all add: put_cell_def cell_at_def nth_list_update)
qed

lemma erase_put:
  assumes "cell_at as a c r col \<noteq> None"
  shows "map erase_arch (put_cell a c r col v as) = map erase_arch as"
proof -
  have b: "a < length as" "c < length (chunks (as ! a))" "r < length (chunk_rows (chunks (as ! a) ! c))"
    using assms by (auto simp: cell_at_def split: if_splits)
  have row: "erase_row (x\<lparr>row_cells := (row_cells x)[col := y]\<rparr>) = erase_row x" for x and y :: "'a option"
    by (simp add: erase_row_def map_update list_update_same_conv map_replicate_const)
  have same: "map f (xs[i := x]) = map f xs" if "i < length xs" "f x = f (xs ! i)" for f and xs :: "'b list" and i and x
    using that by (simp add: map_update list_update_same_conv)
  show ?thesis
    unfolding put_cell_def using b
    by (intro same) (simp_all add: erase_arch_def erase_chunk_def same row)
qed

lemma store_cell_facts:
  assumes "store_cell p v w = Some w'"
  shows "forget_cache (erase_world w') = forget_cache (erase_world w)"
    "world_get w' q = (if q = place_of p then Value (Some v) else world_get w q)" "cell_of w p \<noteq> None"
proof -
  obtain ai l col where p: "p = (ai, l, col)" by (cases p) auto
  have c: "cell_at (archetypes w) (unat ai) (loc_chunk l) (loc_row l) col \<noteq> None"
    and w': "w' = w\<lparr>archetypes := put_cell (unat ai) (loc_chunk l) (loc_row l) col v (archetypes w)\<rparr>"
    using assms by (auto simp: p store_cell_eq cell_of_def split: if_splits)
  show "forget_cache (erase_world w') = forget_cache (erase_world w)"
    by (simp add: w' erase_world_def erase_put [OF c])
  show "world_get w' q = (if q = place_of p then Value (Some v) else world_get w q)"
    by (cases q) (auto simp: w' p place_of_def cell_at_put [OF c])
  show "cell_of w p \<noteq> None" using c by (simp add: p cell_of_def)
qed

lemma store_cell_none: "store_cell p v w = None \<longleftrightarrow> cell_of w p = None"
  by (cases p) (auto simp: store_cell_eq)

section \<open>Row systems\<close>

text \<open>One component computed from another of the same row.\<close>

definition update_cell :: "('v \<Rightarrow> 'v) \<Rightarrow> cell_place \<Rightarrow> cell_place \<Rightarrow> 'v tick_io \<Rightarrow> 'v tick_io option" where
  "update_cell g p q s = do {
     v \<leftarrow> load_cell (fst s) p;
     w \<leftarrow> store_cell q (g v) (fst s);
     Some (w, snd s) }"

lemma update_cell_framed:
  assumes "Some (place_of p) \<in> R" "Some (place_of q) \<in> W" "W \<subseteq> R"
  shows "io.framed K R W (update_cell g p q)"
proof -
  have split: "\<exists>v w. cell_of (fst s) p = Some v \<and> store_cell q (g v) (fst s) = Some w \<and> t = (w, snd s)"
    if "update_cell g p q s = Some t" for s t
    using that by (auto simp: update_cell_def bind_eq_Some_conv load_cell_of)
  have same: "cell_of (fst s) p = cell_of (fst s') p" "cell_of (fst s) q = cell_of (fst s') q"
    if "\<And>x. x \<in> R \<Longrightarrow> io_get s x = io_get s' x" for s s'
    using that [OF assms(1)] that [of "Some (place_of q)"] assms(2,3) by (auto simp: io_get_def world_get_place)
  show ?thesis
  proof (rule io.framedI)
    fix s t assume s: "io_skel s = K" "update_cell g p q s = Some t"
    obtain v w where t: "store_cell q (g v) (fst s) = Some w" "t = (w, snd s)" using split [OF s(2)] by blast
    show "io_skel t = K" using s(1) store_cell_facts(1) [OF t(1)] by (simp add: io_skel_def t(2))
    show "io_get t x = io_get s x" if "x \<notin> W" for x
      using that assms(2) store_cell_facts(2) [OF t(1)] by (cases x) (auto simp: io_get_def t(2))
  next
    fix s s' assume r: "\<And>x. x \<in> R \<Longrightarrow> io_get s x = io_get s' x" and n: "update_cell g p q s = None"
    show "update_cell g p q s' = None"
    proof (rule ccontr)
      assume "update_cell g p q s' \<noteq> None"
      then obtain v w where "cell_of (fst s') p = Some v" "store_cell q (g v) (fst s') = Some w" using split [of s'] by blast
      then show False
        using n same [OF r] store_cell_facts(3) [of q "g v" "fst s'" w] store_cell_none [of q "g v" "fst s"]
        by (auto simp: update_cell_def load_cell_of)
    qed
  next
    fix s s' t t' x
    assume r: "\<And>x. x \<in> R \<Longrightarrow> io_get s x = io_get s' x" and e: "update_cell g p q s = Some t" "update_cell g p q s' = Some t'" and x: "x \<in> W"
    obtain v w where t: "cell_of (fst s) p = Some v" "store_cell q (g v) (fst s) = Some w" "t = (w, snd s)" using split [OF e(1)] by blast
    obtain v' w' where t': "cell_of (fst s') p = Some v'" "store_cell q (g v') (fst s') = Some w'" "t' = (w', snd s')" using split [OF e(2)] by blast
    have "v = v'" using same(1) [OF r] t(1) t'(1) by simp
    moreover have "io_get s x = io_get s' x" using r x assms(3) by blast
    ultimately show "io_get t x = io_get t' x"
      using store_cell_facts(2) [OF t(2)] store_cell_facts(2) [OF t'(2)] by (cases x) (auto simp: io_get_def t(3) t'(3))
  qed
qed

definition transfer_body :: "('v \<Rightarrow> 'v) \<Rightarrow> Date \<Rightarrow> EntityID option \<Rightarrow> cell_place option list \<Rightarrow> 'v tick_io \<Rightarrow> 'v tick_io option" where
  "transfer_body g today e cells s =
     (case cells of [Some p, Some q] \<Rightarrow> update_cell g p q s | _ \<Rightarrow> Some s)"

lemma column_index_holds:
  assumes "column_index_for a c = Some col"
  shows "col < length (signature a) \<and> signature a ! col = c"
proof -
  have "column_index_loop ss c i = Some col \<Longrightarrow> i \<le> col \<and> col < i + length ss \<and> ss ! (col - i) = c" for ss i
  proof (induction ss arbitrary: i)
    case (Cons s ss)
    show ?case
    proof (cases "s = c")
      case False
      then have "column_index_loop ss c (Suc i) = Some col" using Cons.prems by simp
      then have "Suc i \<le> col \<and> col < Suc i + length ss \<and> ss ! (col - Suc i) = c" by (rule Cons.IH)
      then show ?thesis by (auto simp: nth_Cons')
    qed (use Cons.prems in auto)
  qed simp
  from this [of "signature a" 0] assms show ?thesis by (simp add: column_index_for_def)
qed

lemma tick_row_framed:
  assumes "\<And>e. io.framed K R W (f e (map (map_option (\<lambda>col. (ai, \<lparr>loc_chunk = ci, loc_row = r\<rparr>, col))) cols))" "W \<subseteq> R"
  shows "io.framed K R W (tick_row we f ai ci cols r)"
proof -
  let ?l = "\<lparr>loc_chunk = ci, loc_row = r\<rparr>"
  let ?plan = "do {
     a \<leftarrow> arch_at K ai;
     x \<leftarrow> get_row a ?l;
     (if we then map_option Some (row_entity x) else Some None) }"
  let ?g = "\<lambda>s. Option.bind ?plan (\<lambda>e. f e (map (map_option (\<lambda>col. (ai, ?l, col))) cols) s)"
  have row: "get_row (erase_arch a) ?l = map_option erase_row (get_row a ?l)" for a :: "'a Archetype"
    by (simp add: get_row_def erase_arch_def erase_chunk_def chunk_count_def)
  have "tick_row we f ai ci cols r s = ?g s" if "io_skel s = K" for s
  proof (cases "arch_at (fst s) ai")
    case (Some a)
    then have "arch_at K ai = Some (erase_arch a)" using arch_at_skel [of s ai] that by simp
    then show ?thesis using Some
      by (cases "get_row a ?l") (simp_all add: tick_row_def row erase_row_def)
  next
    case None
    then show ?thesis using arch_at_skel [of s ai] that by (simp add: tick_row_def)
  qed
  moreover have "io.framed K R W ?g"
    using assms(1) io.framed_fail by (cases ?plan) simp_all
  ultimately show ?thesis using io.framed_on by blast
qed

lemma transfer_honest:
  assumes "tick_body code = RowTick we (transfer_body g)" "component_pack code = [c, d]"
    "c \<in> set (tick_query_require_ids r)" "d \<in> set (tick_query_require_ids r)" "entry d Write \<in> set (reg_access r)"
  shows "honest vt r code"
  unfolding honest_def
proof (intro allI impI)
  fix K :: "'a World" and today and ai :: u32 and ci :: nat
  let ?D = "{(unat ai, ci)}"
  have "io.framed K (reads r K ?D) (writes r K ?D) (tick_row we (transfer_body g today) ai ci cols i)"
    if b: "bind_columns vt (archetypes K ! unat ai) [c, d] = Some cols" and ai: "unat ai < length (archetypes K)" for cols i
  proof (rule tick_row_framed)
    fix e
    have skip: "io.framed K (reads r K ?D) (writes r K ?D) Some" by (rule io.framed_skip [OF writes_reads])
    show "io.framed K (reads r K ?D) (writes r K ?D)
        (transfer_body g today e (map (map_option (\<lambda>col. (ai, \<lparr>loc_chunk = ci, loc_row = i\<rparr>, col))) cols))"
    proof (cases "\<exists>p q. cols = [Some p, Some q]")
      case True
      then obtain p q where cols: "cols = [Some p, Some q]" by blast
      have "column_index_for (archetypes K ! unat ai) c = Some p" "column_index_for (archetypes K ! unat ai) d = Some q"
        using b cols by (auto simp: bind_eq_Some_conv split: if_splits)
      then have h: "holds K (unat ai) p c" "holds K (unat ai) q d" using ai column_index_holds by (auto simp: holds_def)
      have "io.framed K (reads r K ?D) (writes r K ?D)
          (update_cell g (ai, \<lparr>loc_chunk = ci, loc_row = i\<rparr>, p) (ai, \<lparr>loc_chunk = ci, loc_row = i\<rparr>, q))"
      proof (rule update_cell_framed [OF _ _ writes_reads])
        have "may_read r K ?D (CellAt (unat ai) ci i p)" "may_write r K ?D (CellAt (unat ai) ci i q)"
          using h assms(3-5) by auto
        then show "Some (place_of (ai, \<lparr>loc_chunk = ci, loc_row = i\<rparr>, p)) \<in> reads r K ?D"
          "Some (place_of (ai, \<lparr>loc_chunk = ci, loc_row = i\<rparr>, q)) \<in> writes r K ?D"
          by (simp_all add: reads_def writes_def place_of_def del: may_read.simps may_write.simps)
      qed
      then show ?thesis by (simp add: cols transfer_body_def [abs_def])
    next
      case False
      then have "transfer_body g today e (map (map_option (\<lambda>col. (ai, \<lparr>loc_chunk = ci, loc_row = i\<rparr>, col))) cols) = Some"
        by (auto simp: transfer_body_def fun_eq_iff split: list.splits option.splits)
      then show ?thesis using skip by simp
    qed
  qed (rule writes_reads)
  note rows = this
  have "io.framed K (reads r K ?D) (writes r K ?D) (iterate_one_chunk vt [c, d] we (transfer_body g today) ai ci)"
  proof (cases "unat ai < length (archetypes K)")
    case True
    then show ?thesis by (intro framed_iterate rows writes_reads) simp_all
  next
    case False
    have "arch_at K ai = None" using False by (simp add: arch_at_def arr_get_uint)
    then have "iterate_one_chunk vt [c, d] we (transfer_body g today) ai ci s = None" if "io_skel s = K" for s
      using arch_at_skel [of s ai] that by (simp add: iterate_one_chunk_def)
    then show ?thesis using io.framed_on [OF io.framed_fail] by blast
  qed
  then show "io.framed K (reads r K ?D) (writes r K ?D) (visit_chunk vt today code ai ci)"
    using assms(1,2) by (simp add: visit_chunk_def)
qed

text \<open>A body that changes nothing.\<close>

lemma idle_honest:
  assumes "tick_body code = RowTick we (\<lambda>_ _ _. Some)"
  shows "honest vt r code"
  unfolding honest_def visit_chunk_def assms SystemBody.case
  by (intro allI impI framed_iterate tick_row_framed io.framed_skip writes_reads)

end
