(* ===== verification/Demo_Stage.thy ===== *)
theory Demo_Stage
  imports Tick_Bodies Cached_References
begin

text \<open>
  A concrete tick: a World with one entity and a registry with a reader, a writer and a threaded system
  that computes one component from another, run up to the end of the second stage.
\<close>

definition demo_transfer :: "int SystemCode" where
  "demo_transfer = \<lparr>component_pack = [1, 2], is_threaded = True, tick_body = RowTick False (transfer_body (\<lambda>v. v + 1)), should_run = None\<rparr>"

definition demo_idle :: "bool \<Rightarrow> int SystemCode" where
  "demo_idle thr = \<lparr>component_pack = [1], is_threaded = thr, tick_body = RowTick True (\<lambda>_ _ _. Some), should_run = None\<rparr>"

definition demo_slot :: "SystemRegistration \<Rightarrow> int SystemCode \<Rightarrow> int SystemSlot" where
  "demo_slot r code = \<lparr>slot_reg = r, slot_code = Some code, pending_cmd = empty_buffer, per_chunk_cmds = []\<rparr>"

definition demo_slots :: "int SystemSlot list" where
  "demo_slots = [demo_slot demo_reader (demo_idle False), demo_slot demo_writer (demo_idle True), demo_slot demo_late demo_transfer]"

definition demo_tick :: "int World \<Rightarrow> int TickState" where
  "demo_tick w = \<lparr>tick_world = w\<lparr>in_tick := True\<rparr>, system_slots = demo_slots\<rparr>"



definition demo_day :: Date where "demo_day = Date (Timespan 0)"

definition demo_world :: "int World" where "demo_world = snd (the (create_entity_impl int_vt False [(1, 5), (2, 0)] empty_world))"

text \<open>The archetype with \<open>x\<close> in its second column.\<close>

definition demo_arch :: "int \<Rightarrow> int Archetype" where
  "demo_arch x = \<lparr>signature = [1, 2], vtables = [\<lparr>vt_size = 4, vt_align = 4\<rparr>, \<lparr>vt_size = 4, vt_align = 4\<rparr>],
     column_offsets = [8184, 12276], column_versions = [1, 1], chunk_capacity = 1023, total_entity_count = Suc 0,
     chunks = [\<lparr>chunk_block = 0, chunk_rows = [\<lparr>row_entity = Some \<lparr>index = 0, generation = 1\<rparr>, row_cells = [Some 5, Some x]\<rparr>]\<rparr>],
     matcher_hash = 6\<rparr>"

lemma demo_world_archs: "archetypes demo_world = [demo_arch 0]" "query_cache demo_world = (\<lambda>_. None)"
  "archetype_epoch demo_world = 1" "\<not> in_apply_phase demo_world"
  by (simp_all add: demo_world_def demo_arch_def move_code empty_world_def int_vt_def compute_matcher_hash_def cong: if_cong)


lemma demo_scan: "query_takes \<lparr>require_ids = [1, 2], exclude_ids = []\<rparr> 6 0 (demo_arch x)"
  "query_takes \<lparr>require_ids = [1], exclude_ids = []\<rparr> 2 0 (demo_arch x)"
  by (simp_all add: query_takes_def demo_arch_def)

lemma demo_hash: "compute_matcher_hash [1, 2] = 6" "compute_matcher_hash [1] = 2" "compute_matcher_hash [] = 0" 
  by (simp_all add: compute_matcher_hash_def)

lemma demo_running: "running demo_day (demo_tick w) [2, 0] = [(2, demo_transfer), (0, demo_idle False)]"
  by (simp add: running_def runnable_def run_flag_def arr_get_def demo_tick_def demo_slots_def demo_slot_def demo_records demo_transfer_def demo_idle_def)

lemma demo_iterate:
 assumes "archetypes w = [demo_arch x]"
 shows "tick_one_chunk int_vt demo_day demo_transfer 0 0 (w, cb) = Some (w\<lparr>archetypes := [demo_arch 6]\<rparr>, cb)"
  "iterate_one_chunk int_vt [1] True (\<lambda>_ _. Some) 0 0 (w, cb) = Some (w, cb)"
  using assms by (simp_all add: tick_one_chunk_def demo_transfer_def iterate_one_chunk_def arch_at_def arr_get_def int_vt_def
   demo_arch_def column_index_for_def chunk_count_def tick_row_def get_row_def transfer_body_def update_cell_def load_cell_def store_cell_def
  assign_cell_def with_cells_def set_arch_def set_row_def)

lemma demo_slot_fields:
 "arr_get (demo_slots) 2 = Some (demo_slot demo_late demo_transfer)" 
 "arr_get (demo_slots) (int 2) = Some (demo_slot demo_late demo_transfer)" 
 "arr_get (demo_slots) 0 = Some (demo_slot demo_reader (demo_idle False))"
 "tick_query demo_late = \<lparr>require_ids = [1, 2], exclude_ids = []\<rparr>" "tick_query demo_reader = \<lparr>require_ids = [1], exclude_ids = []\<rparr>"
  by (simp_all add: arr_get_def demo_slots_def demo_records tick_query_def)


lemma demo_key_resolved:
  assumes "archetypes w = [demo_arch x]" "query_cache w = (\<lambda>_. None)"
  obtains q w' where "resolve_query_cache \<lparr>require_ids = [1, 2], exclude_ids = []\<rparr> w = (q, w')" "archetype_indices q = [0]"
    "archetypes w' = [demo_arch x]" "query_cache w' \<lparr>require_ids = [1], exclude_ids = []\<rparr> = None"
  using assms by (simp add: resolve_query_cache_def demo_hash demo_scan Let_def)


definition demo_slots_after :: "int SystemSlot list" where
  "demo_slots_after = demo_slots[2 := (demo_slot demo_late demo_transfer)\<lparr>per_chunk_cmds := [empty_buffer]\<rparr>]"

lemma demo_late_tick:
  assumes "archetypes w = [demo_arch x]" "query_cache w = (\<lambda>_. None)"
  obtains w' where "tick_all int_vt (\<lambda>n. rev [0..<n]) demo_day (Some 2) 2 demo_transfer \<lparr>tick_world = w, system_slots = demo_slots\<rparr> =
      Some \<lparr>tick_world = w', system_slots = demo_slots_after\<rparr>"
    "archetypes w' = [demo_arch 6]" "query_cache w' \<lparr>require_ids = [1], exclude_ids = []\<rparr> = None"
proof -
  obtain q w' where q: "resolve_query_cache \<lparr>require_ids = [1, 2], exclude_ids = []\<rparr> w = (q, w')" "archetype_indices q = [0]"
    "archetypes w' = [demo_arch x]" "query_cache w' \<lparr>require_ids = [1], exclude_ids = []\<rparr> = None"
    by (rule demo_key_resolved [OF assms])
  have c: "chunks_of w' [0] = Some [\<lparr>archetype_idx = 0, chunk_idx = 0\<rparr>]"
    by (simp add: q(3) arch_at_def arr_get_def demo_arch_def chunk_count_def)
  have col: "collect_chunks 2 \<lparr>tick_world = w, system_slots = demo_slots\<rparr> = Some ([\<lparr>archetype_idx = 0, chunk_idx = 0\<rparr>], \<lparr>tick_world = w', system_slots = demo_slots\<rparr>)"
    using q(1) c by (simp add: collect_chunks_def demo_slot_fields demo_slot_def collect_matching_chunks_def q(2))
  have thr: "is_threaded demo_transfer" by (simp add: demo_transfer_def)
  have "tick_all int_vt (\<lambda>n. rev [0..<n]) demo_day (Some 2) 2 demo_transfer \<lparr>tick_world = w, system_slots = demo_slots\<rparr> =
      Some \<lparr>tick_world = w'\<lparr>archetypes := [demo_arch 6]\<rparr>, system_slots = demo_slots_after\<rparr>"
    unfolding tick_all_def
    by (simp add: thr demo_slot_fields dispatch_threaded_def col Let_def, simp add: parallel_for_def arm_chunk_cmds_def arm_cmds_def demo_slot_fields
        demo_slot_def on_chunk_cmd_def arr_get_def demo_slots_def demo_iterate [OF q(3)] merge_chunk_cmds_def merge_from_def
        set_parallel_mode_def clear_buffer_def empty_buffer_def demo_slots_after_def)
  then show thesis by (rule that) (use q(4) in simp_all)
qed

lemma demo_reader_tick:
  assumes "archetypes w = [demo_arch x]" "query_cache w \<lparr>require_ids = [1], exclude_ids = []\<rparr> = None"
  obtains w' where "tick_all int_vt (\<lambda>n. rev [0..<n]) demo_day (Some 0) 0 (demo_idle False) \<lparr>tick_world = w, system_slots = demo_slots_after\<rparr> =
      Some \<lparr>tick_world = w', system_slots = demo_slots_after\<rparr>" "archetypes w' = [demo_arch x]"
proof -
  let ?q = "\<lparr>epoch = archetype_epoch w, require_matcher = 2, exclude_matcher = 0, archetype_indices = [0]\<rparr>"
  let ?w = "w\<lparr>query_cache := (query_cache w)(\<lparr>require_ids = [1], exclude_ids = []\<rparr> := Some ?q)\<rparr>"
  have r: "resolve_query_cache \<lparr>require_ids = [1], exclude_ids = []\<rparr> w = (?q, ?w)"
    using assms by (simp add: resolve_query_cache_def demo_hash demo_scan Let_def)
  have a: "archetypes ?w = [demo_arch x]" using assms(1) by simp
  have "length (chunks (demo_arch x)) = 1" by (simp add: demo_arch_def)
  then have "tick_all int_vt (\<lambda>n. rev [0..<n]) demo_day (Some 0) 0 (demo_idle False) \<lparr>tick_world = w, system_slots = demo_slots_after\<rparr> =
      Some \<lparr>tick_world = ?w, system_slots = demo_slots_after\<rparr>"
    using r demo_iterate(2) [OF a] assms(1)
    by (simp add: tick_all_def on_pending_def dispatch_serial_def demo_idle_def demo_slots_after_def demo_slots_def demo_slot_def
        arr_get_def demo_slot_fields for_each_matched_def arch_at_def)
  then show thesis by (rule that) (use assms(1) in simp)
qed

lemma demo_apply: "i < length slots \<Longrightarrow> pending_cmd (slots ! i) = empty_buffer \<Longrightarrow>
  apply_pending i \<lparr>tick_world = w, system_slots = slots\<rparr> = Some \<lparr>tick_world = w, system_slots = slots\<rparr>"
proof -
  assume i: "i < length slots" and e: "pending_cmd (slots ! i) = empty_buffer"
  have a: "apply_buffer empty_buffer w = Some (empty_buffer, w)" by (simp add: apply_buffer_def empty_buffer_def)
  have s: "slots[i := (slots ! i)\<lparr>pending_cmd := empty_buffer\<rparr>] = slots"
    using e by (cases "slots ! i") (simp add: list_update_same_conv i)
  show ?thesis using i e a s by (simp add: apply_pending_def on_pending_def arr_get_def)
qed

lemma demo_stage_result:
  obtains w' where "run_stage int_vt (\<lambda>_ _ n. rev [0..<n]) demo_day True [2, 0] (demo_tick demo_world) =
      Some \<lparr>tick_world = w', system_slots = demo_slots_after\<rparr>" "archetypes w' = [demo_arch 6]"
proof -
  let ?w = "demo_world\<lparr>in_tick := True\<rparr>"
  obtain w1 where w1: "tick_all int_vt (\<lambda>n. rev [0..<n]) demo_day (Some 2) 2 demo_transfer \<lparr>tick_world = ?w, system_slots = demo_slots\<rparr> =
      Some \<lparr>tick_world = w1, system_slots = demo_slots_after\<rparr>"
    "archetypes w1 = [demo_arch 6]" "query_cache w1 \<lparr>require_ids = [1], exclude_ids = []\<rparr> = None"
    by (rule demo_late_tick [of ?w 0]) (simp_all add: demo_world_archs)
  obtain w2 where w2: "tick_all int_vt (\<lambda>n. rev [0..<n]) demo_day (Some 0) 0 (demo_idle False) \<lparr>tick_world = w1, system_slots = demo_slots_after\<rparr> =
      Some \<lparr>tick_world = w2, system_slots = demo_slots_after\<rparr>" "archetypes w2 = [demo_arch 6]"
    by (rule demo_reader_tick [OF w1(2,3)])
  have b: "stage_barrier [2, 0] \<lparr>tick_world = w2, system_slots = demo_slots_after\<rparr> =
      Some \<lparr>tick_world = w2\<lparr>in_apply_phase := False\<rparr>, system_slots = demo_slots_after\<rparr>"
    by (simp add: stage_barrier_def set_in_apply_phase_def demo_apply demo_slots_after_def demo_slots_def demo_slot_def)
  have "run_stage int_vt (\<lambda>_ _ n. rev [0..<n]) demo_day True [2, 0] (demo_tick demo_world) =
      Some \<lparr>tick_world = w2\<lparr>in_apply_phase := False\<rparr>, system_slots = demo_slots_after\<rparr>"
    using w1(1) w2(1) b unfolding run_stage_def demo_running by (simp add: run_serially_def demo_tick_def)
  then show thesis by (rule that) (simp add: w2(2))
qed
end
