(* ===== verification/Run_Properties.thy ===== *)
theory Run_Properties
  imports Stage_Runs Demo_Stage
begin

text \<open>
  The result of a tick: it depends neither on the order in which the pool runs the work nor on whether a
  stage runs its systems one by one or at once, as long as the systems keep to their declarations.  A
  plain system that creates entities does not, and then it depends on the order.
\<close>

section \<open>Stages of a rebuilt schedule\<close>

lemma stage_members:
  assumes "built (rebuild reg)" "st \<in> set (stages (rebuild reg))"
  shows "distinct st" "i \<in> set st \<Longrightarrow> i < length reg \<and> reg_alive (reg ! i)"
proof -
  obtain d where d: "good_graph reg d" "concat (stages (rebuild reg)) = emit_order reg d"
    by (rule rebuild_spec [OF built_acyclic [OF assms(1)]])
  have "distinct (concat (stages (rebuild reg)))" using emit_order_spec(1) [of reg d] d by (simp add: good_graph_def)
  then show "distinct st" using assms(2) by (auto simp: distinct_concat_iff)
  show "i \<in> set st \<Longrightarrow> i < length reg \<and> reg_alive (reg ! i)" using scheduled_alive [OF assms(1) _ assms(2)] by blast
qed

text \<open>Every alive registration has the code of a system that keeps to its declarations.\<close>

definition registry_ok :: "vtables_of \<Rightarrow> 'v SystemSlot list \<Rightarrow> bool" where
  "registry_ok vt slots \<longleftrightarrow> (\<forall>sl \<in> set slots. reg_alive (slot_reg sl) \<longrightarrow> (\<exists>code. slot_code sl = Some code \<and> system_ok vt (slot_reg sl) code))"

lemma running_ok:
  assumes "built (rebuild (map slot_reg (system_slots s)))" "st \<in> set (stages (rebuild (map slot_reg (system_slots s))))"
    "registry_ok vt (system_slots s)"
  shows "systems_ok vt (system_slots s) (running today s st)"
proof -
  let ?slots = "system_slots s" and ?reg = "map slot_reg (system_slots s)"
  note mem = stage_members [OF assms(1,2)]
  have fs: "map fst (running today s st) = filter (\<lambda>i. runnable s i \<noteq> None \<and> run_flag today s i) st"
    by (simp add: running_def comp_def)
  have at: "fst x \<in> set st" "runnable s (fst x) = Some (snd x)" if "x \<in> set (running today s st)" for x
    using that by (auto simp: running_def)
  have code: "fst x < length ?slots \<and> system_ok vt (slot_reg (?slots ! fst x)) (snd x)" if x: "x \<in> set (running today s st)" for x
  proof -
    have i: "fst x < length ?slots" "reg_alive (slot_reg (?slots ! fst x))" using mem(2) [OF at(1) [OF x]] by auto
    then have "slot_code (?slots ! fst x) = Some (snd x)" using at(2) [OF x] by (simp add: runnable_def)
    then show ?thesis using assms(3) i by (force simp: registry_ok_def)
  qed
  have nc: "\<not> real_conflict (slot_reg (?slots ! i)) (slot_reg (?slots ! j))" if "i \<in> set st" "j \<in> set st" "i \<noteq> j" for i j
  proof -
    have ij: "?reg ! i = slot_reg (?slots ! i)" "?reg ! j = slot_reg (?slots ! j)" using mem(2) that(1,2) by auto
    have "\<not> real_conflict (?reg ! min i j) (?reg ! max i j)"
      by (rule stage_conflict_free [OF assms(1,2)]) (use that in \<open>auto simp: min_def max_def\<close>)
    then show ?thesis unfolding ij [symmetric] using real_conflict_sym by (metis max_def min_def)
  qed
  have "distinct (map fst (running today s st))" unfolding fs using mem(1) by (rule distinct_filter)
  then show ?thesis unfolding systems_ok_def using code nc at(1) by blast
qed

text \<open>The World a stage starts with: in a tick, with sorted signatures and exact cached queries.\<close>

definition stage_ready :: "'v World \<Rightarrow> bool" where
  "stage_ready w \<longleftrightarrow> keys_ok w \<and> in_tick w \<and> \<not> in_apply_phase w"

lemma stage_runs_agree:
  assumes "built (rebuild (map slot_reg (system_slots s)))" "st \<in> set (stages (rebuild (map slot_reg (system_slots s))))"
    "registry_ok vt (system_slots s)" "stage_ready (tick_world s)"
    "\<forall>d. any_schedule (ord st d)" "\<forall>d. any_schedule (ord' st d)"
  shows "run_stage vt ord today mode st s = run_stage vt ord' today mode' st s"
proof -
  let ?rs = "running today s st" and ?K = "forget_cache (erase_world (tick_world s))" and ?slots = "system_slots s"
  have ok: "systems_ok vt ?slots ?rs" by (rule running_ok [OF assms(1-3)])
  have at: "at_stage ?K ?slots s" using assms(4) by (simp add: at_stage_def ticking_def stage_ready_def)
  have d: "distinct (map fst ?rs)" using ok by (simp add: systems_ok_def)
  have one: "run_serially vt o1 today ?rs s = all_at_once vt today ?K ?slots ?rs s" if "\<forall>d. any_schedule (o1 d)" for o1
    using run_serially_one [OF at ok subset_refl] modes_agree [OF ok subset_refl d at] that by simp
  have all: "run_combined vt o1 today ?rs s = all_at_once vt today ?K ?slots ?rs s" if "\<forall>d. any_schedule (o1 d)" for o1
    by (rule run_combined_all [OF at ok]) (use that in blast)
  show ?thesis using assms(5,6) by (simp add: run_stage_def Let_def one all)
qed


section \<open>A whole tick\<close>

definition system_of :: "'v SystemSlot \<Rightarrow> SystemRegistration \<times> 'v SystemCode option" where
  "system_of sl = (slot_reg sl, slot_code sl)"

definition systems_kept :: "('v TickState \<Rightarrow> 'v TickState option) \<Rightarrow> bool" where
  "systems_kept f \<longleftrightarrow> (\<forall>s t. f s = Some t \<longrightarrow> map system_of (system_slots t) = map system_of (system_slots s))"

lemma keptD: "systems_kept f \<Longrightarrow> f s = Some t \<Longrightarrow> map system_of (system_slots t) = map system_of (system_slots s)"
  by (simp add: systems_kept_def)

lemma kept_run_on [simp]: "systems_kept (run_on b f)"
proof -
  have "map system_of (with_buffer b cb slots) = map system_of slots" for cb and slots :: "'v SystemSlot list"
    by (rule nth_equalityI) (auto simp: with_buffer_def system_of_def nth_updated split: buffer_place.splits)
  then show ?thesis by (auto simp: systems_kept_def run_on_def bind_eq_Some_conv)
qed

lemma kept_on_slot: "(\<And>sl sl'. g sl = Some sl' \<Longrightarrow> system_of sl' = system_of sl) \<Longrightarrow> systems_kept (on_slot j g)"
  by (auto simp: systems_kept_def on_slot_def arr_get_def bind_eq_Some_conv map_update list_update_same_conv split: if_splits)

lemma kept_arm [simp]: "systems_kept (arm_chunk_cmds i n)" and kept_merge [simp]: "systems_kept (merge_chunk_cmds i i n)"
  unfolding arm_chunk_on_slot merge_chunk_on_slot
  by (intro kept_on_slot; auto simp: system_of_def arm_slot_def merge_slot_def)+

lemma kept_in_order [simp]: "(\<And>x. x \<in> set xs \<Longrightarrow> systems_kept (f x)) \<Longrightarrow> systems_kept (in_order f xs)"
proof (induction xs)
  case (Cons x xs)
  then have "systems_kept (f x)" "systems_kept (in_order f xs)" by simp_all
  then show ?case by (auto simp: systems_kept_def bind_eq_Some_conv)
qed (simp add: systems_kept_def)

lemma kept_parallel [simp]: "(\<And>k. systems_kept (body k)) \<Longrightarrow> systems_kept (parallel_for od n body)"
  using kept_in_order [of "od n" body] by (auto simp: systems_kept_def parallel_for_def)

lemma collect_slots: "collect_chunks i s = Some (cs, t) \<Longrightarrow> system_slots t = system_slots s"
  by (auto simp: collect_chunks_def bind_eq_Some_conv)

lemma kept_tick_all [simp]: "systems_kept (tick_all vt od today (if b then Some i else None) i code)"
proof -
  have thr: "systems_kept (dispatch_threaded vt od today i code i)"
    unfolding systems_kept_def
  proof (intro allI impI)
    fix s t assume "dispatch_threaded vt od today i code i s = Some t"
    then obtain cs s1 where c: "collect_chunks i s = Some (cs, s1)" and r: "length cs = 0 \<and> t = s1 \<or> (\<exists>s2 s3. arm_chunk_cmds i (length cs) s1 = Some s2
        \<and> parallel_for od (length cs) (\<lambda>k. on_chunk_cmd i k (tick_one_chunk vt today code (archetype_idx (cs ! k)) (chunk_idx (cs ! k)))) s2 = Some s3
        \<and> merge_chunk_cmds i i (length cs) s3 = Some t)"
      by (auto simp: dispatch_threaded_def bind_eq_Some_conv Let_def split: if_splits)
    have p: "systems_kept (parallel_for od (length cs) (\<lambda>k. on_chunk_cmd i k (tick_one_chunk vt today code (archetype_idx (cs ! k)) (chunk_idx (cs ! k)))))"
      by (simp add: on_chunk_cmd_run)
    show "map system_of (system_slots t) = map system_of (system_slots s)"
      using r
    proof
      assume "\<exists>s2 s3. arm_chunk_cmds i (length cs) s1 = Some s2
        \<and> parallel_for od (length cs) (\<lambda>k. on_chunk_cmd i k (tick_one_chunk vt today code (archetype_idx (cs ! k)) (chunk_idx (cs ! k)))) s2 = Some s3
        \<and> merge_chunk_cmds i i (length cs) s3 = Some t"
      then obtain s2 s3 where o: "arm_chunk_cmds i (length cs) s1 = Some s2" "merge_chunk_cmds i i (length cs) s3 = Some t"
        "parallel_for od (length cs) (\<lambda>k. on_chunk_cmd i k (tick_one_chunk vt today code (archetype_idx (cs ! k)) (chunk_idx (cs ! k)))) s2 = Some s3"
        by blast
      show ?thesis using keptD [OF kept_arm o(1)] keptD [OF p o(3)] keptD [OF kept_merge o(2)] collect_slots [OF c] by simp
    qed (use collect_slots [OF c] in simp)
  qed
  have "systems_kept (on_pending i g)" for g :: "'a tick_io \<Rightarrow> 'a tick_io option" by (simp add: on_pending_run)
  then show ?thesis using thr by (auto simp: systems_kept_def tick_all_def bind_eq_Some_conv split: if_splits bool.splits)
qed

lemma kept_prewarm: "system_slots (prewarm rs s) = system_slots s"
proof -
  have "system_slots (foldl (\<lambda>s (i, code). let key = tick_query (slot_reg (system_slots s ! i))
      in if require_ids key = [] then s else s\<lparr>tick_world := snd (resolve_query_cache key (tick_world s))\<rparr>) s rs) = system_slots s"
    by (induction rs arbitrary: s) (auto simp: Let_def)
  then show ?thesis by (simp add: prewarm_def)
qed

lemma kept_build: "build_items rs s = Some (items, infos, t) \<Longrightarrow> map system_of (system_slots t) = map system_of (system_slots s)"
proof (induction rs arbitrary: s items infos)
  case (Cons x rs)
  obtain i code where x: "x = (i, code)" by (cases x)
  show ?case
  proof (cases "is_threaded code")
    case True
    then obtain cs s1 s2 items' infos' where o: "collect_chunks i s = Some (cs, s1)" "arm_chunk_cmds i (length cs) s1 = Some s2"
      "build_items rs s2 = Some (items', infos', t)" using Cons.prems by (auto simp: x bind_eq_Some_conv)
    then show ?thesis using Cons.IH [OF o(3)] collect_slots [OF o(1)] keptD [OF kept_arm o(2)] by simp
  next
    case False
    then show ?thesis using Cons by (auto simp: x bind_eq_Some_conv)
  qed
qed simp

lemma kept_run_item: "systems_kept (run_item vt ord today it)"
  using kept_tick_all [of vt _ today False] by (cases it) (simp_all add: run_item_def [abs_def] on_chunk_cmd_run)

lemma kept_run_stage: "systems_kept (run_stage vt ord today mode st)"
  unfolding systems_kept_def
proof (intro allI impI)
  fix s t assume run: "run_stage vt ord today mode st s = Some t"
  let ?rs = "running today s st"
  have serial: "systems_kept (run_serially vt (ord st) today ?rs)"
    unfolding run_serially_def [abs_def]
    by (rule kept_in_order) (use kept_tick_all [of vt _ today True] in \<open>auto simp: case_prod_unfold\<close>)
  have comb: "systems_kept (run_combined vt (ord st) today ?rs)"
    unfolding systems_kept_def
  proof (intro allI impI)
    fix s u assume "run_combined vt (ord st) today ?rs s = Some u"
    then obtain items infos s1 s2 where o: "build_items ?rs (prewarm ?rs s) = Some (items, infos, s1)"
      "parallel_for (ord st None) (length items) (\<lambda>k. run_item vt (ord st) today (items ! k)) s1 = Some s2"
      "in_order (\<lambda>(i, n). merge_chunk_cmds i i n) infos s2 = Some u"
      by (auto simp: run_combined_def bind_eq_Some_conv)
    have p: "systems_kept (parallel_for (ord st None) (length items) (\<lambda>k. run_item vt (ord st) today (items ! k)))"
      by (rule kept_parallel) (rule kept_run_item)
    have m: "systems_kept (in_order (\<lambda>(i, n). merge_chunk_cmds i i n) infos)" by (rule kept_in_order) auto
    show "map system_of (system_slots u) = map system_of (system_slots s)"
      using kept_build [OF o(1)] keptD [OF p o(2)] keptD [OF m o(3)] by (simp add: kept_prewarm)
  qed
  have barrier: "systems_kept (stage_barrier st)"
  proof -
    have "systems_kept (in_order apply_pending st)" by (rule kept_in_order) (simp add: apply_pending_def on_pending_run)
    have step: "map system_of (system_slots t) = map system_of (system_slots s)"
      if "in_order apply_pending st (set_in_apply_phase True s) = Some t" for s t
      using \<open>systems_kept (in_order apply_pending st)\<close> that unfolding systems_kept_def by (force simp: set_in_apply_phase_def)
    show ?thesis
      unfolding systems_kept_def
    proof (intro allI impI)
      fix s u assume "stage_barrier st s = Some u"
      then obtain t where "in_order apply_pending st (set_in_apply_phase True s) = Some t" "u = set_in_apply_phase False t"
        by (auto simp: stage_barrier_def bind_eq_Some_conv)
      then show "map system_of (system_slots u) = map system_of (system_slots s)"
        using step by (simp add: set_in_apply_phase_def)
    qed
  qed
  show "map system_of (system_slots t) = map system_of (system_slots s)"
  proof (cases "st = []")
    case False
    then obtain u where u: "run_serially vt (ord st) today ?rs s = Some u \<or> run_combined vt (ord st) today ?rs s = Some u" "stage_barrier st u = Some t"
      using run by (auto simp: run_stage_def bind_eq_Some_conv Let_def split: if_splits)
    then show ?thesis using keptD [OF serial, of s u] keptD [OF comb, of s u] keptD [OF barrier u(2)] by auto
  qed (use run in \<open>simp add: run_stage_def\<close>)
qed

lemma system_of_regs:
  assumes "map system_of xs = map system_of ys"
  shows "map slot_reg xs = map slot_reg ys" "registry_ok vt xs \<longleftrightarrow> registry_ok vt ys"
proof -
  show "map slot_reg xs = map slot_reg ys" using arg_cong [OF assms, of "map fst"] by (simp add: system_of_def comp_def)
  have "registry_ok vt zs \<longleftrightarrow> (\<forall>(r, c) \<in> set (map system_of zs). reg_alive r \<longrightarrow> (\<exists>code. c = Some code \<and> system_ok vt r code))" for zs
    by (auto simp: registry_ok_def system_of_def)
  from this [of xs] this [of ys] show "registry_ok vt xs \<longleftrightarrow> registry_ok vt ys" unfolding assms by blast
qed

text \<open>A tick ends in one state, whatever the pool does and in either mode, as long as every stage of one of
  the runs starts with an exact query cache.\<close>

lemma run_agrees:
  assumes "sch = rebuild (map slot_reg (system_slots s))" "registry_ok vt (system_slots s)"
    "\<And>st d. any_schedule (ord st d)" "\<And>st d. any_schedule (ord' st d)"
    "\<And>k t. k < length (stages sch) \<Longrightarrow> in_order (run_stage vt ord today mode) (take k (stages sch)) s = Some t \<Longrightarrow> stage_ready (tick_world t)"
  shows "run_schedule vt ord today mode sch s = run_schedule vt ord' today mode' sch s"
proof (cases "built sch")
  case True
  let ?run = "run_stage vt ord today mode" and ?run' = "run_stage vt ord' today mode'"
  have "in_order ?run (take k (stages sch)) s = in_order ?run' (take k (stages sch)) s" if "k \<le> length (stages sch)" for k
    using that
  proof (induction k)
    case (Suc k)
    have tk: "take (Suc k) (stages sch) = take k (stages sch) @ [stages sch ! k]" using Suc.prems by (simp add: take_Suc_conv_app_nth)
    have "?run (stages sch ! k) t = ?run' (stages sch ! k) t" if t: "in_order ?run (take k (stages sch)) s = Some t" for t
    proof -
      have "map system_of (system_slots t) = map system_of (system_slots s)"
        using kept_in_order [of "take k (stages sch)" ?run] t kept_run_stage [of vt ord today mode] unfolding systems_kept_def by blast
      note same = system_of_regs [OF this]
      show ?thesis
      proof (rule stage_runs_agree)
        show "built (rebuild (map slot_reg (system_slots t)))" using True assms(1) same(1) by simp
        show "stages sch ! k \<in> set (stages (rebuild (map slot_reg (system_slots t))))" using Suc.prems assms(1) same(1) by simp
        show "registry_ok vt (system_slots t)" using assms(2) same(2) by blast
        show "stage_ready (tick_world t)" by (rule assms(5) [OF _ t]) (use Suc.prems in simp)
      qed (use assms(3,4) in blast)+
    qed
    then show ?case using Suc unfolding tk in_order_append
      by (cases "in_order ?run (take k (stages sch)) s") (auto split: Option.bind_splits)
  qed simp
  from this [of "length (stages sch)"] show ?thesis using True by (simp add: run_schedule_def)
qed (simp add: run_schedule_def)

section \<open>A concrete tick\<close>

text \<open>Three systems in two stages; in the second stage a threaded one computes a component while another
  iterates over the component it reads.\<close>

lemma demo_registered: "registered demo_reader" "registered demo_writer" "registered demo_late"
proof -
  have "registered (registration_of (demo_system t acc after))" if "sorted_wrt (<) (map component_id acc)" for t acc after
    unfolding registered_def using that by (intro exI [of _ "demo_system t acc after"]) (simp add: demo_system_def)
  then show "registered demo_reader" "registered demo_writer" "registered demo_late"
    by (simp_all add: demo_reader_def demo_writer_def demo_late_def)
qed

lemma demo_registry_ok: "registry_ok int_vt demo_slots"
proof -
  have "honest int_vt demo_late demo_transfer"
    by (rule transfer_honest [where c = 1 and d = 2 and we = False and g = "\<lambda>v. v + 1"]) (simp_all add: demo_transfer_def demo_late_record)
  then have "system_ok int_vt demo_late demo_transfer"
    unfolding system_ok_def using demo_registered(3)
    by (auto simp: demo_transfer_def demo_late_record self_apart_def intro: exI [of _ False])
  moreover have "honest int_vt r (demo_idle b)" for r b
    by (rule idle_honest) (simp add: demo_idle_def)
  then have "system_ok int_vt demo_reader (demo_idle False)" "system_ok int_vt demo_writer (demo_idle True)"
    unfolding system_ok_def using demo_registered(1,2)
    by (auto simp: demo_idle_def demo_records self_apart_def intro: exI [of _ True])
  ultimately show ?thesis by (simp add: registry_ok_def demo_slots_def demo_slot_def)
qed

lemma demo_regs: "map slot_reg (system_slots (demo_tick w)) = demo_registry"
  by (simp add: demo_tick_def demo_slots_def demo_slot_def)

lemma demo_ready: "stage_ready (tick_world (demo_tick demo_world))"
proof -
  have "keys_ok (demo_world\<lparr>in_tick := True\<rparr>)"
    by (simp add: keys_ok_def cache_ok_def counted_def demo_world_archs demo_arch_def demo_hash)
  moreover have "\<not> in_apply_phase demo_world" by (rule demo_world_archs)
  ultimately show ?thesis by (simp add: stage_ready_def demo_tick_def)
qed

lemma demo_pools: "any_schedule (\<lambda>n. rev [0..<n])" "any_schedule (\<lambda>n. [0..<n])"
  by (simp_all add: any_schedule_def)

text \<open>The state after the first stage.\<close>

lemma demo_first_stage:
  assumes "run_stage int_vt (\<lambda>_ _ n. rev [0..<n]) demo_day True [1] (demo_tick demo_world) = Some t"
  shows "stage_ready (tick_world t)"
proof -
  let ?w = "demo_world\<lparr>in_tick := True\<rparr>" and ?key = "\<lparr>require_ids = [1], exclude_ids = []\<rparr>"
  let ?q = "\<lparr>epoch = 1, require_matcher = 2, exclude_matcher = 0, archetype_indices = [0]\<rparr>"
  let ?w' = "?w\<lparr>query_cache := [?key \<mapsto> ?q]\<rparr>"
    and ?slots = "demo_slots[1 := (demo_slot demo_writer (demo_idle True))\<lparr>per_chunk_cmds := [empty_buffer]\<rparr>]"
  have r: "resolve_query_cache ?key ?w = (?q, ?w')"
    by (simp add: resolve_query_cache_def demo_world_archs demo_hash demo_scan Let_def)
  have slot: "arr_get demo_slots 1 = Some (demo_slot demo_writer (demo_idle True))"
    and key: "tick_query demo_writer = ?key" by (simp_all add: arr_get_def demo_slots_def demo_records tick_query_def)
  have run: "running demo_day (demo_tick demo_world) [1] = [(1, demo_idle True)]"
    by (simp add: running_def runnable_def run_flag_def demo_tick_def slot demo_slot_def demo_writer_record demo_idle_def)
  have c: "chunks_of ?w' [0] = Some [\<lparr>archetype_idx = 0, chunk_idx = 0\<rparr>]"
    by (simp add: demo_world_archs arch_at_def arr_get_def demo_arch_def chunk_count_def)
  have col: "collect_chunks 1 (demo_tick demo_world) = Some ([\<lparr>archetype_idx = 0, chunk_idx = 0\<rparr>], \<lparr>tick_world = ?w', system_slots = demo_slots\<rparr>)"
    using r c by (simp add: collect_chunks_def demo_tick_def slot key demo_slot_def collect_matching_chunks_def)
  have chunk: "tick_one_chunk int_vt demo_day (demo_idle True) 0 0 (?w', cb) = Some (?w', cb)" for cb
    using demo_iterate(2) [of ?w' 0 cb] by (simp add: tick_one_chunk_def demo_idle_def demo_world_archs)
  have thr: "is_threaded (demo_idle True)" by (simp add: demo_idle_def)
  have tick: "tick_all int_vt (\<lambda>n. rev [0..<n]) demo_day (Some 1) 1 (demo_idle True) (demo_tick demo_world) =
      Some \<lparr>tick_world = ?w', system_slots = ?slots\<rparr>"
    unfolding tick_all_def
    by (simp add: thr demo_tick_def slot dispatch_threaded_def col [unfolded demo_tick_def] Let_def del: One_nat_def,
        simp add: parallel_for_def arm_chunk_cmds_def arm_cmds_def slot demo_slot_def on_chunk_cmd_def arr_get_def demo_slots_def
          chunk merge_chunk_cmds_def merge_from_def set_parallel_mode_def clear_buffer_def empty_buffer_def)
  have b: "stage_barrier [1] \<lparr>tick_world = ?w', system_slots = ?slots\<rparr> =
      Some \<lparr>tick_world = ?w'\<lparr>in_apply_phase := False\<rparr>, system_slots = ?slots\<rparr>"
    by (simp add: stage_barrier_def set_in_apply_phase_def demo_apply demo_slots_def demo_slot_def)
  have "t = \<lparr>tick_world = ?w'\<lparr>in_apply_phase := False\<rparr>, system_slots = ?slots\<rparr>"
    using assms tick b unfolding run_stage_def run by (simp add: run_serially_def)
  moreover have "keys_ok (?w'\<lparr>in_apply_phase := False\<rparr>)"
    using keys_ok_resolve [of ?w ?key] demo_ready r
    by (simp add: stage_ready_def demo_tick_def keys_ok_def cache_ok_def counted_def)
  ultimately show ?thesis by (simp add: stage_ready_def)
qed


end
