(* ===== verification/Spawn_Hazard.thy ===== *)
theory Spawn_Hazard
  imports Run_Properties
begin

text \<open>
  A plain system that creates entities through its pending buffer reserves their slots while it runs.
  Two of them in one stage take the slots in the order in which the pool runs them.
\<close>

text \<open>For every row a plain system creates an entity with one component.\<close>

definition spawn_body :: "component_type_id_t \<Rightarrow> int \<Rightarrow> Date \<Rightarrow> EntityID option \<Rightarrow> cell_place option list \<Rightarrow> int tick_io \<Rightarrow> int tick_io option" where
  "spawn_body c v today e cells s =
     map_option (\<lambda>(_, cb, w). (w, cb)) (record_create_entity int_vt False [(c, v)] (snd s) (fst s))"

definition spawner :: "component_type_id_t \<Rightarrow> int SystemCode" where
  "spawner c = \<lparr>component_pack = [1], is_threaded = False, tick_body = RowTick False (spawn_body c 20), should_run = None\<rparr>"

definition first_spawner :: SystemRegistration where
  "first_spawner = registration_of (demo_system 5 [entry 1 Read] [])"

definition spawn_slots :: "int SystemSlot list" where
  "spawn_slots = [demo_slot demo_reader (spawner 2), demo_slot first_spawner (spawner 1)]"

definition spawn_tick :: "int TickState" where
  "spawn_tick = \<lparr>tick_world = demo_world\<lparr>in_tick := True\<rparr>, system_slots = spawn_slots\<rparr>"

lemma first_spawner_record: "first_spawner = \<lparr>reg_type_id = 5, reg_access = [entry 1 Read], run_after = [], run_before = [],
     extra_reads = [], extra_writes = [], tick_query_require_ids = [1], tick_query_exclude_ids = [],
     reg_generation = 1, reg_alive = True\<rparr>"
  by (simp add: first_spawner_def registration_code)

lemma spawn_fields:
  "reg_alive first_spawner" "reg_type_id first_spawner = 5" "run_after first_spawner = []" "run_before first_spawner = []"
  by (simp_all add: first_spawner_record)

lemma spawn_stages: "stages (rebuild [demo_reader, first_spawner]) = [[1, 0]]"
proof -
  have c: "\<not> real_conflict demo_reader first_spawner"
    by (simp add: demo_records first_spawner_record real_conflict_def)
  have two: "replicate (Suc (Suc 0)) x = [x, x]" for x :: 'a by simp
  have e: "emit_order [demo_reader, first_spawner] \<lparr>dag_n = 2, out_edges = [[], []], in_edges = [[], []], depth = [0, 0]\<rparr> = [1, 0]"
    by (simp add: emit_order_def upt_rec demo_fields spawn_fields pq_top_def emit_key_def Let_def)
  have d: "recompute_depths (declared_edges (type_index [demo_reader, first_spawner] 0) [demo_reader, first_spawner] 0 (dag_resize 2)) =
      (\<lparr>dag_n = 2, out_edges = [[], []], in_edges = [[], []], depth = [0, 0]\<rparr>, True)"
    by (simp add: demo_fields spawn_fields dag_resize_def recompute_depths_def upt_rec two numeral_2_eq_2)
  have p: "conflict_pairs [demo_reader, first_spawner] = []"
    by (simp add: conflict_pairs_def c upt_rec)
  have n: "length [demo_reader, first_spawner] = 2" by simp
  show ?thesis unfolding rebuild_def n d p prod.case by (simp add: e [simplified] del: One_nat_def)
qed

text \<open>The buffer a spawner leaves, and the slots with their reserved entities.\<close>

definition spawned :: "component_type_id_t \<Rightarrow> EntityID \<Rightarrow> int CommandBuffer" where
  "spawned c e = \<lparr>buffer_ops = [CreateEntity e \<lparr>create_sig = [c], create_vtables = [\<lparr>vt_size = 4, vt_align = 4\<rparr>],
       create_values = [Some 20], create_immutable = False\<rparr>], parallel_mode = False, deferred_count = 0\<rparr>"

lemma spawn_created:
  "spawn_body c 20 today x cells (w, empty_buffer) = map_option (\<lambda>(e, w). (w, spawned c e)) (reserve_entity_slot w)"
  by (cases "reserve_entity_slot w")
    (auto simp: spawn_body_def record_create_entity_def record_eid_def empty_buffer_def push_op_def staged_values_def int_vt_def spawned_def Let_def)

lemma spawn_iterate:
 assumes "archetypes w = [demo_arch 0]"
 shows "iterate_one_chunk int_vt [1] False f 0 0 (w, cb) = f None [Some (0, \<lparr>loc_chunk = 0, loc_row = 0\<rparr>, 0)] (w, cb)"
  using assms by (simp add: iterate_one_chunk_def arch_at_def arr_get_def int_vt_def
   demo_arch_def column_index_for_def chunk_count_def tick_row_def get_row_def in_order_nil)

definition reserved_slot :: EntitySlot where
  "reserved_slot = \<lparr>archetype_index = INVALID_ARCHETYPE, chunk_index = 0, row = 0, slot_generation = 1, next_free = 0, alive = True, immutable = False\<rparr>"

definition spawn_world :: "nat \<Rightarrow> int World" where
  "spawn_world n = demo_world\<lparr>in_tick := True, query_cache := [\<lparr>require_ids = [1], exclude_ids = []\<rparr> \<mapsto>
      \<lparr>epoch = 1, require_matcher = 2, exclude_matcher = 0, archetype_indices = [0]\<rparr>],
      entity_slots := entity_slots demo_world @ replicate n reserved_slot\<rparr>"

lemma demo_world_table: "length (entity_slots demo_world) = 1" "\<not> has_free demo_world" "map archetype_index (entity_slots demo_world) = [0]"
  by (simp_all add: demo_world_def move_code empty_world_def int_vt_def compute_matcher_hash_def cong: if_cong)

lemma spawn_reserve: "n < 2 \<Longrightarrow> reserve_entity_slot (spawn_world n) = Some (\<lparr>index = of_nat (Suc n), generation = 1\<rparr>, spawn_world (Suc n))"
 using demo_world_table(1) 
 by (auto simp: reserve_entity_slot_def allocate_entity_slot_def spawn_world_def demo_world_table slot_at_def arr_get_def set_slot_def Let_def nth_append
     reserved_slot_def less_2_cases_iff list_update_append default_slot_def)

lemma spawn_item:
  assumes "arr_get slots (int i) = Some sl" "tick_query (slot_reg sl) = \<lparr>require_ids = [1], exclude_ids = []\<rparr>" "pending_cmd sl = empty_buffer" "n < 2"
  shows "tick_all int_vt od demo_day None i (spawner c) \<lparr>tick_world = spawn_world n, system_slots = slots\<rparr> =
     Some \<lparr>tick_world = spawn_world (Suc n), system_slots = slots[i := sl\<lparr>pending_cmd := spawned c \<lparr>index = of_nat (Suc n), generation = 1\<rparr>\<rparr>]\<rparr>"
proof -
  have a: "archetypes (spawn_world n) = [demo_arch 0]" by (simp add: spawn_world_def demo_world_archs)
  have r: "resolve_query_cache \<lparr>require_ids = [1], exclude_ids = []\<rparr> (spawn_world n) =
     (\<lparr>epoch = 1, require_matcher = 2, exclude_matcher = 0, archetype_indices = [0]\<rparr>, spawn_world n)"
    by (simp add: resolve_query_cache_def spawn_world_def demo_world_archs)
  have l: "length (chunks (demo_arch 0)) = 1" by (simp add: demo_arch_def)
  show ?thesis using assms r a l spawn_iterate [OF a]
    by (simp add: tick_all_def on_pending_def dispatch_serial_def spawner_def for_each_matched_def arch_at_def arr_get_def in_order_nil
       spawn_created spawn_reserve)
qed

definition spawn_after :: "u32 \<Rightarrow> u32 \<Rightarrow> int SystemSlot list" where
  "spawn_after i j = [(demo_slot demo_reader (spawner 2))\<lparr>pending_cmd := spawned 2 \<lparr>index = j, generation = 1\<rparr>\<rparr>,
     (demo_slot first_spawner (spawner 1))\<lparr>pending_cmd := spawned 1 \<lparr>index = i, generation = 1\<rparr>\<rparr>]"

definition final_archetypes :: "(nat \<Rightarrow> nat list) \<Rightarrow> u32 list option" where
  "final_archetypes od = map_option (\<lambda>s. map archetype_index (entity_slots (tick_world s)))
     (run_stage int_vt (\<lambda>_ _. od) demo_day False [1, 0] spawn_tick)"

lemma spawn_combined:
  "run_combined int_vt (\<lambda>_ n. [0..<n]) demo_day [(1, spawner 1), (0, spawner 2)] spawn_tick = Some \<lparr>tick_world = spawn_world (Suc (Suc 0)), system_slots = spawn_after 1 2\<rparr>"
  "run_combined int_vt (\<lambda>_ n. rev [0..<n]) demo_day [(1, spawner 1), (0, spawner 2)] spawn_tick = Some \<lparr>tick_world = spawn_world (Suc (Suc 0)), system_slots = spawn_after 2 1\<rparr>"
proof -
  have q: "tick_query demo_reader = \<lparr>require_ids = [1], exclude_ids = []\<rparr>" "tick_query first_spawner = \<lparr>require_ids = [1], exclude_ids = []\<rparr>"
    by (simp_all add: tick_query_def demo_reader_record first_spawner_record)
  have p: "prewarm [(1, spawner 1), (0, spawner 2)] spawn_tick = \<lparr>tick_world = spawn_world 0, system_slots = spawn_slots\<rparr>"
    by (simp add: prewarm_def spawn_tick_def spawn_slots_def demo_slot_def q Let_def resolve_query_cache_def demo_world_archs demo_hash demo_scan
       spawn_world_def)
  have b: "build_items [(1, spawner 1), (0, spawner 2)] s = Some ([SerialWhole 1 (spawner 1), SerialWhole 0 (spawner 2)], [], s)" for s
    by (simp add: spawner_def)
  show "run_combined int_vt (\<lambda>_ n. [0..<n]) demo_day [(1, spawner 1), (0, spawner 2)] spawn_tick = Some \<lparr>tick_world = spawn_world (Suc (Suc 0)), system_slots = spawn_after 1 2\<rparr>"
    unfolding run_combined_def p b 
    using spawn_item [where slots = spawn_slots and i = 1 and n = 0] 
     spawn_item [where slots = "[demo_slot demo_reader (spawner 2), (demo_slot first_spawner (spawner 1))\<lparr>pending_cmd := spawned 1 \<lparr>index = 1, generation = 1\<rparr>\<rparr>]" and i = 0 and n = 1] 
    by (simp add: parallel_for_def run_item_def spawn_slots_def demo_slot_def arr_get_def q spawn_after_def)
  show "run_combined int_vt (\<lambda>_ n. rev [0..<n]) demo_day [(1, spawner 1), (0, spawner 2)] spawn_tick = Some \<lparr>tick_world = spawn_world (Suc (Suc 0)), system_slots = spawn_after 2 1\<rparr>"
    unfolding run_combined_def p b 
    using spawn_item [where slots = spawn_slots and i = 0 and n = 0] 
     spawn_item [where slots = "[(demo_slot demo_reader (spawner 2))\<lparr>pending_cmd := spawned 2 \<lparr>index = 1, generation = 1\<rparr>\<rparr>, demo_slot first_spawner (spawner 1)]" and i = 1 and n = 1] 
    by (simp add: parallel_for_def run_item_def spawn_slots_def demo_slot_def arr_get_def q spawn_after_def)
qed

lemmas apply_code = apply_buffer_def spawned_def apply_create_def eid_is_deferred_def DEFERRED_GENERATION_BIT_def spawn_world_def
  demo_world_def move_code empty_world_def int_vt_def compute_matcher_hash_def reserved_slot_def finalize_reserved_entity_def stamp_applied_def

lemma spawn_running: "running demo_day spawn_tick [1, 0] = [(1, spawner 1), (0, spawner 2)]"
  by (simp add: running_def runnable_def run_flag_def spawn_tick_def spawn_slots_def demo_slot_def arr_get_def demo_reader_record
     first_spawner_record spawner_def)

lemma spawn_barrier:
  "map_option (\<lambda>s. map archetype_index (entity_slots (tick_world s)))
     (stage_barrier [1, 0] \<lparr>tick_world = spawn_world (Suc (Suc 0)), system_slots = spawn_after 1 2\<rparr>) = Some [0, 1, 2]"
  "map_option (\<lambda>s. map archetype_index (entity_slots (tick_world s)))
     (stage_barrier [1, 0] \<lparr>tick_world = spawn_world (Suc (Suc 0)), system_slots = spawn_after 2 1\<rparr>) = Some [0, 2, 1]"
  by (simp_all add: stage_barrier_def set_in_apply_phase_def apply_pending_def on_pending_def spawn_after_def demo_slot_def apply_code)

text \<open>Two plain systems that only read share a stage; when each creates an entity through its command buffer,
  which of the two gets which identifier depends on the order in which the pool takes their work.\<close>

theorem plain_spawn_order:
  "stages (rebuild (map slot_reg (system_slots spawn_tick))) = [[1, 0]]
   \<and> final_archetypes (\<lambda>n. [0..<n]) = Some [0, 1, 2] \<and> final_archetypes (\<lambda>n. rev [0..<n]) = Some [0, 2, 1]"
proof -
  have "map slot_reg (system_slots spawn_tick) = [demo_reader, first_spawner]" by (simp add: spawn_tick_def spawn_slots_def demo_slot_def)
  then show ?thesis
    unfolding final_archetypes_def run_stage_def spawn_running Let_def
    using spawn_barrier by (simp add: spawn_stages spawn_combined del: One_nat_def)
qed

end
