(* ===== verification/Thread_Pool.thy ===== *)
theory Thread_Pool
  imports Sim_Prelude "HOL-Library.Multiset"
begin

text \<open>
  The thread pool of the scheduler: \<open>src/openvic-simulation/ecs/EcsThreadPool.hpp\<close> and \<open>.cpp\<close>.

  A step is what happens between two points at which a thread holds no mutex: a worker's visit to the
  queue, a body, a decrement of the \<open>DoneState\<close>; a caller's \<open>notify_all\<close> and each evaluation of the
  predicate it waits for.  A waiting thread sleeps until it is notified, or wakes spuriously.  A body
  stands for its index; its effect is the subject of the theories on stages.  While it runs it may call
  the pool in its turn, any number of times; such a nested call blocks the worker until it returns.  The
  rest of a body is one step, so bodies are taken to end by themselves.
\<close>

section \<open>State\<close>

text \<open>A slice of a \<open>parallel_for\<close>, or one of the functions of a \<open>run_concurrent\<close>.\<close>

datatype JobBody = ParallelBody nat | ConcurrentBody nat

text \<open>\<open>job_done\<close> is the dispatch whose \<open>DoneState\<close> the job points to.\<close>

record Job =
  job_body :: JobBody
  job_done :: nat

text \<open>A worker that holds a job runs its body; in a nested call it waits for that dispatch; one that ran the
  body has not counted it yet.\<close>

datatype Worker = Awake | Asleep | Holding Job | Nested Job nat | Ran Job | Exited

datatype Caller = Notifying | Checking | Waiting | Returned

text \<open>The \<open>DoneState\<close> of a dispatch lives until its caller returns.  What was submitted and what has run
  is recorded for the statements.\<close>

record Dispatch =
  caller :: Caller
  done_count :: nat
  submitted :: "JobBody list"
  ran :: "JobBody list"

record ThreadPool =
  queue :: "Job list"
  stop :: bool
  workers :: "Worker list"
  dispatches :: "Dispatch list"

definition new_pool :: "nat \<Rightarrow> ThreadPool" where
  "new_pool n = \<lparr>queue = [], stop = False, workers = replicate (max 1 n) Awake, dispatches = []\<rparr>"

section \<open>Steps\<close>

definition wake :: "Worker \<Rightarrow> Worker" where
  "wake x = (if x = Asleep then Awake else x)"

definition submit :: "JobBody list \<Rightarrow> ThreadPool \<Rightarrow> ThreadPool" where
  "submit bodies s = s\<lparr>
     queue := queue s @ map (\<lambda>b. \<lparr>job_body = b, job_done = length (dispatches s)\<rparr>) bodies,
     dispatches := dispatches s @ [\<lparr>caller = Notifying, done_count = length bodies, submitted = bodies, ran = []\<rparr>]\<rparr>"

text \<open>Without work nothing happens; one body, or a pool of one worker, runs in place and in order, and the
  call returns at once; other calls submit.  What a body run in place calls is a call of the same thread.\<close>

definition run_in_place :: "JobBody list \<Rightarrow> ThreadPool \<Rightarrow> ThreadPool" where
  "run_in_place bodies s = s\<lparr>dispatches := dispatches s @
     [\<lparr>caller = Returned, done_count = 0, submitted = bodies, ran = bodies\<rparr>]\<rparr>"

definition dispatch :: "JobBody list \<Rightarrow> ThreadPool \<Rightarrow> ThreadPool" where
  "dispatch bodies s =
     (if bodies = [] then s
      else if length (workers s) \<le> 1 \<or> length bodies = 1 then run_in_place bodies s
      else submit bodies s)"

definition pool_parallel_for :: "nat \<Rightarrow> ThreadPool \<Rightarrow> ThreadPool" where
  "pool_parallel_for n = dispatch (map ParallelBody [0..<n])"

definition run_concurrent :: "nat \<Rightarrow> ThreadPool \<Rightarrow> ThreadPool" where
  "run_concurrent n = dispatch (map ConcurrentBody [0..<n])"

definition caller_step :: "nat \<Rightarrow> ThreadPool \<Rightarrow> ThreadPool" where
  "caller_step d s =
     (let x = dispatches s ! d;
          s' = s\<lparr>dispatches := (dispatches s)[d := x\<lparr>caller :=
                 (if caller x = Notifying then Checking else if done_count x = 0 then Returned else Waiting)\<rparr>]\<rparr>
      in if caller x = Notifying then s'\<lparr>workers := map wake (workers s)\<rparr> else s')"

text \<open>Counting a job: \<^const>\<open>None\<close> when its \<open>DoneState\<close> has gone or its count would fall below zero.  The last
  one notifies the caller.\<close>

definition finish_job :: "Job \<Rightarrow> ThreadPool \<Rightarrow> ThreadPool option" where
  "finish_job j s =
     (if job_done j < length (dispatches s) \<and> caller (dispatches s ! job_done j) \<noteq> Returned
         \<and> done_count (dispatches s ! job_done j) \<noteq> 0
      then let x = dispatches s ! job_done j; n = done_count x - 1
           in Some (s\<lparr>dispatches := (dispatches s)[job_done j := x\<lparr>done_count := n,
                caller := (if n = 0 \<and> caller x = Waiting then Checking else caller x)\<rparr>]\<rparr>)
      else None)"

definition run_body :: "Job \<Rightarrow> ThreadPool \<Rightarrow> ThreadPool option" where
  "run_body j s =
     (if job_done j < length (dispatches s) \<and> caller (dispatches s ! job_done j) \<noteq> Returned
      then let x = dispatches s ! job_done j
           in Some (s\<lparr>dispatches := (dispatches s)[job_done j := x\<lparr>ran := ran x @ [job_body j]\<rparr>]\<rparr>)
      else None)"

definition set_worker :: "nat \<Rightarrow> Worker \<Rightarrow> ThreadPool \<Rightarrow> ThreadPool" where
  "set_worker w x s = s\<lparr>workers := (workers s)[w := x]\<rparr>"

text \<open>One round of \<open>worker_loop\<close> is the taking of a job, its body and its counting; jobs are taken from the back.\<close>

definition worker_step :: "nat \<Rightarrow> ThreadPool \<Rightarrow> ThreadPool option" where
  "worker_step w s =
     (case workers s ! w of
        Awake \<Rightarrow>
          (if queue s = [] then Some (set_worker w (if stop s then Exited else Asleep) s)
           else Some (set_worker w (Holding (last (queue s))) (s\<lparr>queue := butlast (queue s)\<rparr>)))
      | Holding j \<Rightarrow> map_option (set_worker w (Ran j)) (run_body j s)
      | Nested j d \<Rightarrow> Some (set_worker w (Holding j) s)
      | Ran j \<Rightarrow> map_option (set_worker w Awake) (finish_job j s)
      | _ \<Rightarrow> Some s)"

text \<open>A worker in a nested call goes on when that call returns.\<close>

definition can_run :: "ThreadPool \<Rightarrow> Worker \<Rightarrow> bool" where
  "can_run s x = (case x of Asleep \<Rightarrow> False | Exited \<Rightarrow> False | Nested j d \<Rightarrow> caller (dispatches s ! d) = Returned | _ \<Rightarrow> True)"

definition worker_busy :: "nat \<Rightarrow> ThreadPool \<Rightarrow> bool" where
  "worker_busy w s \<longleftrightarrow> w < length (workers s) \<and> can_run s (workers s ! w)"

definition caller_busy :: "nat \<Rightarrow> ThreadPool \<Rightarrow> bool" where
  "caller_busy d s \<longleftrightarrow> d < length (dispatches s) \<and> (caller (dispatches s ! d) = Notifying \<or> caller (dispatches s ! d) = Checking)"

text \<open>The destructor; no call may be running.\<close>

definition destroy_pool :: "ThreadPool \<Rightarrow> ThreadPool" where
  "destroy_pool s = s\<lparr>stop := True, workers := map wake (workers s)\<rparr>"

text \<open>The steps the pool takes by itself, and those from outside.\<close>

inductive pool_step :: "ThreadPool \<Rightarrow> ThreadPool \<Rightarrow> bool" where
  step_worker: "worker_busy w s \<Longrightarrow> worker_step w s = Some s' \<Longrightarrow> pool_step s s'"
| step_caller: "caller_busy d s \<Longrightarrow> pool_step s (caller_step d s)"

inductive pool_reachable :: "nat \<Rightarrow> ThreadPool \<Rightarrow> bool" for n where
  pool_new: "pool_reachable n (new_pool n)"
| pool_runs: "pool_reachable n s \<Longrightarrow> pool_step s s' \<Longrightarrow> pool_reachable n s'"
| pool_parallel: "pool_reachable n s \<Longrightarrow> \<not> stop s \<Longrightarrow> pool_reachable n (pool_parallel_for k s)"
| pool_concurrent: "pool_reachable n s \<Longrightarrow> \<not> stop s \<Longrightarrow> pool_reachable n (run_concurrent k s)"
| pool_nested_parallel: "pool_reachable n s \<Longrightarrow> w < length (workers s) \<Longrightarrow> workers s ! w = Holding j \<Longrightarrow> 0 < k \<Longrightarrow>
    pool_reachable n (set_worker w (Nested j (length (dispatches s))) (pool_parallel_for k s))"
| pool_nested_concurrent: "pool_reachable n s \<Longrightarrow> w < length (workers s) \<Longrightarrow> workers s ! w = Holding j \<Longrightarrow> 0 < k \<Longrightarrow>
    pool_reachable n (set_worker w (Nested j (length (dispatches s))) (run_concurrent k s))"
| pool_spurious_worker: "pool_reachable n s \<Longrightarrow> w < length (workers s) \<Longrightarrow> workers s ! w = Asleep \<Longrightarrow> pool_reachable n (set_worker w Awake s)"
| pool_spurious_caller: "pool_reachable n s \<Longrightarrow> d < length (dispatches s) \<Longrightarrow> caller (dispatches s ! d) = Waiting \<Longrightarrow>
    pool_reachable n (s\<lparr>dispatches := (dispatches s)[d := (dispatches s ! d)\<lparr>caller := Checking\<rparr>]\<rparr>)"
| pool_destroy: "pool_reachable n s \<Longrightarrow> \<forall>x \<in> set (dispatches s). caller x = Returned \<Longrightarrow> pool_reachable n (destroy_pool s)"

inductive_cases pool_stepE: "pool_step s s'"

section \<open>The invariant\<close>

primrec held_job :: "Worker \<Rightarrow> Job list" where
  "held_job Awake = []" | "held_job Asleep = []" | "held_job (Holding j) = [j]" | "held_job (Nested j d) = [j]" | "held_job (Ran j) = [j]" | "held_job Exited = []"

primrec unrun_job :: "Worker \<Rightarrow> Job list" where
  "unrun_job Awake = []" | "unrun_job Asleep = []" | "unrun_job (Holding j) = [j]" | "unrun_job (Nested j d) = [j]" | "unrun_job (Ran j) = []" | "unrun_job Exited = []"

definition outstanding :: "ThreadPool \<Rightarrow> Job multiset" where
  "outstanding s = mset (queue s) + mset (concat (map held_job (workers s)))"

definition unrun :: "ThreadPool \<Rightarrow> Job multiset" where
  "unrun s = mset (queue s) + mset (concat (map unrun_job (workers s)))"

definition jobs_of :: "nat \<Rightarrow> Job multiset \<Rightarrow> JobBody multiset" where
  "jobs_of d M = image_mset job_body (filter_mset (\<lambda>j. job_done j = d) M)"

text \<open>The count of every dispatch is the number of its jobs that are queued or with a worker, and what it
  submitted has run or is still to run.\<close>

definition dispatch_ok :: "ThreadPool \<Rightarrow> nat \<Rightarrow> bool" where
  "dispatch_ok s d \<longleftrightarrow> (let x = dispatches s ! d in
     done_count x = size (jobs_of d (outstanding s))
     \<and> mset (submitted x) = mset (ran x) + jobs_of d (unrun s)
     \<and> (caller x = Returned \<longrightarrow> done_count x = 0) \<and> (caller x = Waiting \<longrightarrow> done_count x \<noteq> 0))"

text \<open>A nested call came after the call its worker works for.  Nobody sleeps beside a queued job unless a
  notification is on its way, and workers leave only when the pool is destroyed.\<close>

definition nested_ok :: "nat \<Rightarrow> Worker \<Rightarrow> bool" where
  "nested_ok n x = (case x of Nested j d \<Rightarrow> job_done j < d \<and> d < n | _ \<Rightarrow> True)"

lemma nested_ok_simps [simp]:
  "nested_ok n Awake" "nested_ok n Asleep" "nested_ok n Exited" "nested_ok n (Holding j)" "nested_ok n (Ran j)"
  "nested_ok n (Nested j d) \<longleftrightarrow> job_done j < d \<and> d < n" "nested_ok n (wake x) = nested_ok n x"
  by (auto simp: nested_ok_def wake_def split: Worker.splits)

lemma nested_ok_mono: "nested_ok n x \<Longrightarrow> n \<le> m \<Longrightarrow> nested_ok m x"
  by (cases x) auto

definition pool_inv :: "ThreadPool \<Rightarrow> bool" where
  "pool_inv s \<longleftrightarrow> (\<forall>d < length (dispatches s). dispatch_ok s d)
     \<and> (\<forall>j \<in># outstanding s. job_done j < length (dispatches s))
     \<and> (queue s \<noteq> [] \<longrightarrow> Asleep \<in> set (workers s) \<longrightarrow> (\<exists>x \<in> set (dispatches s). caller x = Notifying))
     \<and> (\<forall>x \<in> set (workers s). nested_ok (length (dispatches s)) x)
     \<and> (Exited \<in> set (workers s) \<longrightarrow> stop s) \<and> workers s \<noteq> []
     \<and> (stop s \<longrightarrow> (\<forall>x \<in> set (dispatches s). caller x = Returned) \<and> Asleep \<notin> set (workers s))"

lemma jobs_of_simps [simp]:
  "jobs_of d {#} = {#}" "jobs_of d (M + N) = jobs_of d M + jobs_of d N"
  "jobs_of d (add_mset j M) = (if job_done j = d then add_mset (job_body j) (jobs_of d M) else jobs_of d M)"
  by (simp_all add: jobs_of_def)

lemma jobs_of_submitted:
  "jobs_of d (mset (map (\<lambda>b. \<lparr>job_body = b, job_done = e\<rparr>) bs)) = (if d = e then mset bs else {#})"
proof (cases "d = e")
  case True
  then show ?thesis by (induction bs) (simp_all del: mset_map)
next
  case False
  then show ?thesis by (induction bs) (simp_all del: mset_map)
qed

lemma jobs_of_none: "(\<And>j. j \<in># M \<Longrightarrow> job_done j \<noteq> d) \<Longrightarrow> jobs_of d M = {#}"
  by (induction M) simp_all

lemma held_wake [simp]: "held_job (wake x) = held_job x" "unrun_job (wake x) = unrun_job x" "wake x = Exited \<longleftrightarrow> x = Exited"
  by (cases x; simp add: wake_def)+

lemma wake_not_asleep [simp]: "wake x \<noteq> Asleep"
  by (simp add: wake_def)

lemma split_worker:
  assumes "w < length (workers s)"
  obtains A B where "workers s = A @ workers s ! w # B" "length A = w" "\<And>x. (workers s)[w := x] = A @ x # B"
proof -
  have e: "workers s = take w (workers s) @ workers s ! w # drop (Suc w) (workers s)" using assms by (rule id_take_nth_drop)
  show thesis using that [OF e] assms by (simp add: upd_conv_take_nth_drop)
qed

text \<open>Replacing a worker.\<close>

lemma outstanding_set_worker:
  assumes "w < length (workers s)"
  shows "outstanding (set_worker w x s) + mset (held_job (workers s ! w)) = outstanding s + mset (held_job x)"
    "unrun (set_worker w x s) + mset (unrun_job (workers s ! w)) = unrun s + mset (unrun_job x)"
proof -
  obtain A B where s: "workers s = A @ workers s ! w # B" "\<And>x. (workers s)[w := x] = A @ x # B"
    using split_worker [OF assms] by metis
  show "outstanding (set_worker w x s) + mset (held_job (workers s ! w)) = outstanding s + mset (held_job x)"
    unfolding outstanding_def set_worker_def by (subst (2) s(1)) (simp add: s(2))
  show "unrun (set_worker w x s) + mset (unrun_job (workers s ! w)) = unrun s + mset (unrun_job x)"
    unfolding unrun_def set_worker_def by (subst (2) s(1)) (simp add: s(2))
qed

lemma outstanding_dispatches [simp]:
  "outstanding (s\<lparr>dispatches := ds\<rparr>) = outstanding s" "unrun (s\<lparr>dispatches := ds\<rparr>) = unrun s"
  by (simp_all add: outstanding_def unrun_def)

lemma set_worker_simps [simp]:
  "dispatches (set_worker w x s) = dispatches s" "queue (set_worker w x s) = queue s" "stop (set_worker w x s) = stop s"
  "length (workers (set_worker w x s)) = length (workers s)"
  by (simp_all add: set_worker_def)

lemma in_set_worker: "y \<in> set (workers (set_worker w x s)) \<Longrightarrow> y = x \<or> y \<in> set (workers s)"
  using set_update_subset_insert by (fastforce simp: set_worker_def)

lemma held_outstanding:
  assumes "w < length (workers s)" "j \<in> set (held_job (workers s ! w))"
  shows "j \<in># outstanding s"
  using assms by (auto simp: outstanding_def intro!: bexI [of _ "workers s ! w"])

lemma unrun_le: "j \<in># unrun s \<Longrightarrow> j \<in># outstanding s"
proof -
  have "j \<in> set (unrun_job x) \<Longrightarrow> j \<in> set (held_job x)" for x by (cases x) auto
  then show "j \<in># unrun s \<Longrightarrow> j \<in># outstanding s" by (auto simp: outstanding_def unrun_def)
qed

text \<open>The \<open>DoneState\<close> of an outstanding job is alive and counts it.\<close>

lemma outstanding_alive:
  assumes "pool_inv s" "j \<in># outstanding s"
  shows "job_done j < length (dispatches s)" "done_count (dispatches s ! job_done j) \<noteq> 0"
    "caller (dispatches s ! job_done j) \<noteq> Returned"
proof -
  show d: "job_done j < length (dispatches s)" using assms by (simp add: pool_inv_def)
  then have ok: "dispatch_ok s (job_done j)" using assms(1) by (simp add: pool_inv_def)
  have "job_body j \<in># jobs_of (job_done j) (outstanding s)" using assms(2) by (auto simp: jobs_of_def)
  then show c: "done_count (dispatches s ! job_done j) \<noteq> 0" using ok by (auto simp: dispatch_ok_def Let_def)
  show "caller (dispatches s ! job_done j) \<noteq> Returned" using ok c by (auto simp: dispatch_ok_def Let_def)
qed

lemma worker_step_total:
  assumes "pool_inv s" "w < length (workers s)"
  shows "worker_step w s \<noteq> None"
proof (cases "workers s ! w")
  case (Holding j)
  then have "j \<in># outstanding s" using held_outstanding [OF assms(2)] by simp
  then show ?thesis using outstanding_alive [OF assms(1)] Holding by (simp add: worker_step_def run_body_def Let_def)
next
  case (Ran j)
  then have "j \<in># outstanding s" using held_outstanding [OF assms(2)] by simp
  then show ?thesis using outstanding_alive [OF assms(1)] Ran by (simp add: worker_step_def finish_job_def Let_def)
qed (simp_all add: worker_step_def)

section \<open>Every step keeps the invariant\<close>

lemma dispatch_okD:
  assumes "dispatch_ok s d"
  shows "done_count (dispatches s ! d) = size (jobs_of d (outstanding s))"
    "mset (submitted (dispatches s ! d)) = mset (ran (dispatches s ! d)) + jobs_of d (unrun s)"
    "caller (dispatches s ! d) = Returned \<Longrightarrow> done_count (dispatches s ! d) = 0"
    "caller (dispatches s ! d) = Waiting \<Longrightarrow> done_count (dispatches s ! d) \<noteq> 0"
  using assms unfolding dispatch_ok_def Let_def by blast+

lemma dispatch_okI:
  assumes "done_count (dispatches s ! d) = size (jobs_of d (outstanding s))"
    "mset (submitted (dispatches s ! d)) = mset (ran (dispatches s ! d)) + jobs_of d (unrun s)"
    "caller (dispatches s ! d) = Returned \<Longrightarrow> done_count (dispatches s ! d) = 0"
    "caller (dispatches s ! d) = Waiting \<Longrightarrow> done_count (dispatches s ! d) \<noteq> 0"
  shows "dispatch_ok s d"
  unfolding dispatch_ok_def Let_def using assms by blast

lemma dispatch_ok_same:
  assumes "dispatch_ok s d" "dispatches t ! d = dispatches s ! d" "jobs_of d (outstanding t) = jobs_of d (outstanding s)"
    "jobs_of d (unrun t) = jobs_of d (unrun s)"
  shows "dispatch_ok t d"
  using assms by (simp add: dispatch_ok_def)

text \<open>A job is taken, or nothing is left to take.\<close>

lemma inv_awake:
  assumes inv: "pool_inv s" and w: "w < length (workers s)" "workers s ! w = Awake" and t: "worker_step w s = Some t"
  shows "pool_inv t"
proof (cases "queue s = []")
  case True
  have t': "t = set_worker w (if stop s then Exited else Asleep) s" using t w(2) True by (simp add: worker_step_def)
  have o: "outstanding t = outstanding s" "unrun t = unrun s"
    using outstanding_set_worker [OF w(1), of "if stop s then Exited else Asleep"] w(2) by (auto simp: t' split: if_splits)
  have ws: "y = (if stop s then Exited else Asleep) \<or> y \<in> set (workers s)" if "y \<in> set (workers t)" for y
    using in_set_worker that unfolding t' by blast
  have ne: "workers t \<noteq> []" using inv by (simp add: t' set_worker_def pool_inv_def)
  have ds: "dispatches t = dispatches s" "queue t = []" "stop t = stop s" by (simp_all add: t' True)
  show ?thesis
    unfolding pool_inv_def
  proof (intro conjI impI allI ballI)
    show "dispatch_ok t d" if "d < length (dispatches t)" for d
      using inv that dispatch_ok_same [of s d t] by (simp add: pool_inv_def o ds)
    show "job_done j < length (dispatches t)" if "j \<in># outstanding t" for j using inv that by (simp add: pool_inv_def o ds)
    show "stop t" if "Exited \<in> set (workers t)" using ws [OF that] inv by (auto simp: pool_inv_def ds split: if_splits)
    show "caller x = Returned" if "stop t" "x \<in> set (dispatches t)" for x using inv that by (simp add: pool_inv_def ds)
    show "Asleep \<notin> set (workers t)" if "stop t" using ws [of Asleep] inv that by (auto simp: pool_inv_def ds split: if_splits)
    show "nested_ok (length (dispatches t)) x" if "x \<in> set (workers t)" for x
      using ws [OF that] inv by (auto simp: pool_inv_def ds split: if_splits)
  qed (use ne ds in simp_all)
next
  case False
  then obtain Q j where q: "queue s = Q @ [j]" by (metis rev_exhaust)
  have t': "t = set_worker w (Holding j) (s\<lparr>queue := Q\<rparr>)" using t w(2) q by (simp add: worker_step_def)
  have sq: "w < length (workers (s\<lparr>queue := Q\<rparr>))" using w by simp
  have o: "outstanding t = outstanding s" "unrun t = unrun s"
    using outstanding_set_worker [OF sq, of "Holding j"] w(2) by (simp_all add: t' outstanding_def unrun_def q)
  have ws: "y = Holding j \<or> y \<in> set (workers s)" if "y \<in> set (workers t)" for y
    using in_set_worker [of y w _ "s\<lparr>queue := Q\<rparr>"] that by (simp add: t')
  have ne: "workers t \<noteq> []" using inv by (simp add: t' set_worker_def pool_inv_def)
  have ds: "dispatches t = dispatches s" "queue t = Q" "stop t = stop s" by (simp_all add: t')
  show ?thesis
    unfolding pool_inv_def
  proof (intro conjI impI allI ballI)
    show "dispatch_ok t d" if "d < length (dispatches t)" for d
      using inv that dispatch_ok_same [of s d t] by (simp add: pool_inv_def o ds)
    show "job_done j < length (dispatches t)" if "j \<in># outstanding t" for j using inv that by (simp add: pool_inv_def o ds)
    show "\<exists>x \<in> set (dispatches t). caller x = Notifying" if "Asleep \<in> set (workers t)"
      using ws [OF that] inv by (auto simp: pool_inv_def ds q)
    show "stop t" if "Exited \<in> set (workers t)" using ws [OF that] inv by (auto simp: pool_inv_def ds)
    show "caller x = Returned" if "stop t" "x \<in> set (dispatches t)" for x using inv that by (simp add: pool_inv_def ds)
    show "Asleep \<notin> set (workers t)" if "stop t" using ws [of Asleep] inv that by (auto simp: pool_inv_def ds)
    show "nested_ok (length (dispatches t)) x" if "x \<in> set (workers t)" for x using ws [OF that] inv by (auto simp: pool_inv_def ds)
  qed (use ne in simp)
qed

text \<open>A change of one dispatch and one worker.\<close>

lemma inv_update:
  assumes inv: "pool_inv s" and w: "w < length (workers s)" and d: "d < length (dispatches s)"
    and t: "t = set_worker w x (s\<lparr>dispatches := (dispatches s)[d := y]\<rparr>)"
    and x: "x \<noteq> Asleep" "x \<noteq> Exited" "nested_ok (length (dispatches s)) x"
    and ok: "dispatch_ok t d" and live: "caller (dispatches s ! d) \<noteq> Returned"
    and y: "caller y = Notifying \<longleftrightarrow> caller (dispatches s ! d) = Notifying"
    and others: "\<And>e. e \<noteq> d \<Longrightarrow> jobs_of e (outstanding t) = jobs_of e (outstanding s) \<and> jobs_of e (unrun t) = jobs_of e (unrun s)"
    and jobs: "\<And>j. j \<in># outstanding t \<Longrightarrow> j \<in># outstanding s"
  shows "pool_inv t"
proof -
  have ds: "dispatches t = (dispatches s)[d := y]" "queue t = queue s" "stop t = stop s" by (simp_all add: t)
  have ws: "z = x \<or> z \<in> set (workers s)" if "z \<in> set (workers t)" for z
    using in_set_worker [of z w x "s\<lparr>dispatches := (dispatches s)[d := y]\<rparr>"] that by (simp add: t)
  have ns: "\<not> stop s" using inv live d by (auto simp: pool_inv_def)
  show ?thesis
    unfolding pool_inv_def
  proof (intro conjI impI allI ballI)
    show "dispatch_ok t e" if "e < length (dispatches t)" for e
    proof (cases "e = d")
      case False
      then show ?thesis using inv that others [OF False] by (intro dispatch_ok_same [of s e t]) (simp_all add: pool_inv_def ds)
    qed (use ok in simp)
    show "job_done j < length (dispatches t)" if "j \<in># outstanding t" for j using inv jobs [OF that] by (simp add: pool_inv_def ds)
    show "\<exists>z \<in> set (dispatches t). caller z = Notifying" if q: "queue t \<noteq> []" and a: "Asleep \<in> set (workers t)"
    proof -
      have "queue s \<noteq> []" "Asleep \<in> set (workers s)" using q ws [OF a] x by (auto simp: ds)
      then obtain e where e: "e < length (dispatches s)" "caller (dispatches s ! e) = Notifying"
        using inv by (auto simp: pool_inv_def in_set_conv_nth)
      then have "e < length (dispatches t)" "caller (dispatches t ! e) = Notifying" using y d by (auto simp: ds nth_list_update)
      then show ?thesis using nth_mem by blast
    qed
    show "stop t" if "Exited \<in> set (workers t)" using ws [OF that] x inv by (auto simp: pool_inv_def ds)
    show "workers t \<noteq> []" using w by (auto simp: t set_worker_def)
    show "nested_ok (length (dispatches t)) z" if "z \<in> set (workers t)" for z using ws [OF that] inv x by (auto simp: pool_inv_def ds)
  qed (use ns ds in simp_all)
qed

lemma inv_busy:
  assumes inv: "pool_inv s" and w: "w < length (workers s)" and h: "workers s ! w = Holding j \<or> workers s ! w = Ran j"
    and t: "worker_step w s = Some t"
  shows "pool_inv t"
proof -
  let ?d = "job_done j" and ?x = "dispatches s ! job_done j"
  have j: "j \<in># outstanding s" using held_outstanding [OF w, of j] h by auto
  note alive = outstanding_alive [OF inv j]
  have ok: "dispatch_ok s ?d" using inv alive(1) by (simp add: pool_inv_def)
  show ?thesis using h
  proof
    assume hold: "workers s ! w = Holding j"
    let ?y = "?x\<lparr>ran := ran ?x @ [job_body j]\<rparr>"
    have t': "t = set_worker w (Ran j) (s\<lparr>dispatches := (dispatches s)[?d := ?y]\<rparr>)"
      using t hold alive by (simp add: worker_step_def run_body_def Let_def)
    have w': "w < length (workers (s\<lparr>dispatches := (dispatches s)[?d := ?y]\<rparr>))" using w by simp
    have o: "outstanding t = outstanding s" "unrun t + {#j#} = unrun s"
      using outstanding_set_worker [OF w', of "Ran j"] hold unfolding t' by simp_all
    show ?thesis
    proof (rule inv_update [OF inv w alive(1) t'])
      show "dispatch_ok t ?d"
      proof -
        have "dispatches t ! ?d = ?y" using alive(1) by (simp add: t')
        then have y: "done_count (dispatches t ! ?d) = done_count ?x" "submitted (dispatches t ! ?d) = submitted ?x"
          "ran (dispatches t ! ?d) = ran ?x @ [job_body j]" "caller (dispatches t ! ?d) = caller ?x" by simp_all
        have "jobs_of ?d (unrun s) = add_mset (job_body j) (jobs_of ?d (unrun t))" by (simp add: o(2) [symmetric])
        then have m: "mset (submitted ?x) = mset (ran ?x @ [job_body j]) + jobs_of ?d (unrun t)" using dispatch_okD(2) [OF ok] by simp
        show ?thesis
        proof (rule dispatch_okI, unfold y o(1))
          show "done_count ?x = size (jobs_of ?d (outstanding s))" by (rule dispatch_okD [OF ok])
          show "mset (submitted ?x) = mset (ran ?x @ [job_body j]) + jobs_of ?d (unrun t)" by (rule m)
        qed (use dispatch_okD(3,4) [OF ok] in blast)+
      qed
      show "jobs_of e (outstanding t) = jobs_of e (outstanding s) \<and> jobs_of e (unrun t) = jobs_of e (unrun s)" if "e \<noteq> ?d" for e
        using that by (simp add: o(1) o(2) [symmetric])
    qed (use alive o in simp_all)
  next
    assume fin: "workers s ! w = Ran j"
    let ?y = "?x\<lparr>done_count := done_count ?x - 1, caller := (if done_count ?x - 1 = 0 \<and> caller ?x = Waiting then Checking else caller ?x)\<rparr>"
    have t': "t = set_worker w Awake (s\<lparr>dispatches := (dispatches s)[?d := ?y]\<rparr>)"
      using t fin alive by (simp add: worker_step_def finish_job_def Let_def)
    have w': "w < length (workers (s\<lparr>dispatches := (dispatches s)[?d := ?y]\<rparr>))" using w by simp
    have o: "outstanding t + {#j#} = outstanding s" "unrun t = unrun s"
      using outstanding_set_worker [OF w', of Awake] fin unfolding t' by simp_all
    show ?thesis
    proof (rule inv_update [OF inv w alive(1) t'])
      show "dispatch_ok t ?d"
      proof -
        have "dispatches t ! ?d = ?y" using alive(1) by (simp add: t')
        then have y: "done_count (dispatches t ! ?d) = done_count ?x - 1" "submitted (dispatches t ! ?d) = submitted ?x"
          "ran (dispatches t ! ?d) = ran ?x"
          "caller (dispatches t ! ?d) = (if done_count ?x - 1 = 0 \<and> caller ?x = Waiting then Checking else caller ?x)" by simp_all
        have "jobs_of ?d (outstanding s) = add_mset (job_body j) (jobs_of ?d (outstanding t))" by (simp add: o(1) [symmetric])
        then have n: "done_count ?x - 1 = size (jobs_of ?d (outstanding t))" using dispatch_okD(1) [OF ok] by simp
        show ?thesis
        proof (rule dispatch_okI, unfold y o(2))
          show "done_count ?x - 1 = size (jobs_of ?d (outstanding t))" by (rule n)
          show "mset (submitted ?x) = mset (ran ?x) + jobs_of ?d (unrun s)" by (rule dispatch_okD [OF ok])
        qed (use alive(3) in \<open>auto split: if_splits\<close>)
      qed
      show "jobs_of e (outstanding t) = jobs_of e (outstanding s) \<and> jobs_of e (unrun t) = jobs_of e (unrun s)" if "e \<noteq> ?d" for e
        using that by (simp add: o(2) o(1) [symmetric])
      show "i \<in># outstanding t \<Longrightarrow> i \<in># outstanding s" for i by (simp add: o(1) [symmetric])
    qed (use alive in auto)
  qed
qed

lemma inv_caller:
  assumes inv: "pool_inv s" and b: "caller_busy d s"
  shows "pool_inv (caller_step d s)"
proof -
  let ?x = "dispatches s ! d" and ?t = "caller_step d s"
  have d: "d < length (dispatches s)" using b by (simp add: caller_busy_def)
  have dt: "length (dispatches ?t) = length (dispatches s)" "queue ?t = queue s" "stop ?t = stop s"
    "\<And>e. e \<noteq> d \<Longrightarrow> dispatches ?t ! e = dispatches s ! e"
    by (simp_all add: caller_step_def Let_def)
  have o: "outstanding ?t = outstanding s" "unrun ?t = unrun s"
    by (simp_all add: caller_step_def Let_def outstanding_def unrun_def comp_def)
  have ns: "\<not> stop s" using inv b d by (auto simp: pool_inv_def caller_busy_def)
  have ok: "dispatch_ok s d" using inv d by (simp add: pool_inv_def)
  show ?thesis
    unfolding pool_inv_def
  proof (intro conjI impI allI ballI)
    show "dispatch_ok ?t e" if "e < length (dispatches ?t)" for e
    proof (cases "e = d")
      case True
      let ?c = "if caller ?x = Notifying then Checking else if done_count ?x = 0 then Returned else Waiting"
      have "dispatches ?t ! d = ?x\<lparr>caller := ?c\<rparr>" using d by (simp add: caller_step_def Let_def)
      then have y: "done_count (dispatches ?t ! d) = done_count ?x" "submitted (dispatches ?t ! d) = submitted ?x"
        "ran (dispatches ?t ! d) = ran ?x" "caller (dispatches ?t ! d) = ?c" by simp_all
      show ?thesis
        unfolding True
      proof (rule dispatch_okI, unfold y o)
        show "done_count ?x = size (jobs_of d (outstanding s))" "mset (submitted ?x) = mset (ran ?x) + jobs_of d (unrun s)"
          by (rule dispatch_okD [OF ok])+
      qed (auto split: if_splits)
    next
      case False
      have "dispatch_ok s e" using inv that dt(1) by (simp add: pool_inv_def)
      then show ?thesis by (rule dispatch_ok_same) (simp_all only: dt(4) [OF False] o)
    qed
    show "job_done j < length (dispatches ?t)" if "j \<in># outstanding ?t" for j using inv that by (simp add: pool_inv_def o dt(1))
    show "\<exists>z \<in> set (dispatches ?t). caller z = Notifying" if q: "queue ?t \<noteq> []" and a: "Asleep \<in> set (workers ?t)"
    proof (cases "caller ?x = Notifying")
      case False
      then have "workers ?t = workers s" by (simp add: caller_step_def Let_def)
      then have "\<exists>z \<in> set (dispatches s). caller z = Notifying" using q a inv by (simp add: pool_inv_def dt)
      then obtain e where e: "e < length (dispatches s)" "caller (dispatches s ! e) = Notifying" by (auto simp: in_set_conv_nth)
      then have "dispatches ?t ! e = dispatches s ! e" using dt(4) False by metis
      then show ?thesis using e dt(1) nth_mem by metis
    qed (use a in \<open>auto simp: caller_step_def Let_def wake_def split: if_splits\<close>)
    show "stop ?t" if "Exited \<in> set (workers ?t)"
      using that inv by (auto simp: caller_step_def Let_def pool_inv_def wake_def split: if_splits)
    show "workers ?t \<noteq> []" using inv by (simp add: caller_step_def Let_def pool_inv_def)
    show "nested_ok (length (dispatches ?t)) x" if "x \<in> set (workers ?t)" for x
      using that inv by (auto simp: dt(1) pool_inv_def caller_step_def Let_def split: if_splits)
  qed (use ns dt in simp_all)
qed

text \<open>A new dispatch, submitted or run in place.\<close>

lemma inv_new_dispatch:
  assumes inv: "pool_inv s" and ns: "\<not> stop s"
    and t: "workers t = workers s" "stop t = stop s" "dispatches t = dispatches s @ [x]"
    and o: "outstanding t = outstanding s + new" "unrun t = unrun s + new"
    and new: "\<And>j. j \<in># new \<Longrightarrow> job_done j = length (dispatches s)"
    and x: "done_count x = size (image_mset job_body new)" "mset (submitted x) = mset (ran x) + image_mset job_body new"
      "caller x = (if new = {#} then Returned else Notifying)" "queue t \<noteq> queue s \<Longrightarrow> new \<noteq> {#}"
  shows "pool_inv t"
proof -
  let ?n = "length (dispatches s)"
  have fresh: "jobs_of ?n (outstanding s) = {#}" "jobs_of ?n (unrun s) = {#}"
  proof -
    have "job_done j \<noteq> ?n" if "j \<in># outstanding s" for j using inv that by (auto simp: pool_inv_def)
    then show "jobs_of ?n (outstanding s) = {#}" "jobs_of ?n (unrun s) = {#}" using unrun_le jobs_of_none by blast+
  qed
  have n: "jobs_of ?n new = image_mset job_body new" unfolding jobs_of_def using new by (simp cong: filter_mset_cong)
  show ?thesis
    unfolding pool_inv_def
  proof (intro conjI impI allI ballI)
    show "dispatch_ok t e" if "e < length (dispatches t)" for e
    proof (cases "e < ?n")
      case True
      then have e: "jobs_of e new = {#}" using new by (intro jobs_of_none) fastforce
      have "dispatch_ok s e" using inv True by (simp add: pool_inv_def)
      then show ?thesis by (rule dispatch_ok_same) (use True e in \<open>simp_all add: t o nth_append\<close>)
    next
      case False
      then have e: "e = ?n" using that by (simp add: t)
      have "dispatches t ! ?n = x" by (simp add: t)
      then show ?thesis using x(1-3) by (simp add: e dispatch_ok_def o fresh n Let_def)
    qed
    show "job_done j < length (dispatches t)" if "j \<in># outstanding t" for j
      using that inv new [of j] unfolding o by (auto simp: t pool_inv_def less_SucI)
    show "\<exists>z \<in> set (dispatches t). caller z = Notifying" if "queue t \<noteq> []" "Asleep \<in> set (workers t)"
      using that inv x(3,4) by (cases "queue t = queue s") (auto simp: t pool_inv_def)
    show "nested_ok (length (dispatches t)) z" if "z \<in> set (workers t)" for z
      using that inv nested_ok_mono [of ?n z "Suc ?n"] by (simp add: t pool_inv_def)
  qed (use inv ns in \<open>auto simp: t pool_inv_def\<close>)
qed

lemma inv_dispatch:
  assumes inv: "pool_inv s" and ns: "\<not> stop s"
  shows "pool_inv (dispatch bodies s)"
proof -
  let ?new = "mset (map (\<lambda>b. \<lparr>job_body = b, job_done = length (dispatches s)\<rparr>) bodies)"
  have "image_mset job_body ?new = mset bodies" by (induction bodies) simp_all
  then have "pool_inv (submit bodies s)" if "bodies \<noteq> []"
    using that by (intro inv_new_dispatch [OF inv ns, where new = ?new]) (auto simp: submit_def outstanding_def unrun_def)
  moreover have "pool_inv (run_in_place bodies s)"
    by (rule inv_new_dispatch [OF inv ns, where new = "{#}" and x = "\<lparr>caller = Returned, done_count = 0, submitted = bodies, ran = bodies\<rparr>"])
      (simp_all add: run_in_place_def outstanding_def unrun_def)
  ultimately show ?thesis using inv by (simp add: dispatch_def)
qed

text \<open>A worker that changes what it does with its job: it enters or leaves a nested call.\<close>

lemma inv_relabel:
  assumes inv: "pool_inv s" and w: "w < length (workers s)"
    and x: "held_job x = held_job (workers s ! w)" "unrun_job x = unrun_job (workers s ! w)" "x \<noteq> Asleep" "x \<noteq> Exited"
      "nested_ok (length (dispatches s)) x"
  shows "pool_inv (set_worker w x s)"
proof -
  have o: "outstanding (set_worker w x s) = outstanding s" "unrun (set_worker w x s) = unrun s"
    using outstanding_set_worker [OF w, of x] x(1,2) by simp_all
  have m: "y \<in> set (workers (set_worker w x s)) \<Longrightarrow> y = x \<or> y \<in> set (workers s)" for y by (rule in_set_worker)
  have ne: "workers (set_worker w x s) \<noteq> []" using w by (auto simp: set_worker_def)
  have ok: "dispatch_ok (set_worker w x s) d" if "d < length (dispatches s)" for d
    using inv that by (simp add: pool_inv_def dispatch_ok_def o)
  show ?thesis
    unfolding pool_inv_def
  proof (intro conjI impI allI ballI)
    show "nested_ok (length (dispatches (set_worker w x s))) y" if "y \<in> set (workers (set_worker w x s))" for y
      using m [OF that] inv x(5) by (auto simp: pool_inv_def)
  qed (use inv ne ok m [of Exited] m [of Asleep] x(3,4) in \<open>auto simp: pool_inv_def o\<close>)
qed

lemma dispatch_simps:
  "workers (dispatch bodies s) = workers s"
  "bodies \<noteq> [] \<Longrightarrow> length (dispatches (dispatch bodies s)) = Suc (length (dispatches s))"
  by (simp_all add: dispatch_def run_in_place_def submit_def)

lemma inv_nested:
  assumes inv: "pool_inv s" and w: "w < length (workers s)" "workers s ! w = Holding j" and b: "bodies \<noteq> []"
  shows "pool_inv (set_worker w (Nested j (length (dispatches s))) (dispatch bodies s))"
proof -
  note j = outstanding_alive [OF inv held_outstanding [OF w(1), of j]]
  have ns: "\<not> stop s" using inv j w(2) by (auto simp: pool_inv_def)
  show ?thesis using j(1) w by (intro inv_relabel inv_dispatch [OF inv ns]) (simp_all add: dispatch_simps b)
qed

lemma inv_spurious_worker:
  "pool_inv s \<Longrightarrow> w < length (workers s) \<Longrightarrow> workers s ! w = Asleep \<Longrightarrow> pool_inv (set_worker w Awake s)"
  by (rule inv_relabel) simp_all

lemma inv_spurious_caller:
  assumes inv: "pool_inv s" and d: "d < length (dispatches s)" "caller (dispatches s ! d) = Waiting"
  shows "pool_inv (s\<lparr>dispatches := (dispatches s)[d := (dispatches s ! d)\<lparr>caller := Checking\<rparr>]\<rparr>)"
proof -
  let ?t = "s\<lparr>dispatches := (dispatches s)[d := (dispatches s ! d)\<lparr>caller := Checking\<rparr>]\<rparr>"
  have ns: "\<not> stop s" using inv d by (auto simp: pool_inv_def)
  have ok: "dispatch_ok ?t e" if "e < length (dispatches s)" for e
  proof -
    have ok: "dispatch_ok s e" using inv that by (simp add: pool_inv_def)
    show ?thesis
    proof (cases "e = d")
      case True
      then show ?thesis using dispatch_okD(1,2) [OF ok] d by (intro dispatch_okI) auto
    next
      case False
      then show ?thesis by (intro dispatch_ok_same [OF ok]) simp_all
    qed
  qed
  have n: "\<exists>z \<in> set (dispatches ?t). caller z = Notifying" if n: "\<exists>z \<in> set (dispatches s). caller z = Notifying"
  proof -
    obtain e where e: "e < length (dispatches s)" "caller (dispatches s ! e) = Notifying" using n by (auto simp: in_set_conv_nth)
    then have "e < length (dispatches ?t)" "caller (dispatches ?t ! e) = Notifying" using d by (auto simp: nth_list_update)
    then show ?thesis using nth_mem by blast
  qed
  show ?thesis using inv ok n ns unfolding pool_inv_def by simp
qed

lemma inv_destroy:
  assumes inv: "pool_inv s" and r: "\<forall>x \<in> set (dispatches s). caller x = Returned"
  shows "pool_inv (destroy_pool s)"
proof -
  have o: "outstanding (destroy_pool s) = outstanding s" "unrun (destroy_pool s) = unrun s"
    by (simp_all add: destroy_pool_def outstanding_def unrun_def comp_def)
  have "Asleep \<notin> set (map wake (workers s))" by (auto simp: wake_def split: if_splits)
  then show ?thesis using inv r unfolding pool_inv_def by (simp add: o dispatch_ok_def) (simp add: destroy_pool_def)
qed

lemma pool_step_inv:
  assumes "pool_inv s" "pool_step s s'"
  shows "pool_inv s'"
  using assms(2)
proof cases
  case (step_worker w)
  then have w: "w < length (workers s)" "can_run s (workers s ! w)" "worker_step w s = Some s'" by (simp_all add: worker_busy_def)
  show ?thesis
  proof (cases "workers s ! w")
    case (Nested j d)
    then have "s' = set_worker w (Holding j) s" using w(3) by (simp add: worker_step_def)
    then show ?thesis using inv_relabel [OF assms(1) w(1), of "Holding j"] Nested by simp
  qed (use w inv_awake [OF assms(1)] inv_busy [OF assms(1)] in \<open>auto simp: can_run_def\<close>)
next
  case (step_caller d)
  then show ?thesis using inv_caller [OF assms(1)] by simp
qed

lemma pool_reachable_inv: "pool_reachable n s \<Longrightarrow> pool_inv s"
proof (induction rule: pool_reachable.induct)
  case pool_new
  have "outstanding (new_pool n) = {#}" by (simp add: outstanding_def new_pool_def)
  then show ?case by (simp add: pool_inv_def) (simp add: new_pool_def)
qed (auto simp: pool_parallel_for_def run_concurrent_def
    intro: pool_step_inv inv_dispatch inv_nested inv_spurious_worker inv_spurious_caller inv_destroy)

section \<open>What the pool guarantees\<close>

primrec body_index :: "JobBody \<Rightarrow> nat" where
  "body_index (ParallelBody i) = i" | "body_index (ConcurrentBody i) = i"

text \<open>A worker never finds the \<open>DoneState\<close> of its job gone, nor its count at zero: the state may live on the
  stack of the caller, which cannot return before the last of its jobs has been counted.\<close>

theorem done_state_alive:
  assumes "pool_reachable n s" "w < length (workers s)"
  shows "\<exists>t. worker_step w s = Some t"
  using worker_step_total [OF pool_reachable_inv [OF assms(1)] assms(2)] by blast

text \<open>C4: When a call returns, every one of its bodies has run exactly once; for a \<open>parallel_for\<close> the pool has taken
  the indices in some order.\<close>

theorem parallel_for_exactly_once:
  assumes "pool_reachable n s" "x \<in> set (dispatches s)" "caller x = Returned"
  shows "mset (ran x) = mset (submitted x)
    \<and> (submitted x = map ParallelBody [0..<k] \<longrightarrow> (\<exists>od. ran x = map ParallelBody od \<and> mset od = mset [0..<k]))"
proof (intro conjI impI)
  obtain d where d: "d < length (dispatches s)" "x = dispatches s ! d" using assms(2) by (auto simp: in_set_conv_nth)
  have ok: "dispatch_ok s d" using pool_reachable_inv [OF assms(1)] d(1) by (simp add: pool_inv_def)
  have "jobs_of d (outstanding s) = {#}" using dispatch_okD(1,3) [OF ok] assms(3) d(2) by simp
  then have "job_done j \<noteq> d" if "j \<in># outstanding s" for j using that by (auto simp: jobs_of_def)
  then have "jobs_of d (unrun s) = {#}" using unrun_le jobs_of_none by blast
  then show m: "mset (ran x) = mset (submitted x)" using dispatch_okD(2) [OF ok] d(2) by simp
  assume k: "submitted x = map ParallelBody [0..<k]"
  define od where "od = map body_index (ran x)"
  have "ParallelBody (body_index b) = b" if "b \<in> set (ran x)" for b
  proof -
    have "b \<in> set (submitted x)" using m that by (metis set_mset_mset)
    then show ?thesis by (auto simp: k)
  qed
  then have "map ParallelBody od = ran x" by (simp add: od_def map_idI)
  moreover have "mset od = mset (map body_index (submitted x))" by (simp add: od_def m)
  moreover have "map body_index (submitted x) = [0..<k]" by (simp add: k map_idI)
  ultimately show "\<exists>od. ran x = map ParallelBody od \<and> mset od = mset [0..<k]" by metis
qed

primrec worker_weight :: "Worker \<Rightarrow> nat" where
  "worker_weight Awake = 1" | "worker_weight Asleep = 0" | "worker_weight (Holding j) = 4" | "worker_weight (Ran j) = 3"
| "worker_weight (Nested j d) = 5" | "worker_weight Exited = 0"

primrec caller_weight :: "nat \<Rightarrow> Caller \<Rightarrow> nat" where
  "caller_weight n Notifying = n + 2" | "caller_weight n Checking = 1" | "caller_weight n Waiting = 0" | "caller_weight n Returned = 0"

text \<open>A bound on the steps still to take.\<close>

definition pool_weight :: "ThreadPool \<Rightarrow> nat" where
  "pool_weight s = 5 * length (queue s) + sum_list (map worker_weight (workers s))
     + sum_list (map (\<lambda>x. caller_weight (length (workers s)) (caller x)) (dispatches s))"

lemma sum_list_put:
  "i < length xs \<Longrightarrow> sum_list (map f (xs[i := x])) + f (xs ! i) = sum_list (map f xs) + (f x :: nat)"
  by (induction xs arbitrary: i) (auto simp: nth_Cons' split: nat.splits)

lemma weight_set_worker:
  assumes "w < length (workers s)"
  shows "pool_weight (set_worker w x s) + worker_weight (workers s ! w) = pool_weight s + worker_weight x"
  using sum_list_put [OF assms, of worker_weight x] by (simp add: pool_weight_def set_worker_def)

lemma weight_dispatch:
  assumes "d < length (dispatches s)"
  shows "pool_weight (s\<lparr>dispatches := (dispatches s)[d := y]\<rparr>) + caller_weight (length (workers s)) (caller (dispatches s ! d))
    = pool_weight s + caller_weight (length (workers s)) (caller y)"
  using sum_list_put [OF assms, of "\<lambda>x. caller_weight (length (workers s)) (caller x)" y] by (simp add: pool_weight_def)

lemma weight_wake: "sum_list (map worker_weight (map wake xs)) \<le> sum_list (map worker_weight xs) + length xs"
proof (induction xs)
  case (Cons x xs)
  have "worker_weight (wake x) \<le> worker_weight x + 1" by (cases x) (simp_all add: wake_def)
  then show ?case using Cons by simp
qed simp

lemma worker_step_weight:
  assumes "worker_busy w s" "worker_step w s = Some t"
  shows "pool_weight t < pool_weight s"
proof -
  have w: "w < length (workers s)" using assms(1) by (simp add: worker_busy_def)
  show ?thesis
  proof (cases "workers s ! w")
    case Awake
    show ?thesis
    proof (cases "queue s = []")
      case True
      then have "t = set_worker w (if stop s then Exited else Asleep) s" using assms(2) Awake by (simp add: worker_step_def)
      then show ?thesis using weight_set_worker [OF w, of "if stop s then Exited else Asleep"] Awake by (simp split: if_splits)
    next
      case False
      let ?s = "s\<lparr>queue := butlast (queue s)\<rparr>"
      have t: "t = set_worker w (Holding (last (queue s))) ?s" using assms(2) Awake False by (simp add: worker_step_def)
      have "pool_weight t + 1 = pool_weight ?s + 4" using weight_set_worker [of w ?s] w Awake by (simp add: t)
      moreover have "pool_weight ?s + 5 = pool_weight s" using False by (simp add: pool_weight_def Suc_diff_le) (cases "queue s"; simp)
      ultimately show ?thesis by simp
    qed
  next
    case (Holding j)
    then obtain s' where s': "run_body j s = Some s'" "t = set_worker w (Ran j) s'"
      using assms(2) by (auto simp: worker_step_def)
    have p: "workers s' = workers s" "pool_weight s' = pool_weight s"
      using s'(1) weight_dispatch [of "job_done j" s "(dispatches s ! job_done j)\<lparr>ran := ran (dispatches s ! job_done j) @ [job_body j]\<rparr>"]
      by (auto simp: run_body_def Let_def split: if_splits)
    then show ?thesis using weight_set_worker [of w s' "Ran j"] w Holding by (simp add: s'(2))
  next
    case (Ran j)
    then obtain s' where s': "finish_job j s = Some s'" "t = set_worker w Awake s'"
      using assms(2) by (auto simp: worker_step_def)
    obtain y where y: "job_done j < length (dispatches s)" "s' = s\<lparr>dispatches := (dispatches s)[job_done j := y]\<rparr>"
      "caller y = Checking \<or> caller y = caller (dispatches s ! job_done j)" "caller y = Checking \<longrightarrow> caller (dispatches s ! job_done j) = Waiting
         \<or> caller (dispatches s ! job_done j) = Checking"
      using s'(1) by (auto simp: finish_job_def Let_def split: if_splits)
    then have p: "workers s' = workers s" "pool_weight s' \<le> pool_weight s + 1"
      using weight_dispatch [OF y(1), of y] by auto
    then show ?thesis using weight_set_worker [of w s' Awake] w Ran by (simp add: s'(2))
  next
    case (Nested j d)
    then have "t = set_worker w (Holding j) s" using assms(2) by (simp add: worker_step_def)
    then show ?thesis using weight_set_worker [OF w, of "Holding j"] Nested by simp
  qed (use assms(1) in \<open>simp_all add: worker_busy_def can_run_def\<close>)
qed

lemma caller_step_weight:
  assumes "caller_busy d s"
  shows "pool_weight (caller_step d s) < pool_weight s"
proof -
  have d: "d < length (dispatches s)" using assms by (simp add: caller_busy_def)
  let ?x = "dispatches s ! d"
  let ?y = "?x\<lparr>caller := (if caller ?x = Notifying then Checking else if done_count ?x = 0 then Returned else Waiting)\<rparr>"
  let ?s = "s\<lparr>dispatches := (dispatches s)[d := ?y]\<rparr>"
  show ?thesis
  proof (cases "caller ?x = Notifying")
    case True
    have t: "caller_step d s = ?s\<lparr>workers := map wake (workers s)\<rparr>" using True by (simp add: caller_step_def Let_def)
    have "pool_weight (caller_step d s) \<le> pool_weight ?s + length (workers s)"
      using weight_wake [of "workers s"] by (simp add: t pool_weight_def)
    then show ?thesis using weight_dispatch [OF d, of ?y] True by simp
  next
    case False
    then have "caller_step d s = ?s" by (simp add: caller_step_def Let_def)
    then show ?thesis using weight_dispatch [OF d, of ?y] False assms by (auto simp: caller_busy_def split: if_splits)
  qed
qed

lemma pool_step_weight: "pool_step s t \<Longrightarrow> pool_weight t < pool_weight s"
  by (elim pool_stepE) (auto intro: worker_step_weight caller_step_weight)

lemma pool_steps_bounded: "(pool_step ^^ k) s t \<Longrightarrow> k + pool_weight t \<le> pool_weight s"
proof (induction k arbitrary: t)
  case (Suc k)
  then obtain u where "(pool_step ^^ k) s u" "pool_step u t" by auto
  then show ?case using Suc.IH [of u] pool_step_weight [of u t] by simp
qed simp

text \<open>Where the pool stops: its workers sleep, have left or wait in nested calls, its callers wait or have
  returned.\<close>

lemma stuck_idle:
  assumes inv: "pool_inv s" and stuck: "\<And>t. \<not> pool_step s t"
  shows "d < length (dispatches s) \<Longrightarrow> caller (dispatches s ! d) = Waiting \<or> caller (dispatches s ! d) = Returned"
    "x \<in> set (workers s) \<Longrightarrow> x = Asleep \<or> x = Exited
       \<or> (\<exists>j d. x = Nested j d \<and> job_done j < d \<and> d < length (dispatches s) \<and> caller (dispatches s ! d) = Waiting)"
proof -
  show waits: "caller (dispatches s ! d) = Waiting \<or> caller (dispatches s ! d) = Returned" if "d < length (dispatches s)" for d
    using stuck step_caller [of d s] that unfolding caller_busy_def by (cases "caller (dispatches s ! d)") auto
  assume x: "x \<in> set (workers s)"
  then obtain w where w: "w < length (workers s)" "x = workers s ! w" by (auto simp: in_set_conv_nth)
  then have "\<not> can_run s x"
    using stuck worker_step_total [OF inv w(1)] step_worker [of w s] unfolding worker_busy_def by blast
  moreover have "nested_ok (length (dispatches s)) x" using inv x by (simp add: pool_inv_def)
  ultimately show "x = Asleep \<or> x = Exited
       \<or> (\<exists>j d. x = Nested j d \<and> job_done j < d \<and> d < length (dispatches s) \<and> caller (dispatches s ! d) = Waiting)"
    using waits by (cases x) (auto simp: can_run_def)
qed

text \<open>With an empty queue every wait ends: a call waits for a job whose worker waits in a later call.\<close>

lemma stuck_queue_empty:
  assumes inv: "pool_inv s" and stuck: "\<And>t. \<not> pool_step s t" and q: "queue s = []"
  shows "\<forall>x \<in> set (dispatches s). caller x = Returned"
proof -
  let ?D = "{d. d < length (dispatches s) \<and> caller (dispatches s ! d) = Waiting}"
  have later: "\<exists>e \<in> ?D. d < e" if d: "d \<in> ?D" for d
  proof -
    have ok: "dispatch_ok s d" using inv d by (simp add: pool_inv_def)
    have "jobs_of d (outstanding s) \<noteq> {#}" using dispatch_okD(1,4) [OF ok] d by auto
    then obtain j where j: "j \<in># outstanding s" "job_done j = d" using jobs_of_none by blast
    then obtain x where x: "x \<in> set (workers s)" "j \<in> set (held_job x)" by (auto simp: outstanding_def q)
    from stuck_idle(2) [OF inv stuck x(1)] x(2) j(2) show ?thesis by auto
  qed
  have "?D = {}"
  proof (rule ccontr)
    assume ne: "?D \<noteq> {}"
    have fin: "finite ?D" by simp
    obtain e where "e \<in> ?D" "Max ?D < e" using later [OF Max_in [OF fin ne]] by blast
    then show False using Max_ge [OF fin] by (meson not_le)
  qed
  then show ?thesis using stuck_idle(1) [OF inv stuck] by (auto simp: in_set_conv_nth)
qed

lemma pool_stuck:
  assumes inv: "pool_inv s" and stuck: "\<And>t. \<not> pool_step s t"
  shows "(\<forall>x \<in> set (dispatches s). caller x = Returned) \<and> (stop s \<longrightarrow> (\<forall>x \<in> set (workers s). x = Exited))
    \<or> queue s \<noteq> [] \<and> (\<forall>x \<in> set (workers s). \<exists>j d. x = Nested j d \<and> caller (dispatches s ! d) = Waiting)"
proof (cases "stop s")
  case True
  then have r: "\<forall>x \<in> set (dispatches s). caller x = Returned" "Asleep \<notin> set (workers s)" using inv by (auto simp: pool_inv_def)
  have "caller (dispatches s ! d) = Returned" if "d < length (dispatches s)" for d using r(1) that by simp
  then have "x = Exited" if "x \<in> set (workers s)" for x using stuck_idle(2) [OF inv stuck that] r(2) that by auto
  then show ?thesis using r by simp
next
  case False
  show ?thesis
  proof (cases "queue s = []")
    case True
    then show ?thesis using stuck_queue_empty [OF inv stuck] False by simp
  next
    case ne: False
    have "caller x \<noteq> Notifying" if "x \<in> set (dispatches s)" for x
      using stuck_idle(1) [OF inv stuck] that by (fastforce simp: in_set_conv_nth)
    then have "Asleep \<notin> set (workers s)" "Exited \<notin> set (workers s)" using inv ne False by (auto simp: pool_inv_def)
    then have "\<exists>j d. x = Nested j d \<and> caller (dispatches s ! d) = Waiting" if "x \<in> set (workers s)" for x
      using stuck_idle(2) [OF inv stuck that] that by auto
    then show ?thesis using ne by simp
  qed
qed

text \<open>C3: From any state the pool takes boundedly many steps by itself.  When it stops every call has returned,
  and in a pool being destroyed every worker has left; the one exception is that every worker waits in a
  call it made from a body while jobs are queued.  No notification is lost, and calls from bodies are
  safe as long as one worker makes none.\<close>

theorem pool_calls_return:
  assumes "pool_reachable n s" "(pool_step ^^ k) s t"
  shows "k \<le> pool_weight s \<and> ((\<forall>u. \<not> pool_step t u) \<longrightarrow>
       (\<forall>x \<in> set (dispatches t). caller x = Returned) \<and> (stop t \<longrightarrow> (\<forall>x \<in> set (workers t). x = Exited))
       \<or> queue t \<noteq> [] \<and> (\<forall>x \<in> set (workers t). \<exists>j d. x = Nested j d \<and> caller (dispatches t ! d) = Waiting))"
proof -
  have "pool_step\<^sup>*\<^sup>* s t" using assms(2) by (rule relpowp_imp_rtranclp)
  then have "pool_inv t" using pool_reachable_inv [OF assms(1)] by (induction rule: rtranclp_induct) (auto intro: pool_step_inv)
  from pool_stuck [OF this] pool_steps_bounded [OF assms(2)] show ?thesis by simp
qed

section \<open>A run of the pool\<close>

text \<open>Two workers and a call with two bodies; the first worker runs both.\<close>

definition demo_pool :: ThreadPool where
  "demo_pool = pool_parallel_for 2 (new_pool 2)"

definition demo_pool_end :: ThreadPool where
  "demo_pool_end = \<lparr>queue = [], stop = False, workers = [Asleep, Asleep], dispatches =
     [\<lparr>caller = Returned, done_count = 0, submitted = [ParallelBody 0, ParallelBody 1], ran = [ParallelBody 1, ParallelBody 0]\<rparr>]\<rparr>"

fun worker_steps :: "nat list \<Rightarrow> ThreadPool \<Rightarrow> ThreadPool option" where
  "worker_steps [] s = Some s"
| "worker_steps (w # ws) s = (if worker_busy w s then Option.bind (worker_step w s) (worker_steps ws) else None)"

lemma worker_steps_run: "worker_steps ws s = Some t \<Longrightarrow> (pool_step ^^ length ws) s t"
proof (induction ws arbitrary: s)
  case (Cons w ws)
  then obtain u where u: "pool_step s u" "worker_steps ws u = Some t"
    by (auto simp: bind_eq_Some_conv split: if_splits intro: step_worker)
  show ?case using relpowp_Suc_I2 [OF u(1) Cons.IH [OF u(2)]] by simp
qed simp

lemmas pool_code = worker_busy_def can_run_def pool_parallel_for_def dispatch_def submit_def new_pool_def worker_step_def set_worker_def run_body_def finish_job_def Let_def numeral_2_eq_2

lemma demo_pool_run: "(pool_step ^^ 10) demo_pool demo_pool_end"
proof -
  let ?done = "\<lparr>queue = [], stop = False, workers = [Awake, Awake], dispatches =
     [\<lparr>caller = Notifying, done_count = 0, submitted = [ParallelBody 0, ParallelBody 1], ran = [ParallelBody 1, ParallelBody 0]\<rparr>]\<rparr>"
  have "worker_steps [0, 0, 0, 0, 0, 0] demo_pool = Some ?done"
    by (simp add: demo_pool_def pool_code)
  from worker_steps_run [OF this] have 1: "(pool_step ^^ 6) demo_pool ?done" by (simp add: eval_nat_numeral)
  have b: "caller_busy 0 ?done" "caller_busy 0 (caller_step 0 ?done)" by (simp_all add: caller_busy_def caller_step_def)
  have 2: "(pool_step ^^ 8) demo_pool (caller_step 0 (caller_step 0 ?done))"
    using relpowp_Suc_I [OF relpowp_Suc_I [OF 1 step_caller [OF b(1)]] step_caller [OF b(2)]] by (simp add: eval_nat_numeral)
  have "worker_steps [0, 1] (caller_step 0 (caller_step 0 ?done)) = Some demo_pool_end"
    by (simp add: caller_step_def wake_def demo_pool_end_def pool_code)
  from relpowp_trans [OF 2 worker_steps_run [OF this]] show ?thesis by (simp add: eval_nat_numeral)
qed

lemma demo_pool_reachable: "pool_reachable 2 demo_pool"
  unfolding demo_pool_def by (intro pool_parallel pool_new) (simp add: new_pool_def)

lemma demo_end_reachable: "pool_reachable 2 demo_pool_end"
proof -
  have "pool_step\<^sup>*\<^sup>* demo_pool demo_pool_end" using demo_pool_run by (rule relpowp_imp_rtranclp)
  then show ?thesis using demo_pool_reachable by (induction rule: rtranclp_induct) (auto intro: pool_runs)
qed

theorem done_state_alive_witness: "\<exists>t. worker_step 0 demo_pool = Some t"
  using done_state_alive [OF demo_pool_reachable, of 0] by (simp add: demo_pool_def pool_code)

theorem parallel_for_exactly_once_witness:
  "mset [ParallelBody 1, ParallelBody 0] = mset [ParallelBody 0, ParallelBody 1] \<and> caller (dispatches demo_pool_end ! 0) = Returned"
  using parallel_for_exactly_once [OF demo_end_reachable, of "dispatches demo_pool_end ! 0" 2] by (simp add: demo_pool_end_def)

theorem pool_calls_return_witness:
  "10 \<le> pool_weight demo_pool \<and> map caller (dispatches demo_pool_end) = [Returned]"
proof -
  have "\<not> pool_step demo_pool_end u" for u
    by (auto simp: demo_pool_end_def worker_busy_def can_run_def caller_busy_def less_Suc_eq elim!: pool_stepE)
  then show ?thesis using pool_calls_return [OF demo_pool_reachable demo_pool_run] by (simp add: demo_pool_end_def)
qed

section \<open>Nested calls\<close>

text \<open>Two workers and a call with two bodies that both call the pool again: the jobs of the inner calls have
  nobody to take them.\<close>

definition nested_job :: "nat \<Rightarrow> nat \<Rightarrow> Job" where
  "nested_job i d = \<lparr>job_body = ParallelBody i, job_done = d\<rparr>"

definition both_hold :: ThreadPool where
  "both_hold = \<lparr>queue = [], stop = False, workers = [Holding (nested_job 1 0), Holding (nested_job 0 0)], dispatches =
     [\<lparr>caller = Notifying, done_count = 2, submitted = [ParallelBody 0, ParallelBody 1], ran = []\<rparr>]\<rparr>"

definition deadlocked :: ThreadPool where
  "deadlocked = caller_step 2 (caller_step 2 (caller_step 1 (caller_step 1 (caller_step 0 (caller_step 0
     (set_worker 1 (Nested (nested_job 0 0) 2) (pool_parallel_for 2
       (set_worker 0 (Nested (nested_job 1 0) 1) (pool_parallel_for 2 both_hold)))))))))"

lemma both_hold_reachable: "pool_reachable 2 both_hold"
proof -
  have "worker_steps [0, 1] demo_pool = Some both_hold"
    by (simp add: demo_pool_def both_hold_def nested_job_def pool_code)
  from relpowp_imp_rtranclp [OF worker_steps_run [OF this]] show ?thesis
    using demo_pool_reachable by (induction rule: rtranclp_induct) (auto intro: pool_runs)
qed

lemmas nested_code = pool_code both_hold_def nested_job_def caller_step_def wake_def caller_busy_def upt_rec

lemma deadlocked_reachable: "pool_reachable 2 deadlocked"
proof -
  have 1: "pool_reachable 2 (set_worker 0 (Nested (nested_job 1 0) 1) (pool_parallel_for 2 both_hold))"
    using pool_nested_parallel [OF both_hold_reachable, of 0 "nested_job 1 0" 2] by (simp add: both_hold_def)
  have 2: "pool_reachable 2 (set_worker 1 (Nested (nested_job 0 0) 2) (pool_parallel_for 2
      (set_worker 0 (Nested (nested_job 1 0) 1) (pool_parallel_for 2 both_hold))))"
    using pool_nested_parallel [OF 1, of 1 "nested_job 0 0" 2] by (simp add: nested_code)
  show ?thesis unfolding deadlocked_def
    by (intro pool_runs [OF _ step_caller] 2) (simp_all add: nested_code)
qed

theorem nested_calls_deadlock:
  "pool_reachable 2 deadlocked \<and> (\<forall>u. \<not> pool_step deadlocked u)
    \<and> map caller (dispatches deadlocked) = [Waiting, Waiting, Waiting] \<and> length (queue deadlocked) = 4"
proof -
  have d: "deadlocked = \<lparr>queue = [nested_job 0 1, nested_job 1 1, nested_job 0 2, nested_job 1 2], stop = False,
     workers = [Nested (nested_job 1 0) 1, Nested (nested_job 0 0) 2], dispatches =
       [\<lparr>caller = Waiting, done_count = 2, submitted = [ParallelBody 0, ParallelBody 1], ran = []\<rparr>,
        \<lparr>caller = Waiting, done_count = 2, submitted = [ParallelBody 0, ParallelBody 1], ran = []\<rparr>,
        \<lparr>caller = Waiting, done_count = 2, submitted = [ParallelBody 0, ParallelBody 1], ran = []\<rparr>]\<rparr>"
    by (simp add: deadlocked_def nested_code)
  have "\<not> pool_step deadlocked u" for u
    by (auto simp: d worker_busy_def can_run_def caller_busy_def less_Suc_eq elim!: pool_stepE)
  then show ?thesis using deadlocked_reachable by (simp add: d)
qed

end
