(* ===== verification/System_Registry.thy ===== *)
theory System_Registry
  imports System_Run Chunk_Pool
begin

text \<open>
  The registry of systems a World owns and the tick that runs them (\<open>World.cpp\<close> from
  \<open>allocate_pending_cmd_\<close> on, the end of \<open>register_system\<close> in \<open>World.hpp\<close>).  A registration keeps its
  index for good; a handle carries the generation it was given.  The scheduler is rebuilt when the
  registry has changed since.  The number of hardware threads and the order in which a pool of several
  workers takes its jobs are parameters.
\<close>

section \<open>State\<close>

record SystemHandle =
  handle_index :: u32
  handle_generation :: u32

record 'v SystemWorld =
  tick_state :: "'v TickState"
  scheduler :: "SystemScheduler option"
  scheduler_dirty :: bool
  serial_mode :: bool
  ecs_worker_count :: u32
  pool_workers :: "nat option"

definition new_system_world :: "'v World \<Rightarrow> 'v SystemWorld" where
  "new_system_world w = \<lparr>tick_state = \<lparr>tick_world = w, system_slots = []\<rparr>, scheduler = None, scheduler_dirty = True,
     serial_mode = False, ecs_worker_count = 0, pool_workers = None\<rparr>"

abbreviation registry :: "'v SystemWorld \<Rightarrow> SystemRegistration list" where
  "registry s \<equiv> map slot_reg (system_slots (tick_state s))"

definition handle_valid :: "SystemHandle \<Rightarrow> bool" where
  "handle_valid h \<longleftrightarrow> handle_generation h \<noteq> 0"

section \<open>Operations\<close>

definition register_system :: "SystemDeclaration \<Rightarrow> 'v SystemCode \<Rightarrow> 'v SystemWorld \<Rightarrow> SystemHandle \<times> 'v SystemWorld" where
  "register_system S code s =
     (let slots = system_slots (tick_state s); idx = of_nat (length slots);
          slot = \<lparr>slot_reg = registration_of S, slot_code = Some code, pending_cmd = empty_buffer, per_chunk_cmds = []\<rparr>
      in (\<lparr>handle_index = idx, handle_generation = 1\<rparr>,
          s\<lparr>tick_state := (tick_state s)\<lparr>system_slots := slots @ [slot]\<rparr>, scheduler_dirty := True\<rparr>))"

definition unregister_system :: "SystemHandle \<Rightarrow> 'v SystemWorld \<Rightarrow> 'v SystemWorld" where
  "unregister_system h s =
     (let slots = system_slots (tick_state s); i = unat (handle_index h) in
      if \<not> handle_valid h \<or> i \<ge> length slots then s
      else let sl = slots ! i; reg = slot_reg sl in
        if \<not> reg_alive reg \<or> reg_generation reg \<noteq> handle_generation h then s
        else let g = reg_generation reg + 1;
                 sl = sl\<lparr>slot_reg := reg\<lparr>reg_alive := False, reg_generation := (if g = 0 then 1 else g)\<rparr>,
                   slot_code := None, per_chunk_cmds := []\<rparr>
             in s\<lparr>tick_state := (tick_state s)\<lparr>system_slots := slots[i := sl]\<rparr>, scheduler_dirty := True\<rparr>)"

definition clear_systems :: "'v SystemWorld \<Rightarrow> 'v SystemWorld" where
  "clear_systems s = s\<lparr>tick_state := (tick_state s)\<lparr>system_slots := []\<rparr>, scheduler_dirty := True,
     scheduler := map_option (\<lambda>sch. sch\<lparr>built := False\<rparr>) (scheduler s)\<rparr>"

text \<open>The scheduler, created and rebuilt when needed.\<close>

definition fresh_scheduler :: "'v SystemWorld \<Rightarrow> SystemScheduler \<times> 'v SystemWorld" where
  "fresh_scheduler s =
     (case scheduler s of
        Some sch \<Rightarrow> if scheduler_dirty s then let sch = rebuild (registry s) in (sch, s\<lparr>scheduler := Some sch, scheduler_dirty := False\<rparr>)
                    else (sch, s)
      | None \<Rightarrow> let sch = rebuild (registry s) in (sch, s\<lparr>scheduler := Some sch, scheduler_dirty := False\<rparr>))"

definition world_schedule_hash :: "'v SystemWorld \<Rightarrow> u64 \<times> 'v SystemWorld" where
  "world_schedule_hash s = (let (sch, s) = fresh_scheduler s in (schedule_hash sch, s))"

definition debug_stage_count :: "'v SystemWorld \<Rightarrow> nat \<times> 'v SystemWorld" where
  "debug_stage_count s = (let (sch, s) = fresh_scheduler s in (length (stages sch), s))"

definition debug_stage_index_of :: "system_type_id_t \<Rightarrow> 'v SystemWorld \<Rightarrow> nat option \<times> 'v SystemWorld" where
  "debug_stage_index_of t s = (let (sch, s) = fresh_scheduler s in (stage_index_of sch t (registry s), s))"

definition set_serial_mode :: "bool \<Rightarrow> 'v SystemWorld \<Rightarrow> 'v SystemWorld" where
  "set_serial_mode enabled s = s\<lparr>serial_mode := enabled\<rparr>"

definition set_ecs_worker_count :: "u32 \<Rightarrow> 'v SystemWorld \<Rightarrow> 'v SystemWorld" where
  "set_ecs_worker_count n s = s\<lparr>ecs_worker_count := n, pool_workers := None\<rparr>"

text \<open>\<open>hw\<close> is \<open>std::thread::hardware_concurrency()\<close>; the pool has at least one worker.\<close>

definition ecs_thread_pool :: "u32 \<Rightarrow> 'v SystemWorld \<Rightarrow> nat \<times> 'v SystemWorld" where
  "ecs_thread_pool hw s =
     (case pool_workers s of
        Some n \<Rightarrow> (n, s)
      | None \<Rightarrow>
          let n = (if ecs_worker_count s = 0 then min (if hw = 0 then 1 else unat hw) 16 else unat (ecs_worker_count s));
              n = max 1 n
          in (n, s\<lparr>pool_workers := Some n\<rparr>))"

text \<open>One worker, or one job, runs in place; several workers take the jobs in an order of theirs.\<close>

definition pool_order :: "nat \<Rightarrow> (nat list \<Rightarrow> nat option \<Rightarrow> nat \<Rightarrow> nat list) \<Rightarrow> nat list \<Rightarrow> nat option \<Rightarrow> nat \<Rightarrow> nat list" where
  "pool_order workers ord st d n = (if workers \<le> 1 \<or> n = 1 then [0..<n] else ord st d n)"

definition set_in_tick :: "bool \<Rightarrow> 'v TickState \<Rightarrow> 'v TickState" where
  "set_in_tick b t = t\<lparr>tick_world := (tick_world t)\<lparr>in_tick := b\<rparr>\<rparr>"

definition tick_systems ::
    "vtables_of \<Rightarrow> u32 \<Rightarrow> (nat list \<Rightarrow> nat option \<Rightarrow> nat \<Rightarrow> nat list) \<Rightarrow> Date \<Rightarrow> 'v SystemWorld \<Rightarrow> 'v SystemWorld option" where
  "tick_systems vt hw ord today s = do {
     let (sch, s) = fresh_scheduler s;
     let (workers, s) = ecs_thread_pool hw s;
     t \<leftarrow> run_schedule vt (pool_order workers ord) today (serial_mode s) sch (set_in_tick True (tick_state s));
     let t = set_in_tick False t;
     Some (s\<lparr>tick_state := t\<lparr>tick_world := (tick_world t)\<lparr>chunk_pool := pool_advance_tick (chunk_pool (tick_world t))\<rparr>\<rparr>\<rparr>) }"

end
