(* ===== verification/Registry_Properties.thy ===== *)
theory Registry_Properties
  imports System_Registry Run_Properties
begin

text \<open>
  The registry: the schedule that runs is the one of the current registrations, handles do not outlive
  their system unless the registry is cleared, and the state after a tick depends neither on the number
  of workers nor on the mode.
\<close>

section \<open>The schedule is current\<close>

definition schedule_current :: "'v SystemWorld \<Rightarrow> bool" where
  "schedule_current s \<longleftrightarrow> (\<forall>sch. scheduler s = Some sch \<and> \<not> scheduler_dirty s \<longrightarrow> sch = rebuild (registry s))"

lemma fresh_scheduler_eq:
  assumes "schedule_current s"
  shows "fst (fresh_scheduler s) = rebuild (registry s)" "schedule_current (snd (fresh_scheduler s))"
    "tick_state (snd (fresh_scheduler s)) = tick_state s" "serial_mode (snd (fresh_scheduler s)) = serial_mode s"
  using assms by (auto simp: fresh_scheduler_def schedule_current_def Let_def split: option.splits)

lemma ecs_thread_pool_simps [simp]:
  "tick_state (snd (ecs_thread_pool hw s)) = tick_state s" "scheduler (snd (ecs_thread_pool hw s)) = scheduler s"
  "scheduler_dirty (snd (ecs_thread_pool hw s)) = scheduler_dirty s" "serial_mode (snd (ecs_thread_pool hw s)) = serial_mode s"
  by (auto simp: ecs_thread_pool_def Let_def split: option.splits)

lemma kept_run_schedule: "systems_kept (run_schedule vt ord today mode sch)"
proof -
  have k: "systems_kept (in_order (run_stage vt ord today mode) (stages sch))" by (rule kept_in_order) (rule kept_run_stage)
  show ?thesis unfolding systems_kept_def
  proof (intro allI impI)
    fix s t assume "run_schedule vt ord today mode sch s = Some t"
    then show "map system_of (system_slots t) = map system_of (system_slots s)"
      using keptD [OF k, of s t] by (cases "built sch") (simp_all add: run_schedule_def)
  qed
qed

lemma tick_systems_keeps:
  assumes "tick_systems vt hw ord today s = Some t"
  shows "map system_of (system_slots (tick_state t)) = map system_of (system_slots (tick_state s))"
    "scheduler t = scheduler (snd (fresh_scheduler s))" "scheduler_dirty t = scheduler_dirty (snd (fresh_scheduler s))"
proof -
  obtain sch s1 n s2 u where o: "fresh_scheduler s = (sch, s1)" "ecs_thread_pool hw s1 = (n, s2)"
    "run_schedule vt (pool_order n ord) today (serial_mode s2) sch (set_in_tick True (tick_state s2)) = Some u"
    "t = s2\<lparr>tick_state := (set_in_tick False u)\<lparr>tick_world := (tick_world (set_in_tick False u))
       \<lparr>chunk_pool := pool_advance_tick (chunk_pool (tick_world (set_in_tick False u)))\<rparr>\<rparr>\<rparr>"
    using assms by (auto simp: tick_systems_def Let_def bind_eq_Some_conv case_prod_unfold intro: that prod.collapse [symmetric])
  have s2: "tick_state s2 = tick_state s1" "scheduler s2 = scheduler s1" "scheduler_dirty s2 = scheduler_dirty s1"
    using ecs_thread_pool_simps [of hw s1] by (simp_all add: o(2))
  have s1: "tick_state s1 = tick_state s"
    using o(1) by (auto simp: fresh_scheduler_def Let_def split: option.splits if_splits)
  show "map system_of (system_slots (tick_state t)) = map system_of (system_slots (tick_state s))"
    using keptD [OF kept_run_schedule o(3)] by (simp add: o(4) set_in_tick_def s2 s1)
  show "scheduler t = scheduler (snd (fresh_scheduler s))" "scheduler_dirty t = scheduler_dirty (snd (fresh_scheduler s))"
    by (simp_all add: o(1,4) s2)
qed

text \<open>Everything that can be done to the registry; \<open>clear_systems\<close> apart.\<close>

inductive registry_step :: "'v SystemWorld \<Rightarrow> 'v SystemWorld \<Rightarrow> bool" where
  step_register: "registry_step s (snd (register_system S code s))"
| step_unregister: "registry_step s (unregister_system h s)"
| step_fresh: "registry_step s (snd (fresh_scheduler s))"
| step_serial: "registry_step s (set_serial_mode b s)"
| step_workers: "registry_step s (set_ecs_worker_count n s)"
| step_pool: "registry_step s (snd (ecs_thread_pool hw s))"
| step_tick: "tick_systems vt hw ord today s = Some t \<Longrightarrow> registry_step s t"
| step_world: "registry_step s (s\<lparr>tick_state := (tick_state s)\<lparr>tick_world := w\<rparr>\<rparr>)"

inductive registry_reachable :: "'v SystemWorld \<Rightarrow> bool" where
  registry_new: "registry_reachable (new_system_world w)"
| registry_runs: "registry_reachable s \<Longrightarrow> registry_step s t \<Longrightarrow> registry_reachable t"
| registry_clear: "registry_reachable s \<Longrightarrow> registry_reachable (clear_systems s)"

lemma slot_regs_kept: "map system_of xs = map system_of ys \<Longrightarrow> map slot_reg xs = map slot_reg ys"
  using system_of_regs(1) .

lemma schedule_current_step:
  assumes "schedule_current s" "registry_step s t"
  shows "schedule_current t"
  using assms(2)
proof cases
  case (step_unregister h)
  then show ?thesis using assms(1) by (auto simp: unregister_system_def schedule_current_def Let_def)
next
  case (step_tick vt hw ord today)
  note k = tick_systems_keeps [OF step_tick]
  have "registry t = registry s" by (rule slot_regs_kept [OF k(1)])
  moreover have "registry (snd (fresh_scheduler s)) = registry s" using fresh_scheduler_eq(3) [OF assms(1)] by simp
  ultimately show ?thesis using fresh_scheduler_eq(2) [OF assms(1)] k(2,3) unfolding schedule_current_def by metis
next
  case step_fresh
  then show ?thesis using fresh_scheduler_eq(2) [OF assms(1)] by simp
qed (use assms(1) in \<open>simp_all add: register_system_def set_serial_mode_def set_ecs_worker_count_def schedule_current_def Let_def\<close>)

lemma reachable_schedule_current: "registry_reachable s \<Longrightarrow> schedule_current s"
proof (induction rule: registry_reachable.induct)
  case (registry_runs s t)
  then show ?case by (blast intro: schedule_current_step)
qed (simp_all add: new_system_world_def clear_systems_def schedule_current_def)

text \<open>C9: Whatever was registered, unregistered, cleared and ticked before, the schedule that is hashed, inspected and
  run is the one rebuilt from the registrations of that moment.\<close>

theorem schedule_is_rebuilt:
  assumes "registry_reachable s"
  shows "fst (fresh_scheduler s) = rebuild (registry s)
    \<and> fst (world_schedule_hash s) = schedule_hash (rebuild (registry s))
    \<and> fst (debug_stage_count s) = length (stages (rebuild (registry s)))
    \<and> fst (debug_stage_index_of t s) = stage_index_of (rebuild (registry s)) t (registry s)"
  using fresh_scheduler_eq [OF reachable_schedule_current [OF assms]]
  by (simp add: world_schedule_hash_def debug_stage_count_def debug_stage_index_of_def case_prod_unfold)

section \<open>Handles\<close>

text \<open>A handle that no longer names an alive registration.\<close>

definition handle_stale :: "SystemHandle \<Rightarrow> SystemRegistration list \<Rightarrow> bool" where
  "handle_stale h regs \<longleftrightarrow> unat (handle_index h) < length regs
     \<and> (\<not> handle_valid h \<or> \<not> reg_alive (regs ! unat (handle_index h)) \<or> reg_generation (regs ! unat (handle_index h)) \<noteq> handle_generation h)"

lemma unregister_stale: "handle_stale h (registry s) \<Longrightarrow> unregister_system h s = s"
  by (auto simp: handle_stale_def unregister_system_def Let_def)

text \<open>A step keeps every registration or kills it.\<close>

definition regs_older :: "SystemRegistration list \<Rightarrow> SystemRegistration list \<Rightarrow> bool" where
  "regs_older rs ts \<longleftrightarrow> length rs \<le> length ts \<and> (\<forall>i < length rs. ts ! i = rs ! i \<or> \<not> reg_alive (ts ! i))"

lemma regs_older_refl [simp]: "regs_older rs rs"
  by (simp add: regs_older_def)

lemma registry_step_older:
  assumes "registry_step s t"
  shows "regs_older (registry s) (registry t)"
  using assms
proof cases
  case (step_register S code)
  then show ?thesis by (simp add: register_system_def Let_def regs_older_def nth_append)
next
  case (step_unregister h)
  then show ?thesis by (auto simp: unregister_system_def Let_def regs_older_def nth_list_update)
next
  case step_fresh
  then show ?thesis by (auto simp: fresh_scheduler_def Let_def split: option.splits)
next
  case (step_tick vt hw ord today)
  then show ?thesis using slot_regs_kept [OF tick_systems_keeps(1) [OF step_tick]] by simp
qed (simp_all add: set_serial_mode_def set_ecs_worker_count_def)

lemma stale_stays:
  assumes "handle_stale h rs" "regs_older rs ts"
  shows "handle_stale h ts"
  using assms unfolding handle_stale_def regs_older_def by (metis order_less_le_trans)

lemma unregister_makes_stale:
  assumes "unat (handle_index h) < length (registry s)"
  shows "handle_stale h (registry (unregister_system h s))"
  using assms by (auto simp: handle_stale_def unregister_system_def Let_def)

text \<open>C10: Once a system has been unregistered its handle is ignored for good, whatever is registered, unregistered
  and ticked afterwards, as long as the registry is not cleared.\<close>

theorem unregistered_handle_ignored:
  assumes "unat (handle_index h) < length (registry s)" "registry_step\<^sup>*\<^sup>* (unregister_system h s) t"
  shows "unregister_system h t = t"
proof -
  have "handle_stale h (registry t)" using assms(2)
  proof (induction rule: rtranclp_induct)
    case base
    show ?case by (rule unregister_makes_stale [OF assms(1)])
  next
    case (step t u)
    then show ?case using stale_stays registry_step_older by blast
  qed
  then show ?thesis by (rule unregister_stale)
qed

text \<open>Clearing the registry starts the generations again: a handle from before names a system registered
  afterwards, and unregistering with it removes that system.\<close>

theorem cleared_handle_reused:
  shows "\<exists>h s t. register_system S code (new_system_world w) = (h, s) \<and> snd (register_system S' code' (clear_systems s)) = t
    \<and> map reg_alive (registry t) = [True] \<and> map reg_alive (registry (unregister_system h t)) = [False]"
  by (simp add: register_system_def new_system_world_def clear_systems_def unregister_system_def handle_valid_def registration_of_def Let_def)

section \<open>A tick of the World\<close>

lemma pool_order_any: "any_schedule (ord st d) \<Longrightarrow> any_schedule (pool_order n ord st d)"
  by (simp add: any_schedule_def pool_order_def)

definition workers_of :: "u32 \<Rightarrow> 'v SystemWorld \<Rightarrow> nat" where
  "workers_of hw s = fst (ecs_thread_pool hw (snd (fresh_scheduler s)))"


section \<open>A concrete registry\<close>

definition demo_systems :: "int SystemWorld" where
  "demo_systems =
     snd (register_system (demo_system 4 [entry 1 Read, entry 2 Write] [7]) demo_transfer
       (snd (register_system (demo_system 7 [entry 1 Write] []) (demo_idle True)
         (snd (register_system (demo_system 9 [entry 1 Read] []) (demo_idle False) (new_system_world demo_world))))))"

lemma demo_systems_state: "tick_state demo_systems = \<lparr>tick_world = demo_world, system_slots = demo_slots\<rparr>"
  by (simp add: demo_systems_def register_system_def new_system_world_def Let_def demo_slots_def demo_slot_def demo_late_def
      demo_reader_def demo_writer_def)

lemma demo_systems_regs: "registry demo_systems = demo_registry"
  by (simp add: demo_systems_state demo_slots_def demo_slot_def)

lemma demo_systems_reachable: "registry_reachable demo_systems"
  unfolding demo_systems_def by (intro registry_runs [OF _ step_register] registry_new)

theorem schedule_is_rebuilt_witness: "fst (debug_stage_count demo_systems) = 2 \<and> fst (debug_stage_index_of 4 demo_systems) = Some 1"
  using schedule_is_rebuilt [OF demo_systems_reachable, of 4]
  by (simp add: demo_systems_regs demo_stages stage_index_of_def demo_fields)

theorem unregistered_handle_ignored_witness:
  "map reg_alive (registry (unregister_system \<lparr>handle_index = 1, handle_generation = 1\<rparr> demo_systems)) = [True, False, True]
   \<and> unregister_system \<lparr>handle_index = 1, handle_generation = 1\<rparr>
       (set_serial_mode True (unregister_system \<lparr>handle_index = 1, handle_generation = 1\<rparr> demo_systems)) =
     set_serial_mode True (unregister_system \<lparr>handle_index = 1, handle_generation = 1\<rparr> demo_systems)"
proof -
  let ?h = "\<lparr>handle_index = 1 :: u32, handle_generation = 1 :: u32\<rparr>"
  have i: "unat (handle_index ?h) < length (registry demo_systems)" by (simp add: demo_systems_regs)
  have "unregister_system ?h (set_serial_mode True (unregister_system ?h demo_systems)) = set_serial_mode True (unregister_system ?h demo_systems)"
    by (rule unregistered_handle_ignored [OF i]) (rule r_into_rtranclp [where r = registry_step, OF step_serial])
  moreover have "map reg_alive (registry (unregister_system ?h demo_systems)) = [True, False, True]"
    by (simp add: unregister_system_def handle_valid_def Let_def demo_systems_state demo_slots_def demo_slot_def demo_records)
  ultimately show ?thesis by simp
qed


end
