(* ===== verification/World_Checksum.thy ===== *)
theory World_Checksum
  imports Entity_World
begin

text \<open>
  The checksum of the live state (\<open>ecs/Checksum.hpp\<close>, \<open>Checksum.cpp\<close>, \<open>ChecksumTraits.hpp\<close>).  How the values
  of a type hash is a parameter: by their bytes or by their own \<open>ecs_checksum\<close>; the bytes of a value are
  what the object representation of its type says.
\<close>

unbundle bit_operations_syntax

section \<open>Hashing\<close>

definition CHECKSUM_FNV_PRIME :: u64 where "CHECKSUM_FNV_PRIME = 0x100000001b3"
definition CHECKSUM_SEED :: u64 where "CHECKSUM_SEED = 0xcbf29ce484222325"

definition fnv1a_step :: "u64 \<Rightarrow> 8 word \<Rightarrow> u64" where
  "fnv1a_step h b = (h XOR ucast b) * CHECKSUM_FNV_PRIME"

definition fnv1a_64_bytes :: "8 word list \<Rightarrow> u64 \<Rightarrow> u64" where
  "fnv1a_64_bytes bytes seed = foldl fnv1a_step seed bytes"

text \<open>Low byte first.\<close>

definition bytes_of_uint64 :: "u64 \<Rightarrow> 8 word list" where
  "bytes_of_uint64 value = map (\<lambda>i. ucast ((drop_bit (i * 8) value) AND 0xFF)) [0..<8]"

definition fold_uint64 :: "u64 \<Rightarrow> u64 \<Rightarrow> u64" where
  "fold_uint64 value seed = foldl fnv1a_step seed (bytes_of_uint64 value)"

datatype 'v hashing = RawBytes "'v \<Rightarrow> 8 word list" | CustomHash "'v \<Rightarrow> u64 \<Rightarrow> u64"

definition checksum_value :: "vtables_of \<Rightarrow> (component_type_id_t \<Rightarrow> 'v hashing) \<Rightarrow> component_type_id_t \<Rightarrow> 'v \<Rightarrow> u64 \<Rightarrow> u64" where
  "checksum_value vt hs c v seed =
     (if vt_size (vt c) = 0 then seed
      else case hs c of RawBytes f \<Rightarrow> fnv1a_64_bytes (f v) seed | CustomHash f \<Rightarrow> f v seed)"

text \<open>The thunk of a column: a slab of raw bytes is hashed in one call.\<close>

definition hash_rows :: "vtables_of \<Rightarrow> (component_type_id_t \<Rightarrow> 'v hashing) \<Rightarrow> component_type_id_t \<Rightarrow> 'v list \<Rightarrow> u64 \<Rightarrow> u64" where
  "hash_rows vt hs c vs seed =
     (case hs c of
        RawBytes f \<Rightarrow> fnv1a_64_bytes (concat (map f vs)) seed
      | CustomHash f \<Rightarrow> foldl (\<lambda>h v. checksum_value vt hs c v h) seed vs)"

definition to_uint64 :: "EntityID \<Rightarrow> u64" where
  "to_uint64 e = push_bit 32 (ucast (generation e)) OR ucast (index e)"

section \<open>The walk\<close>

record ArchetypeChecksumEntry =
  entry_index :: u32
  entry_signature :: "component_type_id_t list"
  entry_hash :: u64

record SingletonChecksumEntry =
  singleton_id :: component_type_id_t
  singleton_hash :: u64

record WorldChecksumBreakdown =
  archetype_entries :: "ArchetypeChecksumEntry list"
  singleton_entries :: "SingletonChecksumEntry list"
  total_hash :: u64

fun read_all :: "'a option list \<Rightarrow> 'a list option" where
  "read_all [] = Some []"
| "read_all (x # xs) = do { v \<leftarrow> x; vs \<leftarrow> read_all xs; Some (v # vs) }"

text \<open>The column of a chunk, one value per row.\<close>

definition column_values_of :: "'v DataChunk \<Rightarrow> nat \<Rightarrow> 'v list option" where
  "column_values_of ch col = read_all (map (\<lambda>r. if col < length (row_cells r) then row_cells r ! col else None) (chunk_rows ch))"

fun hash_columns :: "vtables_of \<Rightarrow> (component_type_id_t \<Rightarrow> 'v hashing) \<Rightarrow> 'v DataChunk \<Rightarrow> nat \<Rightarrow>
    component_type_id_t list \<Rightarrow> u64 \<Rightarrow> u64 option" where
  "hash_columns vt hs ch col [] h = Some h"
| "hash_columns vt hs ch col (c # cs) h =
     (if vt_size (vt c) = 0 then hash_columns vt hs ch (Suc col) cs h
      else do {
        vs \<leftarrow> column_values_of ch col;
        hash_columns vt hs ch (Suc col) cs (hash_rows vt hs c vs h) })"

fun hash_chunks :: "vtables_of \<Rightarrow> (component_type_id_t \<Rightarrow> 'v hashing) \<Rightarrow> component_type_id_t list \<Rightarrow> 'v DataChunk list \<Rightarrow>
    u64 \<Rightarrow> u64 option" where
  "hash_chunks vt hs sig [] h = Some h"
| "hash_chunks vt hs sig (ch # chs) h = do {
     es \<leftarrow> read_all (map row_entity (chunk_rows ch));
     h \<leftarrow> hash_columns vt hs ch 0 sig (foldl (\<lambda>h e. fold_uint64 (to_uint64 e) h) h es);
     hash_chunks vt hs sig chs h }"

definition hash_archetype :: "vtables_of \<Rightarrow> (component_type_id_t \<Rightarrow> 'v hashing) \<Rightarrow> 'v Archetype \<Rightarrow> u64 option" where
  "hash_archetype vt hs a = hash_chunks vt hs (signature a) (chunks a) (foldl (\<lambda>h c. fold_uint64 c h) CHECKSUM_SEED (signature a))"

text \<open>Drained archetypes are skipped.\<close>

fun walk_archetypes :: "vtables_of \<Rightarrow> (component_type_id_t \<Rightarrow> 'v hashing) \<Rightarrow> 'v Archetype list \<Rightarrow> nat \<Rightarrow> u64 \<Rightarrow>
    (ArchetypeChecksumEntry list \<times> u64) option" where
  "walk_archetypes vt hs [] i acc = Some ([], acc)"
| "walk_archetypes vt hs (a # as) i acc =
     (if total_entity_count a = 0 then walk_archetypes vt hs as (Suc i) acc
      else do {
        h \<leftarrow> hash_archetype vt hs a;
        (es, acc) \<leftarrow> walk_archetypes vt hs as (Suc i) (fold_uint64 h acc);
        Some (\<lparr>entry_index = of_nat i, entry_signature = signature a, entry_hash = h\<rparr> # es, acc) })"

text \<open>Singletons in the order of their ids.\<close>

fun walk_singletons :: "vtables_of \<Rightarrow> (component_type_id_t \<Rightarrow> 'v hashing) \<Rightarrow> (component_type_id_t \<times> 'v) list \<Rightarrow> u64 \<Rightarrow>
    SingletonChecksumEntry list \<times> u64" where
  "walk_singletons vt hs [] acc = ([], acc)"
| "walk_singletons vt hs ((c, v) # xs) acc =
     (let h = checksum_value vt hs c v (fold_uint64 c CHECKSUM_SEED);
          (es, acc) = walk_singletons vt hs xs (fold_uint64 h acc)
      in (\<lparr>singleton_id = c, singleton_hash = h\<rparr> # es, acc))"

definition sorted_singletons :: "'v World \<Rightarrow> (component_type_id_t \<times> 'v) list" where
  "sorted_singletons w = map (\<lambda>c. (c, the (singletons w c))) (sorted_list_of_set (dom (singletons w)))"

definition world_checksum_breakdown :: "vtables_of \<Rightarrow> (component_type_id_t \<Rightarrow> 'v hashing) \<Rightarrow> 'v World \<Rightarrow> WorldChecksumBreakdown option" where
  "world_checksum_breakdown vt hs w = do {
     (as, acc) \<leftarrow> walk_archetypes vt hs (archetypes w) 0 CHECKSUM_SEED;
     let (ss, acc) = walk_singletons vt hs (sorted_singletons w) acc;
     Some \<lparr>archetype_entries = as, singleton_entries = ss, total_hash = acc\<rparr> }"

definition world_checksum :: "vtables_of \<Rightarrow> (component_type_id_t \<Rightarrow> 'v hashing) \<Rightarrow> 'v World \<Rightarrow> u64 option" where
  "world_checksum vt hs w = do {
     (_, acc) \<leftarrow> walk_archetypes vt hs (archetypes w) 0 CHECKSUM_SEED;
     Some (snd (walk_singletons vt hs (sorted_singletons w) acc)) }"

definition fold_checksum_breakdown :: "WorldChecksumBreakdown \<Rightarrow> u64" where
  "fold_checksum_breakdown b =
     foldl (\<lambda>acc e. fold_uint64 (singleton_hash e) acc)
       (foldl (\<lambda>acc e. fold_uint64 (entry_hash e) acc) CHECKSUM_SEED (archetype_entries b)) (singleton_entries b)"

section \<open>Hashing one by one\<close>

lemma hash_rows_each:
  assumes "vt_size (vt c) \<noteq> 0"
  shows "hash_rows vt hs c vs seed = foldl (\<lambda>h v. checksum_value vt hs c v h) seed vs"
proof (cases "hs c")
  case (RawBytes f)
  have "fnv1a_64_bytes (concat (map f vs)) seed = foldl (\<lambda>h v. fnv1a_64_bytes (f v) h) seed vs"
    by (induction vs arbitrary: seed) (simp_all add: fnv1a_64_bytes_def)
  then show ?thesis using assms by (simp add: hash_rows_def checksum_value_def RawBytes)
qed (simp add: hash_rows_def)

text \<open>C7: The checksum of a World is the total of its breakdown and the fold of the breakdown's entries.\<close>

theorem checksum_breakdown_total:
  "world_checksum vt hs w = map_option total_hash (world_checksum_breakdown vt hs w)
   \<and> world_checksum vt hs w = map_option fold_checksum_breakdown (world_checksum_breakdown vt hs w)"
proof -
  have a: "walk_archetypes vt hs as i t = Some (es, t') \<Longrightarrow> t' = foldl (\<lambda>acc e. fold_uint64 (entry_hash e) acc) t es" for as i t es t'
    by (induction as arbitrary: i t es) (auto simp: bind_eq_Some_conv split: if_splits)
  have s: "snd (walk_singletons vt hs xs t) = foldl (\<lambda>acc e. fold_uint64 (singleton_hash e) acc) t (fst (walk_singletons vt hs xs t))" for xs t
    by (induction xs arbitrary: t) (auto simp: Let_def case_prod_unfold)
  show ?thesis
  proof (cases "walk_archetypes vt hs (archetypes w) 0 CHECKSUM_SEED")
    case (Some p)
    obtain es t where p: "p = (es, t)" by (cases p)
    show ?thesis using a [of "archetypes w" 0 CHECKSUM_SEED es t] s [of "sorted_singletons w" t] Some
      by (simp add: world_checksum_def world_checksum_breakdown_def fold_checksum_breakdown_def p case_prod_unfold Let_def)
  qed (simp add: world_checksum_def world_checksum_breakdown_def)
qed

text \<open>What the checksum looks at: of every archetype that has entities its signature and rows, and the singletons.\<close>

definition live_state :: "'v World \<Rightarrow> (component_type_id_t list \<times> 'v Row list list) list \<times> (component_type_id_t \<Rightarrow> 'v option)" where
  "live_state w = (map (\<lambda>a. (signature a, map chunk_rows (chunks a))) (filter (\<lambda>a. total_entity_count a \<noteq> 0) (archetypes w)), singletons w)"

lemma hash_columns_rows: "chunk_rows ch = chunk_rows ch' \<Longrightarrow> hash_columns vt hs ch col sig h = hash_columns vt hs ch' col sig h"
  by (induction sig arbitrary: col h) (simp_all add: column_values_of_def)

lemma hash_chunks_rows: "map chunk_rows chs = map chunk_rows chs' \<Longrightarrow> hash_chunks vt hs sig chs h = hash_chunks vt hs sig chs' h"
proof (induction chs arbitrary: chs' h)
  case (Cons ch chs)
  then obtain ch' chs'' where c: "chs' = ch' # chs''" "chunk_rows ch = chunk_rows ch'" "map chunk_rows chs = map chunk_rows chs''"
    by (cases chs') auto
  have "hash_chunks vt hs sig chs = hash_chunks vt hs sig chs''" by (rule ext) (rule Cons.IH [OF c(3)])
  then show ?case by (simp add: c(1,2) hash_columns_rows [OF c(2)])
qed simp

lemma walk_live:
  assumes "map (\<lambda>a. (signature a, map chunk_rows (chunks a))) (filter (\<lambda>a. total_entity_count a \<noteq> 0) as) =
    map (\<lambda>a. (signature a, map chunk_rows (chunks a))) (filter (\<lambda>a. total_entity_count a \<noteq> 0) bs)"
  shows "map_option snd (walk_archetypes vt hs as i t) = map_option snd (walk_archetypes vt hs bs j t)"
proof -
  let ?P = "\<lambda>a. total_entity_count a \<noteq> 0" and ?live = "\<lambda>a. (signature a, map chunk_rows (chunks a))"
  define hashes where "hashes = (\<lambda>as :: 'a Archetype list. read_all (map (hash_archetype vt hs) (filter ?P as)))"
  have walk: "map_option snd (walk_archetypes vt hs as i t) = map_option (foldl (\<lambda>acc h. fold_uint64 h acc) t) (hashes as)" for as i t
  proof (induction as arbitrary: i t)
    case (Cons a as)
    show ?case
    proof (cases "total_entity_count a = 0")
      case False
      have "map_option snd (walk_archetypes vt hs (a # as) i t) = Option.bind (hash_archetype vt hs a)
          (\<lambda>h. map_option snd (walk_archetypes vt hs as (Suc i) (fold_uint64 h t)))"
      proof (cases "hash_archetype vt hs a")
        case (Some h)
        then show ?thesis using False by (cases "walk_archetypes vt hs as (Suc i) (fold_uint64 h t)") (auto simp: case_prod_unfold)
      qed (use False in simp)
      moreover have "hashes (a # as) = Option.bind (hash_archetype vt hs a) (\<lambda>h. map_option ((#) h) (hashes as))"
        using False by (cases "read_all (map (hash_archetype vt hs) (filter ?P as))") (simp_all add: hashes_def)
      ultimately show ?thesis by (cases "hash_archetype vt hs a") (simp_all add: Cons option.map_comp comp_def)
    qed (use Cons in \<open>simp add: hashes_def\<close>)
  qed (simp add: hashes_def)
  have same: "hash_archetype vt hs a = hash_archetype vt hs b" if "?live a = ?live b" for a b
    using that hash_chunks_rows [of "chunks a" "chunks b"] by (simp add: hash_archetype_def)
  have "map (hash_archetype vt hs) (filter ?P as) = map (hash_archetype vt hs) (filter ?P bs)"
  proof (rule nth_equalityI)
    show l: "length (map (hash_archetype vt hs) (filter ?P as)) = length (map (hash_archetype vt hs) (filter ?P bs))"
      using arg_cong [OF assms, of length] by simp
    fix k assume k: "k < length (map (hash_archetype vt hs) (filter ?P as))"
    have "?live (filter ?P as ! k) = ?live (filter ?P bs ! k)" using arg_cong [OF assms, of "\<lambda>xs. xs ! k"] k l by simp
    from same [OF this] show "map (hash_archetype vt hs) (filter ?P as) ! k = map (hash_archetype vt hs) (filter ?P bs) ! k"
      using k l by simp
  qed
  then show ?thesis by (simp add: walk hashes_def)
qed

text \<open>C6: Worlds with the same live state have the same checksum, whatever archetypes have been drained, whatever
  the slot table, the chunk pool, the versions and the cached queries hold.\<close>

theorem checksum_live_state:
  assumes "live_state w = live_state w'"
  shows "world_checksum vt hs w = world_checksum vt hs w'"
proof -
  have s: "sorted_singletons w = sorted_singletons w'" using assms by (simp add: live_state_def sorted_singletons_def)
  have "map_option snd (walk_archetypes vt hs (archetypes w) 0 CHECKSUM_SEED) = map_option snd (walk_archetypes vt hs (archetypes w') 0 CHECKSUM_SEED)"
    by (rule walk_live) (use assms in \<open>simp add: live_state_def\<close>)
  moreover have "world_checksum vt hs v = map_option (\<lambda>t. snd (walk_singletons vt hs (sorted_singletons v) t))
      (map_option snd (walk_archetypes vt hs (archetypes v) 0 CHECKSUM_SEED))" for v
    by (cases "walk_archetypes vt hs (archetypes v) 0 CHECKSUM_SEED") (simp_all add: world_checksum_def case_prod_unfold)
  ultimately show ?thesis by (simp add: s)
qed

section \<open>A difference persists\<close>

lemma prime_inverse: "CHECKSUM_FNV_PRIME * 0xce965057aff6957b = 1"
  by (simp add: CHECKSUM_FNV_PRIME_def)

lemma fnv1a_step_inj: "fnv1a_step h b = fnv1a_step h' b \<longleftrightarrow> h = h'"
proof
  assume "fnv1a_step h b = fnv1a_step h' b"
  then have "(h XOR ucast b) * (CHECKSUM_FNV_PRIME * 0xce965057aff6957b) = (h' XOR ucast b) * (CHECKSUM_FNV_PRIME * 0xce965057aff6957b)"
    by (simp add: fnv1a_step_def mult.assoc [symmetric] del: mult.assoc)
  then have "h XOR ucast b = h' XOR ucast b" by (simp add: prime_inverse)
  then have "(h XOR ucast b) XOR ucast b = (h' XOR ucast b) XOR ucast b" by simp
  then show "h = h'" by (simp add: xor.assoc)
qed simp

lemma fnv1a_bytes_inj: "fnv1a_64_bytes bs h = fnv1a_64_bytes bs h' \<longleftrightarrow> h = h'"
  by (induction bs arbitrary: h h') (simp_all add: fnv1a_64_bytes_def fnv1a_step_inj)

lemma fold_uint64_inj: "fold_uint64 v h = fold_uint64 v h' \<longleftrightarrow> h = h'"
  using fnv1a_bytes_inj [of "bytes_of_uint64 v"] by (simp add: fold_uint64_def fnv1a_64_bytes_def)

text \<open>A difference is never lost: when two archetypes or two singletons hash differently while everything
  behind them hashes the same, the totals differ.\<close>

theorem checksum_difference_persists:
  assumes "archetype_entries b = xs @ e # zs" "archetype_entries b' = xs' @ e' # zs'"
    "map entry_hash zs = map entry_hash zs'" "map singleton_hash (singleton_entries b) = map singleton_hash (singleton_entries b')"
    "fold_checksum_breakdown (b\<lparr>archetype_entries := xs @ [e], singleton_entries := []\<rparr>) \<noteq>
     fold_checksum_breakdown (b'\<lparr>archetype_entries := xs' @ [e'], singleton_entries := []\<rparr>)"
  shows "fold_checksum_breakdown b \<noteq> fold_checksum_breakdown b'"
proof -
  have inj: "foldl (\<lambda>acc e. fold_uint64 (f e) acc) h es = foldl (\<lambda>acc e. fold_uint64 (f e) acc) h' es' \<longleftrightarrow> h = h'"
    if "map f es = map f es'" for f :: "'x \<Rightarrow> u64" and es es' h h'
  proof -
    have "foldl (\<lambda>acc e. fold_uint64 (f e) acc) h es = foldl (\<lambda>acc v. fold_uint64 v acc) h (map f es)" for h es
      by (induction es arbitrary: h) simp_all
    moreover have "foldl (\<lambda>acc v. fold_uint64 v acc) h vs = foldl (\<lambda>acc v. fold_uint64 v acc) h' vs \<longleftrightarrow> h = h'" for vs
      by (induction vs arbitrary: h h') (simp_all add: fold_uint64_inj)
    ultimately show ?thesis using that by simp
  qed
  show ?thesis using assms(5) by (simp add: fold_checksum_breakdown_def assms(1,2) inj [OF assms(4)] inj [OF assms(3)])
qed

section \<open>A concrete checksum\<close>

text \<open>Two histories of one entity: in the second an archetype was drained before and a query is cached.\<close>

definition checked_archetype :: "component_type_id_t \<Rightarrow> int Row list \<Rightarrow> int Archetype" where
  "checked_archetype c rows = \<lparr>signature = [c], vtables = [\<lparr>vt_size = 1, vt_align = 1\<rparr>], column_offsets = [0], column_versions = [0],
     chunk_capacity = 8, total_entity_count = length rows, chunks = [\<lparr>chunk_block = 0, chunk_rows = rows\<rparr>],
     matcher_hash = compute_matcher_hash [c]\<rparr>"

definition checked_row :: "int Row" where
  "checked_row = \<lparr>row_entity = Some \<lparr>index = 4, generation = 2\<rparr>, row_cells = [Some 9]\<rparr>"

definition checked_world :: "int World" where
  "checked_world = empty_world\<lparr>archetypes := [checked_archetype 7 [checked_row]], singletons := [5 \<mapsto> 1]\<rparr>"

definition checked_world_after :: "int World" where
  "checked_world_after = empty_world\<lparr>archetypes := [checked_archetype 3 [], checked_archetype 7 [checked_row]], archetype_epoch := 2,
     query_cache := [\<lparr>require_ids = [3], exclude_ids = []\<rparr> \<mapsto> \<lparr>epoch = 1, require_matcher = 8, exclude_matcher = 0, archetype_indices = [0]\<rparr>],
     singletons := [5 \<mapsto> 1]\<rparr>"

theorem checksum_live_state_witness:
  "world_checksum (\<lambda>_. \<lparr>vt_size = 1, vt_align = 1\<rparr>) (\<lambda>_. RawBytes (\<lambda>v. [of_int v])) checked_world =
     world_checksum (\<lambda>_. \<lparr>vt_size = 1, vt_align = 1\<rparr>) (\<lambda>_. RawBytes (\<lambda>v. [of_int v])) checked_world_after
   \<and> length (archetypes checked_world) \<noteq> length (archetypes checked_world_after)"
  using checksum_live_state [of checked_world checked_world_after]
  by (simp add: live_state_def checked_world_def checked_world_after_def checked_archetype_def)

end
