(* ===== verification/Reductions.thy ===== *)
theory Reductions
  imports Sim_Prelude "HOL-Library.Multiset"
begin

text \<open>
  Folds over chunks whose parts are computed in parallel (\<open>ecs/Reductions.hpp\<close>).  \<open>od\<close> is the order in
  which the pool runs the bodies; each writes its own entry of a vector, which is then folded in the
  order of the chunks.
\<close>

section \<open>Folds\<close>

definition per_chunk :: "nat list \<Rightarrow> nat \<Rightarrow> 't \<Rightarrow> (nat \<Rightarrow> 't) \<Rightarrow> 't list" where
  "per_chunk od n zero body = foldl (\<lambda>parts k. parts[k := body k]) (replicate n zero) od"

definition parallel_sum :: "nat list \<Rightarrow> nat \<Rightarrow> 't \<Rightarrow> 't \<Rightarrow> (nat \<Rightarrow> 't :: plus) \<Rightarrow> 't" where
  "parallel_sum od n zero init body = foldl (+) init (per_chunk od n zero body)"

definition parallel_min :: "nat list \<Rightarrow> nat \<Rightarrow> 't \<Rightarrow> 't \<Rightarrow> (nat \<Rightarrow> 't :: ord) \<Rightarrow> 't" where
  "parallel_min od n zero init body = foldl (\<lambda>acc x. if x < acc then x else acc) init (per_chunk od n zero body)"

definition parallel_max :: "nat list \<Rightarrow> nat \<Rightarrow> 't \<Rightarrow> 't \<Rightarrow> (nat \<Rightarrow> 't :: ord) \<Rightarrow> 't" where
  "parallel_max od n zero init body = foldl (\<lambda>acc x. if acc < x then x else acc) init (per_chunk od n zero body)"

section \<open>Keyed sums\<close>

type_synonym 't KeyedEmitter = "(nat \<times> 't) list"

fun add_to_entry :: "nat \<Rightarrow> 't \<Rightarrow> ('t :: plus) KeyedEmitter \<Rightarrow> 't KeyedEmitter" where
  "add_to_entry key value [] = [(key, value)]"
| "add_to_entry key value ((k, v) # entries) =
     (if k = key then (k, v + value) # entries else (k, v) # add_to_entry key value entries)"

text \<open>The newest entry is tried first.\<close>

definition emit :: "nat \<Rightarrow> 't \<Rightarrow> ('t :: plus) KeyedEmitter \<Rightarrow> 't KeyedEmitter" where
  "emit key value entries =
     (if entries \<noteq> [] \<and> fst (last entries) = key
      then butlast entries @ [(key, snd (last entries) + value)]
      else add_to_entry key value entries)"

text \<open>The entries of the first \<open>n\<close> emitters are cleared; a body emits into its own.\<close>

definition keyed_scratch :: "nat list \<Rightarrow> nat \<Rightarrow> (nat \<Rightarrow> (nat \<times> 't :: plus) list) \<Rightarrow> 't KeyedEmitter list \<Rightarrow> 't KeyedEmitter list" where
  "keyed_scratch od n body scratch =
     (let scratch = scratch @ replicate (n - length scratch) [];
          scratch = replicate n [] @ drop n scratch
      in foldl (\<lambda>parts k. parts[k := foldl (\<lambda>es (key, v). emit key v es) (parts ! k) (body k)]) scratch od)"

text \<open>\<^const>\<open>None\<close> is a key outside \<open>out\<close>.\<close>

fun add_entries :: "('t :: plus) KeyedEmitter \<Rightarrow> 't list \<Rightarrow> 't list option" where
  "add_entries [] out = Some out"
| "add_entries ((k, v) # es) out = (if k < length out then add_entries es (out[k := out ! k + v]) else None)"

definition parallel_keyed_sum ::
    "nat list \<Rightarrow> nat \<Rightarrow> 't list \<Rightarrow> (nat \<Rightarrow> (nat \<times> 't :: plus) list) \<Rightarrow> 't KeyedEmitter list \<Rightarrow> ('t list \<times> 't KeyedEmitter list) option" where
  "parallel_keyed_sum od n out body scratch =
     (let parts = keyed_scratch od n body scratch
      in map_option (\<lambda>out. (out, parts)) (add_entries (concat (take n parts)) out))"

section \<open>The order of the pool does not matter\<close>

lemma foldl_put_length [simp]: "length (foldl (\<lambda>parts k. parts[k := f k (parts ! k)]) xs od) = length xs"
  by (induction od arbitrary: xs) simp_all

lemma foldl_put_nth:
  assumes "distinct od" "set od \<subseteq> {..<length xs}" "k < length xs"
  shows "foldl (\<lambda>parts k. parts[k := f k (parts ! k)]) xs od ! k = (if k \<in> set od then f k (xs ! k) else xs ! k)"
  using assms
proof (induction od arbitrary: xs)
  case (Cons i od)
  let ?F = "\<lambda>parts k. parts[k := f k (parts ! k)]" and ?xs = "xs[i := f i (xs ! i)]"
  have ih: "foldl ?F ?xs od ! k = (if k \<in> set od then f k (?xs ! k) else ?xs ! k)"
    by (rule Cons.IH) (use Cons.prems in auto)
  have i: "i \<notin> set od" "i < length xs" using Cons.prems by auto
  show ?case
  proof (cases "k = i")
    case True
    then show ?thesis using ih i by simp
  next
    case False
    then show ?thesis using ih by simp
  qed
qed simp

lemma schedule_facts:
  assumes "mset od = mset [0..<n]"
  shows "distinct od" "set od = {..<n}"
proof -
  show "distinct od" using mset_eq_imp_distinct_iff [OF assms] by simp
  show "set od = {..<n}" using mset_eq_setD [OF assms] by (simp only: set_upt atLeast0LessThan)
qed

lemma per_chunk_map:
  assumes "mset od = mset [0..<n]"
  shows "per_chunk od n zero body = map body [0..<n]"
proof (rule nth_equalityI)
  note od = schedule_facts [OF assms]
  have n: "length (per_chunk od n zero body) = n"
    unfolding per_chunk_def by (induction od rule: rev_induct) simp_all
  show "length (per_chunk od n zero body) = length (map body [0..<n])" by (simp add: n)
  fix k assume "k < length (per_chunk od n zero body)"
  then have k: "k < n" by (simp add: n)
  show "per_chunk od n zero body ! k = map body [0..<n] ! k"
    unfolding per_chunk_def using foldl_put_nth [of od "replicate n zero" k "\<lambda>k _. body k"] od k by simp
qed

lemma scratch_map:
  assumes "mset od = mset [0..<n]"
  shows "take n (keyed_scratch od n body scratch) = map (\<lambda>k. foldl (\<lambda>es (key, v). emit key v es) [] (body k)) [0..<n]"
proof (rule nth_equalityI)
  note od = schedule_facts [OF assms]
  let ?f = "\<lambda>k es. foldl (\<lambda>es (key, v). emit key v es) es (body k)"
  let ?s = "replicate n [] @ drop n (scratch @ replicate (n - length scratch) [])"
  have s: "keyed_scratch od n body scratch = foldl (\<lambda>parts k. parts[k := ?f k (parts ! k)]) ?s od"
    by (simp add: keyed_scratch_def Let_def)
  have l: "length (foldl (\<lambda>parts k. parts[k := ?f k (parts ! k)]) ?s od) = length ?s"
    by (induction od rule: rev_induct) simp_all
  show "length (take n (keyed_scratch od n body scratch)) = length (map (\<lambda>k. ?f k []) [0..<n])"
    unfolding s length_take l by simp
  fix k assume "k < length (take n (keyed_scratch od n body scratch))"
  then have k: "k < n" by simp
  have "foldl (\<lambda>parts k. parts[k := ?f k (parts ! k)]) ?s od ! k = ?f k []"
    using foldl_put_nth [of od ?s k ?f] od k by (simp add: nth_append)
  then show "take n (keyed_scratch od n body scratch) ! k = map (\<lambda>k. ?f k []) [0..<n] ! k" using k by (simp add: s)
qed

text \<open>Sums, minima and maxima over chunks do not depend on the order in which the pool computes the parts: they
  are the folds of the parts in the order of the chunks, and minimum and maximum are those of the set.\<close>

theorem parallel_folds:
  fixes body :: "nat \<Rightarrow> 't :: {linorder, plus}"
  assumes "mset od = mset [0..<n]"
  shows "parallel_sum od n zero init body = foldl (+) init (map body [0..<n])
    \<and> parallel_min od n zero init body = Min (insert init (body ` {..<n}))
    \<and> parallel_max od n zero init body = Max (insert init (body ` {..<n}))"
proof -
  have "foldl (\<lambda>acc x. if x < acc then x else acc) a xs = Min (insert a (set xs))" for a and xs :: "'t list"
  proof (induction xs arbitrary: a)
    case (Cons x xs)
    have "Min (insert (min a x) (set xs)) = Min (insert a (insert x (set xs)))"
      by (cases "set xs = {}") (simp_all add: Min_insert min.assoc)
    moreover have "(if x < a then x else a) = min a x" by (auto simp: min_def)
    ultimately show ?case using Cons [of "min a x"] by simp
  qed simp
  moreover have "foldl (\<lambda>acc x. if acc < x then x else acc) a xs = Max (insert a (set xs))" for a and xs :: "'t list"
  proof (induction xs arbitrary: a)
    case (Cons x xs)
    have "Max (insert (max a x) (set xs)) = Max (insert a (insert x (set xs)))"
      by (cases "set xs = {}") (simp_all add: Max_insert max.assoc)
    moreover have "(if a < x then x else a) = max a x" by (auto simp: max_def)
    ultimately show ?case using Cons [of "max a x"] by simp
  qed simp
  moreover have "set (map body [0..<n]) = body ` {..<n}" by auto
  ultimately show ?thesis
    unfolding parallel_sum_def parallel_min_def parallel_max_def per_chunk_map [OF assms] by metis
qed

section \<open>Keyed sums\<close>

text \<open>The sum of the values emitted under a key.\<close>

definition key_total :: "nat \<Rightarrow> (nat \<times> 't) list \<Rightarrow> 't :: comm_monoid_add" where
  "key_total key es = sum_list (map snd (filter (\<lambda>e. fst e = key) es))"

lemma key_total_simps [simp]:
  "key_total key [] = 0" "key_total key (e # es) = (if fst e = key then snd e else 0) + key_total key es"
  "key_total key (es @ fs) = key_total key es + key_total key fs"
  by (simp_all add: key_total_def)

lemma add_to_entry_total: "key_total key (add_to_entry k v es) = key_total key es + (if k = key then v else 0)"
  by (induction k v es rule: add_to_entry.induct) (auto simp: ac_simps)

lemma emit_total: "key_total key (emit k v es) = key_total key es + (if k = key then v else 0)"
proof (cases "es \<noteq> [] \<and> fst (last es) = k")
  case True
  then obtain fs w where "es = fs @ [(k, w)]" by (metis append_butlast_last_id prod.collapse)
  then show ?thesis by (simp add: emit_def ac_simps)
next
  case False
  then have "emit k v es = add_to_entry k v es" by (auto simp: emit_def)
  then show ?thesis by (simp add: add_to_entry_total)
qed

lemma emit_all_total: "key_total key (foldl (\<lambda>es (k, v). emit k v es) es ps) = key_total key es + key_total key ps"
  by (induction ps arbitrary: es) (auto simp: emit_total ac_simps)

lemma keys_emit: "fst ` set (emit k v es) = insert k (fst ` set es)"
proof -
  have a: "fst ` set (add_to_entry k v es) = insert k (fst ` set es)" for es
    by (induction k v es rule: add_to_entry.induct) auto
  show ?thesis
  proof (cases "es \<noteq> [] \<and> fst (last es) = k")
    case True
    then obtain fs w where "es = fs @ [(k, w)]" by (metis append_butlast_last_id prod.collapse)
    then show ?thesis by (simp add: emit_def)
  next
    case False
    then have "emit k v es = add_to_entry k v es" by (auto simp: emit_def)
    then show ?thesis by (simp add: a)
  qed
qed

lemma keys_emit_all: "fst ` set (foldl (\<lambda>es (k, v). emit k v es) es ps) = fst ` set es \<union> fst ` set ps"
proof (induction ps arbitrary: es)
  case (Cons p ps)
  show ?case by (cases p) (simp add: Cons keys_emit)
qed simp

lemma add_entries_total:
  assumes "fst ` set es \<subseteq> {..<length out}"
  shows "\<exists>res. add_entries es out = Some res \<and> length res = length out \<and> (\<forall>k < length out. res ! k = out ! k + key_total k es)"
  using assms
proof (induction es arbitrary: out)
  case (Cons e es)
  obtain k v where e: "e = (k, v)" by (cases e)
  have k: "k < length out" "fst ` set es \<subseteq> {..<length (out[k := out ! k + v])}" using Cons.prems by (auto simp: e)
  obtain res where r: "add_entries es (out[k := out ! k + v]) = Some res" "length res = length out"
    "\<forall>i < length out. res ! i = (out[k := out ! k + v]) ! i + key_total i es"
    using Cons.IH [OF k(2)] by auto
  show ?case using r k(1) by (auto simp: e nth_list_update ac_simps)
qed simp

text \<open>C8: A keyed sum adds to every entry of \<open>out\<close> what the chunks emitted under its key, whatever the order of the pool,
  whatever the reused buffers held, and however the emissions were merged; a key outside \<open>out\<close> is the only
  fault.\<close>

theorem parallel_keyed_sum_spec:
  fixes out :: "('t :: comm_monoid_add) list"
  assumes "mset od = mset [0..<n]" "\<forall>k < n. fst ` set (body k) \<subseteq> {..<length out}"
  shows "\<exists>res parts. parallel_keyed_sum od n out body scratch = Some (res, parts) \<and> length res = length out
    \<and> (\<forall>key < length out. res ! key = out ! key + key_total key (concat (map body [0..<n])))"
proof -
  let ?es = "concat (map (\<lambda>k. foldl (\<lambda>es (key, v). emit key v es) [] (body k)) [0..<n])"
  have "fst ` set ?es \<subseteq> {..<length out}" using assms(2) keys_emit_all [of "[]"] by fastforce
  then obtain res where r: "add_entries ?es out = Some res" "length res = length out" "\<forall>k < length out. res ! k = out ! k + key_total k ?es"
    using add_entries_total by blast
  have "key_total key (concat (map (\<lambda>k. foldl (\<lambda>es (key, v). emit key v es) [] (body k)) ks)) = key_total key (concat (map body ks))" for key ks
    by (induction ks) (simp_all add: emit_all_total)
  then show ?thesis using r by (auto simp: parallel_keyed_sum_def Let_def scratch_map [OF assms(1)])
qed

theorem parallel_folds_witness:
  "parallel_sum [2, 0, 1] 3 0 10 (\<lambda>k. int k * 3) = 19 \<and> parallel_min [2, 0, 1] 3 0 10 (\<lambda>k. int k * 3) = 0"
proof -
  have m: "mset [2, 0, 1 :: nat] = mset [0..<3]" by (simp add: upt_rec numeral_3_eq_3)
  show ?thesis using parallel_folds [OF m, of 0 10 "\<lambda>k. int k * 3"] by (simp add: upt_rec numeral_3_eq_3 lessThan_Suc)
qed

theorem parallel_keyed_sum_spec_witness:
  "\<exists>parts. parallel_keyed_sum [1, 0] 2 [100, 0] (\<lambda>k. [(0, int k + 1), (1, 5), (0, 7)]) [[(0, 3)]] = Some ([117, 10], parts)"
proof -
  let ?body = "\<lambda>k. [(0, int k + 1), (1, 5), (0, 7)]"
  have m: "mset [1, 0 :: nat] = mset [0..<2]" by (simp add: upt_rec numeral_2_eq_2)
  obtain res parts where r: "parallel_keyed_sum [1, 0] 2 [100, 0] ?body [[(0, 3)]] = Some (res, parts)" "length res = 2"
      "\<forall>key < 2. res ! key = [100, 0] ! key + key_total key (concat (map ?body [0..<2]))"
    using parallel_keyed_sum_spec [OF m, of ?body "[100, 0]" "[[(0, 3)]]"] by (auto simp: lessThan_Suc numeral_2_eq_2)
  have "res = [117, 10]"
    by (rule nth_equalityI) (use r in \<open>auto simp: less_Suc_eq upt_rec numeral_2_eq_2\<close>)
  then show ?thesis using r(1) by blast
qed

end
