(* ===== verification/Spec2Isabelle.thy ===== *)
theory Spec2Isabelle
  imports Sim_Prelude Fixed_Point Fixed_Math Char_Conv Game_Date Slot_Allocator Chunk_Pool Entity_Slots
    Archetype_Store Entity_World World_Invariant World_Removal World_Steps World_Frames World_Blocks World_Queries World_Properties World_Histories
    Cached_References System_Access System_Scheduler Scheduler_Graph Scheduler_Properties Scheduler_Independence
    Bulk_Creation Bulk_Rows Bulk_Worlds Bulk_Equivalence Bulk_Properties
    Command_Buffer Command_Merge Command_Immediate Command_Safety Command_Properties
    Effect_Frames System_Run Tick_Places Stage_Order Stage_Items Stage_Modes Stage_Runs Tick_Bodies Demo_Stage
    Run_Properties Spawn_Hazard Thread_Pool System_Registry Registry_Properties
    World_Checksum Reductions
begin

text \<open>
  A model of the core of the OpenVic simulation (\<open>src/openvic-simulation/\<close>): the
  entity-component system that holds and updates the state of a game, with its scheduler and its
  deferred changes, and the deterministic arithmetic, text and calendar routines everything is computed
  with.  The program is meant for lockstep play, so that the same inputs must give the same state on
  every machine; the theorems say what each part computes, on every branch, and that the result of a
  tick depends on nothing else.

  \<^bold>\<open>The program's parts.\<close>  The World (\<open>ecs/World.hpp\<close>, \<open>World.cpp\<close>) owns a table of entity slots, a list
  of archetypes, one per set of components, whose rows live in chunks taken from a pool, a cache of
  queries, singletons and a registry of systems.  An entity is an index into the slot table with a
  generation; its slot names the archetype, chunk and row that hold its components.  Systems declare
  what they read and write; the scheduler lays them out in stages whose systems may run at the same time.
  While they run the World refuses structural changes; systems record them in command buffers, which
  are merged and applied between the stages.

  \<^bold>\<open>Theories.\<close>

  \<^item> \<open>Sim_Prelude\<close>: words, fallible lists, the lemmas and rule collections the others share.
  \<^item> \<open>Slot_Allocator\<close>, \<open>Chunk_Pool\<close>, \<open>Entity_Slots\<close>: three sources of identifiers,
    \<open>DenseSlotAllocator\<close>, \<open>ChunkPool\<close> and the slot table of the World (\<open>allocate_entity_slot\<close>,
    \<open>reserve_entity_slot\<close>, \<open>snapshot_identity\<close>, \<open>restore_identity\<close>), each an instance of the
    locale of a source that never gives out what is in use, the pool also between the ticks that age it;
    snapshots round trip and corrupt ones are
    refused; a stale handle stays dead.
  \<^item> \<open>Archetype_Store\<close>: \<open>Archetype.hpp\<close>, \<open>Chunk.hpp\<close>: the layout of a chunk, rows that are
    reserved one by one or in bulk, compaction by swap-remove, the merges over sorted signatures.  A row is
    its entity and a list of cells, \<^const>\<open>None\<close> for raw memory.
  \<^item> \<open>Entity_World\<close> has the operations of the World; \<open>World_Invariant\<close>, \<open>World_Removal\<close> and
    \<open>World_Queries\<close> prove them correct against the abstract map from identifiers to components, and
    \<open>World_Properties\<close> states the results.  \<open>World_Steps\<close> has the locale of relations along the updates
    an operation is made of, \<open>World_Frames\<close> and \<open>World_Blocks\<close> its instances for what no operation touches
    and for the memory of the chunks.  \<open>World_Histories\<close> puts the operations in any order: what every
    reachable World keeps.  \<open>Cached_References\<close> says when a \<open>CachedRef\<close> (\<open>CachedRef.hpp\<close>) follows
    an entity that is moved.
  \<^item> \<open>Bulk_Creation\<close> models the creation of many entities; \<open>Bulk_Rows\<close>, \<open>Bulk_Worlds\<close>,
    \<open>Bulk_Equivalence\<close> and \<open>Bulk_Properties\<close> prove it equal to the loop of single creations.
  \<^item> \<open>Command_Buffer\<close> models recording, merging and applying (\<open>CommandBuffer.hpp\<close>, \<open>.cpp\<close>);
    \<open>Command_Merge\<close>, \<open>Command_Immediate\<close>, \<open>Command_Safety\<close> and \<open>Command_Properties\<close> show
    that merging is concatenation, that a recorded operation does what the immediate one does, and that
    no recorded buffer can make applying fault.
  \<^item> \<open>System_Access\<close> (\<open>SystemAccess.hpp\<close>, the metadata of \<open>System.hpp\<close>), \<open>System_Scheduler\<close>
    (\<open>SystemScheduler::rebuild\<close>); \<open>Scheduler_Graph\<close>, \<open>Scheduler_Properties\<close> and
    \<open>Scheduler_Independence\<close>: a schedule exists exactly when the declared order has no cycle, it is
    complete, respects the order, keeps conflicting systems apart and depends only on the set of systems.
  \<^item> \<open>System_Run\<close> models a tick: \<open>SystemScheduler::run\<close>, the dispatch of one system (\<open>SystemImpl.hpp\<close>,
    \<open>ChunkSystem.hpp\<close>) and the iterations of the World, with the body of a system as a parameter.
    \<open>Effect_Frames\<close> has the locale of a state made of a skeleton and places, with operations that
    read and write some of them; \<open>Tick_Places\<close> instantiates it for the World and for a stage,
    \<open>Stage_Order\<close>, \<open>Stage_Items\<close>, \<open>Stage_Modes\<close> and \<open>Stage_Runs\<close> turn declared accesses into
    places and show that the items of a stage commute and that both modes do the same;
    \<open>Run_Properties\<close> draws the conclusion for a stage, on the example of \<open>Tick_Bodies\<close> and
    \<open>Demo_Stage\<close>.  \<open>Spawn_Hazard\<close> has two systems that fall outside it.
  \<^item> \<open>System_Registry\<close> (\<open>World::register_system\<close> to \<open>ecs_thread_pool\<close>) and
    \<open>Registry_Properties\<close>: the schedule in use is always current, handles do not outlive their system,
    and a tick is the same for any number of workers.
  \<^item> \<open>Thread_Pool\<close> (\<open>EcsThreadPool.hpp\<close>, \<open>.cpp\<close>) models workers and callers as steps; when a
    call returns each of its bodies has run once, and every call returns unless all workers wait in calls
    their bodies made, the deadlock \<open>docs/ecs/threading-and-reductions.md\<close> warns of.  This is what entitles \<open>System_Run\<close> to take
    the pool for an order of the jobs.
  \<^item> \<open>World_Checksum\<close> (\<open>Checksum.cpp\<close>, \<open>ChecksumTraits.hpp\<close>) and \<open>Reductions\<close> (\<open>Reductions.hpp\<close>): the
    digest of the live state and the parallel folds the bodies of systems use.
  \<^item> \<open>Fixed_Point\<close>, \<open>Fixed_Math\<close> (\<open>types/fixed_point/\<close>, \<open>core/Math.hpp\<close>, \<open>MathSqrt.hpp\<close>, the
    weighted draw), \<open>Char_Conv\<close> (\<open>core/string/CharConv.hpp\<close>), \<open>Game_Date\<close>
    (\<open>types/Date.hpp\<close>): arithmetic at its width, with its overflow, parsing and printing.

  \<^bold>\<open>Reading the model.\<close>  Integers are words of their C++ width; signed overflow wraps.  A result
  \<^const>\<open>None\<close> stands for what the code must not do, reading outside a container or a cell that
  holds no value, constructing over a live one, dividing by zero; a refusal that the code reports is a
  value.  Component values are a type variable, the table of column types a parameter, and a pointer is the
  place it addresses.  Loops are structural or carry a termination proof, so no operation takes fuel.
  The counters of the World are 32 bits wide: \<open>has_room\<close> and \<open>room_for\<close> say that fewer than
  \<open>2 ^ 32 - 1\<close> slots, rows and archetypes are in use, the only bound the theorems on the World assume.

  \<^bold>\<open>Not modelled.\<close>  Game rules outside the entity-component system (economy, population, map,
  military, politics, diplomacy, countries) read their data from files through an external parser and
  call each other through modifier tables; pathfinding, containers, signals, colours, logging, the
  console and the interface are not modelled either.  The manifest gives the reason for each.
\<close>

end
